(* ===== verification/Prelude.thy ===== *)
theory Prelude
  imports Main "HOL-Library.Word" "HOL-Library.Multiset"
begin

section \<open>Shared types, Python sequence operations and automation\<close>

text \<open>
  This theory holds what every component of the development uses: the exceptions the Python
  sources raise, the result type of a fallible operation, the outcome type of an operation that
  also changes state (the state an exception leaves behind is part of the outcome), Python's
  indexing, slicing and slice assignment with their treatment of negative and out-of-range
  positions, loops with early exit, and the named collections the component proofs use.
  Message texts of exceptions are not modelled; the exception class is.
\<close>

subsection \<open>Names for the types of the model\<close>

type_synonym byte = "8 word"
type_synonym bytes = "byte list"

datatype py_error =
    ValueError | TypeError | KeyError | IndexError | OverflowError | AttributeError
  | RuntimeError | SegmentFullError | MemoryExhaustedError | TimeoutError
  | FileNotFoundError | FileExistsError | StructError | MemoryError | DataMismatchError | SystemExit | CsvError
  | ZeroDivisionError | NameError

type_synonym 'a result = "py_error + 'a"
type_synonym ('a, 's) outcome = "(py_error + 'a) \<times> 's"

text \<open>
  \<open>SegmentFullError\<close> derives from \<open>RuntimeError\<close>, as does \<open>DataMismatchError\<close>: an
  \<open>except RuntimeError\<close> clause catches exactly these.
\<close>

definition is_RuntimeError :: "py_error \<Rightarrow> bool" where
  "is_RuntimeError e \<longleftrightarrow> e \<in> {RuntimeError, SegmentFullError, DataMismatchError}"

named_theorems py_slice_simps
named_theorems umm_simps

subsection \<open>Sequencing of fallible operations\<close>

definition rbind :: "('a, 's) outcome \<Rightarrow> ('a \<Rightarrow> 's \<Rightarrow> ('b, 's) outcome) \<Rightarrow> ('b, 's) outcome" where
  "rbind r f = (case fst r of Inl e \<Rightarrow> (Inl e, snd r) | Inr v \<Rightarrow> f v (snd r))"

lemma rbind_simps [simp]:
  "rbind (Inl e, s) f = (Inl e, s)"
  "rbind (Inr v, s) f = f v s"
  by (simp_all add: rbind_def)

lemma rbind_Inr_iff:
  "rbind r f = (Inr w, t) \<longleftrightarrow> (\<exists>v s. r = (Inr v, s) \<and> f v s = (Inr w, t))"
  by (cases r; cases "fst r") (auto simp: rbind_def)

text \<open>A Python \<open>for\<close> loop whose body may raise: the loop stops at the first exception.\<close>

fun for_each :: "('x \<Rightarrow> 's \<Rightarrow> (unit, 's) outcome) \<Rightarrow> 'x list \<Rightarrow> 's \<Rightarrow> (unit, 's) outcome" where
  "for_each f [] s = (Inr (), s)"
| "for_each f (x # xs) s = rbind (f x s) (\<lambda>_ s'. for_each f xs s')"

lemma for_each_append:
  "for_each f (xs @ ys) s = rbind (for_each f xs s) (\<lambda>_ s'. for_each f ys s')"
proof (induction xs arbitrary: s)
  case (Cons x xs)
  then show ?case
    by (cases "f x s"; cases "fst (f x s)") (auto simp: rbind_def split: sum.splits)
qed simp

lemma for_each_invariant:
  assumes "for_each f xs s = (r, t)" and "P s"
    and "\<And>x u r' u'. x \<in> set xs \<Longrightarrow> P u \<Longrightarrow> f x u = (r', u') \<Longrightarrow> P u'"
  shows "P t"
  using assms
proof (induction xs arbitrary: s)
  case (Cons x xs)
  obtain r' u where fx: "f x s = (r', u)" by fastforce
  have "P u" using Cons.prems(2,3) fx by (metis list.set_intros(1))
  show ?case
  proof (cases r')
    case (Inl e)
    with Cons.prems(1) fx \<open>P u\<close> show ?thesis by simp
  next
    case (Inr v)
    with Cons.prems(1) fx have "for_each f xs u = (r, t)" by simp
    then show ?thesis using \<open>P u\<close> Cons.prems(3) by (intro Cons.IH) auto
  qed
qed simp

text \<open>A loop that collects the values of a fallible expression (a list comprehension).\<close>

fun map_result :: "('x \<Rightarrow> 'y result) \<Rightarrow> 'x list \<Rightarrow> 'y list result" where
  "map_result f [] = Inr []"
| "map_result f (x # xs) =
     (case f x of Inl e \<Rightarrow> Inl e
      | Inr y \<Rightarrow> (case map_result f xs of Inl e \<Rightarrow> Inl e | Inr ys \<Rightarrow> Inr (y # ys)))"

lemma map_result_Inr_iff:
  "map_result f xs = Inr ys \<longleftrightarrow> list_all2 (\<lambda>x y. f x = Inr y) xs ys"
proof (induction xs arbitrary: ys)
  case (Cons x xs)
  show ?case
    by (cases "f x"; cases "map_result f xs")
      (auto simp: list_all2_Cons1 simp flip: Cons.IH)
qed auto

lemma map_result_total: "(\<And>x. x \<in> set xs \<Longrightarrow> f x = Inr (g x)) \<Longrightarrow> map_result f xs = Inr (map g xs)"
  by (induction xs) auto

lemma map_result_length: "map_result f xs = Inr ys \<Longrightarrow> length ys = length xs"
  by (auto simp: map_result_Inr_iff dest: list_all2_lengthD)

subsection \<open>Python indexing\<close>

text \<open>The position an index denotes: negative indices count from the end.\<close>

definition py_index :: "nat \<Rightarrow> int \<Rightarrow> nat option" where
  "py_index n i =
     (if 0 \<le> i \<and> i < int n then Some (nat i)
      else if i < 0 \<and> - int n \<le> i then Some (n - nat (- i)) else None)"

definition py_nth :: "'a list \<Rightarrow> int \<Rightarrow> 'a result" where
  "py_nth xs i = (case py_index (length xs) i of None \<Rightarrow> Inl IndexError | Some k \<Rightarrow> Inr (xs ! k))"

definition py_set :: "'a list \<Rightarrow> int \<Rightarrow> 'a \<Rightarrow> 'a list result" where
  "py_set xs i v = (case py_index (length xs) i of None \<Rightarrow> Inl IndexError | Some k \<Rightarrow> Inr (xs[k := v]))"

lemma py_nth_nonneg [py_slice_simps]:
  "0 \<le> i \<Longrightarrow> i < int (length xs) \<Longrightarrow> py_nth xs i = Inr (xs ! nat i)"
  by (simp add: py_nth_def py_index_def)

lemma py_set_nonneg [py_slice_simps]:
  "0 \<le> i \<Longrightarrow> i < int (length xs) \<Longrightarrow> py_set xs i v = Inr (xs[nat i := v])"
  by (simp add: py_set_def py_index_def)

lemma py_nth_too_big: "int (length xs) \<le> i \<Longrightarrow> py_nth xs i = Inl IndexError"
  by (simp add: py_nth_def py_index_def)

subsection \<open>Python slices and slice assignment (step 1)\<close>

definition py_clamp :: "nat \<Rightarrow> int \<Rightarrow> nat" where
  "py_clamp n i = nat (if i < 0 then max 0 (int n + i) else min (int n) i)"

definition py_slice :: "'a list \<Rightarrow> int \<Rightarrow> int \<Rightarrow> 'a list" where
  "py_slice xs i j =
     (let a = py_clamp (length xs) i; b = py_clamp (length xs) j in take (b - a) (drop a xs))"

definition py_slice_set :: "'a list \<Rightarrow> int \<Rightarrow> int \<Rightarrow> 'a list \<Rightarrow> 'a list" where
  "py_slice_set xs i j ys =
     (let a = py_clamp (length xs) i; b = max a (py_clamp (length xs) j)
      in take a xs @ ys @ drop b xs)"

text \<open>
  Slice assignment to a \<open>memoryview\<close> cannot resize: the two lengths must agree, otherwise
  Python raises \<open>ValueError\<close>.
\<close>

definition mv_slice_set :: "bytes \<Rightarrow> int \<Rightarrow> int \<Rightarrow> bytes \<Rightarrow> bytes result" where
  "mv_slice_set xs i j ys =
     (if length (py_slice xs i j) = length ys then Inr (py_slice_set xs i j ys) else Inl ValueError)"

lemma py_clamp_le: "py_clamp n i \<le> n"
  by (auto simp: py_clamp_def)

lemma py_clamp_inside [simp]: "0 \<le> i \<Longrightarrow> i \<le> int n \<Longrightarrow> py_clamp n i = nat i"
  by (simp add: py_clamp_def)

lemma py_slice_inside [py_slice_simps]:
  "0 \<le> i \<Longrightarrow> 0 \<le> k \<Longrightarrow> i + k \<le> int (length xs) \<Longrightarrow>
   py_slice xs i (i + k) = take (nat k) (drop (nat i) xs)"
  by (simp add: py_slice_def nat_add_distrib)

lemma py_slice_prefix [py_slice_simps]:
  "0 \<le> k \<Longrightarrow> k \<le> int (length xs) \<Longrightarrow> py_slice xs 0 k = take (nat k) xs"
  by (simp add: py_slice_def)

lemma py_slice_set_inside [py_slice_simps]:
  "0 \<le> i \<Longrightarrow> 0 \<le> k \<Longrightarrow> i + k \<le> int (length xs) \<Longrightarrow>
   py_slice_set xs i (i + k) ys = take (nat i) xs @ ys @ drop (nat i + nat k) xs"
  by (simp add: py_slice_set_def nat_add_distrib Let_def)

lemma py_slice_set_prefix [py_slice_simps]:
  "0 \<le> k \<Longrightarrow> k \<le> int (length xs) \<Longrightarrow> py_slice_set xs 0 k ys = ys @ drop (nat k) xs"
  by (simp add: py_slice_set_def)

subsection \<open>Blocks of a byte sequence\<close>

text \<open>
  Every address the program computes denotes a block: \<open>k\<close> bytes from position \<open>i\<close>. Reading and
  overwriting a block on natural numbers, and the laws that relate the two.
\<close>

definition block_at :: "nat \<Rightarrow> nat \<Rightarrow> 'a list \<Rightarrow> 'a list" where
  "block_at i k xs = take k (drop i xs)"

definition put_block :: "nat \<Rightarrow> 'a list \<Rightarrow> 'a list \<Rightarrow> 'a list" where
  "put_block i ys xs = take i xs @ ys @ drop (i + length ys) xs"

lemma length_block_at [simp]: "i + k \<le> length xs \<Longrightarrow> length (block_at i k xs) = k"
  by (simp add: block_at_def)

lemma length_put_block [simp]:
  "i + length ys \<le> length xs \<Longrightarrow> length (put_block i ys xs) = length xs"
  by (simp add: put_block_def)

lemma nth_put_block:
  "i + length ys \<le> length xs \<Longrightarrow> j < length xs \<Longrightarrow>
   put_block i ys xs ! j = (if i \<le> j \<and> j < i + length ys then ys ! (j - i) else xs ! j)"
  by (auto simp: put_block_def nth_append min_def)

lemma block_at_put_same [simp]:
  "i + length ys \<le> length xs \<Longrightarrow> block_at i (length ys) (put_block i ys xs) = ys"
  by (simp add: block_at_def put_block_def)

lemma block_at_put_other:
  assumes "i + length ys \<le> length xs" and "j + k \<le> length xs"
    and "j + k \<le> i \<or> i + length ys \<le> j"
  shows "block_at j k (put_block i ys xs) = block_at j k xs"
proof (rule nth_equalityI)
  show "length (block_at j k (put_block i ys xs)) = length (block_at j k xs)"
    using assms by simp
next
  fix n assume "n < length (block_at j k (put_block i ys xs))"
  then have "n < k" using assms by simp
  then show "block_at j k (put_block i ys xs) ! n = block_at j k xs ! n"
    using assms by (auto simp: block_at_def nth_put_block)
qed

text \<open>A block inside an overwritten region is the corresponding block of the new contents.\<close>

lemma block_at_put_inner:
  assumes "i + length ys \<le> length xs" and "j + k \<le> length ys"
  shows "block_at (i + j) k (put_block i ys xs) = block_at j k ys"
proof (rule nth_equalityI)
  show "length (block_at (i + j) k (put_block i ys xs)) = length (block_at j k ys)"
    using assms by simp
next
  fix n assume "n < length (block_at (i + j) k (put_block i ys xs))"
  then have "n < k" using assms by simp
  then show "block_at (i + j) k (put_block i ys xs) ! n = block_at j k ys ! n"
    using assms by (auto simp: block_at_def nth_put_block add.assoc)
qed

lemma block_at_block_at:
  "j + m \<le> k \<Longrightarrow> block_at j m (block_at i k xs) = block_at (i + j) m xs"
  by (simp add: block_at_def drop_take min_def add.commute)

text \<open>Overwriting part of a block changes the block as seen through \<open>block_at\<close> in the same way.\<close>

lemma put_block_block:
  assumes "i + k \<le> length xs" and "j + length ys \<le> k"
  shows "block_at i k (put_block (i + j) ys xs) = put_block j ys (block_at i k xs)"
proof (rule nth_equalityI)
  show "length (block_at i k (put_block (i + j) ys xs)) = length (put_block j ys (block_at i k xs))"
    using assms by simp
next
  fix n assume "n < length (block_at i k (put_block (i + j) ys xs))"
  then have "n < k" using assms by simp
  then show "block_at i k (put_block (i + j) ys xs) ! n = put_block j ys (block_at i k xs) ! n"
    using assms by (simp add: nth_put_block) (simp add: block_at_def nth_put_block)
qed

lemma py_slice_block:
  "0 \<le> i \<Longrightarrow> 0 \<le> k \<Longrightarrow> i + k \<le> int (length xs) \<Longrightarrow>
   py_slice xs i (i + k) = block_at (nat i) (nat k) xs"
  by (simp add: py_slice_inside block_at_def)

lemma py_slice_set_block:
  "0 \<le> i \<Longrightarrow> i + int (length ys) \<le> int (length xs) \<Longrightarrow>
   py_slice_set xs i (i + int (length ys)) ys = put_block (nat i) ys xs"
  by (simp add: py_slice_set_inside put_block_def)

subsection \<open>Rounding to multiples\<close>

definition round_up :: "int \<Rightarrow> int \<Rightarrow> int" where
  "round_up n m = ((n + m - 1) div m) * m"

lemma round_up_ge: "0 < m \<Longrightarrow> n \<le> round_up n m"
proof -
  assume m: "0 < m"
  have "(n + m - 1) div m * m = (n + m - 1) - (n + m - 1) mod m"
    by (simp add: minus_mod_eq_div_mult)
  moreover have "(n + m - 1) mod m \<le> m - 1" using m pos_mod_bound [of m "n + m - 1"] by simp
  ultimately show ?thesis by (simp add: round_up_def)
qed

lemma round_up_less: "0 < m \<Longrightarrow> round_up n m < n + m"
proof -
  assume m: "0 < m"
  have "(n + m - 1) div m * m = (n + m - 1) - (n + m - 1) mod m"
    by (simp add: minus_mod_eq_div_mult)
  moreover have "0 \<le> (n + m - 1) mod m" using m by simp
  ultimately show ?thesis by (simp add: round_up_def)
qed

lemma round_up_dvd [simp]: "m dvd round_up n m"
  by (simp add: round_up_def)

subsection \<open>Decimal numerals\<close>

fun show_nat :: "nat \<Rightarrow> string" where
  "show_nat n = (if n < 10 then [char_of (48 + n)] else show_nat (n div 10) @ [char_of (48 + n mod 10)])"

declare show_nat.simps [simp del]

subsection \<open>Dictionaries in insertion order\<close>

text \<open>
  A Python dictionary whose iteration order the code relies on is an association list with
  distinct keys: assigning to a present key keeps its position, a new key goes to the end.
\<close>

fun dict_set :: "'k \<Rightarrow> 'v \<Rightarrow> ('k \<times> 'v) list \<Rightarrow> ('k \<times> 'v) list" where
  "dict_set k v [] = [(k, v)]"
| "dict_set k v ((k', v') # ps) = (if k = k' then (k, v) # ps else (k', v') # dict_set k v ps)"

definition dict_del :: "'k \<Rightarrow> ('k \<times> 'v) list \<Rightarrow> ('k \<times> 'v) list" where
  "dict_del k ps = filter (\<lambda>p. fst p \<noteq> k) ps"

lemma map_of_dict_set [simp]: "map_of (dict_set k v ps) = (map_of ps)(k \<mapsto> v)"
  by (induction ps) (auto simp: fun_eq_iff)

lemma keys_dict_set:
  "map fst (dict_set k v ps) = (if k \<in> fst ` set ps then map fst ps else map fst ps @ [k])"
  by (induction ps) force+

lemma distinct_dict_set [simp]: "distinct (map fst ps) \<Longrightarrow> distinct (map fst (dict_set k v ps))"
  by (auto simp: keys_dict_set)

lemma map_of_dict_del [simp]: "map_of (dict_del k ps) = (map_of ps)(k := None)"
  by (induction ps) (auto simp: dict_del_def fun_eq_iff)

lemma distinct_dict_del [simp]: "distinct (map fst ps) \<Longrightarrow> distinct (map fst (dict_del k ps))"
  by (simp add: dict_del_def distinct_map_filter)

end
