(* ===== verification/CtypesLayout.thy ===== *)
theory CtypesLayout
  imports Prelude
begin

section \<open>The ctypes mirror of the C structures (umm\_client.py, umm.h)\<close>

text \<open>
  \<open>bmpclient/umm_client.py\<close> mirrors the C structures of \<open>umm/include/umm.h\<close> with
  \<open>ctypes.Structure\<close> classes; \<open>umm_init\<close> copies \<open>sizeof(UMMConfig)\<close> bytes from the Python
  object, so the two layouts must agree. This theory models the layout rule that ctypes shares
  with the platform C ABI (natural alignment, padding before a field and at the end), the
  structures of both sides as data, and proves that laid-out fields are aligned and never overlap,
  that the two sides agree, and the size the documentation states.
\<close>

subsection \<open>C types and the natural-alignment layout\<close>

datatype ctype =
    c_char | c_uint8 | c_uint16 | c_uint32 | c_int | c_uint64
  | c_array ctype nat
  | c_struct "(string \<times> ctype) list"

definition align_up :: "nat \<Rightarrow> nat \<Rightarrow> nat" where
  "align_up n a = ((n + a - 1) div a) * a"

fun c_align :: "ctype \<Rightarrow> nat" and c_align_fields :: "(string \<times> ctype) list \<Rightarrow> nat" where
  "c_align c_char = 1"
| "c_align c_uint8 = 1"
| "c_align c_uint16 = 2"
| "c_align c_uint32 = 4"
| "c_align c_int = 4"
| "c_align c_uint64 = 8"
| "c_align (c_array t n) = c_align t"
| "c_align (c_struct fs) = c_align_fields fs"
| "c_align_fields [] = 1"
| "c_align_fields ((f, t) # fs) = max (c_align t) (c_align_fields fs)"

fun c_sizeof :: "ctype \<Rightarrow> nat" and c_end :: "nat \<Rightarrow> (string \<times> ctype) list \<Rightarrow> nat" where
  "c_sizeof c_char = 1"
| "c_sizeof c_uint8 = 1"
| "c_sizeof c_uint16 = 2"
| "c_sizeof c_uint32 = 4"
| "c_sizeof c_int = 4"
| "c_sizeof c_uint64 = 8"
| "c_sizeof (c_array t n) = c_sizeof t * n"
| "c_sizeof (c_struct fs) = align_up (c_end 0 fs) (c_align_fields fs)"
| "c_end off [] = off"
| "c_end off ((f, t) # fs) = c_end (align_up off (c_align t) + c_sizeof t) fs"

text \<open>The placement of every field: name, offset and type.\<close>

fun c_layout :: "nat \<Rightarrow> (string \<times> ctype) list \<Rightarrow> (string \<times> nat \<times> ctype) list" where
  "c_layout off [] = []"
| "c_layout off ((f, t) # fs) =
     (f, align_up off (c_align t), t) # c_layout (align_up off (c_align t) + c_sizeof t) fs"

fun struct_fields :: "ctype \<Rightarrow> (string \<times> ctype) list" where
  "struct_fields (c_struct fs) = fs"
| "struct_fields _ = []"

definition layout_of :: "ctype \<Rightarrow> (string \<times> nat \<times> ctype) list" where
  "layout_of t = c_layout 0 (struct_fields t)"

subsection \<open>The structures of umm\_client.py\<close>

definition ChunkDescriptor_t :: ctype where
  "ChunkDescriptor_t = c_struct
     [(''chunk_id'', c_uint64), (''base_gpa'', c_uint64), (''user_size'', c_uint64)]"

definition ChunkMetadata_t :: ctype where
  "ChunkMetadata_t = c_struct
     [(''chunk_id'', c_uint64), (''name'', c_array c_char 64), (''gpa'', c_uint64),
      (''size'', c_uint64), (''primary_tier'', c_uint8), (''has_ssd_copy'', c_uint8)]"

definition SsdDeviceConfig_t :: ctype where
  "SsdDeviceConfig_t = c_struct [(''path'', c_array c_char 256), (''size'', c_uint64)]"

definition StorageResource_t :: ctype where
  "StorageResource_t = c_struct
     [(''tier'', c_uint8), (''device_path'', c_array c_char 256), (''capacity'', c_uint64),
      (''base_offset'', c_uint64), (''online'', c_int)]"

definition UMM_MAX_SSD_DEVICES :: nat where
  "UMM_MAX_SSD_DEVICES = 16"

definition UMM_MAX_TOPOLOGY_RESOURCES :: nat where
  "UMM_MAX_TOPOLOGY_RESOURCES = 4 + UMM_MAX_SSD_DEVICES"

definition StorageTopology_t :: ctype where
  "StorageTopology_t = c_struct
     [(''node_id'', c_uint8), (''num_resources'', c_uint32),
      (''resources'', c_array StorageResource_t UMM_MAX_TOPOLOGY_RESOURCES)]"

definition UMMConfig_t :: ctype where
  "UMMConfig_t = c_struct
     [(''transport'', c_array c_char 16), (''consistency_model'', c_array c_char 16),
      (''memory_size'', c_uint64), (''meta_server_addr'', c_array c_char 256),
      (''mem_server_addr'', c_array c_char 256), (''cxl_device'', c_array c_char 256),
      (''ssd_device'', c_array c_char 256), (''my_node_id'', c_uint8),
      (''ssd_devices'', c_array SsdDeviceConfig_t 16), (''num_ssd_devices'', c_uint32),
      (''listen_port'', c_uint16), (''base_gpa'', c_uint64),
      (''nds_rpc_server_enable'', c_int), (''nds_rpc_server_ctrl'', c_array c_char 256),
      (''nds_rpc_server_ns'', c_uint32), (''nds_rpc_server_qd'', c_uint32),
      (''nds_rpc_server_socket'', c_array c_char 256), (''nds_rpc_server_keep_alive'', c_int),
      (''peer_nodes'', c_array c_char 1024), (''rpc_token'', c_array c_char 64),
      (''allow_cidrs'', c_array c_char 512), (''ssd_owner_node'', c_uint8),
      (''local_mem_as_dram'', c_uint8), (''_reserved_phase1'', c_array c_uint8 2),
      (''data_max_io'', c_uint32)]"

subsection \<open>The structures of umm.h\<close>

abbreviation gpa_t :: ctype where "gpa_t \<equiv> c_uint64"
abbreviation chunk_id_t :: ctype where "chunk_id_t \<equiv> c_uint64"
abbreviation node_id_t :: ctype where "node_id_t \<equiv> c_uint8"
abbreviation tier_id_t :: ctype where "tier_id_t \<equiv> c_uint8"

definition h_ChunkDescriptor :: ctype where
  "h_ChunkDescriptor = c_struct
     [(''chunk_id'', chunk_id_t), (''base_gpa'', gpa_t), (''user_size'', c_uint64)]"

definition h_ChunkMetadata :: ctype where
  "h_ChunkMetadata = c_struct
     [(''chunk_id'', chunk_id_t), (''name'', c_array c_char 64), (''gpa'', gpa_t),
      (''size'', c_uint64), (''primary_tier'', tier_id_t), (''has_ssd_copy'', c_uint8)]"

definition h_SsdDeviceConfig :: ctype where
  "h_SsdDeviceConfig = c_struct [(''path'', c_array c_char 256), (''size'', c_uint64)]"

definition h_StorageResource :: ctype where
  "h_StorageResource = c_struct
     [(''tier'', tier_id_t), (''device_path'', c_array c_char 256), (''capacity'', c_uint64),
      (''base_offset'', c_uint64), (''online'', c_int)]"

definition h_StorageTopology :: ctype where
  "h_StorageTopology = c_struct
     [(''node_id'', node_id_t), (''num_resources'', c_uint32),
      (''resources'', c_array h_StorageResource (4 + 16))]"

definition h_UMMConfig :: ctype where
  "h_UMMConfig = c_struct
     [(''transport'', c_array c_char 16), (''consistency_model'', c_array c_char 16),
      (''memory_size'', c_uint64), (''meta_server_addr'', c_array c_char 256),
      (''mem_server_addr'', c_array c_char 256), (''cxl_device'', c_array c_char 256),
      (''ssd_device'', c_array c_char 256), (''my_node_id'', node_id_t),
      (''ssd_devices'', c_array h_SsdDeviceConfig 16), (''num_ssd_devices'', c_uint32),
      (''listen_port'', c_uint16), (''base_gpa'', c_uint64),
      (''nds_rpc_server_enable'', c_int), (''nds_rpc_server_ctrl'', c_array c_char 256),
      (''nds_rpc_server_ns'', c_uint32), (''nds_rpc_server_qd'', c_uint32),
      (''nds_rpc_server_socket'', c_array c_char 256), (''nds_rpc_server_keep_alive'', c_int),
      (''peer_nodes'', c_array c_char 1024), (''rpc_token'', c_array c_char 64),
      (''allow_cidrs'', c_array c_char 512), (''ssd_owner_node'', c_uint8),
      (''local_mem_as_dram'', c_uint8), (''_reserved_phase1'', c_array c_uint8 2),
      (''data_max_io'', c_uint32)]"

lemmas py_struct_defs = ChunkDescriptor_t_def ChunkMetadata_t_def SsdDeviceConfig_t_def
  StorageResource_t_def UMM_MAX_SSD_DEVICES_def UMM_MAX_TOPOLOGY_RESOURCES_def
  StorageTopology_t_def UMMConfig_t_def

lemmas h_struct_defs = h_ChunkDescriptor_def h_ChunkMetadata_def h_SsdDeviceConfig_def
  h_StorageResource_def h_StorageTopology_def h_UMMConfig_def

subsection \<open>Layouts are aligned and fields never overlap\<close>

lemma align_up_ge: "0 < a \<Longrightarrow> n \<le> align_up n a"
proof -
  assume a: "0 < a"
  have "(n + a - 1) div a * a = (n + a - 1) - (n + a - 1) mod a"
    by (simp add: minus_mod_eq_div_mult)
  moreover have "(n + a - 1) mod a < a" using a by simp
  ultimately show ?thesis unfolding align_up_def by linarith
qed

lemma align_up_dvd [simp]: "a dvd align_up n a"
  by (simp add: align_up_def)

lemma c_align_pos: "0 < c_align t"
  and c_align_fields_pos: "0 < c_align_fields fs"
  by (induction t and fs rule: c_align_c_align_fields.induct) auto

lemma c_end_ge: "off \<le> c_end off fs"
proof (induction off fs rule: c_layout.induct)
  case (2 off g u fs)
  have "off \<le> align_up off (c_align u)" by (simp add: align_up_ge c_align_pos)
  also have "\<dots> \<le> align_up off (c_align u) + c_sizeof u" by simp
  finally show ?case using 2 by simp
qed simp

lemma c_layout_bounds:
  "(f, o', t) \<in> set (c_layout off fs) \<Longrightarrow>
   off \<le> o' \<and> o' + c_sizeof t \<le> c_end off fs \<and> c_align t dvd o'"
proof (induction off fs rule: c_layout.induct)
  case (2 off g u fs)
  let ?o = "align_up off (c_align u)"
  have ge: "off \<le> ?o" by (simp add: align_up_ge c_align_pos)
  show ?case
  proof (cases "(f, o', t) = (g, ?o, u)")
    case True
    then show ?thesis using ge c_end_ge [of "?o + c_sizeof u" fs] by simp
  next
    case False
    with 2 have "?o + c_sizeof u \<le> o' \<and> o' + c_sizeof t \<le> c_end (?o + c_sizeof u) fs \<and> c_align t dvd o'"
      by auto
    with ge show ?thesis by simp
  qed
qed simp

lemma c_layout_ordered:
  "sorted_wrt (\<lambda>p q. fst (snd p) + c_sizeof (snd (snd p)) \<le> fst (snd q)) (c_layout off fs)"
  by (induction off fs rule: c_layout.induct) (auto dest: c_layout_bounds)

lemma c_layout_within_sizeof:
  "(f, o', t) \<in> set (layout_of (c_struct fs)) \<Longrightarrow> o' + c_sizeof t \<le> c_sizeof (c_struct fs)"
  using c_layout_bounds [of f o' t 0 fs] align_up_ge [OF c_align_fields_pos, of "c_end 0 fs" fs]
  by (auto simp: layout_of_def)

lemma c_struct_aligned_within:
  "t = c_struct (struct_fields t) \<Longrightarrow>
   list_all (\<lambda>(f, off, u). c_align u dvd off \<and> off + c_sizeof u \<le> c_sizeof t) (layout_of t)"
  using c_layout_bounds [where off = 0 and fs = "struct_fields t"]
    c_layout_within_sizeof [where fs = "struct_fields t"]
  by (fastforce simp: list_all_iff layout_of_def)

text \<open>
  C36. The ctypes mirror and the C header lay every shared structure out identically, the mirror
  of \<open>UMMConfig\<close> has the documented 7448 bytes, and in it every field is aligned, lies inside the
  structure and ends before the next one begins, so a field by field copy of the Python object is
  what \<open>umm_init\<close> reads.
\<close>

theorem ctypes_mirror_layout:
  "map layout_of [ChunkDescriptor_t, ChunkMetadata_t, SsdDeviceConfig_t, StorageResource_t,
                  StorageTopology_t, UMMConfig_t]
   = map layout_of [h_ChunkDescriptor, h_ChunkMetadata, h_SsdDeviceConfig, h_StorageResource,
                    h_StorageTopology, h_UMMConfig]
   \<and> c_sizeof UMMConfig_t = 7448 \<and> c_sizeof h_UMMConfig = 7448
   \<and> sorted_wrt (\<lambda>p q. fst (snd p) + c_sizeof (snd (snd p)) \<le> fst (snd q)) (layout_of UMMConfig_t)
   \<and> list_all (\<lambda>(f, off, t). c_align t dvd off \<and> off + c_sizeof t \<le> 7448) (layout_of UMMConfig_t)"
proof -
  have sz: "c_sizeof UMMConfig_t = 7448" by (simp add: py_struct_defs align_up_def)
  have "UMMConfig_t = c_struct (struct_fields UMMConfig_t)" by (simp add: UMMConfig_t_def)
  note c_struct_aligned_within [OF this, unfolded sz]
  moreover have "sorted_wrt (\<lambda>p q. fst (snd p) + c_sizeof (snd (snd p)) \<le> fst (snd q)) (layout_of UMMConfig_t)"
    by (simp add: layout_of_def c_layout_ordered)
  moreover have "c_sizeof h_UMMConfig = 7448" by (simp add: h_struct_defs align_up_def)
  ultimately show ?thesis using sz by (simp add: py_struct_defs h_struct_defs)
qed

end
