(* ===== verification/UmmLib.thy ===== *)
theory UmmLib
  imports CtypesLayout
begin

section \<open>UMMLib: the ctypes binding of libumm (umm\_client.py)\<close>

text \<open>
  \<open>UMMLib\<close> wraps the C entry points of \<open>libumm.so\<close>. The library itself is a parameter: a record
  \<open>'s clib\<close> of entry points over a state \<open>'s\<close>, each either present or missing (a missing symbol
  raises \<open>AttributeError\<close> at the call, or \<open>RuntimeError\<close> for the three symbols the binding treats
  as optional). Out-parameters are part of the result, a user buffer is passed in and handed back.
  The duck-typed library object that the layers above receive is the record \<open>'s umm_lib\<close>; the
  locale \<open>chunk_store\<close> states what those layers rely on.
\<close>

subsection \<open>Descriptors, topologies and buffers\<close>

definition u64 :: "int \<Rightarrow> int" where "u64 x = x mod 2 ^ 64"
definition u32 :: "int \<Rightarrow> int" where "u32 x = x mod 2 ^ 32"
definition u8 :: "int \<Rightarrow> int" where "u8 x = x mod 2 ^ 8"

lemma u64_small [simp]: "0 \<le> x \<Longrightarrow> x < 2 ^ 64 \<Longrightarrow> u64 x = x"
  by (simp add: u64_def)

lemma u64_range: "0 \<le> u64 x \<and> u64 x < 2 ^ 64"
  by (simp add: u64_def)

record chunk_desc =
  d_chunk_id :: int
  d_base_gpa :: int
  d_user_size :: int

text \<open>The fields are \<open>c_uint64\<close>: assigning to them truncates.\<close>

definition ChunkDescriptor :: "int \<Rightarrow> int \<Rightarrow> int \<Rightarrow> chunk_desc" where
  "ChunkDescriptor cid gpa sz =
     \<lparr>d_chunk_id = u64 cid, d_base_gpa = u64 gpa, d_user_size = u64 sz\<rparr>"

record storage_resource =
  r_tier :: int
  r_device_path :: string
  r_capacity :: int
  r_base_offset :: int
  r_online :: int

record storage_topology =
  t_node_id :: int
  t_num_resources :: int
  t_resources :: "storage_resource list"

definition empty_resource :: storage_resource where
  "empty_resource = \<lparr>r_tier = 0, r_device_path = [], r_capacity = 0, r_base_offset = 0, r_online = 0\<rparr>"

definition empty_topology :: storage_topology where
  "empty_topology = \<lparr>t_node_id = 0, t_num_resources = 0,
     t_resources = replicate UMM_MAX_TOPOLOGY_RESOURCES empty_resource\<rparr>"

record chunk_metadata =
  m_chunk_id :: int
  m_name :: string
  m_gpa :: int
  m_size :: int
  m_primary_tier :: int
  m_has_ssd_copy :: int

text \<open>
  A Python buffer as \<open>memoryview\<close> sees it: its bytes, whether it is read-only and whether ctypes
  can take its address (it is C-contiguous).
\<close>

record pybuf =
  buf_data :: bytes
  buf_readonly :: bool
  buf_contiguous :: bool

definition bytearray_buf :: "bytes \<Rightarrow> pybuf" where
  "bytearray_buf bs = \<lparr>buf_data = bs, buf_readonly = False, buf_contiguous = True\<rparr>"

definition bytes_buf :: "bytes \<Rightarrow> pybuf" where
  "bytes_buf bs = \<lparr>buf_data = bs, buf_readonly = True, buf_contiguous = True\<rparr>"

abbreviation nbytes :: "pybuf \<Rightarrow> int" where
  "nbytes b \<equiv> int (length (buf_data b))"

subsection \<open>Constants\<close>

definition UMM_NODE_UNKNOWN :: int where "UMM_NODE_UNKNOWN = 255"
definition UMM_TIER_DRAM :: int where "UMM_TIER_DRAM = 0"
definition UMM_TIER_CXL :: int where "UMM_TIER_CXL = 1"
definition UMM_TIER_SSD :: int where "UMM_TIER_SSD = 2"
definition UMM_OK :: int where "UMM_OK = 0"

record umm_config =
  cfg_transport :: string
  cfg_consistency_model :: string
  cfg_memory_size :: int
  cfg_meta_server_addr :: string
  cfg_mem_server_addr :: string
  cfg_cxl_device :: string
  cfg_ssd_device :: string
  cfg_my_node_id :: int
  cfg_ssd_devices :: "(string \<times> int) list"
  cfg_num_ssd_devices :: int
  cfg_peer_nodes :: string
  cfg_rpc_token :: string
  cfg_ssd_owner_node :: int
  cfg_local_mem_as_dram :: int
  cfg_data_max_io :: int

subsection \<open>The C library\<close>

record 's clib =
  c_init :: "(umm_config \<Rightarrow> 's \<Rightarrow> (int, 's) outcome) option"
  c_deinit :: "('s \<Rightarrow> (unit, 's) outcome) option"
  c_alloc :: "(int \<Rightarrow> 's \<Rightarrow> (int \<times> chunk_desc, 's) outcome) option"
  c_alloc_tiered :: "(int \<Rightarrow> int \<Rightarrow> 's \<Rightarrow> (int \<times> chunk_desc, 's) outcome) option"
  c_alloc_on_device :: "(int \<Rightarrow> int \<Rightarrow> int \<Rightarrow> 's \<Rightarrow> (int \<times> chunk_desc, 's) outcome) option"
  c_register_storage_tier :: "(int \<Rightarrow> string \<Rightarrow> int \<Rightarrow> 's \<Rightarrow> (int, 's) outcome) option"
  c_free :: "(chunk_desc \<Rightarrow> 's \<Rightarrow> (int, 's) outcome) option"
  c_read :: "(chunk_desc \<Rightarrow> int \<Rightarrow> int \<Rightarrow> bytes \<Rightarrow> 's \<Rightarrow> (int \<times> bytes, 's) outcome) option"
  c_write :: "(chunk_desc \<Rightarrow> int \<Rightarrow> int \<Rightarrow> bytes \<Rightarrow> 's \<Rightarrow> (int, 's) outcome) option"
  c_lookup_chunk :: "(string \<Rightarrow> 's \<Rightarrow> (int \<times> chunk_metadata, 's) outcome) option"
  c_fence :: "('s \<Rightarrow> (unit, 's) outcome) option"
  c_invalidate :: "(chunk_desc \<Rightarrow> int \<Rightarrow> int \<Rightarrow> 's \<Rightarrow> (int, 's) outcome) option"
  c_get_topology :: "('s \<Rightarrow> (int \<times> storage_topology, 's) outcome) option"

text \<open>
  \<open>UMMLib._setup_signatures\<close>: every symbol but three must exist when the shared library is
  loaded, and the declared argument types convert each Python integer to its C width.
\<close>

definition setup_signatures :: "'s clib \<Rightarrow> 's clib result" where
  "setup_signatures c =
     (if c_init c = None \<or> c_deinit c = None \<or> c_alloc c = None \<or> c_alloc_tiered c = None
         \<or> c_register_storage_tier c = None \<or> c_free c = None \<or> c_read c = None
         \<or> c_write c = None \<or> c_lookup_chunk c = None \<or> c_fence c = None
      then Inl AttributeError
      else Inr (c\<lparr>
        c_alloc := map_option (\<lambda>f sz. f (u64 sz)) (c_alloc c),
        c_alloc_tiered := map_option (\<lambda>f sz tier. f (u64 sz) (u8 tier)) (c_alloc_tiered c),
        c_alloc_on_device :=
          map_option (\<lambda>f sz tier dev. f (u64 sz) (u8 tier) (u32 dev)) (c_alloc_on_device c),
        c_register_storage_tier :=
          map_option (\<lambda>f tier path cap. f (u8 tier) path (u64 cap)) (c_register_storage_tier c),
        c_read := map_option (\<lambda>f d off sz. f d (u64 off) (u64 sz)) (c_read c),
        c_write := map_option (\<lambda>f d off sz. f d (u64 off) (u64 sz)) (c_write c),
        c_invalidate := map_option (\<lambda>f d off sz. f d (u64 off) (u64 sz)) (c_invalidate c)\<rparr>))"

text \<open>Calling a symbol, and turning a return code into an exception.\<close>

definition sym :: "'f option \<Rightarrow> ('f \<Rightarrow> 's \<Rightarrow> ('a, 's) outcome) \<Rightarrow> 's \<Rightarrow> ('a, 's) outcome" where
  "sym f k s = (case f of None \<Rightarrow> (Inl AttributeError, s) | Some g \<Rightarrow> k g s)"

definition opt_sym :: "'f option \<Rightarrow> ('f \<Rightarrow> 's \<Rightarrow> ('a, 's) outcome) \<Rightarrow> 's \<Rightarrow> ('a, 's) outcome" where
  "opt_sym f k s = (case f of None \<Rightarrow> (Inl RuntimeError, s) | Some g \<Rightarrow> k g s)"

definition check_rc :: "int \<Rightarrow> 'a \<Rightarrow> 's \<Rightarrow> ('a, 's) outcome" where
  "check_rc rc v s = (if rc \<noteq> UMM_OK then (Inl RuntimeError, s) else (Inr v, s))"

lemma sym_simps [simp]:
  "sym None k s = (Inl AttributeError, s)" "sym (Some g) k s = k g s"
  "opt_sym None k s = (Inl RuntimeError, s)" "opt_sym (Some g) k s = k g s"
  by (simp_all add: sym_def opt_sym_def)

lemma check_rc_simps [simp]:
  "check_rc 0 v s = (Inr v, s)" "rc \<noteq> 0 \<Longrightarrow> check_rc rc v s = (Inl RuntimeError, s)"
  by (simp_all add: check_rc_def UMM_OK_def)

subsection \<open>The methods of UMMLib\<close>

definition UMMLib_init :: "'s clib \<Rightarrow> umm_config \<Rightarrow> 's \<Rightarrow> (int, 's) outcome" where
  "UMMLib_init c cfg s = sym (c_init c) (\<lambda>f. f cfg) s"

definition UMMLib_deinit :: "'s clib \<Rightarrow> 's \<Rightarrow> (unit, 's) outcome" where
  "UMMLib_deinit c s = sym (c_deinit c) (\<lambda>f. f) s"

definition UMMLib_alloc :: "'s clib \<Rightarrow> int \<Rightarrow> 's \<Rightarrow> (chunk_desc, 's) outcome" where
  "UMMLib_alloc c sz s =
     sym (c_alloc c) (\<lambda>f s. rbind (f sz s) (\<lambda>(rc, d). check_rc rc d)) s"

definition UMMLib_alloc_tiered :: "'s clib \<Rightarrow> int \<Rightarrow> int \<Rightarrow> 's \<Rightarrow> (chunk_desc, 's) outcome" where
  "UMMLib_alloc_tiered c sz tier s =
     sym (c_alloc_tiered c) (\<lambda>f s. rbind (f sz tier s) (\<lambda>(rc, d). check_rc rc d)) s"

definition UMMLib_register_storage_tier ::
  "'s clib \<Rightarrow> int \<Rightarrow> string \<Rightarrow> int \<Rightarrow> 's \<Rightarrow> (unit, 's) outcome" where
  "UMMLib_register_storage_tier c tier path cap s =
     sym (c_register_storage_tier c) (\<lambda>f s. rbind (f tier path cap s) (\<lambda>rc. check_rc rc ())) s"

definition UMMLib_alloc_on_device ::
  "'s clib \<Rightarrow> int \<Rightarrow> int \<Rightarrow> int \<Rightarrow> 's \<Rightarrow> (chunk_desc, 's) outcome" where
  "UMMLib_alloc_on_device c sz tier dev s =
     opt_sym (c_alloc_on_device c) (\<lambda>f s. rbind (f sz tier dev s) (\<lambda>(rc, d). check_rc rc d)) s"

definition UMMLib_get_topology :: "'s clib \<Rightarrow> 's \<Rightarrow> (storage_topology, 's) outcome" where
  "UMMLib_get_topology c s =
     opt_sym (c_get_topology c) (\<lambda>f s. rbind (f s) (\<lambda>(rc, topo). check_rc rc topo)) s"

definition UMMLib_free :: "'s clib \<Rightarrow> chunk_desc \<Rightarrow> 's \<Rightarrow> (unit, 's) outcome" where
  "UMMLib_free c d s = sym (c_free c) (\<lambda>f s. rbind (f d s) (\<lambda>rc. check_rc rc ())) s"

definition UMMLib_fence :: "'s clib \<Rightarrow> 's \<Rightarrow> (unit, 's) outcome" where
  "UMMLib_fence c s = sym (c_fence c) (\<lambda>f. f) s"

definition UMMLib_invalidate :: "'s clib \<Rightarrow> chunk_desc \<Rightarrow> int \<Rightarrow> int \<Rightarrow> 's \<Rightarrow> (unit, 's) outcome" where
  "UMMLib_invalidate c d off sz s =
     opt_sym (c_invalidate c) (\<lambda>f s. rbind (f d off sz s) (\<lambda>rc. check_rc rc ())) s"

text \<open>\<open>read\<close> allocates a zeroed buffer of \<open>size\<close> bytes (negative sizes raise) and returns it.\<close>

definition UMMLib_read :: "'s clib \<Rightarrow> chunk_desc \<Rightarrow> int \<Rightarrow> int \<Rightarrow> 's \<Rightarrow> (bytes, 's) outcome" where
  "UMMLib_read c d off sz s =
     (if sz < 0 then (Inl ValueError, s)
      else sym (c_read c)
        (\<lambda>f s. rbind (f d off sz (replicate (nat sz) 0) s) (\<lambda>(rc, buf). check_rc rc buf)) s)"

text \<open>\<open>write\<close> copies the data into a C buffer with a terminating NUL and writes \<open>len(data)\<close> bytes.\<close>

definition UMMLib_write :: "'s clib \<Rightarrow> chunk_desc \<Rightarrow> int \<Rightarrow> bytes \<Rightarrow> 's \<Rightarrow> (unit, 's) outcome" where
  "UMMLib_write c d off data s =
     (if data = [] then (Inr (), s)
      else sym (c_write c)
        (\<lambda>f s. rbind (f d off (int (length data)) (data @ [0]) s) (\<lambda>rc. check_rc rc ())) s)"

text \<open>
  \<open>read_into\<close> and \<open>write_from\<close> work on the caller's buffer. The caller's buffer is part of the
  state of a read: a failing call hands back what the C function left in it.
\<close>

definition UMMLib_read_into ::
  "'s clib \<Rightarrow> chunk_desc \<Rightarrow> int \<Rightarrow> pybuf \<Rightarrow> 's \<Rightarrow> (int, pybuf \<times> 's) outcome" where
  "UMMLib_read_into c d off b s =
     (if buf_data b = [] then (Inr 0, (b, s))
      else if buf_readonly b then (Inl ValueError, (b, s))
      else if \<not> buf_contiguous b then (Inl ValueError, (b, s))
      else case c_read c of
        None \<Rightarrow> (Inl AttributeError, (b, s))
      | Some f \<Rightarrow>
          (case f d off (nbytes b) (buf_data b) s of
             (Inl e, s') \<Rightarrow> (Inl e, (b, s'))
           | (Inr (rc, out), s') \<Rightarrow> check_rc rc (nbytes b) (b\<lparr>buf_data := out\<rparr>, s')))"

definition UMMLib_write_from ::
  "'s clib \<Rightarrow> chunk_desc \<Rightarrow> int \<Rightarrow> pybuf \<Rightarrow> 's \<Rightarrow> (int, 's) outcome" where
  "UMMLib_write_from c d off b s =
     (if buf_data b = [] then (Inr 0, s)
      else if \<not> buf_readonly b \<and> \<not> buf_contiguous b then (Inl ValueError, s)
      else sym (c_write c)
        (\<lambda>f s. rbind (f d off (nbytes b) (buf_data b) s) (\<lambda>rc. check_rc rc (nbytes b))) s)"

definition UMMLib_lookup_chunk :: "'s clib \<Rightarrow> string \<Rightarrow> 's \<Rightarrow> (chunk_metadata, 's) outcome" where
  "UMMLib_lookup_chunk c name s =
     sym (c_lookup_chunk c) (\<lambda>f s. rbind (f name s) (\<lambda>(rc, m). check_rc rc m)) s"

lemmas UMMLib_defs [umm_simps] = UMMLib_init_def UMMLib_deinit_def UMMLib_alloc_def
  UMMLib_alloc_tiered_def UMMLib_register_storage_tier_def UMMLib_alloc_on_device_def
  UMMLib_get_topology_def UMMLib_free_def UMMLib_fence_def UMMLib_invalidate_def
  UMMLib_read_def UMMLib_write_def UMMLib_read_into_def UMMLib_write_from_def
  UMMLib_lookup_chunk_def

subsection \<open>find\_libumm\_so\<close>

text \<open>
  The search order for the shared object: the directory named by the environment first, then the
  three places next to the package. \<open>isfile\<close> is the file system's answer for a path; path
  arithmetic is textual.
\<close>

definition libumm_candidates :: "string option \<Rightarrow> string \<Rightarrow> string list" where
  "libumm_candidates env script_dir =
     (case env of None \<Rightarrow> [] | Some e \<Rightarrow> (if e = [] then [] else [e @ ''/libumm.so''])) @
     [script_dir @ ''/../umm/build/libumm.so'',
      script_dir @ ''/../UMM/build/libumm.so'',
      script_dir @ ''/../../UMM/build/libumm.so'']"

definition find_libumm_so ::
  "(string \<Rightarrow> string) \<Rightarrow> (string \<Rightarrow> bool) \<Rightarrow> string option \<Rightarrow> string \<Rightarrow> string result" where
  "find_libumm_so abspath isfile env script_dir =
     (case find (\<lambda>p. isfile (abspath p)) (libumm_candidates env script_dir) of
        None \<Rightarrow> Inl FileNotFoundError | Some p \<Rightarrow> Inr (abspath p))"

subsection \<open>The library object the layers above receive\<close>

record 's umm_lib =
  lib_get_topology :: "'s \<Rightarrow> (storage_topology, 's) outcome"
  lib_alloc_on_device :: "int \<Rightarrow> int \<Rightarrow> int \<Rightarrow> 's \<Rightarrow> (chunk_desc, 's) outcome"
  lib_free :: "chunk_desc \<Rightarrow> 's \<Rightarrow> (unit, 's) outcome"
  lib_read_into :: "chunk_desc \<Rightarrow> int \<Rightarrow> pybuf \<Rightarrow> 's \<Rightarrow> (int, pybuf \<times> 's) outcome"
  lib_write_from :: "chunk_desc \<Rightarrow> int \<Rightarrow> pybuf \<Rightarrow> 's \<Rightarrow> (int, 's) outcome"
  lib_resolve_ssd_extent_base :: "(chunk_desc \<Rightarrow> int \<Rightarrow> 's \<Rightarrow> int result) option"

text \<open>A \<open>UMMLib\<close> instance has no \<open>resolve_ssd_extent_base\<close> attribute.\<close>

definition UMMLib :: "'s clib \<Rightarrow> 's umm_lib" where
  "UMMLib c = \<lparr>lib_get_topology = UMMLib_get_topology c,
     lib_alloc_on_device = UMMLib_alloc_on_device c,
     lib_free = UMMLib_free c,
     lib_read_into = UMMLib_read_into c,
     lib_write_from = UMMLib_write_from c,
     lib_resolve_ssd_extent_base = None\<rparr>"

text \<open>
  What the storage layers rely on: the library keeps a map from chunk ids to byte arrays; a write
  inside a chunk replaces exactly that block, a read inside a chunk returns exactly that block and
  changes no chunk, an allocation adds a chunk under a fresh id while the library has room for one
  more id (the ids are 64 bits wide), a release removes one. Reads and writes are promised for pages
  only: for offsets and lengths that are multiples of 4096 and for writable, contiguous buffers, which
  is what the layers above use and what a direct-I/O library supports.
\<close>

locale chunk_store =
  fixes L :: "'s umm_lib"
    and view :: "'s \<Rightarrow> int \<Rightarrow> bytes option"
    and inv :: "'s \<Rightarrow> bool"
    and room :: "'s \<Rightarrow> nat \<Rightarrow> bool"
  assumes write_from_ok:
    "\<lbrakk>inv s; view s (d_chunk_id d) = Some xs; d_user_size d = int (length xs);
      0 \<le> off; off + nbytes b \<le> int (length xs); 4096 dvd off; 4096 dvd nbytes b; \<not> buf_readonly b; buf_contiguous b\<rbrakk>
     \<Longrightarrow> \<exists>s'. lib_write_from L d off b s = (Inr (nbytes b), s') \<and> inv s' \<and> room s' = room s \<and>
          view s' = (view s)(d_chunk_id d \<mapsto> put_block (nat off) (buf_data b) xs)"
  and read_into_ok:
    "\<lbrakk>inv s; view s (d_chunk_id d) = Some xs; d_user_size d = int (length xs);
      0 \<le> off; off + nbytes b \<le> int (length xs); 4096 dvd off; 4096 dvd nbytes b; \<not> buf_readonly b; buf_contiguous b\<rbrakk>
     \<Longrightarrow> \<exists>s'. lib_read_into L d off b s =
            (Inr (nbytes b), (b\<lparr>buf_data := block_at (nat off) (length (buf_data b)) xs\<rparr>, s'))
          \<and> inv s' \<and> room s' = room s \<and> view s' = view s"
  and alloc_ok:
    "\<lbrakk>inv s; room s (Suc n); lib_alloc_on_device L sz tier dev s = (Inr d, s'); 0 \<le> sz; sz < 2 ^ 64\<rbrakk>
     \<Longrightarrow> inv s' \<and> room s' n \<and> view s (d_chunk_id d) = None \<and> u64 (d_chunk_id d) = d_chunk_id d \<and>
         d_user_size d = sz \<and> (\<exists>xs. int (length xs) = sz \<and> view s' = (view s)(d_chunk_id d \<mapsto> xs))"
  and alloc_error:
    "\<lbrakk>inv s; lib_alloc_on_device L sz tier dev s = (Inl e, s')\<rbrakk> \<Longrightarrow> inv s' \<and> view s' = view s"
  and free_ok:
    "\<lbrakk>inv s; view s (d_chunk_id d) \<noteq> None; lib_free L d s = (r, s')\<rbrakk> \<Longrightarrow>
       r = Inr () \<and> inv s' \<and> room s' = room s \<and> view s' = (view s)(d_chunk_id d := None)"
  and topology_ok:
    "\<lbrakk>inv s; lib_get_topology L s = (rt, s')\<rbrakk> \<Longrightarrow> inv s' \<and> room s' = room s \<and> view s' = view s"
  and store_room_less: "room s (Suc n) \<Longrightarrow> room s n"
begin

text \<open>What was written is read back, from any part of the written block.\<close>

lemma write_then_read:
  assumes "inv s" and "view s (d_chunk_id d) = Some xs" and "d_user_size d = int (length xs)"
    and "0 \<le> off" and "off + nbytes b \<le> int (length xs)" and "4096 dvd off" and "4096 dvd nbytes b"
    and "\<not> buf_readonly b" and "buf_contiguous b"
    and "0 \<le> i" and "i + nbytes b' \<le> nbytes b" and "4096 dvd i" and "4096 dvd nbytes b'" and "\<not> buf_readonly b'" and "buf_contiguous b'"
    and w: "lib_write_from L d off b s = (r, s')"
    and rd: "lib_read_into L d (off + i) b' s' = (r', (b'', s''))"
  shows "r = Inr (nbytes b) \<and> r' = Inr (nbytes b') \<and>
         buf_data b'' = block_at (nat i) (length (buf_data b')) (buf_data b)"
proof -
  let ?ys = "put_block (nat off) (buf_data b) xs"
  have wr: "r = Inr (nbytes b)" "inv s'" "view s' = (view s)(d_chunk_id d \<mapsto> ?ys)"
    using write_from_ok [OF assms(1-9)] w by auto
  have len: "length ?ys = length xs" using assms(4,5) by simp
  have "off + i + nbytes b' \<le> int (length ?ys)" using assms(5,11) len by linarith
  then obtain t where t: "lib_read_into L d (off + i) b' s' =
      (Inr (nbytes b'), (b'\<lparr>buf_data := block_at (nat (off + i)) (length (buf_data b')) ?ys\<rparr>, t))"
    using read_into_ok [of s' d ?ys "off + i" b'] wr assms(3,4,6,10,12-15) len by auto
  have "block_at (nat off + nat i) (length (buf_data b')) ?ys
      = block_at (nat i) (length (buf_data b')) (buf_data b)"
    using assms(4,5,10,11) by (intro block_at_put_inner) linarith+
  then show ?thesis using wr(1) t rd assms(4,10) by (simp add: nat_add_distrib)
qed

end

end
