(* ===== verification/FakeClib.thy ===== *)
theory FakeClib
  imports UmmLib
begin

section \<open>The in-memory library of testing.py\<close>

text \<open>
  \<open>bmpclient/testing.py\<close> implements the C entry points over a Python dictionary of byte arrays.
  The model keeps its whole state but for pointer values and the injected delay. Each entry point
  is one step: the code takes its lock twice per transfer, once for the range check and once to
  move the data. The interpretation at the end proves that \<open>FakeUMMLib\<close> is a \<open>chunk_store\<close>.
\<close>

subsection \<open>State and entry points\<close>

record fake_clib =
  fk_chunks :: "int \<rightharpoonup> bytes"
  fk_chunk_device :: "int \<rightharpoonup> int"
  fk_next_chunk_id :: int
  fk_num_ssd_devices :: int
  fk_device_inflight :: int
  fk_max_device_inflight :: int
  fk_read_log :: "(int \<times> int \<times> int) list"
  fk_write_log :: "(int \<times> int \<times> int) list"

definition FakeCLib_init :: "int \<Rightarrow> fake_clib" where
  "FakeCLib_init n = \<lparr>fk_chunks = Map.empty, fk_chunk_device = Map.empty, fk_next_chunk_id = 1,
     fk_num_ssd_devices = n, fk_device_inflight = 0, fk_max_device_inflight = 0,
     fk_read_log = [], fk_write_log = []\<rparr>"

text \<open>
  \<open>umm_alloc\<close>: the counter advances before \<open>bytearray(size)\<close>, which rejects a negative size.
\<close>

definition fk_umm_alloc :: "int \<Rightarrow> fake_clib \<Rightarrow> (int \<times> chunk_desc, fake_clib) outcome" where
  "fk_umm_alloc sz s =
     (let cid = fk_next_chunk_id s; s1 = s\<lparr>fk_next_chunk_id := cid + 1\<rparr>
      in if sz < 0 then (Inl ValueError, s1)
         else (Inr (0, ChunkDescriptor cid (0x100000 + cid * 0x10000) sz),
               s1\<lparr>fk_chunks := (fk_chunks s1)(cid \<mapsto> replicate (nat sz) 0)\<rparr>))"

definition fk_umm_free :: "chunk_desc \<Rightarrow> fake_clib \<Rightarrow> (int, fake_clib) outcome" where
  "fk_umm_free d s =
     (if fk_chunks s (d_chunk_id d) = None then (Inr 1, s)
      else (Inr 0, s\<lparr>fk_chunks := (fk_chunks s)(d_chunk_id d := None),
                    fk_chunk_device := (fk_chunk_device s)(d_chunk_id d := None)\<rparr>))"

definition fk_umm_alloc_on_device ::
  "int \<Rightarrow> int \<Rightarrow> int \<Rightarrow> fake_clib \<Rightarrow> (int \<times> chunk_desc, fake_clib) outcome" where
  "fk_umm_alloc_on_device sz tier dev s =
     (if tier \<noteq> UMM_TIER_SSD \<or> dev \<ge> fk_num_ssd_devices s
      then (Inr (3, ChunkDescriptor 0 0 0), s)
      else rbind (fk_umm_alloc sz s) (\<lambda>(rc, d) s.
        if rc = 0 then (Inr (rc, d), s\<lparr>fk_chunk_device := (fk_chunk_device s)(d_chunk_id d \<mapsto> dev)\<rparr>)
        else (Inr (rc, d), s)))"

definition fake_ssd :: "nat \<Rightarrow> storage_resource" where
  "fake_ssd i = \<lparr>r_tier = UMM_TIER_SSD, r_device_path = ''fake-ssd-'' @ show_nat i,
     r_capacity = 2 ^ 40, r_base_offset = 0, r_online = 1\<rparr>"

text \<open>\<open>topo.resources[i]\<close> raises for a slot the structure does not have.\<close>

definition fk_umm_get_topology ::
  "fake_clib \<Rightarrow> (int \<times> storage_topology, fake_clib) outcome" where
  "fk_umm_get_topology s =
     (let n = nat (fk_num_ssd_devices s) in
      if n > UMM_MAX_TOPOLOGY_RESOURCES then (Inl IndexError, s)
      else (Inr (0, \<lparr>t_node_id = 0, t_num_resources = u32 (fk_num_ssd_devices s),
              t_resources = map fake_ssd [0..<n] @
                replicate (UMM_MAX_TOPOLOGY_RESOURCES - n) empty_resource\<rparr>), s))"

definition fk_io_enter :: "fake_clib \<Rightarrow> fake_clib" where
  "fk_io_enter s =
     (let n = fk_device_inflight s + 1 in
      s\<lparr>fk_device_inflight := n, fk_max_device_inflight := max (fk_max_device_inflight s) n\<rparr>)"

definition fk_io_exit :: "fake_clib \<Rightarrow> fake_clib" where
  "fk_io_exit s = s\<lparr>fk_device_inflight := fk_device_inflight s - 1\<rparr>"

text \<open>
  The range check bounds only the end of the transfer. \<open>memmove\<close> copies the snapshot over the
  start of the caller's buffer; a negative offset makes the snapshot shorter than \<open>size\<close>, and what
  \<open>memmove\<close> then reads past it is not defined by the source (the model leaves those bytes).
\<close>

definition fk_umm_read ::
  "chunk_desc \<Rightarrow> int \<Rightarrow> int \<Rightarrow> bytes \<Rightarrow> fake_clib \<Rightarrow> (int \<times> bytes, fake_clib) outcome" where
  "fk_umm_read d off sz buf s =
     (case fk_chunks s (d_chunk_id d) of
        None \<Rightarrow> (Inr (1, buf), s)
      | Some data \<Rightarrow>
          if off + sz > int (length data) then (Inr (2, buf), s)
          else
            (let snapshot = py_slice data off (off + sz);
                 s1 = s\<lparr>fk_read_log := fk_read_log s @ [(d_chunk_id d, off, sz)]\<rparr>
             in (Inr (0, snapshot @ drop (length snapshot) buf), fk_io_exit (fk_io_enter s1))))"

definition fk_umm_write ::
  "chunk_desc \<Rightarrow> int \<Rightarrow> int \<Rightarrow> bytes \<Rightarrow> fake_clib \<Rightarrow> (int, fake_clib) outcome" where
  "fk_umm_write d off sz buf s =
     (case fk_chunks s (d_chunk_id d) of
        None \<Rightarrow> (Inr 1, s)
      | Some data \<Rightarrow>
          if off + sz > int (length data) then (Inr 2, s)
          else
            (let s1 = s\<lparr>fk_write_log := fk_write_log s @ [(d_chunk_id d, off, sz)]\<rparr>;
                 payload = take (nat sz) buf;
                 s2 = fk_io_enter s1;
                 s3 = (if sz \<noteq> 0 then s2\<lparr>fk_chunks := (fk_chunks s2)
                          (d_chunk_id d \<mapsto> py_slice_set data off (off + sz) payload)\<rparr> else s2)
             in (Inr 0, fk_io_exit s3)))"

definition fk_reset_stats :: "fake_clib \<Rightarrow> fake_clib" where
  "fk_reset_stats s = s\<lparr>fk_device_inflight := 0, fk_max_device_inflight := 0,
     fk_read_log := [], fk_write_log := []\<rparr>"

text \<open>\<open>FakeUMMLib\<close>: the symbols \<open>_FakeCLib\<close> defines; every other one is missing.\<close>

definition fake_clib_entries :: "fake_clib clib" where
  "fake_clib_entries = \<lparr>c_init = None, c_deinit = None, c_alloc = Some fk_umm_alloc,
     c_alloc_tiered = None, c_alloc_on_device = Some fk_umm_alloc_on_device,
     c_register_storage_tier = None, c_free = Some fk_umm_free, c_read = Some fk_umm_read,
     c_write = Some fk_umm_write, c_lookup_chunk = None, c_fence = None, c_invalidate = None,
     c_get_topology = Some fk_umm_get_topology\<rparr>"

definition FakeUMMLib :: "fake_clib umm_lib" where
  "FakeUMMLib = UMMLib fake_clib_entries"

lemmas fk_defs = fk_umm_alloc_def fk_umm_free_def fk_umm_alloc_on_device_def
  fk_umm_get_topology_def fk_umm_read_def fk_umm_write_def fk_io_enter_def fk_io_exit_def

lemma FakeUMMLib_simps [umm_simps]:
  "lib_get_topology FakeUMMLib = UMMLib_get_topology fake_clib_entries"
  "lib_alloc_on_device FakeUMMLib = UMMLib_alloc_on_device fake_clib_entries"
  "lib_free FakeUMMLib = UMMLib_free fake_clib_entries"
  "lib_read_into FakeUMMLib = UMMLib_read_into fake_clib_entries"
  "lib_write_from FakeUMMLib = UMMLib_write_from fake_clib_entries"
  "lib_resolve_ssd_extent_base FakeUMMLib = None"
  by (simp_all add: FakeUMMLib_def UMMLib_def)

lemma fake_entries_simps [simp]:
  "c_alloc fake_clib_entries = Some fk_umm_alloc"
  "c_alloc_on_device fake_clib_entries = Some fk_umm_alloc_on_device"
  "c_free fake_clib_entries = Some fk_umm_free"
  "c_read fake_clib_entries = Some fk_umm_read"
  "c_write fake_clib_entries = Some fk_umm_write"
  "c_get_topology fake_clib_entries = Some fk_umm_get_topology"
  "c_alloc_tiered fake_clib_entries = None" "c_init fake_clib_entries = None"
  "c_deinit fake_clib_entries = None" "c_fence fake_clib_entries = None"
  "c_invalidate fake_clib_entries = None" "c_lookup_chunk fake_clib_entries = None"
  "c_register_storage_tier fake_clib_entries = None"
  by (simp_all add: fake_clib_entries_def)

subsection \<open>Invariant: chunk ids come from the counter\<close>

definition fk_inv :: "fake_clib \<Rightarrow> bool" where
  "fk_inv s \<longleftrightarrow> 1 \<le> fk_next_chunk_id s \<and>
     (\<forall>k \<in> dom (fk_chunks s). 0 < k \<and> k < fk_next_chunk_id s)"

lemma fk_inv_advance:
  assumes "fk_inv s" and "fk_next_chunk_id s \<le> fk_next_chunk_id s'"
    and "dom (fk_chunks s') \<subseteq> insert (fk_next_chunk_id s) (dom (fk_chunks s))"
    and "dom (fk_chunks s') \<subseteq> dom (fk_chunks s) \<or> fk_next_chunk_id s < fk_next_chunk_id s'"
  shows "fk_inv s'"
  unfolding fk_inv_def
proof (intro conjI ballI)
  show "1 \<le> fk_next_chunk_id s'" using assms(1,2) by (simp add: fk_inv_def)
next
  fix k assume k: "k \<in> dom (fk_chunks s')"
  have old: "0 < k' \<and> k' < fk_next_chunk_id s" if "k' \<in> dom (fk_chunks s)" for k'
    using assms(1) that by (simp add: fk_inv_def)
  have "1 \<le> fk_next_chunk_id s" using assms(1) by (simp add: fk_inv_def)
  then show "0 < k" and "k < fk_next_chunk_id s'" using k old [of k] assms(2-4) by fastforce+
qed

text \<open>The counter still has \<open>n\<close> ids that fit the 64-bit field of a descriptor.\<close>

definition fk_room :: "fake_clib \<Rightarrow> nat \<Rightarrow> bool" where
  "fk_room s n \<longleftrightarrow> fk_next_chunk_id s + int n \<le> 2 ^ 64"

lemma fk_inv_init: "fk_inv (FakeCLib_init n)"
  by (simp add: fk_inv_def FakeCLib_init_def)

lemma fk_inv_frame:
  "fk_chunks s' = fk_chunks s \<Longrightarrow> fk_next_chunk_id s' = fk_next_chunk_id s \<Longrightarrow> fk_inv s' = fk_inv s"
  by (simp add: fk_inv_def)

lemma fk_room_frame: "fk_next_chunk_id s' = fk_next_chunk_id s \<Longrightarrow> fk_room s' = fk_room s"
  by (simp add: fk_room_def fun_eq_iff)

lemma fk_inv_update:
  "fk_inv s \<Longrightarrow> fk_chunks s k \<noteq> None \<Longrightarrow> fk_chunks s' = (fk_chunks s)(k := v) \<Longrightarrow>
   fk_next_chunk_id s' = fk_next_chunk_id s \<Longrightarrow> fk_inv s'"
  by (auto simp: fk_inv_def split: if_splits)

lemma fk_io_frame [simp]:
  "fk_chunks (fk_io_enter s) = fk_chunks s" "fk_chunks (fk_io_exit s) = fk_chunks s"
  "fk_next_chunk_id (fk_io_enter s) = fk_next_chunk_id s"
  "fk_next_chunk_id (fk_io_exit s) = fk_next_chunk_id s"
  by (simp_all add: fk_io_enter_def fk_io_exit_def Let_def)

subsection \<open>Behaviour of the entry points inside a chunk\<close>

lemma fk_umm_write_inside:
  assumes "fk_chunks s (d_chunk_id d) = Some xs" and "0 \<le> off" and "off + int (length ys) \<le> int (length xs)"
    and "ys \<noteq> []"
  shows "\<exists>s'. fk_umm_write d off (int (length ys)) ys s = (Inr 0, s') \<and>
           fk_chunks s' = (fk_chunks s)(d_chunk_id d \<mapsto> put_block (nat off) ys xs) \<and>
           fk_next_chunk_id s' = fk_next_chunk_id s"
  using assms by (simp add: fk_umm_write_def Let_def py_slice_set_block)

lemma fk_umm_read_inside:
  assumes "fk_chunks s (d_chunk_id d) = Some xs" and "0 \<le> off" and "off + int (length buf) \<le> int (length xs)"
  shows "\<exists>s'. fk_umm_read d off (int (length buf)) buf s =
             (Inr (0, block_at (nat off) (length buf) xs), s') \<and>
           fk_chunks s' = fk_chunks s \<and> fk_next_chunk_id s' = fk_next_chunk_id s"
  using assms by (simp add: fk_umm_read_def Let_def py_slice_block)

lemma fk_write_from_ok:
  assumes "fk_inv s" and "fk_chunks s (d_chunk_id d) = Some xs"
    and "0 \<le> off" and "off + nbytes b \<le> int (length xs)" and "buf_readonly b \<or> buf_contiguous b"
  shows "\<exists>s'. lib_write_from FakeUMMLib d off b s = (Inr (nbytes b), s') \<and> fk_inv s' \<and> fk_room s' = fk_room s \<and>
          fk_chunks s' = (fk_chunks s)(d_chunk_id d \<mapsto> put_block (nat off) (buf_data b) xs)"
proof (cases "buf_data b = []")
  case True
  then show ?thesis using assms by (auto simp: umm_simps put_block_def fun_upd_idem)
next
  case False
  obtain s' where s': "fk_umm_write d off (nbytes b) (buf_data b) s = (Inr 0, s')"
    "fk_chunks s' = (fk_chunks s)(d_chunk_id d \<mapsto> put_block (nat off) (buf_data b) xs)"
    "fk_next_chunk_id s' = fk_next_chunk_id s"
    using fk_umm_write_inside [OF assms(2-4) False] by blast
  moreover have "fk_inv s'" using fk_inv_update [OF assms(1) _ s'(2,3)] assms(2) by simp
  ultimately show ?thesis using False assms(5) fk_room_frame [OF s'(3)] by (auto simp: umm_simps)
qed

lemma fk_read_into_ok:
  assumes "fk_inv s" and "fk_chunks s (d_chunk_id d) = Some xs"
    and "0 \<le> off" and "off + nbytes b \<le> int (length xs)"
    and "\<not> buf_readonly b" and "buf_contiguous b"
  shows "\<exists>s'. lib_read_into FakeUMMLib d off b s =
            (Inr (nbytes b), (b\<lparr>buf_data := block_at (nat off) (length (buf_data b)) xs\<rparr>, s'))
          \<and> fk_inv s' \<and> fk_room s' = fk_room s \<and> fk_chunks s' = fk_chunks s"
proof (cases "buf_data b = []")
  case True
  then show ?thesis using assms by (auto simp: umm_simps block_at_def)
next
  case False
  obtain s' where s': "fk_umm_read d off (nbytes b) (buf_data b) s =
      (Inr (0, block_at (nat off) (length (buf_data b)) xs), s')"
    "fk_chunks s' = fk_chunks s" "fk_next_chunk_id s' = fk_next_chunk_id s"
    using fk_umm_read_inside [OF assms(2-4)] by blast
  then show ?thesis using False assms fk_inv_frame [OF s'(2,3)] fk_room_frame [OF s'(3)] by (auto simp: umm_simps)
qed

lemma fk_alloc_on_device_ok:
  assumes "fk_inv s" and "fk_room s (Suc n)"
    and "lib_alloc_on_device FakeUMMLib sz tier dev s = (Inr d, s')" and "0 \<le> sz" and "sz < 2 ^ 64"
  shows "fk_inv s' \<and> fk_room s' n \<and> fk_chunks s (d_chunk_id d) = None \<and>
         u64 (d_chunk_id d) = d_chunk_id d \<and> d_user_size d = sz \<and>
         fk_chunks s' = (fk_chunks s)(d_chunk_id d \<mapsto> replicate (nat sz) 0)"
proof -
  let ?n = "fk_next_chunk_id s"
  have tier: "tier = UMM_TIER_SSD" and dev: "dev < fk_num_ssd_devices s"
    using assms(3) by (auto simp: umm_simps fk_umm_alloc_on_device_def split: if_splits)
  have *: "d = ChunkDescriptor ?n (0x100000 + ?n * 0x10000) sz"
    "fk_chunks s' = (fk_chunks s)(?n \<mapsto> replicate (nat sz) 0)" "fk_next_chunk_id s' = ?n + 1"
    using assms(3,4) tier dev by (auto simp: umm_simps fk_umm_alloc_on_device_def fk_umm_alloc_def Let_def)
  have n: "1 \<le> ?n" "?n < 2 ^ 64" using assms(1,2) by (auto simp: fk_inv_def fk_room_def)
  moreover have "fk_chunks s ?n = None" using assms(1) by (auto simp: fk_inv_def)
  moreover have "fk_inv s'" using fk_inv_advance [OF assms(1)] *(2,3) by simp
  moreover have "fk_room s' n" using assms(2) *(3) by (simp add: fk_room_def)
  ultimately show ?thesis using *(1,2) assms(4,5) by (simp add: ChunkDescriptor_def)
qed

lemma fk_alloc_on_device_error:
  assumes "fk_inv s" and "lib_alloc_on_device FakeUMMLib sz tier dev s = (Inl e, s')"
  shows "fk_inv s' \<and> fk_chunks s' = fk_chunks s"
proof -
  have "fk_chunks s' = fk_chunks s" and "fk_next_chunk_id s \<le> fk_next_chunk_id s'"
    using assms(2)
    by (auto simp: umm_simps fk_umm_alloc_on_device_def fk_umm_alloc_def Let_def split: if_splits)
  then show ?thesis using fk_inv_advance [OF assms(1), of s'] by auto
qed

interpretation fake_store: chunk_store FakeUMMLib fk_chunks fk_inv fk_room
proof (unfold_locales, goal_cases)
  case (1 s d xs off b)
  then show ?case using fk_write_from_ok [of s d xs off b] by blast
next
  case (2 s d xs off b)
  then show ?case using fk_read_into_ok [of s d xs off b] by blast
next
  case (3 s n sz tier dev d s')
  show ?case using fk_alloc_on_device_ok [OF 3] 3(4) by (intro conjI) (auto intro!: exI)
next
  case (4 s sz tier dev e s')
  then show ?case by (rule fk_alloc_on_device_error)
next
  case (5 s d r s')
  then show ?case
    by (auto simp: umm_simps fk_umm_free_def fk_room_def fun_eq_iff
        intro!: fk_inv_update [of s "d_chunk_id d" _ None])
next
  case (6 s rt s')
  then show ?case by (auto simp: umm_simps fk_umm_get_topology_def Let_def split: if_splits)
next
  case (7 s n)
  then show ?case by (simp add: fk_room_def)
qed

end
