(* ===== verification/Client.thy ===== *)
theory Client
  imports FakeClib
begin

section \<open>UMMServiceClient (client.py)\<close>

text \<open>
  The session object over \<open>UMMLib\<close>: it fills a \<open>UMMConfig\<close> from its constructor arguments,
  initialises the library and forwards chunk operations. Strings are their UTF-8 bytes, one
  \<open>char\<close> per byte; a ctypes character array rejects a value longer than the array.
\<close>

subsection \<open>Construction\<close>

record client_args =
  a_meta_addr :: string
  a_mem_addr :: string
  a_node_id :: int
  a_ssd_device :: string
  a_ssd_devices :: "(string \<times> int) list option"
  a_tier_aware :: bool
  a_peer_nodes :: string
  a_rpc_token :: string
  a_ssd_owner_node :: int
  a_data_max_io :: int
  a_memory_size :: int
  a_local_mem_as_dram :: bool
  a_mem_device :: string

definition client_args_default :: "string \<Rightarrow> string \<Rightarrow> client_args" where
  "client_args_default meta mem = \<lparr>a_meta_addr = meta, a_mem_addr = mem, a_node_id = 0,
     a_ssd_device = [], a_ssd_devices = None, a_tier_aware = False, a_peer_nodes = [],
     a_rpc_token = [], a_ssd_owner_node = UMM_NODE_UNKNOWN, a_data_max_io = 0, a_memory_size = 0,
     a_local_mem_as_dram = False, a_mem_device = []\<rparr>"

definition fits :: "nat \<Rightarrow> string \<Rightarrow> bool" where
  "fits n bs \<longleftrightarrow> length bs \<le> n"

text \<open>
  The configuration the constructor builds: fixed-size fields are checked in the order they are
  assigned, at most 16 SSD devices are taken over, the rest is silently dropped.
\<close>

definition client_config :: "client_args \<Rightarrow> umm_config result" where
  "client_config a =
     (let devs = (case a_ssd_devices a of None \<Rightarrow> [] | Some ds \<Rightarrow> take 16 ds)
      in if \<not> (fits 256 (a_meta_addr a) \<and> fits 256 (a_mem_addr a) \<and> fits 256 (a_ssd_device a)
               \<and> fits 1024 (a_peer_nodes a) \<and> fits 64 (a_rpc_token a) \<and> fits 256 (a_mem_device a)
               \<and> list_all (\<lambda>(path, sz). fits 256 path) devs)
         then Inl ValueError
         else Inr \<lparr>cfg_transport = (if a_tier_aware a then [] else ''mock''),
           cfg_consistency_model = ''hardware'',
           cfg_memory_size = u64 (if a_memory_size a > 0 then a_memory_size a else 64 * 1024 * 1024),
           cfg_meta_server_addr = a_meta_addr a, cfg_mem_server_addr = a_mem_addr a,
           cfg_cxl_device = a_mem_device a, cfg_ssd_device = a_ssd_device a,
           cfg_my_node_id = u8 (a_node_id a),
           cfg_ssd_devices = map (\<lambda>(path, sz). (path, u64 sz)) devs,
           cfg_num_ssd_devices = int (length devs),
           cfg_peer_nodes = a_peer_nodes a, cfg_rpc_token = a_rpc_token a,
           cfg_ssd_owner_node = u8 (a_ssd_owner_node a),
           cfg_local_mem_as_dram = (if a_local_mem_as_dram a then 1 else 0),
           cfg_data_max_io = u32 (a_data_max_io a)\<rparr>)"

definition UMMServiceClient_init :: "'s clib \<Rightarrow> client_args \<Rightarrow> 's \<Rightarrow> (umm_config, 's) outcome" where
  "UMMServiceClient_init c a s =
     (case client_config a of
        Inl e \<Rightarrow> (Inl e, s)
      | Inr cfg \<Rightarrow> rbind (UMMLib_init c cfg s) (\<lambda>rc s. if rc \<noteq> 0 then (Inl RuntimeError, s) else (Inr cfg, s)))"

subsection \<open>Chunk operations\<close>

definition create_chunk :: "'s clib \<Rightarrow> int \<Rightarrow> string \<Rightarrow> int option \<Rightarrow> 's \<Rightarrow> (chunk_desc, 's) outcome" where
  "create_chunk c sz media_type device_idx s =
     (if media_type = ''ssd'' then
        (case device_idx of
           Some dev \<Rightarrow> UMMLib_alloc_on_device c sz UMM_TIER_SSD dev s
         | None \<Rightarrow> UMMLib_alloc_tiered c sz UMM_TIER_SSD s)
      else
        (case device_idx of
           Some dev \<Rightarrow> (Inl ValueError, s)
         | None \<Rightarrow> UMMLib_alloc c sz s))"

definition create_chunk_on_tier :: "'s clib \<Rightarrow> int \<Rightarrow> int \<Rightarrow> 's \<Rightarrow> (chunk_desc, 's) outcome" where
  "create_chunk_on_tier c sz tier s =
     (if \<not> (0 \<le> tier \<and> tier \<le> 2) then (Inl ValueError, s) else UMMLib_alloc_tiered c sz tier s)"

definition enable_ssd :: "'s clib \<Rightarrow> string \<Rightarrow> int \<Rightarrow> 's \<Rightarrow> (unit, 's) outcome" where
  "enable_ssd c path cap s = UMMLib_register_storage_tier c UMM_TIER_SSD path cap s"

definition client_get_topology :: "'s clib \<Rightarrow> 's \<Rightarrow> (storage_topology, 's) outcome" where
  "client_get_topology c s = UMMLib_get_topology c s"

definition delete_chunk :: "'s clib \<Rightarrow> chunk_desc \<Rightarrow> 's \<Rightarrow> (unit, 's) outcome" where
  "delete_chunk c d s = UMMLib_free c d s"

definition client_flush :: "'s clib \<Rightarrow> 's \<Rightarrow> (unit, 's) outcome" where
  "client_flush c s = UMMLib_fence c s"

definition invalidate_chunk :: "'s clib \<Rightarrow> chunk_desc \<Rightarrow> int \<Rightarrow> int \<Rightarrow> 's \<Rightarrow> (unit, 's) outcome" where
  "invalidate_chunk c d off sz s = UMMLib_invalidate c d off sz s"

definition read_chunk :: "'s clib \<Rightarrow> chunk_desc \<Rightarrow> int \<Rightarrow> int \<Rightarrow> 's \<Rightarrow> (bytes, 's) outcome" where
  "read_chunk c d off sz s = UMMLib_read c d off sz s"

definition write_chunk :: "'s clib \<Rightarrow> chunk_desc \<Rightarrow> int \<Rightarrow> bytes \<Rightarrow> 's \<Rightarrow> (unit, 's) outcome" where
  "write_chunk c d off data s = UMMLib_write c d off data s"

definition lookup_chunk :: "'s clib \<Rightarrow> string \<Rightarrow> 's \<Rightarrow> (chunk_metadata, 's) outcome" where
  "lookup_chunk c name s = UMMLib_lookup_chunk c name s"

definition client_close :: "'s clib \<Rightarrow> 's \<Rightarrow> (unit, 's) outcome" where
  "client_close c s = UMMLib_deinit c s"

text \<open>One record of the device list; the path loses its NUL padding.\<close>

record device_info =
  di_tier :: int
  di_device_path :: string
  di_capacity :: int
  di_base_offset :: int
  di_online :: bool

definition rstrip_nul :: "string \<Rightarrow> string" where
  "rstrip_nul p = rev (dropWhile (\<lambda>ch. ch = CHR 0x00) (rev p))"

definition device_info_of :: "storage_resource \<Rightarrow> device_info" where
  "device_info_of r = \<lparr>di_tier = r_tier r, di_device_path = rstrip_nul (r_device_path r),
     di_capacity = r_capacity r, di_base_offset = r_base_offset r, di_online = (r_online r \<noteq> 0)\<rparr>"

definition devices_of_topology :: "storage_topology \<Rightarrow> device_info list" where
  "devices_of_topology topo = map device_info_of (filter (\<lambda>r. r_online r \<noteq> 0) (t_resources topo))"

definition get_device_list :: "'s clib \<Rightarrow> 's \<Rightarrow> (device_info list, 's) outcome" where
  "get_device_list c s =
     rbind (client_get_topology c s) (\<lambda>topo s. (Inr (devices_of_topology topo), s))"

lemmas client_defs [umm_simps] = create_chunk_def create_chunk_on_tier_def enable_ssd_def
  client_get_topology_def delete_chunk_def client_flush_def invalidate_chunk_def read_chunk_def
  write_chunk_def lookup_chunk_def client_close_def

subsection \<open>The chunk service the allocator relies on\<close>

text \<open>
  A successful creation returns an id no live chunk has and at least the requested size; a failing
  one creates nothing; deleting a live chunk succeeds and removes it; data written inside a chunk
  is what a later read of that block returns.
\<close>

locale chunk_service =
  fixes c :: "'s clib"
    and view :: "'s \<Rightarrow> int \<Rightarrow> bytes option"
    and inv :: "'s \<Rightarrow> bool"
    and room :: "'s \<Rightarrow> nat \<Rightarrow> bool"
  assumes create_ok:
    "\<lbrakk>inv s; room s (Suc n); create_chunk c sz mt dev s = (Inr d, s'); 0 \<le> sz; sz < 2 ^ 64\<rbrakk> \<Longrightarrow>
     inv s' \<and> room s' n \<and> view s (d_chunk_id d) = None \<and> u64 (d_chunk_id d) = d_chunk_id d \<and>
     sz \<le> d_user_size d \<and> (\<exists>xs. int (length xs) = d_user_size d \<and> view s' = (view s)(d_chunk_id d \<mapsto> xs))"
  and create_error:
    "\<lbrakk>inv s; create_chunk c sz mt dev s = (Inl e, s')\<rbrakk> \<Longrightarrow> inv s' \<and> view s' = view s"
  and delete_ok:
    "\<lbrakk>inv s; view s (d_chunk_id d) \<noteq> None; delete_chunk c d s = (r, s')\<rbrakk> \<Longrightarrow>
     r = Inr () \<and> inv s' \<and> room s' = room s \<and> view s' = (view s)(d_chunk_id d := None)"
  and read_chunk_ok:
    "\<lbrakk>inv s; view s (d_chunk_id d) = Some xs; 0 \<le> off; 0 \<le> sz; off + sz \<le> int (length xs)\<rbrakk> \<Longrightarrow>
     \<exists>s'. read_chunk c d off sz s = (Inr (block_at (nat off) (nat sz) xs), s') \<and> inv s' \<and>
       room s' = room s \<and> view s' = view s"
  and write_chunk_ok:
    "\<lbrakk>inv s; view s (d_chunk_id d) = Some xs; 0 \<le> off; off + int (length data) \<le> int (length xs)\<rbrakk> \<Longrightarrow>
     \<exists>s'. write_chunk c d off data s = (Inr (), s') \<and> inv s' \<and> room s' = room s \<and>
       view s' = (view s)(d_chunk_id d \<mapsto> put_block (nat off) data xs)"
  and room_less: "room s (Suc n) \<Longrightarrow> room s n"

lemma fk_alloc_ok:
  assumes "fk_inv s" and "fk_room s (Suc n)" and "fk_umm_alloc sz s = (Inr (rc, d), s')"
    and "0 \<le> sz" and "sz < 2 ^ 64"
  shows "rc = 0 \<and> fk_inv s' \<and> fk_room s' n \<and> fk_chunks s (d_chunk_id d) = None \<and>
         u64 (d_chunk_id d) = d_chunk_id d \<and> d_user_size d = sz \<and>
         fk_chunks s' = (fk_chunks s)(d_chunk_id d \<mapsto> replicate (nat sz) 0)"
proof -
  let ?n = "fk_next_chunk_id s"
  have *: "rc = 0" "d = ChunkDescriptor ?n (0x100000 + ?n * 0x10000) sz"
    "fk_chunks s' = (fk_chunks s)(?n \<mapsto> replicate (nat sz) 0)" "fk_next_chunk_id s' = ?n + 1"
    using assms(3,4) by (auto simp: fk_umm_alloc_def Let_def)
  have "1 \<le> ?n" "?n < 2 ^ 64" using assms(1,2) by (auto simp: fk_inv_def fk_room_def)
  moreover have "fk_chunks s ?n = None" using assms(1) by (auto simp: fk_inv_def)
  moreover have "fk_inv s'" using fk_inv_advance [OF assms(1)] *(3,4) by simp
  moreover have "fk_room s' n" using assms(2) *(4) by (simp add: fk_room_def)
  ultimately show ?thesis using * assms(4,5) by (simp add: ChunkDescriptor_def)
qed

lemma fk_create_chunk_error:
  assumes "fk_inv s" and "create_chunk fake_clib_entries sz mt dev s = (Inl e, s')"
  shows "fk_inv s' \<and> fk_chunks s' = fk_chunks s"
proof -
  have "fk_chunks s' = fk_chunks s" and "fk_next_chunk_id s \<le> fk_next_chunk_id s'"
    using assms(2)
    by (auto simp: umm_simps fk_umm_alloc_on_device_def fk_umm_alloc_def Let_def
        split: if_splits option.splits)
  then show ?thesis using fk_inv_advance [OF assms(1), of s'] by auto
qed

lemma fk_create_chunk_cases:
  assumes "create_chunk fake_clib_entries sz mt dev s = (Inr d, s')"
  shows "(\<exists>rc. fk_umm_alloc sz s = (Inr (rc, d), s')) \<or>
         (\<exists>dv. lib_alloc_on_device FakeUMMLib sz UMM_TIER_SSD dv s = (Inr d, s'))"
  using assms
  by (auto simp: umm_simps fk_umm_alloc_def Let_def split: if_splits option.splits)

interpretation fake_service: chunk_service fake_clib_entries fk_chunks fk_inv fk_room
proof (unfold_locales, goal_cases)
  case (1 s n sz mt dev d s')
  from fk_create_chunk_cases [OF 1(3)] show ?case
    using fk_alloc_ok [OF 1(1,2) _ 1(4,5)] fk_alloc_on_device_ok [OF 1(1,2) _ 1(4,5)] 1(4)
    by (elim disjE exE) (fastforce intro!: exI [of _ "replicate (nat sz) 0"])+
next
  case (2 s sz mt dev e s')
  then show ?case by (rule fk_create_chunk_error)
next
  case (3 s d r s')
  then show ?case using fake_store.free_ok [of s d r s'] by (simp add: umm_simps)
next
  case (4 s d xs off sz)
  obtain s' where s': "fk_umm_read d off sz (replicate (nat sz) 0) s =
      (Inr (0, block_at (nat off) (nat sz) xs), s')"
    "fk_chunks s' = fk_chunks s" "fk_next_chunk_id s' = fk_next_chunk_id s"
    using fk_umm_read_inside [of s d xs off "replicate (nat sz) 0"] 4 by auto
  show ?case using s'(1,2) 4(1,4) fk_inv_frame [OF s'(2,3)] fk_room_frame [OF s'(3)]
    by (simp add: umm_simps)
next
  case (5 s d xs off data)
  show ?case
  proof (cases "data = []")
    case True
    then show ?thesis using 5 by (auto simp: umm_simps put_block_def fun_upd_idem)
  next
    case False
    have "take (length data) (data @ [0]) = data" by simp
    then obtain s' where s': "fk_umm_write d off (int (length data)) (data @ [0]) s = (Inr 0, s')"
      "fk_chunks s' = (fk_chunks s)(d_chunk_id d \<mapsto> put_block (nat off) data xs)"
      "fk_next_chunk_id s' = fk_next_chunk_id s"
      using 5 False by (simp add: fk_umm_write_def Let_def py_slice_set_block)
    then show ?thesis using False 5(2) fk_inv_update [OF 5(1) _ s'(2,3)] fk_room_frame [OF s'(3)]
      by (auto simp: umm_simps)
  qed
next
  case (6 s n)
  then show ?case by (simp add: fk_room_def)
qed

end
