(* ===== verification/ChunkBuffer.thy ===== *)
theory ChunkBuffer
  imports Prelude
begin

section \<open>ChunkBuffer: first fit with coalescing (allocator.py)\<close>

text \<open>
  A \<open>ChunkBuffer\<close> manages the bytes of one UMM chunk with an ordered list of free intervals.
  \<open>alloc\<close> is first fit, \<open>free\<close> appends, sorts and merges neighbours. The abstraction is the set of
  free byte positions; the invariant says that the list is its unique coalesced representation.
  The locale \<open>region\<close> is the contract the fine-grained allocator relies on.
\<close>

subsection \<open>State and operations\<close>

record chunk_buffer =
  cb_chunk_id :: int
  cb_base_gpa :: int
  cb_total_size :: int
  cb_media_type :: string
  cb_device_idx :: "int option"
  cb_free_list :: "(int \<times> int) list"

text \<open>The dataclass constructor followed by \<open>__post_init__\<close>.\<close>

definition ChunkBuffer ::
  "int \<Rightarrow> int \<Rightarrow> int \<Rightarrow> string \<Rightarrow> int option \<Rightarrow> (int \<times> int) list \<Rightarrow> chunk_buffer" where
  "ChunkBuffer cid gpa tsz mt dev fl =
     \<lparr>cb_chunk_id = cid, cb_base_gpa = gpa, cb_total_size = tsz, cb_media_type = mt,
      cb_device_idx = dev, cb_free_list = (if fl = [] then [(0, tsz)] else fl)\<rparr>"

fun first_fit :: "int \<Rightarrow> (int \<times> int) list \<Rightarrow> (int \<times> (int \<times> int) list) option" where
  "first_fit sz [] = None"
| "first_fit sz ((offset, free_size) # fl) =
     (if free_size \<ge> sz then
        (if free_size = sz then Some (offset, fl)
         else Some (offset, (offset + sz, free_size - sz) # fl))
      else map_option (\<lambda>(off, fl'). (off, (offset, free_size) # fl')) (first_fit sz fl))"

definition cb_alloc :: "int \<Rightarrow> chunk_buffer \<Rightarrow> int option \<times> chunk_buffer" where
  "cb_alloc sz cb =
     (case first_fit sz (cb_free_list cb) of
        None \<Rightarrow> (None, cb) | Some (off, fl) \<Rightarrow> (Some off, cb\<lparr>cb_free_list := fl\<rparr>))"

definition coalesce_step :: "(int \<times> int) list \<Rightarrow> int \<times> int \<Rightarrow> (int \<times> int) list" where
  "coalesce_step merged p =
     (if merged \<noteq> [] \<and> fst (last merged) + snd (last merged) = fst p
      then butlast merged @ [(fst (last merged), snd (last merged) + snd p)]
      else merged @ [p])"

definition cb_free :: "int \<Rightarrow> int \<Rightarrow> chunk_buffer \<Rightarrow> chunk_buffer" where
  "cb_free offset sz cb =
     (let new_list = sort_key fst (cb_free_list cb @ [(offset, sz)])
      in cb\<lparr>cb_free_list := foldl coalesce_step [] new_list\<rparr>)"

definition is_fully_free :: "chunk_buffer \<Rightarrow> bool" where
  "is_fully_free cb \<longleftrightarrow>
     length (cb_free_list cb) = 1 \<and> cb_free_list cb ! 0 = (0, cb_total_size cb)"

subsection \<open>The free positions and the coalesced representation\<close>

definition span :: "int \<Rightarrow> int \<Rightarrow> int set" where
  "span off sz = {off..<off + sz}"

lemma span_mem [simp]: "x \<in> span off sz \<longleftrightarrow> off \<le> x \<and> x < off + sz"
  by (simp add: span_def)

lemma span_empty_iff [simp]: "span off sz = {} \<longleftrightarrow> sz \<le> 0"
  by (auto simp: span_def)

definition fl_set :: "(int \<times> int) list \<Rightarrow> int set" where
  "fl_set fl = (\<Union>(off, sz) \<in> set fl. span off sz)"

lemma fl_set_simps [simp]:
  "fl_set [] = {}" "fl_set ((off, sz) # fl) = span off sz \<union> fl_set fl"
  "fl_set (xs @ ys) = fl_set xs \<union> fl_set ys"
  by (auto simp: fl_set_def)

fun fl_ok :: "int \<Rightarrow> int \<Rightarrow> (int \<times> int) list \<Rightarrow> bool" where
  "fl_ok lo hi [] = True"
| "fl_ok lo hi ((off, sz) # fl) = (lo \<le> off \<and> 0 < sz \<and> off + sz \<le> hi \<and> fl_ok (off + sz + 1) hi fl)"

text \<open>The same with touching neighbours allowed, the shape before merging.\<close>

fun fl_weak :: "int \<Rightarrow> int \<Rightarrow> (int \<times> int) list \<Rightarrow> bool" where
  "fl_weak lo hi [] = True"
| "fl_weak lo hi ((off, sz) # fl) = (lo \<le> off \<and> 0 < sz \<and> off + sz \<le> hi \<and> fl_weak (off + sz) hi fl)"

lemma fl_ok_mono: "fl_ok lo hi fl \<Longrightarrow> lo' \<le> lo \<Longrightarrow> fl_ok lo' hi fl"
  by (cases fl) auto

lemma fl_weak_mono: "fl_weak lo hi fl \<Longrightarrow> lo' \<le> lo \<Longrightarrow> fl_weak lo' hi fl"
  by (cases fl) auto

lemma fl_ok_weak: "fl_ok lo hi fl \<Longrightarrow> fl_weak lo hi fl"
  by (induction lo hi fl rule: fl_ok.induct) (auto intro: fl_weak_mono)

lemma fl_set_bounds: "fl_ok lo hi fl \<Longrightarrow> x \<in> fl_set fl \<Longrightarrow> lo \<le> x \<and> x < hi"
  by (induction lo hi fl rule: fl_ok.induct) auto

lemma fl_ok_fst: "fl_ok lo hi fl \<Longrightarrow> p \<in> set fl \<Longrightarrow> lo \<le> fst p \<and> 0 < snd p"
  by (induction lo hi fl rule: fl_ok.induct) fastforce+

lemma fl_ok_sorted: "fl_ok lo hi fl \<Longrightarrow> sorted (map fst fl)"
  by (induction lo hi fl rule: fl_ok.induct) (fastforce dest: fl_ok_fst)+

text \<open>Two coalesced lists of the same positions are equal.\<close>

lemma fl_ok_unique: "fl_ok lo hi a \<Longrightarrow> fl_ok lo hi b \<Longrightarrow> fl_set a = fl_set b \<Longrightarrow> a = b"
proof (induction a arbitrary: lo b)
  case Nil
  show ?case
  proof (cases b)
    case (Cons q b')
    then have "fst q \<in> fl_set b" using Nil.prems(2) by (cases q) auto
    then show ?thesis using Nil.prems(3) by simp
  qed simp
next
  case (Cons p a)
  obtain o1 s1 where p: "p = (o1, s1)" by fastforce
  have o1: "o1 \<in> fl_set b" "o1 + s1 - 1 \<in> fl_set b" using Cons.prems p by (auto simp flip: Cons.prems(3))
  then obtain o2 s2 b' where b: "b = (o2, s2) # b'" by (cases b) auto
  have ok: "fl_ok (o1 + s1 + 1) hi a" "fl_ok (o2 + s2 + 1) hi b'" "0 < s1" "0 < s2"
    using Cons.prems p b by auto
  have a_gt: "x \<in> fl_set a \<Longrightarrow> o1 + s1 < x" and b_gt: "x \<in> fl_set b' \<Longrightarrow> o2 + s2 < x" for x
    using fl_set_bounds [OF ok(1)] fl_set_bounds [OF ok(2)] by force+
  have eq: "x \<in> span o1 s1 \<or> x \<in> fl_set a \<longleftrightarrow> x \<in> span o2 s2 \<or> x \<in> fl_set b'" for x
    using Cons.prems(3) p b by auto
  have "o1 = o2" using eq [of o1] eq [of o2] a_gt [of o2] b_gt [of o1] ok(3,4) by auto
  moreover have "s1 = s2"
    using eq [of "o1 + s1"] eq [of "o2 + s2"] a_gt [of "o1 + s1"] b_gt [of "o2 + s2"]
      a_gt [of "o2 + s2"] b_gt [of "o1 + s1"] ok(3,4) \<open>o1 = o2\<close> by auto
  moreover have "x \<in> fl_set a \<longleftrightarrow> x \<in> fl_set b'" for x
    using eq [of x] a_gt [of x] b_gt [of x] calculation by auto
  then have "fl_set a = fl_set b'" by blast
  ultimately show ?case using Cons.IH [OF ok(1), of b'] ok(2) p b by simp
qed

subsection \<open>First fit\<close>

lemma first_fit_None: "first_fit sz fl = None \<longleftrightarrow> (\<forall>p \<in> set fl. snd p < sz)"
  by (induction fl) (auto split: if_splits)

lemma first_fit_Some:
  "fl_ok lo hi fl \<Longrightarrow> 0 < sz \<Longrightarrow> first_fit sz fl = Some (off, fl') \<Longrightarrow>
   fl_ok lo hi fl' \<and> span off sz \<subseteq> fl_set fl \<and> fl_set fl' = fl_set fl - span off sz"
proof (induction fl arbitrary: lo fl')
  case (Cons p fl)
  obtain o1 s1 where p: "p = (o1, s1)" by fastforce
  have ok: "lo \<le> o1" "0 < s1" "o1 + s1 \<le> hi" "fl_ok (o1 + s1 + 1) hi fl" using Cons.prems p by auto
  have gt: "x \<in> fl_set fl \<Longrightarrow> o1 + s1 < x" for x using fl_set_bounds [OF ok(4)] by force
  show ?case
  proof (cases "s1 \<ge> sz")
    case True
    then have o: "off = o1" and fl': "fl' = (if s1 = sz then fl else (o1 + sz, s1 - sz) # fl)"
      using Cons.prems(3) p by (auto split: if_splits)
    have "fl_ok lo hi fl'" using ok Cons.prems(2) fl' True by (auto intro: fl_ok_mono)
    moreover have "span off sz \<subseteq> fl_set (p # fl)" using True o p by auto
    moreover have "x \<in> fl_set fl' \<longleftrightarrow> x \<in> fl_set (p # fl) - span off sz" for x
      using True o p fl' gt [of x] Cons.prems(2) by auto
    then have "fl_set fl' = fl_set (p # fl) - span off sz" by blast
    ultimately show ?thesis by blast
  next
    case False
    then obtain fl1 where fl1: "first_fit sz fl = Some (off, fl1)" "fl' = (o1, s1) # fl1"
      using Cons.prems(3) p by auto
    from Cons.IH [OF ok(4) Cons.prems(2) fl1(1)]
    have ih: "fl_ok (o1 + s1 + 1) hi fl1" "span off sz \<subseteq> fl_set fl" "fl_set fl1 = fl_set fl - span off sz"
      by auto
    have "span off sz \<inter> span o1 s1 = {}" using ih(2) gt by fastforce
    then show ?thesis using ih ok fl1(2) p by auto
  qed
qed simp

text \<open>First fit is complete: it fails only when no run of that many free positions exists.\<close>

lemma fl_ok_run:
  "fl_ok lo hi fl \<Longrightarrow> 0 < sz \<Longrightarrow> span off sz \<subseteq> fl_set fl \<Longrightarrow>
   \<exists>p \<in> set fl. fst p \<le> off \<and> off + sz \<le> fst p + snd p"
proof (induction fl arbitrary: lo)
  case (Cons p fl)
  obtain o1 s1 where p: "p = (o1, s1)" by fastforce
  have ok: "fl_ok (o1 + s1 + 1) hi fl" using Cons.prems p by auto
  have gt: "x \<in> fl_set fl \<Longrightarrow> o1 + s1 < x" for x using fl_set_bounds [OF ok] by force
  show ?case
  proof (cases "off \<in> span o1 s1")
    case True
    have "off + sz \<le> o1 + s1"
    proof (rule ccontr)
      assume "\<not> ?thesis"
      then have "o1 + s1 \<in> span off sz" using True by auto
      then have "o1 + s1 \<in> fl_set (p # fl)" using Cons.prems(3) by blast
      then show False using p gt [of "o1 + s1"] by auto
    qed
    then show ?thesis using True p by auto
  next
    case False
    then have "off \<in> fl_set fl" using Cons.prems(2,3) p by (auto simp: subset_iff)
    then have "o1 + s1 < off" by (rule gt)
    then have "span off sz \<subseteq> fl_set fl" using Cons.prems(3) p by auto
    then show ?thesis using Cons.IH [OF ok Cons.prems(2)] by auto
  qed
qed (auto simp: subset_iff)

lemma first_fit_complete:
  assumes "fl_ok lo hi fl" and "0 < sz"
  shows "first_fit sz fl = None \<longleftrightarrow> (\<nexists>off. span off sz \<subseteq> fl_set fl)"
proof
  assume "first_fit sz fl = None"
  then show "\<nexists>off. span off sz \<subseteq> fl_set fl"
    using fl_ok_run [OF assms] by (fastforce simp: first_fit_None)
next
  assume no: "\<nexists>off. span off sz \<subseteq> fl_set fl"
  show "first_fit sz fl = None"
  proof (cases "first_fit sz fl")
    case (Some r)
    then show ?thesis using first_fit_Some [OF assms] no by (cases r) blast
  qed
qed

subsection \<open>Release: insertion and coalescing\<close>

fun fl_ins :: "int \<times> int \<Rightarrow> (int \<times> int) list \<Rightarrow> (int \<times> int) list" where
  "fl_ins x [] = [x]"
| "fl_ins x (y # fl) = (if fst x < fst y then x # y # fl else y # fl_ins x fl)"

fun fl_merge :: "(int \<times> int) list \<Rightarrow> (int \<times> int) list" where
  "fl_merge ((o1, s1) # (o2, s2) # fl) =
     (if o1 + s1 = o2 then fl_merge ((o1, s1 + s2) # fl) else (o1, s1) # fl_merge ((o2, s2) # fl))"
| "fl_merge fl = fl"

lemma set_fl_ins [simp]: "set (fl_ins x fl) = insert x (set fl)"
  by (induction fl) auto

lemma sort_append_one:
  "sorted (map fst fl) \<Longrightarrow> sort_key fst (fl @ [x]) = fl_ins x fl"
proof (induction fl)
  case (Cons y fl)
  have y: "\<And>z. z \<in> set fl \<Longrightarrow> fst y \<le> fst z" using Cons.prems by auto
  have ih: "sort_key fst ((y # fl) @ [x]) = insort_key fst y (fl_ins x fl)" using Cons by simp
  show ?case
  proof (cases "fst x < fst y")
    case True
    then have "fl_ins x fl = x # fl" using y by (cases fl) force+
    moreover have "insort_key fst y fl = y # fl" using y by (cases fl) auto
    ultimately show ?thesis using True by (subst ih) simp
  next
    case False
    have "insort_key fst y (fl_ins x fl) = y # fl_ins x fl"
    proof (cases "fl_ins x fl")
      case (Cons z zs)
      then have "z \<in> insert x (set fl)" by (metis list.set_intros(1) set_fl_ins)
      then have "fst y \<le> fst z" using y [of z] False by (metis insertE not_less)
      then show ?thesis using Cons by simp
    qed simp
    then show ?thesis using False by (subst ih) simp
  qed
qed simp

lemma foldl_coalesce: "foldl coalesce_step (pre @ [x]) fl = pre @ fl_merge (x # fl)"
proof (induction fl arbitrary: pre x)
  case (Cons y fl)
  show ?case
    using Cons.IH [of pre "(fst x, snd x + snd y)"] Cons.IH [of "pre @ [x]" y]
    by (cases x; cases y) (simp add: coalesce_step_def)
qed (cases x, simp)

lemma coalesce_eq: "foldl coalesce_step [] fl = fl_merge fl"
  by (cases fl) (use foldl_coalesce [of "[]"] in \<open>simp_all add: coalesce_step_def\<close>)

lemma fl_ins_weak:
  "fl_ok lo hi fl \<Longrightarrow> 0 < sz \<Longrightarrow> lo \<le> off \<Longrightarrow> off + sz \<le> hi \<Longrightarrow> span off sz \<inter> fl_set fl = {} \<Longrightarrow>
   fl_weak lo hi (fl_ins (off, sz) fl)"
proof (induction fl arbitrary: lo)
  case (Cons p fl)
  obtain o1 s1 where p: "p = (o1, s1)" by fastforce
  have ok: "lo \<le> o1" "0 < s1" "o1 + s1 \<le> hi" "fl_ok (o1 + s1 + 1) hi fl" using Cons.prems p by auto
  have disj: "span off sz \<inter> span o1 s1 = {}" "span off sz \<inter> fl_set fl = {}" using Cons.prems(5) p by auto
  show ?case
  proof (cases "off < o1")
    case True
    have "off + sz \<le> o1"
    proof (rule ccontr)
      assume "\<not> ?thesis"
      then have "o1 \<in> span off sz \<inter> span o1 s1" using True ok(2) by auto
      then show False using disj(1) by blast
    qed
    then show ?thesis using True Cons.prems ok p by (auto intro: fl_weak_mono [OF fl_ok_weak])
  next
    case False
    have "o1 + s1 \<le> off"
    proof (rule ccontr)
      assume "\<not> ?thesis"
      then have "off \<in> span off sz \<inter> span o1 s1" using False Cons.prems(2) by auto
      then show False using disj(1) by blast
    qed
    moreover have "fl_weak (o1 + s1) hi (fl_ins (off, sz) fl)"
    proof (cases "o1 + s1 = off")
      case True
      have "fl_weak off hi (fl_ins (off, sz) fl)"
      proof (cases fl)
        case (Cons q r)
        obtain o2 s2 where q: "q = (o2, s2)" by fastforce
        have "off < o2" using ok(4) Cons q True by auto
        moreover have "off + sz \<le> o2"
        proof (rule ccontr)
          assume "\<not> ?thesis"
          then have "o2 \<in> span off sz \<inter> fl_set fl" using \<open>off < o2\<close> ok(4) Cons q by auto
          then show False using disj(2) by blast
        qed
        ultimately show ?thesis using Cons q ok(4) Cons.prems(2,4)
          by (auto intro: fl_weak_mono [OF fl_ok_weak])
      qed (use Cons.prems in auto)
      then show ?thesis using True by simp
    next
      case False
      then have "fl_weak (o1 + s1 + 1) hi (fl_ins (off, sz) fl)"
        using Cons.IH [OF ok(4) Cons.prems(2) _ Cons.prems(4) disj(2)] \<open>o1 + s1 \<le> off\<close> by simp
      then show ?thesis by (rule fl_weak_mono) simp
    qed
    ultimately show ?thesis using False ok p by simp
  qed
qed simp

lemma fl_merge_ok:
  "fl_weak lo hi fl \<Longrightarrow> fl_ok lo hi (fl_merge fl) \<and> fl_set (fl_merge fl) = fl_set fl"
proof (induction fl arbitrary: lo rule: fl_merge.induct)
  case (1 o1 s1 o2 s2 fl)
  show ?case
  proof (cases "o1 + s1 = o2")
    case True
    have "fl_weak lo hi ((o1, s1 + s2) # fl)" using 1(3) True by (auto simp: add.assoc)
    moreover have "span o1 (s1 + s2) = span o1 s1 \<union> span o2 s2" using 1(3) True by auto
    ultimately show ?thesis using 1(1) [OF True, of lo] True by auto
  next
    case False
    then have "fl_weak (o1 + s1 + 1) hi ((o2, s2) # fl)" using 1(3) by auto
    then show ?thesis using 1(2) [OF False, of "o1 + s1 + 1"] 1(3) False by auto
  qed
qed auto

lemma fl_set_ins: "fl_set (fl_ins (off, sz) fl) = span off sz \<union> fl_set fl"
  by (auto simp: fl_set_def)

lemma coalesced_free:
  assumes "fl_ok lo hi fl" and "0 < sz" and "lo \<le> off" and "off + sz \<le> hi"
    and "span off sz \<inter> fl_set fl = {}"
  defines "fl' \<equiv> foldl coalesce_step [] (sort_key fst (fl @ [(off, sz)]))"
  shows "fl_ok lo hi fl' \<and> fl_set fl' = fl_set fl \<union> span off sz"
proof -
  have "fl' = fl_merge (fl_ins (off, sz) fl)"
    by (simp add: fl'_def coalesce_eq sort_append_one [OF fl_ok_sorted [OF assms(1)]])
  then show ?thesis using fl_merge_ok [OF fl_ins_weak [OF assms(1-5)]] by (auto simp: fl_set_ins)
qed

subsection \<open>The contract of a chunk buffer\<close>

definition cb_ok :: "chunk_buffer \<Rightarrow> bool" where
  "cb_ok cb \<longleftrightarrow> 0 < cb_total_size cb \<and> fl_ok 0 (cb_total_size cb) (cb_free_list cb)"

definition cb_free_set :: "chunk_buffer \<Rightarrow> int set" where
  "cb_free_set cb = fl_set (cb_free_list cb)"

text \<open>
  A region hands out and takes back intervals of the positions below \<open>tsz\<close>: an allocation
  returns a free interval and removes exactly it, fails only if there is none, a release of an
  occupied interval adds exactly it.
\<close>

locale region =
  fixes tsz :: "'r \<Rightarrow> int"
    and free_set :: "'r \<Rightarrow> int set"
    and ok :: "'r \<Rightarrow> bool"
    and alloc :: "int \<Rightarrow> 'r \<Rightarrow> int option \<times> 'r"
    and release :: "int \<Rightarrow> int \<Rightarrow> 'r \<Rightarrow> 'r"
  assumes free_bounds: "ok r \<Longrightarrow> free_set r \<subseteq> span 0 (tsz r)"
  and alloc_some: "\<lbrakk>ok r; 0 < sz; alloc sz r = (Some off, r')\<rbrakk> \<Longrightarrow>
     ok r' \<and> tsz r' = tsz r \<and> span off sz \<subseteq> free_set r \<and> free_set r' = free_set r - span off sz"
  and alloc_none: "\<lbrakk>ok r; 0 < sz; alloc sz r = (None, r')\<rbrakk> \<Longrightarrow>
     r' = r \<and> (\<nexists>off. span off sz \<subseteq> free_set r)"
  and release_ok: "\<lbrakk>ok r; 0 < sz; span off sz \<subseteq> span 0 (tsz r); span off sz \<inter> free_set r = {}\<rbrakk> \<Longrightarrow>
     ok (release off sz r) \<and> tsz (release off sz r) = tsz r \<and>
     free_set (release off sz r) = free_set r \<union> span off sz"
  and canonical: "\<lbrakk>ok r; ok r'; tsz r = tsz r'; free_set r = free_set r';
     r = release off sz (snd (alloc sz r')) \<or> r' = release off sz (snd (alloc sz r))\<rbrakk> \<Longrightarrow> r = r'"
begin

text \<open>Releasing what was just allocated restores the region exactly.\<close>

lemma alloc_release:
  assumes "ok r" and "0 < sz" and "alloc sz r = (Some off, r')"
  shows "release off sz r' = r"
proof -
  from alloc_some [OF assms] have r': "ok r'" "tsz r' = tsz r" "span off sz \<subseteq> free_set r"
    "free_set r' = free_set r - span off sz" by auto
  have "ok (release off sz r') \<and> tsz (release off sz r') = tsz r' \<and>
      free_set (release off sz r') = free_set r' \<union> span off sz"
    using release_ok [OF r'(1) assms(2)] r' free_bounds [OF assms(1)] by auto
  then show ?thesis using canonical [of "release off sz r'" r off sz] r' assms by auto
qed

text \<open>
  The occupied positions are what a set of disjoint intervals covers: the bookkeeping invariant a
  client keeps for the blocks it handed out.
\<close>

definition occupied_by :: "'r \<Rightarrow> (int \<times> int) set \<Rightarrow> bool" where
  "occupied_by r bs \<longleftrightarrow> ok r \<and> finite bs \<and> (\<forall>(off, sz) \<in> bs. 0 < sz) \<and>
     (\<Union>(off, sz) \<in> bs. span off sz) = span 0 (tsz r) - free_set r \<and>
     (\<forall>p \<in> bs. \<forall>q \<in> bs. p \<noteq> q \<longrightarrow> span (fst p) (snd p) \<inter> span (fst q) (snd q) = {})"

lemma occupied_alloc:
  assumes "occupied_by r bs" and "0 < sz" and "alloc sz r = (Some off, r')"
  shows "(off, sz) \<notin> bs \<and> occupied_by r' (insert (off, sz) bs) \<and>
         (\<forall>p \<in> bs. span (fst p) (snd p) \<inter> span off sz = {})"
proof -
  have okr: "ok r" using assms(1) by (simp add: occupied_by_def)
  from alloc_some [OF okr assms(2,3)] have r': "ok r'" "tsz r' = tsz r" "span off sz \<subseteq> free_set r"
    "free_set r' = free_set r - span off sz" by auto
  have cov: "(\<Union>(off, sz) \<in> bs. span off sz) = span 0 (tsz r) - free_set r"
    using assms(1) by (simp add: occupied_by_def)
  have disj: "span (fst p) (snd p) \<inter> span off sz = {}" if "p \<in> bs" for p
  proof -
    have "span (fst p) (snd p) \<subseteq> (\<Union>(off, sz) \<in> bs. span off sz)" using that by force
    then show ?thesis using cov r'(3) by blast
  qed
  then have "(off, sz) \<notin> bs" using assms(2) by fastforce
  moreover have "occupied_by r' (insert (off, sz) bs)"
    unfolding occupied_by_def
  proof (intro conjI ballI impI)
    show "(\<Union>(off, sz) \<in> insert (off, sz) bs. span off sz) = span 0 (tsz r') - free_set r'"
      using cov r' free_bounds [OF okr] by auto
  next
    fix p q assume "p \<in> insert (off, sz) bs" "q \<in> insert (off, sz) bs" "p \<noteq> q"
    then show "span (fst p) (snd p) \<inter> span (fst q) (snd q) = {}"
      using disj [of p] disj [of q] assms(1)
      by (cases "p = (off, sz)"; cases "q = (off, sz)") (auto simp: occupied_by_def)
  qed (use assms r' in \<open>auto simp: occupied_by_def\<close>)
  ultimately show ?thesis using disj by blast
qed

lemma occupied_release:
  assumes "occupied_by r bs" and "(off, sz) \<in> bs"
  shows "occupied_by (release off sz r) (bs - {(off, sz)})"
    and "tsz (release off sz r) = tsz r"
proof -
  have okr: "ok r" and sz: "0 < sz" using assms by (auto simp: occupied_by_def)
  have cov: "(\<Union>(off, sz) \<in> bs. span off sz) = span 0 (tsz r) - free_set r"
    and pd: "\<And>p q. p \<in> bs \<Longrightarrow> q \<in> bs \<Longrightarrow> p \<noteq> q \<Longrightarrow> span (fst p) (snd p) \<inter> span (fst q) (snd q) = {}"
    using assms(1) by (auto simp: occupied_by_def)
  have occ: "span off sz \<subseteq> span 0 (tsz r) - free_set r" using assms(2) cov by blast
  from release_ok [OF okr sz, of off] occ
  have r': "ok (release off sz r)" "tsz (release off sz r) = tsz r"
    "free_set (release off sz r) = free_set r \<union> span off sz" by auto
  show "tsz (release off sz r) = tsz r" by (rule r')
  have "(\<Union>(o', s') \<in> bs - {(off, sz)}. span o' s') = span 0 (tsz r) - (free_set r \<union> span off sz)"
  proof -
    have "span (fst p) (snd p) \<inter> span off sz = {}" if "p \<in> bs - {(off, sz)}" for p
      using pd [of p "(off, sz)"] that assms(2) by simp
    then have "(\<Union>p \<in> bs - {(off, sz)}. span (fst p) (snd p)) \<inter> span off sz = {}" by blast
    then have "(\<Union>(o', s') \<in> bs - {(off, sz)}. span o' s') \<inter> span off sz = {}"
      by (simp add: case_prod_unfold)
    moreover have "(\<Union>(o', s') \<in> bs. span o' s') = span off sz \<union> (\<Union>(o', s') \<in> bs - {(off, sz)}. span o' s')"
      using assms(2) by blast
    ultimately have "(\<Union>(o', s') \<in> bs - {(off, sz)}. span o' s') = (\<Union>(o', s') \<in> bs. span o' s') - span off sz"
      by (metis Diff_cancel Diff_triv Un_Diff Un_empty_left)
    then show ?thesis by (simp only: cov Diff_eq Compl_Un Int_assoc)
  qed
  then show "occupied_by (release off sz r) (bs - {(off, sz)})"
    using assms(1) r' pd unfolding occupied_by_def by auto
qed

lemma occupied_none_iff: "occupied_by r bs \<Longrightarrow> bs = {} \<longleftrightarrow> free_set r = span 0 (tsz r)"
  using free_bounds [of r] by (fastforce simp: occupied_by_def)

end

lemma cb_alloc_Some_iff:
  "cb_alloc sz cb = (Some off, cb') \<longleftrightarrow>
   (\<exists>fl. first_fit sz (cb_free_list cb) = Some (off, fl) \<and> cb' = cb\<lparr>cb_free_list := fl\<rparr>)"
  by (auto simp: cb_alloc_def split: option.splits)

lemma cb_alloc_None_iff:
  "cb_alloc sz cb = (None, cb') \<longleftrightarrow> first_fit sz (cb_free_list cb) = None \<and> cb' = cb"
  by (auto simp: cb_alloc_def split: option.splits)

lemma cb_eq_by_free_list:
  "r = r'\<lparr>cb_free_list := fl\<rparr> \<Longrightarrow> cb_free_list r = cb_free_list r' \<Longrightarrow> r = r'"
  by (cases r'; cases r) simp

lemma cb_round_trip_fields:
  "\<exists>fl. cb_free off sz (snd (cb_alloc sz' cb)) = cb\<lparr>cb_free_list := fl\<rparr>"
  by (auto simp: cb_free_def cb_alloc_def Let_def split: option.splits)

lemma cb_canonical:
  assumes "cb_ok r" and "cb_ok r'" and "cb_total_size r = cb_total_size r'" and "cb_free_set r = cb_free_set r'"
    and "r = cb_free off sz (snd (cb_alloc sz r'))"
  shows "r = r'"
proof -
  have "cb_free_list r = cb_free_list r'"
    using assms(1-4) fl_ok_unique [of 0 "cb_total_size r" "cb_free_list r" "cb_free_list r'"]
    by (simp add: cb_ok_def cb_free_set_def)
  then show ?thesis using cb_round_trip_fields [of off sz sz r'] assms(5) cb_eq_by_free_list by blast
qed

interpretation cb: region cb_total_size cb_free_set cb_ok cb_alloc cb_free
proof (unfold_locales, goal_cases)
  case (1 r)
  then show ?case using fl_set_bounds by (fastforce simp: cb_ok_def cb_free_set_def)
next
  case (2 r sz off r')
  then show ?case using first_fit_Some [of 0 "cb_total_size r" "cb_free_list r" sz off]
    by (auto simp: cb_alloc_Some_iff cb_ok_def cb_free_set_def)
next
  case (3 r sz r')
  then show ?case using first_fit_complete [of 0 "cb_total_size r" "cb_free_list r" sz]
    by (auto simp: cb_alloc_None_iff cb_ok_def cb_free_set_def)
next
  case (4 r sz off)
  then have "0 \<le> off" "off + sz \<le> cb_total_size r"
    by (auto simp: subset_iff span_def dest: spec [of _ off] spec [of _ "off + sz - 1"])
  then show ?case using 4 coalesced_free [of 0 "cb_total_size r" "cb_free_list r" sz off]
    by (simp add: cb_free_def cb_ok_def cb_free_set_def Let_def)
next
  case (5 r r' off sz)
  then show ?case using cb_canonical by metis
qed

text \<open>A buffer is reported fully free exactly when every position is free.\<close>

lemma is_fully_free_iff:
  assumes "cb_ok cb"
  shows "is_fully_free cb \<longleftrightarrow> cb_free_set cb = span 0 (cb_total_size cb)"
proof -
  have "is_fully_free cb \<longleftrightarrow> cb_free_list cb = [(0, cb_total_size cb)]"
    by (auto simp: is_fully_free_def length_Suc_conv)
  also have "\<dots> \<longleftrightarrow> fl_set (cb_free_list cb) = fl_set [(0, cb_total_size cb)]"
    using assms fl_ok_unique [of 0 "cb_total_size cb" "cb_free_list cb" "[(0, cb_total_size cb)]"]
    by (auto simp: cb_ok_def)
  finally show ?thesis by (simp add: cb_free_set_def)
qed

lemma ChunkBuffer_ok:
  "0 < tsz \<Longrightarrow> cb_ok (ChunkBuffer cid gpa tsz mt dev []) \<and>
   cb.occupied_by (ChunkBuffer cid gpa tsz mt dev []) {}"
  by (auto simp: cb_ok_def ChunkBuffer_def cb.occupied_by_def cb_free_set_def)

end
