(* ===== verification/Allocator.thy ===== *)
theory Allocator
  imports Client ChunkBuffer
begin

section \<open>FineGrainedAllocator (allocator.py)\<close>

text \<open>
  The allocator cuts chunks obtained from the client into blocks. Its state is one ordered
  dictionary of chunk buffers per medium; an operation runs under the allocator's lock, so it is
  one step on the pair of that state and the library's state. The invariant \<open>al_inv\<close> relates the
  dictionaries to the library's chunks and to a ghost set of the blocks handed out and not yet
  freed. The lemmas are proved from the laws of \<open>chunk_service\<close> and \<open>region\<close>.
\<close>

subsection \<open>State\<close>

record block =
  b_chunk_id :: int
  b_offset :: int
  b_size :: int
  b_gpa :: int
  b_chunk_size :: int

definition Block :: "int \<Rightarrow> int \<Rightarrow> int \<Rightarrow> int \<Rightarrow> int \<Rightarrow> block" where
  "Block cid off sz gpa csz =
     \<lparr>b_chunk_id = cid, b_offset = off, b_size = sz, b_gpa = gpa, b_chunk_size = csz\<rparr>"

type_synonym chunk_dict = "(int \<times> chunk_buffer) list"

record allocator =
  al_default_chunk_size :: int
  al_chunks_by_type :: "string \<Rightarrow> chunk_dict"

definition set_chunks :: "string \<Rightarrow> chunk_dict \<Rightarrow> allocator \<Rightarrow> allocator" where
  "set_chunks mt ch a = a\<lparr>al_chunks_by_type := (al_chunks_by_type a)(mt := ch)\<rparr>"

abbreviation chunks_of :: "allocator \<Rightarrow> string \<Rightarrow> chunk_dict" where
  "chunks_of a mt \<equiv> al_chunks_by_type a mt"

definition media_types :: "string list" where
  "media_types = [''dram'', ''ssd'']"

definition FineGrainedAllocator_init ::
  "'s clib \<Rightarrow> client_args \<Rightarrow> int \<Rightarrow> 's \<Rightarrow> (allocator, 's) outcome" where
  "FineGrainedAllocator_init c args default_chunk_size s =
     rbind (UMMServiceClient_init c args s) (\<lambda>cfg s.
       (Inr \<lparr>al_default_chunk_size = default_chunk_size, al_chunks_by_type = (\<lambda>_. [])\<rparr>, s))"

subsection \<open>Operations\<close>

definition get_chunk_buffer :: "allocator \<Rightarrow> int \<Rightarrow> chunk_buffer option" where
  "get_chunk_buffer a cid =
     (case map_of (chunks_of a ''dram'') cid of
        Some cb \<Rightarrow> Some cb | None \<Rightarrow> map_of (chunks_of a ''ssd'') cid)"

text \<open>The loop over the existing chunks of a medium: the first buffer of the device that fits.\<close>

fun alloc_in_chunks :: "int \<Rightarrow> int option \<Rightarrow> chunk_dict \<Rightarrow> (block \<times> chunk_dict) option" where
  "alloc_in_chunks sz dev [] = None"
| "alloc_in_chunks sz dev ((cid, cb) # ch) =
     (if cb_device_idx cb \<noteq> dev
      then map_option (\<lambda>(b, ch'). (b, (cid, cb) # ch')) (alloc_in_chunks sz dev ch)
      else case cb_alloc sz cb of
        (Some off, cb') \<Rightarrow>
          Some (Block cid off sz (cb_base_gpa cb') (cb_total_size cb'), (cid, cb') # ch)
      | (None, cb') \<Rightarrow> map_option (\<lambda>(b, ch'). (b, (cid, cb) # ch')) (alloc_in_chunks sz dev ch))"

definition check_media :: "string \<Rightarrow> int option \<Rightarrow> bool" where
  "check_media mt dev \<longleftrightarrow> mt \<in> set media_types \<and> (dev = None \<or> mt = ''ssd'')"

text \<open>\<open>except RuntimeError\<close> around \<open>create_chunk\<close>: other exceptions pass through.\<close>

definition exhausted :: "py_error \<Rightarrow> py_error" where
  "exhausted e = (if is_RuntimeError e then MemoryExhaustedError else e)"

definition new_buffer :: "chunk_desc \<Rightarrow> string \<Rightarrow> int option \<Rightarrow> chunk_buffer" where
  "new_buffer d mt dev = ChunkBuffer (d_chunk_id d) (d_base_gpa d) (d_user_size d) mt dev []"

definition FGA_alloc ::
  "'s clib \<Rightarrow> int \<Rightarrow> string \<Rightarrow> int option \<Rightarrow> allocator \<times> 's \<Rightarrow> (block, allocator \<times> 's) outcome" where
  "FGA_alloc c sz mt dev as =
     (let (a, s) = as in
      if \<not> check_media mt dev then (Inl ValueError, (a, s))
      else case alloc_in_chunks sz dev (chunks_of a mt) of
        Some (b, ch) \<Rightarrow> (Inr b, (set_chunks mt ch a, s))
      | None \<Rightarrow>
          (case create_chunk c (max sz (al_default_chunk_size a)) mt dev s of
             (Inl e, s1) \<Rightarrow> (Inl (exhausted e), (a, s1))
           | (Inr d, s1) \<Rightarrow>
               (case cb_alloc sz (new_buffer d mt dev) of
                  (None, _) \<Rightarrow>
                    (case delete_chunk c d s1 of
                       (Inl e, s2) \<Rightarrow> (Inl e, (a, s2))
                     | (Inr _, s2) \<Rightarrow> (Inl MemoryExhaustedError, (a, s2)))
                | (Some off, cb) \<Rightarrow>
                    (Inr (Block (d_chunk_id d) off sz (d_base_gpa d) (d_user_size d)),
                     (set_chunks mt (dict_set (d_chunk_id d) cb (chunks_of a mt)) a, s1)))))"

text \<open>
  \<open>free\<close> on the buffer found in one medium. The buffer is updated in place before
  \<open>delete_chunk\<close>, whose exception leaves the entry in the dictionary.
\<close>

definition desc_of :: "chunk_buffer \<Rightarrow> chunk_desc" where
  "desc_of cb = ChunkDescriptor (cb_chunk_id cb) (cb_base_gpa cb) (cb_total_size cb)"

definition free_in ::
  "'s clib \<Rightarrow> block \<Rightarrow> string \<Rightarrow> chunk_buffer \<Rightarrow> allocator \<times> 's \<Rightarrow> (unit, allocator \<times> 's) outcome" where
  "free_in c b mt cb as =
     (let (a, s) = as;
          cb' = cb_free (b_offset b) (b_size b) cb;
          a' = set_chunks mt (dict_set (b_chunk_id b) cb' (chunks_of a mt)) a
      in if is_fully_free cb' then
           (case delete_chunk c (desc_of cb') s of
              (Inl e, s') \<Rightarrow> (Inl e, (a', s'))
            | (Inr _, s') \<Rightarrow>
                (Inr (), (set_chunks mt (dict_del (b_chunk_id b) (chunks_of a' mt)) a', s')))
         else (Inr (), (a', s)))"

definition FGA_free :: "'s clib \<Rightarrow> block \<Rightarrow> allocator \<times> 's \<Rightarrow> (unit, allocator \<times> 's) outcome" where
  "FGA_free c b as =
     (case map_of (chunks_of (fst as) ''dram'') (b_chunk_id b) of
        Some cb \<Rightarrow> free_in c b ''dram'' cb as
      | None \<Rightarrow>
          (case map_of (chunks_of (fst as) ''ssd'') (b_chunk_id b) of
             Some cb \<Rightarrow> free_in c b ''ssd'' cb as
           | None \<Rightarrow> (Inr (), as)))"

definition prealloc_one ::
  "'s clib \<Rightarrow> int \<Rightarrow> string \<Rightarrow> int option \<Rightarrow> allocator \<times> 's \<Rightarrow> (unit, allocator \<times> 's) outcome" where
  "prealloc_one c csz mt dev as =
     (let (a, s) = as in
      case create_chunk c csz mt dev s of
        (Inl e, s') \<Rightarrow> (Inl (exhausted e), (a, s'))
      | (Inr d, s') \<Rightarrow>
          (Inr (), (set_chunks mt (dict_set (d_chunk_id d) (new_buffer d mt dev) (chunks_of a mt)) a, s')))"

definition preallocate_chunks ::
  "'s clib \<Rightarrow> int \<Rightarrow> int \<Rightarrow> string \<Rightarrow> int option \<Rightarrow> allocator \<times> 's \<Rightarrow> (unit, allocator \<times> 's) outcome" where
  "preallocate_chunks c cnt csz mt dev as =
     (if \<not> check_media mt dev then (Inl ValueError, as)
      else for_each (\<lambda>_. prealloc_one c csz mt dev) [0..<nat cnt] as)"

definition FGA_read ::
  "'s clib \<Rightarrow> block \<Rightarrow> int \<Rightarrow> int option \<Rightarrow> 's \<Rightarrow> (bytes, 's) outcome" where
  "FGA_read c b off sz s =
     (let n = (case sz of None \<Rightarrow> b_size b - off | Some k \<Rightarrow> k) in
      if off < 0 \<or> n < 0 \<or> off + n > b_size b then (Inl ValueError, s)
      else read_chunk c (ChunkDescriptor (b_chunk_id b) (b_gpa b) (b_chunk_size b)) (b_offset b + off) n s)"

definition FGA_write :: "'s clib \<Rightarrow> block \<Rightarrow> int \<Rightarrow> bytes \<Rightarrow> 's \<Rightarrow> (unit, 's) outcome" where
  "FGA_write c b off data s =
     (if off < 0 then (Inl ValueError, s)
      else if data = [] then (Inr (), s)
      else if off + int (length data) > b_size b then (Inl ValueError, s)
      else write_chunk c (ChunkDescriptor (b_chunk_id b) (b_gpa b) (b_chunk_size b)) (b_offset b + off) data s)"

definition FGA_get_device_list :: "'s clib \<Rightarrow> 's \<Rightarrow> (device_info list, 's) outcome" where
  "FGA_get_device_list c s = get_device_list c s"

definition close_medium :: "'s clib \<Rightarrow> string \<Rightarrow> allocator \<times> 's \<Rightarrow> (unit, allocator \<times> 's) outcome" where
  "close_medium c mt as =
     (case for_each (\<lambda>(cid, cb). delete_chunk c (desc_of cb)) (chunks_of (fst as) mt) (snd as) of
        (Inl e, s) \<Rightarrow> (Inl e, (fst as, s))
      | (Inr _, s) \<Rightarrow> (Inr (), (set_chunks mt [] (fst as), s)))"

definition FGA_close :: "'s clib \<Rightarrow> allocator \<times> 's \<Rightarrow> (unit, allocator \<times> 's) outcome" where
  "FGA_close c as =
     rbind (for_each (close_medium c) media_types as)
       (\<lambda>_ (a, s). case client_close c s of (r, s') \<Rightarrow> (r, (a, s')))"

subsection \<open>The dictionaries of both media\<close>

definition keys_ok :: "allocator \<Rightarrow> bool" where
  "keys_ok a \<longleftrightarrow> distinct (map fst (chunks_of a ''dram'')) \<and> distinct (map fst (chunks_of a ''ssd'')) \<and>
     (\<forall>k. map_of (chunks_of a ''dram'') k = None \<or> map_of (chunks_of a ''ssd'') k = None)"

lemma set_chunks_other [simp]:
  "chunks_of (set_chunks mt ch a) mt' = (if mt' = mt then ch else chunks_of a mt')"
  "al_default_chunk_size (set_chunks mt ch a) = al_default_chunk_size a"
  by (simp_all add: set_chunks_def)

lemma buffers_chunk:
  "keys_ok a \<Longrightarrow> mt \<in> set media_types \<Longrightarrow> map_of (chunks_of a mt) k = Some cb \<Longrightarrow> get_chunk_buffer a k = Some cb"
  by (auto simp: keys_ok_def media_types_def get_chunk_buffer_def split: option.splits dest: spec [of _ k])

lemma dom_get_chunk_buffer:
  "dom (get_chunk_buffer a) = fst ` set (chunks_of a ''dram'') \<union> fst ` set (chunks_of a ''ssd'')"
proof -
  have "get_chunk_buffer a = map_of (chunks_of a ''ssd'') ++ map_of (chunks_of a ''dram'')"
    by (auto simp: get_chunk_buffer_def map_add_def fun_eq_iff)
  then show ?thesis by (simp add: dom_map_of_conv_image_fst)
qed

text \<open>Writing or deleting one key of one medium that the other medium does not have.\<close>

lemma buffers_upd:
  assumes "keys_ok a" and "mt \<in> set media_types" and "distinct (map fst ch)"
    and "map_of ch = (map_of (chunks_of a mt))(k := v)"
    and "get_chunk_buffer a k = None \<or> map_of (chunks_of a mt) k \<noteq> None"
  shows "keys_ok (set_chunks mt ch a) \<and> get_chunk_buffer (set_chunks mt ch a) = (get_chunk_buffer a)(k := v)"
proof -
  define D S where "D = map_of (chunks_of a ''dram'')" and "S = map_of (chunks_of a ''ssd'')"
  have disj: "D j = None \<or> S j = None" for j using assms(1) by (simp add: keys_ok_def D_def S_def)
  have eq: "get_chunk_buffer a j = (case D j of None \<Rightarrow> S j | Some cb \<Rightarrow> Some cb)" for j
    by (auto simp: get_chunk_buffer_def D_def S_def split: option.splits)
  have "mt = ''dram'' \<or> mt = ''ssd''" using assms(2) by (auto simp: media_types_def)
  then show ?thesis
  proof
    assume mt: "mt = ''dram''"
    have "S k = None" using assms(5) mt disj [of k] eq [of k] by (auto simp: D_def)
    then have "keys_ok (set_chunks mt ch a)"
      using assms(1,3,4) disj mt by (simp add: keys_ok_def D_def S_def)
    moreover have "get_chunk_buffer (set_chunks mt ch a) j = ((get_chunk_buffer a)(k := v)) j" for j
      using \<open>S k = None\<close> assms(4) mt by (simp add: get_chunk_buffer_def D_def S_def split: option.splits)
    ultimately show ?thesis by blast
  next
    assume mt: "mt = ''ssd''"
    have "D k = None" using assms(5) mt disj [of k] eq [of k] by (auto simp: S_def split: option.splits)
    then have "keys_ok (set_chunks mt ch a)"
      using assms(1,3,4) disj mt by (simp add: keys_ok_def D_def S_def)
    moreover have "get_chunk_buffer (set_chunks mt ch a) j = ((get_chunk_buffer a)(k := v)) j" for j
      using \<open>D k = None\<close> assms(4) mt by (simp add: get_chunk_buffer_def D_def S_def split: option.splits)
    ultimately show ?thesis by blast
  qed
qed

lemma keys_ok_distinct: "keys_ok a \<Longrightarrow> mt \<in> set media_types \<Longrightarrow> distinct (map fst (chunks_of a mt))"
  by (auto simp: keys_ok_def media_types_def)

lemma buffers_set:
  assumes "keys_ok a" and "mt \<in> set media_types"
    and "get_chunk_buffer a k = None \<or> map_of (chunks_of a mt) k \<noteq> None"
  shows "keys_ok (set_chunks mt (dict_set k cb (chunks_of a mt)) a)"
    and "get_chunk_buffer (set_chunks mt (dict_set k cb (chunks_of a mt)) a) = (get_chunk_buffer a)(k \<mapsto> cb)"
  using buffers_upd [OF assms(1,2) _ _ assms(3), of "dict_set k cb (chunks_of a mt)" "Some cb"]
    keys_ok_distinct [OF assms(1,2)] by simp_all

lemma buffers_del:
  assumes "keys_ok a" and "mt \<in> set media_types" and "map_of (chunks_of a mt) k \<noteq> None"
  shows "keys_ok (set_chunks mt (dict_del k (chunks_of a mt)) a)"
    and "get_chunk_buffer (set_chunks mt (dict_del k (chunks_of a mt)) a) = (get_chunk_buffer a)(k := None)"
  using buffers_upd [OF assms(1,2), of "dict_del k (chunks_of a mt)" k None] assms(3)
    keys_ok_distinct [OF assms(1,2)] by simp_all

lemma alloc_in_chunks_Some:
  assumes "alloc_in_chunks sz dev ch = Some (b, ch')"
  shows "\<exists>cid cb cb' off. map_of ch cid \<noteq> None \<and> (distinct (map fst ch) \<longrightarrow> map_of ch cid = Some cb) \<and>
           cb_device_idx cb = dev \<and> cb_alloc sz cb = (Some off, cb') \<and> 
           (distinct (map fst ch) \<longrightarrow> ch' = dict_set cid cb' ch) \<and>
           b = Block cid off sz (cb_base_gpa cb') (cb_total_size cb')"
  using assms
proof (induction ch arbitrary: ch')
  case (Cons p ch)
  obtain cid cb where p: "p = (cid, cb)" by fastforce
  show ?case
  proof (cases "\<exists>off cb'. cb_device_idx cb = dev \<and> cb_alloc sz cb = (Some off, cb')")
    case True
    then show ?thesis using Cons.prems p by (auto 0 3 split: if_splits)
  next
    case False
    then obtain ch1 where ch1: "alloc_in_chunks sz dev ch = Some (b, ch1)" "ch' = (cid, cb) # ch1"
      using Cons.prems p by (auto split: if_splits option.splits prod.splits)
    from Cons.IH [OF ch1(1)] obtain k cb0 cb' off where
      *: "map_of ch k \<noteq> None" "distinct (map fst ch) \<longrightarrow> map_of ch k = Some cb0"
        "cb_device_idx cb0 = dev" "cb_alloc sz cb0 = (Some off, cb')"
        "distinct (map fst ch) \<longrightarrow> ch1 = dict_set k cb' ch"
        "b = Block k off sz (cb_base_gpa cb') (cb_total_size cb')" by blast
    have "cid \<noteq> k" if "distinct (map fst (p # ch))"
      using that *(1) p by (auto simp: domIff dest: map_of_SomeD intro: rev_image_eqI)
    then show ?thesis using * ch1(2) p
      by (intro exI [of _ k] exI [of _ cb0] exI [of _ cb'] exI [of _ off]) auto
  qed
qed simp

lemma alloc_in_chunks_None:
  "alloc_in_chunks sz dev ch = None \<Longrightarrow> (cid, cb) \<in> set ch \<Longrightarrow> cb_device_idx cb = dev \<Longrightarrow>
   fst (cb_alloc sz cb) = None"
  by (induction ch) (auto split: if_splits prod.splits option.splits)

subsection \<open>Invariant\<close>

definition blocks_in :: "block set \<Rightarrow> int \<Rightarrow> (int \<times> int) set" where
  "blocks_in B cid = (\<lambda>b. (b_offset b, b_size b)) ` {b \<in> B. b_chunk_id b = cid}"

definition chunk_ok :: "bytes option \<Rightarrow> block set \<Rightarrow> int \<Rightarrow> chunk_buffer \<Rightarrow> bool" where
  "chunk_ok v B cid cb \<longleftrightarrow> cb_chunk_id cb = cid \<and> u64 cid = cid \<and>
     (\<exists>xs. v = Some xs \<and> int (length xs) = cb_total_size cb) \<and>
     cb.occupied_by cb (blocks_in B cid) \<and>
     (\<forall>b \<in> B. b_chunk_id b = cid \<longrightarrow> b_gpa b = cb_base_gpa cb \<and> b_chunk_size b = cb_total_size cb)"

text \<open>
  \<open>F\<close> are the chunks the library holds for other users, \<open>B\<close> the live blocks. The library's
  chunks are those of \<open>F\<close> and, apart from them, exactly the allocator's.
\<close>

definition al_inv ::
  "('s \<Rightarrow> int \<Rightarrow> bytes option) \<Rightarrow> int set \<Rightarrow> block set \<Rightarrow> allocator \<times> 's \<Rightarrow> bool" where
  "al_inv view F B as \<longleftrightarrow>
     keys_ok (fst as) \<and> dom (view (snd as)) = F \<union> dom (get_chunk_buffer (fst as)) \<and>
     F \<inter> dom (get_chunk_buffer (fst as)) = {} \<and> b_chunk_id ` B \<subseteq> dom (get_chunk_buffer (fst as)) \<and>
     (\<forall>cid cb. get_chunk_buffer (fst as) cid = Some cb \<longrightarrow> chunk_ok (view (snd as) cid) B cid cb)"

lemma al_inv_step:
  assumes "al_inv view F B (a, s)" and "keys_ok a'" and "get_chunk_buffer a' = (get_chunk_buffer a)(k := v)"
    and "\<And>j. j \<noteq> k \<Longrightarrow> view s' j = view s j" and "k \<notin> F"
    and "{b \<in> B'. b_chunk_id b \<noteq> k} = {b \<in> B. b_chunk_id b \<noteq> k}"
    and "case v of Some cb \<Rightarrow> chunk_ok (view s' k) B' k cb
         | None \<Rightarrow> view s' k = None \<and> (\<forall>b \<in> B'. b_chunk_id b \<noteq> k)"
  shows "al_inv view F B' (a', s')"
proof -
  have eqB: "{b \<in> B'. b_chunk_id b = cid} = {b \<in> B. b_chunk_id b = cid}" if "cid \<noteq> k" for cid
    using assms(6) that by blast
  have ck: "chunk_ok v B' cid cb = chunk_ok v B cid cb" if "cid \<noteq> k" for cid v cb
    using eqB [OF that] by (auto simp: chunk_ok_def blocks_in_def)
  have domk: "dom (view s') = F \<union> dom (get_chunk_buffer a')"
  proof (intro set_eqI)
    fix j
    have "j \<in> dom (view s) \<longleftrightarrow> j \<in> F \<or> j \<in> dom (get_chunk_buffer a)" using assms(1) by (simp add: al_inv_def)
    then show "j \<in> dom (view s') \<longleftrightarrow> j \<in> F \<union> dom (get_chunk_buffer a')"
      using assms(3-5,7) by (cases "j = k") (auto simp: domIff chunk_ok_def split: option.splits)
  qed
  have ids: "b_chunk_id ` B' \<subseteq> dom (get_chunk_buffer a')"
  proof
    fix cid assume "cid \<in> b_chunk_id ` B'"
    then obtain b where b: "b \<in> B'" "b_chunk_id b = cid" by blast
    show "cid \<in> dom (get_chunk_buffer a')"
    proof (cases "cid = k")
      case True
      then show ?thesis using b assms(3,7) by (auto split: option.splits)
    next
      case False
      then have "b \<in> B" using b assms(6) by blast
      then have "cid \<in> dom (get_chunk_buffer a)" using assms(1) b(2) by (auto simp: al_inv_def)
      then show ?thesis using False assms(3) by simp
    qed
  qed
  show ?thesis
    using assms domk ids ck unfolding al_inv_def fst_conv snd_conv
    by (auto split: option.splits if_splits)
qed

lemma al_inv_chunk:
  assumes "al_inv view F B (a, s)" and "b \<in> B"
  obtains cb xs where "get_chunk_buffer a (b_chunk_id b) = Some cb" "chunk_ok (view s (b_chunk_id b)) B (b_chunk_id b) cb"
    "view s (b_chunk_id b) = Some xs" "int (length xs) = cb_total_size cb" "b_chunk_id b \<notin> F"
proof -
  have "b_chunk_id b \<in> dom (get_chunk_buffer a)" using assms by (auto simp: al_inv_def)
  then obtain cb where cb: "get_chunk_buffer a (b_chunk_id b) = Some cb" by blast
  then have ok: "chunk_ok (view s (b_chunk_id b)) B (b_chunk_id b) cb"
    using assms(1) by (simp add: al_inv_def)
  moreover have "b_chunk_id b \<notin> F" using assms(1) cb by (auto simp: al_inv_def)
  ultimately show ?thesis using that cb by (auto simp: chunk_ok_def)
qed

lemma blocks_in_insert: "blocks_in (insert b B) (b_chunk_id b) = insert (b_offset b, b_size b) (blocks_in B (b_chunk_id b))"
  by (auto simp: blocks_in_def)

lemma same_block:
  assumes "chunk_ok v B cid cb" and "b \<in> B" and "b' \<in> B" and "b_chunk_id b = cid" and "b_chunk_id b' = cid"
    and "b_offset b = b_offset b'" and "b_size b = b_size b'"
  shows "b = b'"
proof (rule block.equality)
  show "b_gpa b = b_gpa b'" "b_chunk_size b = b_chunk_size b'" using assms(1-5) by (auto simp: chunk_ok_def)
qed (use assms in simp_all)

lemma blocks_in_remove:
  assumes "chunk_ok v B (b_chunk_id b) cb" and "b \<in> B"
  shows "blocks_in (B - {b}) (b_chunk_id b) = blocks_in B (b_chunk_id b) - {(b_offset b, b_size b)}"
proof -
  have "(b_offset b', b_size b') \<noteq> (b_offset b, b_size b)"
    if "b' \<in> B" "b_chunk_id b' = b_chunk_id b" "b' \<noteq> b" for b'
    using same_block [OF assms(1) that(1) assms(2) that(2)] that(3) by auto
  then show ?thesis by (fastforce simp: blocks_in_def)
qed

text \<open>A live block lies inside its chunk, has a positive size and is disjoint from every other.\<close>

definition in_chunk :: "block \<Rightarrow> bool" where
  "in_chunk b \<longleftrightarrow> 0 < b_size b \<and> 0 \<le> b_offset b \<and> b_offset b + b_size b \<le> b_chunk_size b"

definition overlapping :: "block \<Rightarrow> block \<Rightarrow> bool" where
  "overlapping b b' \<longleftrightarrow> b_chunk_id b = b_chunk_id b' \<and>
     b_offset b < b_offset b' + b_size b' \<and> b_offset b' < b_offset b + b_size b"

lemma overlapping_span:
  "0 < b_size b \<Longrightarrow> 0 < b_size b' \<Longrightarrow> overlapping b b' \<longleftrightarrow> b_chunk_id b = b_chunk_id b' \<and>
     span (b_offset b) (b_size b) \<inter> span (b_offset b') (b_size b') \<noteq> {}"
proof -
  assume p: "0 < b_size b" "0 < b_size b'"
  have "(\<exists>x. b_offset b \<le> x \<and> x < b_offset b + b_size b \<and> b_offset b' \<le> x \<and> x < b_offset b' + b_size b')
     \<longleftrightarrow> b_offset b < b_offset b' + b_size b' \<and> b_offset b' < b_offset b + b_size b"
    (is "?l \<longleftrightarrow> ?r")
  proof
    assume ?r
    then show ?l using p by (intro exI [of _ "max (b_offset b) (b_offset b')"]) auto
  qed auto
  then show ?thesis by (auto simp: overlapping_def)
qed

lemma al_inv_blocks:
  assumes "al_inv view F B (a, s)" and "b \<in> B"
  shows "in_chunk b" and "\<And>b'. b' \<in> B \<Longrightarrow> b' \<noteq> b \<Longrightarrow> \<not> overlapping b b'"
proof -
  have pos: "0 < b_size b'" if "b' \<in> B" for b'
  proof -
    obtain cb where "chunk_ok (view s (b_chunk_id b')) B (b_chunk_id b') cb"
      using al_inv_chunk [OF assms(1) \<open>b' \<in> B\<close>] by metis
    then show ?thesis using that by (auto simp: chunk_ok_def cb.occupied_by_def blocks_in_def)
  qed
  obtain cb where ok: "chunk_ok (view s (b_chunk_id b)) B (b_chunk_id b) cb"
    using al_inv_chunk [OF assms] by metis
  have mem: "(b_offset b, b_size b) \<in> blocks_in B (b_chunk_id b)" using assms(2) by (auto simp: blocks_in_def)
  then have "span (b_offset b) (b_size b) \<subseteq> span 0 (cb_total_size cb)"
    using ok by (fastforce simp: chunk_ok_def cb.occupied_by_def)
  then have "b_offset b \<in> span 0 (cb_total_size cb)" "b_offset b + b_size b - 1 \<in> span 0 (cb_total_size cb)"
    using pos [OF assms(2)] by (auto simp del: span_mem simp: subset_iff span_def)
  then show "in_chunk b" using pos [OF assms(2)] ok assms(2) by (auto simp: in_chunk_def chunk_ok_def)
  fix b' assume b': "b' \<in> B" "b' \<noteq> b"
  show "\<not> overlapping b b'"
  proof (cases "b_chunk_id b' = b_chunk_id b")
    case True
    have "(b_offset b, b_size b) \<noteq> (b_offset b', b_size b')"
      using same_block [OF ok b'(1) assms(2) True] b'(2) by auto
    moreover have "(b_offset b', b_size b') \<in> blocks_in B (b_chunk_id b)"
      using b'(1) True by (auto simp: blocks_in_def)
    moreover have "\<And>p q. p \<in> blocks_in B (b_chunk_id b) \<Longrightarrow> q \<in> blocks_in B (b_chunk_id b) \<Longrightarrow> p \<noteq> q \<Longrightarrow>
        span (fst p) (snd p) \<inter> span (fst q) (snd q) = {}"
      using ok by (simp add: chunk_ok_def cb.occupied_by_def)
    ultimately have "span (b_offset b) (b_size b) \<inter> span (b_offset b') (b_size b') = {}" using mem by force
    then show ?thesis using overlapping_span pos assms(2) b'(1) by blast
  qed (simp add: overlapping_def)
qed

text \<open>The bytes of a block.\<close>

definition block_contents :: "(int \<Rightarrow> bytes option) \<Rightarrow> block \<Rightarrow> bytes" where
  "block_contents v b = (case v (b_chunk_id b) of None \<Rightarrow> [] | Some xs \<Rightarrow> block_at (nat (b_offset b)) (nat (b_size b)) xs)"

subsection \<open>The operations over any chunk service\<close>

lemma new_buffer_simps [simp]:
  "cb_chunk_id (new_buffer d mt dev) = d_chunk_id d" "cb_base_gpa (new_buffer d mt dev) = d_base_gpa d"
  "cb_total_size (new_buffer d mt dev) = d_user_size d"
  by (simp_all add: new_buffer_def ChunkBuffer_def)

lemma cb_alloc_frame [simp]:
  "cb_alloc sz cb = (r, cb') \<Longrightarrow> cb_chunk_id cb' = cb_chunk_id cb \<and> cb_base_gpa cb' = cb_base_gpa cb \<and>
     cb_total_size cb' = cb_total_size cb \<and> cb_device_idx cb' = cb_device_idx cb"
  by (auto simp: cb_alloc_def split: option.splits)

lemma cb_free_frame [simp]:
  "cb_chunk_id (cb_free off sz cb) = cb_chunk_id cb" "cb_base_gpa (cb_free off sz cb) = cb_base_gpa cb"
  "cb_total_size (cb_free off sz cb) = cb_total_size cb"
  by (simp_all add: cb_free_def Let_def)

text \<open>Handing out a block of a buffer that satisfies the invariant.\<close>

lemma chunk_ok_alloc:
  assumes "chunk_ok v B cid cb" and "0 < sz" and "cb_alloc sz cb = (Some off, cb')"
  shows "chunk_ok v (insert (Block cid off sz (cb_base_gpa cb) (cb_total_size cb)) B) cid cb' \<and>
         Block cid off sz (cb_base_gpa cb) (cb_total_size cb) \<notin> B"
proof -
  let ?b = "Block cid off sz (cb_base_gpa cb) (cb_total_size cb)"
  have b: "b_chunk_id ?b = cid" "b_offset ?b = off" "b_size ?b = sz" "b_gpa ?b = cb_base_gpa cb"
    "b_chunk_size ?b = cb_total_size cb" by (simp_all add: Block_def)
  have occ: "(off, sz) \<notin> blocks_in B cid \<and> cb.occupied_by cb' (insert (off, sz) (blocks_in B cid))"
    using assms(1) cb.occupied_alloc [OF _ assms(2,3)] by (auto simp: chunk_ok_def)
  have "?b \<notin> B"
  proof
    assume "?b \<in> B"
    then have "(off, sz) \<in> blocks_in B cid" using b by (auto simp: blocks_in_def intro!: image_eqI [of _ _ ?b])
    then show False using occ by blast
  qed
  moreover have "blocks_in (insert ?b B) cid = insert (off, sz) (blocks_in B cid)"
    using blocks_in_insert [of ?b B] b by simp
  ultimately show ?thesis using assms(1) occ b cb_alloc_frame [OF assms(3)] by (auto simp: chunk_ok_def)
qed

lemma chunk_ok_new:
  assumes "u64 (d_chunk_id d) = d_chunk_id d" and "0 < d_user_size d" and "int (length xs) = d_user_size d"
    and "d_chunk_id d \<notin> b_chunk_id ` B"
  shows "chunk_ok (Some xs) B (d_chunk_id d) (new_buffer d mt dev)"
proof -
  have none: "b_chunk_id b \<noteq> d_chunk_id d" if "b \<in> B" for b using assms(4) that by (metis imageI)
  then have "blocks_in B (d_chunk_id d) = {}" by (simp add: blocks_in_def)
  moreover have "cb.occupied_by (new_buffer d mt dev) {}"
    using ChunkBuffer_ok [OF assms(2)] by (simp add: new_buffer_def)
  ultimately show ?thesis using assms(1,3) none by (simp add: chunk_ok_def)
qed

text \<open>A new chunk always serves the request it was created for.\<close>

lemma new_buffer_fits: "0 < sz \<Longrightarrow> sz \<le> d_user_size d \<Longrightarrow> fst (cb_alloc sz (new_buffer d mt dev)) = Some 0"
  by (simp add: cb_alloc_def new_buffer_def ChunkBuffer_def)

context chunk_service
begin

lemma alloc_existing_chunk:
  assumes "al_inv view F B (a, s)" and "0 < sz" and "mt \<in> set media_types"
    and "alloc_in_chunks sz dev (chunks_of a mt) = Some (b, ch)"
  shows "al_inv view F (insert b B) (set_chunks mt ch a, s) \<and> b \<notin> B \<and> b_size b = sz"
proof -
  have kok: "keys_ok a" using assms(1) by (simp add: al_inv_def)
  from alloc_in_chunks_Some [OF assms(4)] keys_ok_distinct [OF kok assms(3)]
  obtain cid cb cb' off where 1: "map_of (chunks_of a mt) cid = Some cb" "cb_alloc sz cb = (Some off, cb')"
    "ch = dict_set cid cb' (chunks_of a mt)" "b = Block cid off sz (cb_base_gpa cb') (cb_total_size cb')"
    by auto
  have G: "get_chunk_buffer a cid = Some cb" by (rule buffers_chunk [OF kok assms(3) 1(1)])
  then have ok: "chunk_ok (view s cid) B cid cb" and "cid \<notin> F" using assms(1) by (auto simp: al_inv_def)
  have b: "b = Block cid off sz (cb_base_gpa cb) (cb_total_size cb)" using 1(4) cb_alloc_frame [OF 1(2)] by simp
  have c: "chunk_ok (view s cid) (insert b B) cid cb'" "b \<notin> B"
    using chunk_ok_alloc [OF ok assms(2) 1(2)] b by auto
  have "al_inv view F (insert b B) (set_chunks mt ch a, s)"
    using buffers_set [OF kok assms(3), of cid cb'] 1(1,3) c(1) b \<open>cid \<notin> F\<close>
    by (intro al_inv_step [OF assms(1)]) (auto simp: Block_def)
  then show ?thesis using c(2) b by (simp add: Block_def)
qed

lemma alloc_new_chunk:
  assumes "al_inv view F B (a, s)" and "inv s" and "room s (Suc n)" and "mt \<in> set media_types"
    and "create_chunk c csz mt dev s = (Inr d, s')" and "0 < csz" and "csz < 2 ^ 64"
  shows "inv s'" "room s' n" "csz \<le> d_user_size d" "view s \<subseteq>\<^sub>m view s'"
    and "al_inv view F B (set_chunks mt (dict_set (d_chunk_id d) (new_buffer d mt dev) (chunks_of a mt)) a, s')"
    and "get_chunk_buffer a (d_chunk_id d) = None" "d_chunk_id d \<notin> F"
    and "chunk_ok (view s' (d_chunk_id d)) B (d_chunk_id d) (new_buffer d mt dev)"
proof -
  have kok: "keys_ok a" using assms(1) by (simp add: al_inv_def)
  from create_ok [OF assms(2,3,5) _ assms(7)] assms(6)
  obtain xs where x: "inv s'" "room s' n" "view s (d_chunk_id d) = None" "csz \<le> d_user_size d"
    "u64 (d_chunk_id d) = d_chunk_id d" "int (length xs) = d_user_size d"
    "view s' = (view s)(d_chunk_id d \<mapsto> xs)" by auto
  have "d_chunk_id d \<notin> dom (view s)" using x(3) by auto
  then have fresh: "d_chunk_id d \<notin> F" "get_chunk_buffer a (d_chunk_id d) = None" "d_chunk_id d \<notin> b_chunk_id ` B"
    using assms(1) by (auto simp: al_inv_def)
  have ok: "chunk_ok (view s' (d_chunk_id d)) B (d_chunk_id d) (new_buffer d mt dev)"
    using chunk_ok_new [OF x(5) _ x(6) fresh(3)] x(4,7) assms(6) by simp
  then show "al_inv view F B (set_chunks mt (dict_set (d_chunk_id d) (new_buffer d mt dev) (chunks_of a mt)) a, s')"
    using buffers_set [OF kok assms(4), of "d_chunk_id d" "new_buffer d mt dev"] fresh x
    by (intro al_inv_step [OF assms(1)]) auto
  show "view s \<subseteq>\<^sub>m view s'" using x(3,7) by (auto simp: map_le_def)
  show "inv s'" "room s' n" "csz \<le> d_user_size d" by (rule x)+
  show "get_chunk_buffer a (d_chunk_id d) = None" "d_chunk_id d \<notin> F" by (rule fresh)+
  show "chunk_ok (view s' (d_chunk_id d)) B (d_chunk_id d) (new_buffer d mt dev)" by (rule ok)
qed

lemma alloc_from_new_chunk:
  assumes "al_inv view F B (a, s)" and "inv s" and "room s (Suc n)" and "mt \<in> set media_types"
    and "create_chunk c (max sz dflt) mt dev s = (Inr d, s')" and "0 < sz" and "max sz dflt < 2 ^ 64"
    and "cb_alloc sz (new_buffer d mt dev) = (Some off, cb)"
  defines "b \<equiv> Block (d_chunk_id d) off sz (d_base_gpa d) (d_user_size d)"
  shows "al_inv view F (insert b B) (set_chunks mt (dict_set (d_chunk_id d) cb (chunks_of a mt)) a, s') \<and> b \<notin> B"
proof -
  have kok: "keys_ok a" using assms(1) by (simp add: al_inv_def)
  have "0 < max sz dflt" using assms(6) by simp
  note new = alloc_new_chunk [OF assms(1-5) this assms(7)]
  have c: "chunk_ok (view s' (d_chunk_id d)) (insert b B) (d_chunk_id d) cb \<and> b \<notin> B"
    using chunk_ok_alloc [OF new(8) assms(6,8)] by (simp add: b_def)
  have same: "view s' j = view s j" if "j \<noteq> d_chunk_id d" for j
    using create_ok [OF assms(2,3,5) _ assms(7)] \<open>0 < max sz dflt\<close> that by force
  have "al_inv view F (insert b B) (set_chunks mt (dict_set (d_chunk_id d) cb (chunks_of a mt)) a, s')"
    using buffers_set [OF kok assms(4), of "d_chunk_id d" cb] new(6,7) c same
    by (intro al_inv_step [OF assms(1)]) (auto simp: b_def Block_def)
  then show ?thesis using c by blast
qed

text \<open>
  \<open>alloc\<close>: a returned block is new and the invariant holds with it; an exception changes neither
  the allocator nor any chunk.
\<close>

lemma FGA_alloc_ok:
  assumes "al_inv view F B (a, s)" and "inv s" and "room s (Suc n)"
    and "0 < sz" and "max sz (al_default_chunk_size a) < 2 ^ 64"
    and "FGA_alloc c sz mt dev (a, s) = (r, (a', s'))"
  shows "inv s' \<and> (case r of
      Inr b \<Rightarrow> al_inv view F (insert b B) (a', s') \<and> b \<notin> B \<and> b_size b = sz \<and> room s' n \<and> view s \<subseteq>\<^sub>m view s'
    | Inl e \<Rightarrow> a' = a \<and> view s' = view s \<and> al_inv view F B (a', s'))"
proof -
  let ?csz = "max sz (al_default_chunk_size a)"
  consider (bad) "\<not> check_media mt dev"
    | (old) b ch where "check_media mt dev" "alloc_in_chunks sz dev (chunks_of a mt) = Some (b, ch)"
    | (err) e s1 where "check_media mt dev" "alloc_in_chunks sz dev (chunks_of a mt) = None"
        "create_chunk c ?csz mt dev s = (Inl e, s1)"
    | (new) d s1 where "check_media mt dev" "alloc_in_chunks sz dev (chunks_of a mt) = None"
        "create_chunk c ?csz mt dev s = (Inr d, s1)"
    by (cases "alloc_in_chunks sz dev (chunks_of a mt)"; cases "create_chunk c ?csz mt dev s";
        cases "fst (create_chunk c ?csz mt dev s)") auto
  then show ?thesis
  proof cases
    case bad
    then show ?thesis using assms(1,2,6) by (auto simp: FGA_alloc_def)
  next
    case old
    then have "mt \<in> set media_types" by (simp add: check_media_def)
    from alloc_existing_chunk [OF assms(1,4) this old(2)]
    show ?thesis using old assms(2,3,6) room_less by (auto simp: FGA_alloc_def)
  next
    case err
    then have "al_inv view F B (a, s1)" using create_error [OF assms(2) err(3)] assms(1) by (simp add: al_inv_def)
    then show ?thesis using err assms(6) create_error [OF assms(2) err(3)] by (auto simp: FGA_alloc_def)
  next
    case new
    then have mt: "mt \<in> set media_types" by (simp add: check_media_def)
    have "0 < ?csz" using assms(4) by simp
    note n = alloc_new_chunk [OF assms(1-3) mt new(3) this assms(5)]
    obtain cb where cb: "cb_alloc sz (new_buffer d mt dev) = (Some 0, cb)"
      using new_buffer_fits [OF assms(4), of d mt dev] n(3) by (metis dual_order.trans eq_fst_iff max.cobounded1)
    show ?thesis using alloc_from_new_chunk [OF assms(1-3) mt new(3) assms(4,5) cb] n(1,2,4) new cb assms(6)
      by (auto simp: FGA_alloc_def Block_def)
  qed
qed

text \<open>
  \<open>free\<close> of a live block: it succeeds, and the chunk goes back to the library exactly when no
  other live block is in it.
\<close>

lemma free_in_ok:
  assumes "al_inv view F B (a, s)" and "inv s" and "b \<in> B" and "mt \<in> set media_types"
    and "map_of (chunks_of a mt) (b_chunk_id b) = Some cb" and "free_in c b mt cb (a, s) = (r, (a', s'))"
  shows "r = Inr () \<and> inv s' \<and> room s' = room s \<and> al_inv view F (B - {b}) (a', s') \<and>
    view s' = (if \<exists>b' \<in> B - {b}. b_chunk_id b' = b_chunk_id b then view s else (view s)(b_chunk_id b := None))"
proof -
  let ?k = "b_chunk_id b" and ?cb = "cb_free (b_offset b) (b_size b) cb"
  let ?a1 = "set_chunks mt (dict_set ?k ?cb (chunks_of a mt)) a"
  have kok: "keys_ok a" using assms(1) by (simp add: al_inv_def)
  have G: "get_chunk_buffer a ?k = Some cb" by (rule buffers_chunk [OF kok assms(4,5)])
  then have ok: "chunk_ok (view s ?k) B ?k cb" and kF: "?k \<notin> F" using assms(1) by (auto simp: al_inv_def)
  have mem: "(b_offset b, b_size b) \<in> blocks_in B ?k" using assms(3) by (auto simp: blocks_in_def)
  have occ: "cb.occupied_by ?cb (blocks_in (B - {b}) ?k)"
    using cb.occupied_release(1) [OF _ mem] ok blocks_in_remove [OF ok assms(3)] by (simp add: chunk_ok_def)
  then have ok': "chunk_ok (view s ?k) (B - {b}) ?k ?cb" using ok by (auto simp: chunk_ok_def)
  note G1 = buffers_set [OF kok assms(4), of ?k ?cb]
  have inv1: "al_inv view F (B - {b}) (?a1, s)"
    using G1 assms(5) ok' kF by (intro al_inv_step [OF assms(1)]) auto
  have empty: "is_fully_free ?cb \<longleftrightarrow> \<not> (\<exists>b' \<in> B - {b}. b_chunk_id b' = ?k)"
  proof -
    have "is_fully_free ?cb \<longleftrightarrow> blocks_in (B - {b}) ?k = {}"
      using is_fully_free_iff cb.occupied_none_iff [OF occ] occ by (simp add: cb.occupied_by_def)
    then show ?thesis by (auto simp: blocks_in_def)
  qed
  show ?thesis
  proof (cases "is_fully_free ?cb")
    case False
    then show ?thesis using assms(2,6) inv1 empty by (simp add: free_in_def Let_def)
  next
    case True
    have id: "d_chunk_id (desc_of ?cb) = ?k" using ok by (simp add: desc_of_def ChunkDescriptor_def chunk_ok_def)
    obtain rd s1 where del: "delete_chunk c (desc_of ?cb) s = (rd, s1)" by fastforce
    have "view s (d_chunk_id (desc_of ?cb)) \<noteq> None" using id ok by (auto simp: chunk_ok_def)
    from delete_ok [OF assms(2) this del] id
    have d: "rd = Inr ()" "inv s1" "room s1 = room s" "view s1 = (view s)(?k := None)" by auto
    let ?a2 = "set_chunks mt (dict_del ?k (chunks_of ?a1 mt)) ?a1"
    have "keys_ok ?a1" using G1 assms(5) by simp
    from buffers_del [OF this assms(4), of ?k] G1 assms(5)
    have G2: "keys_ok ?a2" "get_chunk_buffer ?a2 = (get_chunk_buffer a)(?k := None)" by simp_all
    have "al_inv view F (B - {b}) (?a2, s1)"
      using G2 d(4) kF True empty by (intro al_inv_step [OF assms(1)]) auto
    then show ?thesis using assms(6) True empty del d by (auto simp: free_in_def Let_def)
  qed
qed

lemma FGA_free_ok:
  assumes "al_inv view F B (a, s)" and "inv s" and "b \<in> B" and "FGA_free c b (a, s) = (r, (a', s'))"
  shows "r = Inr () \<and> inv s' \<and> room s' = room s \<and> al_inv view F (B - {b}) (a', s') \<and>
    view s' = (if \<exists>b' \<in> B - {b}. b_chunk_id b' = b_chunk_id b then view s else (view s)(b_chunk_id b := None))"
proof -
  obtain cb where "get_chunk_buffer a (b_chunk_id b) = Some cb" using al_inv_chunk [OF assms(1,3)] by metis
  then consider "map_of (chunks_of a ''dram'') (b_chunk_id b) = Some cb"
    | "map_of (chunks_of a ''dram'') (b_chunk_id b) = None" "map_of (chunks_of a ''ssd'') (b_chunk_id b) = Some cb"
    by (auto simp: get_chunk_buffer_def split: option.splits)
  then show ?thesis
  proof cases
    case 1
    show ?thesis
      using 1 assms(4) by (intro free_in_ok [OF assms(1-3) _ 1]) (simp_all add: FGA_free_def media_types_def)
  next
    case 2
    show ?thesis
      using 2 assms(4) by (intro free_in_ok [OF assms(1-3) _ 2(2)]) (simp_all add: FGA_free_def media_types_def)
  qed
qed

text \<open>Reading and writing a live block; a write changes no other live block.\<close>

lemma live_block:
  assumes "al_inv view F B (a, s)" and "b \<in> B"
  obtains xs where "view s (b_chunk_id b) = Some xs" "0 \<le> b_offset b" "0 < b_size b"
    "b_offset b + b_size b \<le> int (length xs)" "u64 (b_chunk_id b) = b_chunk_id b"
    "block_contents (view s) b = block_at (nat (b_offset b)) (nat (b_size b)) xs"
proof -
  obtain cb xs where *: "chunk_ok (view s (b_chunk_id b)) B (b_chunk_id b) cb"
    "view s (b_chunk_id b) = Some xs" "int (length xs) = cb_total_size cb"
    using al_inv_chunk [OF assms] by metis
  show ?thesis
    using that [OF *(2)] al_inv_blocks(1) [OF assms] * assms(2)
    by (simp add: in_chunk_def chunk_ok_def block_contents_def)
qed

lemma FGA_read_ok:
  assumes "al_inv view F B (a, s)" and "inv s" and "b \<in> B"
    and "0 \<le> off" and "0 \<le> n" and "off + n \<le> b_size b"
  shows "\<exists>s'. FGA_read c b off (Some n) s = (Inr (block_at (nat off) (nat n) (block_contents (view s) b)), s') \<and>
     inv s' \<and> room s' = room s \<and> view s' = view s"
proof -
  obtain xs where x: "view s (b_chunk_id b) = Some xs" "0 \<le> b_offset b" "0 < b_size b"
    "b_offset b + b_size b \<le> int (length xs)" "u64 (b_chunk_id b) = b_chunk_id b"
    "block_contents (view s) b = block_at (nat (b_offset b)) (nat (b_size b)) xs"
    using live_block [OF assms(1,3)] by metis
  let ?d = "ChunkDescriptor (b_chunk_id b) (b_gpa b) (b_chunk_size b)"
  have "view s (d_chunk_id ?d) = Some xs" using x(1,5) by (simp add: ChunkDescriptor_def)
  from read_chunk_ok [OF assms(2) this, of "b_offset b + off" n] x assms(4-6)
  obtain s' where s': "read_chunk c ?d (b_offset b + off) n s = (Inr (block_at (nat (b_offset b + off)) (nat n) xs), s')"
    "inv s'" "room s' = room s" "view s' = view s" by auto
  have "block_at (nat (b_offset b + off)) (nat n) xs = block_at (nat off) (nat n) (block_contents (view s) b)"
    using x assms(4-6) by (simp add: block_at_block_at nat_add_distrib)
  then show ?thesis using s' assms(4-6) by (simp add: FGA_read_def)
qed

lemma FGA_write_ok:
  assumes "al_inv view F B (a, s)" and "inv s" and "b \<in> B"
    and "0 \<le> off" and "off + int (length data) \<le> b_size b"
  shows "\<exists>s'. FGA_write c b off data s = (Inr (), s') \<and> inv s' \<and> room s' = room s \<and>
     al_inv view F B (a, s') \<and>
     block_contents (view s') b = put_block (nat off) data (block_contents (view s) b) \<and>
     (\<forall>b' \<in> B - {b}. block_contents (view s') b' = block_contents (view s) b')"
proof (cases "data = []")
  case True
  then show ?thesis using assms by (auto simp: FGA_write_def put_block_def)
next
  case False
  obtain xs where x: "view s (b_chunk_id b) = Some xs" "0 \<le> b_offset b" "0 < b_size b"
    "b_offset b + b_size b \<le> int (length xs)" "u64 (b_chunk_id b) = b_chunk_id b"
    "block_contents (view s) b = block_at (nat (b_offset b)) (nat (b_size b)) xs"
    using live_block [OF assms(1,3)] by metis
  let ?d = "ChunkDescriptor (b_chunk_id b) (b_gpa b) (b_chunk_size b)"
  let ?p = "nat (b_offset b + off)"
  let ?ys = "put_block ?p data xs"
  have id: "d_chunk_id ?d = b_chunk_id b" using x(5) by (simp add: ChunkDescriptor_def)
  have "view s (d_chunk_id ?d) = Some xs" using x(1) id by simp
  from write_chunk_ok [OF assms(2) this, of "b_offset b + off" data] x assms(4,5) id
  obtain s' where s': "write_chunk c ?d (b_offset b + off) data s = (Inr (), s')"
    "inv s'" "room s' = room s" "view s' = (view s)(b_chunk_id b \<mapsto> ?ys)" by auto
  have fits: "?p + length data \<le> length xs" using x assms(4,5) by linarith
  obtain cb where G: "get_chunk_buffer a (b_chunk_id b) = Some cb" and "b_chunk_id b \<notin> F"
    and ok: "chunk_ok (view s (b_chunk_id b)) B (b_chunk_id b) cb"
    using al_inv_chunk [OF assms(1,3)] by metis
  have "chunk_ok (view s' (b_chunk_id b)) B (b_chunk_id b) cb"
    using ok x(1) s'(4) fits by (auto simp: chunk_ok_def)
  moreover have "keys_ok a" using assms(1) by (simp add: al_inv_def)
  ultimately have inv': "al_inv view F B (a, s')"
    using G s'(4) \<open>b_chunk_id b \<notin> F\<close>
    by (intro al_inv_step [OF assms(1), of a "b_chunk_id b" "Some cb"]) (auto simp: fun_upd_idem)
  have self: "block_contents (view s') b = put_block (nat off) data (block_contents (view s) b)"
    using x s'(4) assms(4,5) by (simp add: block_contents_def put_block_block nat_add_distrib)
  have other: "block_contents (view s') b' = block_contents (view s) b'" if b': "b' \<in> B - {b}" for b'
  proof (cases "b_chunk_id b' = b_chunk_id b")
    case True
    have "\<not> overlapping b b'" using al_inv_blocks(2) [OF assms(1,3)] b' by blast
    moreover have "b' \<in> B" using b' by simp
    then obtain ys where "view s (b_chunk_id b') = Some ys" "0 \<le> b_offset b'" "0 < b_size b'"
      "b_offset b' + b_size b' \<le> int (length ys)" using live_block [OF assms(1)] by metis
    ultimately show ?thesis using True x s'(4) assms(4,5) fits
      by (auto simp: block_contents_def overlapping_def intro!: block_at_put_other)
  next
    case False
    then show ?thesis using s'(4) by (simp add: block_contents_def)
  qed
  show ?thesis using s' inv' self other False assms(4,5) by (auto simp: FGA_write_def)
qed

text \<open>\<open>preallocate_chunks\<close> hands out nothing and keeps the invariant.\<close>

lemma prealloc_one_ok:
  assumes "al_inv view F B (a, s)" and "inv s" and "room s (Suc n)" and "mt \<in> set media_types"
    and "0 < csz" and "csz < 2 ^ 64" and "prealloc_one c csz mt dev (a, s) = (r, (a', s'))"
  shows "inv s' \<and> al_inv view F B (a', s') \<and> (\<forall>v. r = Inr v \<longrightarrow> room s' n)"
proof (cases "fst (create_chunk c csz mt dev s)")
  case (Inl e)
  then obtain s1 where e: "create_chunk c csz mt dev s = (Inl e, s1)" by (metis prod.collapse)
  then have "al_inv view F B (a, s1)" using create_error [OF assms(2) e] assms(1) by (simp add: al_inv_def)
  then show ?thesis using create_error [OF assms(2) e] assms(7) e by (auto simp: prealloc_one_def)
next
  case (Inr d)
  then obtain s1 where d: "create_chunk c csz mt dev s = (Inr d, s1)" by (metis prod.collapse)
  note n = alloc_new_chunk [OF assms(1-4) d assms(5,6)]
  show ?thesis using n(1,2,5) assms(7) d by (auto simp: prealloc_one_def)
qed

lemma preallocate_chunks_ok:
  assumes "al_inv view F B (a, s)" and "inv s" and "room s (nat cnt)" and "0 < csz" and "csz < 2 ^ 64"
    and "preallocate_chunks c cnt csz mt dev (a, s) = (r, (a', s'))"
  shows "inv s' \<and> al_inv view F B (a', s')"
proof (cases "check_media mt dev")
  case False
  then show ?thesis using assms by (auto simp: preallocate_chunks_def)
next
  case True
  then have mt: "mt \<in> set media_types" by (simp add: check_media_def)
  have "for_each (\<lambda>_. prealloc_one c csz mt dev) xs (a, s) = (r, (a', s')) \<Longrightarrow> al_inv view F B (a, s) \<Longrightarrow>
      inv s \<Longrightarrow> room s (length xs) \<Longrightarrow> inv s' \<and> al_inv view F B (a', s')" for xs :: "nat list" and a s
  proof (induction xs arbitrary: a s)
    case (Cons x xs)
    obtain r1 a1 s1 where one: "prealloc_one c csz mt dev (a, s) = (r1, (a1, s1))" by (metis prod.collapse)
    from prealloc_one_ok [OF Cons.prems(2,3) _ mt assms(4,5) one, of "length xs"] Cons.prems(4)
    have *: "inv s1" "al_inv view F B (a1, s1)" "\<forall>v. r1 = Inr v \<longrightarrow> room s1 (length xs)" by auto
    show ?case
    proof (cases r1)
      case (Inl e)
      then show ?thesis using one * Cons.prems(1) by simp
    next
      case (Inr v)
      then show ?thesis using one * Cons.prems(1) by (intro Cons.IH) simp_all
    qed
  qed auto
  then show ?thesis using assms True by (simp add: preallocate_chunks_def)
qed

text \<open>\<open>close\<close> returns every chunk of the allocator and no other.\<close>

lemma delete_all:
  assumes "inv s" and "distinct (map fst ch)"
    and "\<And>cid cb. (cid, cb) \<in> set ch \<Longrightarrow> cb_chunk_id cb = cid \<and> u64 cid = cid \<and> view s cid \<noteq> None"
  shows "\<exists>s'. for_each (\<lambda>(cid, cb). delete_chunk c (desc_of cb)) ch s = (Inr (), s') \<and> inv s' \<and>
    view s' = view s |` (- (fst ` set ch))"
  using assms
proof (induction ch arbitrary: s)
  case (Cons p ch)
  obtain cid cb where p: "p = (cid, cb)" by fastforce
  have hd: "cb_chunk_id cb = cid" "u64 cid = cid" "view s cid \<noteq> None" using Cons.prems(3) [of cid cb] p by simp_all
  have id: "d_chunk_id (desc_of cb) = cid" using hd by (simp add: desc_of_def ChunkDescriptor_def)
  obtain rd s1 where del: "delete_chunk c (desc_of cb) s = (rd, s1)" by fastforce
  from delete_ok [OF Cons.prems(1) _ del] id hd(3)
  have d: "rd = Inr ()" "inv s1" "view s1 = (view s)(cid := None)" by auto
  have "cb_chunk_id cb' = k \<and> u64 k = k \<and> view s1 k \<noteq> None" if "(k, cb') \<in> set ch" for k cb'
  proof -
    have "k \<in> set (map fst ch)" using that by force
    then have "k \<noteq> cid" using Cons.prems(2) p by auto
    then show ?thesis using Cons.prems(3) [of k cb'] that d(3) by simp
  qed
  with Cons.IH [OF d(2)] Cons.prems(2) obtain s' where
    s': "for_each (\<lambda>(cid, cb). delete_chunk c (desc_of cb)) ch s1 = (Inr (), s')" "inv s'"
      "view s' = view s1 |` (- (fst ` set ch))" by auto
  have "view s' = view s |` (- (fst ` set (p # ch)))"
    unfolding s'(3) d(3) using p by (auto simp: restrict_map_def)
  then show ?case using s' del d p by auto
qed (auto simp: restrict_map_def)

lemma FGA_close_ok:
  assumes "al_inv view F B (a, s)" and "inv s"
  shows "\<exists>a' s'. FGA_close c (a, s) = (fst (client_close c s'), (a', snd (client_close c s'))) \<and>
    get_chunk_buffer a' = Map.empty \<and> inv s' \<and> view s' = view s |` F"
proof -
  let ?D = "chunks_of a ''dram''" and ?S = "chunks_of a ''ssd''"
  have kok: "keys_ok a" using assms(1) by (simp add: al_inv_def)
  then have dis: "distinct (map fst ?D)" "distinct (map fst ?S)" by (simp_all add: keys_ok_def)
  have D: "get_chunk_buffer a k = Some cb" if "(k, cb) \<in> set ?D" for k cb
    using that dis kok by (intro buffers_chunk) (auto simp: media_types_def)
  have S: "get_chunk_buffer a k = Some cb" if "(k, cb) \<in> set ?S" for k cb
    using that dis kok by (intro buffers_chunk [of _ "''ssd''"]) (auto simp: media_types_def)
  have all: "cb_chunk_id cb = k \<and> u64 k = k \<and> view s k \<noteq> None" if "get_chunk_buffer a k = Some cb" for k cb
    using assms(1) that by (auto simp: al_inv_def chunk_ok_def)
  have "cb_chunk_id cb = k \<and> u64 k = k \<and> view s k \<noteq> None" if "(k, cb) \<in> set ?D" for k cb
    using all D that by blast
  from delete_all [OF assms(2) dis(1) this] obtain s1 where
    s1: "for_each (\<lambda>(cid, cb). delete_chunk c (desc_of cb)) ?D s = (Inr (), s1)" "inv s1"
      "view s1 = view s |` (- (fst ` set ?D))" by blast
  have "k \<notin> fst ` set ?D" if "(k, cb) \<in> set ?S" for k cb
    using kok that by (metis keys_ok_def map_of_eq_None_iff fst_conv image_eqI)
  then have "cb_chunk_id cb = k \<and> u64 k = k \<and> view s1 k \<noteq> None" if "(k, cb) \<in> set ?S" for k cb
    using all [OF S [OF that]] that s1(3) by auto
  from delete_all [OF s1(2) dis(2) this] obtain s2 where
    s2: "for_each (\<lambda>(cid, cb). delete_chunk c (desc_of cb)) ?S s1 = (Inr (), s2)" "inv s2"
      "view s2 = view s1 |` (- (fst ` set ?S))" by blast
  let ?a = "set_chunks ''ssd'' [] (set_chunks ''dram'' [] a)"
  have dm: "dom (view s) = F \<union> (fst ` set ?D \<union> fst ` set ?S)" "F \<inter> (fst ` set ?D \<union> fst ` set ?S) = {}"
    using assms(1) by (simp_all add: al_inv_def dom_get_chunk_buffer)
  have "view s2 = view s |` F"
  proof
    fix k
    have "k \<notin> F \<Longrightarrow> k \<notin> fst ` set ?D \<union> fst ` set ?S \<Longrightarrow> view s k = None" using dm(1) by blast
    then show "view s2 k = (view s |` F) k" using dm(2) by (auto simp: s2(3) s1(3) restrict_map_def)
  qed
  then show ?thesis using s1(1) s2(1,2)
    by (intro exI [of _ ?a] exI [of _ s2])
      (auto simp: FGA_close_def close_medium_def media_types_def get_chunk_buffer_def split: prod.splits)
qed

end

subsection \<open>Runs of a client\<close>

text \<open>
  The states a client of the allocator can reach: it allocates blocks of positive size, frees only
  blocks it holds, reads and writes through blocks it holds and preallocates chunks. \<open>B\<close> is the set
  of blocks it holds. Failing calls are steps too. \<open>room s n\<close> says the library can hand out \<open>n\<close>
  more chunk ids.
\<close>

inductive fga_reach ::
  "'s clib \<Rightarrow> ('s \<Rightarrow> nat \<Rightarrow> bool) \<Rightarrow> int \<Rightarrow> 's \<Rightarrow> block set \<Rightarrow> allocator \<Rightarrow> 's \<Rightarrow> bool"
  for c room dflt s0 where
  start: "fga_reach c room dflt s0 {} \<lparr>al_default_chunk_size = dflt, al_chunks_by_type = (\<lambda>_. [])\<rparr> s0"
| alloc: "\<lbrakk>fga_reach c room dflt s0 B a s; 0 < sz; max sz (al_default_chunk_size a) < 2 ^ 64; room s 1;
     FGA_alloc c sz mt dev (a, s) = (Inr b, (a', s'))\<rbrakk> \<Longrightarrow> fga_reach c room dflt s0 (insert b B) a' s'"
| alloc_fails: "\<lbrakk>fga_reach c room dflt s0 B a s; 0 < sz; max sz (al_default_chunk_size a) < 2 ^ 64; room s 1;
     FGA_alloc c sz mt dev (a, s) = (Inl e, (a', s'))\<rbrakk> \<Longrightarrow> fga_reach c room dflt s0 B a' s'"
| free: "\<lbrakk>fga_reach c room dflt s0 B a s; b \<in> B; FGA_free c b (a, s) = (r, (a', s'))\<rbrakk> \<Longrightarrow>
     fga_reach c room dflt s0 (B - {b}) a' s'"
| prealloc: "\<lbrakk>fga_reach c room dflt s0 B a s; room s (nat cnt); 0 < csz; csz < 2 ^ 64;
     preallocate_chunks c cnt csz mt dev (a, s) = (r', (a', s'))\<rbrakk> \<Longrightarrow> fga_reach c room dflt s0 B a' s'"
| write_block: "\<lbrakk>fga_reach c room dflt s0 B a s; b \<in> B; FGA_write c b off data s = (r', s')\<rbrakk> \<Longrightarrow>
     fga_reach c room dflt s0 B a s'"
| read_block: "\<lbrakk>fga_reach c room dflt s0 B a s; b \<in> B; FGA_read c b off n s = (rd, s')\<rbrakk> \<Longrightarrow>
     fga_reach c room dflt s0 B a s'"

context chunk_service
begin

lemma FGA_write_any:
  assumes "al_inv view F B (a, s)" and "inv s" and "b \<in> B" and "FGA_write c b off data s = (r, s')"
  shows "inv s' \<and> al_inv view F B (a, s')"
proof (cases "0 \<le> off \<and> off + int (length data) \<le> b_size b")
  case True
  then show ?thesis using FGA_write_ok [OF assms(1-3), of off data] assms(4) by auto
next
  case False
  then have "s' = s" using assms(4) by (auto simp: FGA_write_def split: if_splits)
  then show ?thesis using assms by simp
qed

lemma FGA_read_any:
  assumes "al_inv view F B (a, s)" and "inv s" and "b \<in> B" and "FGA_read c b off n s = (r, s')"
  shows "inv s' \<and> al_inv view F B (a, s')"
proof -
  define k where "k = (case n of None \<Rightarrow> b_size b - off | Some k \<Rightarrow> k)"
  have eq: "FGA_read c b off n s = FGA_read c b off (Some k) s" by (simp add: FGA_read_def k_def)
  show ?thesis
  proof (cases "0 \<le> off \<and> 0 \<le> k \<and> off + k \<le> b_size b")
    case True
    then show ?thesis using FGA_read_ok [OF assms(1-3), of off k] assms(1,4) eq by (auto simp: al_inv_def)
  next
    case False
    then have "s' = s" using assms(4) eq by (auto simp: FGA_read_def split: if_splits)
    then show ?thesis using assms by simp
  qed
qed

lemma fga_reach_inv:
  assumes "fga_reach c room dflt s0 B a s" and "inv s0"
  shows "inv s \<and> al_inv view (dom (view s0)) B (a, s)"
  using assms
proof (induction rule: fga_reach.induct)
  case start
  then show ?case by (auto simp: al_inv_def keys_ok_def get_chunk_buffer_def)
next
  case (alloc B a s sz mt dev b a' s')
  then show ?case using FGA_alloc_ok [of "dom (view s0)" B a s 0 sz mt dev "Inr b" a' s'] by simp
next
  case (alloc_fails B a s sz mt dev e a' s')
  then show ?case using FGA_alloc_ok [of "dom (view s0)" B a s 0 sz mt dev "Inl e" a' s'] by auto
next
  case (free B a s b r a' s')
  then show ?case using FGA_free_ok [of "dom (view s0)" B a s b r a' s'] by blast
next
  case (prealloc B a s cnt csz mt dev r' a' s')
  then show ?case using preallocate_chunks_ok [of "dom (view s0)" B a s cnt csz mt dev r' a' s'] by blast
next
  case (write_block B a s b off data r' s')
  then show ?case using FGA_write_any by blast
next
  case (read_block B a s b off n rd s')
  then show ?case using FGA_read_any by blast
qed

end

subsection \<open>Properties\<close>

text \<open>
  C26. Over any chunk service, in every state a client can reach (allocating positive sizes, freeing
  what it holds, reading and writing, failing calls included) every block it holds lies inside its
  chunk and no two distinct blocks it holds overlap.
\<close>

theorem allocated_blocks_disjoint:
  assumes "chunk_service c view good room" and "good s0" and "fga_reach c room dflt s0 B a s" and "b \<in> B"
  shows "0 < b_size b \<and> 0 \<le> b_offset b \<and> b_offset b + b_size b \<le> b_chunk_size b \<and>
    (\<forall>b' \<in> B. b' \<noteq> b \<longrightarrow> \<not> overlapping b b')"
  using chunk_service.fga_reach_inv [OF assms(1,3,2)] al_inv_blocks [OF _ assms(4)]
  by (metis in_chunk_def)

text \<open>A concrete run on the in-memory library: two allocations from one chunk of eight bytes.\<close>

definition demo_block :: "int \<Rightarrow> int \<Rightarrow> block" where
  "demo_block off sz = Block 1 off sz 0x110000 8"

definition demo_alloc :: "(int \<times> int) list \<Rightarrow> allocator" where
  "demo_alloc fl = \<lparr>al_default_chunk_size = 8, al_chunks_by_type = (\<lambda>_. [])(''dram'' :=
     [(1, \<lparr>cb_chunk_id = 1, cb_base_gpa = 0x110000, cb_total_size = 8, cb_media_type = ''dram'',
          cb_device_idx = None, cb_free_list = fl\<rparr>)])\<rparr>"

definition demo_lib :: fake_clib where
  "demo_lib = snd (fk_umm_alloc 8 (FakeCLib_init 1))"

lemma demo_lib_simps [simp]:
  "fk_chunks demo_lib = [1 \<mapsto> replicate 8 0]" "fk_next_chunk_id demo_lib = 2" "fk_room demo_lib (Suc 0)"
  by (simp_all add: demo_lib_def fk_umm_alloc_def FakeCLib_init_def fk_room_def)

lemma demo_reach:
  "fga_reach fake_clib_entries fk_room 8 (FakeCLib_init 1) {demo_block 3 2, demo_block 0 3}
     (demo_alloc [(5, 3)]) demo_lib"
proof -
  let ?a0 = "\<lparr>al_default_chunk_size = 8, al_chunks_by_type = (\<lambda>_. [])\<rparr>" and ?s0 = "FakeCLib_init 1"
  have one: "FGA_alloc fake_clib_entries 3 ''dram'' None (?a0, ?s0) = (Inr (demo_block 0 3), (demo_alloc [(3, 5)], demo_lib))"
    by (simp add: FGA_alloc_def check_media_def media_types_def umm_simps fk_umm_alloc_def FakeCLib_init_def
        ChunkDescriptor_def new_buffer_def ChunkBuffer_def cb_alloc_def demo_block_def demo_alloc_def
        demo_lib_def set_chunks_def)
  have two: "FGA_alloc fake_clib_entries 2 ''dram'' None (demo_alloc [(3, 5)], demo_lib) =
      (Inr (demo_block 3 2), (demo_alloc [(5, 3)], demo_lib))"
    by (simp add: FGA_alloc_def check_media_def media_types_def cb_alloc_def demo_block_def demo_alloc_def set_chunks_def)
  have "fga_reach fake_clib_entries fk_room 8 ?s0 {demo_block 0 3} (demo_alloc [(3, 5)]) demo_lib"
    using fga_reach.alloc [OF fga_reach.start _ _ _ one, of fk_room] by (simp add: fk_room_def FakeCLib_init_def)
  from fga_reach.alloc [OF this _ _ _ two] show ?thesis by (simp add: demo_alloc_def)
qed

lemma demo_inv: "al_inv fk_chunks {} {demo_block 3 2, demo_block 0 3} (demo_alloc [(5, 3)], demo_lib)"
  and demo_fk_inv: "fk_inv demo_lib"
proof -
  have "fk_inv (FakeCLib_init 1)" "dom (fk_chunks (FakeCLib_init 1)) = {}"
    by (rule fk_inv_init) (simp add: FakeCLib_init_def)
  then show "al_inv fk_chunks {} {demo_block 3 2, demo_block 0 3} (demo_alloc [(5, 3)], demo_lib)" "fk_inv demo_lib"
    using fake_service.fga_reach_inv [OF demo_reach] by simp_all
qed

theorem allocated_blocks_disjoint_witness:
  "fga_reach fake_clib_entries fk_room 8 (FakeCLib_init 1) {demo_block 3 2, demo_block 0 3}
     (demo_alloc [(5, 3)]) demo_lib \<and> demo_block 3 2 \<noteq> demo_block 0 3 \<and>
   \<not> overlapping (demo_block 3 2) (demo_block 0 3)"
  using allocated_blocks_disjoint [OF fake_service.chunk_service_axioms fk_inv_init demo_reach, of "demo_block 3 2"]
    demo_reach by (simp add: demo_block_def Block_def)

text \<open>
  C27. \<open>alloc\<close> of a positive size over any chunk service: a returned block is new, has the requested
  size and leaves every existing chunk's bytes as they were; when it raises, the allocator's
  dictionaries and the library's chunks are unchanged. Both outcomes keep the invariant.
\<close>

theorem FGA_alloc_correct:
  assumes "chunk_service c view good room" and "al_inv view F B (a, s)" and "good s" and "room s (Suc n)"
    and "0 < sz" and "max sz (al_default_chunk_size a) < 2 ^ 64"
    and "FGA_alloc c sz mt dev (a, s) = (r, (a', s'))"
  shows "good s' \<and> (case r of
      Inr b \<Rightarrow> al_inv view F (insert b B) (a', s') \<and> b \<notin> B \<and> b_size b = sz \<and> room s' n \<and> view s \<subseteq>\<^sub>m view s'
    | Inl e \<Rightarrow> a' = a \<and> view s' = view s \<and> al_inv view F B (a', s'))"
  by (rule chunk_service.FGA_alloc_ok [OF assms])

theorem FGA_alloc_correct_witness:
  "al_inv fk_chunks {} (insert (demo_block 5 3) {demo_block 3 2, demo_block 0 3}) (demo_alloc [], demo_lib)"
proof -
  have "FGA_alloc fake_clib_entries 3 ''dram'' None (demo_alloc [(5, 3)], demo_lib) =
      (Inr (demo_block 5 3), (demo_alloc [], demo_lib))"
    by (simp add: FGA_alloc_def check_media_def media_types_def cb_alloc_def demo_block_def demo_alloc_def set_chunks_def)
  from FGA_alloc_correct [OF fake_service.chunk_service_axioms demo_inv demo_fk_inv _ _ _ this, of 0]
  show ?thesis by (simp add: demo_alloc_def)
qed

text \<open>
  \<open>free\<close> of a live block succeeds, keeps the invariant for the remaining blocks and returns the
  chunk to the library exactly when no other live block is in it; no other chunk changes.
\<close>

theorem FGA_free_returns_chunk:
  assumes "chunk_service c view good room" and "al_inv view F B (a, s)" and "good s" and "b \<in> B"
    and "FGA_free c b (a, s) = (r, (a', s'))"
  shows "r = Inr () \<and> good s' \<and> al_inv view F (B - {b}) (a', s') \<and>
    view s' = (if \<exists>b' \<in> B - {b}. b_chunk_id b' = b_chunk_id b then view s
               else (view s)(b_chunk_id b := None))"
  using chunk_service.FGA_free_ok [OF assms] by blast

theorem FGA_free_returns_chunk_witness:
  "fst (FGA_free fake_clib_entries (demo_block 3 2) (demo_alloc [(5, 3)], demo_lib)) = Inr ()"
  using FGA_free_returns_chunk [OF fake_service.chunk_service_axioms demo_inv demo_fk_inv, of "demo_block 3 2"]
  by (metis insertI1 prod.collapse)

text \<open>
  C28. Writing inside a live block and reading it: the write succeeds, the block afterwards holds the
  data at that offset and its old bytes elsewhere, no other live block changes, and a read of any
  range of any live block returns exactly that block's bytes.
\<close>

theorem FGA_write_read:
  assumes "chunk_service c view good room" and "al_inv view F B (a, s)" and "good s" and "b \<in> B" and "b' \<in> B"
    and "0 \<le> off" and "off + int (length data) \<le> b_size b"
    and "0 \<le> off'" and "0 \<le> n" and "off' + n \<le> b_size b'"
  shows "\<exists>s'. FGA_write c b off data s = (Inr (), s') \<and> al_inv view F B (a, s') \<and>
    fst (FGA_read c b' off' (Some n) s') =
      Inr (block_at (nat off') (nat n)
        (if b' = b then put_block (nat off) data (block_contents (view s) b) else block_contents (view s) b'))"
proof -
  from chunk_service.FGA_write_ok [OF assms(1-4,6,7)] obtain s' where
    w: "FGA_write c b off data s = (Inr (), s')" "good s'" "al_inv view F B (a, s')"
      "block_contents (view s') b = put_block (nat off) data (block_contents (view s) b)"
      "\<forall>b' \<in> B - {b}. block_contents (view s') b' = block_contents (view s) b'" by blast
  from chunk_service.FGA_read_ok [OF assms(1) w(3,2) assms(5,8-10)] w(4,5) assms(5)
  have "fst (FGA_read c b' off' (Some n) s') =
      Inr (block_at (nat off') (nat n)
        (if b' = b then put_block (nat off) data (block_contents (view s) b) else block_contents (view s) b'))"
    by auto
  then show ?thesis using w(1,3) by blast
qed

theorem FGA_write_read_witness:
  "\<exists>s'. FGA_write fake_clib_entries (demo_block 0 3) 1 [7, 9] demo_lib = (Inr (), s') \<and>
     fst (FGA_read fake_clib_entries (demo_block 0 3) 0 (Some 3) s') = Inr [0, 7, 9]"
  using FGA_write_read [OF fake_service.chunk_service_axioms demo_inv demo_fk_inv,
      of "demo_block 0 3" "demo_block 0 3" 1 "[7, 9]" 0 3]
  by (auto simp: demo_block_def Block_def block_contents_def block_at_def put_block_def numeral_eq_Suc)

text \<open>
  \<open>close\<close> deletes every chunk of the allocator and no foreign one, empties both dictionaries and
  ends with the outcome of the client's own \<open>close\<close>.
\<close>

theorem FGA_close_returns_all:
  assumes "chunk_service c view good room" and "al_inv view F B (a, s)" and "good s"
  shows "\<exists>a' s'. FGA_close c (a, s) = (fst (client_close c s'), (a', snd (client_close c s'))) \<and>
    get_chunk_buffer a' = Map.empty \<and> view s' = view s |` F"
  using chunk_service.FGA_close_ok [OF assms] by blast

theorem FGA_close_returns_all_witness:
  "\<exists>a' s'. FGA_close fake_clib_entries (demo_alloc [(5, 3)], demo_lib) = (Inl AttributeError, (a', s')) \<and>
     fk_chunks s' = Map.empty"
  using FGA_close_returns_all [OF fake_service.chunk_service_axioms demo_inv demo_fk_inv]
  by (auto simp: umm_simps)

text \<open>
  A block of size zero is not returned cleanly: freeing it leaves an empty interval in the free
  list, so the buffer never reports itself fully free again and its chunk is not given back.
\<close>

theorem zero_size_block_pins_chunk:
  assumes "0 < tsz" and "cb = ChunkBuffer cid gpa tsz mt dev []"
  shows "is_fully_free cb \<and> fst (cb_alloc 0 cb) = Some 0 \<and>
    \<not> is_fully_free (cb_free 0 0 (snd (cb_alloc 0 cb)))"
  using assms by (simp add: ChunkBuffer_def cb_alloc_def cb_free_def is_fully_free_def coalesce_step_def Let_def)

theorem zero_size_block_pins_chunk_witness:
  "\<not> is_fully_free (cb_free 0 0 (snd (cb_alloc 0 (ChunkBuffer 1 0 4096 ''dram'' None []))))"
  using zero_size_block_pins_chunk [of 4096 _ 1 0 "''dram''" None] by simp

end
