(* ===== verification/Segment.thy ===== *)
theory Segment
  imports FakeClib
begin

section \<open>DeviceSegmentManager (\_vm\_segment.py)\<close>

text \<open>
  One SSD extent is cut into segments; units are aggregated in a segment buffer that goes to the
  extent in one write. The model keeps the whole state of the manager (free stack, reference
  counts, current buffer, its segment and fill) and runs over any library \<open>'s umm_lib\<close>. The
  invariant \<open>seg_inv\<close> relates it to the extent's bytes and to a ghost map of the live units; the
  lemmas are proved from the laws of \<open>chunk_store\<close>. An operation runs under the manager's lock and
  is one step.
\<close>

subsection \<open>State and operations\<close>

definition check_segment_geometry :: "int \<Rightarrow> int \<Rightarrow> unit result" where
  "check_segment_geometry sp_bytes unit_size =
     (if sp_bytes \<le> 0 then Inl ValueError
      else if sp_bytes mod 4096 \<noteq> 0 then Inl ValueError
      else if unit_size \<le> 0 \<or> unit_size mod 4096 \<noteq> 0 then Inl ValueError
      else if sp_bytes mod unit_size \<noteq> 0 then Inl ValueError
      else Inr ())"

record seg_mgr =
  sg_desc :: chunk_desc
  sg_device_idx :: int
  sg_sp_bytes :: int
  sg_unit_size :: int
  sg_slots_per_seg :: int
  sg_n_seg :: int
  sg_free :: "int list"
  sg_refcount :: "int list"
  sg_buf :: "bytes option"
  sg_buf_seg :: int
  sg_buf_fill :: int

definition DeviceSegmentManager_init :: "chunk_desc \<Rightarrow> int \<Rightarrow> int \<Rightarrow> int \<Rightarrow> seg_mgr result" where
  "DeviceSegmentManager_init desc device_idx sp_bytes unit_size =
     (case check_segment_geometry sp_bytes unit_size of
        Inl e \<Rightarrow> Inl e
      | Inr _ \<Rightarrow>
          if d_user_size desc mod sp_bytes \<noteq> 0 then Inl ValueError
          else (let n_seg = d_user_size desc div sp_bytes in
            Inr \<lparr>sg_desc = desc, sg_device_idx = device_idx, sg_sp_bytes = sp_bytes,
              sg_unit_size = unit_size, sg_slots_per_seg = sp_bytes div unit_size, sg_n_seg = n_seg,
              sg_free = rev [0..n_seg - 1], sg_refcount = replicate (nat n_seg) 0,
              sg_buf = None, sg_buf_seg = - 1, sg_buf_fill = 0\<rparr>))"

definition num_free_segments :: "seg_mgr \<Rightarrow> int" where
  "num_free_segments m = int (length (sg_free m))"

definition buffered_units :: "seg_mgr \<Rightarrow> int" where
  "buffered_units m = sg_buf_fill m"

definition segment_of :: "seg_mgr \<Rightarrow> int \<Rightarrow> int" where
  "segment_of m off = off div sg_sp_bytes m"

definition start_segment :: "seg_mgr \<Rightarrow> (unit, seg_mgr) outcome" where
  "start_segment m =
     (if sg_free m = [] then (Inl SegmentFullError, m)
      else (Inr (), m\<lparr>sg_buf_seg := last (sg_free m), sg_free := butlast (sg_free m),
              sg_buf := Some (replicate (nat (sg_sp_bytes m)) 0), sg_buf_fill := 0\<rparr>))"

text \<open>A \<open>write_from\<close> that raises leaves the buffer in place.\<close>

definition flush_locked :: "'s umm_lib \<Rightarrow> seg_mgr \<times> 's \<Rightarrow> (unit, seg_mgr \<times> 's) outcome" where
  "flush_locked L ms =
     (let (m, s) = ms; seg = sg_buf_seg m in
      case sg_buf m of
        None \<Rightarrow> (Inl TypeError, (m, s))
      | Some b \<Rightarrow>
          (case lib_write_from L (sg_desc m) (seg * sg_sp_bytes m) (bytearray_buf b) s of
             (Inl e, s') \<Rightarrow> (Inl e, (m, s'))
           | (Inr _, s') \<Rightarrow>
               (let m1 = m\<lparr>sg_buf := None, sg_buf_seg := - 1, sg_buf_fill := 0\<rparr> in
                case py_nth (sg_refcount m1) seg of
                  Inl e \<Rightarrow> (Inl e, (m1, s'))
                | Inr rc \<Rightarrow>
                    (Inr (), (if rc = 0 then m1\<lparr>sg_free := sg_free m1 @ [seg]\<rparr> else m1, s')))))"

text \<open>The last part of \<open>append\<close>: place the unit in the buffer and count it.\<close>

definition place_unit :: "bytes \<Rightarrow> seg_mgr \<Rightarrow> (int, seg_mgr) outcome" where
  "place_unit data m =
     (let seg = sg_buf_seg m;
          offset = seg * sg_sp_bytes m + sg_buf_fill m * sg_unit_size m;
          start = sg_buf_fill m * sg_unit_size m
      in case sg_buf m of
           None \<Rightarrow> (Inl TypeError, m)
         | Some b \<Rightarrow>
             (let m1 = m\<lparr>sg_buf := Some (py_slice_set b start (start + sg_unit_size m) data),
                        sg_buf_fill := sg_buf_fill m + 1\<rparr>
              in case py_nth (sg_refcount m1) seg of
                   Inl e \<Rightarrow> (Inl e, m1)
                 | Inr rc \<Rightarrow>
                     (case py_set (sg_refcount m1) seg (rc + 1) of
                        Inl e \<Rightarrow> (Inl e, m1)
                      | Inr rs \<Rightarrow> (Inr offset, m1\<lparr>sg_refcount := rs\<rparr>))))"

definition lift_mgr :: "('a, seg_mgr) outcome \<Rightarrow> 's \<Rightarrow> ('a, seg_mgr \<times> 's) outcome" where
  "lift_mgr r s = (fst r, (snd r, s))"

definition seg_append :: "'s umm_lib \<Rightarrow> bytes \<Rightarrow> seg_mgr \<times> 's \<Rightarrow> (int, seg_mgr \<times> 's) outcome" where
  "seg_append L data ms =
     (let (m, s) = ms in
      if int (length data) \<noteq> sg_unit_size m then (Inl ValueError, (m, s))
      else
        rbind (if sg_buf m = None then lift_mgr (start_segment m) s else (Inr (), (m, s))) (\<lambda>_ (m, s).
        rbind (if sg_buf_fill m = sg_slots_per_seg m
               then rbind (flush_locked L (m, s)) (\<lambda>_ (m, s). lift_mgr (start_segment m) s)
               else (Inr (), (m, s))) (\<lambda>_ (m, s).
        lift_mgr (place_unit data m) s)))"

definition seg_flush :: "'s umm_lib \<Rightarrow> seg_mgr \<times> 's \<Rightarrow> (unit, seg_mgr \<times> 's) outcome" where
  "seg_flush L ms =
     (if sg_buf (fst ms) \<noteq> None \<and> sg_buf_fill (fst ms) > 0 then flush_locked L ms else (Inr (), ms))"

definition seg_is_buffered :: "seg_mgr \<Rightarrow> int \<Rightarrow> bool" where
  "seg_is_buffered m off \<longleftrightarrow> sg_buf m \<noteq> None \<and> segment_of m off = sg_buf_seg m"

definition read_buffer :: "seg_mgr \<Rightarrow> int \<Rightarrow> int \<Rightarrow> bytes option" where
  "read_buffer m off sz =
     (case sg_buf m of
        None \<Rightarrow> None
      | Some b \<Rightarrow>
          if segment_of m off \<noteq> sg_buf_seg m then None
          else (let l = off - sg_buf_seg m * sg_sp_bytes m in Some (py_slice b l (l + sz))))"

definition dec_refcount :: "int \<Rightarrow> int \<Rightarrow> seg_mgr \<Rightarrow> seg_mgr result" where
  "dec_refcount seg rc m =
     (case py_set (sg_refcount m) seg (rc - 1) of Inl e \<Rightarrow> Inl e | Inr rs \<Rightarrow> Inr (m\<lparr>sg_refcount := rs\<rparr>))"

definition seg_release :: "int \<Rightarrow> seg_mgr \<Rightarrow> (unit, seg_mgr) outcome" where
  "seg_release off m =
     (let seg = segment_of m off in
      case py_nth (sg_refcount m) seg of
        Inl e \<Rightarrow> (Inl e, m)
      | Inr rc \<Rightarrow>
          if seg \<noteq> sg_buf_seg m \<and> rc \<le> 0 then (Inl RuntimeError, m)
          else (case dec_refcount seg rc m of
            Inl e \<Rightarrow> (Inl e, m)
          | Inr m1 \<Rightarrow>
              if seg = sg_buf_seg m then (Inr (), m1)
              else if rc - 1 = 0 then (Inr (), m1\<lparr>sg_free := sg_free m1 @ [seg]\<rparr>) else (Inr (), m1)))"

subsection \<open>Invariant\<close>

definition live_in :: "seg_mgr \<Rightarrow> (int \<rightharpoonup> bytes) \<Rightarrow> int \<Rightarrow> int set" where
  "live_in m U i = {off \<in> dom U. off div sg_sp_bytes m = i}"

definition seg_geom :: "seg_mgr \<Rightarrow> bool" where
  "seg_geom m \<longleftrightarrow> 0 < sg_unit_size m \<and> 4096 dvd sg_unit_size m \<and> 0 < sg_slots_per_seg m \<and>
     sg_sp_bytes m = sg_slots_per_seg m * sg_unit_size m \<and> 0 \<le> sg_n_seg m \<and>
     d_user_size (sg_desc m) = sg_n_seg m * sg_sp_bytes m \<and> int (length (sg_refcount m)) = sg_n_seg m"

definition seg_buffer_ok :: "seg_mgr \<Rightarrow> bool" where
  "seg_buffer_ok m \<longleftrightarrow>
     (case sg_buf m of
        None \<Rightarrow> sg_buf_seg m = - 1 \<and> sg_buf_fill m = 0
      | Some b \<Rightarrow> 0 \<le> sg_buf_seg m \<and> sg_buf_seg m < sg_n_seg m \<and> int (length b) = sg_sp_bytes m \<and>
          0 \<le> sg_buf_fill m \<and> sg_buf_fill m \<le> sg_slots_per_seg m)"

definition seg_lists_ok :: "seg_mgr \<Rightarrow> (int \<rightharpoonup> bytes) \<Rightarrow> bool" where
  "seg_lists_ok m U \<longleftrightarrow> distinct (sg_free m) \<and> set (sg_free m) \<subseteq> {0..<sg_n_seg m} \<and>
     sg_buf_seg m \<notin> set (sg_free m) \<and> finite (dom U) \<and>
     (\<forall>i. 0 \<le> i \<and> i < sg_n_seg m \<longrightarrow> sg_refcount m ! nat i = int (card (live_in m U i)) \<and>
        (i \<noteq> sg_buf_seg m \<longrightarrow> (i \<in> set (sg_free m) \<longleftrightarrow> live_in m U i = {})))"

text \<open>A live unit sits in a slot of its segment: in the buffer if that segment is buffered, else on disk.\<close>

definition unit_ok :: "seg_mgr \<Rightarrow> bytes \<Rightarrow> int \<Rightarrow> bytes \<Rightarrow> bool" where
  "unit_ok m xs off data \<longleftrightarrow> int (length data) = sg_unit_size m \<and>
     (\<exists>seg k. off = seg * sg_sp_bytes m + k * sg_unit_size m \<and> 0 \<le> seg \<and> seg < sg_n_seg m \<and>
        0 \<le> k \<and> k < sg_slots_per_seg m \<and>
        (if seg = sg_buf_seg m
         then k < sg_buf_fill m \<and>
           (\<forall>b. sg_buf m = Some b \<longrightarrow> block_at (nat (k * sg_unit_size m)) (nat (sg_unit_size m)) b = data)
         else block_at (nat off) (nat (sg_unit_size m)) xs = data))"

definition seg_inv ::
  "('s \<Rightarrow> int \<Rightarrow> bytes option) \<Rightarrow> (int \<rightharpoonup> bytes) \<Rightarrow> seg_mgr \<times> 's \<Rightarrow> bool" where
  "seg_inv view U ms \<longleftrightarrow>
     (let (m, s) = ms in seg_geom m \<and> seg_buffer_ok m \<and> seg_lists_ok m U \<and>
       (\<exists>xs. view s (d_chunk_id (sg_desc m)) = Some xs \<and> int (length xs) = d_user_size (sg_desc m) \<and>
         (\<forall>off data. U off = Some data \<longrightarrow> unit_ok m xs off data)))"

subsection \<open>Slots of a segment\<close>

lemma slot_arith:
  assumes "(0::int) < u" and "sp = slots * u" and "0 \<le> k" and "k < slots"
  shows "(seg * sp + k * u) div sp = seg" and "0 \<le> k * u" and "k * u + u \<le> sp"
proof -
  have "k * u + u = (k + 1) * u" by (simp add: algebra_simps)
  also have "\<dots> \<le> slots * u" using assms by (intro mult_right_mono) auto
  finally show le: "k * u + u \<le> sp" using assms(2) by simp
  show "0 \<le> k * u" using assms by simp
  then have "0 \<le> k * u" "k * u < sp" using le assms(1) by auto
  then show "(seg * sp + k * u) div sp = seg" by (simp add: div_pos_pos_trivial)
qed

lemma segment_bounds:
  assumes "0 \<le> seg" and "seg < n" and "(0::int) < sp"
  shows "0 \<le> seg * sp" and "seg * sp + sp \<le> n * sp"
proof -
  have "(seg + 1) * sp \<le> n * sp" using assms by (intro mult_right_mono) auto
  then show "seg * sp + sp \<le> n * sp" by (simp add: algebra_simps)
qed (use assms in simp)

text \<open>Different slots occupy disjoint byte ranges.\<close>

lemma slots_apart:
  assumes "0 < u" and "(j::int) \<noteq> k"
  shows "j * u + u \<le> k * u \<or> k * u + u \<le> j * u"
proof (cases "j < k")
  case True
  then have "(j + 1) * u \<le> k * u" using assms(1) by (intro mult_right_mono) auto
  then show ?thesis by (simp add: algebra_simps)
next
  case False
  then have "(k + 1) * u \<le> j * u" using assms by (intro mult_right_mono) auto
  then show ?thesis by (simp add: algebra_simps)
qed

lemma segments_apart:
  assumes "0 < sp" and "(i::int) \<noteq> j" and "0 \<le> a" and "a + u \<le> sp"
  shows "i * sp + a + u \<le> j * sp \<or> j * sp + sp \<le> i * sp + a"
  using slots_apart [OF assms(1,2)] assms(3,4) by linarith

lemma seg_geom_sp: "seg_geom m \<Longrightarrow> 0 < sg_sp_bytes m"
  by (simp add: seg_geom_def)

lemma unit_okE:
  assumes "seg_geom m" and "unit_ok m xs off data"
  obtains seg k where "off = seg * sg_sp_bytes m + k * sg_unit_size m" "0 \<le> seg" "seg < sg_n_seg m"
    "0 \<le> k" "k < sg_slots_per_seg m" "int (length data) = sg_unit_size m" "off div sg_sp_bytes m = seg"
    "seg = sg_buf_seg m \<Longrightarrow> k < sg_buf_fill m"
    "\<And>b. seg = sg_buf_seg m \<Longrightarrow> sg_buf m = Some b \<Longrightarrow>
       block_at (nat (k * sg_unit_size m)) (nat (sg_unit_size m)) b = data"
    "seg \<noteq> sg_buf_seg m \<Longrightarrow> block_at (nat off) (nat (sg_unit_size m)) xs = data"
proof -
  from assms(2) obtain seg k where *: "off = seg * sg_sp_bytes m + k * sg_unit_size m" "0 \<le> seg" "seg < sg_n_seg m"
    "0 \<le> k" "k < sg_slots_per_seg m" "int (length data) = sg_unit_size m"
    "if seg = sg_buf_seg m
     then k < sg_buf_fill m \<and>
       (\<forall>b. sg_buf m = Some b \<longrightarrow> block_at (nat (k * sg_unit_size m)) (nat (sg_unit_size m)) b = data)
     else block_at (nat off) (nat (sg_unit_size m)) xs = data"
    unfolding unit_ok_def by blast
  have "off div sg_sp_bytes m = seg"
    using slot_arith(1) [of "sg_unit_size m" "sg_sp_bytes m" "sg_slots_per_seg m" k seg] * assms(1)
    by (simp add: seg_geom_def)
  then show ?thesis using that [OF *(1-6)] *(7) by (simp split: if_splits)
qed

lemma seg_geom_pages: "seg_geom m \<Longrightarrow> 4096 dvd sg_unit_size m \<and> 4096 dvd sg_sp_bytes m"
  by (simp add: seg_geom_def)

lemma live_unit_page:
  assumes "seg_inv view U (m, s)" and "U off = Some data"
  shows "4096 dvd off"
proof -
  obtain xs where g: "seg_geom m" and u: "unit_ok m xs off data" using assms by (auto simp: seg_inv_def)
  from unit_okE [OF this] obtain seg k where "off = seg * sg_sp_bytes m + k * sg_unit_size m" by metis
  then show ?thesis using seg_geom_pages [OF g] by simp
qed

subsection \<open>The operations over any chunk store\<close>

lemma seg_inv_init:
  assumes "DeviceSegmentManager_init desc dev sp unit_sz = Inr m" and "0 \<le> d_user_size desc"
    and "view s (d_chunk_id desc) = Some xs" and "int (length xs) = d_user_size desc"
  shows "seg_inv view Map.empty (m, s)"
proof -
  have geo: "0 < sp" "0 < unit_sz" "sp mod unit_sz = 0" "d_user_size desc mod sp = 0" "4096 dvd unit_sz"
    and m: "m = \<lparr>sg_desc = desc, sg_device_idx = dev, sg_sp_bytes = sp,
              sg_unit_size = unit_sz, sg_slots_per_seg = sp div unit_sz, sg_n_seg = d_user_size desc div sp,
              sg_free = rev [0..d_user_size desc div sp - 1], sg_refcount = replicate (nat (d_user_size desc div sp)) 0,
              sg_buf = None, sg_buf_seg = - 1, sg_buf_fill = 0\<rparr>"
    using assms(1) by (auto simp: DeviceSegmentManager_init_def check_segment_geometry_def Let_def split: if_splits)
  have "0 < sp div unit_sz" using geo by (metis div_mult_mod_eq add.right_neutral zero_less_mult_pos2)
  moreover have "0 \<le> d_user_size desc div sp" using geo assms(2) by (simp add: pos_imp_zdiv_nonneg_iff)
  ultimately show ?thesis
    using geo assms(3,4) m
    by (auto simp: seg_inv_def seg_geom_def seg_buffer_ok_def seg_lists_ok_def live_in_def minus_mod_eq_div_mult [symmetric])
qed

lemma start_segment_inv:
  assumes "seg_inv view U (m, s)" and "sg_buf m = None" and "start_segment m = (r, m')"
  shows "seg_inv view U (m', s)" and "r = Inr () \<Longrightarrow> sg_buf m' \<noteq> None \<and> sg_buf_fill m' = 0"
    and "r \<noteq> Inr () \<Longrightarrow> r = Inl SegmentFullError \<and> m' = m \<and> (\<forall>i. 0 \<le> i \<and> i < sg_n_seg m \<longrightarrow> live_in m U i \<noteq> {})"
    and "sg_unit_size m' = sg_unit_size m" "sg_slots_per_seg m' = sg_slots_per_seg m" "sg_desc m' = sg_desc m"
proof -
  obtain xs where inv: "seg_geom m" "seg_buffer_ok m" "seg_lists_ok m U"
    "view s (d_chunk_id (sg_desc m)) = Some xs" "int (length xs) = d_user_size (sg_desc m)"
    "\<And>off data. U off = Some data \<Longrightarrow> unit_ok m xs off data"
    using assms(1) by (auto simp: seg_inv_def)
  have none: "sg_buf_seg m = - 1" using inv(2) assms(2) by (simp add: seg_buffer_ok_def)
  show "sg_unit_size m' = sg_unit_size m" "sg_slots_per_seg m' = sg_slots_per_seg m" "sg_desc m' = sg_desc m"
    using assms(3) by (auto simp: start_segment_def split: if_splits)
  show "r = Inr () \<Longrightarrow> sg_buf m' \<noteq> None \<and> sg_buf_fill m' = 0"
    using assms(3) by (auto simp: start_segment_def split: if_splits)
  show "r \<noteq> Inr () \<Longrightarrow> r = Inl SegmentFullError \<and> m' = m \<and> (\<forall>i. 0 \<le> i \<and> i < sg_n_seg m \<longrightarrow> live_in m U i \<noteq> {})"
    using assms(3) inv(3) none by (auto simp: start_segment_def seg_lists_ok_def split: if_splits)
  show "seg_inv view U (m', s)"
  proof (cases "sg_free m = []")
    case True
    then show ?thesis using assms(1,3) by (simp add: start_segment_def)
  next
    case False
    let ?seg = "last (sg_free m)"
    have m': "m' = m\<lparr>sg_buf_seg := ?seg, sg_free := butlast (sg_free m),
        sg_buf := Some (replicate (nat (sg_sp_bytes m)) 0), sg_buf_fill := 0\<rparr>"
      using False assms(3) by (simp add: start_segment_def)
    obtain ys y where "sg_free m = ys @ [y]" using False by (metis rev_exhaust)
    then have fr: "?seg \<in> set (sg_free m)" "?seg \<notin> set (butlast (sg_free m))"
      "set (sg_free m) = insert ?seg (set (butlast (sg_free m)))" "distinct (butlast (sg_free m))"
      using inv(3) by (simp_all add: seg_lists_ok_def)
    have rng: "0 \<le> ?seg" "?seg < sg_n_seg m" using fr(1) inv(3) by (auto simp: seg_lists_ok_def)
    have empty: "live_in m U ?seg = {}" using fr(1) rng inv(3) none by (auto simp: seg_lists_ok_def)
    have lv: "live_in m' U = live_in m U" by (simp add: m' live_in_def fun_eq_iff)
    have units: "unit_ok m' xs off data" if "U off = Some data" for off data
    proof -
      from unit_okE [OF inv(1) inv(6) [OF that]] obtain seg k where sk:
        "off = seg * sg_sp_bytes m + k * sg_unit_size m" "0 \<le> seg" "seg < sg_n_seg m"
        "0 \<le> k" "k < sg_slots_per_seg m" "int (length data) = sg_unit_size m" "off div sg_sp_bytes m = seg"
        "seg \<noteq> sg_buf_seg m \<Longrightarrow> block_at (nat off) (nat (sg_unit_size m)) xs = data" by metis
      have "seg \<noteq> ?seg" using empty that sk(7) by (auto simp: live_in_def)
      then show ?thesis using sk none unfolding unit_ok_def m'
        by (intro conjI exI [of _ seg] exI [of _ k]) auto
    qed
    have "seg_lists_ok m' U"
      using inv(3) fr none lv empty by (auto simp: seg_lists_ok_def m')
    then show ?thesis using inv units rng by (auto simp: seg_inv_def seg_geom_def seg_buffer_ok_def m')
  qed
qed

text \<open>Writing one slot of a segment-sized buffer.\<close>

lemma buffer_slot:
  assumes "0 < u" and "sp = slots * u" and "0 \<le> k" and "k < slots" and "int (length b) = sp" and "int (length data) = u"
  shows "length (put_block (nat (k * u)) data b) = length b"
    and "block_at (nat (k * u)) (nat u) (put_block (nat (k * u)) data b) = data"
    and "0 \<le> j \<Longrightarrow> j < slots \<Longrightarrow> j \<noteq> k \<Longrightarrow>
      block_at (nat (j * u)) (nat u) (put_block (nat (k * u)) data b) = block_at (nat (j * u)) (nat u) b"
    and "py_slice_set b (k * u) (k * u + u) data = put_block (nat (k * u)) data b"
proof -
  note ar = slot_arith [OF assms(1-4)]
  have fits: "nat (k * u) + length data \<le> length b" using ar(2,3) assms(5,6) by linarith
  have nu: "nat u = length data" using assms(6) by simp
  show "length (put_block (nat (k * u)) data b) = length b" using fits by simp
  show "block_at (nat (k * u)) (nat u) (put_block (nat (k * u)) data b) = data" using fits nu by simp
  show "py_slice_set b (k * u) (k * u + u) data = put_block (nat (k * u)) data b"
    using py_slice_set_block [of "k * u" data b] ar assms(5,6) by simp
  assume j: "0 \<le> j" "j < slots" "j \<noteq> k"
  note arj = slot_arith [OF assms(1,2) j(1,2)]
  have "nat (j * u) + nat u \<le> nat (k * u) \<or> nat (k * u) + length data \<le> nat (j * u)"
    using slots_apart [OF assms(1) j(3)] ar(2) arj(2) assms(1,6) by linarith
  then show "block_at (nat (j * u)) (nat u) (put_block (nat (k * u)) data b) = block_at (nat (j * u)) (nat u) b"
    using fits arj(2,3) assms(1,5) by (intro block_at_put_other) linarith+
qed

text \<open>Placing a unit in a buffer with a free slot: the state afterwards.\<close>

abbreviation fill_offset :: "seg_mgr \<Rightarrow> int" where
  "fill_offset m \<equiv> sg_buf_seg m * sg_sp_bytes m + sg_buf_fill m * sg_unit_size m"

definition with_unit :: "bytes \<Rightarrow> bytes \<Rightarrow> seg_mgr \<Rightarrow> seg_mgr" where
  "with_unit data b m =
     m\<lparr>sg_buf := Some (put_block (nat (sg_buf_fill m * sg_unit_size m)) data b), sg_buf_fill := sg_buf_fill m + 1,
       sg_refcount := (sg_refcount m)[nat (sg_buf_seg m) := sg_refcount m ! nat (sg_buf_seg m) + 1]\<rparr>"

lemma with_unit_simps [simp]:
  "sg_desc (with_unit data b m) = sg_desc m" "sg_sp_bytes (with_unit data b m) = sg_sp_bytes m"
  "sg_unit_size (with_unit data b m) = sg_unit_size m" "sg_slots_per_seg (with_unit data b m) = sg_slots_per_seg m"
  "sg_n_seg (with_unit data b m) = sg_n_seg m" "sg_free (with_unit data b m) = sg_free m"
  "sg_buf_seg (with_unit data b m) = sg_buf_seg m" "sg_buf_fill (with_unit data b m) = sg_buf_fill m + 1"
  by (simp_all add: with_unit_def)

lemma fill_offset_fresh:
  assumes "seg_geom m" and "\<And>off data. U off = Some data \<Longrightarrow> unit_ok m xs off data"
    and "0 \<le> sg_buf_fill m" and "sg_buf_fill m < sg_slots_per_seg m"
  shows "U (fill_offset m) = None" and "fill_offset m div sg_sp_bytes m = sg_buf_seg m"
proof -
  have geo: "0 < sg_unit_size m" "sg_sp_bytes m = sg_slots_per_seg m * sg_unit_size m"
    using assms(1) by (simp_all add: seg_geom_def)
  show dv: "fill_offset m div sg_sp_bytes m = sg_buf_seg m" by (rule slot_arith(1) [OF geo assms(3,4)])
  show "U (fill_offset m) = None"
  proof (rule ccontr)
    assume "U (fill_offset m) \<noteq> None"
    then obtain d where "U (fill_offset m) = Some d" by blast
    from unit_okE [OF assms(1) assms(2) [OF this]] obtain seg k where
      sk: "fill_offset m = seg * sg_sp_bytes m + k * sg_unit_size m" "fill_offset m div sg_sp_bytes m = seg"
      "seg = sg_buf_seg m \<Longrightarrow> k < sg_buf_fill m" by metis
    then have "sg_buf_fill m * sg_unit_size m = k * sg_unit_size m" "k < sg_buf_fill m" using dv by auto
    then show False using geo(1) by simp
  qed
qed

lemma with_unit_lists:
  assumes "seg_geom m" and "seg_lists_ok m U" and "0 \<le> sg_buf_seg m" and "sg_buf_seg m < sg_n_seg m"
    and "U (fill_offset m) = None" and "fill_offset m div sg_sp_bytes m = sg_buf_seg m"
  shows "seg_lists_ok (with_unit data b m) (U(fill_offset m \<mapsto> data))"
proof -
  let ?m = "with_unit data b m" and ?U = "U(fill_offset m \<mapsto> data)" and ?seg = "sg_buf_seg m"
  have lv: "live_in ?m ?U i = (if i = ?seg then insert (fill_offset m) (live_in m U i) else live_in m U i)" for i
    using assms(6) by (auto simp: live_in_def)
  have fin: "finite (live_in m U i)" for i
    using assms(2) by (auto simp: seg_lists_ok_def live_in_def intro: finite_subset [of _ "dom U"])
  have "fill_offset m \<notin> live_in m U ?seg" using assms(5) by (auto simp: live_in_def)
  then have card: "int (card (live_in ?m ?U ?seg)) = int (card (live_in m U ?seg)) + 1" using fin lv by simp
  have "sg_refcount ?m ! nat i = (if i = ?seg then sg_refcount m ! nat ?seg + 1 else sg_refcount m ! nat i)"
    if "0 \<le> i" "i < sg_n_seg m" for i
    using that assms(1,3,4) by (auto simp: seg_geom_def with_unit_def nth_list_update)
  then show ?thesis using assms(2-4) card lv by (simp add: seg_lists_ok_def)
qed

lemma with_unit_unit:
  assumes "seg_geom m" and "seg_buffer_ok m" and "sg_buf m = Some b" and "sg_buf_fill m < sg_slots_per_seg m"
    and "int (length data) = sg_unit_size m" and "unit_ok m xs off d"
  shows "unit_ok (with_unit data b m) xs off d"
proof -
  have geo: "0 < sg_unit_size m" "sg_sp_bytes m = sg_slots_per_seg m * sg_unit_size m"
    using assms(1) by (simp_all add: seg_geom_def)
  have bf: "int (length b) = sg_sp_bytes m" "0 \<le> sg_buf_fill m" using assms(2,3) by (auto simp: seg_buffer_ok_def)
  note slot = buffer_slot [OF geo bf(2) assms(4) bf(1) assms(5)]
  from unit_okE [OF assms(1,6)] obtain seg k where sk:
    "off = seg * sg_sp_bytes m + k * sg_unit_size m" "0 \<le> seg" "seg < sg_n_seg m" "0 \<le> k" "k < sg_slots_per_seg m"
    "int (length d) = sg_unit_size m" "seg = sg_buf_seg m \<Longrightarrow> k < sg_buf_fill m"
    "\<And>b. seg = sg_buf_seg m \<Longrightarrow> sg_buf m = Some b \<Longrightarrow> block_at (nat (k * sg_unit_size m)) (nat (sg_unit_size m)) b = d"
    "seg \<noteq> sg_buf_seg m \<Longrightarrow> block_at (nat off) (nat (sg_unit_size m)) xs = d" by metis
  have "block_at (nat (k * sg_unit_size m)) (nat (sg_unit_size m)) b' = d"
    if "seg = sg_buf_seg m" "sg_buf (with_unit data b m) = Some b'" for b'
    using slot(3) [OF sk(4,5)] sk(7,8) that assms(3) by (auto simp: with_unit_def)
  then show ?thesis using sk unfolding unit_ok_def
    by (intro conjI exI [of _ seg] exI [of _ k]) auto
qed

lemma place_unit_inv:
  assumes "seg_inv view U (m, s)" and "sg_buf m = Some b" and "sg_buf_fill m < sg_slots_per_seg m"
    and "int (length data) = sg_unit_size m"
  shows "place_unit data m = (Inr (fill_offset m), with_unit data b m) \<and> U (fill_offset m) = None \<and>
    seg_inv view (U(fill_offset m \<mapsto> data)) (with_unit data b m, s)"
proof -
  let ?m = "with_unit data b m"
  obtain xs where inv: "seg_geom m" "seg_buffer_ok m" "seg_lists_ok m U"
    "view s (d_chunk_id (sg_desc m)) = Some xs" "int (length xs) = d_user_size (sg_desc m)"
    "\<And>off data. U off = Some data \<Longrightarrow> unit_ok m xs off data"
    using assms(1) by (auto simp: seg_inv_def)
  have bf: "0 \<le> sg_buf_seg m" "sg_buf_seg m < sg_n_seg m" "int (length b) = sg_sp_bytes m" "0 \<le> sg_buf_fill m"
    using inv(2) assms(2) by (auto simp: seg_buffer_ok_def)
  have geo: "0 < sg_unit_size m" "sg_sp_bytes m = sg_slots_per_seg m * sg_unit_size m"
    "int (length (sg_refcount m)) = sg_n_seg m" using inv(1) by (auto simp: seg_geom_def)
  note slot = buffer_slot [OF geo(1,2) bf(4) assms(3) bf(3) assms(4)]
  have fresh: "U (fill_offset m) = None" "fill_offset m div sg_sp_bytes m = sg_buf_seg m"
    using fill_offset_fresh [of m U xs] inv(1,6) bf(4) assms(3) by blast+
  have "place_unit data m = (Inr (fill_offset m), ?m)"
    using assms(2) bf geo slot(4) by (simp add: place_unit_def Let_def py_nth_def py_index_def py_set_def with_unit_def)
  moreover have "unit_ok ?m xs (fill_offset m) data"
    using assms(3,4) bf slot(2) unfolding unit_ok_def
    by (intro conjI exI [of _ "sg_buf_seg m"] exI [of _ "sg_buf_fill m"]) (auto simp: with_unit_def)
  then have "unit_ok ?m xs off d" if "(U(fill_offset m \<mapsto> data)) off = Some d" for off d
    using that with_unit_unit [OF inv(1,2) assms(2-4) inv(6)] by (auto split: if_splits)
  moreover have "seg_buffer_ok ?m" using bf slot(1) assms(3) by (simp add: seg_buffer_ok_def) (simp add: with_unit_def)
  moreover have "seg_geom ?m" using inv(1) by (simp add: seg_geom_def) (simp add: with_unit_def)
  ultimately show ?thesis
    using with_unit_lists [OF inv(1,3) bf(1,2) fresh] inv(4,5) fresh(1) by (simp add: seg_inv_def)
qed

text \<open>The manager after its buffer has been written out.\<close>

definition flushed :: "seg_mgr \<Rightarrow> seg_mgr" where
  "flushed m =
     (let m1 = m\<lparr>sg_buf := None, sg_buf_seg := - 1, sg_buf_fill := 0\<rparr> in
      if sg_refcount m ! nat (sg_buf_seg m) = 0 then m1\<lparr>sg_free := sg_free m1 @ [sg_buf_seg m]\<rparr> else m1)"

lemma flushed_simps [simp]:
  "sg_desc (flushed m) = sg_desc m" "sg_sp_bytes (flushed m) = sg_sp_bytes m"
  "sg_unit_size (flushed m) = sg_unit_size m" "sg_slots_per_seg (flushed m) = sg_slots_per_seg m"
  "sg_n_seg (flushed m) = sg_n_seg m" "sg_refcount (flushed m) = sg_refcount m"
  "sg_buf (flushed m) = None" "sg_buf_seg (flushed m) = - 1" "sg_buf_fill (flushed m) = 0"
  by (simp_all add: flushed_def Let_def)

lemma flushed_lists:
  assumes "seg_lists_ok m U" and "0 \<le> sg_buf_seg m" and "sg_buf_seg m < sg_n_seg m"
  shows "seg_lists_ok (flushed m) U"
proof -
  have lv: "live_in (flushed m) U = live_in m U" by (simp add: live_in_def fun_eq_iff)
  have fin: "finite (live_in m U (sg_buf_seg m))"
    using assms(1) by (auto simp: seg_lists_ok_def live_in_def intro: finite_subset [of _ "dom U"])
  have "sg_refcount m ! nat (sg_buf_seg m) = int (card (live_in m U (sg_buf_seg m)))"
    using assms by (simp add: seg_lists_ok_def)
  then have zero: "sg_refcount m ! nat (sg_buf_seg m) = 0 \<longleftrightarrow> live_in m U (sg_buf_seg m) = {}" using fin by simp
  have fr: "sg_free (flushed m) = (if live_in m U (sg_buf_seg m) = {} then sg_free m @ [sg_buf_seg m] else sg_free m)"
    using zero by (simp add: flushed_def Let_def)
  show ?thesis
  proof (cases "live_in m U (sg_buf_seg m) = {}")
    case True
    then show ?thesis using assms lv fr by (auto simp: seg_lists_ok_def)
  next
    case False
    then show ?thesis using assms lv fr by (auto simp: seg_lists_ok_def)
  qed
qed

text \<open>Every live unit is on disk after the buffer was written over its segment.\<close>

lemma flushed_unit:
  assumes "seg_geom m" and "seg_buffer_ok m" and "sg_buf m = Some b" and "unit_ok m xs off data"
    and "int (length xs) = d_user_size (sg_desc m)"
  shows "unit_ok (flushed m) (put_block (nat (sg_buf_seg m * sg_sp_bytes m)) b xs) off data"
proof -
  let ?sp = "sg_sp_bytes m" and ?u = "sg_unit_size m" and ?seg = "sg_buf_seg m"
  from unit_okE [OF assms(1,4)] obtain seg k where sk:
    "off = seg * ?sp + k * ?u" "0 \<le> seg" "seg < sg_n_seg m" "0 \<le> k" "k < sg_slots_per_seg m"
    "int (length data) = ?u" "seg = ?seg \<Longrightarrow> k < sg_buf_fill m"
    "\<And>b. seg = ?seg \<Longrightarrow> sg_buf m = Some b \<Longrightarrow> block_at (nat (k * ?u)) (nat ?u) b = data"
    "seg \<noteq> ?seg \<Longrightarrow> block_at (nat off) (nat ?u) xs = data" by metis
  have geo: "0 < ?u" "?sp = sg_slots_per_seg m * ?u" "0 < ?sp" "int (length xs) = sg_n_seg m * ?sp"
    using assms(1,5) by (auto simp: seg_geom_def)
  have bf: "0 \<le> ?seg" "?seg < sg_n_seg m" "int (length b) = ?sp" using assms(2,3) by (auto simp: seg_buffer_ok_def)
  note ar = slot_arith [OF geo(1,2) sk(4,5)]
  note sb = segment_bounds [OF bf(1,2) geo(3)] and sb' = segment_bounds [OF sk(2,3) geo(3)]
  have fits: "nat (?seg * ?sp) + length b \<le> length xs" using sb bf(3) geo(4) by linarith
  have "block_at (nat off) (nat ?u) (put_block (nat (?seg * ?sp)) b xs) = data"
  proof (cases "seg = ?seg")
    case True
    have "nat off = nat (?seg * ?sp) + nat (k * ?u)" using True sk(1) sb(1) ar(2) by (simp add: nat_add_distrib)
    moreover have "nat (k * ?u) + nat ?u \<le> length b" using ar(2,3) bf(3) geo(1) by linarith
    ultimately show ?thesis using block_at_put_inner [OF fits] sk(8) [OF True assms(3)] by simp
  next
    case False
    have "nat off + nat ?u \<le> nat (?seg * ?sp) \<or> nat (?seg * ?sp) + length b \<le> nat off"
      using segments_apart [OF geo(3) False ar(2,3)] sk(1) sb(1) sb'(1) ar(2) bf(3) geo(1) by linarith
    moreover have "nat off + nat ?u \<le> length xs" using sk(1) sb' ar(2,3) geo(1,4) by linarith
    ultimately show ?thesis using block_at_put_other [OF fits] sk(9) [OF False] by simp
  qed
  then show ?thesis using sk unfolding unit_ok_def
    by (intro conjI exI [of _ seg] exI [of _ k]) auto
qed

context chunk_store
begin

lemma flush_locked_ok:
  assumes "seg_inv view U (m, s)" and "inv s" and "sg_buf m = Some b"
  shows "\<exists>s'. flush_locked L (m, s) = (Inr (), (flushed m, s')) \<and> inv s' \<and> room s' = room s \<and>
    seg_inv view U (flushed m, s') \<and>
    (\<forall>j. j \<noteq> d_chunk_id (sg_desc m) \<longrightarrow> view s' j = view s j)"
proof -
  let ?p = "sg_buf_seg m * sg_sp_bytes m"
  obtain xs where sv: "seg_geom m" "seg_buffer_ok m" "seg_lists_ok m U"
    "view s (d_chunk_id (sg_desc m)) = Some xs" "int (length xs) = d_user_size (sg_desc m)"
    "\<And>off data. U off = Some data \<Longrightarrow> unit_ok m xs off data"
    using assms(1) by (auto simp: seg_inv_def)
  have bf: "0 \<le> sg_buf_seg m" "sg_buf_seg m < sg_n_seg m" "int (length b) = sg_sp_bytes m"
    using sv(2) assms(3) by (auto simp: seg_buffer_ok_def)
  have geo: "0 < sg_sp_bytes m" "int (length xs) = sg_n_seg m * sg_sp_bytes m" "int (length (sg_refcount m)) = sg_n_seg m"
    using sv(1,5) by (auto simp: seg_geom_def)
  note sb = segment_bounds [OF bf(1,2) geo(1)]
  from write_from_ok [OF assms(2) sv(4) sv(5) [symmetric], of ?p "bytearray_buf b"] sb bf(3) geo(2) seg_geom_pages [OF sv(1)]
  obtain s' where s': "lib_write_from L (sg_desc m) ?p (bytearray_buf b) s = (Inr (int (length b)), s')"
    "inv s'" "room s' = room s" "view s' = (view s)(d_chunk_id (sg_desc m) \<mapsto> put_block (nat ?p) b xs)"
    by (auto simp: bytearray_buf_def)
  have "flush_locked L (m, s) = (Inr (), (flushed m, s'))"
    using s'(1) assms(3) bf geo(3) by (simp add: flush_locked_def flushed_def Let_def py_nth_def py_index_def)
  moreover have "length (put_block (nat ?p) b xs) = length xs" using sb bf(3) geo(2) by (intro length_put_block) linarith
  then have "seg_inv view U (flushed m, s')"
    using sv flushed_lists [OF sv(3) bf(1,2)] flushed_unit [OF sv(1,2) assms(3) sv(6) sv(5)] s'(4)
    by (auto simp: seg_inv_def seg_geom_def seg_buffer_ok_def)
  ultimately show ?thesis using s' by auto
qed

text \<open>
  \<open>append\<close>: the unit gets an offset no live unit has, or the manager is out of segments, each of
  which then holds a live unit. No other chunk of the library changes.
\<close>

lemma seg_append_ok:
  assumes "seg_inv view U (m, s)" and "inv s" and "int (length data) = sg_unit_size m"
    and "seg_append L data (m, s) = (r, (m', s'))"
  shows "inv s' \<and> room s' = room s \<and> sg_desc m' = sg_desc m \<and> sg_unit_size m' = sg_unit_size m \<and>
    (\<forall>j. j \<noteq> d_chunk_id (sg_desc m) \<longrightarrow> view s' j = view s j) \<and>
    (case r of
       Inr off \<Rightarrow> U off = None \<and> seg_inv view (U(off \<mapsto> data)) (m', s') \<and> seg_is_buffered m' off
     | Inl e \<Rightarrow> e = SegmentFullError \<and> seg_inv view U (m', s') \<and>
         (\<forall>i. 0 \<le> i \<and> i < sg_n_seg m' \<longrightarrow> live_in m' U i \<noteq> {}))"
proof -
  have place: "\<exists>off. place_unit data m1 = (Inr off, with_unit data b m1) \<and> U off = None \<and>
      seg_inv view (U(off \<mapsto> data)) (with_unit data b m1, s1) \<and> seg_is_buffered (with_unit data b m1) off"
    if "seg_inv view U (m1, s1)" "sg_buf m1 = Some b" "sg_buf_fill m1 < sg_slots_per_seg m1"
      "sg_unit_size m1 = sg_unit_size m" for m1 s1 b
  proof -
    have "seg_geom m1" "0 \<le> sg_buf_fill m1" using that(1,2) by (auto simp: seg_inv_def seg_buffer_ok_def)
    then have "fill_offset m1 div sg_sp_bytes m1 = sg_buf_seg m1"
      using that(3) by (intro slot_arith(1)) (auto simp: seg_geom_def)
    then show ?thesis using place_unit_inv [OF that(1-3)] that(4) assms(3)
      by (auto simp: seg_is_buffered_def segment_of_def) (simp_all add: with_unit_def)
  qed
  have slots: "0 < sg_slots_per_seg m" using assms(1) by (simp add: seg_inv_def seg_geom_def)
  show ?thesis
  proof (cases "sg_buf m")
    case None
    obtain r1 m1 where st: "start_segment m = (r1, m1)" by fastforce
    note si = start_segment_inv [OF assms(1) None st]
    show ?thesis
    proof (cases "r1 = Inr ()")
      case True
      then obtain b where b: "sg_buf m1 = Some b" "sg_buf_fill m1 = 0" using si(2) by auto
      then show ?thesis using place [OF si(1) b(1)] si(4-6) slots assms(2-4) None st True
        by (auto simp: seg_append_def lift_mgr_def)
    next
      case False
      then show ?thesis using si(1,3) assms(2-4) None st by (auto simp: seg_append_def lift_mgr_def)
    qed
  next
    case (Some b)
    show ?thesis
    proof (cases "sg_buf_fill m = sg_slots_per_seg m")
      case False
      then have "sg_buf_fill m < sg_slots_per_seg m" using assms(1) Some by (auto simp: seg_inv_def seg_buffer_ok_def)
      then show ?thesis using place [OF assms(1) Some] assms(2-4) Some False
        by (auto simp: seg_append_def lift_mgr_def)
    next
      case full: True
      from flush_locked_ok [OF assms(1,2) Some] obtain s1 where
        fl: "flush_locked L (m, s) = (Inr (), (flushed m, s1))" "inv s1" "room s1 = room s"
          "seg_inv view U (flushed m, s1)" "\<forall>j. j \<noteq> d_chunk_id (sg_desc m) \<longrightarrow> view s1 j = view s j" by blast
      obtain r1 m1 where st: "start_segment (flushed m) = (r1, m1)" by fastforce
      note si = start_segment_inv [OF fl(4) _ st]
      show ?thesis
      proof (cases "r1 = Inr ()")
        case True
        then obtain b where b: "sg_buf m1 = Some b" "sg_buf_fill m1 = 0" using si(2) by auto
        then show ?thesis using place [OF si(1) b(1)] si(4-6) slots fl assms(3,4) Some full st True
          by (auto simp: seg_append_def lift_mgr_def)
      next
        case False
        then show ?thesis using si(1,3) fl assms(3,4) Some full st by (auto simp: seg_append_def lift_mgr_def)
      qed
    qed
  qed
qed

lemma seg_flush_ok:
  assumes "seg_inv view U (m, s)" and "inv s"
  shows "\<exists>m' s'. seg_flush L (m, s) = (Inr (), (m', s')) \<and> inv s' \<and> room s' = room s \<and>
    seg_inv view U (m', s') \<and> sg_desc m' = sg_desc m \<and> sg_unit_size m' = sg_unit_size m \<and>
    (\<forall>j. j \<noteq> d_chunk_id (sg_desc m) \<longrightarrow> view s' j = view s j) \<and> buffered_units m' = 0 \<and>
    (\<forall>off \<in> dom U. \<not> seg_is_buffered m' off)"
proof (cases "sg_buf m \<noteq> None \<and> sg_buf_fill m > 0")
  case True
  then obtain b where "sg_buf m = Some b" by blast
  from flush_locked_ok [OF assms this] True show ?thesis
    by (auto simp: seg_flush_def buffered_units_def seg_is_buffered_def)
next
  case False
  have "0 \<le> sg_buf_fill m" using assms(1) by (auto simp: seg_inv_def seg_buffer_ok_def split: option.splits)
  moreover have "sg_buf m = None \<Longrightarrow> sg_buf_fill m = 0"
    using assms(1) by (auto simp: seg_inv_def seg_buffer_ok_def)
  ultimately have zero: "sg_buf_fill m = 0" using False by auto
  have nb: "\<not> seg_is_buffered m off" if "off \<in> dom U" for off
  proof
    assume buf: "seg_is_buffered m off"
    obtain data xs where "U off = Some data" "seg_geom m" "unit_ok m xs off data" "0 \<le> sg_buf_fill m"
      using \<open>off \<in> dom U\<close> assms(1) zero by (auto simp: seg_inv_def)
    then show False using unit_okE [of m xs off data] buf zero
      by (metis seg_is_buffered_def segment_of_def not_less)
  qed
  have "seg_flush L (m, s) = (Inr (), (m, s))" using False by (auto simp: seg_flush_def)
  then show ?thesis using assms zero nb by (intro exI [of _ m] exI [of _ s]) (simp add: buffered_units_def)
qed

end

text \<open>Releasing a live unit succeeds; its segment is freed when it was the last one on disk.\<close>

lemma unit_ok_frame:
  "unit_ok (m\<lparr>sg_refcount := rs\<rparr>) = unit_ok m" "unit_ok (m\<lparr>sg_free := fl\<rparr>) = unit_ok m"
  by (simp_all add: unit_ok_def fun_eq_iff)

lemma seg_buffer_ok_frame:
  "seg_buffer_ok (m\<lparr>sg_refcount := rs\<rparr>) = seg_buffer_ok m" "seg_buffer_ok (m\<lparr>sg_free := fl\<rparr>) = seg_buffer_ok m"
  by (simp_all add: seg_buffer_ok_def split: option.split)

lemma released_lists:
  assumes "seg_geom m" and "seg_lists_ok m U" and "U off = Some data" and "seg = off div sg_sp_bytes m"
    and "0 \<le> seg" and "seg < sg_n_seg m" and "rs = (sg_refcount m)[nat seg := sg_refcount m ! nat seg - 1]"
    and "fl = (if seg \<noteq> sg_buf_seg m \<and> sg_refcount m ! nat seg - 1 = 0 then sg_free m @ [seg] else sg_free m)"
  shows "seg_lists_ok (m\<lparr>sg_refcount := rs, sg_free := fl\<rparr>) (U(off := None))"
proof -
  let ?U = "U(off := None)" and ?m = "m\<lparr>sg_refcount := rs, sg_free := fl\<rparr>"
  have mem: "off \<in> live_in m U seg" using assms(3,4) by (auto simp: live_in_def)
  have fin: "finite (live_in m U i)" for i
    using assms(2) by (auto simp: seg_lists_ok_def live_in_def intro: finite_subset [of _ "dom U"])
  have lv: "live_in ?m ?U i = (if i = seg then live_in m U seg - {off} else live_in m U i)" for i
    using assms(4) by (auto simp: live_in_def)
  have rc: "sg_refcount m ! nat seg = int (card (live_in m U seg))" using assms(2,5,6) by (simp add: seg_lists_ok_def)
  have pos: "0 < card (live_in m U seg)" using mem fin card_gt_0_iff by blast
  have card: "int (card (live_in m U seg - {off})) = int (card (live_in m U seg)) - 1"
    using mem fin pos by (simp add: card_Diff_singleton of_nat_diff)
  have zero: "sg_refcount m ! nat seg - 1 = 0 \<longleftrightarrow> live_in m U seg - {off} = {}"
  proof -
    have "sg_refcount m ! nat seg - 1 = int (card (live_in m U seg - {off}))" using rc card by linarith
    then show ?thesis using fin [of seg] by (simp add: card_eq_0_iff)
  qed
  have rsi: "rs ! nat i = (if i = seg then sg_refcount m ! nat seg - 1 else sg_refcount m ! nat i)"
    if "0 \<le> i" "i < sg_n_seg m" for i
    using that assms(1,5-7) by (auto simp: seg_geom_def nth_list_update)
  have notfree: "seg \<notin> set (sg_free m)" if "seg \<noteq> sg_buf_seg m"
    using assms(2,5,6) mem that by (auto simp: seg_lists_ok_def)
  have "distinct fl" "set fl \<subseteq> {0..<sg_n_seg m}" "sg_buf_seg m \<notin> set fl"
    using assms(2,5,6,8) notfree by (auto simp: seg_lists_ok_def)
  moreover have "rs ! nat i = int (card (live_in ?m ?U i))" if "0 \<le> i" "i < sg_n_seg m" for i
    using that rsi rc card assms(2) unfolding lv by (simp add: seg_lists_ok_def)
  moreover have "i \<in> set fl \<longleftrightarrow> live_in ?m ?U i = {}" if "0 \<le> i" "i < sg_n_seg m" "i \<noteq> sg_buf_seg m" for i
    using that assms(2,8) zero notfree unfolding lv by (auto simp: seg_lists_ok_def)
  moreover have "finite (dom ?U)" using assms(2) by (simp add: seg_lists_ok_def)
  ultimately show ?thesis unfolding seg_lists_ok_def by simp
qed

lemma seg_release_ok:
  assumes "seg_inv view U (m, s)" and "U off = Some data"
  shows "\<exists>m'. seg_release off m = (Inr (), m') \<and> seg_inv view (U(off := None)) (m', s) \<and>
    sg_desc m' = sg_desc m \<and> sg_unit_size m' = sg_unit_size m"
proof -
  obtain xs where sv: "seg_geom m" "seg_buffer_ok m" "seg_lists_ok m U"
    "view s (d_chunk_id (sg_desc m)) = Some xs" "int (length xs) = d_user_size (sg_desc m)"
    "\<And>off data. U off = Some data \<Longrightarrow> unit_ok m xs off data"
    using assms(1) by (auto simp: seg_inv_def)
  define seg where "seg = off div sg_sp_bytes m"
  define rs where "rs = (sg_refcount m)[nat seg := sg_refcount m ! nat seg - 1]"
  define fl where "fl = (if seg \<noteq> sg_buf_seg m \<and> sg_refcount m ! nat seg - 1 = 0 then sg_free m @ [seg] else sg_free m)"
  let ?m = "m\<lparr>sg_refcount := rs, sg_free := fl\<rparr>"
  from unit_okE [OF sv(1) sv(6) [OF assms(2)]] have sg: "0 \<le> seg" "seg < sg_n_seg m" unfolding seg_def by metis+
  have "off \<in> live_in m U seg" using assms(2) by (auto simp: live_in_def seg_def)
  then have "live_in m U seg \<noteq> {}" "finite (live_in m U seg)"
    using sv(3) by (auto simp: seg_lists_ok_def live_in_def intro: finite_subset [of _ "dom U"])
  then have pos: "0 < sg_refcount m ! nat seg" using sv(3) sg by (simp add: seg_lists_ok_def card_gt_0_iff)
  have len: "int (length (sg_refcount m)) = sg_n_seg m" using sv(1) by (simp add: seg_geom_def)
  have "seg_release off m = (Inr (), ?m)"
    using sg pos len
    by (auto simp: seg_release_def Let_def segment_of_def seg_def [symmetric] dec_refcount_def py_nth_nonneg py_set_nonneg rs_def fl_def)
  moreover have "seg_inv view (U(off := None)) (?m, s)"
    using sv released_lists [OF sv(1,3) assms(2) seg_def sg rs_def fl_def]
    by (auto simp: seg_inv_def seg_geom_def seg_buffer_ok_frame unit_ok_frame rs_def)
  ultimately show ?thesis by auto
qed

text \<open>Where a live unit's bytes are.\<close>

lemma seg_read_ok:
  assumes "seg_inv view U (m, s)" and "U off = Some data"
  shows "case read_buffer m off (sg_unit_size m) of
      Some d \<Rightarrow> d = data
    | None \<Rightarrow> \<exists>xs. view s (d_chunk_id (sg_desc m)) = Some xs \<and> int (length xs) = d_user_size (sg_desc m) \<and>
        0 \<le> off \<and> off + sg_unit_size m \<le> int (length xs) \<and> block_at (nat off) (nat (sg_unit_size m)) xs = data"
proof -
  obtain xs where sv: "seg_geom m" "seg_buffer_ok m"
    "view s (d_chunk_id (sg_desc m)) = Some xs" "int (length xs) = d_user_size (sg_desc m)" "unit_ok m xs off data"
    using assms by (auto simp: seg_inv_def)
  let ?sp = "sg_sp_bytes m" and ?u = "sg_unit_size m"
  from unit_okE [OF sv(1,5)] obtain seg k where sk:
    "off = seg * ?sp + k * ?u" "0 \<le> seg" "seg < sg_n_seg m" "0 \<le> k" "k < sg_slots_per_seg m"
    "off div ?sp = seg"
    "\<And>b. seg = sg_buf_seg m \<Longrightarrow> sg_buf m = Some b \<Longrightarrow> block_at (nat (k * ?u)) (nat ?u) b = data"
    "seg \<noteq> sg_buf_seg m \<Longrightarrow> block_at (nat off) (nat ?u) xs = data" by metis
  have geo: "0 < ?u" "?sp = sg_slots_per_seg m * ?u" "0 < ?sp" "int (length xs) = sg_n_seg m * ?sp"
    using sv(1,4) by (auto simp: seg_geom_def)
  note ar = slot_arith [OF geo(1,2) sk(4,5)] and sb = segment_bounds [OF sk(2,3) geo(3)]
  show ?thesis
  proof (cases "seg_is_buffered m off")
    case True
    then obtain b where b: "sg_buf m = Some b" "seg = sg_buf_seg m" using sk(6) by (auto simp: seg_is_buffered_def segment_of_def)
    have "int (length b) = ?sp" using sv(2) b(1) by (simp add: seg_buffer_ok_def)
    then have "py_slice b (k * ?u) (k * ?u + ?u) = block_at (nat (k * ?u)) (nat ?u) b"
      using ar(2,3) geo(1) by (intro py_slice_block) auto
    then show ?thesis using b sk(1,6) sk(7) [OF b(2,1)] by (simp add: read_buffer_def segment_of_def Let_def)
  next
    case False
    then have "read_buffer m off ?u = None"
      by (auto simp: seg_is_buffered_def read_buffer_def split: option.splits)
    moreover have "seg \<noteq> sg_buf_seg m"
      using False sv(2) sk(2,6) by (auto simp: seg_is_buffered_def segment_of_def seg_buffer_ok_def split: option.splits)
    ultimately show ?thesis using sv(3,4) sk(1,8) ar(2,3) sb geo(4) by simp
  qed
qed

subsection \<open>Runs of a writer\<close>

text \<open>
  The states of one manager over a library: units are appended (failing appends included), the
  buffer is flushed, live units are released. \<open>U\<close> is the map of the live units and their bytes.
\<close>

inductive seg_reach ::
  "'s umm_lib \<Rightarrow> seg_mgr \<Rightarrow> 's \<Rightarrow> (int \<rightharpoonup> bytes) \<Rightarrow> seg_mgr \<Rightarrow> 's \<Rightarrow> bool" for L m0 s0 where
  start: "seg_reach L m0 s0 Map.empty m0 s0"
| append_unit: "\<lbrakk>seg_reach L m0 s0 U m s; seg_append L data (m, s) = (Inr off, (m', s'))\<rbrakk> \<Longrightarrow>
    seg_reach L m0 s0 (U(off \<mapsto> data)) m' s'"
| append_fails: "\<lbrakk>seg_reach L m0 s0 U m s; seg_append L data (m, s) = (Inl e, (m', s'))\<rbrakk> \<Longrightarrow>
    seg_reach L m0 s0 U m' s'"
| flush_buffer: "\<lbrakk>seg_reach L m0 s0 U m s; seg_flush L (m, s) = (r', (m', s'))\<rbrakk> \<Longrightarrow> seg_reach L m0 s0 U m' s'"
| release_unit: "\<lbrakk>seg_reach L m0 s0 U m s; off \<in> dom U; seg_release off m = (r', m')\<rbrakk> \<Longrightarrow>
    seg_reach L m0 s0 (U(off := None)) m' s"

context chunk_store
begin

lemma seg_append_bad_length:
  "int (length data) \<noteq> sg_unit_size m \<Longrightarrow> seg_append L data (m, s) = (Inl ValueError, (m, s))"
  by (simp add: seg_append_def)

lemma seg_reach_inv:
  assumes "seg_reach L m0 s0 U m s" and "inv s0" and "seg_inv view Map.empty (m0, s0)"
  shows "inv s \<and> seg_inv view U (m, s)"
  using assms
proof (induction rule: seg_reach.induct)
  case (append_unit U m s data off m' s')
  then have "int (length data) = sg_unit_size m" using seg_append_bad_length [of data m s] by force
  then show ?case using append_unit seg_append_ok [of U m s data "Inr off" m' s']
    by (auto simp del: fun_upd_apply)
next
  case (append_fails U m s data e m' s')
  show ?case
  proof (cases "int (length data) = sg_unit_size m")
    case True
    then show ?thesis using append_fails seg_append_ok [of U m s data "Inl e" m' s'] by simp
  next
    case False
    then show ?thesis using append_fails seg_append_bad_length [of data m s] by simp
  qed
next
  case (flush_buffer U m s r' m' s')
  then show ?case using seg_flush_ok [of U m s] by auto
next
  case (release_unit U m s off r' m')
  then show ?case using seg_release_ok [of view U m s off] by (fastforce simp del: fun_upd_apply)
qed auto

text \<open>A live unit is read from the buffer or, with one library read, from the extent.\<close>

lemma live_unit_readable:
  assumes "seg_inv view U (m, s)" and "inv s" and "U off = Some data"
  shows "case read_buffer m off (sg_unit_size m) of
      Some d \<Rightarrow> d = data
    | None \<Rightarrow> \<exists>s'. lib_read_into L (sg_desc m) off (bytearray_buf (replicate (nat (sg_unit_size m)) 0)) s =
        (Inr (sg_unit_size m), (bytearray_buf data, s')) \<and> inv s' \<and> view s' = view s"
proof (cases "read_buffer m off (sg_unit_size m)")
  case None
  let ?b = "bytearray_buf (replicate (nat (sg_unit_size m)) 0)"
  from seg_read_ok [OF assms(1,3)] None obtain xs where xs: "view s (d_chunk_id (sg_desc m)) = Some xs"
    "int (length xs) = d_user_size (sg_desc m)" "0 \<le> off" "off + sg_unit_size m \<le> int (length xs)"
    "block_at (nat off) (nat (sg_unit_size m)) xs = data" by auto
  have "0 \<le> sg_unit_size m" "4096 dvd sg_unit_size m" using assms(1) by (simp_all add: seg_inv_def seg_geom_def)
  then show ?thesis using None read_into_ok [OF assms(2) xs(1) xs(2) [symmetric] xs(3), of ?b] xs(4,5) live_unit_page [OF assms(1,3)]
    by (auto simp: bytearray_buf_def)
next
  case (Some d)
  then show ?thesis using seg_read_ok [OF assms(1,3)] by simp
qed

end

lemma live_units_apart:
  assumes "seg_inv view U (m, s)" and "off \<in> dom U" and "off' \<in> dom U" and "off < off'"
  shows "off + sg_unit_size m \<le> off'"
proof -
  obtain d d' where "U off = Some d" "U off' = Some d'" using assms(2,3) by blast
  then obtain xs where g: "seg_geom m" and u: "unit_ok m xs off d" "unit_ok m xs off' d'"
    using assms(1) by (fastforce simp: seg_inv_def)
  have "\<exists>j. off = j * sg_unit_size m" if "unit_ok m xs off d" for off d
  proof -
    from unit_okE [OF g \<open>unit_ok m xs off d\<close>] obtain seg k where
      "off = seg * sg_sp_bytes m + k * sg_unit_size m" by metis
    then have "off = (seg * sg_slots_per_seg m + k) * sg_unit_size m" using g by (simp add: seg_geom_def algebra_simps)
    then show ?thesis by blast
  qed
  from this [OF u(1)] this [OF u(2)] obtain j j' where jj: "off = j * sg_unit_size m" "off' = j' * sg_unit_size m" by blast
  have "0 < sg_unit_size m" using g by (simp add: seg_geom_def)
  then show ?thesis using slots_apart [of "sg_unit_size m" j j'] jj assms(4) by auto
qed

subsection \<open>Properties\<close>

text \<open>A concrete extent of two one-unit segments on the in-memory library.\<close>

definition demo_extent :: chunk_desc where
  "demo_extent = ChunkDescriptor 1 0x110000 8192"

definition demo_ssd :: fake_clib where
  "demo_ssd = snd (fk_umm_alloc_on_device 8192 UMM_TIER_SSD 0 (FakeCLib_init 1))"

definition demo_mgr :: seg_mgr where
  "demo_mgr = \<lparr>sg_desc = demo_extent, sg_device_idx = 0, sg_sp_bytes = 4096, sg_unit_size = 4096,
     sg_slots_per_seg = 1, sg_n_seg = 2, sg_free = [1, 0], sg_refcount = [0, 0], sg_buf = None,
     sg_buf_seg = - 1, sg_buf_fill = 0\<rparr>"

lemma demo_mgr_init: "DeviceSegmentManager_init demo_extent 0 4096 4096 = Inr demo_mgr"
  by (simp add: DeviceSegmentManager_init_def check_segment_geometry_def demo_extent_def ChunkDescriptor_def
      demo_mgr_def u64_def upto.simps numeral_eq_Suc)

lemma demo_ssd_facts:
  "fk_chunks demo_ssd (d_chunk_id demo_extent) = Some (replicate 8192 0)"
  "int (length (replicate 8192 (0::byte))) = d_user_size demo_extent" "fk_inv demo_ssd"
proof -
  have "fk_chunks demo_ssd = [1 \<mapsto> replicate 8192 0]" "fk_next_chunk_id demo_ssd = 2"
    by (simp_all add: demo_ssd_def fk_umm_alloc_on_device_def fk_umm_alloc_def FakeCLib_init_def)
  then show "fk_chunks demo_ssd (d_chunk_id demo_extent) = Some (replicate 8192 0)" "fk_inv demo_ssd"
    by (simp_all add: demo_extent_def ChunkDescriptor_def u64_def fk_inv_def)
qed (simp add: demo_extent_def ChunkDescriptor_def u64_def)

lemma demo_seg_inv: "seg_inv fk_chunks Map.empty (demo_mgr, demo_ssd)"
  using demo_mgr_init demo_ssd_facts by (intro seg_inv_init [where xs = "replicate 8192 0"]) auto

text \<open>The manager after one and after two appended units; the second append writes the first out.\<close>

definition demo_unit :: bytes where
  "demo_unit = replicate 4096 7"

definition demo_mgr1 :: seg_mgr where
  "demo_mgr1 = demo_mgr\<lparr>sg_free := [1], sg_refcount := [1, 0], sg_buf := Some demo_unit,
     sg_buf_seg := 0, sg_buf_fill := 1\<rparr>"

definition demo_mgr2 :: seg_mgr where
  "demo_mgr2 = demo_mgr\<lparr>sg_free := [], sg_refcount := [1, 1], sg_buf := Some demo_unit,
     sg_buf_seg := 1, sg_buf_fill := 1\<rparr>"

lemma length_demo_unit [simp]: "length demo_unit = 4096"
  by (simp add: demo_unit_def)

lemma demo_place: "py_slice_set (replicate 4096 0) 0 4096 demo_unit = demo_unit"
  using py_slice_set_prefix [of 4096 "replicate 4096 0" demo_unit] by simp

lemma demo_append1: "seg_append FakeUMMLib demo_unit (demo_mgr, demo_ssd) = (Inr 0, (demo_mgr1, demo_ssd))"
  by (simp add: seg_append_def demo_mgr_def demo_mgr1_def start_segment_def place_unit_def lift_mgr_def
      py_nth_def py_index_def py_set_def demo_place)

lemma demo_seg_inv1: "seg_inv fk_chunks [0 \<mapsto> demo_unit] (demo_mgr1, demo_ssd)"
  using fake_store.seg_append_ok [OF demo_seg_inv demo_ssd_facts(3) _ demo_append1]
  by (simp add: demo_mgr_def del: fun_upd_apply)

lemma demo_append2:
  "\<exists>s. seg_append FakeUMMLib demo_unit (demo_mgr1, demo_ssd) = (Inr 4096, (demo_mgr2, s))"
proof -
  from fake_store.flush_locked_ok [OF demo_seg_inv1 demo_ssd_facts(3), of demo_unit] obtain s where
    "flush_locked FakeUMMLib (demo_mgr1, demo_ssd) = (Inr (), (flushed demo_mgr1, s))"
    by (auto simp: demo_mgr1_def)
  then show ?thesis
    by (simp add: seg_append_def demo_mgr1_def demo_mgr2_def demo_mgr_def flushed_def start_segment_def
        place_unit_def lift_mgr_def py_nth_def py_index_def py_set_def demo_place)
qed

lemma demo_reach2:
  "\<exists>s. seg_reach FakeUMMLib demo_mgr demo_ssd [0 \<mapsto> demo_unit, 4096 \<mapsto> demo_unit] demo_mgr2 s"
  using demo_append2 seg_reach.append_unit [OF seg_reach.append_unit [OF seg_reach.start demo_append1]] by metis

text \<open>
  C30. Over any chunk store, after any sequence of appends, flushes and releases on a freshly
  constructed manager, every live unit still has the bytes it was appended with: they are returned
  from the aggregation buffer, or by one library read at the unit's offset in the extent.
\<close>

theorem live_units_keep_their_bytes:
  assumes "chunk_store L view good room" and "good s0"
    and "view s0 (d_chunk_id desc) = Some xs" and "int (length xs) = d_user_size desc"
    and "DeviceSegmentManager_init desc dev sp unit_sz = Inr m0"
    and "seg_reach L m0 s0 U m s" and "U off = Some data"
  shows "case read_buffer m off (sg_unit_size m) of
      Some d \<Rightarrow> d = data
    | None \<Rightarrow> \<exists>s'. lib_read_into L (sg_desc m) off (bytearray_buf (replicate (nat (sg_unit_size m)) 0)) s =
        (Inr (sg_unit_size m), (bytearray_buf data, s'))"
proof -
  have "seg_inv view Map.empty (m0, s0)" using assms(3-5) by (intro seg_inv_init [where xs = xs]) auto
  from chunk_store.seg_reach_inv [OF assms(1,6,2) this]
  have "good s" "seg_inv view U (m, s)" by auto
  from chunk_store.live_unit_readable [OF assms(1) this(2,1) assms(7)]
  show ?thesis by (auto split: option.splits)
qed

theorem live_units_keep_their_bytes_witness:
  "\<exists>s s'. seg_reach FakeUMMLib demo_mgr demo_ssd [0 \<mapsto> demo_unit, 4096 \<mapsto> demo_unit] demo_mgr2 s \<and>
     read_buffer demo_mgr2 0 4096 = None \<and>
     lib_read_into FakeUMMLib demo_extent 0 (bytearray_buf (replicate 4096 0)) s =
       (Inr 4096, (bytearray_buf demo_unit, s'))"
proof -
  obtain s where r: "seg_reach FakeUMMLib demo_mgr demo_ssd [0 \<mapsto> demo_unit, 4096 \<mapsto> demo_unit] demo_mgr2 s"
    using demo_reach2 by blast
  have "read_buffer demo_mgr2 0 4096 = None"
    by (simp add: read_buffer_def demo_mgr2_def demo_mgr_def segment_of_def)
  with live_units_keep_their_bytes [OF fake_store.chunk_store_axioms demo_ssd_facts(3,1,2) demo_mgr_init r,
      of 0 demo_unit] r
  show ?thesis by (auto simp: demo_mgr2_def demo_mgr_def)
qed

text \<open>
  The offsets of live units never overlap: each unit occupies its own slot of the extent.
\<close>

theorem live_units_disjoint:
  assumes "chunk_store L view good room" and "good s0"
    and "view s0 (d_chunk_id desc) = Some xs" and "int (length xs) = d_user_size desc"
    and "DeviceSegmentManager_init desc dev sp unit_sz = Inr m0"
    and "seg_reach L m0 s0 U m s" and "off \<in> dom U" and "off' \<in> dom U" and "off \<noteq> off'"
  shows "off + sg_unit_size m \<le> off' \<or> off' + sg_unit_size m \<le> off"
proof -
  have "seg_inv view Map.empty (m0, s0)" using assms(3-5) by (intro seg_inv_init [where xs = xs]) auto
  from chunk_store.seg_reach_inv [OF assms(1,6,2) this]
  have "seg_inv view U (m, s)" by blast
  from live_units_apart [OF this assms(7,8)] live_units_apart [OF this assms(8,7)] assms(9)
  show ?thesis by (meson linorder_neqE_linordered_idom)
qed

theorem live_units_disjoint_witness: "(0::int) + sg_unit_size demo_mgr2 \<le> 4096"
proof -
  obtain s where r: "seg_reach FakeUMMLib demo_mgr demo_ssd [0 \<mapsto> demo_unit, 4096 \<mapsto> demo_unit] demo_mgr2 s"
    using demo_reach2 by blast
  from live_units_disjoint [OF fake_store.chunk_store_axioms demo_ssd_facts(3,1,2) demo_mgr_init r, of 0 4096]
  show ?thesis by (auto simp: demo_mgr2_def demo_mgr_def)
qed

text \<open>
  C31. No segment leaks: an append of a correctly sized unit can only raise \<open>SegmentFullError\<close>, and
  then every segment of the extent holds a live unit.
\<close>

theorem append_fails_only_when_full:
  assumes "chunk_store L view good room" and "good s0"
    and "view s0 (d_chunk_id desc) = Some xs" and "int (length xs) = d_user_size desc"
    and "DeviceSegmentManager_init desc dev sp unit_sz = Inr m0"
    and "seg_reach L m0 s0 U m s" and "int (length data) = sg_unit_size m"
    and "seg_append L data (m, s) = (Inl e, (m', s'))"
  shows "e = SegmentFullError \<and>
    (\<forall>i. 0 \<le> i \<and> i < sg_n_seg m' \<longrightarrow> (\<exists>off \<in> dom U. segment_of m' off = i))"
proof -
  have "seg_inv view Map.empty (m0, s0)" using assms(3-5) by (intro seg_inv_init [where xs = xs]) auto
  from chunk_store.seg_reach_inv [OF assms(1,6,2) this]
  have "good s" "seg_inv view U (m, s)" by auto
  from chunk_store.seg_append_ok [OF assms(1) this(2,1) assms(7,8)]
  have e: "e = SegmentFullError" "\<And>i. 0 \<le> i \<Longrightarrow> i < sg_n_seg m' \<Longrightarrow> live_in m' U i \<noteq> {}" by auto
  have "\<exists>off \<in> dom U. segment_of m' off = i" if "0 \<le> i" "i < sg_n_seg m'" for i
    using e(2) [OF that] unfolding live_in_def segment_of_def by blast
  then show ?thesis using e(1) by blast
qed

theorem append_fails_only_when_full_witness:
  "\<exists>s m' s'. seg_append FakeUMMLib demo_unit (demo_mgr2, s) = (Inl SegmentFullError, (m', s')) \<and>
     (\<exists>off \<in> {0, 4096}. segment_of m' off = 1)"
proof -
  obtain s where r: "seg_reach FakeUMMLib demo_mgr demo_ssd [0 \<mapsto> demo_unit, 4096 \<mapsto> demo_unit] demo_mgr2 s"
    using demo_reach2 by blast
  have i: "fk_inv s \<and> seg_inv fk_chunks [0 \<mapsto> demo_unit, 4096 \<mapsto> demo_unit] (demo_mgr2, s)"
    using fake_store.seg_reach_inv [OF r demo_ssd_facts(3) demo_seg_inv] .
  have "sg_buf demo_mgr2 = Some demo_unit" by (simp add: demo_mgr2_def)
  with fake_store.flush_locked_ok [of _ demo_mgr2 s demo_unit] i obtain s1 where
    fl: "flush_locked FakeUMMLib (demo_mgr2, s) = (Inr (), (flushed demo_mgr2, s1))" by blast
  have a: "seg_append FakeUMMLib demo_unit (demo_mgr2, s) = (Inl SegmentFullError, (flushed demo_mgr2, s1))"
    using fl by (simp add: seg_append_def start_segment_def lift_mgr_def) (simp add: demo_mgr2_def demo_mgr_def flushed_def)
  have len: "int (length demo_unit) = sg_unit_size demo_mgr2" by (simp add: demo_mgr2_def demo_mgr_def)
  from append_fails_only_when_full [OF fake_store.chunk_store_axioms demo_ssd_facts(3,1,2) demo_mgr_init r len a]
  have "\<exists>off \<in> {0, 4096}. segment_of (flushed demo_mgr2) off = 1"
    by (auto simp: demo_mgr2_def demo_mgr_def dest!: spec [of _ 1])
  then show ?thesis using a by blast
qed

text \<open>
  Releasing when the segment has no live unit: on disk the manager detects it and raises,
  changing nothing; in the buffered segment it does not, and the reference count becomes negative.
\<close>

theorem stray_release:
  assumes "seg_inv view U (m, s)" and "0 \<le> off" and "off < d_user_size (sg_desc m)"
    and "\<forall>off' \<in> dom U. segment_of m off' \<noteq> segment_of m off"
  shows "if segment_of m off = sg_buf_seg m
    then \<exists>m'. seg_release off m = (Inr (), m') \<and> sg_refcount m' ! nat (segment_of m off) = - 1
    else seg_release off m = (Inl RuntimeError, m)"
proof -
  let ?seg = "segment_of m off"
  have g: "seg_geom m" and l: "seg_lists_ok m U" using assms(1) by (auto simp: seg_inv_def)
  have sp: "0 < sg_sp_bytes m" by (rule seg_geom_sp [OF g])
  have "?seg * sg_sp_bytes m \<le> off" using sp by (simp add: segment_of_def minus_mod_eq_div_mult [symmetric])
  moreover have "d_user_size (sg_desc m) = sg_n_seg m * sg_sp_bytes m" using g by (simp add: seg_geom_def)
  ultimately have "?seg * sg_sp_bytes m < sg_n_seg m * sg_sp_bytes m" using assms(3) by linarith
  then have seg: "0 \<le> ?seg" "?seg < sg_n_seg m"
    using assms(2) sp by (auto simp: segment_of_def pos_imp_zdiv_nonneg_iff)
  have "live_in m U ?seg = {}" using assms(4) by (auto simp: live_in_def segment_of_def)
  then have "sg_refcount m ! nat ?seg = 0" using l seg by (simp add: seg_lists_ok_def)
  moreover have "int (length (sg_refcount m)) = sg_n_seg m" using g by (simp add: seg_geom_def)
  ultimately show ?thesis using seg
    by (auto simp: seg_release_def Let_def dec_refcount_def py_nth_nonneg py_set_nonneg)
qed

theorem stray_release_witness:
  "\<exists>m. seg_release 0 (snd (seg_release 0 demo_mgr1)) = (Inr (), m) \<and> sg_refcount m ! 0 = - 1"
proof -
  have r: "seg_release 0 demo_mgr1 = (Inr (), demo_mgr1\<lparr>sg_refcount := [0, 0]\<rparr>)"
    by (simp add: seg_release_def demo_mgr1_def demo_mgr_def segment_of_def dec_refcount_def py_nth_def py_index_def py_set_def)
  have "seg_inv fk_chunks Map.empty (demo_mgr1\<lparr>sg_refcount := [0, 0]\<rparr>, demo_ssd)"
    using seg_release_ok [OF demo_seg_inv1, of 0 demo_unit] r by simp
  from stray_release [OF this, of 0] show ?thesis
    using r by (simp add: demo_mgr1_def demo_mgr_def segment_of_def demo_extent_def ChunkDescriptor_def u64_def)
qed

end
