(* ===== verification/ConcurrentIO.thy ===== *)
theory ConcurrentIO
  imports Allocator
begin

section \<open>ConcurrentIOEngine (concurrent\_io.py)\<close>

text \<open>
  The engine splits a batch of requests into groups, one task per executor queue, and reports
  results through an \<open>IOHandle\<close>. Modelled as functions: addresses, the handle, the constructor,
  sharding, the execution of one request and of a group. Modelled as a step relation (\<open>io_step\<close>):
  submitting threads that take one permit per request before any group is dispatched, the queues,
  the workers that execute a group one request at a time, the publication of its results, and
  \<open>close\<close>. Buffers live in a store addressed by number, so two requests may share one; views are
  byte-format memoryviews. Time-outs are modelled in \<open>WaitHandles\<close>, the identity of exceptions is not.
\<close>

subsection \<open>Addresses and requests\<close>

record io_address =
  ia_chunk_id :: int
  ia_base_gpa :: int
  ia_offset :: int
  ia_length :: int
  ia_user_size :: int

definition from_descriptor :: "chunk_desc \<Rightarrow> int \<Rightarrow> int \<Rightarrow> io_address" where
  "from_descriptor d off len = \<lparr>ia_chunk_id = d_chunk_id d, ia_base_gpa = d_base_gpa d,
     ia_offset = off, ia_length = len, ia_user_size = d_user_size d\<rparr>"

definition from_block :: "block \<Rightarrow> int \<Rightarrow> int option \<Rightarrow> io_address" where
  "from_block b off len = \<lparr>ia_chunk_id = b_chunk_id b, ia_base_gpa = b_gpa b,
     ia_offset = b_offset b + off,
     ia_length = (case len of None \<Rightarrow> b_size b - off | Some n \<Rightarrow> n), ia_user_size = b_chunk_size b\<rparr>"

record io_request =
  rq_address :: io_address
  rq_buffer :: nat

type_synonym mem = "nat \<Rightarrow> pybuf"
type_synonym io_item = "nat \<times> io_request \<times> bool"

subsection \<open>IOHandle\<close>

record io_handle =
  h_results :: "int result option list"
  h_remaining :: int
  h_callbacks :: "nat list"

definition IOHandle :: "io_request list \<Rightarrow> io_handle" where
  "IOHandle reqs = \<lparr>h_results = replicate (length reqs) None, h_remaining = int (length reqs), h_callbacks = []\<rparr>"

text \<open>\<open>_set_many\<close> yields the callbacks to run: those registered, when the last result arrived.\<close>

definition set_many :: "(nat \<times> int result) list \<Rightarrow> io_handle \<Rightarrow> nat list \<times> io_handle" where
  "set_many pairs h =
     (let h' = h\<lparr>h_results := foldl (\<lambda>rs (i, v). rs[i := Some v]) (h_results h) pairs,
                h_remaining := h_remaining h - int (length pairs)\<rparr>
      in if h_remaining h' > 0 then ([], h') else (h_callbacks h', h'))"

definition set_result :: "nat \<Rightarrow> int result \<Rightarrow> io_handle \<Rightarrow> nat list \<times> io_handle" where
  "set_result i v h = set_many [(i, v)] h"

definition handle_done :: "io_handle \<Rightarrow> bool" where
  "handle_done h \<longleftrightarrow> h_remaining h = 0"

fun first_failure :: "int result option list \<Rightarrow> py_error option" where
  "first_failure [] = None"
| "first_failure (r # rs) = (case r of Some (Inl e) \<Rightarrow> Some e | _ \<Rightarrow> first_failure rs)"

text \<open>
  \<open>result\<close>, \<open>results\<close> and \<open>exception\<close> after \<open>wait\<close>: waiting on an unfinished handle either blocks
  or times out; only the time-out returns.
\<close>

definition handle_result :: "io_handle \<Rightarrow> int option list result" where
  "handle_result h =
     (if h_remaining h > 0 then Inl TimeoutError
      else case first_failure (h_results h) of
        Some e \<Rightarrow> Inl e
      | None \<Rightarrow> Inr (map (\<lambda>r. case r of Some (Inr n) \<Rightarrow> Some n | _ \<Rightarrow> None) (h_results h)))"

definition handle_results :: "io_handle \<Rightarrow> int result option list result" where
  "handle_results h = (if h_remaining h > 0 then Inl TimeoutError else Inr (h_results h))"

definition handle_exception :: "io_handle \<Rightarrow> py_error option result" where
  "handle_exception h = (if h_remaining h > 0 then Inl TimeoutError else Inr (first_failure (h_results h)))"

text \<open>The boolean says that the callback runs at once.\<close>

definition add_done_callback :: "nat \<Rightarrow> io_handle \<Rightarrow> bool \<times> io_handle" where
  "add_done_callback fn h =
     (if h_remaining h > 0 then (False, h\<lparr>h_callbacks := h_callbacks h @ [fn]\<rparr>) else (True, h))"

subsection \<open>The engine\<close>

record engine =
  en_num_workers :: int
  en_num_queues :: int
  en_max_inflight :: "int option"
  en_permits :: int
  en_closed :: bool
  en_submitted :: int
  en_completed :: int
  en_failed :: int
  en_inflight :: int

definition ConcurrentIOEngine_init :: "int \<Rightarrow> int \<Rightarrow> int option \<Rightarrow> engine result" where
  "ConcurrentIOEngine_init num_workers num_queues max_inflight =
     (if num_workers < 1 then Inl ValueError
      else if num_queues < 1 then Inl ValueError
      else if (case max_inflight of None \<Rightarrow> False | Some n \<Rightarrow> n < 1) then Inl ValueError
      else Inr \<lparr>en_num_workers = num_workers, en_num_queues = num_queues,
        en_max_inflight = max_inflight,
        en_permits = (case max_inflight of None \<Rightarrow> 0 | Some n \<Rightarrow> n),
        en_closed = False, en_submitted = 0, en_completed = 0, en_failed = 0, en_inflight = 0\<rparr>)"

definition engine_stats :: "engine \<Rightarrow> int \<times> int \<times> int \<times> int" where
  "engine_stats e = (en_submitted e, en_completed e, en_failed e, en_inflight e)"

definition num_executors :: "engine \<Rightarrow> nat" where
  "num_executors e = (if en_num_queues e > 1 then nat (en_num_queues e) else 1)"

definition workers_per_executor :: "engine \<Rightarrow> nat" where
  "workers_per_executor e = (if en_num_queues e > 1 then 1 else nat (en_num_workers e))"

text \<open>The sharding key of the request at position \<open>idx\<close> and the executor a key goes to.\<close>

definition shard_key :: "engine \<Rightarrow> nat \<Rightarrow> io_request \<Rightarrow> int" where
  "shard_key e idx req =
     (if en_num_queues e > 1 then ia_chunk_id (rq_address req) mod en_num_queues e
      else int idx mod en_num_workers e)"

definition executor_for_key :: "engine \<Rightarrow> int \<Rightarrow> nat" where
  "executor_for_key e key = (if en_num_queues e > 1 then nat (key mod int (num_executors e)) else 0)"

definition executor_for :: "engine \<Rightarrow> int \<Rightarrow> nat" where
  "executor_for e chunk_id = (if en_num_queues e > 1 then nat (chunk_id mod en_num_queues e) else 0)"

text \<open>\<open>group_of\<close> and \<open>groups\<close>: the groups in the order their keys first occur.\<close>

type_synonym io_groups = "(int \<times> io_item list) list"

definition add_to_group :: "int \<Rightarrow> io_item \<Rightarrow> io_groups \<Rightarrow> io_groups" where
  "add_to_group key item gs =
     (case map_of gs key of None \<Rightarrow> gs @ [(key, [item])] | Some g \<Rightarrow> dict_set key (g @ [item]) gs)"

definition submit_read_items :: "io_request list \<Rightarrow> (io_request \<times> bool) list" where
  "submit_read_items reqs = map (\<lambda>r. (r, True)) reqs"

definition submit_write_items :: "io_request list \<Rightarrow> (io_request \<times> bool) list" where
  "submit_write_items reqs = map (\<lambda>r. (r, False)) reqs"

definition submit_mixed_items :: "io_request list \<Rightarrow> io_request list \<Rightarrow> (io_request \<times> bool) list" where
  "submit_mixed_items reads writes = map (\<lambda>r. (r, True)) reads @ map (\<lambda>r. (r, False)) writes"

fun group_items :: "engine \<Rightarrow> nat \<Rightarrow> (io_request \<times> bool) list \<Rightarrow> io_groups \<Rightarrow> io_groups" where
  "group_items e idx [] gs = gs"
| "group_items e idx ((req, is_read) # items) gs =
     group_items e (Suc idx) items (add_to_group (shard_key e idx req) (idx, req, is_read) gs)"

subsection \<open>Executing requests\<close>

definition execute_one ::
  "'s umm_lib \<Rightarrow> io_request \<Rightarrow> bool \<Rightarrow> mem \<times> 's \<Rightarrow> (int, mem \<times> 's) outcome" where
  "execute_one L req is_read ms =
     (let (bs, s) = ms; a = rq_address req; b = bs (rq_buffer req); n = nat (ia_length a) in
      if ia_offset a < 0 then (Inl ValueError, (bs, s))
      else if ia_length a < 0 then (Inl ValueError, (bs, s))
      else if nbytes b < ia_length a then (Inl ValueError, (bs, s))
      else if ia_length a = 0 then (Inr 0, (bs, s))
      else
        (let v = b\<lparr>buf_data := take n (buf_data b)\<rparr>;
             d = ChunkDescriptor (ia_chunk_id a) (ia_base_gpa a) (ia_user_size a)
         in if is_read then
              (case lib_read_into L d (ia_offset a) v s of
                 (r, (v', s')) \<Rightarrow>
                   (r, (bs(rq_buffer req := b\<lparr>buf_data := buf_data v' @ drop n (buf_data b)\<rparr>), s')))
            else
              (case lib_write_from L d (ia_offset a) v s of (r, s') \<Rightarrow> (r, (bs, s')))))"

text \<open>The loop of \<open>_run_group\<close>: an exception of one request does not stop the others.\<close>

fun run_group :: "'s umm_lib \<Rightarrow> io_item list \<Rightarrow> mem \<times> 's \<Rightarrow> (nat \<times> int result) list \<times> (mem \<times> 's)" where
  "run_group L [] ms = ([], ms)"
| "run_group L ((idx, req, is_read) # g) ms =
     (let (r, ms1) = execute_one L req is_read ms; (rs, ms2) = run_group L g ms1 in ((idx, r) # rs, ms2))"

definition n_failed :: "(nat \<times> int result) list \<Rightarrow> int" where
  "n_failed rs = int (length (filter (\<lambda>(i, r). case r of Inl _ \<Rightarrow> True | Inr _ \<Rightarrow> False) rs))"

subsection \<open>The concurrent system\<close>

text \<open>
  Submitter \<open>i\<close> works on handle \<open>i\<close>. A task in a queue is a handle number with a group. \<open>y_sent\<close>
  and \<open>y_done\<close> are history: the requests handed to each executor and those executed on it, as
  (handle, position in its batch, chunk).
\<close>

datatype sub_phase =
    Acquiring nat "(io_request \<times> bool) list" io_groups
  | Dispatching io_groups
  | Returned

datatype run_phase = Executing | Publishing | Finished

record run =
  ru_exec :: nat
  ru_handle :: nat
  ru_results :: "(nat \<times> int result) list"
  ru_rest :: "io_item list"
  ru_phase :: run_phase

type_synonym io_log = "(nat \<times> nat \<times> int) list"

record 's io_sys =
  y_eng :: engine
  y_handles :: "io_handle list"
  y_subs :: "sub_phase list"
  y_queues :: "(nat \<times> io_item list) list list"
  y_shutdown :: "nat \<Rightarrow> bool"
  y_runs :: "run list"
  y_mem :: "mem \<times> 's"
  y_sent :: "nat \<Rightarrow> io_log"
  y_done :: "nat \<Rightarrow> io_log"

definition log_items :: "nat \<Rightarrow> io_item list \<Rightarrow> io_log" where
  "log_items h g = map (\<lambda>(idx, req, rd). (h, idx, ia_chunk_id (rq_address req))) g"

definition active_on :: "nat \<Rightarrow> run \<Rightarrow> bool" where
  "active_on q r \<longleftrightarrow> ru_exec r = q \<and> ru_phase r \<noteq> Finished"

definition take_permit :: "engine \<Rightarrow> engine" where
  "take_permit e = e\<lparr>en_permits := (if en_max_inflight e = None then en_permits e else en_permits e - 1),
     en_submitted := en_submitted e + 1, en_inflight := en_inflight e + 1\<rparr>"

definition release_permits :: "nat \<Rightarrow> engine \<Rightarrow> engine" where
  "release_permits n e =
     (if en_max_inflight e = None then e else e\<lparr>en_permits := en_permits e + int n\<rparr>)"

text \<open>The group could not be scheduled: every request of it fails and is no longer counted.\<close>

definition drop_group :: "nat \<Rightarrow> engine \<Rightarrow> engine" where
  "drop_group n e = (release_permits n e)\<lparr>en_submitted := en_submitted e - int n,
     en_inflight := en_inflight e - int n\<rparr>"

definition fail_group :: "io_item list \<Rightarrow> io_handle \<Rightarrow> io_handle" where
  "fail_group g h = foldl (\<lambda>h (idx, req, rd). snd (set_result idx (Inl RuntimeError) h)) h g"

definition count_group :: "run \<Rightarrow> engine \<Rightarrow> engine" where
  "count_group r e =
     (let f = n_failed (ru_results r); n = int (length (ru_results r)) in
      e\<lparr>en_completed := en_completed e + (n - f), en_failed := en_failed e + f,
        en_inflight := en_inflight e - n\<rparr>)"

inductive io_step :: "'s umm_lib \<Rightarrow> 's io_sys \<Rightarrow> 's io_sys \<Rightarrow> bool" for L where
  submit: "\<not> en_closed (y_eng y) \<Longrightarrow>
    io_step L y (y\<lparr>y_handles := y_handles y @ [IOHandle (map fst items)],
      y_subs := y_subs y @ [Acquiring 0 items []]\<rparr>)"
| acquire: "\<lbrakk>i < length (y_subs y); y_subs y ! i = Acquiring k ((req, rd) # items) gs;
     en_max_inflight (y_eng y) = None \<or> en_permits (y_eng y) > 0\<rbrakk> \<Longrightarrow>
    io_step L y (y\<lparr>y_eng := take_permit (y_eng y),
      y_subs := (y_subs y)[i := Acquiring (Suc k) items
        (add_to_group (shard_key (y_eng y) k req) (k, req, rd) gs)]\<rparr>)"
| acquired: "\<lbrakk>i < length (y_subs y); y_subs y ! i = Acquiring k [] gs\<rbrakk> \<Longrightarrow>
    io_step L y (y\<lparr>y_subs := (y_subs y)[i := Dispatching gs]\<rparr>)"
| dispatch: "\<lbrakk>i < length (y_subs y); y_subs y ! i = Dispatching ((key, g) # gs);
     q = executor_for_key (y_eng y) key; \<not> y_shutdown y q\<rbrakk> \<Longrightarrow>
    io_step L y (y\<lparr>y_subs := (y_subs y)[i := Dispatching gs],
      y_queues := (y_queues y)[q := y_queues y ! q @ [(i, g)]],
      y_sent := (y_sent y)(q := y_sent y q @ log_items i g)\<rparr>)"
| dispatch_fails: "\<lbrakk>i < length (y_subs y); y_subs y ! i = Dispatching ((key, g) # gs);
     q = executor_for_key (y_eng y) key; y_shutdown y q\<rbrakk> \<Longrightarrow>
    io_step L y (y\<lparr>y_subs := (y_subs y)[i := Dispatching gs],
      y_eng := drop_group (length g) (y_eng y),
      y_handles := (y_handles y)[i := fail_group g (y_handles y ! i)]\<rparr>)"
| return: "\<lbrakk>i < length (y_subs y); y_subs y ! i = Dispatching []\<rbrakk> \<Longrightarrow>
    io_step L y (y\<lparr>y_subs := (y_subs y)[i := Returned]\<rparr>)"
| begin_task: "\<lbrakk>q < length (y_queues y); y_queues y ! q = (h, g) # ts;
     length (filter (active_on q) (y_runs y)) < workers_per_executor (y_eng y)\<rbrakk> \<Longrightarrow>
    io_step L y (y\<lparr>y_queues := (y_queues y)[q := ts],
      y_runs := y_runs y @ [\<lparr>ru_exec = q, ru_handle = h, ru_results = [], ru_rest = g, ru_phase = Executing\<rparr>]\<rparr>)"
| execute: "\<lbrakk>j < length (y_runs y); y_runs y ! j = r; ru_phase r = Executing; ru_rest r = (idx, req, rd) # g;
     execute_one L req rd (y_mem y) = (v, ms)\<rbrakk> \<Longrightarrow>
    io_step L y (y\<lparr>y_runs := (y_runs y)[j := r\<lparr>ru_results := ru_results r @ [(idx, v)], ru_rest := g\<rparr>],
      y_mem := ms,
      y_done := (y_done y)(ru_exec r := y_done y (ru_exec r) @ log_items (ru_handle r) [(idx, req, rd)])\<rparr>)"
| finish: "\<lbrakk>j < length (y_runs y); y_runs y ! j = r; ru_phase r = Executing; ru_rest r = []\<rbrakk> \<Longrightarrow>
    io_step L y (y\<lparr>y_runs := (y_runs y)[j := r\<lparr>ru_phase := Publishing\<rparr>],
      y_eng := count_group r (y_eng y)\<rparr>)"
| publish: "\<lbrakk>j < length (y_runs y); y_runs y ! j = r; ru_phase r = Publishing\<rbrakk> \<Longrightarrow>
    io_step L y (y\<lparr>y_runs := (y_runs y)[j := r\<lparr>ru_phase := Finished\<rparr>],
      y_eng := release_permits (length (ru_results r)) (y_eng y),
      y_handles := (y_handles y)[ru_handle r := snd (set_many (ru_results r) (y_handles y ! ru_handle r))]\<rparr>)"
| close: "\<not> en_closed (y_eng y) \<Longrightarrow> io_step L y (y\<lparr>y_eng := (y_eng y)\<lparr>en_closed := True\<rparr>\<rparr>)"
| shutdown: "\<lbrakk>en_closed (y_eng y); \<not> y_shutdown y q\<rbrakk> \<Longrightarrow>
    io_step L y (y\<lparr>y_shutdown := (y_shutdown y)(q := True)\<rparr>)"

definition io_start :: "engine \<Rightarrow> mem \<times> 's \<Rightarrow> 's io_sys" where
  "io_start e ms = \<lparr>y_eng = e, y_handles = [], y_subs = [], y_queues = replicate (num_executors e) [],
     y_shutdown = (\<lambda>_. False), y_runs = [], y_mem = ms, y_sent = (\<lambda>_. []), y_done = (\<lambda>_. [])\<rparr>"

inductive io_reach :: "'s umm_lib \<Rightarrow> 's io_sys \<Rightarrow> 's io_sys \<Rightarrow> bool" for L y0 where
  init: "io_reach L y0 y0"
| next_step: "io_reach L y0 y \<Longrightarrow> io_step L y y' \<Longrightarrow> io_reach L y0 y'"

subsection \<open>Counting\<close>

definition groups_size :: "io_groups \<Rightarrow> int" where
  "groups_size gs = sum_list (map (\<lambda>(k, g). int (length g)) gs)"

fun held :: "sub_phase \<Rightarrow> int" where
  "held (Acquiring k items gs) = groups_size gs"
| "held (Dispatching gs) = groups_size gs"
| "held Returned = 0"

definition queue_size :: "(nat \<times> io_item list) list \<Rightarrow> int" where
  "queue_size ts = sum_list (map (\<lambda>(h, g). int (length g)) ts)"

definition executing :: "run \<Rightarrow> int" where
  "executing r = (if ru_phase r = Executing then int (length (ru_results r) + length (ru_rest r)) else 0)"

definition publishing :: "run \<Rightarrow> int" where
  "publishing r = (if ru_phase r = Publishing then int (length (ru_results r)) else 0)"

lemma sum_list_update_int:
  "i < length xs \<Longrightarrow> sum_list (map f (xs[i := x])) = sum_list (map f xs) - (f (xs ! i) :: int) + f x"
  by (induction xs arbitrary: i) (auto split: nat.splits)

lemma groups_size_simps [simp]:
  "groups_size [] = 0" "groups_size ((k, g) # gs) = int (length g) + groups_size gs"
  by (simp_all add: groups_size_def)

lemma groups_size_dict_set:
  "map_of gs key = Some g \<Longrightarrow> groups_size (dict_set key g' gs) = groups_size gs - int (length g) + int (length g')"
  by (induction gs) (auto split: if_splits)

lemma groups_size_add: "groups_size (add_to_group key item gs) = groups_size gs + 1"
proof (cases "map_of gs key")
  case None
  then show ?thesis by (simp add: add_to_group_def groups_size_def)
next
  case (Some g)
  then show ?thesis using groups_size_dict_set [OF Some, of "g @ [item]"] by (simp add: add_to_group_def)
qed

lemma permits_simps [simp]:
  "en_max_inflight (take_permit e) = en_max_inflight e" "en_submitted (take_permit e) = en_submitted e + 1"
  "en_inflight (take_permit e) = en_inflight e + 1" "en_completed (take_permit e) = en_completed e"
  "en_failed (take_permit e) = en_failed e"
  "en_max_inflight (release_permits n e) = en_max_inflight e" "en_submitted (release_permits n e) = en_submitted e"
  "en_inflight (release_permits n e) = en_inflight e" "en_completed (release_permits n e) = en_completed e"
  "en_failed (release_permits n e) = en_failed e"
  by (simp_all add: take_permit_def release_permits_def)

definition io_counts :: "'s io_sys \<Rightarrow> bool" where
  "io_counts y \<longleftrightarrow>
     en_submitted (y_eng y) = en_completed (y_eng y) + en_failed (y_eng y) + en_inflight (y_eng y) \<and>
     en_inflight (y_eng y) = sum_list (map held (y_subs y)) + sum_list (map queue_size (y_queues y)) +
       sum_list (map executing (y_runs y)) \<and>
     (\<forall>n. en_max_inflight (y_eng y) = Some n \<longrightarrow>
        0 \<le> en_permits (y_eng y) \<and>
        en_permits (y_eng y) + en_inflight (y_eng y) + sum_list (map publishing (y_runs y)) = n)"

definition io_wf :: "'s io_sys \<Rightarrow> bool" where
  "io_wf y \<longleftrightarrow> 1 \<le> en_num_workers (y_eng y) \<and> 1 \<le> en_num_queues (y_eng y) \<and>
     length (y_queues y) = num_executors (y_eng y)"

lemma executor_in_range: "io_wf y \<Longrightarrow> executor_for_key (y_eng y) key < length (y_queues y)"
  by (auto simp: io_wf_def executor_for_key_def num_executors_def nat_less_iff)

lemma io_wf_step: "io_step L y y' \<Longrightarrow> io_wf y \<Longrightarrow> io_wf y'"
  by (induction rule: io_step.induct)
    (auto simp: io_wf_def num_executors_def take_permit_def drop_group_def release_permits_def count_group_def Let_def)

lemma io_counts_step:
  assumes "io_step L y y'" and "io_wf y" and "io_counts y"
  shows "io_counts y'"
  using assms
proof (induction rule: io_step.induct)
  case (acquire i y k req rd items gs)
  then show ?case
    by (auto simp: io_counts_def sum_list_update_int groups_size_add) (auto simp: take_permit_def)
next
  case (dispatch i y key g gs q)
  then show ?case using executor_in_range [OF dispatch(5), of key]
    by (auto simp: io_counts_def sum_list_update_int queue_size_def)
next
  case (dispatch_fails i y key g gs q)
  then show ?case
    by (auto simp: io_counts_def sum_list_update_int drop_group_def) (auto simp: release_permits_def)
next
  case (begin_task q y h g ts)
  then show ?case by (auto simp: io_counts_def sum_list_update_int queue_size_def executing_def publishing_def)
next
  case (execute j y r idx req rd g v ms)
  then show ?case by (auto simp: io_counts_def sum_list_update_int executing_def publishing_def)
next
  case (finish j y r)
  then show ?case by (auto simp: io_counts_def sum_list_update_int executing_def publishing_def count_group_def Let_def)
next
  case (publish j y r)
  then show ?case
    by (auto simp: io_counts_def sum_list_update_int executing_def publishing_def) (auto simp: release_permits_def)
qed (auto simp: io_counts_def sum_list_update_int)

subsection \<open>Which requests of a handle are still pending\<close>

definition groups_idx :: "io_groups \<Rightarrow> nat multiset" where
  "groups_idx gs = sum_list (map (\<lambda>(k, g). mset (map fst g)) gs)"

fun sub_idx :: "sub_phase \<Rightarrow> nat multiset" where
  "sub_idx (Acquiring k items gs) = mset [k..<k + length items] + groups_idx gs"
| "sub_idx (Dispatching gs) = groups_idx gs"
| "sub_idx Returned = {#}"

definition task_idx :: "nat \<Rightarrow> nat \<times> io_item list \<Rightarrow> nat multiset" where
  "task_idx i t = (if fst t = i then mset (map fst (snd t)) else {#})"

definition queue_idx :: "nat \<Rightarrow> (nat \<times> io_item list) list \<Rightarrow> nat multiset" where
  "queue_idx i ts = sum_list (map (task_idx i) ts)"

definition run_idx :: "nat \<Rightarrow> run \<Rightarrow> nat multiset" where
  "run_idx i r = (if ru_handle r = i \<and> ru_phase r \<noteq> Finished
     then mset (map fst (ru_results r)) + mset (map fst (ru_rest r)) else {#})"

definition pending :: "'s io_sys \<Rightarrow> nat \<Rightarrow> nat multiset" where
  "pending y i = sub_idx (y_subs y ! i) + sum_list (map (queue_idx i) (y_queues y)) +
     sum_list (map (run_idx i) (y_runs y))"

text \<open>Exactly the positions without a result are pending, each once, and they are counted.\<close>

definition handle_ok :: "nat multiset \<Rightarrow> io_handle \<Rightarrow> bool" where
  "handle_ok p h \<longleftrightarrow> p = mset (filter (\<lambda>k. h_results h ! k = None) [0..<length (h_results h)]) \<and>
     h_remaining h = int (size p)"

definition io_handles_ok :: "'s io_sys \<Rightarrow> bool" where
  "io_handles_ok y \<longleftrightarrow> length (y_subs y) = length (y_handles y) \<and>
     (\<forall>ts \<in> set (y_queues y). \<forall>t \<in> set ts. fst t < length (y_handles y)) \<and>
     (\<forall>r \<in> set (y_runs y). ru_handle r < length (y_handles y) \<and> (ru_phase r \<noteq> Executing \<longrightarrow> ru_rest r = [])) \<and>
     (\<forall>i < length (y_handles y). handle_ok (pending y i) (y_handles y ! i))"

lemma sum_list_update_add:
  "i < length xs \<Longrightarrow> sum_list (map f (xs[i := x])) + f (xs ! i) = sum_list (map f xs) + (f x :: 'a :: comm_monoid_add)"
  by (induction xs arbitrary: i) (auto split: nat.splits simp: ac_simps)

lemma groups_idx_simps [simp]:
  "groups_idx [] = {#}" "groups_idx ((k, g) # gs) = mset (map fst g) + groups_idx gs"
  by (simp_all add: groups_idx_def)

lemma groups_idx_add: "groups_idx (add_to_group key item gs) = add_mset (fst item) (groups_idx gs)"
proof (cases "map_of gs key")
  case None
  then show ?thesis by (simp add: add_to_group_def groups_idx_def)
next
  case (Some g)
  then have "groups_idx (dict_set key (g @ [item]) gs) = add_mset (fst item) (groups_idx gs)"
    by (induction gs) (auto split: if_splits)
  then show ?thesis using Some by (simp add: add_to_group_def)
qed

lemma handle_ok_set:
  assumes "handle_ok (add_mset k p) h"
  shows "handle_ok p (snd (set_result k v h))"
proof -
  let ?n = "length (h_results h)" and ?rs = "(h_results h)[k := Some v]"
  have p: "add_mset k p = mset (filter (\<lambda>j. h_results h ! j = None) [0..<?n])"
    and rem: "h_remaining h = int (size (add_mset k p))" using assms unfolding handle_ok_def by blast+
  have "k \<in># mset (filter (\<lambda>j. h_results h ! j = None) [0..<?n])" using p by (metis union_single_eq_member add_mset_add_single union_commute)
  then have k: "k < ?n" "h_results h ! k = None" by auto
  have "mset (filter (\<lambda>j. ?rs ! j = None) [0..<?n]) = mset (filter (\<lambda>j. h_results h ! j = None) [0..<?n]) - {#k#}"
  proof -
    have "filter (\<lambda>j. ?rs ! j = None) [0..<?n] = filter (\<lambda>j. j \<noteq> k) (filter (\<lambda>j. h_results h ! j = None) [0..<?n])"
      unfolding filter_filter by (rule filter_cong) (use k in \<open>auto simp: nth_list_update\<close>)
    also have "\<dots> = remove1 k (filter (\<lambda>j. h_results h ! j = None) [0..<?n])"
      by (simp add: distinct_remove1_removeAll removeAll_filter_not_eq neq_commute)
    finally show ?thesis by simp
  qed
  then have "p = mset (filter (\<lambda>j. ?rs ! j = None) [0..<?n])" using p [symmetric] by simp
  then show ?thesis using rem by (simp add: handle_ok_def set_result_def set_many_def Let_def)
qed

lemma set_many_Cons:
  "snd (set_many ((k, v) # ps) h) = snd (set_many ps (snd (set_result k v h)))"
  by (simp add: set_result_def set_many_def Let_def)

lemma handle_ok_set_many: "handle_ok (mset (map fst ps) + p) h \<Longrightarrow> handle_ok p (snd (set_many ps h))"
proof (induction ps arbitrary: h)
  case (Cons kv ps)
  obtain k v where kv: "kv = (k, v)" by fastforce
  have "handle_ok (add_mset k (mset (map fst ps) + p)) h" using Cons.prems kv by simp
  from Cons.IH [OF handle_ok_set [OF this, of v]] show ?case unfolding kv set_many_Cons .
qed (simp add: set_many_def Let_def)

lemma handle_ok_fail_group: "handle_ok (mset (map fst g) + p) h \<Longrightarrow> handle_ok p (fail_group g h)"
proof (induction g arbitrary: h)
  case (Cons kv g)
  obtain k req rd where kv: "kv = (k, req, rd)" by (cases kv) auto
  have "handle_ok (add_mset k (mset (map fst g) + p)) h" using Cons.prems kv by simp
  from Cons.IH [OF handle_ok_set [OF this, of "Inl RuntimeError"]] show ?case by (simp add: fail_group_def kv)
qed (simp add: fail_group_def)

lemma handle_ok_new: "handle_ok (mset [0..<length reqs]) (IOHandle reqs)"
proof -
  have "filter (\<lambda>k. replicate (length reqs) None ! k = (None :: int result option)) [0..<length reqs] = [0..<length reqs]"
    by (simp add: filter_id_conv)
  then show ?thesis by (simp add: handle_ok_def IOHandle_def)
qed

text \<open>Steps that only move requests around keep the pending positions.\<close>

lemma pending_sub_update:
  assumes "i < length (y_subs y)"
  shows "pending (y\<lparr>y_subs := (y_subs y)[i := p]\<rparr>) j =
    (if j = i then sub_idx p + sum_list (map (queue_idx j) (y_queues y)) + sum_list (map (run_idx j) (y_runs y))
     else pending y j)"
  using assms by (simp add: pending_def)

lemma io_handles_ok_frame:
  assumes "io_handles_ok y" and "y_handles y' = y_handles y" and "length (y_subs y') = length (y_subs y)"
    and "\<And>t. t \<in> set (concat (y_queues y')) \<Longrightarrow> fst t < length (y_handles y)"
    and "\<And>r. r \<in> set (y_runs y') \<Longrightarrow> ru_handle r < length (y_handles y) \<and> (ru_phase r \<noteq> Executing \<longrightarrow> ru_rest r = [])"
    and "\<And>i. i < length (y_handles y) \<Longrightarrow> pending y' i = pending y i"
  shows "io_handles_ok y'"
  using assms unfolding io_handles_ok_def by auto

lemma io_handles_submit:
  assumes "io_handles_ok y"
  shows "io_handles_ok (y\<lparr>y_handles := y_handles y @ [IOHandle (map fst items)],
    y_subs := y_subs y @ [Acquiring 0 items []]\<rparr>)" (is "io_handles_ok ?y")
proof -
  let ?n = "length (y_handles y)"
  have len: "length (y_subs y) = ?n" using assms by (simp add: io_handles_ok_def)
  have none: "queue_idx ?n ts = {#}" if "ts \<in> set (y_queues y)" for ts
  proof -
    have "fst t < ?n" if "t \<in> set ts" for t
      using assms \<open>ts \<in> set (y_queues y)\<close> that unfolding io_handles_ok_def by blast
    then have "task_idx ?n t = {#}" if "t \<in> set ts" for t using that by (fastforce simp: task_idx_def)
    then show ?thesis by (simp add: queue_idx_def sum_list_0 cong: map_cong)
  qed
  have none': "run_idx ?n r = {#}" if "r \<in> set (y_runs y)" for r
    using assms that by (auto simp: io_handles_ok_def run_idx_def)
  have "pending ?y ?n = mset [0..<length items]"
    using len none none' by (simp add: pending_def sum_list_0 nth_append cong: map_cong)
  moreover have "pending ?y i = pending y i" if "i < ?n" for i using that len by (simp add: pending_def nth_append)
  ultimately show ?thesis using assms len handle_ok_new [of "map fst items"]
    by (auto simp: io_handles_ok_def nth_append less_Suc_eq)
qed

lemma io_handles_dispatch:
  assumes "io_handles_ok y" and "i < length (y_subs y)" and "y_subs y ! i = Dispatching ((key, g) # gs)"
    and "q < length (y_queues y)"
  shows "io_handles_ok (y\<lparr>y_subs := (y_subs y)[i := Dispatching gs],
    y_queues := (y_queues y)[q := y_queues y ! q @ [(i, g)]], y_sent := sn\<rparr>)" (is "io_handles_ok ?y")
proof (rule io_handles_ok_frame [OF assms(1)])
  have "sum_list (map (queue_idx j) ((y_queues y)[q := y_queues y ! q @ [(i, g)]])) =
      sum_list (map (queue_idx j) (y_queues y)) + task_idx j (i, g)" for j
    using sum_list_update_add [OF assms(4), of "queue_idx j" "y_queues y ! q @ [(i, g)]"]
    by (simp add: queue_idx_def add.assoc [symmetric])
  then show "pending ?y j = pending y j" for j
    using assms(2,3) by (cases "j = i") (auto simp: pending_def task_idx_def)
  fix t assume "t \<in> set (concat (y_queues ?y))"
  then have "t = (i, g) \<or> t \<in> set (y_queues y ! q) \<or> (\<exists>ts \<in> set (y_queues y). t \<in> set ts)"
    by (auto dest!: set_update_subset_insert [THEN subsetD])
  then show "fst t < length (y_handles y)"
    using assms nth_mem [OF assms(4)] unfolding io_handles_ok_def by auto
next
  show "ru_handle r < length (y_handles y) \<and> (ru_phase r \<noteq> Executing \<longrightarrow> ru_rest r = [])" if "r \<in> set (y_runs ?y)" for r
    using that assms(1) by (auto simp: io_handles_ok_def)
qed simp_all

lemma io_handles_dispatch_fails:
  assumes "io_handles_ok y" and "i < length (y_subs y)" and "y_subs y ! i = Dispatching ((key, g) # gs)"
  shows "io_handles_ok (y\<lparr>y_subs := (y_subs y)[i := Dispatching gs], y_eng := e,
    y_handles := (y_handles y)[i := fail_group g (y_handles y ! i)]\<rparr>)" (is "io_handles_ok ?y")
proof -
  have i: "i < length (y_handles y)" using assms by (simp add: io_handles_ok_def)
  have "pending y i = mset (map fst g) + pending ?y i" using assms(2,3) by (simp add: pending_def)
  moreover have "handle_ok (pending y i) (y_handles y ! i)" using assms(1) i by (simp add: io_handles_ok_def)
  ultimately have "handle_ok (pending ?y i) (fail_group g (y_handles y ! i))" using handle_ok_fail_group by metis
  moreover have "pending ?y j = pending y j" if "j \<noteq> i" for j using that by (simp add: pending_def)
  ultimately show ?thesis using assms(1) i by (auto simp: io_handles_ok_def nth_list_update)
qed

lemma io_handles_begin:
  assumes "io_handles_ok y" and "q < length (y_queues y)" and "y_queues y ! q = (h, g) # ts"
  shows "io_handles_ok (y\<lparr>y_queues := (y_queues y)[q := ts],
    y_runs := y_runs y @ [\<lparr>ru_exec = q, ru_handle = h, ru_results = [], ru_rest = g, ru_phase = Executing\<rparr>]\<rparr>)"
    (is "io_handles_ok ?y")
proof (rule io_handles_ok_frame [OF assms(1)])
  have mem: "(h, g) # ts \<in> set (y_queues y)" using nth_mem [OF assms(2)] assms(3) by simp
  have eq: "sum_list (map (queue_idx j) (y_queues y)) =
      sum_list (map (queue_idx j) ((y_queues y)[q := ts])) + task_idx j (h, g)" for j
  proof -
    have "sum_list (map (queue_idx j) ((y_queues y)[q := ts])) + (task_idx j (h, g) + queue_idx j ts) =
        sum_list (map (queue_idx j) (y_queues y)) + queue_idx j ts"
      using sum_list_update_add [OF assms(2), of "queue_idx j" ts] assms(3) by (simp add: queue_idx_def)
    then show ?thesis by (simp only: add.assoc [symmetric] add_right_cancel)
  qed
  have "run_idx j \<lparr>ru_exec = q, ru_handle = h, ru_results = [], ru_rest = g, ru_phase = Executing\<rparr> = task_idx j (h, g)" for j
    by (simp add: run_idx_def task_idx_def)
  then show "pending ?y j = pending y j" for j by (simp add: pending_def eq ac_simps)
  fix t assume "t \<in> set (concat (y_queues ?y))"
  then have "t \<in> set ts \<or> (\<exists>ts \<in> set (y_queues y). t \<in> set ts)"
    by (auto dest!: set_update_subset_insert [THEN subsetD])
  then have "\<exists>ts \<in> set (y_queues y). t \<in> set ts" using mem by (meson list.set_intros(2))
  then show "fst t < length (y_handles y)" using assms(1) unfolding io_handles_ok_def by blast
next
  have "h < length (y_handles y)" using nth_mem [OF assms(2)] assms(1,3) by (fastforce simp: io_handles_ok_def)
  then show "ru_handle r < length (y_handles y) \<and> (ru_phase r \<noteq> Executing \<longrightarrow> ru_rest r = [])" if "r \<in> set (y_runs ?y)" for r
    using that assms(1) by (auto simp: io_handles_ok_def)
qed simp_all

lemma io_handles_run:
  assumes "io_handles_ok y" and "j < length (y_runs y)" and "y_runs y ! j = r"
    and "\<And>i. run_idx i r' = run_idx i r" and "ru_handle r' = ru_handle r"
    and "ru_phase r' \<noteq> Executing \<Longrightarrow> ru_rest r' = []"
    and "y_handles y' = y_handles y" "y_subs y' = y_subs y" "y_queues y' = y_queues y" "y_runs y' = (y_runs y)[j := r']"
  shows "io_handles_ok y'"
proof (rule io_handles_ok_frame [OF assms(1)])
  have "sum_list (map (run_idx i) ((y_runs y)[j := r'])) = sum_list (map (run_idx i) (y_runs y))" for i
    using sum_list_update_add [OF assms(2), of "run_idx i" r'] assms(3,4) by simp
  then show "pending y' i = pending y i" for i by (simp add: pending_def assms(7-10))
  show "fst t < length (y_handles y)" if "t \<in> set (concat (y_queues y'))" for t
    using that assms(1,9) unfolding io_handles_ok_def by auto
  show "ru_handle x < length (y_handles y) \<and> (ru_phase x \<noteq> Executing \<longrightarrow> ru_rest x = [])" if "x \<in> set (y_runs y')" for x
    using that assms(1-3,5,6,10) nth_mem [OF assms(2)]
    by (auto simp: io_handles_ok_def dest!: set_update_subset_insert [THEN subsetD])
qed (use assms in simp_all)

lemma io_handles_publish:
  assumes "io_handles_ok y" and "j < length (y_runs y)" and "y_runs y ! j = r" and "ru_phase r = Publishing"
  shows "io_handles_ok (y\<lparr>y_runs := (y_runs y)[j := r\<lparr>ru_phase := Finished\<rparr>], y_eng := e,
    y_handles := (y_handles y)[ru_handle r := snd (set_many (ru_results r) (y_handles y ! ru_handle r))]\<rparr>)"
    (is "io_handles_ok ?y")
proof -
  let ?r = "r\<lparr>ru_phase := Finished\<rparr>" and ?h = "ru_handle r"
  have "r \<in> set (y_runs y)" using assms(2,3) nth_mem by blast
  then have h: "?h < length (y_handles y)" "ru_rest r = []" using assms(1,4) by (auto simp: io_handles_ok_def)
  have run: "sum_list (map (run_idx i) (y_runs y)) = run_idx i r + sum_list (map (run_idx i) ((y_runs y)[j := ?r]))" for i
    using sum_list_update_add [OF assms(2), of "run_idx i" ?r] assms(3) by (simp add: run_idx_def add.commute)
  have "pending y i = run_idx i r + pending ?y i" for i by (simp add: pending_def run ac_simps)
  then have p: "pending y ?h = mset (map fst (ru_results r)) + pending ?y ?h" "\<And>i. i \<noteq> ?h \<Longrightarrow> pending ?y i = pending y i"
    using assms(4) h(2) by (auto simp: run_idx_def)
  have "handle_ok (pending y ?h) (y_handles y ! ?h)" using assms(1) h(1) by (simp add: io_handles_ok_def)
  then have "handle_ok (pending ?y ?h) (snd (set_many (ru_results r) (y_handles y ! ?h)))"
    using p(1) handle_ok_set_many by metis
  moreover have "ru_handle r' < length (y_handles y) \<and> (ru_phase r' \<noteq> Executing \<longrightarrow> ru_rest r' = [])"
    if "r' \<in> set ((y_runs y)[j := ?r])" for r'
    using that assms(1) h by (auto simp: io_handles_ok_def dest!: set_update_subset_insert [THEN subsetD])
  ultimately show ?thesis using assms(1) h p(2) by (simp add: io_handles_ok_def nth_list_update)
qed

lemma io_handles_sub:
  assumes "io_handles_ok y" and "i < length (y_subs y)" and "sub_idx p = sub_idx (y_subs y ! i)"
  shows "io_handles_ok (y\<lparr>y_eng := e, y_subs := (y_subs y)[i := p]\<rparr>)"
  using assms
  by (intro io_handles_ok_frame [OF assms(1)]) (auto simp: io_handles_ok_def pending_def nth_list_update)

lemma io_handles_step:
  assumes "io_step L y y'" and "io_wf y" and "io_handles_ok y"
  shows "io_handles_ok y'"
  using assms
proof (induction rule: io_step.induct)
  case (submit y items)
  then show ?case by (intro io_handles_submit)
next
  case (acquire i y k req rd items gs)
  then show ?case
    by (intro io_handles_sub) (auto simp: groups_idx_add upt_conv_Cons simp del: upt_Suc)
next
  case (acquired i y k gs)
  then show ?case using io_handles_sub [of y i "Dispatching gs" "y_eng y"] by simp
next
  case (dispatch i y key g gs q)
  then show ?case using executor_in_range [OF dispatch(5)] by (intro io_handles_dispatch) auto
next
  case (dispatch_fails i y key g gs q)
  then show ?case by (intro io_handles_dispatch_fails)
next
  case (return i y)
  then show ?case using io_handles_sub [of y i Returned "y_eng y"] by simp
next
  case (begin_task q y h g ts)
  then show ?case by (intro io_handles_begin)
next
  case (execute j y r idx req rd g v ms)
  show ?case
    by (rule io_handles_run [OF execute(7,1,2),
          where r' = "r\<lparr>ru_results := ru_results r @ [(idx, v)], ru_rest := g\<rparr>"])
      (use execute in \<open>auto simp: run_idx_def\<close>)
next
  case (finish j y r)
  show ?case
    by (rule io_handles_run [OF finish(6,1,2), where r' = "r\<lparr>ru_phase := Publishing\<rparr>"])
      (use finish in \<open>auto simp: run_idx_def\<close>)
next
  case (publish j y r)
  then show ?case by (intro io_handles_publish)
qed (auto simp: io_handles_ok_def pending_def)

subsection \<open>Order of execution on one executor\<close>

definition running_log :: "nat \<Rightarrow> run list \<Rightarrow> io_log" where
  "running_log q rs = concat (map (\<lambda>r. if ru_exec r = q then log_items (ru_handle r) (ru_rest r) else []) rs)"

definition queued_log :: "(nat \<times> io_item list) list \<Rightarrow> io_log" where
  "queued_log ts = concat (map (\<lambda>(h, g). log_items h g) ts)"

definition io_fifo :: "'s io_sys \<Rightarrow> bool" where
  "io_fifo y \<longleftrightarrow>
     (\<forall>j < length (y_runs y). \<forall>k < length (y_runs y). \<forall>q.
        active_on q (y_runs y ! j) \<and> active_on q (y_runs y ! k) \<longrightarrow> j = k) \<and>
     (\<forall>r \<in> set (y_runs y). ru_phase r \<noteq> Executing \<longrightarrow> ru_rest r = []) \<and>
     (\<forall>q < length (y_queues y).
        y_sent y q = y_done y q @ running_log q (y_runs y) @ queued_log (y_queues y ! q))"

lemma log_items_simps [simp]:
  "log_items h [] = []" "log_items h ((idx, req, rd) # g) = (h, idx, ia_chunk_id (rq_address req)) # log_items h g"
  by (simp_all add: log_items_def)

lemma queued_log_simps [simp]:
  "queued_log [] = []" "queued_log ((h, g) # ts) = log_items h g @ queued_log ts"
  "queued_log (ts @ ts') = queued_log ts @ queued_log ts'"
  by (simp_all add: queued_log_def)

lemma concat_single:
  "j < length xs \<Longrightarrow> (\<And>k. k < length xs \<Longrightarrow> k \<noteq> j \<Longrightarrow> f (xs ! k) = []) \<Longrightarrow> concat (map f xs) = f (xs ! j)"
proof (induction xs arbitrary: j)
  case (Cons x xs)
  show ?case
  proof (cases j)
    case 0
    have "f z = []" if "z \<in> set xs" for z
      using Cons.prems(2) [of "Suc k" for k] that 0 by (fastforce simp: in_set_conv_nth)
    then show ?thesis using 0 by simp
  next
    case (Suc i)
    have "concat (map f xs) = f (xs ! i)"
      using Cons.prems(1) Cons.prems(2) [of "Suc k" for k] Suc by (intro Cons.IH) auto
    then show ?thesis using Cons.prems(2) [of 0] Suc by simp
  qed
qed simp

lemma io_fifo_others:
  assumes "io_fifo y" and "j < length (y_runs y)" and "active_on q (y_runs y ! j)"
    and "k < length (y_runs y)" and "k \<noteq> j" and "ru_exec (y_runs y ! k) = q"
  shows "ru_rest (y_runs y ! k) = []"
proof -
  have "\<not> active_on q (y_runs y ! k)" using assms(1-5) unfolding io_fifo_def by blast
  then have "ru_phase (y_runs y ! k) \<noteq> Executing" using assms(6) by (auto simp: active_on_def)
  then show ?thesis using assms(1) nth_mem [OF assms(4)] unfolding io_fifo_def by blast
qed

lemma running_log_single:
  assumes "io_fifo y" and "j < length (y_runs y)" and "active_on q (y_runs y ! j)"
  shows "running_log q (y_runs y) = log_items (ru_handle (y_runs y ! j)) (ru_rest (y_runs y ! j))"
  using concat_single [OF assms(2), of "\<lambda>r. if ru_exec r = q then log_items (ru_handle r) (ru_rest r) else []"]
    io_fifo_others [OF assms] assms(3) by (simp add: running_log_def active_on_def)

lemma running_log_idle:
  assumes "io_fifo y" and "\<And>r. r \<in> set (y_runs y) \<Longrightarrow> \<not> active_on q r"
  shows "running_log q (y_runs y) = []"
proof -
  have "ru_rest r = []" if "r \<in> set (y_runs y)" "ru_exec r = q" for r
    using assms that by (auto simp: io_fifo_def active_on_def)
  then show ?thesis by (auto simp: running_log_def)
qed

lemma running_log_other:
  "j < length rs \<Longrightarrow> ru_exec (rs ! j) \<noteq> q \<Longrightarrow> ru_exec r = ru_exec (rs ! j) \<Longrightarrow>
   running_log q (rs[j := r]) = running_log q rs"
  by (induction rs arbitrary: j) (auto simp: running_log_def split: nat.splits)

lemma running_log_same:
  "j < length rs \<Longrightarrow> ru_exec r = ru_exec (rs ! j) \<Longrightarrow> ru_handle r = ru_handle (rs ! j) \<Longrightarrow> ru_rest r = ru_rest (rs ! j) \<Longrightarrow>
   running_log q (rs[j := r]) = running_log q rs"
  by (induction rs arbitrary: j) (auto simp: running_log_def split: nat.splits)

lemma io_fifo_phase:
  assumes "io_fifo y" and "j < length (y_runs y)" and "y_runs y ! j = r"
    and "ru_phase r \<noteq> Finished" and "ph \<noteq> Executing" and "ru_rest r = []"
    and "y_runs y' = (y_runs y)[j := r\<lparr>ru_phase := ph\<rparr>]" and "y_queues y' = y_queues y"
    and "y_sent y' = y_sent y" and "y_done y' = y_done y"
  shows "io_fifo y'"
proof -
  have act: "active_on q (y_runs y' ! k) \<Longrightarrow> active_on q (y_runs y ! k)" if "k < length (y_runs y)" for q k
    using that assms(2-4,7) by (cases "k = j") (auto simp: active_on_def)
  have log: "running_log q (y_runs y') = running_log q (y_runs y)" for q
    unfolding assms(7) using assms(2,3) by (intro running_log_same) auto
  have rest: "ru_rest x = []" if "x \<in> set (y_runs y')" "ru_phase x \<noteq> Executing" for x
    using that assms(1,6,7) by (auto simp: io_fifo_def dest!: set_update_subset_insert [THEN subsetD])
  have one: "i = k" if "i < length (y_runs y)" "k < length (y_runs y)"
      "active_on q (y_runs y' ! i)" "active_on q (y_runs y' ! k)" for i k q
    using act that assms(1) unfolding io_fifo_def by blast
  show ?thesis unfolding io_fifo_def log assms(8-10)
    using one rest assms(1) by (auto simp: io_fifo_def assms(7))
qed

lemma io_fifo_execute:
  assumes "io_fifo y" and "j < length (y_runs y)" and "y_runs y ! j = r" and "ru_phase r = Executing"
    and "ru_rest r = (idx, req, rd) # g"
  shows "io_fifo (y\<lparr>y_runs := (y_runs y)[j := r\<lparr>ru_results := rs, ru_rest := g\<rparr>], y_mem := ms,
      y_done := (y_done y)(ru_exec r := y_done y (ru_exec r) @ log_items (ru_handle r) [(idx, req, rd)])\<rparr>)"
    (is "io_fifo ?y")
proof -
  let ?r = "r\<lparr>ru_results := rs, ru_rest := g\<rparr>"
  have act: "active_on q (y_runs ?y ! k) = active_on q (y_runs y ! k)" if "k < length (y_runs y)" for q k
    using that assms(2-4) by (cases "k = j") (auto simp: active_on_def)
  have one: "\<forall>i < length (y_runs ?y). \<forall>k < length (y_runs ?y). \<forall>q.
      active_on q (y_runs ?y ! i) \<and> active_on q (y_runs ?y ! k) \<longrightarrow> i = k"
    using assms(1) act by (auto simp: io_fifo_def)
  have rest: "\<forall>x \<in> set (y_runs ?y). ru_phase x \<noteq> Executing \<longrightarrow> ru_rest x = []"
    using assms(1,4) by (auto simp: io_fifo_def dest!: set_update_subset_insert [THEN subsetD])
  have jq: "active_on (ru_exec r) (y_runs y ! j)" using assms(3,4) by (simp add: active_on_def)
  have before: "running_log (ru_exec r) (y_runs y) = log_items (ru_handle r) (ru_rest r)"
    using running_log_single [OF assms(1,2) jq] assms(3) by simp
  have after: "running_log (ru_exec r) ((y_runs y)[j := ?r]) = log_items (ru_handle r) g"
  proof -
    have nil: "ru_exec (y_runs y ! k) = ru_exec r \<Longrightarrow> ru_rest (y_runs y ! k) = []"
      if "k < length (y_runs y)" "k \<noteq> j" for k
      using io_fifo_others [OF assms(1,2) jq that] .
    show ?thesis unfolding running_log_def
      using concat_single [of j "(y_runs y)[j := ?r]" "\<lambda>r'. if ru_exec r' = ru_exec r then log_items (ru_handle r') (ru_rest r') else []"]
        nil assms(2) by simp
  qed
  have "y_sent y q = y_done ?y q @ running_log q (y_runs ?y) @ queued_log (y_queues y ! q)"
    if "q < length (y_queues y)" for q
  proof (cases "q = ru_exec r")
    case True
    then show ?thesis using assms(1,5) before after that by (simp add: io_fifo_def)
  next
    case False
    then show ?thesis using assms(1-3) that running_log_other [OF assms(2), of q ?r] by (simp add: io_fifo_def)
  qed
  then show ?thesis using one rest by (simp add: io_fifo_def)
qed

lemma io_fifo_begin:
  assumes "io_fifo y" and "q < length (y_queues y)" and "y_queues y ! q = (h, g) # ts"
    and "\<And>r. r \<in> set (y_runs y) \<Longrightarrow> \<not> active_on q r"
  shows "io_fifo (y\<lparr>y_queues := (y_queues y)[q := ts],
    y_runs := y_runs y @ [\<lparr>ru_exec = q, ru_handle = h, ru_results = [], ru_rest = g, ru_phase = Executing\<rparr>]\<rparr>)"
    (is "io_fifo ?y")
proof -
  have log: "running_log q' (y_runs ?y) = running_log q' (y_runs y) @ (if q' = q then log_items h g else [])" for q'
    by (simp add: running_log_def)
  have idle: "\<not> active_on q (y_runs y ! k)" if "k < length (y_runs y)" for k using assms(4) nth_mem [OF that] by blast
  have one: "\<forall>i < length (y_runs ?y). \<forall>k < length (y_runs ?y). \<forall>q.
      active_on q (y_runs ?y ! i) \<and> active_on q (y_runs ?y ! k) \<longrightarrow> i = k"
    using assms(1) idle by (auto simp: io_fifo_def nth_append active_on_def less_Suc_eq)
  have "y_sent y q' = y_done y q' @ running_log q' (y_runs ?y) @ queued_log ((y_queues y)[q := ts] ! q')"
    if "q' < length (y_queues y)" for q'
    using assms(1-3) that log [of q'] running_log_idle [OF assms(1,4)] by (cases "q' = q") (auto simp: io_fifo_def)
  then show ?thesis using one assms(1) by (simp add: io_fifo_def ball_Un)
qed

lemma io_fifo_step:
  assumes "io_step L y y'" and "io_wf y" and "io_fifo y" and "en_num_queues (y_eng y) > 1"
  shows "io_fifo y'"
  using assms
proof (induction rule: io_step.induct)
  case (dispatch i y key g gs q)
  then show ?case using executor_in_range [OF dispatch(5), of key]
    by (auto simp: io_fifo_def nth_list_update)
next
  case (begin_task q y h g ts)
  then have "length (filter (active_on q) (y_runs y)) = 0" by (simp add: workers_per_executor_def)
  then have "\<not> active_on q r" if "r \<in> set (y_runs y)" for r using that by (auto simp: filter_empty_conv)
  then show ?case using begin_task by (intro io_fifo_begin)
next
  case (execute j y r idx req rd g v ms)
  then show ?case by (intro io_fifo_execute)
next
  case (finish j y r)
  then show ?case by (intro io_fifo_phase [OF finish(6,1,2), of Publishing]) auto
next
  case (publish j y r)
  then show ?case by (intro io_fifo_phase [OF publish(5,1,2), of Finished]) (auto simp: io_fifo_def)
qed (auto simp: io_fifo_def)

text \<open>The executor a logged request went to is the one of its chunk.\<close>

fun groups_of_sub :: "sub_phase \<Rightarrow> io_groups" where
  "groups_of_sub (Acquiring k items gs) = gs"
| "groups_of_sub (Dispatching gs) = gs"
| "groups_of_sub Returned = []"

definition keyed :: "int \<Rightarrow> io_groups \<Rightarrow> bool" where
  "keyed nq gs \<longleftrightarrow> (\<forall>(key, g) \<in> set gs. \<forall>(idx, req, rd) \<in> set g. key = ia_chunk_id (rq_address req) mod nq)"

definition io_routed :: "'s io_sys \<Rightarrow> bool" where
  "io_routed y \<longleftrightarrow> (\<forall>p \<in> set (y_subs y). keyed (en_num_queues (y_eng y)) (groups_of_sub p)) \<and>
     (\<forall>q. \<forall>(h, idx, c) \<in> set (y_sent y q). q = executor_for (y_eng y) c)"

lemma keyed_Cons [simp]:
  "keyed nq []"
  "keyed nq ((key, g) # gs) \<longleftrightarrow> (\<forall>(idx, req, rd) \<in> set g. key = ia_chunk_id (rq_address req) mod nq) \<and> keyed nq gs"
  by (simp_all add: keyed_def)

lemma keyed_add:
  assumes "keyed nq gs" and "key = ia_chunk_id (rq_address req) mod nq"
  shows "keyed nq (add_to_group key (idx, req, rd) gs)"
proof (cases "map_of gs key")
  case None
  then show ?thesis using assms by (auto simp: add_to_group_def keyed_def)
next
  case (Some g)
  then have "keyed nq (dict_set key (g @ [(idx, req, rd)]) gs)"
    using assms by (induction gs) (auto split: if_splits)
  then show ?thesis using Some by (simp add: add_to_group_def)
qed

lemma engine_const [simp]:
  "en_num_queues (take_permit e) = en_num_queues e" "en_num_queues (drop_group n e) = en_num_queues e"
  "en_num_queues (count_group r e) = en_num_queues e" "en_num_queues (release_permits n e) = en_num_queues e"
  "en_max_inflight (drop_group n e) = en_max_inflight e" "en_max_inflight (count_group r e) = en_max_inflight e"
  by (simp_all add: take_permit_def drop_group_def count_group_def release_permits_def Let_def)

lemma executor_for_cong: "en_num_queues e = en_num_queues e' \<Longrightarrow> executor_for e = executor_for e'"
  by (simp add: executor_for_def fun_eq_iff)

lemma io_routed_groups:
  "io_routed y \<Longrightarrow> i < length (y_subs y) \<Longrightarrow> keyed (en_num_queues (y_eng y)) (groups_of_sub (y_subs y ! i))"
  using nth_mem unfolding io_routed_def by blast

lemma io_routed_sub:
  assumes "io_routed y" and "keyed (en_num_queues (y_eng y)) (groups_of_sub p)"
    and "y_subs y' = (y_subs y)[i := p]" and "en_num_queues (y_eng y') = en_num_queues (y_eng y)"
    and "y_sent y' = y_sent y"
  shows "io_routed y'"
  using assms executor_for_cong [OF assms(4)]
  by (auto simp: io_routed_def dest!: set_update_subset_insert [THEN subsetD])

lemma io_routed_frame:
  assumes "io_routed y" and "y_subs y' = y_subs y" and "en_num_queues (y_eng y') = en_num_queues (y_eng y)"
    and "y_sent y' = y_sent y"
  shows "io_routed y'"
  using assms executor_for_cong [OF assms(3)] by (simp add: io_routed_def)

lemma io_routed_step:
  assumes "io_step L y y'" and "io_routed y" and "en_num_queues (y_eng y) > 1"
  shows "io_routed y'"
  using assms
proof (induction rule: io_step.induct)
  case (submit y items)
  then show ?case by (auto simp: io_routed_def keyed_def)
next
  case (acquire i y k req rd items gs)
  have "keyed (en_num_queues (y_eng y)) gs" using io_routed_groups [OF acquire(4,1)] acquire(2) by simp
  then show ?case using acquire
    by (intro io_routed_sub [OF acquire(4)]) (auto intro!: keyed_add simp: shard_key_def)
next
  case (acquired i y k gs)
  have "keyed (en_num_queues (y_eng y)) gs" using io_routed_groups [OF acquired(3,1)] acquired(2) by simp
  then show ?case by (intro io_routed_sub [OF acquired(3)]) auto
next
  case (dispatch i y key g gs q)
  have k: "keyed (en_num_queues (y_eng y)) ((key, g) # gs)" using io_routed_groups [OF dispatch(5,1)] dispatch(2) by simp
  have "q = executor_for (y_eng y) c" if "(h, idx, c) \<in> set (log_items i g)" for h idx c
    using that k dispatch(3,6)
    by (auto simp: log_items_def executor_for_key_def executor_for_def num_executors_def)
  then show ?case using dispatch(5) k
    by (auto simp: io_routed_def dest!: set_update_subset_insert [THEN subsetD])
next
  case (dispatch_fails i y key g gs q)
  have "keyed (en_num_queues (y_eng y)) gs" using io_routed_groups [OF dispatch_fails(5,1)] dispatch_fails(2) by simp
  then show ?case by (intro io_routed_sub [OF dispatch_fails(5)]) auto
next
  case (return i y)
  then show ?case by (intro io_routed_sub [OF return(3)]) (auto simp: keyed_def)
qed (erule io_routed_frame; simp)+

subsection \<open>Reachable states\<close>

lemma engine_config_step:
  "io_step L y y' \<Longrightarrow> en_num_queues (y_eng y') = en_num_queues (y_eng y) \<and>
     en_max_inflight (y_eng y') = en_max_inflight (y_eng y)"
  by (induction rule: io_step.induct) auto

lemma io_reach_inv:
  assumes "ConcurrentIOEngine_init nw nq mi = Inr e" and "io_reach L (io_start e ms) y"
  shows "io_wf y \<and> io_counts y \<and> io_handles_ok y \<and>
    en_num_queues (y_eng y) = nq \<and> en_max_inflight (y_eng y) = mi \<and> (nq > 1 \<longrightarrow> io_fifo y \<and> io_routed y)"
  using assms(2)
proof (induction rule: io_reach.induct)
  case init
  have zero: "sum_list (map queue_size (replicate n [])) = 0" for n by (induction n) (auto simp: queue_size_def)
  show ?case using assms(1) zero
    by (auto simp: ConcurrentIOEngine_init_def io_start_def io_wf_def io_counts_def io_handles_ok_def io_fifo_def
        io_routed_def running_log_def split: if_splits option.splits)
next
  case (next_step y y')
  then show ?case
    using io_wf_step [of L y y'] io_counts_step [of L y y'] io_handles_step [of L y y'] engine_config_step [of L y y']
      io_fifo_step [of L y y'] io_routed_step [of L y y'] by auto
qed

lemma counts_nonneg:
  "0 \<le> sum_list (map held ps)" "0 \<le> sum_list (map queue_size qs)" "0 \<le> sum_list (map executing rs)"
  "0 \<le> sum_list (map publishing rs)"
proof -
  have g: "0 \<le> groups_size gs" for gs by (induction gs) auto
  have h: "0 \<le> held p" for p using g by (cases p) auto
  have q: "0 \<le> queue_size ts" for ts by (induction ts) (auto simp: queue_size_def)
  show "0 \<le> sum_list (map held ps)" by (intro sum_list_nonneg) (use h in auto)
  show "0 \<le> sum_list (map queue_size qs)" by (intro sum_list_nonneg) (use q in auto)
  show "0 \<le> sum_list (map executing rs)" by (intro sum_list_nonneg) (auto simp: executing_def)
  show "0 \<le> sum_list (map publishing rs)" by (intro sum_list_nonneg) (auto simp: publishing_def)
qed

subsection \<open>Sharding\<close>

lemma map_of_add_to_group:
  "map_of (add_to_group key item gs) k =
     (if k = key then Some (case map_of gs key of None \<Rightarrow> [item] | Some g \<Rightarrow> g @ [item]) else map_of gs k)"
  by (auto simp: add_to_group_def map_add_def split: option.splits)

definition shard :: "engine \<Rightarrow> int \<Rightarrow> io_item list \<Rightarrow> io_item list" where
  "shard e key its = filter (\<lambda>(i, req, rd). shard_key e i req = key) its"

lemma map_of_group_items:
  "map_of (group_items e k items gs) key =
     (case map_of gs key of
        None \<Rightarrow> (if shard e key (enumerate k items) = [] then None else Some (shard e key (enumerate k items)))
      | Some g \<Rightarrow> Some (g @ shard e key (enumerate k items)))"
proof (induction e k items gs rule: group_items.induct)
  case (2 e k req rd items gs)
  then show ?case by (auto simp: map_of_add_to_group shard_def split: option.splits)
qed (auto simp: shard_def split: option.splits)

subsection \<open>Batches of reads\<close>

text \<open>
  A read request that fits its buffer and its chunk. Executing a batch of such reads with distinct
  buffers fills every buffer with the bytes of its range, whatever the order.
\<close>

definition read_fits :: "(int \<Rightarrow> bytes option) \<Rightarrow> mem \<Rightarrow> io_request \<Rightarrow> bool" where
  "read_fits v bs req \<longleftrightarrow>
     (let a = rq_address req; b = bs (rq_buffer req) in
      0 \<le> ia_offset a \<and> 0 \<le> ia_length a \<and> 4096 dvd ia_offset a \<and> 4096 dvd ia_length a \<and> ia_length a \<le> nbytes b \<and> \<not> buf_readonly b \<and> buf_contiguous b \<and>
      u64 (ia_chunk_id a) = ia_chunk_id a \<and> u64 (ia_user_size a) = ia_user_size a \<and>
      (case v (ia_chunk_id a) of None \<Rightarrow> False
       | Some xs \<Rightarrow> int (length xs) = ia_user_size a \<and> ia_offset a + ia_length a \<le> int (length xs)))"

definition filled :: "(int \<Rightarrow> bytes option) \<Rightarrow> io_request \<Rightarrow> pybuf \<Rightarrow> pybuf" where
  "filled v req b =
     (let a = rq_address req; n = nat (ia_length a) in
      b\<lparr>buf_data := block_at (nat (ia_offset a)) n (the (v (ia_chunk_id a))) @ drop n (buf_data b)\<rparr>)"

context chunk_store
begin

lemma execute_read:
  assumes "inv s" and "read_fits (view s) bs req"
  shows "\<exists>s'. execute_one L req True (bs, s) =
      (Inr (ia_length (rq_address req)), (bs(rq_buffer req := filled (view s) req (bs (rq_buffer req))), s')) \<and>
    inv s' \<and> room s' = room s \<and> view s' = view s"
proof -
  let ?a = "rq_address req" and ?b = "bs (rq_buffer req)"
  let ?n = "nat (ia_length ?a)"
  from assms(2) obtain xs where f: "0 \<le> ia_offset ?a" "0 \<le> ia_length ?a" "ia_length ?a \<le> nbytes ?b"
    "\<not> buf_readonly ?b" "buf_contiguous ?b" "u64 (ia_chunk_id ?a) = ia_chunk_id ?a" "u64 (ia_user_size ?a) = ia_user_size ?a"
    "view s (ia_chunk_id ?a) = Some xs" "int (length xs) = ia_user_size ?a" "ia_offset ?a + ia_length ?a \<le> int (length xs)"
    "4096 dvd ia_offset ?a" "4096 dvd ia_length ?a"
    by (auto simp: read_fits_def Let_def split: option.splits)
  show ?thesis
  proof (cases "ia_length ?a = 0")
    case True
    then show ?thesis using assms(1) f by (auto simp: execute_one_def filled_def block_at_def)
  next
    case False
    let ?v = "?b\<lparr>buf_data := take ?n (buf_data ?b)\<rparr>"
    let ?d = "ChunkDescriptor (ia_chunk_id ?a) (ia_base_gpa ?a) (ia_user_size ?a)"
    have len: "length (buf_data ?v) = ?n" using f(2,3) by simp
    have d: "d_chunk_id ?d = ia_chunk_id ?a" "d_user_size ?d = int (length xs)" using f by (simp_all add: ChunkDescriptor_def)
    have "view s (d_chunk_id ?d) = Some xs" using d f(8) by simp
    from read_into_ok [OF assms(1) this d(2) f(1), of ?v] len f
    obtain s' where s': "lib_read_into L ?d (ia_offset ?a) ?v s =
        (Inr (ia_length ?a), (?v\<lparr>buf_data := block_at (nat (ia_offset ?a)) ?n xs\<rparr>, s'))"
      "inv s'" "room s' = room s" "view s' = view s" by auto
    then show ?thesis using f False by (auto simp: execute_one_def filled_def Let_def)
  qed
qed

lemma run_reads:
  assumes "inv s" and "\<And>i req rd. (i, req, rd) \<in> set g \<Longrightarrow> rd \<and> read_fits (view s) bs req"
    and "distinct (map (\<lambda>(i, req, rd). rq_buffer req) g)"
  shows "\<exists>s'. run_group L g (bs, s) =
      (map (\<lambda>(i, req, rd). (i, Inr (ia_length (rq_address req)))) g,
       (\<lambda>b. case find (\<lambda>(i, req, rd). rq_buffer req = b) g of
              None \<Rightarrow> bs b | Some (i, req, rd) \<Rightarrow> filled (view s) req (bs b), s')) \<and>
    inv s' \<and> room s' = room s \<and> view s' = view s"
  using assms
proof (induction g arbitrary: bs s)
  case (Cons it g)
  obtain i req rd where it: "it = (i, req, rd)" by (cases it) auto
  have rd: "rd" "read_fits (view s) bs req" using Cons.prems(2) [of i req rd] it by auto
  from execute_read [OF Cons.prems(1) rd(2)] obtain s1 where
    s1: "execute_one L req True (bs, s) = (Inr (ia_length (rq_address req)),
        (bs(rq_buffer req := filled (view s) req (bs (rq_buffer req))), s1))"
      "inv s1" "room s1 = room s" "view s1 = view s" by blast
  define bs1 where "bs1 = bs(rq_buffer req := filled (view s) req (bs (rq_buffer req)))"
  have dist: "rq_buffer req \<notin> (\<lambda>(i, req, rd). rq_buffer req) ` set g" using Cons.prems(3) it by auto
  have fits: "rd' \<and> read_fits (view s1) bs1 req'" if "(i', req', rd') \<in> set g" for i' req' rd'
  proof -
    have "rq_buffer req' \<noteq> rq_buffer req" using dist that by force
    then show ?thesis using Cons.prems(2) [of i' req' rd'] that it s1(4) by (simp add: read_fits_def bs1_def)
  qed
  have dg: "distinct (map (\<lambda>(i, req, rd). rq_buffer req) g)" using Cons.prems(3) it by simp
  have fits': "\<And>i req rd. (i, req, rd) \<in> set g \<Longrightarrow> rd \<and> read_fits (view s1) bs1 req" using fits by blast
  have "\<exists>s'. run_group L g (bs1, s1) =
      (map (\<lambda>(i, req, rd). (i, Inr (ia_length (rq_address req)))) g,
       (\<lambda>b. case find (\<lambda>(i, req, rd). rq_buffer req = b) g of
              None \<Rightarrow> bs1 b | Some (i, req, rd) \<Rightarrow> filled (view s1) req (bs1 b), s')) \<and>
    inv s' \<and> room s' = room s1 \<and> view s' = view s1"
    by (rule Cons.IH [of s1 bs1]) (use s1(2) fits' dg in auto)
  then obtain s2 where
    s2: "run_group L g (bs1, s1) = (map (\<lambda>(i, req, rd). (i, Inr (ia_length (rq_address req)))) g,
       (\<lambda>b. case find (\<lambda>(i, req, rd). rq_buffer req = b) g of
              None \<Rightarrow> bs1 b | Some (i, req, rd) \<Rightarrow> filled (view s) req (bs1 b), s2))"
      "inv s2" "room s2 = room s" "view s2 = view s" unfolding s1(3,4) by blast
  have none: "find (\<lambda>(i, r, d). rq_buffer r = rq_buffer req) g = None"
    using dist by (force simp: find_None_iff)
  have "(case find (\<lambda>(i, req, rd). rq_buffer req = b) g of
          None \<Rightarrow> bs1 b | Some (i, req, rd) \<Rightarrow> filled (view s) req (bs1 b)) =
        (case find (\<lambda>(i, req, rd). rq_buffer req = b) (it # g) of
          None \<Rightarrow> bs b | Some (i, req, rd) \<Rightarrow> filled (view s) req (bs b))" for b
    using none it by (cases "b = rq_buffer req") (auto simp: bs1_def split: option.splits)
  then show ?case using s1(1) [folded bs1_def] s2 rd(1) it by (simp add: Let_def)
qed (simp add: fun_eq_iff)

end

lemma find_unique:
  assumes "distinct (map f xs)" and "x \<in> set xs"
  shows "find (\<lambda>y. f y = f x) xs = Some x"
  using assms by (induction xs) (auto simp: rev_image_eqI)

subsection \<open>A batch that needs more permits than there are\<close>

definition starved :: "int \<Rightarrow> (io_request \<times> bool) list \<Rightarrow> 's io_sys \<Rightarrow> bool" where
  "starved n items y \<longleftrightarrow>
     (\<exists>k rest gs. y_subs y = [Acquiring k rest gs] \<and> k + length rest = length items \<and>
        en_permits (y_eng y) = n - int k \<and> int k \<le> n) \<and>
     en_max_inflight (y_eng y) = Some n \<and> (\<forall>ts \<in> set (y_queues y). ts = []) \<and> y_runs y = [] \<and>
     y_handles y = [IOHandle (map fst items)]"

lemma subs_grow: "io_step L y y' \<Longrightarrow> length (y_subs y) \<le> length (y_subs y')"
  by (induction rule: io_step.induct) auto

lemma starved_step:
  assumes "io_step L y y'" and "starved n items y" and "n < int (length items)" and "length (y_subs y') = 1"
  shows "starved n items y'"
  using assms
proof (induction rule: io_step.induct)
  case (begin_task q y h g ts)
  then have "y_queues y ! q = []" unfolding starved_def by (metis nth_mem)
  then show ?case using begin_task(2) by simp
qed (auto simp: starved_def take_permit_def)

lemma starved_reach:
  assumes "io_reach L y0 y" and "starved n items y0" and "n < int (length items)"
  shows "length (y_subs y) \<ge> 1 \<and> (length (y_subs y) = 1 \<longrightarrow> starved n items y)"
  using assms
proof (induction rule: io_reach.induct)
  case init
  then show ?case by (auto simp: starved_def)
next
  case (next_step y y')
  then show ?case using starved_step [OF next_step(2)] subs_grow [OF next_step(2)] by fastforce
qed

subsection \<open>Properties\<close>

text \<open>A run of one empty read on an engine with two queues and two permits, up to its publication.\<close>

definition demo_engine :: engine where
  "demo_engine = \<lparr>en_num_workers = 1, en_num_queues = 2, en_max_inflight = Some 2, en_permits = 2,
     en_closed = False, en_submitted = 0, en_completed = 0, en_failed = 0, en_inflight = 0\<rparr>"

definition demo_req :: io_request where
  "demo_req = \<lparr>rq_address = \<lparr>ia_chunk_id = 1, ia_base_gpa = 0, ia_offset = 0, ia_length = 0, ia_user_size = 8\<rparr>,
     rq_buffer = 0\<rparr>"

definition demo_mem :: "mem \<times> fake_clib" where
  "demo_mem = (\<lambda>_. bytearray_buf [], demo_lib)"

lemma demo_engine_init: "ConcurrentIOEngine_init 1 2 (Some 2) = Inr demo_engine"
  by (simp add: ConcurrentIOEngine_init_def demo_engine_def)

definition demo_run_state :: "run_phase \<Rightarrow> engine \<Rightarrow> io_handle \<Rightarrow> fake_clib io_sys" where
  "demo_run_state ph e h = \<lparr>y_eng = e, y_handles = [h], y_subs = [Dispatching []], y_queues = [[], []],
     y_shutdown = (\<lambda>_. False),
     y_runs = [\<lparr>ru_exec = 1, ru_handle = 0, ru_results = [(0, Inr 0)], ru_rest = [], ru_phase = ph\<rparr>],
     y_mem = demo_mem, y_sent = (\<lambda>_. [])(1 := [(0, 0, 1)]), y_done = (\<lambda>_. [])(1 := [(0, 0, 1)])\<rparr>"

lemma demo_io_executed:
  "io_reach FakeUMMLib (io_start demo_engine demo_mem)
     (demo_run_state Executing (take_permit demo_engine) (IOHandle [demo_req]))"
proof -
  let ?L = "FakeUMMLib" and ?y0 = "io_start demo_engine demo_mem"
  let ?y1 = "?y0\<lparr>y_handles := [IOHandle [demo_req]], y_subs := [Acquiring 0 [(demo_req, True)] []]\<rparr>"
  let ?gs = "[(1, [(0, demo_req, True)])]"
  let ?y2 = "?y1\<lparr>y_eng := take_permit demo_engine, y_subs := [Acquiring 1 [] ?gs]\<rparr>"
  let ?y3 = "?y2\<lparr>y_subs := [Dispatching ?gs]\<rparr>"
  let ?y4 = "?y3\<lparr>y_subs := [Dispatching []], y_queues := [[], [(0, [(0, demo_req, True)])]],
    y_sent := (\<lambda>_. [])(1 := [(0, 0, 1)])\<rparr>"
  let ?y5 = "?y4\<lparr>y_queues := [[], []], y_runs := [\<lparr>ru_exec = 1, ru_handle = 0, ru_results = [],
    ru_rest = [(0, demo_req, True)], ru_phase = Executing\<rparr>]\<rparr>"
  have "io_step ?L ?y0 ?y1"
    using io_step.submit [of ?y0 ?L "[(demo_req, True)]"] by (simp add: io_start_def demo_engine_def)
  moreover have "io_step ?L ?y1 ?y2"
    using io_step.acquire [of 0 ?y1 0 demo_req True "[]" "[]" ?L]
    by (simp add: io_start_def demo_engine_def add_to_group_def shard_key_def demo_req_def)
  moreover have "io_step ?L ?y2 ?y3" using io_step.acquired [of 0 ?y2 1 ?gs ?L] by (simp add: io_start_def)
  moreover have "io_step ?L ?y3 ?y4"
    using io_step.dispatch [of 0 ?y3 1 "[(0, demo_req, True)]" "[]" 1 ?L]
    by (simp add: io_start_def demo_engine_def executor_for_key_def num_executors_def take_permit_def log_items_def
        demo_req_def numeral_2_eq_2)
  moreover have "io_step ?L ?y4 ?y5"
    using io_step.begin_task [of 1 ?y4 0 "[(0, demo_req, True)]" "[]" ?L]
    by (simp add: io_start_def workers_per_executor_def demo_engine_def take_permit_def numeral_2_eq_2)
  moreover have "io_step ?L ?y5 (demo_run_state Executing (take_permit demo_engine) (IOHandle [demo_req]))"
    using io_step.execute [of 0 ?y5 "y_runs ?y5 ! 0" 0 demo_req True "[]" ?L "Inr 0" demo_mem]
    by (simp add: io_start_def demo_run_state_def execute_one_def demo_mem_def demo_req_def bytearray_buf_def
        log_items_def fun_upd_def)
  ultimately show ?thesis by (meson io_reach.init io_reach.next_step)
qed

lemma demo_io_published:
  "io_reach FakeUMMLib (io_start demo_engine demo_mem)
     (demo_run_state Finished (demo_engine\<lparr>en_submitted := 1, en_completed := 1\<rparr>)
        \<lparr>h_results = [Some (Inr 0)], h_remaining = 0, h_callbacks = []\<rparr>)"
proof -
  let ?e = "demo_engine\<lparr>en_permits := 1, en_submitted := 1, en_completed := 1\<rparr>"
  let ?y6 = "demo_run_state Executing (take_permit demo_engine) (IOHandle [demo_req])"
  let ?y7 = "demo_run_state Publishing ?e (IOHandle [demo_req])"
  have "io_step FakeUMMLib ?y6 ?y7"
    using io_step.finish [of 0 ?y6 "y_runs ?y6 ! 0" FakeUMMLib]
    by (simp add: demo_run_state_def count_group_def n_failed_def take_permit_def demo_engine_def)
  moreover have "io_step FakeUMMLib ?y7 (demo_run_state Finished (demo_engine\<lparr>en_submitted := 1, en_completed := 1\<rparr>)
        \<lparr>h_results = [Some (Inr 0)], h_remaining = 0, h_callbacks = []\<rparr>)"
    using io_step.publish [of 0 ?y7 "y_runs ?y7 ! 0" FakeUMMLib]
    by (simp add: demo_run_state_def release_permits_def demo_engine_def set_many_def IOHandle_def)
  ultimately show ?thesis using demo_io_executed by (meson io_reach.next_step)
qed





text \<open>
  C34. With more than one queue, requests on one chunk go to one executor, and what an executor has
  executed is at any time a prefix of what was handed to it: same-chunk requests run in FIFO order.
\<close>

theorem same_chunk_fifo:
  assumes "ConcurrentIOEngine_init nw nq mi = Inr e" and "1 < nq"
    and "io_reach L (io_start e ms) y" and "q < nat nq"
  shows "(\<exists>rest. y_sent y q = y_done y q @ rest) \<and>
    (\<forall>(h, idx, c) \<in> set (y_sent y q). q = executor_for (y_eng y) c)"
proof -
  have inv: "io_wf y" "io_fifo y" "io_routed y" "en_num_queues (y_eng y) = nq"
    using io_reach_inv [OF assms(1,3)] assms(2) by auto
  then have "q < length (y_queues y)" using assms(2,4) by (simp add: io_wf_def num_executors_def)
  then show ?thesis using inv(2,3) unfolding io_fifo_def io_routed_def by blast
qed

theorem same_chunk_fifo_witness: "executor_for (take_permit demo_engine) 1 = 1"
  using same_chunk_fifo [OF demo_engine_init _ demo_io_executed, of 1] by (simp add: demo_run_state_def)

text \<open>
  \<open>_submit\<close> splits a batch into groups that are exactly the subsequences of the batch with one
  sharding key each, in batch order; no request is lost or duplicated.
\<close>

theorem groups_partition_batch:
  "map_of (group_items e 0 items []) key =
     (let g = filter (\<lambda>(i, req, rd). shard_key e i req = key) (enumerate 0 items)
      in if g = [] then None else Some g)"
  by (simp add: map_of_group_items shard_def Let_def)

text \<open>
  C35. A batch larger than \<open>max_inflight\<close> submitted to an idle engine never makes progress: as long as
  nothing else is submitted, the submitting thread stays in the loop that takes permits, no group is
  dispatched, nothing runs and the handle is never returned.
\<close>

theorem oversized_batch_starves:
  assumes "ConcurrentIOEngine_init nw nq (Some n) = Inr e" and "n < int (length items)"
    and "io_step L (io_start e ms) y0" and "y_subs y0 = [Acquiring 0 items []]"
    and "io_reach L y0 y" and "length (y_subs y) = 1"
  shows "\<exists>k rest gs. y_subs y = [Acquiring k rest gs] \<and> rest \<noteq> [] \<and> int k \<le> n \<and> y_runs y = [] \<and>
    (\<forall>h \<in> set (y_handles y). \<not> handle_done h)"
proof -
  have "y_handles y0 = [IOHandle (map fst items)] \<and> en_permits (y_eng y0) = n \<and> 0 < n \<and>
      en_max_inflight (y_eng y0) = Some n \<and> y_runs y0 = [] \<and> (\<forall>ts \<in> set (y_queues y0). ts = [])"
    using assms(3,4,1)
    by (cases rule: io_step.cases)
      (auto simp: io_start_def ConcurrentIOEngine_init_def Let_def split: if_splits)
  then have "starved n items y0" using assms(4) by (auto simp: starved_def)
  then have s: "starved n items y" using starved_reach [OF assms(5)] assms(2,6) by blast
  then obtain k rest gs where k: "y_subs y = [Acquiring k rest gs]" "k + length rest = length items" "int k \<le> n"
    by (auto simp: starved_def)
  have "0 < length items" using assms(1,2) by (auto simp: ConcurrentIOEngine_init_def split: if_splits)
  then show ?thesis using s k assms(2) by (auto simp: starved_def handle_done_def IOHandle_def)
qed

theorem oversized_batch_starves_witness:
  "\<exists>y. io_step FakeUMMLib (io_start demo_engine demo_mem) y \<and> y_subs y = [Acquiring 0 (replicate 3 (demo_req, True)) []] \<and>
     (\<forall>h \<in> set (y_handles y). \<not> handle_done h)"
proof -
  let ?start = "io_start demo_engine demo_mem" and ?items = "replicate 3 (demo_req, True)"
  let ?y = "?start\<lparr>y_handles := y_handles ?start @ [IOHandle (map fst ?items)], y_subs := y_subs ?start @ [Acquiring 0 ?items []]\<rparr>"
  have st: "io_step FakeUMMLib ?start ?y" by (rule io_step.submit) (simp add: io_start_def demo_engine_def)
  have sub: "y_subs ?y = [Acquiring 0 ?items []]" by (simp add: io_start_def)
  from oversized_batch_starves [OF demo_engine_init _ st sub io_reach.init] sub
  have "\<forall>h \<in> set (y_handles ?y). \<not> handle_done h" by (auto simp:)
  then show ?thesis using st sub by blast
qed

text \<open>
  A batch of in-range page reads with distinct buffers delivers the chunk contents into every buffer
  and the full length as every result, in whatever order the requests are executed.
\<close>

theorem reads_schedule_independent:
  assumes "chunk_store L view good room" and "good s"
    and "\<And>i req rd. (i, req, rd) \<in> set g \<Longrightarrow> rd \<and> read_fits (view s) bs req"
    and "distinct (map (\<lambda>(i, req, rd). rq_buffer req) g)" and "mset g' = mset g"
  shows "\<exists>s' bs'. run_group L g' (bs, s) = (map (\<lambda>(i, req, rd). (i, Inr (ia_length (rq_address req)))) g', (bs', s')) \<and>
    (\<forall>(i, req, rd) \<in> set g. bs' (rq_buffer req) = filled (view s) req (bs (rq_buffer req)))"
proof -
  have st: "set g' = set g" using assms(5) by (metis set_mset_mset)
  have dist: "distinct (map (\<lambda>(i, req, rd). rq_buffer req) g')"
    using assms(4,5) by (metis mset_eq_imp_distinct_iff mset_map)
  from chunk_store.run_reads [OF assms(1,2), of g' bs] assms(3) st dist obtain s' where
    s': "run_group L g' (bs, s) = (map (\<lambda>(i, req, rd). (i, Inr (ia_length (rq_address req)))) g',
       (\<lambda>b. case find (\<lambda>(i, req, rd). rq_buffer req = b) g' of
              None \<Rightarrow> bs b | Some (i, req, rd) \<Rightarrow> filled (view s) req (bs b), s'))" by blast
  have "(case find (\<lambda>(i, r, d). rq_buffer r = rq_buffer req) g' of
      None \<Rightarrow> bs (rq_buffer req) | Some (i, r, d) \<Rightarrow> filled (view s) r (bs (rq_buffer req))) =
      filled (view s) req (bs (rq_buffer req))" if "(i, req, rd) \<in> set g" for i req rd
    using find_unique [OF dist, of "(i, req, rd)"] that st by (simp add: case_prod_beta')
  then show ?thesis using s' by (intro exI) (auto simp: fun_eq_iff)
qed

end
