(* ===== verification/PyValues.thy ===== *)
theory PyValues
  imports Prelude
begin

section \<open>JSON values and conversions of the Python runtime\<close>

text \<open>
  The values \<open>json.load\<close> produces for the configuration and trace files (objects keep their key
  order; numbers with a fraction or exponent are not modelled), and the built-in conversions
  \<open>int\<close> and \<open>str\<close> on them. Strings are ASCII.
\<close>

datatype jval =
    JNull | JBool bool | JInt int | JStr string | JArr "jval list" | JObj "(string \<times> jval) list"

type_synonym jdict = "(string \<times> jval) list"

subsection \<open>int(s)\<close>

definition is_space :: "char \<Rightarrow> bool" where
  "is_space ch \<longleftrightarrow> (let n = of_char ch :: nat in n = 32 \<or> (9 \<le> n \<and> n \<le> 13) \<or> (28 \<le> n \<and> n \<le> 31))"

definition strip :: "string \<Rightarrow> string" where
  "strip s = rev (dropWhile is_space (rev (dropWhile is_space s)))"

definition is_digit :: "char \<Rightarrow> bool" where
  "is_digit ch \<longleftrightarrow> (let n = of_char ch :: nat in 48 \<le> n \<and> n \<le> 57)"

text \<open>Digits with single underscores between them; the flag says that the previous character was a digit.\<close>

fun digits_val :: "nat \<Rightarrow> bool \<Rightarrow> string \<Rightarrow> nat option" where
  "digits_val acc prev [] = (if prev then Some acc else None)"
| "digits_val acc prev (ch # cs) =
     (if is_digit ch then digits_val (10 * acc + (of_char ch - 48)) True cs
      else if ch = CHR ''_'' \<and> prev then digits_val acc False cs else None)"

definition parse_int :: "string \<Rightarrow> int option" where
  "parse_int s =
     (case strip s of
        [] \<Rightarrow> None
      | ch # cs \<Rightarrow>
          if ch = CHR ''-'' then map_option (\<lambda>n. - int n) (digits_val 0 False cs)
          else if ch = CHR ''+'' then map_option int (digits_val 0 False cs)
          else map_option int (digits_val 0 False (ch # cs)))"

fun py_int :: "jval \<Rightarrow> int result" where
  "py_int (JInt i) = Inr i"
| "py_int (JBool b) = Inr (if b then 1 else 0)"
| "py_int (JStr s) = (case parse_int s of None \<Rightarrow> Inl ValueError | Some i \<Rightarrow> Inr i)"
| "py_int JNull = Inl TypeError"
| "py_int (JArr xs) = Inl TypeError"
| "py_int (JObj d) = Inl TypeError"

subsection \<open>str(v)\<close>

definition show_int :: "int \<Rightarrow> string" where
  "show_int i = (if i < 0 then CHR ''-'' # show_nat (nat (- i)) else show_nat (nat i))"

fun join :: "string \<Rightarrow> string list \<Rightarrow> string" where
  "join sep [] = []"
| "join sep [x] = x"
| "join sep (x # y # xs) = x @ sep @ join sep (y # xs)"

text \<open>\<open>repr\<close> without escapes; \<open>str\<close> differs from it on strings only.\<close>

fun py_repr :: "jval \<Rightarrow> string" where
  "py_repr JNull = ''None''"
| "py_repr (JBool b) = (if b then ''True'' else ''False'')"
| "py_repr (JInt i) = show_int i"
| "py_repr (JStr s) = [CHR 0x27] @ s @ [CHR 0x27]"
| "py_repr (JArr xs) = ''['' @ join '', '' (map py_repr xs) @ '']''"
| "py_repr (JObj d) = ''{'' @ join '', '' (map (\<lambda>(k, v). [CHR 0x27] @ k @ [CHR 0x27, CHR 0x3A, CHR 0x20] @ py_repr v) d) @ ''}''"

definition py_str :: "jval \<Rightarrow> string" where
  "py_str v = (case v of JStr s \<Rightarrow> s | _ \<Rightarrow> py_repr v)"

definition lower_char :: "char \<Rightarrow> char" where
  "lower_char ch = (let n = of_char ch :: nat in if 65 \<le> n \<and> n \<le> 90 then char_of (n + 32) else ch)"

definition lower :: "string \<Rightarrow> string" where
  "lower s = map lower_char s"

subsection \<open>Dictionaries\<close>

definition dict_get :: "('k \<times> 'v) list \<Rightarrow> 'k \<Rightarrow> 'v \<Rightarrow> 'v" where
  "dict_get d k dflt = (case map_of d k of None \<Rightarrow> dflt | Some v \<Rightarrow> v)"

text \<open>\<open>dict.update\<close>: keys already present keep their position.\<close>

definition dict_update :: "('k \<times> 'v) list \<Rightarrow> ('k \<times> 'v) list \<Rightarrow> ('k \<times> 'v) list" where
  "dict_update d e = foldl (\<lambda>acc (k, v). dict_set k v acc) d e"

lemma map_of_dict_update: "distinct (map fst e) \<Longrightarrow> map_of (dict_update d e) = map_of d ++ map_of e"
proof (induction e arbitrary: d)
  case (Cons p e)
  obtain k v where p: "p = (k, v)" by fastforce
  have "map_of (dict_update (dict_set k v d) e) = (map_of d)(k \<mapsto> v) ++ map_of e"
    using Cons by simp
  also have "\<dots> = map_of d ++ (map_of e)(k \<mapsto> v)"
  proof
    fix x
    have "map_of e k = None" using Cons.prems p by (simp add: map_of_eq_None_iff)
    then show "((map_of d)(k \<mapsto> v) ++ map_of e) x = (map_of d ++ (map_of e)(k \<mapsto> v)) x"
      by (auto simp: map_add_def split: option.splits)
  qed
  finally show ?case using p by (auto simp: dict_update_def map_add_def fun_eq_iff)
qed (simp add: dict_update_def)

subsection \<open>Decimal round trip\<close>

lemma is_digit_char: "d < 10 \<Longrightarrow> is_digit (char_of (48 + d)) \<and> of_char (char_of (48 + d) :: char) = (48 + d :: nat)"
  by (simp add: is_digit_def)

lemma show_nat_digits: "list_all is_digit (show_nat n) \<and> show_nat n \<noteq> []"
proof (induction n rule: show_nat.induct)
  case (1 n)
  then show ?case by (subst (1 2) show_nat.simps) (auto simp: is_digit_char)
qed

lemma digits_val_digits:
  "list_all is_digit s \<Longrightarrow> digits_val acc p s = (if p \<or> s \<noteq> [] then Some (foldl (\<lambda>a ch. 10 * a + (of_char ch - 48)) acc s) else None)"
  by (induction s arbitrary: acc p) auto

lemma foldl_show_nat: "foldl (\<lambda>a ch. 10 * a + (of_char ch - 48)) 0 (show_nat n) = n"
proof (induction n rule: show_nat.induct)
  case (1 n)
  show ?case
  proof (cases "n < 10")
    case True
    then show ?thesis by (subst show_nat.simps) (simp add: is_digit_char)
  next
    case False
    have "foldl (\<lambda>a ch. 10 * a + (of_char ch - 48)) 0 (show_nat n) = 10 * (n div 10) + n mod 10"
      using False 1 by (subst show_nat.simps) (simp add: is_digit_char)
    then show ?thesis by simp
  qed
qed

lemma digit_no_space: "is_digit ch \<Longrightarrow> \<not> is_space ch \<and> ch \<noteq> CHR ''-'' \<and> ch \<noteq> CHR ''+''"
  by (auto simp: is_digit_def is_space_def Let_def)

lemma strip_digits: "list_all (\<lambda>ch. \<not> is_space ch) s \<Longrightarrow> strip s = s"
proof -
  have *: "list_all (\<lambda>ch. \<not> is_space ch) t \<Longrightarrow> dropWhile is_space t = t" for t by (cases t) auto
  assume "list_all (\<lambda>ch. \<not> is_space ch) s"
  then show ?thesis using * [of s] * [of "rev s"] by (simp add: strip_def)
qed

lemma parse_int_show_int: "parse_int (show_int i) = Some i"
proof -
  have d: "list_all is_digit (show_nat n)" "show_nat n \<noteq> []" for n using show_nat_digits by auto
  have sp: "list_all (\<lambda>ch. \<not> is_space ch) (show_nat n)" for n
    using d(1) [of n] digit_no_space by (auto simp: list_all_iff)
  have val: "digits_val 0 False (show_nat n) = Some n" for n
    using digits_val_digits [OF d(1)] d(2) foldl_show_nat by simp
  show ?thesis
  proof (cases "i < 0")
    case True
    have "strip (show_int i) = show_int i"
      using True sp by (intro strip_digits) (simp add: show_int_def is_space_def)
    then show ?thesis using True val by (simp add: parse_int_def show_int_def)
  next
    case False
    have "strip (show_nat (nat i)) = show_nat (nat i)" by (intro strip_digits sp)
    moreover obtain ch cs where cs: "show_nat (nat i) = ch # cs" using d(2) [of "nat i"] by (cases "show_nat (nat i)") auto
    moreover have "ch \<noteq> CHR ''-''" "ch \<noteq> CHR ''+''" using d(1) [of "nat i"] cs digit_no_space by auto
    ultimately show ?thesis using False val [of "nat i"] by (simp add: parse_int_def show_int_def)
  qed
qed

end
