(* ===== verification/Strategy.thy ===== *)
theory Strategy
  imports PyValues
begin

section \<open>Placement strategies and their configuration\<close>

text \<open>
  \<open>virtual_media_strategy.py\<close> maps a semantic key (layer, token) to a device with a deterministic
  position hash; \<open>virtual_media_config.py\<close> merges the configuration file over the defaults and
  hands the strategy its options. Modelled: the trial-division primality test, the constructor's
  parameter checks, \<open>locate\<close>, \<open>locate_batch\<close>, the registry and the configuration functions.
  A strategy object is a record of its device count and its two methods; the file system is an
  argument (the parsed contents of the file, if it exists).
\<close>

subsection \<open>is\_prime\<close>

function is_prime_loop :: "int \<Rightarrow> int \<Rightarrow> bool" where
  "is_prime_loop n i =
     (if i * i \<le> n then (if n mod i = 0 then False else is_prime_loop n (i + 2)) else True)"
  by pat_completeness auto
termination
proof (relation "measure (\<lambda>(n, i). nat (n + 2 - i))", goal_cases)
  case (2 n i)
  have "i \<le> i * i" by (cases "i \<le> 0") (use mult_nonneg_nonneg [of "-i" "-i"] in \<open>auto simp: mult_le_cancel_left1\<close>)
  then have "i \<le> n" using 2(1) by linarith
  then show ?case by simp
qed simp

declare is_prime_loop.simps [simp del]

definition is_prime :: "int \<Rightarrow> bool" where
  "is_prime n =
     (if n < 2 then False else if n mod 2 = 0 then n = 2 else is_prime_loop n 3)"

subsection \<open>PositionHashStrategy\<close>

definition DEFAULT_STEP_IDX :: int where "DEFAULT_STEP_IDX = 17"
definition DEFAULT_STEP_LAYER :: int where "DEFAULT_STEP_LAYER = 23"
definition DEFAULT_PRIME :: int where "DEFAULT_PRIME = 2147483647"

record position_hash =
  ph_num_devices :: int
  ph_step_idx :: int
  ph_step_layer :: int
  ph_prime :: int

text \<open>\<open>int(config.get(key, default))\<close>.\<close>

definition cfg_int :: "jdict \<Rightarrow> string \<Rightarrow> int \<Rightarrow> int result" where
  "cfg_int cfg key dflt = py_int (dict_get cfg key (JInt dflt))"

definition ph_check_steps :: "int \<Rightarrow> int \<Rightarrow> int \<Rightarrow> int \<Rightarrow> bool" where
  "ph_check_steps n step_idx step_layer prime \<longleftrightarrow>
     is_prime step_idx \<and> n < step_idx \<and> is_prime step_layer \<and> n < step_layer \<and>
     step_idx \<noteq> step_layer \<and> is_prime prime \<and> max step_idx step_layer < prime"

text \<open>The domain bound is checked only when both maxima are configured (a JSON null counts as absent).\<close>

definition ph_check_domain :: "jdict \<Rightarrow> position_hash \<Rightarrow> position_hash result" where
  "ph_check_domain cfg ph =
     (let max_t = dict_get cfg ''max_token_idx'' JNull; max_l = dict_get cfg ''max_layer_id'' JNull in
      if max_t = JNull \<or> max_l = JNull then Inr ph
      else case (py_int max_t, py_int max_l) of
        (Inr t, Inr l) \<Rightarrow>
          (if ph_prime ph \<le> t * ph_step_idx ph + l * ph_step_layer ph then Inl ValueError else Inr ph)
      | (Inl e, _) \<Rightarrow> Inl e
      | (_, Inl e) \<Rightarrow> Inl e)"

definition PositionHash_init :: "int \<Rightarrow> jdict \<Rightarrow> position_hash result" where
  "PositionHash_init n cfg =
     (if n \<le> 0 then Inl ValueError
      else case cfg_int cfg ''step_idx'' DEFAULT_STEP_IDX of Inl e \<Rightarrow> Inl e
      | Inr si \<Rightarrow> (case cfg_int cfg ''step_layer'' DEFAULT_STEP_LAYER of Inl e \<Rightarrow> Inl e
      | Inr sl \<Rightarrow> (case cfg_int cfg ''prime'' DEFAULT_PRIME of Inl e \<Rightarrow> Inl e
      | Inr p \<Rightarrow>
          if \<not> ph_check_steps n si sl p then Inl ValueError
          else ph_check_domain cfg
            \<lparr>ph_num_devices = n, ph_step_idx = si, ph_step_layer = sl, ph_prime = p\<rparr>)))"

type_synonym key = "int \<times> int"

definition ph_hash :: "position_hash \<Rightarrow> key \<Rightarrow> int" where
  "ph_hash ph k = ((snd k * ph_step_idx ph + fst k * ph_step_layer ph) mod ph_prime ph) mod ph_num_devices ph"

definition ph_locate :: "position_hash \<Rightarrow> key \<Rightarrow> int result" where
  "ph_locate ph k = (if snd k < 0 \<or> fst k < 0 then Inl ValueError else Inr (ph_hash ph k))"

definition ph_locate_batch :: "position_hash \<Rightarrow> key list \<Rightarrow> int list result" where
  "ph_locate_batch ph ks = Inr (map (ph_hash ph) ks)"

subsection \<open>Strategy objects and the registry\<close>

record strategy =
  st_num_devices :: int
  st_locate :: "key \<Rightarrow> int result"
  st_locate_batch :: "key list \<Rightarrow> int list result"

text \<open>A strategy that does not override \<open>locate_batch\<close> inherits the loop over \<open>locate\<close>.\<close>

definition base_locate_batch :: "(key \<Rightarrow> int result) \<Rightarrow> key list \<Rightarrow> int list result" where
  "base_locate_batch loc ks = map_result loc ks"

definition position_hash_strategy :: "position_hash \<Rightarrow> strategy" where
  "position_hash_strategy ph = \<lparr>st_num_devices = ph_num_devices ph, st_locate = ph_locate ph,
     st_locate_batch = ph_locate_batch ph\<rparr>"

type_synonym strategy_cls = "int \<Rightarrow> jdict \<Rightarrow> strategy result"
type_synonym registry = "(string \<times> strategy_cls) list"

definition PositionHashStrategy :: strategy_cls where
  "PositionHashStrategy n cfg =
     (case PositionHash_init n cfg of Inl e \<Rightarrow> Inl e | Inr ph \<Rightarrow> Inr (position_hash_strategy ph))"

definition builtin_registry :: registry where
  "builtin_registry = [(''position_hash'', PositionHashStrategy)]"

text \<open>\<open>None\<close> stands for an argument that is not a subclass of \<open>PlacementStrategy\<close>.\<close>

definition register_strategy :: "string \<Rightarrow> strategy_cls option \<Rightarrow> registry \<Rightarrow> (unit, registry) outcome" where
  "register_strategy name cls reg =
     (case cls of None \<Rightarrow> (Inl TypeError, reg) | Some c \<Rightarrow> (Inr (), dict_set name c reg))"

definition list_strategies :: "registry \<Rightarrow> string list" where
  "list_strategies reg = map fst reg"

definition create_strategy :: "registry \<Rightarrow> string \<Rightarrow> int \<Rightarrow> jdict \<Rightarrow> strategy result" where
  "create_strategy reg name n cfg =
     (case map_of reg name of None \<Rightarrow> Inl ValueError | Some cls \<Rightarrow> cls n cfg)"

subsection \<open>Configuration\<close>

definition DEFAULT_SUPER_PAGE_BYTES :: int where "DEFAULT_SUPER_PAGE_BYTES = 2 * 1024 * 1024"

definition default_config :: jdict where
  "default_config = [(''strategy'', JStr ''position_hash''), (''step_idx'', JInt 17),
     (''step_layer'', JInt 23), (''prime'', JInt 2147483647),
     (''super_page_bytes'', JInt DEFAULT_SUPER_PAGE_BYTES),
     (''flush_policy'', JStr ''on_request_end''), (''max_topk'', JInt 512)]"

definition load_config :: "jval option \<Rightarrow> jdict result" where
  "load_config file =
     (case file of
        None \<Rightarrow> Inr default_config
      | Some (JObj d) \<Rightarrow> Inr (dict_update default_config d)
      | Some _ \<Rightarrow> Inl ValueError)"

definition get_strategy_name :: "jdict \<Rightarrow> string" where
  "get_strategy_name cfg = lower (py_str (dict_get cfg ''strategy'' (JStr ''position_hash'')))"

definition media_keys :: "string list" where
  "media_keys = [''strategy'', ''super_page_bytes'', ''super_page_bytes_per_device'',
     ''flush_policy'', ''max_topk'']"

definition get_strategy_options :: "jdict \<Rightarrow> jdict" where
  "get_strategy_options cfg = filter (\<lambda>(k, v). k \<notin> set media_keys) cfg"

subsection \<open>Correctness of the primality test\<close>

text \<open>No divisor strictly between one and the number.\<close>

definition no_divisor :: "int \<Rightarrow> bool" where
  "no_divisor n \<longleftrightarrow> 2 \<le> n \<and> (\<forall>d. 1 < d \<and> d < n \<longrightarrow> \<not> d dvd n)"

lemma small_divisor:
  assumes "(d::int) dvd n" and "1 < d" and "d < n"
  shows "\<exists>e. e dvd n \<and> 1 < e \<and> e \<le> d \<and> e * e \<le> n"
proof -
  obtain k where k: "n = d * k" using assms(1) by blast
  have pos: "0 < d" "0 < n" using assms by auto
  then have "0 < k" using k by (simp add: zero_less_mult_iff)
  have "1 < k" using assms(3) k pos \<open>0 < k\<close> by (cases "k = 1") auto
  show ?thesis
  proof (cases "d \<le> k")
    case True
    then have "d * d \<le> n" using k pos by (simp add: mult_left_mono)
    then show ?thesis using assms by auto
  next
    case False
    then have "k * k \<le> n" using k \<open>0 < k\<close> by (simp add: mult_right_mono)
    then show ?thesis using False \<open>1 < k\<close> k by (intro exI [of _ k]) auto
  qed
qed

lemma is_prime_loop_iff:
  "odd n \<Longrightarrow> odd i \<Longrightarrow> 3 \<le> i \<Longrightarrow>
   is_prime_loop n i \<longleftrightarrow> (\<forall>d. odd d \<and> i \<le> d \<and> d * d \<le> n \<longrightarrow> \<not> d dvd n)"
proof (induction n i rule: is_prime_loop.induct)
  case (1 n i)
  have sq: "i * i \<le> d * d" if "i \<le> d" for d using that 1(4) by (intro mult_mono) auto
  show ?case
  proof (cases "i * i \<le> n \<and> n mod i \<noteq> 0")
    case True
    have step: "odd d \<and> i \<le> d \<longleftrightarrow> d = i \<or> odd d \<and> i + 2 \<le> d" for d
    proof -
      have "d \<noteq> i + 1" if "odd d" using that 1(3) by auto
      then show ?thesis using 1(3) by (auto simp: le_less)
    qed
    have "is_prime_loop n i \<longleftrightarrow> is_prime_loop n (i + 2)"
      using True by (subst is_prime_loop.simps) simp
    also have "\<dots> \<longleftrightarrow> (\<forall>d. odd d \<and> i + 2 \<le> d \<and> d * d \<le> n \<longrightarrow> \<not> d dvd n)"
      using True 1 by simp
    also have "\<dots> \<longleftrightarrow> (\<forall>d. odd d \<and> i \<le> d \<and> d * d \<le> n \<longrightarrow> \<not> d dvd n)"
      using True step by (metis dvd_imp_mod_0)
    finally show ?thesis .
  next
    case False
    then show ?thesis using 1(3) sq by (subst is_prime_loop.simps) (auto simp: mod_0_imp_dvd dest: order_trans)
  qed
qed

lemma is_prime_iff: "is_prime n \<longleftrightarrow> no_divisor n"
proof -
  consider "n < 2" | "n = 2" | "2 < n" "even n" | "2 < n" "odd n" by (cases "n = 2"; cases "n < 2"; cases "even n") auto
  then show ?thesis
  proof cases
    case 2
    then show ?thesis by (auto simp: is_prime_def no_divisor_def)
  next
    case 3
    then have "\<not> no_divisor n" by (auto simp: no_divisor_def intro: exI [of _ 2])
    then show ?thesis using 3 by (simp add: is_prime_def even_iff_mod_2_eq_zero)
  next
    case 4
    have "is_prime n \<longleftrightarrow> (\<forall>d. odd d \<and> 3 \<le> d \<and> d * d \<le> n \<longrightarrow> \<not> d dvd n)"
      using 4 is_prime_loop_iff [of n 3] by (simp add: is_prime_def even_iff_mod_2_eq_zero)
    also have "\<dots> \<longleftrightarrow> no_divisor n"
    proof
      assume l: "\<forall>d. odd d \<and> 3 \<le> d \<and> d * d \<le> n \<longrightarrow> \<not> d dvd n"
      show "no_divisor n"
        unfolding no_divisor_def
      proof (intro conjI allI impI notI)
        fix d assume d: "1 < d \<and> d < n" "d dvd n"
        from small_divisor [OF d(2)] d(1) obtain e where e: "e dvd n" "1 < e" "e * e \<le> n" by auto
        have "odd e" using e(1) 4(2) dvd_trans by blast
        then have "3 \<le> e" using e(2) by presburger
        then show False using l e \<open>odd e\<close> by blast
      qed (use 4 in simp)
    next
      assume r: "no_divisor n"
      show "\<forall>d. odd d \<and> 3 \<le> d \<and> d * d \<le> n \<longrightarrow> \<not> d dvd n"
      proof (intro allI impI)
        fix d assume d: "odd d \<and> 3 \<le> d \<and> d * d \<le> n"
        then have "3 * d \<le> d * d" by (intro mult_right_mono) auto
        then have "d < n" using d by linarith
        then show "\<not> d dvd n" using r d by (simp add: no_divisor_def)
      qed
    qed
    finally show ?thesis .
  qed (simp add: is_prime_def no_divisor_def)
qed

subsection \<open>What a constructed strategy satisfies\<close>

definition ph_ok :: "position_hash \<Rightarrow> bool" where
  "ph_ok ph \<longleftrightarrow> 0 < ph_num_devices ph \<and>
     ph_check_steps (ph_num_devices ph) (ph_step_idx ph) (ph_step_layer ph) (ph_prime ph)"

lemma PositionHash_init_ok:
  "PositionHash_init n cfg = Inr ph \<Longrightarrow> ph_ok ph \<and> ph_num_devices ph = n"
  by (auto simp: PositionHash_init_def ph_check_domain_def ph_ok_def Let_def split: if_splits sum.splits)

lemma no_divisor_coprime: "no_divisor p \<Longrightarrow> 0 < n \<Longrightarrow> n < p \<Longrightarrow> coprime p n"
proof (rule ccontr)
  assume p: "no_divisor p" "0 < n" "n < p" and "\<not> coprime p n"
  then have "gcd p n \<noteq> 1" "0 < gcd p n" "gcd p n \<le> n" by (auto simp: coprime_iff_gcd_eq_1 gcd_le2_int)
  then have "1 < gcd p n" "gcd p n < p" using p(3) by linarith+
  then show False using p(1) gcd_dvd1 [of p n] unfolding no_divisor_def by blast
qed

lemma residues_cover:
  assumes "coprime step n" and "0 < (n::int)"
  shows "inj_on (\<lambda>i. (c + int i * step) mod n) {0..<nat n}"
    and "(\<lambda>i. (c + int i * step) mod n) ` {0..<nat n} = {0..<n}"
proof -
  let ?f = "\<lambda>i. (c + int i * step) mod n"
  show inj: "inj_on ?f {0..<nat n}"
  proof (rule inj_onI)
    fix i j assume ij: "i \<in> {0..<nat n}" "j \<in> {0..<nat n}" and eq: "?f i = ?f j"
    have "n dvd (c + int i * step) - (c + int j * step)" using eq by (simp add: mod_eq_dvd_iff)
    then have "n dvd (int i - int j) * step" by (simp add: algebra_simps)
    then have "n dvd int i - int j" using assms(1) by (simp add: coprime_commute coprime_dvd_mult_left_iff)
    moreover have "\<bar>int i - int j\<bar> < n" using ij by auto
    ultimately have "int i - int j = 0" using zdvd_imp_le [of n "\<bar>int i - int j\<bar>"] by fastforce
    then show "i = j" by simp
  qed
  show "?f ` {0..<nat n} = {0..<n}"
  proof (rule card_subset_eq)
    show "?f ` {0..<nat n} \<subseteq> {0..<n}" using assms(2) by auto
    show "card (?f ` {0..<nat n}) = card {0..<n}" using card_image [OF inj] assms(2) by simp
  qed simp
qed

text \<open>\<open>n\<close> keys whose hash sums are an arithmetic progression below the prime hit every device once.\<close>

lemma progression_covers:
  assumes "ph_ok ph" and "no_divisor step" and "ph_num_devices ph < step"
    and "\<And>i. i < nat (ph_num_devices ph) \<Longrightarrow>
      0 \<le> fst (k i) \<and> 0 \<le> snd (k i) \<and>
      snd (k i) * ph_step_idx ph + fst (k i) * ph_step_layer ph = c + int i * step \<and>
      c + int i * step < ph_prime ph \<and> 0 \<le> c + int i * step"
  shows "\<exists>ds. map_result (ph_locate ph) (map k [0..<nat (ph_num_devices ph)]) = Inr ds \<and>
     distinct ds \<and> set ds = {0..<ph_num_devices ph}"
proof -
  let ?n = "ph_num_devices ph" and ?f = "\<lambda>i. (c + int i * step) mod ph_num_devices ph"
  have "0 < ?n" using assms(1) by (simp add: ph_ok_def)
  then have cover: "inj_on ?f {0..<nat ?n}" "?f ` {0..<nat ?n} = {0..<?n}"
    using residues_cover [OF no_divisor_coprime [OF assms(2) _ assms(3)]] by auto
  have loc: "ph_locate ph (k i) = Inr (?f i)" if "i < nat ?n" for i
    using assms(4) [OF that] by (auto simp: ph_locate_def ph_hash_def)
  have "map_result (ph_locate ph) (map k [0..<nat ?n]) = Inr (map ?f [0..<nat ?n])"
    using loc by (simp add: map_result_Inr_iff list_all2_conv_all_nth)
  moreover have "distinct (map ?f [0..<nat ?n])" "set (map ?f [0..<nat ?n]) = {0..<?n}"
    using cover by (simp_all add: distinct_map)
  ultimately show ?thesis by blast
qed

subsection \<open>The contract of a placement strategy\<close>

text \<open>
  What the media layer relies on: a located device exists, and the batch operation agrees with the
  single one wherever the latter succeeds. \<open>ok\<close> describes the parameters for which the laws hold.
\<close>

locale placement =
  fixes ok :: "'p \<Rightarrow> bool" and strat :: "'p \<Rightarrow> strategy"
  assumes devices_pos: "ok p \<Longrightarrow> 0 < st_num_devices (strat p)"
    and locate_range: "\<lbrakk>ok p; st_locate (strat p) k = Inr d\<rbrakk> \<Longrightarrow> 0 \<le> d \<and> d < st_num_devices (strat p)"
    and batch_agrees: "\<lbrakk>ok p; map_result (st_locate (strat p)) ks = Inr ds\<rbrakk> \<Longrightarrow>
      st_locate_batch (strat p) ks = Inr ds"
begin

lemma batch_range:
  assumes "ok p" and "map_result (st_locate (strat p)) ks = Inr ds" and "d \<in> set ds"
  shows "0 \<le> d \<and> d < st_num_devices (strat p)"
proof -
  obtain i where "i < length ds" "d = ds ! i" using assms(3) by (auto simp: in_set_conv_nth)
  then have "st_locate (strat p) (ks ! i) = Inr d"
    using assms(2) by (auto simp: map_result_Inr_iff list_all2_conv_all_nth)
  then show ?thesis by (rule locate_range [OF assms(1)])
qed

lemma batch_single: "ok p \<Longrightarrow> st_locate (strat p) k = Inr d \<Longrightarrow> st_locate_batch (strat p) [k] = Inr [d]"
  by (rule batch_agrees) auto

end

interpretation ph: placement ph_ok position_hash_strategy
proof (unfold_locales, goal_cases)
  case (3 p ks ds)
  have "d = ph_hash p k" if "ph_locate p k = Inr d" for k d
    using that by (auto simp: ph_locate_def split: if_splits)
  then have "list_all2 (\<lambda>k d. d = ph_hash p k) ks ds"
    using 3(2) by (auto simp: map_result_Inr_iff position_hash_strategy_def elim: list_all2_mono)
  then have "ds = map (ph_hash p) ks" by (auto simp: list_all2_conv_all_nth intro: nth_equalityI)
  then show ?case by (simp add: position_hash_strategy_def ph_locate_batch_def)
qed (auto simp: ph_ok_def position_hash_strategy_def ph_locate_def ph_hash_def split: if_splits)

subsection \<open>Properties\<close>

text \<open>
  The trial-division test accepts exactly the integers from two on that have no divisor strictly
  between one and themselves.
\<close>

theorem is_prime_correct: "is_prime n \<longleftrightarrow> 2 \<le> n \<and> (\<forall>d. 1 < d \<and> d < n \<longrightarrow> \<not> d dvd n)"
  using is_prime_iff by (simp add: no_divisor_def)

theorem is_prime_correct_witness: "is_prime 23 \<and> \<not> is_prime 21"
proof -
  have "\<not> is_prime 21" using is_prime_correct [of 21] by (auto intro: exI [of _ 3])
  moreover have "is_prime 23" by code_simp
  ultimately show ?thesis by blast
qed

text \<open>
  C29. Any \<open>n\<close> consecutive tokens of one layer, and any \<open>n\<close> consecutive layers of one token, are placed
  on all \<open>n\<close> devices, each device exactly once, as long as the hash sum does not wrap at the prime.
\<close>

theorem consecutive_keys_cover_devices:
  assumes "PositionHash_init n cfg = Inr ph" and "0 \<le> t" and "0 \<le> l"
    and "(t + n - 1) * ph_step_idx ph + (l + n - 1) * ph_step_layer ph < ph_prime ph"
  shows "(\<exists>ds. map_result (ph_locate ph) (map (\<lambda>i. (l, t + int i)) [0..<nat n]) = Inr ds \<and>
            distinct ds \<and> set ds = {0..<n}) \<and>
         (\<exists>ds. map_result (ph_locate ph) (map (\<lambda>i. (l + int i, t)) [0..<nat n]) = Inr ds \<and>
            distinct ds \<and> set ds = {0..<n})"
proof -
  have ok: "ph_ok ph" and n: "ph_num_devices ph = n" using PositionHash_init_ok [OF assms(1)] by auto
  then have st: "no_divisor (ph_step_idx ph)" "no_divisor (ph_step_layer ph)"
    "n < ph_step_idx ph" "n < ph_step_layer ph" "0 < n"
    by (simp_all add: ph_ok_def ph_check_steps_def is_prime_iff)
  have m: "a * s \<le> b * s" if "a \<le> b" "0 < s" for a b s :: int using that by (simp add: mult_right_mono)
  have bound: "(t + int i) * ph_step_idx ph + (l + int j) * ph_step_layer ph < ph_prime ph \<and>
      0 \<le> (t + int i) * ph_step_idx ph + (l + int j) * ph_step_layer ph" if "i < nat n" "j < nat n" for i j
  proof -
    have "t + int i \<le> t + n - 1" "l + int j \<le> l + n - 1" using that by linarith+
    then have "(t + int i) * ph_step_idx ph \<le> (t + n - 1) * ph_step_idx ph"
      "(l + int j) * ph_step_layer ph \<le> (l + n - 1) * ph_step_layer ph" using m st by auto
    moreover have "0 \<le> (t + int i) * ph_step_idx ph" "0 \<le> (l + int j) * ph_step_layer ph"
      using st assms(2,3) by simp_all
    ultimately show ?thesis using assms(4) by linarith
  qed
  show ?thesis
    using progression_covers [OF ok st(1), of "\<lambda>i. (l, t + int i)" "t * ph_step_idx ph + l * ph_step_layer ph"]
      progression_covers [OF ok st(2), of "\<lambda>i. (l + int i, t)" "t * ph_step_idx ph + l * ph_step_layer ph"]
      n st assms(2,3) bound bound [of 0] bound [of _ 0] by (simp add: algebra_simps)
qed

text \<open>The steps and the prime of the shipped configuration file, with a domain given.\<close>

definition sized_options :: jdict where
  "sized_options = [(''step_idx'', JInt 17), (''step_layer'', JInt 23), (''prime'', JInt 2229299),
     (''max_token_idx'', JInt 131000), (''max_layer_id'', JInt 96)]"

lemma sized_init:
  "PositionHash_init 4 sized_options =
     Inr \<lparr>ph_num_devices = 4, ph_step_idx = 17, ph_step_layer = 23, ph_prime = 2229299\<rparr>"
  by code_simp

theorem consecutive_keys_cover_devices_witness:
  "\<exists>ds. map_result (ph_locate \<lparr>ph_num_devices = 4, ph_step_idx = 17, ph_step_layer = 23, ph_prime = 2229299\<rparr>)
     (map (\<lambda>i. (5, 1000 + int i)) [0..<4]) = Inr ds \<and> distinct ds \<and> set ds = {0..<4}"
  using consecutive_keys_cover_devices [OF sized_init, of 1000 5] by simp

text \<open>
  When both maxima are configured, a constructed strategy has a prime above every hash sum of its
  domain, so placement there is the plain sum modulo the device count, and it is a device index.
\<close>

theorem configured_domain_no_wrap:
  assumes "PositionHash_init n cfg = Inr ph"
    and "map_of cfg ''max_token_idx'' = Some (JInt T)" and "map_of cfg ''max_layer_id'' = Some (JInt L)"
    and "0 \<le> t" and "t \<le> T" and "0 \<le> l" and "l \<le> L"
  shows "ph_locate ph (l, t) = Inr ((t * ph_step_idx ph + l * ph_step_layer ph) mod n) \<and>
         0 \<le> (t * ph_step_idx ph + l * ph_step_layer ph) mod n \<and>
         (t * ph_step_idx ph + l * ph_step_layer ph) mod n < n"
proof -
  have ok: "ph_ok ph" and n: "ph_num_devices ph = n" using PositionHash_init_ok [OF assms(1)] by auto
  then have pos: "0 < n" "0 < ph_step_idx ph" "0 < ph_step_layer ph"
    by (auto simp: ph_ok_def ph_check_steps_def)
  have "T * ph_step_idx ph + L * ph_step_layer ph < ph_prime ph"
    using assms(1-3)
    by (auto simp: PositionHash_init_def ph_check_domain_def dict_get_def Let_def split: if_splits sum.splits)
  moreover have "t * ph_step_idx ph \<le> T * ph_step_idx ph" "l * ph_step_layer ph \<le> L * ph_step_layer ph"
    using assms(5,7) pos by (simp_all add: mult_right_mono)
  moreover have "0 \<le> t * ph_step_idx ph" "0 \<le> l * ph_step_layer ph" using assms(4,6) pos by simp_all
  ultimately have "(t * ph_step_idx ph + l * ph_step_layer ph) mod ph_prime ph = t * ph_step_idx ph + l * ph_step_layer ph"
    by (intro mod_pos_pos_trivial) linarith+
  then show ?thesis using assms(4,6) n pos by (simp add: ph_locate_def ph_hash_def)
qed

theorem configured_domain_no_wrap_witness:
  "ph_locate \<lparr>ph_num_devices = 4, ph_step_idx = 17, ph_step_layer = 23, ph_prime = 2229299\<rparr> (96, 131000) =
     Inr ((131000 * 17 + 96 * 23) mod 4)"
  using configured_domain_no_wrap [OF sized_init, of 131000 96 131000 96] by (simp add: sized_options_def)

text \<open>
  \<open>locate\<close> rejects a negative token or layer but the overriding \<open>locate_batch\<close> does not: on such a
  key it returns a device, where the inherited loop over \<open>locate\<close> raises.
\<close>

theorem locate_batch_skips_check:
  assumes "ph_ok ph" and "snd k < 0 \<or> fst k < 0"
  shows "base_locate_batch (ph_locate ph) [k] = Inl ValueError \<and>
    (\<exists>d. ph_locate_batch ph [k] = Inr [d] \<and> 0 \<le> d \<and> d < ph_num_devices ph)"
  using assms by (auto simp: base_locate_batch_def ph_locate_def ph_locate_batch_def ph_hash_def ph_ok_def)

theorem locate_batch_skips_check_witness:
  "\<exists>d. ph_locate_batch \<lparr>ph_num_devices = 4, ph_step_idx = 17, ph_step_layer = 23, ph_prime = 2229299\<rparr>
     [(0, - 1)] = Inr [d]"
  using locate_batch_skips_check [of _ "(0, - 1)"] PositionHash_init_ok [OF sized_init] by auto

end
