(* ===== verification/VirtualMedia.thy ===== *)
theory VirtualMedia
  imports Segment Strategy ConcurrentIO
begin

section \<open>VirtualMedia (virtual\_media.py)\<close>

text \<open>
  The media layer: it discovers the online SSDs, allocates one extent per device with a segment
  manager on it, places units with a strategy and reads batches of units from the aggregation
  buffers or, merged into runs, from the extents through the I/O engine. The state is the media
  record together with the library's state. The order in which the engine executes the requests of
  one batch is an argument (\<open>sched\<close>), any permutation of them.
\<close>

subsection \<open>Construction\<close>

record media =
  vm_unit_size :: int
  vm_devices :: "int list"
  vm_mgrs :: "seg_mgr list"
  vm_strategy :: strategy
  vm_read_merge :: bool
  vm_max_read_bytes :: "int option"
  vm_engine :: engine
  vm_closed :: bool

datatype capacity = CapAll int | CapPer "(int \<times> int) list"

text \<open>\<open>OtherObject\<close> is an argument that is neither \<open>None\<close>, a string nor a strategy.\<close>

datatype strategy_arg = NoStrategy | StrategyName string | StrategyObj strategy | OtherObject

record media_args =
  ma_unit_size :: int
  ma_capacity :: capacity
  ma_strategy :: strategy_arg
  ma_sp_bytes :: "int option"
  ma_sp_per_device :: "(int \<times> int) list option"
  ma_num_workers :: int
  ma_read_merge :: bool
  ma_max_read_bytes :: "int option"

definition check_max_read :: "int option \<Rightarrow> int \<Rightarrow> bool" where
  "check_max_read mrb unit_size \<longleftrightarrow>
     (case mrb of None \<Rightarrow> True
      | Some n \<Rightarrow> \<not> (unit_size \<le> 0 \<or> n < unit_size \<or> n mod unit_size \<noteq> 0))"

text \<open>\<open>_list_ssd_devices\<close>: only the first \<open>num_resources\<close> slots of the topology are looked at.\<close>

definition list_ssd_devices :: "storage_topology \<Rightarrow> int list result" where
  "list_ssd_devices topo =
     (case map_result (\<lambda>i. py_nth (t_resources topo) (int i)) [0..<nat (t_num_resources topo)] of
        Inl e \<Rightarrow> Inl e
      | Inr rs \<Rightarrow>
          Inr (map int [0..<length (filter (\<lambda>r. r_tier r = UMM_TIER_SSD \<and> r_online r \<noteq> 0) rs)]))"

definition resolve_strategy ::
  "registry \<Rightarrow> strategy_arg \<Rightarrow> jdict \<Rightarrow> int \<Rightarrow> strategy result" where
  "resolve_strategy reg arg cfg n =
     (case arg of
        NoStrategy \<Rightarrow> create_strategy reg (get_strategy_name cfg) n (get_strategy_options cfg)
      | StrategyName name \<Rightarrow> create_strategy reg name n []
      | StrategyObj st \<Rightarrow> if st_num_devices st \<noteq> n then Inl ValueError else Inr st
      | OtherObject \<Rightarrow> Inl TypeError)"

definition default_segment_bytes :: "media_args \<Rightarrow> jdict \<Rightarrow> int result" where
  "default_segment_bytes a cfg =
     (case ma_sp_bytes a of Some n \<Rightarrow> Inr n | None \<Rightarrow> py_int (dict_get cfg ''super_page_bytes'' JNull))"

definition override_segment_bytes :: "media_args \<Rightarrow> jdict \<Rightarrow> (int \<times> int) list result" where
  "override_segment_bytes a cfg =
     (case ma_sp_per_device a of
        Some d \<Rightarrow> Inr d
      | None \<Rightarrow>
          (case dict_get cfg ''super_page_bytes_per_device'' (JObj []) of
             JObj d \<Rightarrow>
               map_result (\<lambda>(k, v). case py_int (JStr k) of Inl e \<Rightarrow> Inl e
                 | Inr i \<Rightarrow> (case py_int v of Inl e \<Rightarrow> Inl e | Inr n \<Rightarrow> Inr (i, n))) d
           | _ \<Rightarrow> Inl AttributeError))"

text \<open>A dictionary comprehension keeps the last value of a repeated key.\<close>

definition override_for :: "(int \<times> int) list \<Rightarrow> int \<Rightarrow> int \<Rightarrow> int" where
  "override_for d dev dflt = dict_get (rev d) dev dflt"

definition capacity_for :: "capacity \<Rightarrow> int \<Rightarrow> int result" where
  "capacity_for c dev =
     (case c of CapAll n \<Rightarrow> Inr n
      | CapPer d \<Rightarrow> (case map_of d dev of None \<Rightarrow> Inl KeyError | Some n \<Rightarrow> Inr n))"

text \<open>One iteration of the construction loop; a manager that is rejected frees its extent.\<close>

definition open_device ::
  "'s umm_lib \<Rightarrow> media_args \<Rightarrow> int \<Rightarrow> (int \<times> int) list \<Rightarrow> int \<Rightarrow> 's \<Rightarrow> (seg_mgr, 's) outcome" where
  "open_device L a default_sp override d s =
     (case capacity_for (ma_capacity a) d of
        Inl e \<Rightarrow> (Inl e, s)
      | Inr cap \<Rightarrow>
          rbind (lib_alloc_on_device L cap UMM_TIER_SSD d s) (\<lambda>desc s.
            case DeviceSegmentManager_init desc d (override_for override d default_sp) (ma_unit_size a) of
              Inr m \<Rightarrow> (Inr m, s)
            | Inl e \<Rightarrow> (case lib_free L desc s of (Inl e', s') \<Rightarrow> (Inl e', s') | (Inr _, s') \<Rightarrow> (Inl e, s'))))"

fun open_devices ::
  "'s umm_lib \<Rightarrow> media_args \<Rightarrow> int \<Rightarrow> (int \<times> int) list \<Rightarrow> int list \<Rightarrow> seg_mgr list \<Rightarrow> 's \<Rightarrow>
   py_error option \<times> seg_mgr list \<times> 's" where
  "open_devices L a sp ov [] ms s = (None, ms, s)"
| "open_devices L a sp ov (d # ds) ms s =
     (case open_device L a sp ov d s of
        (Inl e, s') \<Rightarrow> (Some e, ms, s')
      | (Inr m, s') \<Rightarrow> open_devices L a sp ov ds (ms @ [m]) s')"

definition free_extents :: "'s umm_lib \<Rightarrow> seg_mgr list \<Rightarrow> 's \<Rightarrow> (unit, 's) outcome" where
  "free_extents L ms s = for_each (\<lambda>m s. rbind (lib_free L (sg_desc m) s) (\<lambda>_ s. (Inr (), s))) ms s"

text \<open>What the constructor settles before it allocates: devices, segment sizes, strategy.\<close>

definition media_plan ::
  "registry \<Rightarrow> jdict \<Rightarrow> media_args \<Rightarrow> storage_topology \<Rightarrow> (int list \<times> int \<times> (int \<times> int) list \<times> strategy) result" where
  "media_plan reg cfg a topo =
     (case list_ssd_devices topo of Inl e \<Rightarrow> Inl e
      | Inr devices \<Rightarrow>
          if devices = [] then Inl RuntimeError
          else case default_segment_bytes a cfg of Inl e \<Rightarrow> Inl e
          | Inr sp \<Rightarrow> (case override_segment_bytes a cfg of Inl e \<Rightarrow> Inl e
          | Inr ov \<Rightarrow> (case resolve_strategy reg (ma_strategy a) cfg (int (length devices)) of Inl e \<Rightarrow> Inl e
          | Inr st \<Rightarrow> Inr (devices, sp, ov, st))))"

text \<open>The allocation loop, its clean-up, and the engine, which is created after the clean-up scope.\<close>

definition media_open ::
  "'s umm_lib \<Rightarrow> media_args \<Rightarrow> int list \<Rightarrow> int \<Rightarrow> (int \<times> int) list \<Rightarrow> strategy \<Rightarrow> 's \<Rightarrow> (media, 's) outcome" where
  "media_open L a devices sp ov st s =
     (case open_devices L a sp ov devices [] s of
        (Some e, ms, s') \<Rightarrow>
          (case free_extents L ms s' of (Inl e', s'') \<Rightarrow> (Inl e', s'') | (Inr _, s'') \<Rightarrow> (Inl e, s''))
      | (None, ms, s') \<Rightarrow>
          (case ConcurrentIOEngine_init (ma_num_workers a) 1 None of
             Inl e \<Rightarrow> (Inl e, s')
           | Inr en \<Rightarrow>
               (Inr \<lparr>vm_unit_size = ma_unit_size a, vm_devices = devices, vm_mgrs = ms,
                  vm_strategy = st, vm_read_merge = ma_read_merge a,
                  vm_max_read_bytes = ma_max_read_bytes a, vm_engine = en, vm_closed = False\<rparr>, s')))"

definition VirtualMedia_init ::
  "'s umm_lib \<Rightarrow> registry \<Rightarrow> jval option \<Rightarrow> media_args \<Rightarrow> 's \<Rightarrow> (media, 's) outcome" where
  "VirtualMedia_init L reg file a s =
     (if \<not> check_max_read (ma_max_read_bytes a) (ma_unit_size a) then (Inl ValueError, s)
      else case load_config file of Inl e \<Rightarrow> (Inl e, s)
      | Inr cfg \<Rightarrow>
          rbind (lib_get_topology L s) (\<lambda>topo s.
            case media_plan reg cfg a topo of Inl e \<Rightarrow> (Inl e, s)
            | Inr (devices, sp, ov, st) \<Rightarrow> media_open L a devices sp ov st s))"

subsection \<open>Placement and the write path\<close>

definition vm_locate :: "media \<Rightarrow> key \<Rightarrow> int result" where
  "vm_locate v k = st_locate (vm_strategy v) k"

definition vm_locate_batch :: "media \<Rightarrow> key list \<Rightarrow> int list result" where
  "vm_locate_batch v ks = st_locate_batch (vm_strategy v) ks"

definition device_count :: "media \<Rightarrow> int" where
  "device_count v = int (length (vm_devices v))"

text \<open>Running an operation of manager \<open>d\<close> (a Python list index) and storing the manager back.\<close>

definition on_mgr ::
  "int \<Rightarrow> (seg_mgr \<times> 's \<Rightarrow> ('a, seg_mgr \<times> 's) outcome) \<Rightarrow> media \<times> 's \<Rightarrow> ('a, media \<times> 's) outcome" where
  "on_mgr d f vs =
     (let (v, s) = vs in
      case py_nth (vm_mgrs v) d of
        Inl e \<Rightarrow> (Inl e, (v, s))
      | Inr m \<Rightarrow>
          (case f (m, s) of
             (r, (m', s')) \<Rightarrow>
               (r, ((case py_set (vm_mgrs v) d m' of Inl e \<Rightarrow> v | Inr ms \<Rightarrow> v\<lparr>vm_mgrs := ms\<rparr>), s'))))"

definition vm_write :: "'s umm_lib \<Rightarrow> key \<Rightarrow> bytes \<Rightarrow> media \<times> 's \<Rightarrow> (int, media \<times> 's) outcome" where
  "vm_write L k data vs =
     (if vm_closed (fst vs) then (Inl RuntimeError, vs)
      else case vm_locate (fst vs) k of
        Inl e \<Rightarrow> (Inl e, vs)
      | Inr d \<Rightarrow> on_mgr d (seg_append L data) vs)"

definition vm_flush :: "'s umm_lib \<Rightarrow> media \<times> 's \<Rightarrow> (unit, media \<times> 's) outcome" where
  "vm_flush L vs =
     (if vm_closed (fst vs) then (Inl RuntimeError, vs)
      else for_each (\<lambda>i. on_mgr (int i) (seg_flush L)) [0..<length (vm_mgrs (fst vs))] vs)"

subsection \<open>Address planning helpers\<close>

definition check_device :: "media \<Rightarrow> int \<Rightarrow> bool" where
  "check_device v d \<longleftrightarrow> 0 \<le> d \<and> d < int (length (vm_mgrs v))"

definition extent_base :: "'s umm_lib \<Rightarrow> int \<Rightarrow> media \<times> 's \<Rightarrow> int result" where
  "extent_base L d vs =
     (if \<not> check_device (fst vs) d then Inl ValueError
      else case lib_resolve_ssd_extent_base L of
        None \<Rightarrow> Inr 0
      | Some resolver \<Rightarrow> resolver (sg_desc (vm_mgrs (fst vs) ! nat d)) (vm_devices (fst vs) ! nat d) (snd vs))"

definition vm_is_buffered :: "media \<Rightarrow> int \<Rightarrow> int \<Rightarrow> bool result" where
  "vm_is_buffered v d off =
     (if vm_closed v then Inl RuntimeError
      else if \<not> check_device v d then Inl ValueError
      else Inr (seg_is_buffered (vm_mgrs v ! nat d) off))"

definition vm_read_buffered :: "media \<Rightarrow> int \<Rightarrow> int \<Rightarrow> bytes option result" where
  "vm_read_buffered v d off =
     (if \<not> check_device v d then Inl ValueError
      else Inr (read_buffer (vm_mgrs v ! nat d) off (vm_unit_size v)))"

subsection \<open>Batched reads\<close>

text \<open>
  \<open>outs\<close> are buffers of the caller's store. A slice assignment to a memoryview needs equal lengths
  and a writable view.
\<close>

definition assign_prefix :: "int \<Rightarrow> bytes \<Rightarrow> pybuf \<Rightarrow> pybuf result" where
  "assign_prefix n data b =
     (if buf_readonly b then Inl TypeError
      else case mv_slice_set (buf_data b) 0 n data of
        Inl e \<Rightarrow> Inl e | Inr bs \<Rightarrow> Inr (b\<lparr>buf_data := bs\<rparr>))"

definition assign_out :: "int \<Rightarrow> bytes \<Rightarrow> nat \<Rightarrow> mem \<Rightarrow> mem result" where
  "assign_out n data out bs =
     (case assign_prefix n data (bs out) of Inl e \<Rightarrow> Inl e | Inr b \<Rightarrow> Inr (bs(out := b)))"

type_synonym placed = "nat \<times> int"

text \<open>
  The first loop: a unit still in an aggregation buffer is copied, any other goes to the bucket of
  its device. Buckets are in the order of first use.
\<close>

definition bucket_add :: "int \<Rightarrow> placed \<Rightarrow> (int \<times> placed list) list \<Rightarrow> (int \<times> placed list) list" where
  "bucket_add d p bk = dict_set d (dict_get bk d [] @ [p]) bk"

fun scan_items ::
  "media \<Rightarrow> nat \<Rightarrow> (int \<times> int) list \<Rightarrow> nat list \<Rightarrow> mem \<Rightarrow> (int \<times> placed list) list \<Rightarrow>
   ((int \<times> placed list) list, mem) outcome" where
  "scan_items v pos [] outs bs bk = (Inr bk, bs)"
| "scan_items v pos ((d, off) # items) outs bs bk =
     (if \<not> check_device v d then (Inl ValueError, bs)
      else if nbytes (bs (outs ! pos)) < vm_unit_size v then (Inl ValueError, bs)
      else case read_buffer (vm_mgrs v ! nat d) off (vm_unit_size v) of
        Some data \<Rightarrow>
          (case assign_out (vm_unit_size v) data (outs ! pos) bs of
             Inl e \<Rightarrow> (Inl e, bs)
           | Inr bs' \<Rightarrow> scan_items v (Suc pos) items outs bs' bk)
      | None \<Rightarrow> scan_items v (Suc pos) items outs bs (bucket_add d (pos, off) bk))"

definition extends_run :: "media \<Rightarrow> placed list \<Rightarrow> int \<Rightarrow> bool" where
  "extends_run v run off \<longleftrightarrow> vm_read_merge v \<and>
     off = snd (last run) + vm_unit_size v \<and>
     (case vm_max_read_bytes v of None \<Rightarrow> True
      | Some n \<Rightarrow> off + vm_unit_size v - snd (hd run) \<le> n)"

definition merge_step :: "media \<Rightarrow> placed list list \<Rightarrow> placed \<Rightarrow> placed list list" where
  "merge_step v runs p =
     (if runs \<noteq> [] \<and> extends_run v (last runs) (snd p)
      then butlast runs @ [last runs @ [p]] else runs @ [[p]])"

definition merge_runs :: "media \<Rightarrow> placed list \<Rightarrow> placed list list" where
  "merge_runs v items = foldl (merge_step v) [] items"

text \<open>One read per run, into a staging buffer of its own (number \<open>i\<close> for request \<open>i\<close>).\<close>

definition run_length :: "media \<Rightarrow> placed list \<Rightarrow> int" where
  "run_length v run = snd (last run) + vm_unit_size v - snd (hd run)"

definition all_runs :: "media \<Rightarrow> (int \<times> placed list) list \<Rightarrow> (int \<times> placed list) list" where
  "all_runs v bk = concat (map (\<lambda>(d, g). map (Pair d) (merge_runs v (sort_key snd g))) bk)"

definition run_request :: "media \<Rightarrow> nat \<Rightarrow> int \<times> placed list \<Rightarrow> io_request" where
  "run_request v i dr =
     \<lparr>rq_address = from_descriptor (sg_desc (vm_mgrs v ! nat (fst dr))) (snd (hd (snd dr))) (run_length v (snd dr)),
      rq_buffer = i\<rparr>"

definition staging_store :: "media \<Rightarrow> (int \<times> placed list) list \<Rightarrow> mem" where
  "staging_store v runs i =
     bytearray_buf (if i < length runs then replicate (nat (run_length v (snd (runs ! i)))) 0 else [])"

text \<open>
  \<open>engine.read_batch\<close>: submit, execute in the order \<open>sched\<close> chooses, then raise the failure of the
  first failing request in request order.
\<close>

type_synonym scheduler = "io_item list \<Rightarrow> io_item list"

definition engine_read_batch ::
  "'s umm_lib \<Rightarrow> scheduler \<Rightarrow> engine \<Rightarrow> io_request list \<Rightarrow> mem \<times> 's \<Rightarrow> (unit, mem \<times> 's) outcome" where
  "engine_read_batch L sched en reqs ms =
     (if en_closed en then (Inl RuntimeError, ms)
      else
        (case run_group L (sched (map (\<lambda>i. (i, reqs ! i, True)) [0..<length reqs])) ms of
           (rs, ms') \<Rightarrow>
             (case handle_result (snd (set_many rs (IOHandle reqs))) of
                Inl e \<Rightarrow> (Inl e, ms') | Inr _ \<Rightarrow> (Inr (), ms'))))"

text \<open>The last loop: cut every staging buffer into its units.\<close>

fun copy_pieces :: "media \<Rightarrow> bytes \<Rightarrow> int \<Rightarrow> placed list \<Rightarrow> nat list \<Rightarrow> mem \<Rightarrow> (unit, mem) outcome" where
  "copy_pieces v staging start [] outs bs = (Inr (), bs)"
| "copy_pieces v staging start ((pos, off) # ps) outs bs =
     (let l = off - start in
      case assign_out (vm_unit_size v) (py_slice staging l (l + vm_unit_size v)) (outs ! pos) bs of
        Inl e \<Rightarrow> (Inl e, bs)
      | Inr bs' \<Rightarrow> copy_pieces v staging start ps outs bs')"

definition copy_runs ::
  "media \<Rightarrow> (int \<times> placed list) list \<Rightarrow> mem \<Rightarrow> nat list \<Rightarrow> mem \<Rightarrow> (unit, mem) outcome" where
  "copy_runs v runs st outs bs =
     for_each (\<lambda>i. copy_pieces v (buf_data (st i)) (snd (hd (snd (runs ! i)))) (snd (runs ! i)) outs) [0..<length runs] bs"

definition vm_read_batch ::
  "'s umm_lib \<Rightarrow> scheduler \<Rightarrow> (int \<times> int) list \<Rightarrow> nat list \<Rightarrow> media \<Rightarrow> mem \<times> 's \<Rightarrow> (unit, mem \<times> 's) outcome" where
  "vm_read_batch L sched items outs v ms =
     (let (bs, s) = ms in
      if vm_closed v then (Inl RuntimeError, (bs, s))
      else if length items \<noteq> length outs then (Inl ValueError, (bs, s))
      else case scan_items v 0 items outs bs [] of
        (Inl e, bs1) \<Rightarrow> (Inl e, (bs1, s))
      | (Inr bk, bs1) \<Rightarrow>
          (let runs = all_runs v bk in
           if runs = [] then (Inr (), (bs1, s))
           else
             (case engine_read_batch L sched (vm_engine v)
                     (map (\<lambda>i. run_request v i (runs ! i)) [0..<length runs]) (staging_store v runs, s) of
                (Inl e, (st, s')) \<Rightarrow> (Inl e, (bs1, s'))
              | (Inr _, (st, s')) \<Rightarrow>
                  (case copy_runs v runs st outs bs1 of (r, bs2) \<Rightarrow> (r, (bs2, s'))))))"

subsection \<open>Release, statistics, close\<close>

definition vm_release :: "int \<Rightarrow> int \<Rightarrow> media \<Rightarrow> (unit, media) outcome" where
  "vm_release d off v =
     (if vm_closed v then (Inl RuntimeError, v)
      else if \<not> check_device v d then (Inl ValueError, v)
      else case seg_release off (vm_mgrs v ! nat d) of
        (r, m') \<Rightarrow> (r, v\<lparr>vm_mgrs := (vm_mgrs v)[nat d := m']\<rparr>))"

definition vm_stats :: "media \<Rightarrow> int \<times> int list \<times> int list" where
  "vm_stats v = (int (length (vm_mgrs v)), map num_free_segments (vm_mgrs v), map buffered_units (vm_mgrs v))"

definition vm_close :: "'s umm_lib \<Rightarrow> media \<times> 's \<Rightarrow> (unit, media \<times> 's) outcome" where
  "vm_close L vs =
     (let (v, s) = vs in
      if vm_closed v then (Inr (), (v, s))
      else
        (let v' = v\<lparr>vm_closed := True, vm_engine := (vm_engine v)\<lparr>en_closed := True\<rparr>\<rparr> in
         case free_extents L (vm_mgrs v) s of (r, s') \<Rightarrow> (r, (v', s'))))"

subsection \<open>Filling output buffers\<close>

definition set_prefix :: "bytes \<Rightarrow> pybuf \<Rightarrow> pybuf" where
  "set_prefix data b = b\<lparr>buf_data := data @ drop (length data) (buf_data b)\<rparr>"

definition outs_ok :: "int \<Rightarrow> nat list \<Rightarrow> mem \<Rightarrow> bool" where
  "outs_ok u outs bs \<longleftrightarrow> distinct outs \<and> 0 \<le> u \<and> (\<forall>out \<in> set outs. \<not> buf_readonly (bs out) \<and> u \<le> nbytes (bs out))"

text \<open>\<open>bs'\<close> is \<open>bs\<close> with the outputs at the positions \<open>P\<close> filled.\<close>

definition filled_outs :: "nat list \<Rightarrow> (nat \<Rightarrow> bytes) \<Rightarrow> nat set \<Rightarrow> mem \<Rightarrow> mem \<Rightarrow> bool" where
  "filled_outs outs D P bs bs' \<longleftrightarrow>
     (\<forall>pos < length outs. bs' (outs ! pos) = (if pos \<in> P then set_prefix (D pos) (bs (outs ! pos)) else bs (outs ! pos))) \<and>
     (\<forall>out. out \<notin> set outs \<longrightarrow> bs' out = bs out)"

lemma assign_prefix_ok:
  assumes "\<not> buf_readonly b" and "int (length data) = u" and "u \<le> nbytes b"
  shows "assign_prefix u data b = Inr (set_prefix data b)"
  unfolding assms(2) [symmetric]
  using assms by (auto simp: assign_prefix_def mv_slice_set_def py_slice_prefix py_slice_set_prefix set_prefix_def)

lemma set_prefix_twice: "set_prefix data (set_prefix data b) = set_prefix data b"
  by (simp add: set_prefix_def)

lemma set_prefix_simps [simp]:
  "buf_readonly (set_prefix data b) = buf_readonly b"
  "length data \<le> length (buf_data b) \<Longrightarrow> length (buf_data (set_prefix data b)) = length (buf_data b)"
  by (simp_all add: set_prefix_def)

lemma filled_outs_assign:
  assumes "outs_ok u outs bs" and "filled_outs outs D P bs bs1" and "pos < length outs"
    and "int (length (D pos)) = u"
  shows "\<exists>bs2. assign_out u (D pos) (outs ! pos) bs1 = Inr bs2 \<and> filled_outs outs D (insert pos P) bs bs2"
proof -
  let ?o = "outs ! pos"
  have o: "\<not> buf_readonly (bs ?o)" "u \<le> nbytes (bs ?o)" using assms(1,3) by (auto simp: outs_ok_def)
  have "bs1 ?o = (if pos \<in> P then set_prefix (D pos) (bs ?o) else bs ?o)"
    using assms(2,3) by (simp add: filled_outs_def)
  then have b1: "\<not> buf_readonly (bs1 ?o)" "u \<le> nbytes (bs1 ?o)" "set_prefix (D pos) (bs1 ?o) = set_prefix (D pos) (bs ?o)"
    using o assms(4) by (auto simp: set_prefix_twice)
  have "assign_out u (D pos) ?o bs1 = Inr (bs1(?o := set_prefix (D pos) (bs ?o)))"
    using assign_prefix_ok [OF b1(1) assms(4) b1(2)] b1(3) by (simp add: assign_out_def)
  moreover have "filled_outs outs D (insert pos P) bs (bs1(?o := set_prefix (D pos) (bs ?o)))"
    using assms(1-3) by (auto simp: filled_outs_def outs_ok_def nth_eq_iff_index_eq)
  ultimately show ?thesis by blast
qed

lemma filled_outs_nbytes:
  assumes "outs_ok u outs bs" and "filled_outs outs D P bs bs1" and "pos < length outs"
    and "\<And>p. p \<in> P \<Longrightarrow> int (length (D p)) = u"
  shows "u \<le> nbytes (bs1 (outs ! pos))"
proof -
  have "u \<le> nbytes (bs (outs ! pos))" using assms(1,3) by (auto simp: outs_ok_def)
  moreover have "bs1 (outs ! pos) = (if pos \<in> P then set_prefix (D pos) (bs (outs ! pos)) else bs (outs ! pos))"
    using assms(2,3) by (simp add: filled_outs_def)
  ultimately show ?thesis using assms(4) [of pos] by (auto split: if_splits)
qed

subsection \<open>Buckets and runs\<close>

definition entries :: "(int \<times> placed list) list \<Rightarrow> (int \<times> placed) set" where
  "entries bk = {(d, p). \<exists>g. (d, g) \<in> set bk \<and> p \<in> set g}"

lemma entries_simps [simp]:
  "entries [] = {}" "entries ((d, g) # bk) = Pair d ` set g \<union> entries bk" "entries (xs @ ys) = entries xs \<union> entries ys"
  by (auto simp: entries_def)

lemma entries_nth: "(d, p) \<in> entries bk \<longleftrightarrow> (\<exists>i < length bk. fst (bk ! i) = d \<and> p \<in> set (snd (bk ! i)))"
  by (simp add: entries_def) (metis fst_conv snd_conv in_set_conv_nth prod.collapse)

lemma dict_set_key_absent: "k \<notin> fst ` set d \<Longrightarrow> dict_set k v d = d @ [(k, v)]"
  by (induction d) auto

lemma entries_bucket_add: "distinct (map fst bk) \<Longrightarrow> entries (bucket_add d p bk) = insert (d, p) (entries bk)"
proof (induction bk)
  case (Cons e bk)
  obtain k g where e: "e = (k, g)" by fastforce
  show ?case
  proof (cases "k = d")
    case True
    then show ?thesis using e by (auto simp: bucket_add_def dict_get_def)
  next
    case False
    have "bucket_add d p (e # bk) = e # bucket_add d p bk" using False e by (simp add: bucket_add_def dict_get_def)
    then show ?thesis using Cons e by auto
  qed
qed (auto simp: bucket_add_def dict_get_def)

definition consecutive :: "int \<Rightarrow> placed list \<Rightarrow> bool" where
  "consecutive u run \<longleftrightarrow> run \<noteq> [] \<and> (\<forall>i < length run. snd (run ! i) = snd (hd run) + int i * u)"

lemma consecutive_last: "consecutive u run \<Longrightarrow> snd (last run) = snd (hd run) + (int (length run) - 1) * u"
  by (simp add: consecutive_def last_conv_nth of_nat_diff Suc_leI)

lemma consecutive_snoc:
  assumes "consecutive u run" and "snd p = snd (last run) + u"
  shows "consecutive u (run @ [p])"
proof -
  have "snd p = snd (hd run) + int (length run) * u"
    using assms consecutive_last [OF assms(1)] by (simp add: algebra_simps)
  then show ?thesis using assms(1) by (auto simp: consecutive_def nth_append less_Suc_eq)
qed

lemma merge_foldl:
  assumes "\<forall>r \<in> set runs. consecutive (vm_unit_size v) r"
  shows "concat (foldl (merge_step v) runs items) = concat runs @ items \<and>
    (\<forall>r \<in> set (foldl (merge_step v) runs items). consecutive (vm_unit_size v) r)"
  using assms
proof (induction items arbitrary: runs)
  case (Cons p items)
  have ok: "\<forall>r \<in> set (merge_step v runs p). consecutive (vm_unit_size v) r"
  proof (cases "runs \<noteq> [] \<and> extends_run v (last runs) (snd p)")
    case True
    then have "consecutive (vm_unit_size v) (last runs @ [p])"
      using Cons.prems by (intro consecutive_snoc) (auto simp: extends_run_def)
    then show ?thesis using True Cons.prems by (auto simp: merge_step_def dest: in_set_butlastD)
  next
    case False
    then show ?thesis using Cons.prems by (auto simp: merge_step_def consecutive_def)
  qed
  have "concat (merge_step v runs p) = concat runs @ [p]"
  proof (cases "runs \<noteq> [] \<and> extends_run v (last runs) (snd p)")
    case True
    then have "concat runs = concat (butlast runs) @ last runs"
      by (metis append_butlast_last_id concat.simps(1) concat.simps(2) concat_append append_Nil2)
    then show ?thesis using True by (simp add: merge_step_def)
  next
    case False
    then show ?thesis by (auto simp: merge_step_def)
  qed
  then show ?case using Cons.IH [OF ok] by simp
qed simp

lemma merge_runs_props:
  "concat (merge_runs v items) = items" "r \<in> set (merge_runs v items) \<Longrightarrow> consecutive (vm_unit_size v) r"
  using merge_foldl [of "[]" v items] by (auto simp: merge_runs_def)

lemma all_runs_props:
  "entries (all_runs v bk) = entries bk" "(d, r) \<in> set (all_runs v bk) \<Longrightarrow> consecutive (vm_unit_size v) r"
proof -
  have "entries (map (Pair d) rs) = Pair d ` set (concat rs)" for d rs by (auto simp: entries_def)
  then have "entries (map (Pair d) (merge_runs v (sort_key snd g))) = Pair d ` set g" for d g
    by (simp only: merge_runs_props(1) set_sort)
  then show "entries (all_runs v bk) = entries bk" by (induction bk) (auto simp: all_runs_def)
  show "(d, r) \<in> set (all_runs v bk) \<Longrightarrow> consecutive (vm_unit_size v) r"
    using merge_runs_props(2) by (auto simp: all_runs_def)
qed

lemma run_length_eq: "consecutive (vm_unit_size v) r \<Longrightarrow> run_length v r = int (length r) * vm_unit_size v"
  using consecutive_last [of "vm_unit_size v" r] by (simp add: run_length_def algebra_simps)

subsection \<open>Invariant\<close>

text \<open>\<open>U d off\<close> are the bytes of the live unit at \<open>(d, off)\<close>.\<close>

type_synonym live_units = "int \<Rightarrow> int \<rightharpoonup> bytes"

definition mgr_ok :: "media \<Rightarrow> seg_mgr \<Rightarrow> bool" where
  "mgr_ok v m \<longleftrightarrow> sg_unit_size m = vm_unit_size v \<and> u64 (d_chunk_id (sg_desc m)) = d_chunk_id (sg_desc m) \<and>
     u64 (d_user_size (sg_desc m)) = d_user_size (sg_desc m)"

definition vm_wf :: "media \<Rightarrow> bool" where
  "vm_wf v \<longleftrightarrow> \<not> vm_closed v \<and> \<not> en_closed (vm_engine v) \<and>
     distinct (map (\<lambda>m. d_chunk_id (sg_desc m)) (vm_mgrs v)) \<and> (\<forall>m \<in> set (vm_mgrs v). mgr_ok v m) \<and>
     (\<forall>k d. st_locate (vm_strategy v) k = Inr d \<longrightarrow> check_device v d)"

definition vm_inv :: "('s \<Rightarrow> int \<Rightarrow> bytes option) \<Rightarrow> live_units \<Rightarrow> media \<times> 's \<Rightarrow> bool" where
  "vm_inv view U vs \<longleftrightarrow> vm_wf (fst vs) \<and>
     (\<forall>i < length (vm_mgrs (fst vs)). seg_inv view (U (int i)) (vm_mgrs (fst vs) ! i, snd vs))"

definition set_unit :: "int \<Rightarrow> int \<Rightarrow> bytes option \<Rightarrow> live_units \<Rightarrow> live_units" where
  "set_unit d off x U = U(d := (U d)(off := x))"

text \<open>The parts of a media object no operation but \<open>close\<close> changes.\<close>

abbreviation mgr_key :: "seg_mgr \<Rightarrow> chunk_desc \<times> int" where
  "mgr_key m \<equiv> (sg_desc m, sg_unit_size m)"

definition same_media :: "media \<Rightarrow> media \<Rightarrow> bool" where
  "same_media v v' \<longleftrightarrow> (\<exists>ms. v' = v\<lparr>vm_mgrs := ms\<rparr> \<and> map mgr_key ms = map mgr_key (vm_mgrs v))"

definition extent_ids :: "media \<Rightarrow> int set" where
  "extent_ids v = (\<lambda>m. d_chunk_id (sg_desc m)) ` set (vm_mgrs v)"

lemma same_media_refl [simp]: "same_media v v"
  unfolding same_media_def by (rule exI [of _ "vm_mgrs v"]) simp

lemma same_media_trans: "same_media u v \<Longrightarrow> same_media v w \<Longrightarrow> same_media u w"
  by (force simp: same_media_def)

lemma same_media_update:
  assumes "d < length (vm_mgrs v)" and "sg_desc m = sg_desc (vm_mgrs v ! d)" and "sg_unit_size m = sg_unit_size (vm_mgrs v ! d)"
  shows "same_media v (v\<lparr>vm_mgrs := (vm_mgrs v)[d := m]\<rparr>)"
proof -
  have "map mgr_key ((vm_mgrs v)[d := m]) = map mgr_key (vm_mgrs v)"
    using assms by (intro nth_equalityI) (auto simp: nth_list_update)
  then show ?thesis unfolding same_media_def by blast
qed

lemma same_mediaD:
  assumes "same_media v v'"
  shows "length (vm_mgrs v') = length (vm_mgrs v)" "vm_unit_size v' = vm_unit_size v" "vm_strategy v' = vm_strategy v"
    "vm_closed v' = vm_closed v" "vm_engine v' = vm_engine v" "check_device v' = check_device v" "vm_devices v' = vm_devices v"
    "map mgr_key (vm_mgrs v') = map mgr_key (vm_mgrs v)"
proof -
  from assms obtain ms where v': "v' = v\<lparr>vm_mgrs := ms\<rparr>" and k: "map mgr_key ms = map mgr_key (vm_mgrs v)"
    unfolding same_media_def by blast
  have "length ms = length (vm_mgrs v)" using arg_cong [OF k, of length] by simp
  then show "length (vm_mgrs v') = length (vm_mgrs v)" "check_device v' = check_device v"
    by (simp_all add: v' check_device_def fun_eq_iff)
qed (use assms in \<open>auto simp: same_media_def\<close>)

lemma same_media_ids: "same_media v v' \<Longrightarrow> extent_ids v' = extent_ids v"
  using arg_cong [OF same_mediaD(8), of v v' "\<lambda>ks. (\<lambda>k. d_chunk_id (fst k)) ` set ks"]
  by (simp add: extent_ids_def image_image)

lemma check_device_id: "check_device v d \<Longrightarrow> d_chunk_id (sg_desc (vm_mgrs v ! nat d)) \<in> extent_ids v"
  by (auto simp: check_device_def extent_ids_def)

lemma vm_wf_same:
  assumes s: "same_media v v'" and w: "vm_wf v"
  shows "vm_wf v'"
proof -
  note k = same_mediaD(8) [OF s]
  have "map (\<lambda>m. d_chunk_id (sg_desc m)) (vm_mgrs v') = map (\<lambda>m. d_chunk_id (sg_desc m)) (vm_mgrs v)"
    using arg_cong [OF k, of "map (\<lambda>p. d_chunk_id (fst p))"] by (simp add: comp_def)
  moreover have "mgr_ok v' m" if "m \<in> set (vm_mgrs v')" for m
  proof -
    have "mgr_key m \<in> set (map mgr_key (vm_mgrs v))" using that unfolding k [symmetric] by simp
    then show ?thesis using w same_mediaD(2) [OF s] by (auto simp: vm_wf_def mgr_ok_def)
  qed
  ultimately show ?thesis using w same_mediaD [OF s] by (simp add: vm_wf_def)
qed

lemma seg_inv_frame: "seg_inv view U (m, s) \<Longrightarrow> view s' (d_chunk_id (sg_desc m)) = view s (d_chunk_id (sg_desc m)) \<Longrightarrow> seg_inv view U (m, s')"
  by (simp add: seg_inv_def)

lemma vm_inv_update:
  assumes "vm_inv view U (v, s)" and "check_device v d" and "seg_inv view U' (m', s')"
    and "sg_desc m' = sg_desc (vm_mgrs v ! nat d)" and "sg_unit_size m' = sg_unit_size (vm_mgrs v ! nat d)"
    and "\<And>j. j \<noteq> d_chunk_id (sg_desc (vm_mgrs v ! nat d)) \<Longrightarrow> view s' j = view s j"
  shows "vm_inv view (U(d := U')) (v\<lparr>vm_mgrs := (vm_mgrs v)[nat d := m']\<rparr>, s')"
proof -
  have d: "0 \<le> d" "nat d < length (vm_mgrs v)" using assms(2) by (auto simp: check_device_def)
  have "same_media v (v\<lparr>vm_mgrs := (vm_mgrs v)[nat d := m']\<rparr>)" by (rule same_media_update [OF d(2) assms(4,5)])
  then have "vm_wf (v\<lparr>vm_mgrs := (vm_mgrs v)[nat d := m']\<rparr>)" using vm_wf_same assms(1) by (auto simp: vm_inv_def)
  moreover have "seg_inv view ((U(d := U')) (int i)) ((vm_mgrs v)[nat d := m'] ! i, s')" if i: "i < length (vm_mgrs v)" for i
  proof (cases "i = nat d")
    case True
    then show ?thesis using assms(3) d by simp
  next
    case False
    have "distinct (map (\<lambda>m. d_chunk_id (sg_desc m)) (vm_mgrs v))" using assms(1) by (simp add: vm_inv_def vm_wf_def)
    then have "d_chunk_id (sg_desc (vm_mgrs v ! i)) \<noteq> d_chunk_id (sg_desc (vm_mgrs v ! nat d))"
      using nth_eq_iff_index_eq [of "map (\<lambda>m. d_chunk_id (sg_desc m)) (vm_mgrs v)" i "nat d"] False i d(2) by simp
    then show ?thesis using False d(1) i assms(1,6) by (auto simp: vm_inv_def intro: seg_inv_frame [of view _ _ s])
  qed
  ultimately show ?thesis by (simp add: vm_inv_def)
qed

lemma vm_invD:
  assumes "vm_inv view U (v, s)" and "check_device v d"
  shows "seg_inv view (U d) (vm_mgrs v ! nat d, s)" and "mgr_ok v (vm_mgrs v ! nat d)" and "py_nth (vm_mgrs v) d = Inr (vm_mgrs v ! nat d)"
    and "py_set (vm_mgrs v) d m = Inr ((vm_mgrs v)[nat d := m])"
proof -
  have d: "0 \<le> d" "nat d < length (vm_mgrs v)" using assms(2) by (auto simp: check_device_def)
  then show "seg_inv view (U d) (vm_mgrs v ! nat d, s)" "mgr_ok v (vm_mgrs v ! nat d)"
    using assms(1) by (auto simp: vm_inv_def vm_wf_def)
  show "py_nth (vm_mgrs v) d = Inr (vm_mgrs v ! nat d)" "py_set (vm_mgrs v) d m = Inr ((vm_mgrs v)[nat d := m])"
    using d by (auto intro: py_nth_nonneg py_set_nonneg)
qed

subsection \<open>The operations keep the invariant\<close>

lemma vm_locate_check: "vm_inv view U (v, s) \<Longrightarrow> vm_locate v k = Inr d \<Longrightarrow> check_device v d"
  by (cases k) (simp add: vm_inv_def vm_wf_def vm_locate_def)

lemma vm_open: "vm_inv view U (v, s) \<Longrightarrow> \<not> vm_closed v \<and> \<not> en_closed (vm_engine v)"
  by (simp add: vm_inv_def vm_wf_def)

lemma vm_inv_frame: "vm_inv view U (v, s) \<Longrightarrow> view s' = view s \<Longrightarrow> vm_inv view U (v, s')"
  by (auto simp: vm_inv_def intro: seg_inv_frame [of view _ _ s])

lemma on_mgr_eq:
  assumes "vm_inv view U (v, s)" and "check_device v d" and "f (vm_mgrs v ! nat d, s) = (r, (m', s'))"
  shows "on_mgr d f (v, s) = (r, (v\<lparr>vm_mgrs := (vm_mgrs v)[nat d := m']\<rparr>, s'))"
  using assms vm_invD(3,4) [OF assms(1,2)] by (simp add: on_mgr_def)

context chunk_store
begin

lemma vm_write_ok:
  assumes "vm_inv view U (v, s)" and "inv s" and "int (length data) = vm_unit_size v"
    and "vm_write L k data (v, s) = (r, (v', s'))"
  shows "inv s' \<and> room s' = room s \<and> same_media v v' \<and> (\<forall>j. j \<notin> extent_ids v \<longrightarrow> view s' j = view s j) \<and>
    (case r of
       Inr off \<Rightarrow> \<exists>d. vm_locate v k = Inr d \<and> U d off = None \<and> vm_inv view (set_unit d off (Some data) U) (v', s')
     | Inl e \<Rightarrow> (vm_locate v k = Inl e \<or> e = SegmentFullError \<and> (\<exists>d. vm_locate v k = Inr d)) \<and> vm_inv view U (v', s'))"
proof (cases "vm_locate v k")
  case (Inl e)
  then have "r = Inl e" "v' = v" "s' = s" using assms(4) vm_open [OF assms(1)] by (auto simp: vm_write_def)
  then show ?thesis using assms(1,2) Inl by simp
next
  case (Inr d)
  note dev = vm_locate_check [OF assms(1) Inr]
  let ?m = "vm_mgrs v ! nat d"
  obtain r' m' s1 where ap: "seg_append L data (?m, s) = (r', (m', s1))" by (metis prod.exhaust)
  note si = vm_invD(1) [OF assms(1) dev]
  have len: "int (length data) = sg_unit_size ?m" using vm_invD(2) [OF assms(1) dev] assms(3) by (simp add: mgr_ok_def)
  note ok = seg_append_ok [OF si assms(2) len ap]
  have res: "r = r'" "v' = v\<lparr>vm_mgrs := (vm_mgrs v)[nat d := m']\<rparr>" "s' = s1"
    using on_mgr_eq [where f = "seg_append L data", OF assms(1) dev ap] assms(4) Inr vm_open [OF assms(1)] by (auto simp: vm_write_def)
  have frame: "\<forall>j. j \<notin> extent_ids v \<longrightarrow> view s' j = view s j"
    using ok check_device_id [OF dev] unfolding res(3) by metis
  have same: "same_media v v'"
    unfolding res(2) using ok dev by (intro same_media_update) (auto simp: check_device_def)
  have upd: "vm_inv view (U(d := U')) (v', s')" if "seg_inv view U' (m', s1)" for U'
    unfolding res(2,3) by (rule vm_inv_update [OF assms(1) dev that]) (use ok in auto)
  show ?thesis
  proof (cases r')
    case (Inl e)
    then have "seg_inv view (U d) (m', s1)" "e = SegmentFullError" using ok by auto
    then show ?thesis using upd [of "U d"] ok same frame res Inl Inr by simp
  next
    case off: (Inr off)
    then have "seg_inv view ((U d)(off \<mapsto> data)) (m', s1)" "U d off = None" using ok by auto
    then show ?thesis using upd ok same frame res off Inr by (simp add: set_unit_def)
  qed
qed

lemma vm_flush_ok:
  assumes "vm_inv view U (v, s)" and "inv s"
  shows "\<exists>v' s'. vm_flush L (v, s) = (Inr (), (v', s')) \<and> inv s' \<and> room s' = room s \<and> same_media v v' \<and>
    (\<forall>j. j \<notin> extent_ids v \<longrightarrow> view s' j = view s j) \<and> vm_inv view U (v', s') \<and>
    (\<forall>d < length (vm_mgrs v). \<forall>off \<in> dom (U (int d)). \<not> seg_is_buffered (vm_mgrs v' ! d) off)"
proof -
  have "\<exists>v' s'. for_each (\<lambda>i. on_mgr (int i) (seg_flush L)) [0..<n] (v, s) = (Inr (), (v', s')) \<and> inv s' \<and>
      room s' = room s \<and> same_media v v' \<and> (\<forall>j. j \<notin> extent_ids v \<longrightarrow> view s' j = view s j) \<and> vm_inv view U (v', s') \<and>
      (\<forall>d < n. \<forall>off \<in> dom (U (int d)). \<not> seg_is_buffered (vm_mgrs v' ! d) off)" if "n \<le> length (vm_mgrs v)" for n
    using that
  proof (induction n)
    case 0
    then show ?case using assms by auto
  next
    case (Suc n)
    then obtain v1 s1 where st: "for_each (\<lambda>i. on_mgr (int i) (seg_flush L)) [0..<n] (v, s) = (Inr (), (v1, s1))"
      "inv s1" "room s1 = room s" "same_media v v1" "vm_inv view U (v1, s1)" "\<forall>j. j \<notin> extent_ids v \<longrightarrow> view s1 j = view s j"
      "\<forall>d < n. \<forall>off \<in> dom (U (int d)). \<not> seg_is_buffered (vm_mgrs v1 ! d) off" by auto
    have dev: "check_device v1 (int n)" using Suc.prems same_mediaD(1) [OF st(4)] by (simp add: check_device_def)
    from seg_flush_ok [OF vm_invD(1) [OF st(5) dev] st(2)] obtain m' s2 where
      fl: "seg_flush L (vm_mgrs v1 ! nat (int n), s1) = (Inr (), (m', s2))" "inv s2" "room s2 = room s1"
      "seg_inv view (U (int n)) (m', s2)" "sg_desc m' = sg_desc (vm_mgrs v1 ! nat (int n))"
      "sg_unit_size m' = sg_unit_size (vm_mgrs v1 ! nat (int n))"
      "\<forall>j. j \<noteq> d_chunk_id (sg_desc (vm_mgrs v1 ! nat (int n))) \<longrightarrow> view s2 j = view s1 j"
      "\<forall>off \<in> dom (U (int n)). \<not> seg_is_buffered m' off" by blast
    let ?v2 = "v1\<lparr>vm_mgrs := (vm_mgrs v1)[n := m']\<rparr>"
    have i: "vm_inv view U (?v2, s2)" using vm_inv_update [OF st(5) dev fl(4,5,6)] fl(7) by simp
    have sm: "same_media v ?v2"
      using fl(5,6) dev by (intro same_media_trans [OF st(4)] same_media_update) (auto simp: check_device_def)
    have fe: "for_each (\<lambda>i. on_mgr (int i) (seg_flush L)) [0..<Suc n] (v, s) = (Inr (), (?v2, s2))"
      using st(1) on_mgr_eq [where f = "seg_flush L", OF st(5) dev fl(1)] by (simp add: for_each_append)
    have fr: "\<forall>j. j \<notin> extent_ids v \<longrightarrow> view s2 j = view s j"
      using fl(7) st(6) check_device_id [OF dev] unfolding same_media_ids [OF st(4)] by metis
    have "\<forall>d < Suc n. \<forall>off \<in> dom (U (int d)). \<not> seg_is_buffered (vm_mgrs ?v2 ! d) off"
      using st(7) fl(8) dev by (auto simp: nth_list_update less_Suc_eq check_device_def)
    with fe fl(2,3) st(3) sm fr i show ?case by metis
  qed
  from this [of "length (vm_mgrs v)"] show ?thesis using vm_open [OF assms(1)] by (simp add: vm_flush_def)
qed

end

lemma vm_release_ok:
  assumes "vm_inv view U (v, s)" and "check_device v d" and "U d off = Some data"
  shows "\<exists>v'. vm_release d off v = (Inr (), v') \<and> same_media v v' \<and> vm_inv view (set_unit d off None U) (v', s)"
proof -
  from seg_release_ok [OF vm_invD(1) [OF assms(1,2)] assms(3)] obtain m' where
    m': "seg_release off (vm_mgrs v ! nat d) = (Inr (), m')" "seg_inv view ((U d)(off := None)) (m', s)"
    "sg_desc m' = sg_desc (vm_mgrs v ! nat d)" "sg_unit_size m' = sg_unit_size (vm_mgrs v ! nat d)" by blast
  have "vm_inv view (U(d := (U d)(off := None))) (v\<lparr>vm_mgrs := (vm_mgrs v)[nat d := m']\<rparr>, s)"
    by (rule vm_inv_update [OF assms(1,2) m'(2-4)]) simp
  moreover have "same_media v (v\<lparr>vm_mgrs := (vm_mgrs v)[nat d := m']\<rparr>)"
    using m'(3,4) assms(2) by (intro same_media_update) (auto simp: check_device_def)
  ultimately show ?thesis using m'(1) assms(2) vm_open [OF assms(1)] by (simp add: vm_release_def set_unit_def)
qed

subsection \<open>A batch of reads\<close>

definition in_buffer :: "media \<Rightarrow> int \<times> int \<Rightarrow> bool" where
  "in_buffer v it \<longleftrightarrow> read_buffer (vm_mgrs v ! nat (fst it)) (snd it) (vm_unit_size v) \<noteq> None"

text \<open>The items among the first \<open>n\<close> that the scan copies, and those it leaves for the disk.\<close>

definition copied :: "media \<Rightarrow> (int \<times> int) list \<Rightarrow> nat \<Rightarrow> nat set" where
  "copied v items n = {p. p < n \<and> in_buffer v (items ! p)}"

definition on_disk :: "media \<Rightarrow> (int \<times> int) list \<Rightarrow> nat \<Rightarrow> (int \<times> placed) set" where
  "on_disk v items n = {(d, p, off). p < n \<and> items ! p = (d, off) \<and> \<not> in_buffer v (d, off)}"

text \<open>\<open>D pos\<close> are the bytes of the live unit item \<open>pos\<close> denotes.\<close>

definition live_items :: "media \<Rightarrow> live_units \<Rightarrow> (int \<times> int) list \<Rightarrow> (nat \<Rightarrow> bytes) \<Rightarrow> bool" where
  "live_items v U items D \<longleftrightarrow> (\<forall>p < length items. check_device v (fst (items ! p)) \<and>
     U (fst (items ! p)) (snd (items ! p)) = Some (D p))"

lemma live_item_read:
  assumes "vm_inv view U (v, s)" and "check_device v d" and "U d off = Some data"
  shows "int (length data) = vm_unit_size v"
    and "read_buffer (vm_mgrs v ! nat d) off (vm_unit_size v) = Some b \<Longrightarrow> b = data"
    and "read_buffer (vm_mgrs v ! nat d) off (vm_unit_size v) = None \<Longrightarrow>
      \<exists>xs. view s (d_chunk_id (sg_desc (vm_mgrs v ! nat d))) = Some xs \<and> int (length xs) = d_user_size (sg_desc (vm_mgrs v ! nat d)) \<and>
        0 \<le> off \<and> off + vm_unit_size v \<le> int (length xs) \<and> block_at (nat off) (nat (vm_unit_size v)) xs = data"
proof -
  let ?m = "vm_mgrs v ! nat d"
  note si = vm_invD(1) [OF assms(1,2)]
  have u: "sg_unit_size ?m = vm_unit_size v" using vm_invD(2) [OF assms(1,2)] by (simp add: mgr_ok_def)
  have "\<exists>xs. unit_ok ?m xs off data" using si assms(3) by (auto simp: seg_inv_def)
  then show "int (length data) = vm_unit_size v" using u by (auto simp: unit_ok_def)
  show "read_buffer ?m off (vm_unit_size v) = Some b \<Longrightarrow> b = data"
    and "read_buffer ?m off (vm_unit_size v) = None \<Longrightarrow>
      \<exists>xs. view s (d_chunk_id (sg_desc ?m)) = Some xs \<and> int (length xs) = d_user_size (sg_desc ?m) \<and>
        0 \<le> off \<and> off + vm_unit_size v \<le> int (length xs) \<and> block_at (nat off) (nat (vm_unit_size v)) xs = data"
    using seg_read_ok [OF si assms(3)] u by auto
qed

lemma distinct_bucket_add: "distinct (map fst bk) \<Longrightarrow> distinct (map fst (bucket_add d p bk))"
  by (simp add: bucket_add_def)

lemma scan_items_ok:
  assumes "vm_inv view U (v, s)" and "outs_ok (vm_unit_size v) outs bs" and "live_items v U (pre @ items) D"
    and "length outs = length (pre @ items)" and "distinct (map fst bk)"
    and "filled_outs outs D (copied v (pre @ items) (length pre)) bs bs1"
    and "entries bk = on_disk v (pre @ items) (length pre)"
  shows "\<exists>bk' bs2. scan_items v (length pre) items outs bs1 bk = (Inr bk', bs2) \<and> distinct (map fst bk') \<and>
    filled_outs outs D (copied v (pre @ items) (length (pre @ items))) bs bs2 \<and>
    entries bk' = on_disk v (pre @ items) (length (pre @ items))"
  using assms(3-7)
proof (induction items arbitrary: pre bs1 bk)
  case (Cons it items)
  obtain d off where it: "it = (d, off)" by fastforce
  let ?all = "(pre @ [it]) @ items" and ?n = "length pre"
  have nth: "?all ! ?n = (d, off)" by (simp add: it nth_append)
  have live: "check_device v d" "U d off = Some (D ?n)"
    using Cons.prems(1) it by (auto simp: live_items_def nth_append dest!: spec [of _ ?n])
  note rd = live_item_read [OF assms(1) live]
  have n: "?n < length outs" using Cons.prems(2) by simp
  have lenD: "int (length (D p)) = vm_unit_size v" if "p \<in> copied v (pre @ it # items) ?n" for p
    using Cons.prems(1) that live_item_read(1) [OF assms(1)]
    by (auto simp: live_items_def copied_def dest!: spec [of _ p])
  have nb: "vm_unit_size v \<le> nbytes (bs1 (outs ! ?n))"
    using filled_outs_nbytes [OF assms(2) Cons.prems(4) n] lenD by blast
  note IH = Cons.IH [of "pre @ [it]", simplified append.simps append_assoc length_append_singleton]
  show ?case
  proof (cases "read_buffer (vm_mgrs v ! nat d) off (vm_unit_size v)")
    case None
    then have "copied v ?all (Suc ?n) = copied v ?all ?n"
      "on_disk v ?all (Suc ?n) = insert (d, ?n, off) (on_disk v ?all ?n)"
      using nth by (auto simp: copied_def on_disk_def in_buffer_def less_Suc_eq)
    then have "\<exists>bk' bs2. scan_items v (Suc ?n) items outs bs1 (bucket_add d (?n, off) bk) = (Inr bk', bs2) \<and> distinct (map fst bk') \<and>
        filled_outs outs D (copied v (pre @ it # items) (length (pre @ it # items))) bs bs2 \<and>
        entries bk' = on_disk v (pre @ it # items) (length (pre @ it # items))"
      using IH [of "bucket_add d (?n, off) bk" bs1] Cons.prems entries_bucket_add [OF Cons.prems(3), of d "(?n, off)"]
      by (simp add: distinct_bucket_add)
    then show ?thesis using it None live(1) nb by simp
  next
    case (Some b)
    then have b: "b = D ?n" using rd(2) by blast
    have cs: "copied v ?all (Suc ?n) = insert ?n (copied v ?all ?n)" "on_disk v ?all (Suc ?n) = on_disk v ?all ?n"
      using nth Some by (auto simp: copied_def on_disk_def in_buffer_def less_Suc_eq)
    from filled_outs_assign [OF assms(2) Cons.prems(4) n rd(1)] obtain bs2 where
      bs2: "assign_out (vm_unit_size v) (D ?n) (outs ! ?n) bs1 = Inr bs2"
      "filled_outs outs D (insert ?n (copied v (pre @ it # items) ?n)) bs bs2" by blast
    then have "\<exists>bk' bs3. scan_items v (Suc ?n) items outs bs2 bk = (Inr bk', bs3) \<and> distinct (map fst bk') \<and>
        filled_outs outs D (copied v (pre @ it # items) (length (pre @ it # items))) bs bs3 \<and>
        entries bk' = on_disk v (pre @ it # items) (length (pre @ it # items))"
      using IH [of bk bs2] Cons.prems cs by simp
    then show ?thesis using it Some b bs2(1) live(1) nb by simp
  qed
qed auto

text \<open>Every run is one in-range read of its extent, and its pieces are the units of the run.\<close>

lemma run_read:
  assumes "vm_inv view U (v, s)" and "live_items v U items D" and "consecutive (vm_unit_size v) r"
    and "\<And>p. p \<in> set r \<Longrightarrow> (d, p) \<in> on_disk v items (length items)"
  shows "\<exists>xs. view s (d_chunk_id (sg_desc (vm_mgrs v ! nat d))) = Some xs \<and>
      int (length xs) = d_user_size (sg_desc (vm_mgrs v ! nat d)) \<and> mgr_ok v (vm_mgrs v ! nat d) \<and>
      0 \<le> snd (hd r) \<and> 0 \<le> run_length v r \<and> snd (hd r) + run_length v r \<le> int (length xs) \<and>
      4096 dvd snd (hd r) \<and> 4096 dvd run_length v r \<and>
      (\<forall>(pos, off) \<in> set r. pos < length items \<and> int (length (D pos)) = vm_unit_size v \<and>
        py_slice (block_at (nat (snd (hd r))) (nat (run_length v r)) xs) (off - snd (hd r)) (off - snd (hd r) + vm_unit_size v) = D pos)"
proof -
  let ?u = "vm_unit_size v" and ?m = "vm_mgrs v ! nat d" and ?st = "snd (hd r)"
  have ne: "r \<noteq> []" using assms(3) by (simp add: consecutive_def)
  have unit: "check_device v d \<and> pos < length items \<and> U d off = Some (D pos) \<and> read_buffer ?m off ?u = None"
    if "(pos, off) \<in> set r" for pos off
    using assms(4) [OF that] assms(2) by (auto simp: on_disk_def live_items_def in_buffer_def)
  note lr = live_item_read [OF assms(1)]
  from ne obtain p0 where "(p0, ?st) \<in> set r" by (metis hd_in_set prod.collapse)
  with unit lr(3) obtain xs where xs: "view s (d_chunk_id (sg_desc ?m)) = Some xs" "int (length xs) = d_user_size (sg_desc ?m)"
    "0 \<le> ?st" "check_device v d" by metis
  have in_xs: "0 \<le> off \<and> off + ?u \<le> int (length xs) \<and> block_at (nat off) (nat ?u) xs = D pos \<and> int (length (D pos)) = ?u"
    if "(pos, off) \<in> set r" for pos off
    using lr(1,3) [of d off "D pos"] unit [OF that] xs(1) by auto
  have u: "0 \<le> ?u" using in_xs ne by (metis hd_in_set prod.collapse of_nat_0_le_iff)
  have le: "?st + run_length v r \<le> int (length xs)"
    using in_xs [of "fst (last r)" "snd (last r)"] ne by (simp add: run_length_def)
  have rl: "run_length v r = int (length r) * ?u" by (rule run_length_eq [OF assms(3)])
  have piece: "py_slice (block_at (nat ?st) (nat (run_length v r)) xs) (off - ?st) (off - ?st + ?u) = D pos"
    if po: "(pos, off) \<in> set r" for pos off
  proof -
    obtain i where i: "i < length r" "r ! i = (pos, off)" using po by (metis in_set_conv_nth)
    have off: "off - ?st = int i * ?u" using assms(3) i by (auto simp: consecutive_def dest!: spec [of _ i])
    have "(int i + 1) * ?u \<le> int (length r) * ?u" using i(1) u by (intro mult_right_mono) auto
    then have fit: "off - ?st + ?u \<le> run_length v r" "0 \<le> off - ?st" using off rl u by (auto simp: algebra_simps)
    have len: "length (block_at (nat ?st) (nat (run_length v r)) xs) = nat (run_length v r)"
      using le xs(3) fit u by (intro length_block_at) linarith
    have "py_slice (block_at (nat ?st) (nat (run_length v r)) xs) (off - ?st) (off - ?st + ?u) =
        block_at (nat (off - ?st)) (nat ?u) (block_at (nat ?st) (nat (run_length v r)) xs)"
      using fit u len by (intro py_slice_block) auto
    also have "\<dots> = block_at (nat ?st + nat (off - ?st)) (nat ?u) xs"
      using fit u by (intro block_at_block_at) linarith
    also have "nat ?st + nat (off - ?st) = nat off" using fit xs(3) by simp
    finally show ?thesis using in_xs [OF po] by simp
  qed
  have seg: "seg_inv view (U d) (?m, s)" by (rule vm_invD(1) [OF assms(1) xs(4)])
  have "4096 dvd sg_unit_size ?m" using seg by (simp add: seg_inv_def seg_geom_def)
  then have "4096 dvd run_length v r" using rl vm_invD(2) [OF assms(1) xs(4)] by (simp add: mgr_ok_def)
  moreover have "4096 dvd ?st" using live_unit_page [OF seg] unit [OF \<open>(p0, ?st) \<in> set r\<close>] by blast
  moreover have "0 \<le> run_length v r" using rl u by simp
  ultimately show ?thesis using xs le piece unit in_xs vm_invD(2) [OF assms(1) xs(4)] by auto
qed

lemma first_failure_None_iff: "first_failure rs = None \<longleftrightarrow> (\<forall>e. Some (Inl e) \<notin> set rs)"
  by (induction rs) (auto split: option.splits sum.splits)

lemma set_many_no_failure:
  assumes "\<forall>(i, x) \<in> set ps. \<exists>n. x = Inr n" and "\<forall>e. Some (Inl e) \<notin> set (h_results h)"
  shows "\<forall>e. Some (Inl e) \<notin> set (h_results (snd (set_many ps h)))"
  using assms
proof (induction ps arbitrary: h)
  case (Cons p ps)
  obtain i n where p: "p = (i, Inr n)" using Cons.prems(1) by (cases p) auto
  have "\<forall>e. Some (Inl e) \<notin> set (h_results (snd (set_result i (Inr n) h)))"
    using Cons.prems(2) set_update_subset_insert [of "h_results h" i "Some (Inr n)"]
    by (auto simp: set_result_def set_many_def Let_def)
  from Cons.IH [OF _ this] show ?case using Cons.prems(1) unfolding p set_many_Cons by auto
qed (simp add: set_many_def Let_def)

lemma all_results_succeed:
  assumes "mset (map fst ps) = mset [0..<length reqs]" and "\<forall>(i, x) \<in> set ps. \<exists>n. x = Inr n"
  shows "\<exists>ns. handle_result (snd (set_many ps (IOHandle reqs))) = Inr ns"
proof -
  let ?h = "snd (set_many ps (IOHandle reqs))"
  have "handle_ok {#} ?h" using handle_ok_set_many [of ps "{#}" "IOHandle reqs"] assms(1) handle_ok_new [of reqs] by simp
  then have "h_remaining ?h = 0" by (simp add: handle_ok_def)
  moreover have "first_failure (h_results ?h) = None"
    unfolding first_failure_None_iff using set_many_no_failure [OF assms(2), of "IOHandle reqs"] by (simp add: IOHandle_def)
  ultimately show ?thesis by (simp add: handle_result_def)
qed

lemma mset_map_eq: "mset xs = mset ys \<Longrightarrow> mset (map f xs) = mset (map f ys)"
  by simp

text \<open>A scheduler may reorder the requests of a batch and do nothing else.\<close>

definition fair :: "scheduler \<Rightarrow> bool" where
  "fair sched \<longleftrightarrow> (\<forall>g. mset (sched g) = mset g)"

context chunk_store
begin

lemma engine_read_batch_ok:
  assumes "inv s" and "\<not> en_closed en" and "fair sched"
    and "\<And>i. i < length reqs \<Longrightarrow> read_fits (view s) bs (reqs ! i) \<and> rq_buffer (reqs ! i) = i"
  shows "\<exists>bs' s'. engine_read_batch L sched en reqs (bs, s) = (Inr (), (bs', s')) \<and> inv s' \<and> room s' = room s \<and>
    view s' = view s \<and> (\<forall>i < length reqs. bs' i = filled (view s) (reqs ! i) (bs i))"
proof -
  let ?g = "map (\<lambda>i. (i, reqs ! i, True)) [0..<length reqs]"
  have m: "mset (sched ?g) = mset ?g" using assms(3) by (simp add: fair_def)
  then have st: "set (sched ?g) = set ?g" by (rule mset_eq_setD)
  have "map (\<lambda>(i, req, rd). rq_buffer req) ?g = [0..<length reqs]" 
    using assms(4) by (auto simp: comp_def intro: map_idI)
  then have "mset (map (\<lambda>(i, req, rd). rq_buffer req) (sched ?g)) = mset [0..<length reqs]"
    using mset_map_eq [OF m, of "\<lambda>(i, req, rd). rq_buffer req"] by (simp only:)
  then have dist: "distinct (map (\<lambda>(i, req, rd). rq_buffer req) (sched ?g))" using mset_eq_imp_distinct_iff distinct_upt by blast
  have fits: "rd \<and> read_fits (view s) bs req" if "(i, req, rd) \<in> set (sched ?g)" for i req rd
    using that assms(4) unfolding st by auto
  from run_reads [of s "sched ?g" bs] assms(1) fits dist obtain s' where
    s': "run_group L (sched ?g) (bs, s) = (map (\<lambda>(i, req, rd). (i, Inr (ia_length (rq_address req)))) (sched ?g),
       (\<lambda>b. case find (\<lambda>(i, req, rd). rq_buffer req = b) (sched ?g) of
              None \<Rightarrow> bs b | Some (i, req, rd) \<Rightarrow> filled (view s) req (bs b), s'))"
      "inv s'" "room s' = room s" "view s' = view s" by blast
  let ?rs = "map (\<lambda>(i, req, rd). (i, Inr (ia_length (rq_address req)) :: int result)) (sched ?g)"
  have "map fst ?rs = map fst (sched ?g)" by (simp add: comp_def case_prod_beta')
  then have "mset (map fst ?rs) = mset (map fst ?g)" using mset_map_eq [OF m, of fst] by (simp only:)
  then have "mset (map fst ?rs) = mset [0..<length reqs]" by (simp add: comp_def)
  from all_results_succeed [OF this] obtain ns where ns: "handle_result (snd (set_many ?rs (IOHandle reqs))) = Inr ns" by fastforce
  have "(case find (\<lambda>(j, req, rd). rq_buffer req = i) (sched ?g) of
      None \<Rightarrow> bs i | Some (j, req, rd) \<Rightarrow> filled (view s) req (bs i)) = filled (view s) (reqs ! i) (bs i)"
    if "i < length reqs" for i
    using find_unique [OF dist, of "(i, reqs ! i, True)"] that st assms(4) [OF that] by (simp add: case_prod_beta')
  then show ?thesis using s' ns assms(2) by (auto simp: engine_read_batch_def)
qed

end

lemma copy_pieces_ok:
  assumes "outs_ok (vm_unit_size v) outs bs" and "filled_outs outs D P bs bs1"
    and "\<forall>(pos, off) \<in> set ps. pos < length outs \<and> int (length (D pos)) = vm_unit_size v \<and>
      py_slice staging (off - start) (off - start + vm_unit_size v) = D pos"
  shows "\<exists>bs2. copy_pieces v staging start ps outs bs1 = (Inr (), bs2) \<and> filled_outs outs D (P \<union> fst ` set ps) bs bs2"
  using assms(2,3)
proof (induction ps arbitrary: P bs1)
  case (Cons p ps)
  obtain pos off where p: "p = (pos, off)" by fastforce
  from filled_outs_assign [OF assms(1) Cons.prems(1), of pos] Cons.prems(2) p obtain bs2 where
    "assign_out (vm_unit_size v) (D pos) (outs ! pos) bs1 = Inr bs2" and f: "filled_outs outs D (insert pos P) bs bs2" by auto
  with Cons.IH [OF f] Cons.prems(2) show ?case by (auto simp: p Let_def)
qed auto

lemma copy_runs_ok:
  assumes "outs_ok (vm_unit_size v) outs bs" and "filled_outs outs D P bs bs1"
    and "\<And>i. i < length runs \<Longrightarrow> \<forall>(pos, off) \<in> set (snd (runs ! i)). pos < length outs \<and> int (length (D pos)) = vm_unit_size v \<and>
      py_slice (buf_data (st i)) (off - snd (hd (snd (runs ! i)))) (off - snd (hd (snd (runs ! i))) + vm_unit_size v) = D pos"
  shows "\<exists>bs2. copy_runs v runs st outs bs1 = (Inr (), bs2) \<and>
    filled_outs outs D (P \<union> {pos. \<exists>d off. (d, pos, off) \<in> entries runs}) bs bs2"
proof -
  let ?f = "\<lambda>i. copy_pieces v (buf_data (st i)) (snd (hd (snd (runs ! i)))) (snd (runs ! i)) outs"
  have all: "\<exists>bs2. for_each ?f [0..<n] bs1 = (Inr (), bs2) \<and> filled_outs outs D (P \<union> (\<Union>i<n. fst ` set (snd (runs ! i)))) bs bs2"
    if "n \<le> length runs" for n
    using that
  proof (induction n)
    case (Suc n)
    then obtain bs2 where "for_each ?f [0..<n] bs1 = (Inr (), bs2)"
      "filled_outs outs D (P \<union> (\<Union>i<n. fst ` set (snd (runs ! i)))) bs bs2" by auto
    moreover from copy_pieces_ok [OF assms(1) this(2) assms(3) [of n]] Suc.prems obtain bs3 where
      "?f n bs2 = (Inr (), bs3)"
      "filled_outs outs D (P \<union> (\<Union>i<n. fst ` set (snd (runs ! i))) \<union> fst ` set (snd (runs ! n))) bs bs3" by auto
    ultimately show ?case by (simp add: for_each_append lessThan_Suc Un_assoc) (simp add: Un_commute)
  qed (use assms(2) in simp)
  have "(\<Union>i<length runs. fst ` set (snd (runs ! i))) = {pos. \<exists>d off. (d, pos, off) \<in> entries runs}"
    by (force simp: entries_nth)
  then show ?thesis using all [OF order_refl] by (simp add: copy_runs_def)
qed

context chunk_store
begin

lemma vm_read_batch_ok:
  assumes "vm_inv view U (v, s)" and "inv s" and "fair sched" and "length items = length outs"
    and "outs_ok (vm_unit_size v) outs bs" and "live_items v U items D"
  shows "\<exists>bs' s'. vm_read_batch L sched items outs v (bs, s) = (Inr (), (bs', s')) \<and> inv s' \<and> room s' = room s \<and>
    view s' = view s \<and> filled_outs outs D {..<length outs} bs bs'"
proof -
  let ?n = "length items"
  have "filled_outs outs D (copied v items 0) bs bs" "on_disk v items 0 = {}"
    by (auto simp: filled_outs_def copied_def on_disk_def)
  with scan_items_ok [of view U v s outs bs "[]" items D "[]" bs] assms obtain bk bs1 where
    sc: "scan_items v 0 items outs bs [] = (Inr bk, bs1)" "filled_outs outs D (copied v items ?n) bs bs1"
      "entries bk = on_disk v items ?n" by auto
  define runs where "runs = all_runs v bk"
  define st0 where "st0 = staging_store v runs"
  define reqs where "reqs = map (\<lambda>i. run_request v i (runs ! i)) [0..<length runs]"
  have ent: "entries runs = on_disk v items ?n" using sc(3) all_runs_props(1) by (simp add: runs_def)
  have all: "copied v items ?n \<union> {pos. \<exists>d off. (d, pos, off) \<in> entries runs} = {..<length outs}"
    unfolding ent using assms(4) by (auto simp: copied_def on_disk_def) (metis prod.collapse)
  have run: "\<exists>xs. view s (ia_chunk_id (rq_address (reqs ! i))) = Some xs \<and>
      read_fits (view s) st0 (reqs ! i) \<and> rq_buffer (reqs ! i) = i \<and>
      (\<forall>(pos, off) \<in> set (snd (runs ! i)). pos < length outs \<and> int (length (D pos)) = vm_unit_size v \<and>
        py_slice (buf_data (filled (view s) (reqs ! i) (st0 i))) (off - snd (hd (snd (runs ! i))))
          (off - snd (hd (snd (runs ! i))) + vm_unit_size v) = D pos)"
    if i: "i < length runs" for i
  proof -
    obtain d r where dr: "runs ! i = (d, r)" by fastforce
    have "(d, r) \<in> set runs" using i dr by (metis nth_mem)
    then have "consecutive (vm_unit_size v) r" and "\<And>p. p \<in> set r \<Longrightarrow> (d, p) \<in> on_disk v items ?n"
      using all_runs_props(2) ent by (auto simp: runs_def entries_def)
    from run_read [OF assms(1,6) this] obtain xs where xs:
      "view s (d_chunk_id (sg_desc (vm_mgrs v ! nat d))) = Some xs"
      "int (length xs) = d_user_size (sg_desc (vm_mgrs v ! nat d))" "mgr_ok v (vm_mgrs v ! nat d)"
      "0 \<le> snd (hd r)" "0 \<le> run_length v r" "snd (hd r) + run_length v r \<le> int (length xs)"
      "4096 dvd snd (hd r)" "4096 dvd run_length v r"
      "\<forall>(pos, off) \<in> set r. pos < ?n \<and> int (length (D pos)) = vm_unit_size v \<and>
        py_slice (block_at (nat (snd (hd r))) (nat (run_length v r)) xs) (off - snd (hd r)) (off - snd (hd r) + vm_unit_size v) = D pos"
      by blast
    have rq: "reqs ! i = run_request v i (d, r)" using i dr by (simp add: reqs_def)
    have "st0 i = bytearray_buf (replicate (nat (run_length v r)) 0)" using i dr by (simp add: st0_def staging_store_def)
    then show ?thesis using xs assms(4) unfolding rq dr
      by (auto simp: run_request_def from_descriptor_def read_fits_def filled_def bytearray_buf_def mgr_ok_def)
  qed
  show ?thesis
  proof (cases "runs = []")
    case True
    then have "all_runs v bk = []" "copied v items ?n = {..<length outs}" using all by (simp_all add: runs_def)
    then show ?thesis using sc assms(2,4) vm_open [OF assms(1)] by (simp add: vm_read_batch_def Let_def)
  next
    case False
    have len: "length reqs = length runs" by (simp add: reqs_def)
    from engine_read_batch_ok [of s "vm_engine v" sched reqs st0] assms(2,3) vm_open [OF assms(1)] run len obtain st s' where
      er: "engine_read_batch L sched (vm_engine v) reqs (st0, s) = (Inr (), (st, s'))" "inv s'" "room s' = room s"
        "view s' = view s" "\<forall>i < length runs. st i = filled (view s) (reqs ! i) (st0 i)" by metis
    have "\<forall>(pos, off) \<in> set (snd (runs ! i)). pos < length outs \<and> int (length (D pos)) = vm_unit_size v \<and>
      py_slice (buf_data (st i)) (off - snd (hd (snd (runs ! i)))) (off - snd (hd (snd (runs ! i))) + vm_unit_size v) = D pos"
      if "i < length runs" for i using run [OF that] er(5) that by auto
    from copy_runs_ok [OF assms(5) sc(2) this] obtain bs2 where
      "copy_runs v runs st outs bs1 = (Inr (), bs2)" "filled_outs outs D {..<length outs} bs bs2" unfolding all by auto
    then show ?thesis using False sc(1) er(1-4) assms(4) vm_open [OF assms(1)]
      unfolding runs_def reqs_def st0_def by (simp add: vm_read_batch_def Let_def)
  qed
qed

end

subsection \<open>Construction and close\<close>

definition strategy_ok :: "strategy \<Rightarrow> bool" where
  "strategy_ok st \<longleftrightarrow> (\<forall>k d. st_locate st k = Inr d \<longrightarrow> 0 \<le> d \<and> d < st_num_devices st)"

definition registry_ok :: "registry \<Rightarrow> bool" where
  "registry_ok reg \<longleftrightarrow>
     (\<forall>name cls n cfg st. map_of reg name = Some cls \<and> cls n cfg = Inr st \<longrightarrow> strategy_ok st \<and> st_num_devices st = n)"

lemma builtin_registry_ok: "registry_ok builtin_registry"
proof -
  have "strategy_ok st \<and> st_num_devices st = n" if st: "PositionHashStrategy n cfg = Inr st" for n cfg st
  proof -
    obtain p where p: "PositionHash_init n cfg = Inr p" "st = position_hash_strategy p"
      using st by (auto simp: PositionHashStrategy_def split: sum.splits)
    have "ph_ok p" "ph_num_devices p = n" using PositionHash_init_ok [OF p(1)] by auto
    then show ?thesis using ph.locate_range [of p] p(2) by (auto simp: strategy_ok_def position_hash_strategy_def)
  qed
  then show ?thesis by (auto simp: registry_ok_def builtin_registry_def split: if_splits)
qed

definition strategy_arg_ok :: "strategy_arg \<Rightarrow> bool" where
  "strategy_arg_ok arg \<longleftrightarrow> (case arg of StrategyObj st \<Rightarrow> strategy_ok st | _ \<Rightarrow> True)"

lemma resolve_strategy_ok:
  assumes "registry_ok reg" and "strategy_arg_ok arg" and "resolve_strategy reg arg cfg n = Inr st"
  shows "strategy_ok st \<and> st_num_devices st = n"
proof (cases arg)
  case NoStrategy
  then show ?thesis using assms(1,3) unfolding registry_ok_def by (auto simp: resolve_strategy_def create_strategy_def split: option.splits)
next
  case (StrategyName name)
  then show ?thesis using assms(1,3) unfolding registry_ok_def by (auto simp: resolve_strategy_def create_strategy_def split: option.splits)
qed (use assms(2,3) in \<open>auto simp: resolve_strategy_def strategy_arg_ok_def split: if_splits\<close>)

text \<open>The extents of \<open>ms\<close> are exactly what \<open>s\<close> holds beyond \<open>s0\<close>.\<close>

definition extents_over :: "('s \<Rightarrow> int \<Rightarrow> bytes option) \<Rightarrow> 's \<Rightarrow> seg_mgr list \<Rightarrow> 's \<Rightarrow> bool" where
  "extents_over view s0 ms s \<longleftrightarrow> distinct (map (\<lambda>m. d_chunk_id (sg_desc m)) ms) \<and>
     (\<forall>m \<in> set ms. view s0 (d_chunk_id (sg_desc m)) = None \<and> view s (d_chunk_id (sg_desc m)) \<noteq> None) \<and>
     (\<forall>j. j \<notin> (\<lambda>m. d_chunk_id (sg_desc m)) ` set ms \<longrightarrow> view s j = view s0 j)"

definition mgr_fresh :: "('s \<Rightarrow> int \<Rightarrow> bytes option) \<Rightarrow> int \<Rightarrow> 's \<Rightarrow> seg_mgr \<Rightarrow> bool" where
  "mgr_fresh view u s m \<longleftrightarrow> seg_inv view Map.empty (m, s) \<and> sg_unit_size m = u \<and>
     u64 (d_chunk_id (sg_desc m)) = d_chunk_id (sg_desc m) \<and> u64 (d_user_size (sg_desc m)) = d_user_size (sg_desc m)"

definition capacity_ok :: "capacity \<Rightarrow> bool" where
  "capacity_ok c \<longleftrightarrow> (\<forall>d n. capacity_for c d = Inr n \<longrightarrow> 0 \<le> n \<and> n < 2 ^ 64)"

lemma init_desc: "DeviceSegmentManager_init desc d sp u = Inr m \<Longrightarrow> sg_desc m = desc \<and> sg_unit_size m = u"
  by (auto simp: DeviceSegmentManager_init_def Let_def split: sum.splits if_splits)

context chunk_store
begin

lemma open_device_ok:
  assumes "inv s" and "room s (Suc n)" and "capacity_ok (ma_capacity a)" and "open_device L a sp ov d s = (r, s')"
  shows "inv s' \<and>
    (case r of
       Inl e \<Rightarrow> view s' = view s
     | Inr m \<Rightarrow> room s' n \<and> mgr_fresh view (ma_unit_size a) s' m \<and> view s (d_chunk_id (sg_desc m)) = None \<and>
         view s' (d_chunk_id (sg_desc m)) \<noteq> None \<and> (\<forall>j. j \<noteq> d_chunk_id (sg_desc m) \<longrightarrow> view s' j = view s j))"
proof (cases "capacity_for (ma_capacity a) d")
  case (Inl e)
  then show ?thesis using assms by (auto simp: open_device_def)
next
  case (Inr cap)
  then have cap: "0 \<le> cap" "cap < 2 ^ 64" using assms(3) by (auto simp: capacity_ok_def)
  obtain ra s1 where al: "lib_alloc_on_device L cap UMM_TIER_SSD d s = (ra, s1)" by fastforce
  show ?thesis
  proof (cases ra)
    case (Inl e)
    with al have "inv s1 \<and> view s1 = view s" using alloc_error [OF assms(1)] by blast
    then show ?thesis using al Inl Inr assms(4) by (auto simp: open_device_def)
  next
    case desc: (Inr desc)
    with alloc_ok [OF assms(1,2) _ cap] al obtain xs where
      d: "inv s1" "room s1 n" "view s (d_chunk_id desc) = None" "u64 (d_chunk_id desc) = d_chunk_id desc"
        "d_user_size desc = cap" "int (length xs) = cap" "view s1 = (view s)(d_chunk_id desc \<mapsto> xs)" by blast
    show ?thesis
    proof (cases "DeviceSegmentManager_init desc d (override_for ov d sp) (ma_unit_size a)")
      case (Inl e)
      obtain rf s2 where fr: "lib_free L desc s1 = (rf, s2)" by fastforce
      have "view s1 (d_chunk_id desc) \<noteq> None" using d(7) by simp
      from free_ok [OF d(1) this fr] have "rf = Inr ()" "inv s2" "view s2 = view s" using d(3,7) by (auto simp: fun_eq_iff)
      moreover have "r = Inl e" "s' = s2" using al desc Inr Inl fr assms(4) \<open>rf = Inr ()\<close> by (auto simp: open_device_def)
      ultimately show ?thesis by simp
    next
      case (Inr m)
      note id = init_desc [OF this]
      have "seg_inv view Map.empty (m, s1)"
        by (rule seg_inv_init [OF Inr, of view s1 xs]) (use d cap in auto)
      moreover have "r = Inr m" "s' = s1" using al desc Inr \<open>capacity_for (ma_capacity a) d = Inr cap\<close> assms(4)
        by (auto simp: open_device_def)
      ultimately show ?thesis using d cap id by (auto simp: mgr_fresh_def)
    qed
  qed
qed

end

lemma mgr_fresh_frame: "mgr_fresh view u s m \<Longrightarrow> view s' (d_chunk_id (sg_desc m)) = view s (d_chunk_id (sg_desc m)) \<Longrightarrow> mgr_fresh view u s' m"
  using seg_inv_frame by (auto simp: mgr_fresh_def)

context chunk_store
begin

lemma open_devices_ok:
  assumes "inv s" and "room s (length ds)" and "capacity_ok (ma_capacity a)" and "open_devices L a sp ov ds ms s = (r, ms', s')"
    and "extents_over view s0 ms s" and "\<forall>m \<in> set ms. mgr_fresh view (ma_unit_size a) s m"
  shows "inv s' \<and> extents_over view s0 ms' s' \<and>
    (r = None \<longrightarrow> length ms' = length ms + length ds \<and> (\<forall>m \<in> set ms'. mgr_fresh view (ma_unit_size a) s' m))"
  using assms(1,2,4-6)
proof (induction ds arbitrary: ms s)
  case (Cons d ds)
  obtain rd s1 where od: "open_device L a sp ov d s = (rd, s1)" by fastforce
  have room: "room s (Suc (length ds))" using Cons.prems(2) by simp
  note ok = open_device_ok [OF Cons.prems(1) room assms(3) od]
  show ?case
  proof (cases rd)
    case (Inl e)
    then have "r = Some e" "ms' = ms" "s' = s1" using Cons.prems(3) od by auto
    then show ?thesis using ok Inl Cons.prems(4) by (simp add: extents_over_def)
  next
    case (Inr m)
    let ?id = "d_chunk_id (sg_desc m)"
    have m: "inv s1" "room s1 (length ds)" "mgr_fresh view (ma_unit_size a) s1 m" "view s ?id = None"
      "view s1 ?id \<noteq> None" "\<forall>j. j \<noteq> ?id \<longrightarrow> view s1 j = view s j" using ok Inr by auto
    have new: "d_chunk_id (sg_desc m') \<noteq> ?id" if "m' \<in> set ms" for m'
      using Cons.prems(4) that m(4) by (auto simp: extents_over_def)
    have "view s0 ?id = None" using Cons.prems(4) m(4) new unfolding extents_over_def by (metis imageE)
    then have "extents_over view s0 (ms @ [m]) s1"
      using Cons.prems(4) m new unfolding extents_over_def by (auto 4 3)
    moreover have "\<forall>m' \<in> set (ms @ [m]). mgr_fresh view (ma_unit_size a) s1 m'"
      using Cons.prems(5) m(3,6) new by (auto intro: mgr_fresh_frame [of view _ s])
    moreover have "open_devices L a sp ov ds (ms @ [m]) s1 = (r, ms', s')" using Cons.prems(3) od Inr by simp
    ultimately show ?thesis using Cons.IH [OF m(1,2), of "ms @ [m]"] by simp
  qed
qed auto

lemma free_extents_ok:
  assumes "inv s" and "extents_over view s0 ms s" and "free_extents L ms s = (r, s')"
  shows "r = Inr () \<and> inv s' \<and> view s' = view s0"
  using assms
proof (induction ms arbitrary: s)
  case (Cons m ms)
  let ?id = "d_chunk_id (sg_desc m)"
  obtain rf s1 where fr: "lib_free L (sg_desc m) s = (rf, s1)" by fastforce
  have "view s ?id \<noteq> None" using Cons.prems(2) by (simp add: extents_over_def)
  from free_ok [OF Cons.prems(1) this fr] have f: "rf = Inr ()" "inv s1" "view s1 = (view s)(?id := None)" by auto
  have "extents_over view s0 ms s1"
    using Cons.prems(2) f(3) unfolding extents_over_def by (auto simp: image_iff)
  with Cons.IH [OF f(2) this] show ?case using Cons.prems(3) fr f(1) by (simp add: free_extents_def)
qed (auto simp: free_extents_def extents_over_def fun_eq_iff)

end

end
