(* ===== verification/MediaCorrect.thy ===== *)
theory MediaCorrect
  imports VirtualMedia
begin

section \<open>Correctness of VirtualMedia\<close>

text \<open>
  The life of a media object: construction (with the extents given back on failure), any sequence
  of writes, flushes, releases and batched reads, and \<open>close\<close>. The properties hold over any library
  that satisfies \<open>chunk_store\<close>, for every order in which the I/O engine may execute a batch.
\<close>

subsection \<open>Construction\<close>

lemma media_plan_ok:
  assumes "media_plan reg cfg a topo = Inr (ds, sp, ov, st)" and "registry_ok reg" and "strategy_arg_ok (ma_strategy a)"
  shows "list_ssd_devices topo = Inr ds \<and> strategy_ok st \<and> st_num_devices st = int (length ds)"
proof -
  have "list_ssd_devices topo = Inr ds" "resolve_strategy reg (ma_strategy a) cfg (int (length ds)) = Inr st"
    using assms(1) by (auto simp: media_plan_def split: sum.splits if_splits)
  then show ?thesis using resolve_strategy_ok [OF assms(2,3)] by blast
qed

context chunk_store
begin

lemma media_open_ok:
  assumes "inv s" and "room s (length ds)" and "capacity_ok (ma_capacity a)"
    and "strategy_ok st" and "st_num_devices st = int (length ds)" and "media_open L a ds sp ov st s = (r, s')"
  shows "inv s' \<and>
    (case r of
       Inr v \<Rightarrow> vm_inv view (\<lambda>_. Map.empty) (v, s') \<and> extents_over view s (vm_mgrs v) s' \<and> vm_unit_size v = ma_unit_size a
     | Inl e \<Rightarrow> 1 \<le> ma_num_workers a \<longrightarrow> view s' = view s)"
proof -
  obtain ro ms s2 where od: "open_devices L a sp ov ds [] s = (ro, ms, s2)" by (metis prod.exhaust)
  have "extents_over view s [] s" by (simp add: extents_over_def)
  from open_devices_ok [OF assms(1-3) od this]
  have o: "inv s2" "extents_over view s ms s2"
    "ro = None \<Longrightarrow> length ms = length ds \<and> (\<forall>m \<in> set ms. mgr_fresh view (ma_unit_size a) s2 m)" by auto
  show ?thesis
  proof (cases ro)
    case (Some e)
    obtain rf s3 where fe: "free_extents L ms s2 = (rf, s3)" by fastforce
    from free_extents_ok [OF o(1,2) fe] have f: "rf = Inr ()" "inv s3" "view s3 = view s" by auto
    have "r = Inl e" "s' = s3" using assms(6) od Some fe f(1) by (auto simp: media_open_def)
    then show ?thesis using f by simp
  next
    case None
    show ?thesis
    proof (cases "ConcurrentIOEngine_init (ma_num_workers a) 1 None")
      case (Inl e)
      have "r = Inl e" "s' = s2" using assms(6) od None unfolding media_open_def Inl by auto
      moreover have "ma_num_workers a < 1" using Inl by (auto simp: ConcurrentIOEngine_init_def split: if_splits)
      ultimately show ?thesis using o(1) by simp
    next
      case (Inr en)
      define v where "v = \<lparr>vm_unit_size = ma_unit_size a, vm_devices = ds, vm_mgrs = ms, vm_strategy = st,
         vm_read_merge = ma_read_merge a, vm_max_read_bytes = ma_max_read_bytes a, vm_engine = en, vm_closed = False\<rparr>"
      have res: "r = Inr v" "s' = s2" using assms(6) od None unfolding media_open_def Inr v_def by auto
      have "\<not> en_closed en" using Inr by (auto simp: ConcurrentIOEngine_init_def split: if_splits)
      then have "vm_wf v" using assms(4,5) o(2) o(3) [OF None]
        by (auto simp: vm_wf_def v_def mgr_ok_def mgr_fresh_def check_device_def extents_over_def strategy_ok_def)
      then have "vm_inv view (\<lambda>_. Map.empty) (v, s2)" using o(3) [OF None] by (auto simp: vm_inv_def v_def mgr_fresh_def)
      then show ?thesis using res o(1,2) by (simp add: v_def)
    qed
  qed
qed

lemma media_init_ok:
  assumes "inv s" and "registry_ok reg" and "strategy_arg_ok (ma_strategy a)" and "capacity_ok (ma_capacity a)"
    and "\<And>topo s1 ds. lib_get_topology L s = (Inr topo, s1) \<Longrightarrow> list_ssd_devices topo = Inr ds \<Longrightarrow> room s (length ds)"
    and "VirtualMedia_init L reg file a s = (r, s')"
  shows "inv s' \<and>
    (case r of
       Inr v \<Rightarrow> vm_inv view (\<lambda>_. Map.empty) (v, s') \<and> extents_over view s (vm_mgrs v) s' \<and> vm_unit_size v = ma_unit_size a
     | Inl e \<Rightarrow> 1 \<le> ma_num_workers a \<longrightarrow> view s' = view s)"
proof -
  obtain rt s1 where tp: "lib_get_topology L s = (rt, s1)" by fastforce
  note s1 = topology_ok [OF assms(1) tp]
  show ?thesis
  proof (cases "\<exists>topo cfg p. check_max_read (ma_max_read_bytes a) (ma_unit_size a) \<and> load_config file = Inr cfg \<and>
      rt = Inr topo \<and> media_plan reg cfg a topo = Inr p")
    case False
    then have "(\<exists>e. r = Inl e) \<and> (s' = s \<or> s' = s1)"
      using assms(6) tp by (auto simp: VirtualMedia_init_def rbind_def split: if_splits sum.splits)
    then show ?thesis using s1 assms(1) by auto
  next
    case True
    then obtain topo cfg ds sp ov st where pre: "check_max_read (ma_max_read_bytes a) (ma_unit_size a)" "load_config file = Inr cfg"
      "rt = Inr topo" "media_plan reg cfg a topo = Inr (ds, sp, ov, st)" by (metis prod.exhaust)
    note mp = media_plan_ok [OF pre(4) assms(2,3)]
    have "room s1 (length ds)" using assms(5) tp pre(3) mp s1 by simp
    moreover have "media_open L a ds sp ov st s1 = (r, s')" using assms(6) tp pre by (simp add: VirtualMedia_init_def)
    ultimately show ?thesis
      using media_open_ok [of s1 ds a st sp ov r s'] s1 mp assms(4) by (auto simp: extents_over_def split: sum.splits)
  qed
qed

end

subsection \<open>Reachable states\<close>

text \<open>\<open>U\<close> collects the bytes each successful write stored and has not been released since.\<close>

inductive vm_reach :: "'s umm_lib \<Rightarrow> media \<Rightarrow> 's \<Rightarrow> live_units \<Rightarrow> media \<Rightarrow> 's \<Rightarrow> bool" for L v0 s0 where
  opened: "vm_reach L v0 s0 (\<lambda>_. Map.empty) v0 s0"
| write_unit: "\<lbrakk>vm_reach L v0 s0 U v s; vm_write L k data (v, s) = (Inr off, (v', s')); vm_locate v k = Inr d\<rbrakk> \<Longrightarrow>
    vm_reach L v0 s0 (set_unit d off (Some data) U) v' s'"
| write_fails: "\<lbrakk>vm_reach L v0 s0 U v s; vm_write L k data (v, s) = (Inl e, (v', s'))\<rbrakk> \<Longrightarrow> vm_reach L v0 s0 U v' s'"
| flush_all: "\<lbrakk>vm_reach L v0 s0 U v s; vm_flush L (v, s) = (r, (v', s'))\<rbrakk> \<Longrightarrow> vm_reach L v0 s0 U v' s'"
| release_unit: "\<lbrakk>vm_reach L v0 s0 U v s; check_device v d; U d off \<noteq> None; vm_release d off v = (r, v')\<rbrakk> \<Longrightarrow>
    vm_reach L v0 s0 (set_unit d off None U) v' s"
| read_units: "\<lbrakk>vm_reach L v0 s0 U v s; fair sched; length items = length outs; outs_ok (vm_unit_size v) outs bs;
     live_items v U items D; vm_read_batch L sched items outs v (bs, s) = (r, (bs', s'))\<rbrakk> \<Longrightarrow>
    vm_reach L v0 s0 U v s'"

lemma vm_write_bad_length:
  assumes "vm_inv view U (v, s)" and "int (length data) \<noteq> vm_unit_size v" and "vm_write L k data (v, s) = (r, (v', s'))"
  shows "\<exists>e. r = Inl e \<and> (vm_locate v k = Inl e \<or> e = ValueError)" "v' = v" "s' = s"
proof -
  have *: "(\<exists>e. r = Inl e \<and> (vm_locate v k = Inl e \<or> e = ValueError)) \<and> v' = v \<and> s' = s"
  proof (cases "vm_locate v k")
    case (Inl e)
    then have "r = Inl e" "v' = v" "s' = s" using assms(3) vm_open [OF assms(1)] by (auto simp: vm_write_def)
    then show ?thesis using Inl by simp
  next
    case (Inr d)
    note dev = vm_locate_check [OF assms(1) Inr]
    have "seg_append L data (vm_mgrs v ! nat d, s) = (Inl ValueError, (vm_mgrs v ! nat d, s))"
      using assms(2) vm_invD(2) [OF assms(1) dev] by (simp add: seg_append_def mgr_ok_def)
    from on_mgr_eq [where f = "seg_append L data", OF assms(1) dev this]
    show ?thesis using assms(3) Inr vm_open [OF assms(1)] by (auto simp: vm_write_def)
  qed
  then show "\<exists>e. r = Inl e \<and> (vm_locate v k = Inl e \<or> e = ValueError)" "v' = v" "s' = s" by auto
qed

lemma extents_over_same:
  assumes "extents_over view s0 (vm_mgrs v) s" and "same_media v v'" and "vm_inv view U (v', s')"
    and "\<forall>j. j \<notin> extent_ids v \<longrightarrow> view s' j = view s j"
  shows "extents_over view s0 (vm_mgrs v') s'"
proof -
  have ids: "(\<lambda>m. d_chunk_id (sg_desc m)) ` set (vm_mgrs v') = (\<lambda>m. d_chunk_id (sg_desc m)) ` set (vm_mgrs v)"
    using same_media_ids [OF assms(2)] by (simp add: extent_ids_def)
  have "distinct (map (\<lambda>m. d_chunk_id (sg_desc m)) (vm_mgrs v'))" using assms(3) by (simp add: vm_inv_def vm_wf_def)
  moreover have "view s0 (d_chunk_id (sg_desc m)) = None \<and> view s' (d_chunk_id (sg_desc m)) \<noteq> None" if "m \<in> set (vm_mgrs v')" for m
  proof -
    have "d_chunk_id (sg_desc m) \<in> (\<lambda>m. d_chunk_id (sg_desc m)) ` set (vm_mgrs v)" using that ids by blast
    then have "view s0 (d_chunk_id (sg_desc m)) = None" using assms(1) by (auto simp: extents_over_def)
    moreover obtain i where "i < length (vm_mgrs v')" "m = vm_mgrs v' ! i" using \<open>m \<in> set (vm_mgrs v')\<close> by (metis in_set_conv_nth)
    then have "view s' (d_chunk_id (sg_desc m)) \<noteq> None" using assms(3) by (auto simp: vm_inv_def seg_inv_def)
    ultimately show ?thesis by blast
  qed
  ultimately show ?thesis using assms(1,4) unfolding extents_over_def ids extent_ids_def by auto
qed

lemma media_step:
  assumes "same_media v0 v" and "extents_over view sb (vm_mgrs v) s" and "same_media v v'" and "vm_inv view U (v', s')"
    and "\<forall>j. j \<notin> extent_ids v \<longrightarrow> view s' j = view s j"
  shows "vm_inv view U (v', s') \<and> same_media v0 v' \<and> extents_over view sb (vm_mgrs v') s'"
  using assms(4) same_media_trans [OF assms(1,3)] extents_over_same [OF assms(2-5)] by simp

context chunk_store
begin

lemma vm_reach_inv:
  assumes "vm_reach L v0 s0 U v s" and "inv s0" and "vm_inv view (\<lambda>_. Map.empty) (v0, s0)"
    and "extents_over view sb (vm_mgrs v0) s0"
  shows "inv s \<and> vm_inv view U (v, s) \<and> same_media v0 v \<and> extents_over view sb (vm_mgrs v) s"
  using assms
proof (induction rule: vm_reach.induct)
  case opened
  then show ?case by simp
next
  case (write_unit U v s k data off v' s' d)
  then have ih: "inv s" "vm_inv view U (v, s)" "same_media v0 v" "extents_over view sb (vm_mgrs v) s" by auto
  have "int (length data) = vm_unit_size v" using vm_write_bad_length(1) [OF ih(2) _ write_unit.hyps(2)] by fastforce
  from vm_write_ok [OF ih(2,1) this write_unit.hyps(2)] write_unit.hyps(3)
  have "inv s'" "same_media v v'" "\<forall>j. j \<notin> extent_ids v \<longrightarrow> view s' j = view s j" "vm_inv view (set_unit d off (Some data) U) (v', s')"
    by auto
  then show ?case using media_step [OF ih(3,4)] by simp
next
  case (write_fails U v s k data e v' s')
  then have ih: "inv s" "vm_inv view U (v, s)" "same_media v0 v" "extents_over view sb (vm_mgrs v) s" by auto
  show ?case
  proof (cases "int (length data) = vm_unit_size v")
    case True
    from vm_write_ok [OF ih(2,1) this write_fails.hyps(2)]
    have "inv s'" "same_media v v'" "\<forall>j. j \<notin> extent_ids v \<longrightarrow> view s' j = view s j" "vm_inv view U (v', s')" by auto
    then show ?thesis using media_step [OF ih(3,4)] by simp
  next
    case False
    then show ?thesis using vm_write_bad_length [OF ih(2) False write_fails.hyps(2)] ih by simp
  qed
next
  case (flush_all U v s r v' s')
  then have ih: "inv s" "vm_inv view U (v, s)" "same_media v0 v" "extents_over view sb (vm_mgrs v) s" by auto
  from vm_flush_ok [OF ih(2,1)] flush_all.hyps(2)
  have "inv s'" "same_media v v'" "\<forall>j. j \<notin> extent_ids v \<longrightarrow> view s' j = view s j" "vm_inv view U (v', s')" by auto
  then show ?case using media_step [OF ih(3,4)] by simp
next
  case (release_unit U v s d off r v')
  then have ih: "inv s" "vm_inv view U (v, s)" "same_media v0 v" "extents_over view sb (vm_mgrs v) s" by auto
  obtain data where "U d off = Some data" using release_unit.hyps(3) by blast
  from vm_release_ok [OF ih(2) release_unit.hyps(2) this] release_unit.hyps(4)
  have "same_media v v'" "vm_inv view (set_unit d off None U) (v', s)" by auto
  then show ?case using media_step [OF ih(3,4)] ih(1) by simp
next
  case (read_units U v s sched items outs bs D r bs' s')
  then have ih: "inv s" "vm_inv view U (v, s)" "same_media v0 v" "extents_over view sb (vm_mgrs v) s" by auto
  from vm_read_batch_ok [OF ih(2,1) read_units.hyps(2-5)] read_units.hyps(6) have "inv s'" "view s' = view s" by auto
  then show ?case using ih vm_inv_frame [OF ih(2)] by (simp add: extents_over_def)
qed

end

subsection \<open>A small media object\<close>

definition demo_strategy :: strategy where
  "demo_strategy = position_hash_strategy \<lparr>ph_num_devices = 1, ph_step_idx = 17, ph_step_layer = 23, ph_prime = 2229299\<rparr>"

definition demo_args :: media_args where
  "demo_args = \<lparr>ma_unit_size = 4096, ma_capacity = CapAll 8192, ma_strategy = StrategyObj demo_strategy,
     ma_sp_bytes = Some 4096, ma_sp_per_device = None, ma_num_workers = 1, ma_read_merge = True, ma_max_read_bytes = None\<rparr>"

definition demo_pool :: engine where
  "demo_pool = \<lparr>en_num_workers = 1, en_num_queues = 1, en_max_inflight = None, en_permits = 0, en_closed = False,
     en_submitted = 0, en_completed = 0, en_failed = 0, en_inflight = 0\<rparr>"

definition demo_media :: "seg_mgr \<Rightarrow> media" where
  "demo_media m = \<lparr>vm_unit_size = 4096, vm_devices = [0], vm_mgrs = [m], vm_strategy = demo_strategy,
     vm_read_merge = True, vm_max_read_bytes = None, vm_engine = demo_pool, vm_closed = False\<rparr>"

lemma demo_locate: "st_locate demo_strategy k = (if snd k < 0 \<or> fst k < 0 then Inl ValueError else Inr 0)"
  by (simp add: demo_strategy_def position_hash_strategy_def ph_locate_def ph_hash_def)

lemma demo_strategy_ok: "strategy_ok demo_strategy"
  by (auto simp: strategy_ok_def demo_locate) (simp_all add: demo_strategy_def position_hash_strategy_def)

lemma demo_args_ok: "strategy_arg_ok (ma_strategy demo_args)" "capacity_ok (ma_capacity demo_args)"
  using demo_strategy_ok by (simp_all add: demo_args_def strategy_arg_ok_def capacity_ok_def capacity_for_def)

lemma demo_topology:
  "\<exists>topo. lib_get_topology FakeUMMLib (FakeCLib_init 1) = (Inr topo, FakeCLib_init 1) \<and> list_ssd_devices topo = Inr [0]"
  by (simp add: umm_simps fk_umm_get_topology_def FakeCLib_init_def UMM_MAX_TOPOLOGY_RESOURCES_def list_ssd_devices_def u32_def
      py_nth_def py_index_def fake_ssd_def)

lemma demo_room: "fk_room (FakeCLib_init 1) 1"
  by (simp add: fk_room_def FakeCLib_init_def)

lemma demo_open_device: "open_device FakeUMMLib demo_args 4096 [] 0 (FakeCLib_init 1) = (Inr demo_mgr, demo_ssd)"
proof -
  have "lib_alloc_on_device FakeUMMLib 8192 UMM_TIER_SSD 0 (FakeCLib_init 1) = (Inr demo_extent, demo_ssd)"
    by (simp add: umm_simps fk_umm_alloc_on_device_def fk_umm_alloc_def demo_ssd_def FakeCLib_init_def demo_extent_def Let_def)
  then show ?thesis using demo_mgr_init
    by (simp add: open_device_def demo_args_def capacity_for_def override_for_def dict_get_def)
qed

lemma demo_media_plan:
  assumes "list_ssd_devices topo = Inr [0]"
  shows "media_plan builtin_registry default_config demo_args topo = Inr ([0], 4096, [], demo_strategy)"
  using assms
  by (simp add: media_plan_def demo_args_def default_segment_bytes_def override_segment_bytes_def resolve_strategy_def
      default_config_def dict_get_def demo_strategy_def position_hash_strategy_def)

lemma demo_media_init:
  "VirtualMedia_init FakeUMMLib builtin_registry None demo_args (FakeCLib_init 1) = (Inr (demo_media demo_mgr), demo_ssd)"
proof -
  obtain topo where t: "lib_get_topology FakeUMMLib (FakeCLib_init 1) = (Inr topo, FakeCLib_init 1)"
    "list_ssd_devices topo = Inr [0]" using demo_topology by blast
  have "ConcurrentIOEngine_init 1 1 None = Inr demo_pool" by (simp add: ConcurrentIOEngine_init_def demo_pool_def)
  then show ?thesis using t demo_media_plan [OF t(2)] demo_open_device
    by (simp add: VirtualMedia_init_def check_max_read_def load_config_def media_open_def demo_media_def)
      (simp add: demo_args_def)
qed

lemmas demo_media_start = fake_store.chunk_store_axioms fk_inv_init [of 1] builtin_registry_ok demo_args_ok

lemma demo_room_devices:
  "lib_get_topology FakeUMMLib (FakeCLib_init 1) = (Inr topo, s1) \<Longrightarrow> list_ssd_devices topo = Inr ds \<Longrightarrow>
   fk_room (FakeCLib_init 1) (length ds)"
  using demo_topology demo_room by auto

text \<open>Two units written, the first of them written out by the second.\<close>

lemma demo_write1:
  "vm_write FakeUMMLib (0, 0) demo_unit (demo_media demo_mgr, demo_ssd) = (Inr 0, (demo_media demo_mgr1, demo_ssd))"
  by (simp add: vm_write_def demo_media_def vm_locate_def demo_locate on_mgr_def py_nth_def py_index_def py_set_def demo_append1)

lemma demo_write2:
  "\<exists>s. vm_write FakeUMMLib (0, 1) demo_unit (demo_media demo_mgr1, demo_ssd) = (Inr 4096, (demo_media demo_mgr2, s))"
  using demo_append2
  by (auto simp: vm_write_def demo_media_def vm_locate_def demo_locate on_mgr_def py_nth_def py_index_def py_set_def)

definition demo_units :: live_units where
  "demo_units = set_unit 0 4096 (Some demo_unit) (set_unit 0 0 (Some demo_unit) (\<lambda>_. Map.empty))"

lemma demo_vm_reach: "\<exists>s. vm_reach FakeUMMLib (demo_media demo_mgr) demo_ssd demo_units (demo_media demo_mgr2) s"
proof -
  have loc: "vm_locate (demo_media m) (0, k) = Inr 0" if "0 \<le> k" for m k using that by (simp add: vm_locate_def demo_media_def demo_locate)
  obtain s where w: "vm_write FakeUMMLib (0, 1) demo_unit (demo_media demo_mgr1, demo_ssd) = (Inr 4096, (demo_media demo_mgr2, s))"
    using demo_write2 by blast
  have "vm_reach FakeUMMLib (demo_media demo_mgr) demo_ssd (set_unit 0 0 (Some demo_unit) (\<lambda>_. Map.empty)) (demo_media demo_mgr1) demo_ssd"
    by (rule vm_reach.write_unit [OF vm_reach.opened demo_write1 loc]) simp
  from vm_reach.write_unit [OF this w loc] show ?thesis by (auto simp: demo_units_def)
qed

subsection \<open>Properties\<close>

text \<open>
  C2. A batched read returns, for every requested unit that has been written and not released, exactly
  the bytes it was written with: whatever writes, flushes, releases and reads happened since the
  construction, whether the unit is still in an aggregation buffer or on its device, however the
  requests are merged, and in whatever order the I/O engine executes them.
\<close>

theorem read_batch_returns_written_units:
  assumes "chunk_store L view good room" and "good sb" and "registry_ok reg"
    and "strategy_arg_ok (ma_strategy a)" and "capacity_ok (ma_capacity a)"
    and "\<And>topo s1 ds. lib_get_topology L sb = (Inr topo, s1) \<Longrightarrow> list_ssd_devices topo = Inr ds \<Longrightarrow> room sb (length ds)"
    and "VirtualMedia_init L reg file a sb = (Inr v0, s0)" and "vm_reach L v0 s0 U v s"
    and "length items = length outs" and "outs_ok (vm_unit_size v) outs bs" and "live_items v U items D" and "fair sched"
  shows "\<exists>bs' s'. vm_read_batch L sched items outs v (bs, s) = (Inr (), (bs', s')) \<and>
    (\<forall>p < length outs. buf_data (bs' (outs ! p)) = D p @ drop (nat (vm_unit_size v)) (buf_data (bs (outs ! p))))"
proof -
  have i: "good s0 \<and> vm_inv view (\<lambda>_. Map.empty) (v0, s0) \<and> extents_over view sb (vm_mgrs v0) s0"
    using chunk_store.media_init_ok [OF assms(1-5) _ assms(7)] assms(6) by auto
  from chunk_store.vm_reach_inv [OF assms(1,8), of sb] i have r: "good s" "vm_inv view U (v, s)" by auto
  from chunk_store.vm_read_batch_ok [OF assms(1) r(2,1) assms(12,9,10,11)] obtain bs' s' where
    b: "vm_read_batch L sched items outs v (bs, s) = (Inr (), (bs', s'))" "filled_outs outs D {..<length outs} bs bs'" by blast
  have "buf_data (bs' (outs ! p)) = D p @ drop (nat (vm_unit_size v)) (buf_data (bs (outs ! p)))" if "p < length outs" for p
  proof -
    have "nat (vm_unit_size v) = length (D p)"
      using live_item_read(1) [OF r(2)] assms(9,11) that by (metis live_items_def nat_int)
    then show ?thesis using b(2) that by (simp add: filled_outs_def set_prefix_def)
  qed
  then show ?thesis using b(1) by blast
qed

theorem read_batch_returns_written_units_witness:
  "\<exists>s bs' s'. vm_reach FakeUMMLib (demo_media demo_mgr) demo_ssd demo_units (demo_media demo_mgr2) s \<and>
     vm_read_batch FakeUMMLib rev [(0, 4096), (0, 0)] [7, 3] (demo_media demo_mgr2) (\<lambda>_. bytearray_buf (replicate 4097 9), s) =
       (Inr (), (bs', s')) \<and> buf_data (bs' 3) = demo_unit @ [9]"
proof -
  let ?v = "demo_media demo_mgr2" and ?bs = "\<lambda>_. bytearray_buf (replicate 4097 9)"
  obtain s where r: "vm_reach FakeUMMLib (demo_media demo_mgr) demo_ssd demo_units ?v s" using demo_vm_reach by blast
  have o: "outs_ok (vm_unit_size ?v) [7, 3] ?bs" by (simp add: outs_ok_def demo_media_def bytearray_buf_def)
  have l: "live_items ?v demo_units [(0, 4096), (0, 0)] (\<lambda>_. demo_unit)"
    by (auto simp: live_items_def demo_media_def check_device_def demo_units_def set_unit_def nth_Cons')
  have f: "fair rev" by (simp add: fair_def)
  have "\<exists>bs' s'. vm_read_batch FakeUMMLib rev [(0, 4096), (0, 0)] [7, 3] ?v (?bs, s) = (Inr (), (bs', s')) \<and>
    (\<forall>p < length [7, 3 :: nat]. buf_data (bs' ([7, 3] ! p)) = demo_unit @ drop (nat (vm_unit_size ?v)) (buf_data (?bs ([7, 3] ! p))))"
    by (rule read_batch_returns_written_units [OF demo_media_start demo_room_devices demo_media_init r _ o l f]) auto
  then obtain bs' s' where "vm_read_batch FakeUMMLib rev [(0, 4096), (0, 0)] [7, 3] ?v (?bs, s) = (Inr (), (bs', s'))"
    "buf_data (bs' 3) = demo_unit @ drop 4096 (replicate 4097 9)"
    by (auto simp: demo_media_def bytearray_buf_def dest!: spec [of _ 1])
  then show ?thesis using r by auto
qed

text \<open>
  C37. A write on an open media object either stores the unit at an address no live unit has, on the
  device the strategy chose, or raises and stores nothing: the strategy rejected the key, the data has
  the wrong length, or the segments of the chosen device are exhausted.
\<close>

theorem write_outcomes:
  assumes "chunk_store L view good room" and "good sb" and "registry_ok reg"
    and "strategy_arg_ok (ma_strategy a)" and "capacity_ok (ma_capacity a)"
    and "\<And>topo s1 ds. lib_get_topology L sb = (Inr topo, s1) \<Longrightarrow> list_ssd_devices topo = Inr ds \<Longrightarrow> room sb (length ds)"
    and "VirtualMedia_init L reg file a sb = (Inr v0, s0)" and "vm_reach L v0 s0 U v s"
    and "vm_write L k data (v, s) = (r, (v', s'))"
  shows "case r of
      Inr off \<Rightarrow> \<exists>d. vm_locate v k = Inr d \<and> int (length data) = vm_unit_size v \<and> U d off = None \<and>
        vm_inv view (set_unit d off (Some data) U) (v', s')
    | Inl e \<Rightarrow> (vm_locate v k = Inl e \<or> e = ValueError \<and> int (length data) \<noteq> vm_unit_size v \<or> e = SegmentFullError) \<and>
        vm_inv view U (v', s')"
proof -
  have i: "good s0 \<and> vm_inv view (\<lambda>_. Map.empty) (v0, s0) \<and> extents_over view sb (vm_mgrs v0) s0"
    using chunk_store.media_init_ok [OF assms(1-5) _ assms(7)] assms(6) by auto
  from chunk_store.vm_reach_inv [OF assms(1,8), of sb] i have g: "good s" "vm_inv view U (v, s)" by auto
  show ?thesis
  proof (cases "int (length data) = vm_unit_size v")
    case True
    from chunk_store.vm_write_ok [OF assms(1) g(2,1) True assms(9)] show ?thesis using True by (auto split: sum.splits)
  next
    case False
    from vm_write_bad_length [OF g(2) False assms(9)] show ?thesis using False g(2) by auto
  qed
qed

theorem write_outcomes_witness:
  "vm_inv fk_chunks (set_unit 0 0 (Some demo_unit) (\<lambda>_. Map.empty)) (demo_media demo_mgr1, demo_ssd)"
  using write_outcomes [OF demo_media_start demo_room_devices demo_media_init vm_reach.opened demo_write1]
  by (auto simp: vm_locate_def demo_media_def demo_locate)

text \<open>
  C38. A constructor call that raises gives back every extent it allocated, so the library holds what it
  held before, provided the worker count is valid (C25 is the other case).
\<close>

theorem failed_construction_frees_extents:
  assumes "chunk_store L view good room" and "good s" and "registry_ok reg"
    and "strategy_arg_ok (ma_strategy a)" and "capacity_ok (ma_capacity a)"
    and "\<And>topo s1 ds. lib_get_topology L s = (Inr topo, s1) \<Longrightarrow> list_ssd_devices topo = Inr ds \<Longrightarrow> room s (length ds)"
    and "VirtualMedia_init L reg file a s = (Inl e, s')" and "1 \<le> ma_num_workers a"
  shows "view s' = view s"
  using chunk_store.media_init_ok [OF assms(1-5) _ assms(7)] assms(6,8) by auto

theorem failed_construction_frees_extents_witness:
  "\<exists>s'. VirtualMedia_init FakeUMMLib builtin_registry None (demo_args\<lparr>ma_sp_bytes := Some 12288\<rparr>) (FakeCLib_init 1) =
     (Inl ValueError, s') \<and> fk_chunks s' = fk_chunks (FakeCLib_init 1)"
proof -
  let ?a = "demo_args\<lparr>ma_sp_bytes := Some 12288\<rparr>"
  obtain topo where t: "lib_get_topology FakeUMMLib (FakeCLib_init 1) = (Inr topo, FakeCLib_init 1)"
    "list_ssd_devices topo = Inr [0]" using demo_topology by blast
  have p: "media_plan builtin_registry default_config ?a topo = Inr ([0], 12288, [], demo_strategy)"
    using demo_media_plan [OF t(2)] by (simp add: media_plan_def default_segment_bytes_def override_segment_bytes_def t(2) split: sum.splits)
  have al: "lib_alloc_on_device FakeUMMLib 8192 UMM_TIER_SSD 0 (FakeCLib_init 1) = (Inr demo_extent, demo_ssd)"
    by (simp add: umm_simps fk_umm_alloc_on_device_def fk_umm_alloc_def demo_ssd_def FakeCLib_init_def demo_extent_def Let_def)
  have mgr: "DeviceSegmentManager_init demo_extent 0 12288 4096 = Inl ValueError"
    by (simp add: DeviceSegmentManager_init_def check_segment_geometry_def demo_extent_def ChunkDescriptor_def u64_def)
  obtain rf s1 where fr: "lib_free FakeUMMLib demo_extent demo_ssd = (rf, s1)" by fastforce
  with fake_store.free_ok [OF demo_ssd_facts(3), of demo_extent rf s1] demo_ssd_facts(1) have "rf = Inr ()" by simp
  then have i: "VirtualMedia_init FakeUMMLib builtin_registry None ?a (FakeCLib_init 1) = (Inl ValueError, s1)"
    using t p al mgr fr
    by (simp add: VirtualMedia_init_def check_max_read_def load_config_def media_open_def open_device_def free_extents_def)
      (simp add: demo_args_def capacity_for_def override_for_def dict_get_def free_extents_def)
  have ok: "strategy_arg_ok (ma_strategy ?a)" "capacity_ok (ma_capacity ?a)" "1 \<le> ma_num_workers ?a"
    using demo_args_ok by (simp_all add: demo_args_def)
  from failed_construction_frees_extents [OF demo_media_start(1-3) ok(1,2) demo_room_devices i ok(3)] i
  show ?thesis by auto
qed

text \<open>
  The I/O engine is created outside the clean-up scope: with a worker count below one, a
  construction that would otherwise succeed raises \<open>ValueError\<close> and leaves every extent allocated
  with no object that could free it.
\<close>

theorem bad_worker_count_leaks_extents:
  assumes "chunk_store L view good room" and "good s" and "registry_ok reg"
    and "strategy_arg_ok (ma_strategy a)" and "capacity_ok (ma_capacity a)"
    and "\<And>topo s1 ds. lib_get_topology L s = (Inr topo, s1) \<Longrightarrow> list_ssd_devices topo = Inr ds \<Longrightarrow> room s (length ds)"
    and "VirtualMedia_init L reg file (a\<lparr>ma_num_workers := 1\<rparr>) s = (Inr v, s')" and "ma_num_workers a < 1"
  shows "VirtualMedia_init L reg file a s = (Inl ValueError, s') \<and>
    (\<forall>m \<in> set (vm_mgrs v). view s (d_chunk_id (sg_desc m)) = None \<and> view s' (d_chunk_id (sg_desc m)) \<noteq> None)"
proof -
  let ?a = "a\<lparr>ma_num_workers := 1\<rparr>"
  have sel: "ma_unit_size ?a = ma_unit_size a" "ma_capacity ?a = ma_capacity a" "ma_strategy ?a = ma_strategy a"
    "ma_sp_bytes ?a = ma_sp_bytes a" "ma_sp_per_device ?a = ma_sp_per_device a" "ma_max_read_bytes ?a = ma_max_read_bytes a"
    by simp_all
  have same: "open_device L ?a = open_device L a" "media_plan reg cfg ?a = media_plan reg cfg a" for cfg
    unfolding open_device_def media_plan_def default_segment_bytes_def override_segment_bytes_def sel by (rule refl)+
  have "open_devices L ?a sp ov ds ms s1 = open_devices L a sp ov ds ms s1" for sp ov ds ms s1
    by (induction ds arbitrary: ms s1) (auto simp: same split: prod.splits sum.splits)
  then have "media_open L a ds sp ov st s1 = (Inl ValueError, s2)"
    if "media_open L ?a ds sp ov st s1 = (Inr v, s2)" for ds sp ov st s1 s2
    using that assms(8) by (auto simp: media_open_def ConcurrentIOEngine_init_def split: prod.splits option.splits sum.splits)
  then have "VirtualMedia_init L reg file a s = (Inl ValueError, s')"
    using assms(7) by (auto simp: VirtualMedia_init_def rbind_def same split: if_splits sum.splits)
  moreover have "extents_over view s (vm_mgrs v) s'"
    using chunk_store.media_init_ok [OF assms(1-3) _ _ _ assms(7)] assms(4-6) sel by auto
  ultimately show ?thesis by (auto simp: extents_over_def)
qed

theorem bad_worker_count_leaks_extents_witness:
  "VirtualMedia_init FakeUMMLib builtin_registry None (demo_args\<lparr>ma_num_workers := 0\<rparr>) (FakeCLib_init 1) =
     (Inl ValueError, demo_ssd) \<and> fk_chunks demo_ssd 1 \<noteq> None"
proof -
  let ?a = "demo_args\<lparr>ma_num_workers := 0\<rparr>"
  have eq: "?a\<lparr>ma_num_workers := 1\<rparr> = demo_args" by (simp add: demo_args_def)
  have "strategy_arg_ok (ma_strategy ?a)" "capacity_ok (ma_capacity ?a)" using demo_args_ok by simp_all
  from bad_worker_count_leaks_extents [OF demo_media_start(1-3) this demo_room_devices, unfolded eq, OF _ _ demo_media_init]
  show ?thesis by (simp add: demo_media_def demo_mgr_def demo_extent_def ChunkDescriptor_def u64_def)
qed



text \<open>
  Merging the sorted requests of a device keeps every request, in order, in exactly one run; a run
  is a block of adjacent units; no run is longer than a configured maximum, and without merging every
  run is a single request.
\<close>

lemma merge_foldl_bounded:
  assumes "vm_max_read_bytes v = Some n" and "vm_unit_size v \<le> n" and "\<forall>r \<in> set runs. r \<noteq> [] \<and> run_length v r \<le> n"
  shows "\<forall>r \<in> set (foldl (merge_step v) runs items). r \<noteq> [] \<and> run_length v r \<le> n"
  using assms(3)
proof (induction items arbitrary: runs)
  case (Cons p items)
  have "\<forall>r \<in> set (merge_step v runs p). r \<noteq> [] \<and> run_length v r \<le> n"
    using Cons.prems assms(1,2)
    by (auto simp: merge_step_def extends_run_def run_length_def hd_append dest: in_set_butlastD)
  from Cons.IH [OF this] show ?case by simp
qed simp

lemma merge_foldl_unmerged: "\<not> vm_read_merge v \<Longrightarrow> foldl (merge_step v) runs items = runs @ map (\<lambda>p. [p]) items"
  by (induction items arbitrary: runs) (simp_all add: merge_step_def extends_run_def)

theorem merged_runs:
  assumes "check_max_read (vm_max_read_bytes v) (vm_unit_size v)"
  shows "concat (merge_runs v items) = items" and "\<forall>r \<in> set (merge_runs v items). consecutive (vm_unit_size v) r \<and>
      (case vm_max_read_bytes v of None \<Rightarrow> True | Some n \<Rightarrow> run_length v r \<le> n)"
    and "\<not> vm_read_merge v \<longrightarrow> merge_runs v items = map (\<lambda>p. [p]) items"
proof -
  show "concat (merge_runs v items) = items" by (rule merge_runs_props(1))
  show "\<not> vm_read_merge v \<longrightarrow> merge_runs v items = map (\<lambda>p. [p]) items"
    using merge_foldl_unmerged [of v "[]"] by (simp add: merge_runs_def)
  have "run_length v r \<le> n" if "vm_max_read_bytes v = Some n" "r \<in> set (merge_runs v items)" for n r
    using merge_foldl_bounded [OF that(1), of "[]" items] assms that by (auto simp: merge_runs_def check_max_read_def)
  then show "\<forall>r \<in> set (merge_runs v items). consecutive (vm_unit_size v) r \<and>
      (case vm_max_read_bytes v of None \<Rightarrow> True | Some n \<Rightarrow> run_length v r \<le> n)"
    using merge_runs_props(2) by (auto split: option.splits)
qed

theorem merged_runs_witness:
  "merge_runs ((demo_media demo_mgr)\<lparr>vm_max_read_bytes := Some 8192\<rparr>) [(2, 0), (0, 4096), (1, 8192)] = [[(2, 0), (0, 4096)], [(1, 8192)]] \<and>
   run_length ((demo_media demo_mgr)\<lparr>vm_max_read_bytes := Some 8192\<rparr>) [(2, 0), (0, 4096)] \<le> 8192"
proof -
  let ?v = "(demo_media demo_mgr)\<lparr>vm_max_read_bytes := Some 8192\<rparr>"
  have m: "merge_runs ?v [(2, 0), (0, 4096), (1, 8192)] = [[(2, 0), (0, 4096)], [(1, 8192)]]"
    by (simp add: merge_runs_def merge_step_def extends_run_def demo_media_def)
  have "check_max_read (vm_max_read_bytes ?v) (vm_unit_size ?v)" by (simp add: check_max_read_def demo_media_def)
  from merged_runs(2) [OF this, of "[(2, 0), (0, 4096), (1, 8192)]"] show ?thesis using m by (simp add: demo_media_def)
qed

end
