(* ===== verification/SlotTable.thy ===== *)
theory SlotTable
  imports Prelude
begin

section \<open>The slot table (sparse\_kv/slot\_table.py)\<close>

text \<open>
  One 64-bit entry per (layer, token): a 48-bit offset above 8 reserved bits and 8 flag bits, in a flat
  array per layer. The bit operations are Python's on unbounded integers; an \<open>array('Q')\<close> is a list of
  integers. \<open>get\<close>, \<open>set\<close> and \<open>invalidate\<close> check their indices, \<open>gather\<close> checks only the layer and then
  indexes the Python way. The well-formedness invariant \<open>table_ok\<close> says that every array keeps its length and
  every entry fits the eight bytes of its slot.
\<close>

unbundle bit_operations_syntax

subsection \<open>Entries\<close>

definition FLAG_VALID :: int where "FLAG_VALID = 1"
definition OFFSET_SHIFT :: nat where "OFFSET_SHIFT = 16"

definition pack_entry :: "int \<Rightarrow> int \<Rightarrow> int result" where
  "pack_entry off flags =
     (if \<not> (0 \<le> off \<and> off < 2 ^ 48) then Inl ValueError
      else if \<not> (0 \<le> flags \<and> flags < 2 ^ 8) then Inl ValueError
      else Inr (push_bit OFFSET_SHIFT off OR flags))"

definition entry_offset :: "int \<Rightarrow> int" where
  "entry_offset e = drop_bit OFFSET_SHIFT e"

definition entry_flags :: "int \<Rightarrow> int" where
  "entry_flags e = e AND 0xFF"

definition entry_valid :: "int \<Rightarrow> bool" where
  "entry_valid e \<longleftrightarrow> entry_flags e AND FLAG_VALID \<noteq> 0"

subsection \<open>The table\<close>

record slot_table =
  tb_num_layers :: int
  tb_max_tokens :: int
  tb_layers :: "int list list"

definition SlotTable :: "int \<Rightarrow> int \<Rightarrow> slot_table result" where
  "SlotTable num_layers max_tokens =
     (if num_layers \<le> 0 \<or> max_tokens \<le> 0 then Inl ValueError
      else Inr \<lparr>tb_num_layers = num_layers, tb_max_tokens = max_tokens,
        tb_layers = replicate (nat num_layers) (replicate (nat max_tokens) 0)\<rparr>)"

definition tb_check :: "slot_table \<Rightarrow> int \<Rightarrow> int \<Rightarrow> bool" where
  "tb_check tb l t \<longleftrightarrow> 0 \<le> l \<and> l < tb_num_layers tb \<and> 0 \<le> t \<and> t < tb_max_tokens tb"

text \<open>Storing into an \<open>array('Q')\<close>: the value must fit 64 bits.\<close>

definition tb_store :: "int \<Rightarrow> int \<Rightarrow> int \<Rightarrow> slot_table \<Rightarrow> (unit, slot_table) outcome" where
  "tb_store l t e tb =
     (case py_nth (tb_layers tb) l of Inl x \<Rightarrow> (Inl x, tb)
      | Inr layer \<Rightarrow>
          if \<not> (0 \<le> e \<and> e < 2 ^ 64) then (Inl OverflowError, tb)
          else case py_set layer t e of Inl x \<Rightarrow> (Inl x, tb)
          | Inr layer' \<Rightarrow>
              (case py_set (tb_layers tb) l layer' of Inl x \<Rightarrow> (Inl x, tb)
               | Inr ls \<Rightarrow> (Inr (), tb\<lparr>tb_layers := ls\<rparr>)))"

definition tb_set :: "int \<Rightarrow> int \<Rightarrow> int \<Rightarrow> int \<Rightarrow> slot_table \<Rightarrow> (unit, slot_table) outcome" where
  "tb_set l t off flags tb =
     (if \<not> tb_check tb l t then (Inl ValueError, tb)
      else case pack_entry off flags of Inl x \<Rightarrow> (Inl x, tb) | Inr e \<Rightarrow> tb_store l t e tb)"

definition tb_invalidate :: "int \<Rightarrow> int \<Rightarrow> slot_table \<Rightarrow> (unit, slot_table) outcome" where
  "tb_invalidate l t tb = (if \<not> tb_check tb l t then (Inl ValueError, tb) else tb_store l t 0 tb)"

definition tb_get :: "slot_table \<Rightarrow> int \<Rightarrow> int \<Rightarrow> int result" where
  "tb_get tb l t =
     (if \<not> tb_check tb l t then Inl ValueError
      else case py_nth (tb_layers tb) l of Inl x \<Rightarrow> Inl x | Inr layer \<Rightarrow> py_nth layer t)"

definition tb_gather :: "slot_table \<Rightarrow> int \<Rightarrow> int list \<Rightarrow> int list result" where
  "tb_gather tb l ts =
     (if \<not> (0 \<le> l \<and> l < tb_num_layers tb) then Inl ValueError
      else case py_nth (tb_layers tb) l of Inl x \<Rightarrow> Inl x | Inr layer \<Rightarrow> map_result (py_nth layer) ts)"

definition tb_locate :: "slot_table \<Rightarrow> int \<Rightarrow> int \<Rightarrow> (int \<times> int) result" where
  "tb_locate tb l t = (case tb_get tb l t of Inl x \<Rightarrow> Inl x | Inr e \<Rightarrow> Inr (entry_offset e, entry_flags e))"

subsection \<open>Packing\<close>

lemma pack_entry_round_trip:
  assumes "pack_entry off flags = Inr e"
  shows "entry_offset e = off" and "entry_flags e = flags" and "0 \<le> e" and "e < 2 ^ 64" and "e = off * 2 ^ 16 + flags"
proof -
  have r: "0 \<le> off" "off < 2 ^ 48" "0 \<le> flags" "flags < 2 ^ 8" and e: "e = push_bit 16 off OR flags"
    using assms by (auto simp: pack_entry_def OFFSET_SHIFT_def split: if_splits)
  have fl: "flags = take_bit 8 flags" "flags = take_bit 16 flags" using r by (simp_all add: take_bit_int_eq_self)
  have d: "drop_bit 16 flags = 0" using r by (simp add: drop_bit_eq_div)
  have p: "drop_bit 16 (push_bit 16 off) = off" by (simp add: drop_bit_eq_div push_bit_eq_mult)
  then show "entry_offset e = off" using d by (simp add: entry_offset_def OFFSET_SHIFT_def e)
  have "take_bit 8 (push_bit 16 off) = 0" by (simp add: take_bit_push_bit)
  then have "take_bit 8 e = flags" using fl(1) by (simp add: e)
  then show "entry_flags e = flags" using take_bit_eq_mask [of 8 e] by (simp add: entry_flags_def mask_eq_exp_minus_1)
  have "e = drop_bit 16 e * 2 ^ 16 + take_bit 16 e" by (metis bits_ident push_bit_eq_mult)
  moreover have "take_bit 16 e = flags" using fl(2) by (simp add: e take_bit_push_bit)
  moreover have "drop_bit 16 e = off" using d p by (simp add: e)
  ultimately show eq: "e = off * 2 ^ 16 + flags" by simp
  show "0 \<le> e" "e < 2 ^ 64" using r unfolding eq by auto
qed

lemma pack_entry_fields:
  assumes "0 \<le> off" and "off < 2 ^ 48"
  shows "\<exists>e. pack_entry off FLAG_VALID = Inr e \<and> entry_offset e = off \<and> entry_valid e"
proof -
  obtain e where e: "pack_entry off FLAG_VALID = Inr e" using assms by (simp add: pack_entry_def FLAG_VALID_def)
  then show ?thesis using pack_entry_round_trip(1,2) [OF e] by (simp add: entry_valid_def FLAG_VALID_def)
qed

lemma entry_valid_zero [simp]: "\<not> entry_valid 0" "entry_offset 0 = 0" "entry_flags 0 = 0"
  by (simp_all add: entry_valid_def entry_flags_def entry_offset_def)

subsection \<open>Well-formed tables\<close>

definition table_ok :: "slot_table \<Rightarrow> bool" where
  "table_ok tb \<longleftrightarrow> 0 < tb_num_layers tb \<and> 0 < tb_max_tokens tb \<and> int (length (tb_layers tb)) = tb_num_layers tb \<and>
     (\<forall>layer \<in> set (tb_layers tb). int (length layer) = tb_max_tokens tb \<and> (\<forall>e \<in> set layer. 0 \<le> e \<and> e < 2 ^ 64))"

text \<open>The entry of a checked index.\<close>

definition tb_entry :: "slot_table \<Rightarrow> int \<Rightarrow> int \<Rightarrow> int" where
  "tb_entry tb l t = tb_layers tb ! nat l ! nat t"

lemma table_layer:
  assumes "table_ok tb" and "tb_check tb l t"
  shows "nat l < length (tb_layers tb)" and "nat t < length (tb_layers tb ! nat l)"
    and "py_nth (tb_layers tb) l = Inr (tb_layers tb ! nat l)" and "py_nth (tb_layers tb ! nat l) t = Inr (tb_entry tb l t)"
proof -
  have l: "0 \<le> l" "l < int (length (tb_layers tb))" and t: "0 \<le> t" using assms by (auto simp: table_ok_def tb_check_def)
  then show n: "nat l < length (tb_layers tb)" by linarith
  then have "int (length (tb_layers tb ! nat l)) = tb_max_tokens tb" using assms(1) by (simp add: table_ok_def)
  then have t': "t < int (length (tb_layers tb ! nat l))" using assms(2) by (simp add: tb_check_def)
  then show "nat t < length (tb_layers tb ! nat l)" using t by linarith
  show "py_nth (tb_layers tb) l = Inr (tb_layers tb ! nat l)" using l by (rule py_nth_nonneg)
  show "py_nth (tb_layers tb ! nat l) t = Inr (tb_entry tb l t)" unfolding tb_entry_def using t t' by (rule py_nth_nonneg)
qed

lemma SlotTable_ok: "SlotTable n m = Inr tb \<Longrightarrow> table_ok tb \<and> tb_num_layers tb = n \<and> tb_max_tokens tb = m \<and> (\<forall>l t. tb_check tb l t \<longrightarrow> tb_entry tb l t = 0)"
  by (auto simp: SlotTable_def table_ok_def tb_check_def tb_entry_def split: if_splits)

lemma tb_store_ok:
  assumes "table_ok tb" and "tb_check tb l t" and "0 \<le> e" and "e < 2 ^ 64"
  shows "\<exists>tb'. tb_store l t e tb = (Inr (), tb') \<and> table_ok tb' \<and> tb_check tb' = tb_check tb \<and>
    (\<forall>l' t'. tb_check tb l' t' \<longrightarrow> tb_entry tb' l' t' = (if l' = l \<and> t' = t then e else tb_entry tb l' t'))"
proof -
  note tl = table_layer [OF assms(1,2)]
  let ?layer = "(tb_layers tb ! nat l)[nat t := e]"
  let ?tb = "tb\<lparr>tb_layers := (tb_layers tb)[nat l := ?layer]\<rparr>"
  have nn: "0 \<le> l" "0 \<le> t" using assms(2) by (auto simp: tb_check_def)
  have "py_set (tb_layers tb ! nat l) t e = Inr ?layer" "py_set (tb_layers tb) l ?layer = Inr ((tb_layers tb)[nat l := ?layer])"
    using tl(1,2) nn by (auto intro!: py_set_nonneg)
  then have "tb_store l t e tb = (Inr (), ?tb)" using tl(3) assms(3,4) by (simp add: tb_store_def)
  moreover have "table_ok ?tb"
  proof -
    have "int (length ?layer) = tb_max_tokens tb \<and> (\<forall>x \<in> set ?layer. 0 \<le> x \<and> x < 2 ^ 64)"
    proof
      show "int (length ?layer) = tb_max_tokens tb" using assms(1) tl(1) by (simp add: table_ok_def)
      have "\<forall>x \<in> set (tb_layers tb ! nat l). 0 \<le> x \<and> x < 2 ^ 64" using assms(1) nth_mem [OF tl(1)] by (auto simp: table_ok_def)
      then show "\<forall>x \<in> set ?layer. 0 \<le> x \<and> x < 2 ^ 64" using set_update_subset_insert [of "tb_layers tb ! nat l" "nat t" e] assms(3,4) by blast
    qed
    then show ?thesis using assms(1) set_update_subset_insert [of "tb_layers tb" "nat l" ?layer] by (auto simp: table_ok_def)
  qed
  moreover have "tb_entry ?tb l' t' = (if l' = l \<and> t' = t then e else tb_entry tb l' t')" if "tb_check tb l' t'" for l' t'
    using that nn tl(1,2) by (auto simp: tb_entry_def tb_check_def nth_list_update nat_eq_iff)
  ultimately show ?thesis by (auto simp: tb_check_def fun_eq_iff)
qed

lemma tb_set_ok:
  assumes "table_ok tb" and "tb_set l t off flags tb = (r, tb')"
  shows "table_ok tb' \<and> tb_check tb' = tb_check tb \<and>
    (case r of
       Inl x \<Rightarrow> x = ValueError \<and> tb' = tb \<and> (tb_check tb l t \<longrightarrow> pack_entry off flags = Inl ValueError)
     | Inr _ \<Rightarrow> tb_check tb l t \<and> (\<exists>e. pack_entry off flags = Inr e \<and>
         (\<forall>l' t'. tb_check tb l' t' \<longrightarrow> tb_entry tb' l' t' = (if l' = l \<and> t' = t then e else tb_entry tb l' t'))))"
proof (cases "tb_check tb l t")
  case False
  then show ?thesis using assms by (auto simp: tb_set_def)
next
  case True
  show ?thesis
  proof (cases "pack_entry off flags")
    case (Inl x)
    then have "x = ValueError" by (auto simp: pack_entry_def split: if_splits)
    then show ?thesis using assms True Inl by (auto simp: tb_set_def)
  next
    case (Inr e)
    from tb_store_ok [OF assms(1) True pack_entry_round_trip(3,4) [OF Inr]] show ?thesis
      using assms(2) True Inr by (auto simp: tb_set_def)
  qed
qed

lemma tb_invalidate_ok:
  assumes "table_ok tb" and "tb_invalidate l t tb = (r, tb')"
  shows "table_ok tb' \<and> tb_check tb' = tb_check tb \<and>
    (if tb_check tb l t
     then r = Inr () \<and> (\<forall>l' t'. tb_check tb l' t' \<longrightarrow> tb_entry tb' l' t' = (if l' = l \<and> t' = t then 0 else tb_entry tb l' t'))
     else r = Inl ValueError \<and> tb' = tb)"
proof (cases "tb_check tb l t")
  case False
  then show ?thesis using assms by (auto simp: tb_invalidate_def)
next
  case True
  from tb_store_ok [OF assms(1) True, of 0] show ?thesis using assms(2) True by (auto simp: tb_invalidate_def)
qed

lemma tb_get_ok: "table_ok tb \<Longrightarrow> tb_get tb l t = (if tb_check tb l t then Inr (tb_entry tb l t) else Inl ValueError)"
  using table_layer(3,4) [of tb l t] by (simp add: tb_get_def)

lemma tb_gather_ok:
  assumes "table_ok tb" and "\<forall>t \<in> set ts. tb_check tb l t" and "0 \<le> l" and "l < tb_num_layers tb"
  shows "tb_gather tb l ts = Inr (map (tb_entry tb l) ts)"
proof -
  have l: "l < int (length (tb_layers tb))" using assms(1,4) by (simp add: table_ok_def)
  have "map_result (py_nth (tb_layers tb ! nat l)) ts = Inr (map (tb_entry tb l) ts)"
    by (rule map_result_total) (use table_layer(4) assms(1,2) in blast)
  then show ?thesis using py_nth_nonneg [OF assms(3) l] assms(3,4) by (simp add: tb_gather_def)
qed

subsection \<open>Properties\<close>

text \<open>\<open>M\<close> is the history: offset and flags of the last \<open>set\<close> of each slot not invalidated since.\<close>

inductive tb_reach :: "slot_table \<Rightarrow> (int \<times> int \<rightharpoonup> int \<times> int) \<Rightarrow> slot_table \<Rightarrow> bool" for tb0 where
  new: "tb_reach tb0 Map.empty tb0"
| set_slot: "\<lbrakk>tb_reach tb0 M tb; tb_set l t off flags tb = (Inr (), tb')\<rbrakk> \<Longrightarrow> tb_reach tb0 (M((l, t) \<mapsto> (off, flags))) tb'"
| set_fails: "\<lbrakk>tb_reach tb0 M tb; tb_set l t off flags tb = (Inl x, tb')\<rbrakk> \<Longrightarrow> tb_reach tb0 M tb'"
| clear_slot: "\<lbrakk>tb_reach tb0 M tb; tb_invalidate l t tb = (r, tb')\<rbrakk> \<Longrightarrow> tb_reach tb0 (M((l, t) := None)) tb'"

definition slots_agree :: "(int \<times> int \<rightharpoonup> int \<times> int) \<Rightarrow> slot_table \<Rightarrow> bool" where
  "slots_agree M tb \<longleftrightarrow> (\<forall>l t. tb_check tb l t \<longrightarrow>
     (entry_offset (tb_entry tb l t), entry_flags (tb_entry tb l t)) = (case M (l, t) of None \<Rightarrow> (0, 0) | Some x \<Rightarrow> x))"

lemma tb_reach_ok:
  assumes "tb_reach tb0 M tb" and "table_ok tb0" and "\<forall>l t. tb_check tb0 l t \<longrightarrow> tb_entry tb0 l t = 0"
  shows "table_ok tb \<and> tb_check tb = tb_check tb0 \<and> slots_agree M tb"
  using assms
proof (induction rule: tb_reach.induct)
  case new
  then show ?case by (simp add: slots_agree_def)
next
  case (set_slot M tb l t off flags tb')
  then obtain e where e: "pack_entry off flags = Inr e" "table_ok tb'" "tb_check tb' = tb_check tb"
    "\<And>l' t'. tb_check tb l' t' \<Longrightarrow> tb_entry tb' l' t' = (if l' = l \<and> t' = t then e else tb_entry tb l' t')"
    using tb_set_ok [OF _ set_slot.hyps(2)] by auto
  then show ?case using set_slot pack_entry_round_trip(1,2) [OF e(1)] by (auto simp: slots_agree_def)
next
  case (set_fails M tb l t off flags x tb')
  then show ?case using tb_set_ok [OF _ set_fails.hyps(2)] by auto
next
  case (clear_slot M tb l t r tb')
  then have ih: "table_ok tb" "tb_check tb = tb_check tb0" "slots_agree M tb" by auto
  note iv = tb_invalidate_ok [OF ih(1) clear_slot.hyps(2)]
  then have "tb_check tb' = tb_check tb" "table_ok tb'" by auto
  moreover have "tb_entry tb' l' t' = (if l' = l \<and> t' = t then 0 else tb_entry tb l' t')" if "tb_check tb l' t'" for l' t'
    using iv that by (auto split: if_splits)
  ultimately show ?case using ih by (auto simp: slots_agree_def)
qed

definition demo_table :: slot_table where
  "demo_table = \<lparr>tb_num_layers = 2, tb_max_tokens = 3, tb_layers = [[0, 0, 0], [0, 0, 0]]\<rparr>"

definition demo_table1 :: slot_table where
  "demo_table1 = \<lparr>tb_num_layers = 2, tb_max_tokens = 3, tb_layers = [[0, 0, 0], [0, 0, 536870913]]\<rparr>"

lemma demo_table_init: "SlotTable 2 3 = Inr demo_table"
  by (simp add: SlotTable_def demo_table_def numeral_eq_Suc)

lemma demo_table_set: "tb_set 1 2 8192 FLAG_VALID demo_table = (Inr (), demo_table1)"
  by (simp add: tb_set_def tb_check_def demo_table_def demo_table1_def pack_entry_def OFFSET_SHIFT_def FLAG_VALID_def tb_store_def
      py_nth_def py_index_def py_set_def push_bit_eq_mult)

lemma demo_table_reach: "tb_reach demo_table [(1, 2) \<mapsto> (8192, FLAG_VALID)] demo_table1"
  by (rule tb_reach.set_slot [OF tb_reach.new demo_table_set])

text \<open>
  A packed entry gives back the offset and the flags it was made from and fits 64 bits; packing
  succeeds exactly for 48-bit offsets and 8-bit flags.
\<close>

theorem pack_unpack:
  "(case pack_entry off flags of
      Inr e \<Rightarrow> 0 \<le> off \<and> off < 2 ^ 48 \<and> 0 \<le> flags \<and> flags < 2 ^ 8 \<and>
        entry_offset e = off \<and> entry_flags e = flags \<and> 0 \<le> e \<and> e < 2 ^ 64
    | Inl x \<Rightarrow> x = ValueError \<and> (off \<notin> {0..<2 ^ 48} \<or> flags \<notin> {0..<2 ^ 8}))"
proof (cases "pack_entry off flags")
  case (Inl x)
  then show ?thesis by (auto simp: pack_entry_def split: if_splits)
next
  case (Inr e)
  then have "0 \<le> off \<and> off < 2 ^ 48 \<and> 0 \<le> flags \<and> flags < 2 ^ 8" by (auto simp: pack_entry_def split: if_splits)
  then show ?thesis using pack_entry_round_trip(1-4) [OF Inr] Inr by simp
qed

theorem pack_unpack_witness: "\<exists>e. pack_entry (2 ^ 48 - 4096) 1 = Inr e \<and> entry_offset e = 2 ^ 48 - 4096 \<and> e < 2 ^ 64"
  using pack_unpack [of "2 ^ 48 - 4096" 1] by (auto split: sum.splits)

text \<open>
  C40. Whatever is set and invalidated, each layer keeps one slot per token, every entry fits the eight
  bytes of its slot, and a slot inside the table reads as the last entry set there, or as empty.
\<close>

theorem slot_table_well_formed:
  assumes "SlotTable n m = Inr tb0" and "tb_reach tb0 M tb"
  shows "table_ok tb \<and> (\<forall>l t. tb_locate tb l t =
    (if 0 \<le> l \<and> l < n \<and> 0 \<le> t \<and> t < m then Inr (case M (l, t) of None \<Rightarrow> (0, 0) | Some x \<Rightarrow> x) else Inl ValueError))"
proof -
  note tb0 = SlotTable_ok [OF assms(1)]
  have r: "table_ok tb" "tb_check tb = tb_check tb0" "slots_agree M tb" using tb_reach_ok [OF assms(2)] tb0 by auto
  have c: "tb_check tb l t \<longleftrightarrow> 0 \<le> l \<and> l < n \<and> 0 \<le> t \<and> t < m" for l t using r(2) tb0 by (simp add: tb_check_def)
  show ?thesis using r(1,3) c by (auto simp: tb_locate_def tb_get_ok slots_agree_def)
qed

theorem slot_table_well_formed_witness: "tb_locate demo_table1 1 2 = Inr (8192, 1) \<and> tb_locate demo_table1 1 3 = Inl ValueError"
  using slot_table_well_formed [OF demo_table_init demo_table_reach] by (simp add: FLAG_VALID_def)

text \<open>
  \<open>gather\<close> checks the layer but not the tokens: a negative token down to minus the table's width is
  answered with the entry counted from the end of the layer, where \<open>get\<close> raises.
\<close>

theorem gather_accepts_negative_tokens:
  assumes "table_ok tb" and "0 \<le> l" and "l < tb_num_layers tb" and "- tb_max_tokens tb \<le> t" and "t < 0"
  shows "tb_get tb l t = Inl ValueError \<and> tb_gather tb l [t] = Inr [tb_entry tb l (tb_max_tokens tb + t)]"
proof -
  have l: "l < int (length (tb_layers tb))" using assms(1,3) by (simp add: table_ok_def)
  then have "nat l < length (tb_layers tb)" using assms(2) by linarith
  then have len: "int (length (tb_layers tb ! nat l)) = tb_max_tokens tb" using assms(1) by (simp add: table_ok_def)
  then have "py_nth (tb_layers tb ! nat l) t = Inr (tb_entry tb l (tb_max_tokens tb + t))"
  proof -
    let ?layer = "tb_layers tb ! nat l"
    have "length ?layer - nat (- t) = nat (tb_max_tokens tb + t)" using len assms(4,5) by linarith
    then show ?thesis using len assms(4,5) by (simp add: py_nth_def py_index_def tb_entry_def)
  qed
  then show ?thesis using assms(2,3,5) py_nth_nonneg [OF assms(2) l] by (simp add: tb_gather_def tb_get_def tb_check_def)
qed

theorem gather_accepts_negative_tokens_witness:
  "tb_get demo_table1 1 (- 1) = Inl ValueError \<and> tb_gather demo_table1 1 [- 1] = Inr [536870913]"
  using gather_accepts_negative_tokens [of demo_table1 1 "- 1"]
  by (simp add: table_ok_def demo_table1_def tb_entry_def)

end
