(* ===== verification/SparseStore.thy ===== *)
theory SparseStore
  imports MediaCorrect SlotTable
begin

section \<open>SparseKVStore (sparse\_kv/store.py, sparse\_kv/vllm\_adapter.py)\<close>

text \<open>
  The framework-facing store of one request: \<open>offload\<close> unrolls a KV block into units, writes each through the
  media layer and records its offset in the slot table; \<open>plan\<close> translates a layer and a list of tokens into
  the descriptor buffer the GPU operator reads; \<open>fetch\<close> and \<open>prefetch\<close> read through a cache; \<open>release\<close> gives
  units back. The state is the store record with the media object and the library's state. Buffers are byte-format
  memoryviews. \<open>pack_into\<close> of the two \<open>struct\<close> layouts is written out byte by byte.
\<close>

subsection \<open>The binary layout of the descriptor buffer\<close>

text \<open>Little-endian unsigned fields; a value that does not fit raises \<open>struct.error\<close>.\<close>

definition le_bytes :: "nat \<Rightarrow> int \<Rightarrow> bytes" where
  "le_bytes n x = map (\<lambda>i. word_of_int (x div 256 ^ i)) [0..<n]"

fun le_int :: "bytes \<Rightarrow> int" where
  "le_int [] = 0"
| "le_int (b # bs) = uint b + 256 * le_int bs"

definition pack_uint :: "nat \<Rightarrow> int \<Rightarrow> bytes result" where
  "pack_uint n x = (if 0 \<le> x \<and> x < 256 ^ n then Inr (le_bytes n x) else Inl StructError)"

definition pack_fields :: "(nat \<times> int) list \<Rightarrow> bytes result" where
  "pack_fields fs = (case map_result (\<lambda>(n, x). pack_uint n x) fs of Inl e \<Rightarrow> Inl e | Inr bss \<Rightarrow> Inr (concat bss))"

fun unpack_fields :: "nat list \<Rightarrow> bytes \<Rightarrow> int list" where
  "unpack_fields [] bs = []"
| "unpack_fields (n # ns) bs = le_int (take n bs) # unpack_fields ns (drop n bs)"

definition HEADER_SIZE :: nat where "HEADER_SIZE = 4 + 4 + 8"
definition ENTRY_SIZE :: nat where "ENTRY_SIZE = 4 + 4 + 8 + 8 + 8"
definition FLAG_DISK :: int where "FLAG_DISK = 0"
definition FLAG_HOST_READY :: int where "FLAG_HOST_READY = 1"

record plan_entry =
  pe_ssd_id :: int
  pe_flags :: int
  pe_lba_offset :: int
  pe_length :: int
  pe_dst_offset :: int

definition pack_entry_struct :: "plan_entry \<Rightarrow> bytes result" where
  "pack_entry_struct p =
     pack_fields [(4, pe_ssd_id p), (4, pe_flags p), (8, pe_lba_offset p), (8, pe_length p), (8, pe_dst_offset p)]"

definition unpack_entry_struct :: "bytes \<Rightarrow> plan_entry" where
  "unpack_entry_struct bs =
     (case unpack_fields [4, 4, 8, 8, 8] bs of
        [a, b, c, d, e] \<Rightarrow> \<lparr>pe_ssd_id = a, pe_flags = b, pe_lba_offset = c, pe_length = d, pe_dst_offset = e\<rparr>
      | _ \<Rightarrow> \<lparr>pe_ssd_id = 0, pe_flags = 0, pe_lba_offset = 0, pe_length = 0, pe_dst_offset = 0\<rparr>)"

definition pack_into :: "bytes result \<Rightarrow> nat \<Rightarrow> bytes \<Rightarrow> bytes result" where
  "pack_into packed pos buf =
     (case packed of Inl e \<Rightarrow> Inl e
      | Inr bs \<Rightarrow> if pos + length bs \<le> length buf then Inr (put_block pos bs buf) else Inl StructError)"

subsection \<open>Blocks, plans and the store\<close>

record kv_block =
  kb_layer_id :: int
  kb_block_idx :: int
  kb_token_start :: int
  kb_token_count :: int
  kb_buffer :: bytes

record plan_view =
  pv_buf :: bytes
  pv_count :: int
  pv_layer_id :: int
  pv_max_topk :: int
  pv_unit_size :: int

definition pv_nbytes :: "plan_view \<Rightarrow> int" where
  "pv_nbytes p = int HEADER_SIZE + int ENTRY_SIZE * pv_max_topk p"

definition pv_entry :: "plan_view \<Rightarrow> int \<Rightarrow> plan_entry result" where
  "pv_entry p i =
     (if \<not> (0 \<le> i \<and> i < pv_count p) then Inl IndexError
      else Inr (unpack_entry_struct (block_at (HEADER_SIZE + nat i * ENTRY_SIZE) ENTRY_SIZE (pv_buf p))))"

definition pv_entries :: "plan_view \<Rightarrow> plan_entry list result" where
  "pv_entries p = map_result (\<lambda>i. pv_entry p (int i)) [0..<nat (pv_count p)]"

record store =
  ks_num_layers :: int
  ks_max_tokens :: int
  ks_max_topk :: int
  ks_unit_size :: int
  ks_table :: slot_table
  ks_cache :: "int \<times> int \<rightharpoonup> bytes"
  ks_closed :: bool
  ks_desc_buf :: bytes
  ks_staging :: bytes

type_synonym 's kv_state = "store \<times> media \<times> 's"

definition SparseKVStore :: "media \<Rightarrow> int \<Rightarrow> int \<Rightarrow> int \<Rightarrow> store result" where
  "SparseKVStore v num_layers max_tokens max_topk =
     (if max_topk \<le> 0 then Inl ValueError
      else case SlotTable num_layers max_tokens of Inl e \<Rightarrow> Inl e
      | Inr tb \<Rightarrow>
          Inr \<lparr>ks_num_layers = num_layers, ks_max_tokens = max_tokens, ks_max_topk = max_topk,
            ks_unit_size = vm_unit_size v, ks_table = tb, ks_cache = Map.empty, ks_closed = False,
            ks_desc_buf = replicate (HEADER_SIZE + ENTRY_SIZE * nat max_topk) 0,
            ks_staging = replicate (nat (max_topk * vm_unit_size v)) 0\<rparr>)"

subsection \<open>Offload\<close>

definition check_block :: "store \<Rightarrow> kv_block \<Rightarrow> bool" where
  "check_block k b \<longleftrightarrow> 0 \<le> kb_layer_id b \<and> kb_layer_id b < ks_num_layers k \<and>
     \<not> (kb_token_start b < 0 \<or> kb_token_start b + kb_token_count b > ks_max_tokens k) \<and>
     \<not> int (length (kb_buffer b)) < kb_token_count b * ks_unit_size k"

definition block_unit :: "store \<Rightarrow> kv_block \<Rightarrow> nat \<Rightarrow> bytes" where
  "block_unit k b i = py_slice (kb_buffer b) (int i * ks_unit_size k) ((int i + 1) * ks_unit_size k)"

text \<open>Write one unit and record where it went.\<close>

definition offload_unit :: "'s umm_lib \<Rightarrow> int \<Rightarrow> int \<Rightarrow> bytes \<Rightarrow> 's kv_state \<Rightarrow> (unit, 's kv_state) outcome" where
  "offload_unit L l t unit_data kvs =
     (let (k, v, s) = kvs in
      case vm_write L (l, t) unit_data (v, s) of
        (Inl e, (v', s')) \<Rightarrow> (Inl e, (k, v', s'))
      | (Inr off, (v', s')) \<Rightarrow>
          (case tb_set l t off FLAG_VALID (ks_table k) of
             (r, tb) \<Rightarrow> (r, (k\<lparr>ks_table := tb\<rparr>, v', s'))))"

definition offload_block :: "'s umm_lib \<Rightarrow> kv_block \<Rightarrow> 's kv_state \<Rightarrow> (unit, 's kv_state) outcome" where
  "offload_block L b kvs =
     (if \<not> check_block (fst kvs) b then (Inl ValueError, kvs)
      else for_each (\<lambda>i. offload_unit L (kb_layer_id b) (kb_token_start b + int i) (block_unit (fst kvs) b i))
             [0..<nat (kb_token_count b)] kvs)"

definition offload :: "'s umm_lib \<Rightarrow> kv_block list \<Rightarrow> 's kv_state \<Rightarrow> (unit, 's kv_state) outcome" where
  "offload L blocks kvs = for_each (offload_block L) blocks kvs"

definition ks_flush :: "'s umm_lib \<Rightarrow> 's kv_state \<Rightarrow> (unit, 's kv_state) outcome" where
  "ks_flush L kvs = (let (k, v, s) = kvs in case vm_flush L (v, s) of (r, (v', s')) \<Rightarrow> (r, (k, v', s')))"

subsection \<open>Address planning\<close>

definition plan_flags :: "media \<Rightarrow> int \<Rightarrow> int \<Rightarrow> int \<Rightarrow> store \<Rightarrow> (int, store) outcome" where
  "plan_flags v d off dst k =
     (case vm_is_buffered v d off of Inl e \<Rightarrow> (Inl e, k)
      | Inr False \<Rightarrow> (Inr FLAG_DISK, k)
      | Inr True \<Rightarrow>
          (case vm_read_buffered v d off of Inl e \<Rightarrow> (Inl e, k)
           | Inr None \<Rightarrow> (Inr FLAG_DISK, k)
           | Inr (Some data) \<Rightarrow>
               (Inr FLAG_HOST_READY,
                k\<lparr>ks_staging := py_slice_set (ks_staging k) dst (dst + ks_unit_size k) data\<rparr>)))"

definition plan_item ::
  "'s umm_lib \<Rightarrow> media \<times> 's \<Rightarrow> int list \<Rightarrow> nat \<Rightarrow> int \<Rightarrow> store \<Rightarrow> (unit, store) outcome" where
  "plan_item L vs ds i e k =
     (if \<not> entry_valid e then (Inl ValueError, k)
      else case py_nth ds (int i) of Inl x \<Rightarrow> (Inl x, k)
      | Inr d \<Rightarrow>
        (let off = entry_offset e; dst = int i * ks_unit_size k in
         rbind (plan_flags (fst vs) d off dst k) (\<lambda>flags k.
           case extent_base L d vs of Inl x \<Rightarrow> (Inl x, k)
           | Inr base \<Rightarrow>
               (case pack_into (pack_entry_struct \<lparr>pe_ssd_id = d, pe_flags = flags, pe_lba_offset = base + off,
                         pe_length = ks_unit_size k, pe_dst_offset = dst\<rparr>) (HEADER_SIZE + i * ENTRY_SIZE) (ks_desc_buf k) of
                  Inl x \<Rightarrow> (Inl x, k) | Inr buf \<Rightarrow> (Inr (), k\<lparr>ks_desc_buf := buf\<rparr>)))))"

text \<open>The view holds the buffer's contents when \<open>plan\<close> returns; the next plan overwrites the buffer.\<close>

definition plan :: "'s umm_lib \<Rightarrow> int \<Rightarrow> int list \<Rightarrow> media \<times> 's \<Rightarrow> store \<Rightarrow> (plan_view, store) outcome" where
  "plan L l ts vs k =
     (if int (length ts) > ks_max_topk k then (Inl ValueError, k)
      else case vm_locate_batch (fst vs) (map (Pair l) ts) of Inl e \<Rightarrow> (Inl e, k)
      | Inr ds \<Rightarrow>
          (case tb_gather (ks_table k) l ts of Inl e \<Rightarrow> (Inl e, k)
           | Inr es \<Rightarrow>
               rbind (for_each (\<lambda>i. plan_item L vs ds i (es ! i)) [0..<length ts] k) (\<lambda>_ k.
                 case pack_into (pack_fields [(4, int (length ts)), (4, l), (8, 0)]) 0 (ks_desc_buf k) of
                   Inl e \<Rightarrow> (Inl e, k)
                 | Inr buf \<Rightarrow>
                     (Inr \<lparr>pv_buf = buf, pv_count = int (length ts), pv_layer_id = l, pv_max_topk = ks_max_topk k,
                        pv_unit_size = ks_unit_size k\<rparr>, k\<lparr>ks_desc_buf := buf\<rparr>))))"

subsection \<open>Fetch and prefetch\<close>

text \<open>The loop of \<open>fetch\<close>: cached units are copied, the others collected with their output buffers.\<close>

fun fetch_scan ::
  "store \<Rightarrow> int \<Rightarrow> int list \<Rightarrow> nat \<Rightarrow> (int \<times> int \<times> nat) list \<Rightarrow> mem \<Rightarrow> ((int \<times> int) list \<times> nat list, mem) outcome" where
  "fetch_scan k l ds pos [] bs = (Inr ([], []), bs)"
| "fetch_scan k l ds pos ((t, e, out) # rest) bs =
     (if \<not> entry_valid e then (Inl ValueError, bs)
      else case ks_cache k (l, t) of
        Some cached \<Rightarrow>
          (case assign_out (ks_unit_size k) cached out bs of
             Inl x \<Rightarrow> (Inl x, bs) | Inr bs' \<Rightarrow> fetch_scan k l ds (Suc pos) rest bs')
      | None \<Rightarrow>
          (case py_nth ds (int pos) of Inl x \<Rightarrow> (Inl x, bs)
           | Inr d \<Rightarrow>
               (case fetch_scan k l ds (Suc pos) rest bs of
                  (Inl x, bs') \<Rightarrow> (Inl x, bs')
                | (Inr (items, outs), bs') \<Rightarrow> (Inr ((d, entry_offset e) # items, out # outs), bs'))))"

definition fetch ::
  "'s umm_lib \<Rightarrow> scheduler \<Rightarrow> int \<Rightarrow> int list \<Rightarrow> nat list \<Rightarrow> store \<Rightarrow> media \<Rightarrow> mem \<times> 's \<Rightarrow> (unit, mem \<times> 's) outcome" where
  "fetch L sched l ts outs k v ms =
     (let (bs, s) = ms in
      if length outs \<noteq> length ts then (Inl ValueError, (bs, s))
      else case vm_locate_batch v (map (Pair l) ts) of Inl e \<Rightarrow> (Inl e, (bs, s))
      | Inr ds \<Rightarrow>
          (case tb_gather (ks_table k) l ts of Inl e \<Rightarrow> (Inl e, (bs, s))
           | Inr es \<Rightarrow>
               (case fetch_scan k l ds 0 (zip ts (zip es outs)) bs of
                  (Inl e, bs1) \<Rightarrow> (Inl e, (bs1, s))
                | (Inr (items, real_out), bs1) \<Rightarrow>
                    if items = [] then (Inr (), (bs1, s))
                    else vm_read_batch L sched items real_out v (bs1, s))))"

text \<open>\<open>prefetch\<close> reads into fresh buffers of its own, numbered from 0.\<close>

definition prefetch ::
  "'s umm_lib \<Rightarrow> scheduler \<Rightarrow> int \<Rightarrow> int list \<Rightarrow> 's kv_state \<Rightarrow> (unit, 's kv_state) outcome" where
  "prefetch L sched l ts kvs =
     (let (k, v, s) = kvs; pending = filter (\<lambda>t. ks_cache k (l, t) = None) ts in
      if pending = [] then (Inr (), kvs)
      else
        (case fetch L sched l pending [0..<length pending] k v
                (\<lambda>_. bytearray_buf (replicate (nat (ks_unit_size k)) 0), s) of
           (Inl e, (bs, s')) \<Rightarrow> (Inl e, (k, v, s'))
         | (Inr _, (bs, s')) \<Rightarrow>
             (Inr (), (k\<lparr>ks_cache := foldl (\<lambda>c (t, i). c((l, t) \<mapsto> buf_data (bs i))) (ks_cache k)
                           (zip pending [0..<length pending])\<rparr>, v, s'))))"

subsection \<open>Release and close\<close>

definition release_token :: "int \<Rightarrow> int \<Rightarrow> store \<times> media \<Rightarrow> (unit, store \<times> media) outcome" where
  "release_token l t kv =
     (let (k, v) = kv in
      case tb_get (ks_table k) l t of Inl e \<Rightarrow> (Inl e, (k, v))
      | Inr e \<Rightarrow>
          if \<not> entry_valid e then (Inr (), (k, v))
          else case vm_locate v (l, t) of Inl x \<Rightarrow> (Inl x, (k, v))
          | Inr d \<Rightarrow>
              (case tb_invalidate l t (ks_table k) of
                 (Inl x, tb) \<Rightarrow> (Inl x, (k\<lparr>ks_table := tb\<rparr>, v))
               | (Inr _, tb) \<Rightarrow>
                   (case vm_release d (entry_offset e) v of
                      (r, v') \<Rightarrow> (r, (k\<lparr>ks_table := tb, ks_cache := (ks_cache k)((l, t) := None)\<rparr>, v')))))"

definition ks_release :: "int \<Rightarrow> int list \<Rightarrow> store \<times> media \<Rightarrow> (unit, store \<times> media) outcome" where
  "ks_release l ts kv = for_each (release_token l) ts kv"

definition ks_close :: "'s umm_lib \<Rightarrow> 's kv_state \<Rightarrow> (unit, 's kv_state) outcome" where
  "ks_close L kvs =
     (let (k, v, s) = kvs in
      if ks_closed k then (Inr (), kvs)
      else case vm_close L (v, s) of (r, (v', s')) \<Rightarrow> (r, (k\<lparr>ks_closed := True\<rparr>, v', s')))"

subsection \<open>The abstract store and the invariant\<close>

text \<open>\<open>M\<close> is the abstract state: the bytes stored for each (layer, token).\<close>

type_synonym kv_map = "int \<times> int \<rightharpoonup> bytes"

definition stored :: "slot_table \<Rightarrow> int \<times> int \<Rightarrow> bool" where
  "stored tb x \<longleftrightarrow> tb_check tb (fst x) (snd x) \<and> entry_valid (tb_entry tb (fst x) (snd x))"

definition slot_off :: "slot_table \<Rightarrow> int \<times> int \<Rightarrow> int" where
  "slot_off tb x = entry_offset (tb_entry tb (fst x) (snd x))"

definition batch_ok :: "strategy \<Rightarrow> bool" where
  "batch_ok st \<longleftrightarrow> (\<forall>ks ds. map_result (st_locate st) ks = Inr ds \<longrightarrow> st_locate_batch st ks = Inr ds)"

definition store_shape :: "store \<Rightarrow> media \<Rightarrow> bool" where
  "store_shape k v \<longleftrightarrow> table_ok (ks_table k) \<and> tb_num_layers (ks_table k) = ks_num_layers k \<and>
     tb_max_tokens (ks_table k) = ks_max_tokens k \<and> ks_unit_size k = vm_unit_size v \<and> batch_ok (vm_strategy v) \<and>
     0 < ks_max_topk k \<and> length (ks_desc_buf k) = HEADER_SIZE + ENTRY_SIZE * nat (ks_max_topk k) \<and>
     int (length (ks_staging k)) = ks_max_topk k * ks_unit_size k \<and> 0 < ks_unit_size k"

definition store_inv :: "('s \<Rightarrow> int \<Rightarrow> bytes option) \<Rightarrow> live_units \<Rightarrow> kv_map \<Rightarrow> 's kv_state \<Rightarrow> bool" where
  "store_inv view U M kvs \<longleftrightarrow>
     (let (k, v, s) = kvs; tb = ks_table k in
      vm_inv view U (v, s) \<and> store_shape k v \<and>
      (\<forall>x. stored tb x \<longrightarrow> (\<exists>d. vm_locate v x = Inr d \<and> U d (slot_off tb x) = M x \<and> M x \<noteq> None)) \<and>
      (\<forall>x. \<not> stored tb x \<longrightarrow> M x = None) \<and>
      (\<forall>x y. stored tb x \<and> stored tb y \<and> vm_locate v x = vm_locate v y \<and> slot_off tb x = slot_off tb y \<longrightarrow> x = y) \<and>
      ks_cache k \<subseteq>\<^sub>m M)"

definition store_rel :: "('s \<Rightarrow> int \<Rightarrow> bytes option) \<Rightarrow> kv_map \<Rightarrow> 's kv_state \<Rightarrow> bool" where
  "store_rel view M kvs \<longleftrightarrow> (\<exists>U. store_inv view U M kvs)"

text \<open>What the operations mean on the abstract state.\<close>

definition spec_block :: "int \<Rightarrow> kv_block \<Rightarrow> nat \<Rightarrow> kv_map \<Rightarrow> kv_map" where
  "spec_block u b n M =
     foldl (\<lambda>M i. M((kb_layer_id b, kb_token_start b + int i) \<mapsto> py_slice (kb_buffer b) (int i * u) ((int i + 1) * u))) M [0..<n]"

definition spec_offload :: "int \<Rightarrow> kv_block list \<Rightarrow> kv_map \<Rightarrow> kv_map" where
  "spec_offload u blocks M = foldl (\<lambda>M b. spec_block u b (nat (kb_token_count b)) M) M blocks"

definition spec_release :: "int \<Rightarrow> int list \<Rightarrow> kv_map \<Rightarrow> kv_map" where
  "spec_release l ts M = foldl (\<lambda>M t. M((l, t) := None)) M ts"

text \<open>Each (layer, token) is offloaded once in its life, the contract \<open>slot_table.py\<close> states.\<close>

fun fresh_blocks :: "int \<Rightarrow> kv_map \<Rightarrow> kv_block list \<Rightarrow> bool" where
  "fresh_blocks u M [] \<longleftrightarrow> True"
| "fresh_blocks u M (b # bs) \<longleftrightarrow>
     (\<forall>i < nat (kb_token_count b). M (kb_layer_id b, kb_token_start b + int i) = None) \<and>
     fresh_blocks u (spec_block u b (nat (kb_token_count b)) M) bs"

lemma store_invD:
  assumes "store_inv view U M (k, v, s)"
  shows "vm_inv view U (v, s)" "store_shape k v" "ks_cache k \<subseteq>\<^sub>m M"
    "stored (ks_table k) x \<Longrightarrow> \<exists>d. vm_locate v x = Inr d \<and> U d (slot_off (ks_table k) x) = M x \<and> M x \<noteq> None"
    "\<not> stored (ks_table k) x \<Longrightarrow> M x = None"
    "stored (ks_table k) x \<Longrightarrow> stored (ks_table k) y \<Longrightarrow> vm_locate v x = vm_locate v y \<Longrightarrow>
      slot_off (ks_table k) x = slot_off (ks_table k) y \<Longrightarrow> x = y"
  using assms unfolding store_inv_def Let_def prod.case by blast+

lemma store_invI:
  assumes "vm_inv view U (v, s)" "store_shape k v" "ks_cache k \<subseteq>\<^sub>m M"
    "\<And>x. stored (ks_table k) x \<Longrightarrow> \<exists>d. vm_locate v x = Inr d \<and> U d (slot_off (ks_table k) x) = M x \<and> M x \<noteq> None"
    "\<And>x. \<not> stored (ks_table k) x \<Longrightarrow> M x = None"
    "\<And>x y. stored (ks_table k) x \<Longrightarrow> stored (ks_table k) y \<Longrightarrow> vm_locate v x = vm_locate v y \<Longrightarrow>
      slot_off (ks_table k) x = slot_off (ks_table k) y \<Longrightarrow> x = y"
  shows "store_inv view U M (k, v, s)"
  using assms unfolding store_inv_def Let_def prod.case by blast

lemma store_inv_stored: "store_inv view U M (k, v, s) \<Longrightarrow> M x \<noteq> None \<longleftrightarrow> stored (ks_table k) x"
  using store_invD(4,5) by metis

lemma store_rel_shape: "store_rel view M (k, v, s) \<Longrightarrow> store_shape k v"
  by (auto simp: store_rel_def dest: store_invD(2))

lemma same_media_locate: "same_media v v' \<Longrightarrow> vm_locate v' = vm_locate v"
  by (simp add: vm_locate_def fun_eq_iff same_mediaD(3))

lemma store_shape_same: "same_media v v' \<Longrightarrow> store_shape k v' = store_shape k v"
  by (simp add: store_shape_def same_mediaD(2,3))

text \<open>More units may be live in the media than the table knows.\<close>

lemma store_inv_media:
  assumes "store_inv view U M (k, v, s)" and "same_media v v'" and "vm_inv view U' (v', s')"
    and "\<And>d off b. U d off = Some b \<Longrightarrow> U' d off = Some b"
  shows "store_inv view U' M (k, v', s')"
proof (rule store_invI)
  note si = store_invD [OF assms(1)]
  show "vm_inv view U' (v', s')" by (rule assms(3))
  show "store_shape k v'" using si(2) store_shape_same [OF assms(2)] by simp
  show "ks_cache k \<subseteq>\<^sub>m M" by (rule si(3))
  show "\<exists>d. vm_locate v' x = Inr d \<and> U' d (slot_off (ks_table k) x) = M x \<and> M x \<noteq> None" if "stored (ks_table k) x" for x
    using si(4) [OF that] assms(4) unfolding same_media_locate [OF assms(2)] by fastforce
  show "\<not> stored (ks_table k) x \<Longrightarrow> M x = None" for x by (rule si(5))
  show "stored (ks_table k) x \<Longrightarrow> stored (ks_table k) y \<Longrightarrow> vm_locate v' x = vm_locate v' y \<Longrightarrow>
      slot_off (ks_table k) x = slot_off (ks_table k) y \<Longrightarrow> x = y" for x y
    unfolding same_media_locate [OF assms(2)] by (rule si(6))
qed

subsection \<open>Offload refines the abstract update\<close>

lemma tb_check_shape: "store_shape k v \<Longrightarrow> tb_check (ks_table k) l t \<longleftrightarrow> 0 \<le> l \<and> l < ks_num_layers k \<and> 0 \<le> t \<and> t < ks_max_tokens k"
  by (simp add: store_shape_def tb_check_def)

lemma tb_dims:
  "tb_set l t off f tb = (r, tb') \<Longrightarrow> tb_num_layers tb' = tb_num_layers tb \<and> tb_max_tokens tb' = tb_max_tokens tb"
  "tb_invalidate l t tb = (r, tb') \<Longrightarrow> tb_num_layers tb' = tb_num_layers tb \<and> tb_max_tokens tb' = tb_max_tokens tb"
  by (auto simp: tb_set_def tb_invalidate_def tb_store_def split: if_splits sum.splits)

text \<open>Recording a freshly written unit.\<close>

lemma record_unit:
  assumes "store_inv view U M (k, v, s)" and "same_media v v'" and "vm_locate v (l, t) = Inr d" and "U d off = None"
    and "vm_inv view (set_unit d off (Some data) U) (v', s')" and "M (l, t) = None"
    and "tb_set l t off FLAG_VALID (ks_table k) = (r, tb)"
  shows "store_inv view (set_unit d off (Some data) U) (if r = Inr () then M((l, t) \<mapsto> data) else M) (k\<lparr>ks_table := tb\<rparr>, v', s')"
proof -
  let ?U = "set_unit d off (Some data) U"
  note si = store_invD [OF assms(1)]
  have keep: "?U d' off' = Some b" if "U d' off' = Some b" for d' off' b using that assms(4) by (auto simp: set_unit_def)
  have ok: "table_ok (ks_table k)" using si(2) by (simp add: store_shape_def)
  note st = tb_set_ok [OF ok assms(7)]
  show ?thesis
  proof (cases r)
    case (Inl x)
    then have "k\<lparr>ks_table := tb\<rparr> = k" using st by simp
    then show ?thesis using store_inv_media [OF assms(1,2,5) keep] Inl by simp
  next
    case (Inr u)
    then obtain e where e: "pack_entry off FLAG_VALID = Inr e" "tb_check (ks_table k) l t" "tb_check tb = tb_check (ks_table k)" "table_ok tb"
      "\<And>l' t'. tb_check (ks_table k) l' t' \<Longrightarrow> tb_entry tb l' t' = (if l' = l \<and> t' = t then e else tb_entry (ks_table k) l' t')"
      using st by auto
    have ev: "entry_offset e = off" "entry_valid e"
      using pack_entry_round_trip(1,2) [OF e(1)] by (auto simp: entry_valid_def FLAG_VALID_def)
    have str: "stored tb x \<longleftrightarrow> x = (l, t) \<or> stored (ks_table k) x" for x
      using e(2,3,5) ev by (cases x) (auto simp: stored_def split: if_splits)
    have new: "\<not> stored (ks_table k) (l, t)" using store_inv_stored [OF assms(1)] assms(6) by metis
    have so: "slot_off tb x = (if x = (l, t) then off else slot_off (ks_table k) x)" if "stored tb x" for x
      using that e(2,3,5) ev by (cases x) (auto simp: stored_def slot_off_def)
    have other: "\<not> (vm_locate v x = Inr d \<and> slot_off (ks_table k) x = off)" if "stored (ks_table k) x" for x
      using si(4) [OF that] assms(4) by auto
    show ?thesis
    proof (rule store_invI)
      show "vm_inv view ?U (v', s')" by (rule assms(5))
      show "store_shape (k\<lparr>ks_table := tb\<rparr>) v'"
        using si(2) e(4) tb_dims(1) [OF assms(7)] same_mediaD(2,3) [OF assms(2)] by (simp add: store_shape_def)
      have "ks_cache k (l, t) = None" using si(3) assms(6) by (metis domI domIff map_le_def)
      then show "ks_cache (k\<lparr>ks_table := tb\<rparr>) \<subseteq>\<^sub>m (if r = Inr () then M((l, t) \<mapsto> data) else M)"
        using si(3) Inr by (auto simp: map_le_def)
      fix x
      show "\<exists>d'. vm_locate v' x = Inr d' \<and> ?U d' (slot_off (ks_table (k\<lparr>ks_table := tb\<rparr>)) x) = (if r = Inr () then M((l, t) \<mapsto> data) else M) x \<and>
          (if r = Inr () then M((l, t) \<mapsto> data) else M) x \<noteq> None" if "stored (ks_table (k\<lparr>ks_table := tb\<rparr>)) x"
      proof (cases "x = (l, t)")
        case True
        then show ?thesis using assms(3) so that Inr unfolding same_media_locate [OF assms(2)] by (simp add: set_unit_def)
      next
        case False
        then have "stored (ks_table k) x" using that str by simp
        from si(4) [OF this] show ?thesis
          using False so that Inr keep unfolding same_media_locate [OF assms(2)] by fastforce
      qed
      show "(if r = Inr () then M((l, t) \<mapsto> data) else M) x = None" if "\<not> stored (ks_table (k\<lparr>ks_table := tb\<rparr>)) x"
        using that str si(5) Inr by auto
      fix y
      assume "stored (ks_table (k\<lparr>ks_table := tb\<rparr>)) x" "stored (ks_table (k\<lparr>ks_table := tb\<rparr>)) y" "vm_locate v' x = vm_locate v' y"
        "slot_off (ks_table (k\<lparr>ks_table := tb\<rparr>)) x = slot_off (ks_table (k\<lparr>ks_table := tb\<rparr>)) y"
      then show "x = y" using so str other [of x] other [of y] assms(3) si(6) [of x y]
        unfolding same_media_locate [OF assms(2)] by (auto split: if_splits)
    qed
  qed
qed

lemma kv_outcomeE: obtains r k v s where "x = (r, (k, v, s))"
  by (cases x) auto

text \<open>What no operation of the store changes.\<close>

definition same_store :: "'s kv_state \<Rightarrow> 's kv_state \<Rightarrow> bool" where
  "same_store a b \<longleftrightarrow> same_media (fst (snd a)) (fst (snd b)) \<and> ks_num_layers (fst b) = ks_num_layers (fst a) \<and>
     ks_max_tokens (fst b) = ks_max_tokens (fst a) \<and> ks_unit_size (fst b) = ks_unit_size (fst a) \<and> ks_max_topk (fst b) = ks_max_topk (fst a)"

lemma same_store_refl [simp]: "same_store a a"
  by (simp add: same_store_def)

lemma same_store_trans: "same_store a b \<Longrightarrow> same_store b c \<Longrightarrow> same_store a c"
  using same_media_trans by (auto simp: same_store_def)

context chunk_store
begin

lemma offload_unit_ok:
  assumes "store_rel view M (k, v, s)" and "inv s" and "int (length data) = ks_unit_size k" and "M (l, t) = None"
    and "offload_unit L l t data (k, v, s) = (r, (k', v', s'))"
  shows "inv s' \<and> same_store (k, v, s) (k', v', s') \<and> store_rel view (if r = Inr () then M((l, t) \<mapsto> data) else M) (k', v', s')"
proof -
  obtain U where U: "store_inv view U M (k, v, s)" using assms(1) by (auto simp: store_rel_def)
  note si = store_invD [OF U]
  obtain w v1 s1 where wr: "vm_write L (l, t) data (v, s) = (w, (v1, s1))" by (metis prod.exhaust)
  have len: "int (length data) = vm_unit_size v" using assms(3) si(2) by (simp add: store_shape_def)
  note wo = vm_write_ok [OF si(1) assms(2) len wr]
  then have w: "inv s1" "same_media v v1" by auto
  show ?thesis
  proof (cases w)
    case (Inl e)
    then have "r = Inl e" "k' = k" "v' = v1" "s' = s1" using assms(5) wr by (auto simp: offload_unit_def)
    moreover have "store_inv view U M (k, v1, s1)"
      by (rule store_inv_media [OF U w(2)]) (use wo Inl in auto)
    ultimately show ?thesis using w by (auto simp: store_rel_def same_store_def)
  next
    case (Inr off)
    then obtain d where d: "vm_locate v (l, t) = Inr d" "U d off = None" "vm_inv view (set_unit d off (Some data) U) (v1, s1)"
      using wo by auto
    obtain r1 tb where tb: "tb_set l t off FLAG_VALID (ks_table k) = (r1, tb)" by fastforce
    have "r = r1" "k' = k\<lparr>ks_table := tb\<rparr>" "v' = v1" "s' = s1" using assms(5) wr tb Inr by (auto simp: offload_unit_def)
    then show ?thesis using record_unit [OF U w(2) d assms(4) tb] w by (auto simp: store_rel_def same_store_def)
  qed
qed

end

lemma spec_block_Suc:
  "spec_block u b (Suc n) M =
     (spec_block u b n M)((kb_layer_id b, kb_token_start b + int n) \<mapsto> py_slice (kb_buffer b) (int n * u) ((int n + 1) * u))"
  by (simp add: spec_block_def)

lemma spec_block_0 [simp]: "spec_block u b 0 M = M"
  by (simp add: spec_block_def)

lemma spec_block_other: "n \<le> i \<Longrightarrow> spec_block u b n M (kb_layer_id b, kb_token_start b + int i) = M (kb_layer_id b, kb_token_start b + int i)"
  by (induction n) (auto simp: spec_block_Suc)

lemma spec_block_extends:
  assumes "\<forall>i < n. M (kb_layer_id b, kb_token_start b + int i) = None" and "j \<le> n"
  shows "M \<subseteq>\<^sub>m spec_block u b j M" and "spec_block u b j M \<subseteq>\<^sub>m spec_block u b n M"
proof -
  have step: "spec_block u b i M \<subseteq>\<^sub>m spec_block u b (Suc i) M" if "i < n" for i
  proof -
    have "spec_block u b i M (kb_layer_id b, kb_token_start b + int i) = None" using spec_block_other [of i i] assms(1) that by simp
    then show ?thesis by (auto simp: spec_block_Suc map_le_def)
  qed
  have up: "spec_block u b i M \<subseteq>\<^sub>m spec_block u b m M" if "i \<le> m" "m \<le> n" for i m
    using that
  proof (induction m)
    case (Suc m)
    then show ?case using step [of m] map_le_trans by (cases "i = Suc m") auto
  qed simp
  show "M \<subseteq>\<^sub>m spec_block u b j M" using up [of 0 j] assms(2) by simp
  show "spec_block u b j M \<subseteq>\<^sub>m spec_block u b n M" using up assms(2) by simp
qed

lemma block_unit_length:
  assumes "check_block k b" and "i < nat (kb_token_count b)" and "0 < ks_unit_size k"
  shows "int (length (block_unit k b i)) = ks_unit_size k"
proof -
  let ?u = "ks_unit_size k"
  have "(int i + 1) * ?u \<le> kb_token_count b * ?u" using assms(2,3) by (intro mult_right_mono) auto
  then have le: "int i * ?u + ?u \<le> int (length (kb_buffer b))" using assms(1) by (simp add: check_block_def algebra_simps)
  have "block_unit k b i = block_at (nat (int i * ?u)) (nat ?u) (kb_buffer b)"
    using py_slice_block [of "int i * ?u" ?u "kb_buffer b"] le assms(3) by (simp add: block_unit_def algebra_simps)
  moreover have "0 \<le> int i * ?u" using assms(3) by simp
  then have "nat (int i * ?u) + nat ?u \<le> length (kb_buffer b)" using le assms(3) by linarith
  ultimately show ?thesis using assms(3) by simp
qed

context chunk_store
begin

lemma offload_units_ok:
  assumes "store_rel view M (k, v, s)" and "inv s" and "check_block k b" and "n \<le> nat (kb_token_count b)"
    and "\<forall>i < nat (kb_token_count b). M (kb_layer_id b, kb_token_start b + int i) = None"
    and "for_each (\<lambda>i. offload_unit L (kb_layer_id b) (kb_token_start b + int i) (block_unit k b i)) [0..<n] (k, v, s) = (r, (k', v', s'))"
  shows "inv s' \<and> same_store (k, v, s) (k', v', s') \<and>
    (case r of Inr _ \<Rightarrow> store_rel view (spec_block (ks_unit_size k) b n M) (k', v', s')
     | Inl e \<Rightarrow> \<exists>j \<le> n. store_rel view (spec_block (ks_unit_size k) b j M) (k', v', s'))"
  using assms(4,6)
proof (induction n arbitrary: r k' v' s')
  case 0
  then show ?case using assms(1,2) by auto
next
  case (Suc n)
  let ?f = "\<lambda>i. offload_unit L (kb_layer_id b) (kb_token_start b + int i) (block_unit k b i)"
  let ?u = "ks_unit_size k"
  obtain r1 k1 v1 s1 where fe: "for_each ?f [0..<n] (k, v, s) = (r1, (k1, v1, s1))" by (rule kv_outcomeE)
  note ih = Suc.IH [OF _ fe] 
  show ?case
  proof (cases r1)
    case (Inl e)
    then have "r = Inl e" "(k', v', s') = (k1, v1, s1)" using Suc.prems(2) fe by (auto simp: for_each_append)
    then show ?thesis using ih Suc.prems(1) Inl by simp (meson le_SucI)
  next
    case (Inr u)
    then have i: "inv s1" "same_store (k, v, s) (k1, v1, s1)" "store_rel view (spec_block ?u b n M) (k1, v1, s1)"
      using ih Suc.prems(1) by auto
    have ou: "?f n (k1, v1, s1) = (r, (k', v', s'))" using Suc.prems(2) fe Inr
      by (cases "?f n (k1, v1, s1)"; cases "fst (?f n (k1, v1, s1))") (auto simp: for_each_append)
    have u: "ks_unit_size k1 = ?u" using i(2) by (simp add: same_store_def)
    have "0 < ?u" using store_rel_shape [OF assms(1)] by (simp add: store_shape_def)
    then have len: "int (length (block_unit k b n)) = ks_unit_size k1" using block_unit_length [OF assms(3), of n] Suc.prems(1) u by simp
    have new: "spec_block ?u b n M (kb_layer_id b, kb_token_start b + int n) = None"
      using spec_block_other [of n n] assms(5) Suc.prems(1) by simp
    from offload_unit_ok [OF i(3,1) len new ou] show ?thesis
      using same_store_trans [OF i(2)] by (cases r) (auto simp: spec_block_Suc block_unit_def intro: exI [of _ n])
  qed
qed

lemma offload_ok:
  assumes "store_rel view M (k, v, s)" and "inv s" and "fresh_blocks (ks_unit_size k) M blocks"
    and "offload L blocks (k, v, s) = (r, (k', v', s'))"
  shows "inv s' \<and> same_store (k, v, s) (k', v', s') \<and>
    (case r of Inr _ \<Rightarrow> store_rel view (spec_offload (ks_unit_size k) blocks M) (k', v', s')
     | Inl e \<Rightarrow> \<exists>M'. store_rel view M' (k', v', s') \<and> M \<subseteq>\<^sub>m M' \<and> M' \<subseteq>\<^sub>m spec_offload (ks_unit_size k) blocks M)"
  using assms
proof (induction blocks arbitrary: M k v s)
  case Nil
  then have "r = Inr ()" "(k', v', s') = (k, v, s)" by (auto simp: offload_def)
  then show ?case using Nil by (simp add: spec_offload_def)
next
  case (Cons b blocks)
  let ?u = "ks_unit_size k" and ?n = "nat (kb_token_count b)"
  have fr: "\<forall>i < ?n. M (kb_layer_id b, kb_token_start b + int i) = None" "fresh_blocks ?u (spec_block ?u b ?n M) blocks"
    using Cons.prems(3) by auto
  have all: "spec_block ?u b ?n M \<subseteq>\<^sub>m spec_offload ?u (b # blocks) M"
  proof -
    have "N \<subseteq>\<^sub>m spec_offload ?u bs N" if "fresh_blocks ?u N bs" for N bs
      using that
    proof (induction bs arbitrary: N)
      case (Cons c bs)
      have "N \<subseteq>\<^sub>m spec_block ?u c (nat (kb_token_count c)) N" using Cons.prems spec_block_extends(1) [of "nat (kb_token_count c)"] by simp
      moreover have "spec_block ?u c (nat (kb_token_count c)) N \<subseteq>\<^sub>m spec_offload ?u (c # bs) N"
        using Cons.IH [of "spec_block ?u c (nat (kb_token_count c)) N"] Cons.prems by (simp add: spec_offload_def)
      ultimately show ?case by (rule map_le_trans)
    qed (simp add: spec_offload_def)
    then show ?thesis using fr(2) by (simp add: spec_offload_def)
  qed
  obtain r1 k1 v1 s1 where ob: "offload_block L b (k, v, s) = (r1, (k1, v1, s1))" by (rule kv_outcomeE)
  have blk: "inv s1 \<and> same_store (k, v, s) (k1, v1, s1) \<and>
    (case r1 of Inr _ \<Rightarrow> store_rel view (spec_block ?u b ?n M) (k1, v1, s1)
     | Inl e \<Rightarrow> \<exists>j \<le> ?n. store_rel view (spec_block ?u b j M) (k1, v1, s1))"
  proof (cases "check_block k b")
    case True
    then have "for_each (\<lambda>i. offload_unit L (kb_layer_id b) (kb_token_start b + int i) (block_unit k b i)) [0..<?n] (k, v, s) = (r1, (k1, v1, s1))"
      using ob by (simp add: offload_block_def)
    from offload_units_ok [OF Cons.prems(1,2) True order_refl fr(1) this] show ?thesis .
  next
    case False
    then have "r1 = Inl ValueError" "(k1, v1, s1) = (k, v, s)" using ob by (auto simp: offload_block_def)
    then show ?thesis using Cons.prems(1,2) by (auto intro: exI [of _ 0])
  qed
  show ?case
  proof (cases r1)
    case (Inl e)
    then have "r = Inl e" "(k', v', s') = (k1, v1, s1)" using Cons.prems(4) ob by (auto simp: offload_def)
    moreover obtain j where "j \<le> ?n" "store_rel view (spec_block ?u b j M) (k1, v1, s1)" using blk Inl by auto
    ultimately show ?thesis
      using blk spec_block_extends [OF fr(1) \<open>j \<le> ?n\<close>] map_le_trans [OF _ all] by auto
  next
    case (Inr x)
    then have i: "inv s1" "same_store (k, v, s) (k1, v1, s1)" "store_rel view (spec_block ?u b ?n M) (k1, v1, s1)" using blk by auto
    have u: "ks_unit_size k1 = ?u" using i(2) by (simp add: same_store_def)
    have off: "offload L blocks (k1, v1, s1) = (r, (k', v', s'))" using Cons.prems(4) ob Inr by (simp add: offload_def)
    have M: "M \<subseteq>\<^sub>m spec_block ?u b ?n M" by (rule spec_block_extends(1) [OF fr(1) order_refl])
    have sp: "spec_offload ?u (b # blocks) M = spec_offload ?u blocks (spec_block ?u b ?n M)" by (simp add: spec_offload_def)
    from Cons.IH [OF i(3,1) _ off] fr(2) u show ?thesis
      using same_store_trans [OF i(2)] map_le_trans [OF M] unfolding sp by (auto split: sum.splits)
  qed
qed

end

subsection \<open>Release and flush\<close>

lemma release_token_ok:
  assumes "store_rel view M (k, v, s)" and "release_token l t (k, v) = (r, (k', v'))"
  shows "same_store (k, v, s) (k', v', s) \<and>
    (if tb_check (ks_table k) l t then r = Inr () \<and> store_rel view (M((l, t) := None)) (k', v', s)
     else r = Inl ValueError \<and> store_rel view M (k', v', s))"
proof -
  obtain U where U: "store_inv view U M (k, v, s)" using assms(1) by (auto simp: store_rel_def)
  note si = store_invD [OF U]
  let ?tb = "ks_table k"
  have tok: "table_ok ?tb" using si(2) by (simp add: store_shape_def)
  note get = tb_get_ok [OF tok, of l t]
  consider "\<not> tb_check ?tb l t" | "tb_check ?tb l t" "\<not> stored ?tb (l, t)" | "stored ?tb (l, t)" by blast
  then show ?thesis
  proof cases
    case 1
    then show ?thesis using assms get by (auto simp: release_token_def)
  next
    case 2
    then have "\<not> entry_valid (tb_entry ?tb l t)" by (simp add: stored_def)
    then have "r = Inr ()" "k' = k" "v' = v" using assms(2) get 2(1) by (auto simp: release_token_def)
    moreover have "M((l, t) := None) = M" using si(5) [OF 2(2)] by auto
    ultimately show ?thesis using assms(1) 2(1) by (simp del: fun_upd_apply)
  next
    case 3
    then have c: "tb_check ?tb l t" "entry_valid (tb_entry ?tb l t)" by (auto simp: stored_def)
    from si(4) [OF 3] obtain d data where d: "vm_locate v (l, t) = Inr d" "U d (slot_off ?tb (l, t)) = Some data" by fastforce
    have off: "slot_off ?tb (l, t) = entry_offset (tb_entry ?tb l t)" by (simp add: slot_off_def)
    obtain ri tb where iv: "tb_invalidate l t ?tb = (ri, tb)" by fastforce
    note io = tb_invalidate_ok [OF tok iv]
    then have tb: "ri = Inr ()" "table_ok tb" "tb_check tb = tb_check ?tb"
      "\<And>l' t'. tb_check ?tb l' t' \<Longrightarrow> tb_entry tb l' t' = (if l' = l \<and> t' = t then 0 else tb_entry ?tb l' t')"
      using c(1) by auto
    from vm_release_ok [OF si(1) vm_locate_check [OF si(1) d(1)] d(2)] obtain v1 where
      v1: "vm_release d (slot_off ?tb (l, t)) v = (Inr (), v1)" "same_media v v1"
        "vm_inv view (set_unit d (slot_off ?tb (l, t)) None U) (v1, s)" by blast
    let ?k = "k\<lparr>ks_table := tb, ks_cache := (ks_cache k)((l, t) := None)\<rparr>"
    have res: "r = Inr ()" "k' = ?k" "v' = v1"
      using assms(2) get c d(1) iv tb(1) v1(1) off by (auto simp: release_token_def)
    have str: "stored tb x \<longleftrightarrow> x \<noteq> (l, t) \<and> stored ?tb x" "stored tb x \<Longrightarrow> slot_off tb x = slot_off ?tb x" for x
      using tb(3,4) by (cases x; auto simp: stored_def slot_off_def split: if_splits)+
    have "store_inv view (set_unit d (slot_off ?tb (l, t)) None U) (M((l, t) := None)) (?k, v1, s)"
    proof (rule store_invI)
      show "vm_inv view (set_unit d (slot_off ?tb (l, t)) None U) (v1, s)" by (rule v1(3))
      show "store_shape ?k v1" using si(2) tb(2) tb_dims(2) [OF iv] same_mediaD(2,3) [OF v1(2)] by (simp add: store_shape_def)
      show "ks_cache ?k \<subseteq>\<^sub>m M((l, t) := None)" using si(3) by (auto simp: map_le_def)
      fix x
      show "(M((l, t) := None)) x = None" if "\<not> stored (ks_table ?k) x"
        using that str(1) [of x] si(5) [of x] by (cases "x = (l, t)") auto
      show "\<exists>d'. vm_locate v1 x = Inr d' \<and> set_unit d (slot_off ?tb (l, t)) None U d' (slot_off (ks_table ?k) x) = (M((l, t) := None)) x \<and>
          (M((l, t) := None)) x \<noteq> None" if st: "stored (ks_table ?k) x"
      proof -
        have x: "x \<noteq> (l, t)" "stored ?tb x" "slot_off tb x = slot_off ?tb x" using str st by auto
        from si(4) [OF x(2)] obtain d' where d': "vm_locate v x = Inr d'" "U d' (slot_off ?tb x) = M x" "M x \<noteq> None" by blast
        have "\<not> (d' = d \<and> slot_off ?tb x = slot_off ?tb (l, t))" using si(6) [OF x(2) 3] x(1) d(1) d'(1) by auto
        then show ?thesis using x d' unfolding same_media_locate [OF v1(2)] by (auto simp: set_unit_def)
      qed
      fix y
      show "stored (ks_table ?k) x \<Longrightarrow> stored (ks_table ?k) y \<Longrightarrow> vm_locate v1 x = vm_locate v1 y \<Longrightarrow>
        slot_off (ks_table ?k) x = slot_off (ks_table ?k) y \<Longrightarrow> x = y"
        using str si(6) [of x y] unfolding same_media_locate [OF v1(2)] by auto
    qed
    then show ?thesis using res c(1) v1(2) by (auto simp: store_rel_def same_store_def)
  qed
qed

lemma spec_release_simps [simp]: "spec_release l [] M = M" "spec_release l (t # ts) M = spec_release l ts (M((l, t) := None))"
  by (simp_all add: spec_release_def)

lemma ks_release_ok:
  assumes "store_rel view M (k, v, s)" and "ks_release l ts (k, v) = (r, (k', v'))"
  shows "same_store (k, v, s) (k', v', s) \<and>
    (\<exists>us ws. ts = us @ ws \<and> store_rel view (spec_release l us M) (k', v', s) \<and>
      (if ws = [] then r = Inr () else r = Inl ValueError \<and> \<not> tb_check (ks_table k) l (hd ws)))"
  using assms
proof (induction ts arbitrary: M k v)
  case Nil
  then show ?case by (auto simp: ks_release_def)
next
  case (Cons t ts)
  obtain r1 k1 v1 where rt: "release_token l t (k, v) = (r1, (k1, v1))" by (metis prod.exhaust)
  note ok = release_token_ok [OF Cons.prems(1) rt]
  show ?case
  proof (cases "tb_check (ks_table k) l t")
    case True
    then have i: "r1 = Inr ()" "store_rel view (M((l, t) := None)) (k1, v1, s)" "same_store (k, v, s) (k1, v1, s)" using ok by auto
    have "ks_release l ts (k1, v1) = (r, (k', v'))" using Cons.prems(2) rt i(1) by (simp add: ks_release_def)
    from Cons.IH [OF i(2) this] obtain us ws where w: "same_store (k1, v1, s) (k', v', s)" "ts = us @ ws"
      "store_rel view (spec_release l us (M((l, t) := None))) (k', v', s)"
      "if ws = [] then r = Inr () else r = Inl ValueError \<and> \<not> tb_check (ks_table k1) l (hd ws)" by blast
    have "tb_check (ks_table k1) = tb_check (ks_table k)"
    proof -
      have "store_shape k v" "store_shape k1 v1" using Cons.prems(1) i(2) by (auto simp: store_rel_def dest: store_invD(2))
      then show ?thesis using i(3) tb_check_shape by (simp add: fun_eq_iff same_store_def)
    qed
    then have "t # ts = (t # us) @ ws \<and> store_rel view (spec_release l (t # us) M) (k', v', s) \<and>
        (if ws = [] then r = Inr () else r = Inl ValueError \<and> \<not> tb_check (ks_table k) l (hd ws))"
      using w by (auto split: if_splits)
    then show ?thesis using same_store_trans [OF i(3) w(1)] by blast
  next
    case False
    then have i: "r1 = Inl ValueError" "store_rel view M (k1, v1, s)" "same_store (k, v, s) (k1, v1, s)" using ok by auto
    have "r = Inl ValueError" "k' = k1" "v' = v1" using Cons.prems(2) rt i(1) by (auto simp: ks_release_def)
    then have "t # ts = [] @ (t # ts) \<and> store_rel view (spec_release l [] M) (k', v', s) \<and> r = Inl ValueError" using i by simp
    then show ?thesis using i(3) False \<open>k' = k1\<close> \<open>v' = v1\<close> by (metis list.distinct(1) list.sel(1))
  qed
qed

context chunk_store
begin

lemma ks_flush_ok:
  assumes "store_rel view M (k, v, s)" and "inv s"
  shows "\<exists>v' s'. ks_flush L (k, v, s) = (Inr (), (k, v', s')) \<and> inv s' \<and> same_store (k, v, s) (k, v', s') \<and> store_rel view M (k, v', s')"
proof -
  obtain U where U: "store_inv view U M (k, v, s)" using assms(1) by (auto simp: store_rel_def)
  from vm_flush_ok [OF store_invD(1) [OF U] assms(2)] obtain v' s' where
    f: "vm_flush L (v, s) = (Inr (), (v', s'))" "inv s'" "same_media v v'" "vm_inv view U (v', s')" by blast
  have "store_inv view U M (k, v', s')" by (rule store_inv_media [OF U f(3,4)])
  then show ?thesis using f by (auto simp: ks_flush_def store_rel_def same_store_def)
qed

end

subsection \<open>Fetch returns the abstract contents\<close>

definition dev_of :: "media \<Rightarrow> int \<times> int \<Rightarrow> int" where
  "dev_of v x = (case vm_locate v x of Inl _ \<Rightarrow> 0 | Inr d \<Rightarrow> d)"

definition in_table :: "store \<Rightarrow> int \<Rightarrow> int list \<Rightarrow> bool" where
  "in_table k l ts \<longleftrightarrow> 0 \<le> l \<and> l < ks_num_layers k \<and> (\<forall>t \<in> set ts. 0 \<le> t \<and> t < ks_max_tokens k)"

lemma in_table_check: "store_shape k v \<Longrightarrow> in_table k l ts \<Longrightarrow> t \<in> set ts \<Longrightarrow> tb_check (ks_table k) l t"
  by (simp add: tb_check_shape in_table_def)

lemma gather_in_table: "store_shape k v \<Longrightarrow> in_table k l ts \<Longrightarrow> tb_gather (ks_table k) l ts = Inr (map (tb_entry (ks_table k) l) ts)"
  by (rule tb_gather_ok) (auto simp: in_table_def store_shape_def tb_check_def)

lemma stored_unit:
  assumes "store_inv view U M (k, v, s)" and "stored (ks_table k) x"
  shows "vm_locate v x = Inr (dev_of v x)" "check_device v (dev_of v x)" "\<exists>b. M x = Some b"
    "U (dev_of v x) (slot_off (ks_table k) x) = M x" "int (length (the (M x))) = ks_unit_size k"
proof -
  note si = store_invD [OF assms(1)]
  from si(4) [OF assms(2)] obtain d b where d: "vm_locate v x = Inr d" "U d (slot_off (ks_table k) x) = M x" "M x = Some b" by blast
  then show "vm_locate v x = Inr (dev_of v x)" "\<exists>b. M x = Some b" "U (dev_of v x) (slot_off (ks_table k) x) = M x"
    by (auto simp: dev_of_def)
  have "dev_of v x = d" using d(1) by (simp add: dev_of_def)
  then show "check_device v (dev_of v x)" using vm_locate_check [OF si(1)] d(1) by blast
  then show "int (length (the (M x))) = ks_unit_size k"
    using live_item_read(1) [OF si(1), of d] d \<open>dev_of v x = d\<close> si(2) by (simp add: store_shape_def)
qed

lemma locate_batch_stored:
  assumes "store_inv view U M (k, v, s)" and "\<forall>t \<in> set ts. stored (ks_table k) (l, t)"
  shows "vm_locate_batch v (map (Pair l) ts) = Inr (map (\<lambda>t. dev_of v (l, t)) ts)"
proof -
  have "batch_ok (vm_strategy v)" using store_invD(2) [OF assms(1)] by (simp add: store_shape_def)
  moreover have "map_result (st_locate (vm_strategy v)) (map (Pair l) ts) = Inr (map (dev_of v) (map (Pair l) ts))"
    using stored_unit(1) [OF assms(1)] assms(2) by (intro map_result_total) (auto simp: vm_locate_def)
  ultimately show ?thesis by (simp add: batch_ok_def vm_locate_batch_def comp_def)
qed

abbreviation uncached :: "store \<Rightarrow> int \<Rightarrow> int list \<Rightarrow> nat list \<Rightarrow> nat list" where
  "uncached k l ts ps \<equiv> filter (\<lambda>p. ks_cache k (l, ts ! p) = None) ps"

lemma fetch_scan_ok:
  assumes "store_inv view U M (k, v, s)" and "outs_ok (ks_unit_size k) outs bs" and "length outs = length ts"
    and "\<forall>t \<in> set ts. stored (ks_table k) (l, t)" and "n \<le> length ts"
    and "filled_outs outs (\<lambda>p. the (M (l, ts ! p))) P bs bs1"
  shows "\<exists>bs2. fetch_scan k l (map (\<lambda>t. dev_of v (l, t)) ts) n (drop n (zip ts (zip (map (tb_entry (ks_table k) l) ts) outs))) bs1 =
      (Inr (map (\<lambda>p. (dev_of v (l, ts ! p), slot_off (ks_table k) (l, ts ! p))) (uncached k l ts [n..<length ts]),
            map ((!) outs) (uncached k l ts [n..<length ts])), bs2) \<and>
    filled_outs outs (\<lambda>p. the (M (l, ts ! p))) (P \<union> {p \<in> {n..<length ts}. ks_cache k (l, ts ! p) \<noteq> None}) bs bs2"
  using assms(5,6)
proof (induction "length ts - n" arbitrary: n P bs1)
  case 0
  then show ?case by simp
next
  case (Suc m)
  let ?D = "\<lambda>p. the (M (l, ts ! p))" and ?ds = "map (\<lambda>t. dev_of v (l, t)) ts"
  let ?z = "zip ts (zip (map (tb_entry (ks_table k) l) ts) outs)"
  have n: "n < length ts" and m: "m = length ts - Suc n" using Suc.hyps(2) by simp_all
  from n have dr: "drop n ?z = (ts ! n, tb_entry (ks_table k) l (ts ! n), outs ! n) # drop (Suc n) ?z"
    using assms(3) by (simp add: Cons_nth_drop_Suc [symmetric])
  have up: "[n..<length ts] = n # [Suc n..<length ts]" using n by (simp add: upt_rec)
  have st: "stored (ks_table k) (l, ts ! n)" using assms(4) n by simp
  then have ev: "entry_valid (tb_entry (ks_table k) l (ts ! n))" by (simp add: stored_def)
  note su = stored_unit [OF assms(1) st]
  show ?case
  proof (cases "ks_cache k (l, ts ! n)")
    case None
    have set: "{p \<in> {n..<length ts}. ks_cache k (l, ts ! p) \<noteq> None} = {p \<in> {Suc n..<length ts}. ks_cache k (l, ts ! p) \<noteq> None}"
      using None by (auto simp: le_less_Suc_eq Suc_le_eq) (metis None le_eq_less_or_eq option.distinct(1))+
    have "py_nth ?ds (int n) = Inr (dev_of v (l, ts ! n))" using n by (simp add: py_nth_nonneg)
    moreover obtain bs2 where "fetch_scan k l ?ds (Suc n) (drop (Suc n) ?z) bs1 =
        (Inr (map (\<lambda>p. (dev_of v (l, ts ! p), slot_off (ks_table k) (l, ts ! p))) (uncached k l ts [Suc n..<length ts]),
          map ((!) outs) (uncached k l ts [Suc n..<length ts])), bs2)"
      "filled_outs outs ?D (P \<union> {p \<in> {Suc n..<length ts}. ks_cache k (l, ts ! p) \<noteq> None}) bs bs2"
      using Suc.hyps(1) [OF m _ Suc.prems(2)] n by auto
    ultimately show ?thesis using ev None unfolding dr up set by (simp add: slot_off_def)
  next
    case (Some c)
    have "c = ?D n" using Some store_invD(3) [OF assms(1)] by (metis domI map_le_def option.sel)
    moreover have "n < length outs" using n assms(3) by simp
    ultimately obtain bs2 where bs2: "assign_out (ks_unit_size k) c (outs ! n) bs1 = Inr bs2" "filled_outs outs ?D (insert n P) bs bs2"
      using filled_outs_assign [OF assms(2) Suc.prems(2) _ su(5)] by blast
    have set: "P \<union> {p \<in> {n..<length ts}. ks_cache k (l, ts ! p) \<noteq> None} =
        insert n P \<union> {p \<in> {Suc n..<length ts}. ks_cache k (l, ts ! p) \<noteq> None}" using Some n by (auto simp: le_eq_less_or_eq Suc_le_eq)
    show ?thesis using Suc.hyps(1) [OF m _ bs2(2)] bs2(1) n ev Some unfolding dr up set by simp
  qed
qed

lemma filled_outs_ok:
  assumes "outs_ok u outs bs" and "filled_outs outs D P bs bs1" and "\<And>p. p \<in> P \<Longrightarrow> int (length (D p)) = u"
    and "distinct qs" and "set qs \<subseteq> {..<length outs}"
  shows "outs_ok u (map ((!) outs) qs) bs1"
proof -
  have d: "distinct outs" "0 \<le> u" using assms(1) by (auto simp: outs_ok_def)
  have "distinct (map ((!) outs) qs)" using assms(4,5) d(1) by (auto simp: distinct_map intro!: inj_on_nth)
  moreover have "\<not> buf_readonly (bs1 (outs ! q)) \<and> u \<le> nbytes (bs1 (outs ! q))" if "q \<in> set qs" for q
  proof -
    have q: "q < length outs" using that assms(5) by auto
    then have "\<not> buf_readonly (bs (outs ! q))" using assms(1) by (auto simp: outs_ok_def)
    then have "\<not> buf_readonly (bs1 (outs ! q))" using assms(2) q by (auto simp: filled_outs_def)
    then show ?thesis using filled_outs_nbytes [OF assms(1,2) q assms(3)] by blast
  qed
  ultimately show ?thesis using d(2) by (auto simp: outs_ok_def)
qed

lemma filled_outs_compose:
  assumes "distinct outs" and "filled_outs outs D P bs bs1" and "P \<inter> set qs = {}" and "P \<union> set qs = {..<length outs}"
    and "filled_outs (map ((!) outs) qs) (\<lambda>i. D (qs ! i)) {..<length qs} bs1 bs2" and "distinct qs"
  shows "filled_outs outs D {..<length outs} bs bs2"
proof -
  have "bs2 (outs ! p) = set_prefix (D p) (bs (outs ! p))" if p: "p < length outs" for p
  proof (cases "p \<in> P")
    case True
    have "outs ! q \<noteq> outs ! p" if "q \<in> set qs" for q
    proof -
      have "q < length outs" "q \<noteq> p" using that assms(3,4) True by auto
      then show ?thesis using nth_eq_iff_index_eq [OF assms(1)] p by blast
    qed
    then have "outs ! p \<notin> set (map ((!) outs) qs)" by (metis imageE set_map)
    then have "bs2 (outs ! p) = bs1 (outs ! p)" using assms(5) by (simp add: filled_outs_def)
    then show ?thesis using assms(2) p True by (simp add: filled_outs_def)
  next
    case False
    then obtain i where i: "i < length qs" "qs ! i = p" using assms(4) p by (metis UnE in_set_conv_nth lessThan_iff)
    have "bs1 (outs ! p) = bs (outs ! p)" using assms(2) p False by (simp add: filled_outs_def)
    moreover have "bs2 (map ((!) outs) qs ! i) = set_prefix (D (qs ! i)) (bs1 (map ((!) outs) qs ! i))"
      using assms(5) i(1) unfolding filled_outs_def by simp
    ultimately show ?thesis using i by simp
  qed
  moreover have "bs2 out = bs out" if "out \<notin> set outs" for out
  proof -
    have "\<forall>q \<in> set qs. q < length outs" using assms(4) by (metis UnI2 lessThan_iff)
    then have "set (map ((!) outs) qs) \<subseteq> set outs" by auto
    then have "out \<notin> set (map ((!) outs) qs)" using that by blast
    then have "bs2 out = bs1 out" using assms(5) unfolding filled_outs_def by blast
    then show ?thesis using assms(2) that unfolding filled_outs_def by simp
  qed
  ultimately show ?thesis by (simp add: filled_outs_def)
qed

lemma fetch_scan_invalid:
  assumes "\<exists>(t, e, out) \<in> set zs. \<not> entry_valid e"
  shows "\<exists>x bs'. fetch_scan k l ds n zs bs = (Inl x, bs')"
  using assms
proof (induction zs arbitrary: n bs)
  case (Cons z zs)
  obtain t e out where z: "z = (t, e, out)" by (cases z) auto
  show ?case
  proof (cases "entry_valid e")
    case True
    then have "\<exists>(t, e, out) \<in> set zs. \<not> entry_valid e" using Cons.prems z by auto
    then have "\<exists>x bs'. fetch_scan k l ds (Suc n) zs bs1 = (Inl x, bs')" for bs1 by (rule Cons.IH)
    then show ?thesis using True z by (auto split: option.splits sum.splits prod.splits) (metis prod.inject sum.distinct(1))+
  qed (simp add: z)
qed simp

context chunk_store
begin

lemma fetch_ok:
  assumes "store_rel view M (k, v, s)" and "inv s" and "fair sched" and "in_table k l ts" and "length outs = length ts"
    and "outs_ok (ks_unit_size k) outs bs" and "\<forall>t \<in> set ts. M (l, t) \<noteq> None"
  shows "\<exists>bs' s'. fetch L sched l ts outs k v (bs, s) = (Inr (), (bs', s')) \<and> inv s' \<and> view s' = view s \<and>
    filled_outs outs (\<lambda>p. the (M (l, ts ! p))) {..<length outs} bs bs'"
proof -
  obtain U where U: "store_inv view U M (k, v, s)" using assms(1) by (auto simp: store_rel_def)
  note si = store_invD [OF U]
  let ?D = "\<lambda>p. the (M (l, ts ! p))" and ?qs = "uncached k l ts [0..<length ts]" and ?tb = "ks_table k"
  let ?P = "{p \<in> {0..<length ts}. ks_cache k (l, ts ! p) \<noteq> None}"
  let ?items = "map (\<lambda>p. (dev_of v (l, ts ! p), slot_off ?tb (l, ts ! p))) ?qs" and ?ro = "map ((!) outs) ?qs"
  have st: "\<forall>t \<in> set ts. stored ?tb (l, t)" using assms(7) store_inv_stored [OF U] by blast
  have u: "vm_unit_size v = ks_unit_size k" using si(2) by (simp add: store_shape_def)
  have "filled_outs outs ?D {} bs bs" by (simp add: filled_outs_def)
  from fetch_scan_ok [OF U assms(6,5) st _ this, of 0] obtain bs1 where
    sc: "fetch_scan k l (map (\<lambda>t. dev_of v (l, t)) ts) 0 (zip ts (zip (map (tb_entry ?tb l) ts) outs)) bs = (Inr (?items, ?ro), bs1)"
      "filled_outs outs ?D ?P bs bs1" by auto
  have len: "int (length (?D p)) = ks_unit_size k" if "p < length ts" for p
    using stored_unit(5) [OF U, of "(l, ts ! p)"] st that by simp
  have dist: "distinct outs" using assms(6) by (simp add: outs_ok_def)
  have fe: "fetch L sched l ts outs k v (bs, s) =
      (if ?items = [] then (Inr (), (bs1, s)) else vm_read_batch L sched ?items ?ro v (bs1, s))"
    using assms(5) locate_batch_stored [OF U st] gather_in_table [OF si(2) assms(4)] sc(1) by (simp add: fetch_def)
  show ?thesis
  proof (cases "?qs = []")
    case True
    then have "?P = {..<length outs}" using assms(5) by (auto simp: filter_empty_conv)
    then show ?thesis using fe True sc(2) assms(2) by simp
  next
    case False
    have oo: "outs_ok (vm_unit_size v) ?ro bs1" unfolding u
      by (rule filled_outs_ok [OF assms(6) sc(2)]) (use len assms(5) in auto)
    have li: "live_items v U ?items (\<lambda>i. ?D (?qs ! i))"
      unfolding live_items_def
    proof (intro allI impI)
      fix i assume i: "i < length ?items"
      then have q: "?qs ! i < length ts" using nth_mem [of i ?qs] by simp
      note su = stored_unit [OF U, of "(l, ts ! (?qs ! i))"]
      show "check_device v (fst (?items ! i)) \<and> U (fst (?items ! i)) (snd (?items ! i)) = Some (?D (?qs ! i))"
        using su(2-4) st q i by auto
    qed
    have "length ?items = length ?ro" by simp
    from vm_read_batch_ok [OF si(1) assms(2,3) this oo li] obtain bs2 s2 where
      rb: "vm_read_batch L sched ?items ?ro v (bs1, s) = (Inr (), (bs2, s2))" "inv s2" "view s2 = view s"
        "filled_outs ?ro (\<lambda>i. ?D (?qs ! i)) {..<length ?ro} bs1 bs2" by blast
    have "filled_outs outs ?D {..<length outs} bs bs2"
      by (rule filled_outs_compose [OF dist sc(2), of ?qs]) (use rb(4) assms(5) in auto)
    then show ?thesis using fe rb False by simp
  qed
qed

lemma fetch_missing:
  assumes "store_rel view M (k, v, s)" and "in_table k l ts" and "length outs = length ts" and "t \<in> set ts" and "M (l, t) = None"
  shows "\<exists>e bs'. fetch L sched l ts outs k v (bs, s) = (Inl e, (bs', s))"
proof -
  obtain U where U: "store_inv view U M (k, v, s)" using assms(1) by (auto simp: store_rel_def)
  note si = store_invD [OF U]
  let ?es = "map (tb_entry (ks_table k) l) ts"
  have "\<not> stored (ks_table k) (l, t)" using assms(5) store_inv_stored [OF U] by metis
  then have "\<not> entry_valid (tb_entry (ks_table k) l t)" using in_table_check [OF si(2) assms(2,4)] by (simp add: stored_def)
  moreover obtain i where "i < length ts" "ts ! i = t" using assms(4) by (metis in_set_conv_nth)
  ultimately have "(t, ?es ! i, outs ! i) \<in> set (zip ts (zip ?es outs)) \<and> \<not> entry_valid (?es ! i)"
    using assms(3) by (auto simp: in_set_zip intro!: exI [of _ i])
  then have "\<exists>(t, e, out) \<in> set (zip ts (zip ?es outs)). \<not> entry_valid e" by blast
  note inv = fetch_scan_invalid [OF this]
  show ?thesis
  proof (cases "vm_locate_batch v (map (Pair l) ts)")
    case (Inr ds)
    obtain x bs' where "fetch_scan k l ds 0 (zip ts (zip ?es outs)) bs = (Inl x, bs')" using inv by blast
    then show ?thesis using Inr gather_in_table [OF si(2) assms(2)] assms(3) by (simp add: fetch_def)
  qed (use assms(3) in \<open>simp add: fetch_def\<close>)
qed

end

subsection \<open>Prefetch\<close>

lemma store_rel_update:
  assumes "store_rel view M (k, v, s)" and "view s' = view s" and "ks_table k' = ks_table k" and "ks_cache k' \<subseteq>\<^sub>m M" and "store_shape k' v"
  shows "store_rel view M (k', v, s')"
proof -
  obtain U where U: "store_inv view U M (k, v, s)" using assms(1) by (auto simp: store_rel_def)
  note si = store_invD [OF U]
  have "store_inv view U M (k', v, s')"
    by (rule store_invI) (use vm_inv_frame [OF si(1) assms(2)] assms(3-5) si(4-6) in auto)
  then show ?thesis by (auto simp: store_rel_def)
qed

lemma cache_update_le:
  assumes "c \<subseteq>\<^sub>m M" and "\<forall>(t, i) \<in> set ps. M (l, t) = Some (f i)"
  shows "foldl (\<lambda>c (t, i). c((l, t) \<mapsto> f i)) c ps \<subseteq>\<^sub>m M"
  using assms
proof (induction ps arbitrary: c)
  case (Cons p ps)
  obtain t i where p: "p = (t, i)" by fastforce
  have "c((l, t) \<mapsto> f i) \<subseteq>\<^sub>m M" using Cons.prems p by (auto simp: map_le_def)
  from Cons.IH [OF this] show ?case using Cons.prems(2) p by simp
qed simp

context chunk_store
begin

lemma prefetch_ok:
  assumes "store_rel view M (k, v, s)" and "inv s" and "fair sched" and "in_table k l ts"
  shows "\<exists>r k' s'. prefetch L sched l ts (k, v, s) = (r, (k', v, s')) \<and> inv s' \<and> same_store (k, v, s) (k', v, s') \<and>
    store_rel view M (k', v, s') \<and> (r = Inr () \<longleftrightarrow> (\<forall>t \<in> set ts. M (l, t) \<noteq> None))"
proof -
  let ?pend = "filter (\<lambda>t. ks_cache k (l, t) = None) ts"
  let ?bs = "\<lambda>_. bytearray_buf (replicate (nat (ks_unit_size k)) 0)" and ?outs = "[0..<length ?pend]"
  note shape = store_rel_shape [OF assms(1)]
  have cache: "ks_cache k \<subseteq>\<^sub>m M" using assms(1) by (auto simp: store_rel_def dest: store_invD(3))
  have all: "(\<forall>t \<in> set ?pend. M (l, t) \<noteq> None) \<longleftrightarrow> (\<forall>t \<in> set ts. M (l, t) \<noteq> None)"
    using cache by (auto simp: map_le_def dom_def) (metis not_None_eq)
  show ?thesis
  proof (cases "?pend = []")
    case True
    then show ?thesis using assms(1,2) all by (simp add: prefetch_def)
  next
    case False
    have it: "in_table k l ?pend" using assms(4) by (auto simp: in_table_def)
    have ok: "outs_ok (ks_unit_size k) ?outs ?bs" using shape by (auto simp: outs_ok_def store_shape_def bytearray_buf_def)
    show ?thesis
    proof (cases "\<forall>t \<in> set ?pend. M (l, t) \<noteq> None")
      case True
      from fetch_ok [OF assms(1-3) it _ ok True] obtain bs' s' where
        f: "fetch L sched l ?pend ?outs k v (?bs, s) = (Inr (), (bs', s'))" "inv s'" "view s' = view s"
          "filled_outs ?outs (\<lambda>p. the (M (l, ?pend ! p))) {..<length ?outs} ?bs bs'" by auto
      let ?c = "foldl (\<lambda>c (t, i). c((l, t) \<mapsto> buf_data (bs' i))) (ks_cache k) (zip ?pend ?outs)"
      have "M (l, t) = Some (buf_data (bs' i))" if ti: "(t, i) \<in> set (zip ?pend ?outs)" for t i
      proof -
        have i: "i < length ?pend" "t = ?pend ! i" using ti by (auto simp: set_zip)
        then obtain d where d: "M (l, t) = Some d" using True nth_mem [OF i(1)] by (metis not_None_eq)
        obtain U where U: "store_inv view U M (k, v, s)" using assms(1) by (auto simp: store_rel_def)
        have "stored (ks_table k) (l, t)" using store_inv_stored [OF U] d by auto
        then have "int (length d) = ks_unit_size k" using stored_unit(5) [OF U] d by fastforce
        moreover have "bs' i = set_prefix d (?bs i)" using f(4) i d by (simp add: filled_outs_def)
        ultimately show ?thesis using d by (auto simp: set_prefix_def bytearray_buf_def)
      qed
      then have "?c \<subseteq>\<^sub>m M" by (intro cache_update_le [OF cache]) blast
      then have "store_rel view M (k\<lparr>ks_cache := ?c\<rparr>, v, s')"
        using shape by (intro store_rel_update [OF assms(1) f(3)]) (auto simp: store_shape_def)
      then show ?thesis using False f(1,2) True all by (simp add: prefetch_def same_store_def Let_def)
    next
      case missing: False
      then obtain t where "t \<in> set ?pend" "M (l, t) = None" by blast
      from fetch_missing [OF assms(1) it _ this, of ?outs sched ?bs] obtain e bs' where
        "fetch L sched l ?pend ?outs k v (?bs, s) = (Inl e, (bs', s))" by auto
      then have "prefetch L sched l ts (k, v, s) = (Inl e, (k, v, s))" using False by (simp add: prefetch_def Let_def)
      then show ?thesis using missing all assms(1,2) by auto
    qed
  qed
qed

end

subsection \<open>The binary layout round-trips\<close>

lemma le_bytes_Suc: "le_bytes (Suc n) x = word_of_int x # le_bytes n (x div 256)"
  by (simp add: le_bytes_def upt_conv_Cons map_Suc_upt [symmetric] zdiv_zmult2_eq del: upt_Suc)

lemma length_le_bytes [simp]: "length (le_bytes n x) = n"
  by (simp add: le_bytes_def)

lemma le_int_bytes: "0 \<le> x \<Longrightarrow> x < 256 ^ n \<Longrightarrow> le_int (le_bytes n x) = x"
proof (induction n arbitrary: x)
  case 0
  then show ?case by (simp add: le_bytes_def)
next
  case (Suc n)
  have "x div 256 < 256 ^ n" "0 \<le> x div 256" using Suc.prems by (auto simp: div_less_iff_less_mult)
  moreover have "uint (word_of_int x :: 8 word) = x mod 256" by (simp add: uint_word_of_int)
  ultimately show ?case using Suc.IH [of "x div 256"] by (simp add: le_bytes_Suc)
qed

lemma pack_fields_ok:
  assumes "\<forall>(n, x) \<in> set fs. 0 \<le> x \<and> x < 256 ^ n"
  shows "pack_fields fs = Inr (concat (map (\<lambda>(n, x). le_bytes n x) fs))"
proof -
  have "map_result (\<lambda>(n, x). pack_uint n x) fs = Inr (map (\<lambda>(n, x). le_bytes n x) fs)"
    using assms by (intro map_result_total) (auto simp: pack_uint_def)
  then show ?thesis by (simp add: pack_fields_def)
qed

lemma unpack_pack_fields:
  "\<forall>(n, x) \<in> set fs. 0 \<le> x \<and> x < 256 ^ n \<Longrightarrow> unpack_fields (map fst fs) (concat (map (\<lambda>(n, x). le_bytes n x) fs)) = map snd fs"
  by (induction fs) (auto simp: le_int_bytes)

definition entry_fits :: "plan_entry \<Rightarrow> bool" where
  "entry_fits p \<longleftrightarrow> 0 \<le> pe_ssd_id p \<and> pe_ssd_id p < 2 ^ 32 \<and> 0 \<le> pe_flags p \<and> pe_flags p < 2 ^ 32 \<and>
     0 \<le> pe_lba_offset p \<and> pe_lba_offset p < 2 ^ 64 \<and> 0 \<le> pe_length p \<and> pe_length p < 2 ^ 64 \<and>
     0 \<le> pe_dst_offset p \<and> pe_dst_offset p < 2 ^ 64"

lemma pack_entry_struct_ok:
  assumes "entry_fits p"
  shows "\<exists>bs. pack_entry_struct p = Inr bs \<and> length bs = ENTRY_SIZE \<and> unpack_entry_struct bs = p"
proof -
  let ?fs = "[(4, pe_ssd_id p), (4, pe_flags p), (8, pe_lba_offset p), (8, pe_length p), (8, pe_dst_offset p)]"
  have fit: "\<forall>(n, x) \<in> set ?fs. 0 \<le> x \<and> x < 256 ^ n" using assms by (simp add: entry_fits_def)
  let ?bs = "concat (map (\<lambda>(n, x). le_bytes n x) ?fs)"
  have "unpack_fields [4, 4, 8, 8, 8] ?bs = map snd ?fs" using unpack_pack_fields [OF fit] by simp
  then have "unpack_entry_struct ?bs = p" by (simp add: unpack_entry_struct_def)
  moreover have "length ?bs = ENTRY_SIZE" by (simp add: ENTRY_SIZE_def)
  ultimately show ?thesis using pack_fields_ok [OF fit] by (simp add: pack_entry_struct_def)
qed

end
