(* ===== verification/SparseCorrect.thy ===== *)
theory SparseCorrect
  imports SparseStore
begin

section \<open>Correctness of SparseKVStore\<close>

text \<open>
  The store refines a map from (layer, token) to bytes: every operation, run on a store that represents a
  map, leaves a store that represents the map its abstract counterpart yields. On top of that the plan
  the store hands to the device operator is shown to describe the stored units, and whole runs of
  operations are shown to end in a store whose fetches return the map's values.
\<close>

subsection \<open>Plans describe the stored units\<close>

text \<open>What entry \<open>i\<close> of a plan must say about a unit with contents \<open>data\<close>.\<close>

definition entry_describes ::
  "('s \<Rightarrow> int \<Rightarrow> bytes option) \<Rightarrow> media \<times> 's \<Rightarrow> int \<Rightarrow> nat \<Rightarrow> int \<Rightarrow> int \<Rightarrow> bytes \<Rightarrow> plan_entry \<Rightarrow> store \<Rightarrow> bool" where
  "entry_describes view vs base i d u data p k \<longleftrightarrow>
     pe_ssd_id p = d \<and> pe_length p = u \<and> pe_dst_offset p = int i * u \<and>
     (if pe_flags p = FLAG_HOST_READY then block_at (i * nat u) (nat u) (ks_staging k) = data
      else pe_flags p = FLAG_DISK \<and>
        (\<exists>xs. view (snd vs) (d_chunk_id (sg_desc (vm_mgrs (fst vs) ! nat d))) = Some xs \<and>
           block_at (nat (pe_lba_offset p - base)) (nat u) xs = data))"

lemma read_buffer_iff: "read_buffer m off u \<noteq> None \<longleftrightarrow> seg_is_buffered m off"
  by (auto simp: read_buffer_def seg_is_buffered_def Let_def split: option.splits)

text \<open>Slot \<open>j\<close> of a table of slots of \<open>w\<close> bytes each, behind a header of \<open>h\<close> bytes.\<close>

lemma slot_put:
  assumes "h + Suc i * w \<le> length xs" and "length data = w"
  shows "length (put_block (h + i * w) data xs) = length xs"
    and "block_at (h + i * w) w (put_block (h + i * w) data xs) = data"
    and "j \<noteq> i \<Longrightarrow> h + Suc j * w \<le> length xs \<Longrightarrow> block_at (h + j * w) w (put_block (h + i * w) data xs) = block_at (h + j * w) w xs"
proof -
  have fit: "h + i * w + length data \<le> length xs" using assms by simp
  show "length (put_block (h + i * w) data xs) = length xs" using fit by simp
  show "block_at (h + i * w) w (put_block (h + i * w) data xs) = data" using block_at_put_same [OF fit] assms(2) by simp
  assume j: "j \<noteq> i" "h + Suc j * w \<le> length xs"
  have "Suc j * w \<le> i * w \<or> Suc i * w \<le> j * w" using j(1) by (metis Suc_leI linorder_neqE_nat mult_le_mono1)
  then show "block_at (h + j * w) w (put_block (h + i * w) data xs) = block_at (h + j * w) w xs"
    using j(2) assms(2) by (intro block_at_put_other [OF fit]) auto
qed

lemma plan_flags_ok:
  assumes "store_inv view U M (k, v, s)" and "stored (ks_table k) x" and "int (Suc i) \<le> ks_max_topk k"
  shows "\<exists>flags st. plan_flags v (dev_of v x) (slot_off (ks_table k) x) (int i * ks_unit_size k) k = (Inr flags, k\<lparr>ks_staging := st\<rparr>) \<and>
    length st = length (ks_staging k) \<and>
    (\<forall>j. j \<noteq> i \<and> int (Suc j) \<le> ks_max_topk k \<longrightarrow>
       block_at (j * nat (ks_unit_size k)) (nat (ks_unit_size k)) st = block_at (j * nat (ks_unit_size k)) (nat (ks_unit_size k)) (ks_staging k)) \<and>
    (if flags = FLAG_HOST_READY then block_at (i * nat (ks_unit_size k)) (nat (ks_unit_size k)) st = the (M x)
     else flags = FLAG_DISK \<and>
       (\<exists>xs. view s (d_chunk_id (sg_desc (vm_mgrs v ! nat (dev_of v x)))) = Some xs \<and> 0 \<le> slot_off (ks_table k) x \<and>
          block_at (nat (slot_off (ks_table k) x)) (nat (ks_unit_size k)) xs = the (M x)))"
proof -
  let ?d = "dev_of v x" and ?off = "slot_off (ks_table k) x" and ?u = "ks_unit_size k" and ?st = "ks_staging k"
  let ?w = "nat (ks_unit_size k)"
  note si = store_invD [OF assms(1)] and su = stored_unit [OF assms(1,2)]
  have sh: "vm_unit_size v = ?u" "0 < ?u" "int (length ?st) = ks_max_topk k * ?u" using si(2) by (auto simp: store_shape_def)
  have slots: "0 + Suc j * ?w \<le> length ?st" if "int (Suc j) \<le> ks_max_topk k" for j
  proof -
    have "int (Suc j) * ?u \<le> ks_max_topk k * ?u" using that sh(2) by (intro mult_right_mono) auto
    then have "int (Suc j * ?w) \<le> int (length ?st)" using sh(2,3) by (simp only: of_nat_mult) simp
    then show ?thesis by linarith
  qed
  obtain data where data: "M x = Some data" "U ?d ?off = Some data" using su(3,4) by auto
  note rd = live_item_read [OF si(1) su(2) data(2)]
  have op: "\<not> vm_closed v" using vm_open [OF si(1)] by simp
  show ?thesis
  proof (cases "read_buffer (vm_mgrs v ! nat ?d) ?off (vm_unit_size v)")
    case None
    then have "plan_flags v ?d ?off (int i * ?u) k = (Inr FLAG_DISK, k)"
      using op su(2) read_buffer_iff [of "vm_mgrs v ! nat ?d" ?off "vm_unit_size v"] by (simp add: plan_flags_def vm_is_buffered_def)
    moreover have "k = k\<lparr>ks_staging := ?st\<rparr>" by simp
    ultimately show ?thesis using rd(3) [OF None] data(1) sh(1)
      by (intro exI [of _ FLAG_DISK] exI [of _ ?st]) (auto simp: FLAG_DISK_def FLAG_HOST_READY_def)
  next
    case (Some b)
    then have b: "b = data" using rd(2) by blast
    have len: "length data = ?w" using rd(1) sh(1) by simp
    note sp = slot_put [OF slots [OF assms(3)] len, unfolded add_0]
    have ni: "nat (int i * ?u) = i * ?w" using sh(2) by (simp add: nat_mult_distrib)
    have "int (i * ?w + ?w) \<le> int (length ?st)" using slots [OF assms(3)] by (simp del: of_nat_add of_nat_mult)
    then have "py_slice_set ?st (int i * ?u) (int i * ?u + int (length data)) data = put_block (nat (int i * ?u)) data ?st"
      using len sh(2) by (intro py_slice_set_block) auto
    then have "plan_flags v ?d ?off (int i * ?u) k = (Inr FLAG_HOST_READY, k\<lparr>ks_staging := put_block (i * ?w) data ?st\<rparr>)"
      using op su(2) Some b len ni sh(2) read_buffer_iff [of "vm_mgrs v ! nat ?d" ?off "vm_unit_size v"]
      by (simp add: plan_flags_def vm_is_buffered_def vm_read_buffered_def)
    then show ?thesis using data(1) sp slots [unfolded add_0]
      by (intro exI [of _ FLAG_HOST_READY] exI [of _ "put_block (i * ?w) data ?st"]) auto
  qed
qed

definition plan_fits :: "'s umm_lib \<Rightarrow> (int \<Rightarrow> int) \<Rightarrow> store \<Rightarrow> media \<times> 's \<Rightarrow> int \<Rightarrow> int list \<Rightarrow> bool" where
  "plan_fits L base k vs l ts \<longleftrightarrow> ks_num_layers k \<le> 2 ^ 32 \<and> ks_max_topk k < 2 ^ 32 \<and>
     ks_max_topk k * ks_unit_size k < 2 ^ 64 \<and> int (length (vm_mgrs (fst vs))) \<le> 2 ^ 32 \<and>
     (\<forall>t \<in> set ts. let d = dev_of (fst vs) (l, t); a = base d + slot_off (ks_table k) (l, t) in
        extent_base L d vs = Inr (base d) \<and> 0 \<le> a \<and> a < 2 ^ 64)"

abbreviation with_plan :: "bytes \<Rightarrow> bytes \<Rightarrow> store \<Rightarrow> store" where
  "with_plan st buf k \<equiv> k\<lparr>ks_staging := st, ks_desc_buf := buf\<rparr>"

lemma store_inv_plan:
  assumes "store_inv view U M (k, v, s)" and "length st = length (ks_staging k)" and "length buf = length (ks_desc_buf k)"
  shows "store_inv view U M (with_plan st buf k, v, s)"
proof (rule store_invI)
  note si = store_invD [OF assms(1)]
  show "vm_inv view U (v, s)" by (rule si(1))
  show "store_shape (with_plan st buf k) v" using si(2) assms(2,3) by (simp add: store_shape_def)
  show "ks_cache (with_plan st buf k) \<subseteq>\<^sub>m M" using si(3) by simp
  fix x y
  show "stored (ks_table (with_plan st buf k)) x \<Longrightarrow>
      \<exists>d. vm_locate v x = Inr d \<and> U d (slot_off (ks_table (with_plan st buf k)) x) = M x \<and> M x \<noteq> None" using si(4) by simp
  show "\<not> stored (ks_table (with_plan st buf k)) x \<Longrightarrow> M x = None" using si(5) by simp
  show "stored (ks_table (with_plan st buf k)) x \<Longrightarrow> stored (ks_table (with_plan st buf k)) y \<Longrightarrow> vm_locate v x = vm_locate v y \<Longrightarrow>
      slot_off (ks_table (with_plan st buf k)) x = slot_off (ks_table (with_plan st buf k)) y \<Longrightarrow> x = y" using si(6) by simp
qed

lemma desc_slots: "store_shape k v \<Longrightarrow> int (Suc j) \<le> ks_max_topk k \<Longrightarrow> HEADER_SIZE + Suc j * ENTRY_SIZE \<le> length (ks_desc_buf k)"
proof -
  assume s: "store_shape k v" and j: "int (Suc j) \<le> ks_max_topk k"
  have "Suc j * ENTRY_SIZE \<le> nat (ks_max_topk k) * ENTRY_SIZE" using j by (intro mult_right_mono) auto
  then show ?thesis using s by (simp add: store_shape_def mult.commute)
qed

text \<open>One item of the loop: entry \<open>i\<close> now describes the unit, the other entries are untouched.\<close>

lemma plan_item_ok:
  assumes "store_inv view U M (k, v, s)" and "t = ts ! i" and "i < length ts" and "stored (ks_table k) (l, t)"
    and "int (length ts) \<le> ks_max_topk k" and "plan_fits L base k (v, s) l ts"
  shows "\<exists>st buf. plan_item L (v, s) (map (\<lambda>t. dev_of v (l, t)) ts) i (tb_entry (ks_table k) l t) k = (Inr (), with_plan st buf k) \<and>
    length st = length (ks_staging k) \<and> length buf = length (ks_desc_buf k) \<and>
    (\<forall>j. j \<noteq> i \<and> j < length ts \<longrightarrow>
       block_at (j * nat (ks_unit_size k)) (nat (ks_unit_size k)) st = block_at (j * nat (ks_unit_size k)) (nat (ks_unit_size k)) (ks_staging k) \<and>
       block_at (HEADER_SIZE + j * ENTRY_SIZE) ENTRY_SIZE buf = block_at (HEADER_SIZE + j * ENTRY_SIZE) ENTRY_SIZE (ks_desc_buf k)) \<and>
    entry_describes view (v, s) (base (dev_of v (l, t))) i (dev_of v (l, t)) (ks_unit_size k) (the (M (l, t)))
      (unpack_entry_struct (block_at (HEADER_SIZE + i * ENTRY_SIZE) ENTRY_SIZE buf)) (with_plan st buf k)"
proof -
  let ?x = "(l, t)" and ?d = "dev_of v (l, t)" and ?u = "ks_unit_size k" and ?off = "slot_off (ks_table k) (l, t)"
  let ?ds = "map (\<lambda>t. dev_of v (l, t)) ts"
  have sh: "store_shape k v" by (rule store_invD(2) [OF assms(1)])
  have i: "int (Suc i) \<le> ks_max_topk k" using assms(3,5) by simp
  from plan_flags_ok [OF assms(1,4) i] obtain flags st where
    fl: "plan_flags v ?d ?off (int i * ?u) k = (Inr flags, k\<lparr>ks_staging := st\<rparr>)" and st: "length st = length (ks_staging k)"
      "\<forall>j. j \<noteq> i \<and> int (Suc j) \<le> ks_max_topk k \<longrightarrow>
        block_at (j * nat ?u) (nat ?u) st = block_at (j * nat ?u) (nat ?u) (ks_staging k)" and
      fd: "if flags = FLAG_HOST_READY then block_at (i * nat ?u) (nat ?u) st = the (M ?x)
       else flags = FLAG_DISK \<and> (\<exists>xs. view s (d_chunk_id (sg_desc (vm_mgrs v ! nat ?d))) = Some xs \<and> 0 \<le> ?off \<and>
          block_at (nat ?off) (nat ?u) xs = the (M ?x))" by (elim exE conjE) (rule that)
  have ts: "t \<in> set ts" using assms(2,3) by simp
  have eb: "extent_base L ?d (v, s) = Inr (base ?d)" "0 \<le> base ?d + ?off" "base ?d + ?off < 2 ^ 64"
    using assms(6) ts by (auto simp: plan_fits_def Let_def)
  let ?p = "\<lparr>pe_ssd_id = ?d, pe_flags = flags, pe_lba_offset = base ?d + ?off, pe_length = ?u, pe_dst_offset = int i * ?u\<rparr>"
  have u: "0 < ?u" using sh by (simp add: store_shape_def)
  have "(int i + 1) * ?u \<le> ks_max_topk k * ?u" using i u by (intro mult_right_mono) auto
  moreover have "ks_max_topk k * ?u < 2 ^ 64" using assms(6) unfolding plan_fits_def by blast
  ultimately have du: "int i * ?u + ?u < 2 ^ 64" "0 \<le> int i * ?u" using u by (simp_all add: distrib_right)
  have d: "0 \<le> ?d" "?d < 2 ^ 32"
    using stored_unit(2) [OF assms(1,4)] assms(6) by (auto simp: check_device_def plan_fits_def)
  have "flags = 0 \<or> flags = 1" using fd by (auto simp: FLAG_DISK_def FLAG_HOST_READY_def split: if_splits)
  moreover have "?u < 2 ^ 64" "int i * ?u < 2 ^ 64" using du u by linarith+
  ultimately have "entry_fits ?p" using d eb du(2) u by (auto simp: entry_fits_def)
  from pack_entry_struct_ok [OF this] obtain bs where
    bs: "pack_entry_struct ?p = Inr bs" "length bs = ENTRY_SIZE" "unpack_entry_struct bs = ?p" by blast
  note sp = slot_put [OF desc_slots [OF sh i] bs(2)]
  let ?buf = "put_block (HEADER_SIZE + i * ENTRY_SIZE) bs (ks_desc_buf k)"
  have pk: "pack_into (Inr bs) (HEADER_SIZE + i * ENTRY_SIZE) (ks_desc_buf k) = Inr ?buf"
    using desc_slots [OF sh i] bs(2) by (simp add: pack_into_def)
  have off: "entry_offset (tb_entry (ks_table k) l t) = ?off" by (simp add: slot_off_def)
  have "py_nth ?ds (int i) = Inr ?d" using assms(2,3) by (simp add: py_nth_nonneg)
  moreover have "entry_valid (tb_entry (ks_table k) l t)" using assms(4) by (simp add: stored_def)
  ultimately have "plan_item L (v, s) ?ds i (tb_entry (ks_table k) l t) k = (Inr (), with_plan st ?buf k)"
    using fl eb(1) bs(1) pk by (simp add: plan_item_def Let_def off)
  moreover have "entry_describes view (v, s) (base ?d) i ?d ?u (the (M ?x)) ?p (with_plan st ?buf k)"
    using fd by (auto simp: entry_describes_def split: if_splits)
  moreover have "\<forall>j. j \<noteq> i \<and> j < length ts \<longrightarrow>
       block_at (j * nat ?u) (nat ?u) st = block_at (j * nat ?u) (nat ?u) (ks_staging k) \<and>
       block_at (HEADER_SIZE + j * ENTRY_SIZE) ENTRY_SIZE ?buf = block_at (HEADER_SIZE + j * ENTRY_SIZE) ENTRY_SIZE (ks_desc_buf k)"
    using st(2) sp(3) desc_slots [OF sh] assms(5) by auto
  ultimately show ?thesis using st(1) sp(1,2) bs(3) by (intro exI [of _ st] exI [of _ ?buf]) simp
qed

lemma entry_describes_frame:
  assumes "entry_describes view vs base i d u data p k"
    and "block_at (i * nat u) (nat u) (ks_staging k') = block_at (i * nat u) (nat u) (ks_staging k)"
  shows "entry_describes view vs base i d u data p k'"
  using assms by (auto simp: entry_describes_def split: if_splits)

lemma plan_items_ok:
  assumes "store_inv view U M (k, v, s)" and "\<forall>t \<in> set ts. stored (ks_table k) (l, t)"
    and "int (length ts) \<le> ks_max_topk k" and "plan_fits L base k (v, s) l ts" and "n \<le> length ts"
  shows "\<exists>st buf. for_each (\<lambda>i. plan_item L (v, s) (map (\<lambda>t. dev_of v (l, t)) ts) i (map (tb_entry (ks_table k) l) ts ! i)) [0..<n] k =
      (Inr (), with_plan st buf k) \<and> length st = length (ks_staging k) \<and> length buf = length (ks_desc_buf k) \<and>
    (\<forall>i < n. entry_describes view (v, s) (base (dev_of v (l, ts ! i))) i (dev_of v (l, ts ! i)) (ks_unit_size k) (the (M (l, ts ! i)))
      (unpack_entry_struct (block_at (HEADER_SIZE + i * ENTRY_SIZE) ENTRY_SIZE buf)) (with_plan st buf k))"
  using assms(5)
proof (induction n)
  case 0
  show ?case by (intro exI [of _ "ks_staging k"] exI [of _ "ks_desc_buf k"]) simp
next
  case (Suc n)
  let ?f = "\<lambda>i. plan_item L (v, s) (map (\<lambda>t. dev_of v (l, t)) ts) i (map (tb_entry (ks_table k) l) ts ! i)"
  let ?E = "\<lambda>i buf. unpack_entry_struct (block_at (HEADER_SIZE + i * ENTRY_SIZE) ENTRY_SIZE buf)"
  have n: "n < length ts" using Suc.prems by simp
  obtain st buf where st: "for_each ?f [0..<n] k = (Inr (), with_plan st buf k)" "length st = length (ks_staging k)"
    "length buf = length (ks_desc_buf k)"
    "\<forall>i < n. entry_describes view (v, s) (base (dev_of v (l, ts ! i))) i (dev_of v (l, ts ! i)) (ks_unit_size k) (the (M (l, ts ! i)))
      (?E i buf) (with_plan st buf k)" using Suc by auto
  let ?k = "with_plan st buf k"
  have inv: "store_inv view U M (?k, v, s)" by (rule store_inv_plan [OF assms(1) st(2,3)])
  have fits: "plan_fits L base ?k (v, s) l ts" using assms(4) by (simp add: plan_fits_def)
  have sn: "stored (ks_table ?k) (l, ts ! n)" "int (length ts) \<le> ks_max_topk ?k" using assms(2,3) n by simp_all
  from plan_item_ok [OF inv refl n sn fits] obtain st' buf' where
    pi: "plan_item L (v, s) (map (\<lambda>t. dev_of v (l, t)) ts) n (tb_entry (ks_table ?k) l (ts ! n)) ?k = (Inr (), with_plan st' buf' ?k)"
      "length st' = length (ks_staging ?k)" "length buf' = length (ks_desc_buf ?k)"
      "\<forall>j. j \<noteq> n \<and> j < length ts \<longrightarrow>
       block_at (j * nat (ks_unit_size ?k)) (nat (ks_unit_size ?k)) st' = block_at (j * nat (ks_unit_size ?k)) (nat (ks_unit_size ?k)) (ks_staging ?k) \<and>
       block_at (HEADER_SIZE + j * ENTRY_SIZE) ENTRY_SIZE buf' = block_at (HEADER_SIZE + j * ENTRY_SIZE) ENTRY_SIZE (ks_desc_buf ?k)"
      "entry_describes view (v, s) (base (dev_of v (l, ts ! n))) n (dev_of v (l, ts ! n)) (ks_unit_size ?k) (the (M (l, ts ! n)))
      (?E n buf') (with_plan st' buf' ?k)" by (elim exE conjE) (rule that)
  have kk: "with_plan st' buf' ?k = with_plan st' buf' k" by simp
  have "for_each ?f [0..<Suc n] k = (Inr (), with_plan st' buf' k)" using st(1) pi(1) n kk by (simp add: for_each_append)
  moreover have "entry_describes view (v, s) (base (dev_of v (l, ts ! i))) i (dev_of v (l, ts ! i)) (ks_unit_size k) (the (M (l, ts ! i)))
      (?E i buf') (with_plan st' buf' k)" if "i < Suc n" for i
  proof (cases "i = n")
    case True
    then show ?thesis using pi(5) kk by simp
  next
    case False
    then have i: "i < n" using that by simp
    with n pi(4) False have "block_at (HEADER_SIZE + i * ENTRY_SIZE) ENTRY_SIZE buf' = block_at (HEADER_SIZE + i * ENTRY_SIZE) ENTRY_SIZE buf"
      "block_at (i * nat (ks_unit_size k)) (nat (ks_unit_size k)) st' = block_at (i * nat (ks_unit_size k)) (nat (ks_unit_size k)) st" by auto
    then show ?thesis using st(4) i by (auto intro: entry_describes_frame [of _ _ _ _ _ _ _ _ ?k])
  qed
  ultimately show ?case using pi(2,3) st(2,3) by (intro exI [of _ st'] exI [of _ buf']) simp
qed

lemma plan_ok:
  assumes "store_inv view U M (k, v, s)" and "in_table k l ts" and "\<forall>t \<in> set ts. M (l, t) \<noteq> None"
    and "int (length ts) \<le> ks_max_topk k" and "plan_fits L base k (v, s) l ts"
  shows "\<exists>pv st buf. plan L l ts (v, s) k = (Inr pv, with_plan st buf k) \<and> length st = length (ks_staging k) \<and>
    length buf = length (ks_desc_buf k) \<and> pv_count pv = int (length ts) \<and> pv_layer_id pv = l \<and>
    (\<forall>i < length ts. \<exists>p. pv_entry pv (int i) = Inr p \<and>
      entry_describes view (v, s) (base (dev_of v (l, ts ! i))) i (dev_of v (l, ts ! i)) (ks_unit_size k) (the (M (l, ts ! i))) p (with_plan st buf k))"
proof -
  let ?E = "\<lambda>i buf. block_at (HEADER_SIZE + i * ENTRY_SIZE) ENTRY_SIZE buf"
  note sh = store_invD(2) [OF assms(1)]
  have st: "\<forall>t \<in> set ts. stored (ks_table k) (l, t)" using assms(3) store_inv_stored [OF assms(1)] by blast
  from plan_items_ok [OF assms(1) st assms(4,5) order_refl] obtain st' buf where
    it: "for_each (\<lambda>i. plan_item L (v, s) (map (\<lambda>t. dev_of v (l, t)) ts) i (map (tb_entry (ks_table k) l) ts ! i)) [0..<length ts] k =
      (Inr (), with_plan st' buf k)" "length st' = length (ks_staging k)" "length buf = length (ks_desc_buf k)"
    "\<forall>i < length ts. entry_describes view (v, s) (base (dev_of v (l, ts ! i))) i (dev_of v (l, ts ! i)) (ks_unit_size k) (the (M (l, ts ! i)))
      (unpack_entry_struct (?E i buf)) (with_plan st' buf k)" by (elim exE conjE) (rule that)
  let ?fs = "[(4, int (length ts)), (4, l), (8, 0)]"
  let ?h = "concat (map (\<lambda>(n, x). le_bytes n x) ?fs)"
  have "int (length ts) < 2 ^ 32" "0 \<le> l" "l < 2 ^ 32" using assms(2,4,5) by (auto simp: plan_fits_def in_table_def)
  then have pf: "pack_fields ?fs = Inr ?h" by (intro pack_fields_ok) auto
  have hl: "length ?h = HEADER_SIZE" by (simp add: HEADER_SIZE_def)
  have fit: "0 + length ?h \<le> length buf" using sh it(3) hl by (simp add: store_shape_def)
  let ?buf = "put_block 0 ?h buf"
  let ?pv = "\<lparr>pv_buf = ?buf, pv_count = int (length ts), pv_layer_id = l, pv_max_topk = ks_max_topk k, pv_unit_size = ks_unit_size k\<rparr>"
  have keep: "?E i ?buf = ?E i buf" if "i < length ts" for i
  proof (rule block_at_put_other [OF fit])
    have "HEADER_SIZE + Suc i * ENTRY_SIZE \<le> length (ks_desc_buf k)" using desc_slots [OF sh] that assms(4) by simp
    then show "HEADER_SIZE + i * ENTRY_SIZE + ENTRY_SIZE \<le> length buf" using it(3) by simp
    show "HEADER_SIZE + i * ENTRY_SIZE + ENTRY_SIZE \<le> 0 \<or> 0 + length ?h \<le> HEADER_SIZE + i * ENTRY_SIZE" using hl by linarith
  qed
  have "pack_into (pack_fields ?fs) 0 buf = Inr ?buf" using pf fit by (simp add: pack_into_def)
  then have "plan L l ts (v, s) k = (Inr ?pv, with_plan st' ?buf k)"
    using assms(4) locate_batch_stored [OF assms(1) st] gather_in_table [OF sh assms(2)] it(1) by (simp add: plan_def)
  moreover have "\<exists>p. pv_entry ?pv (int i) = Inr p \<and>
      entry_describes view (v, s) (base (dev_of v (l, ts ! i))) i (dev_of v (l, ts ! i)) (ks_unit_size k) (the (M (l, ts ! i))) p (with_plan st' ?buf k)"
    if "i < length ts" for i
    using that it(4) keep [OF that] by (auto simp: pv_entry_def intro: entry_describes_frame [of _ _ _ _ _ _ _ _ "with_plan st' buf k"])
  moreover have "length ?buf = length (ks_desc_buf k)" using length_put_block [OF fit] it(3) by simp
  ultimately show ?thesis using it(2) by (intro exI [of _ ?pv] exI [of _ st'] exI [of _ ?buf]) simp
qed

subsection \<open>Operations, their contracts and their abstract meaning\<close>

datatype kv_op =
    Offload "kv_block list"
  | Flush
  | Prefetch int "int list"
  | Plan int "int list"
  | Release int "int list"

definition run_op :: "'s umm_lib \<Rightarrow> scheduler \<Rightarrow> kv_op \<Rightarrow> 's kv_state \<Rightarrow> (unit, 's kv_state) outcome" where
  "run_op L sched op x =
     (let (k, v, s) = x in
      case op of
        Offload blocks \<Rightarrow> offload L blocks x
      | Flush \<Rightarrow> ks_flush L x
      | Prefetch l ts \<Rightarrow> prefetch L sched l ts x
      | Plan l ts \<Rightarrow>
          (case plan L l ts (v, s) k of (r, k') \<Rightarrow> ((case r of Inl e \<Rightarrow> Inl e | Inr _ \<Rightarrow> Inr ()), (k', v, s)))
      | Release l ts \<Rightarrow> (case ks_release l ts (k, v) of (r, (k', v')) \<Rightarrow> (r, (k', v', s))))"

text \<open>What the caller owes: a token is offloaded once until it is released, and plans and prefetches name tokens of the table.\<close>

definition occupied :: "store \<Rightarrow> kv_map" where
  "occupied k x = (if stored (ks_table k) x then Some [] else None)"

definition op_pre :: "'s umm_lib \<Rightarrow> (int \<Rightarrow> int) \<Rightarrow> kv_op \<Rightarrow> 's kv_state \<Rightarrow> bool" where
  "op_pre L base op x =
     (let (k, v, s) = x in
      case op of
        Offload blocks \<Rightarrow> fresh_blocks (ks_unit_size k) (occupied k) blocks
      | Flush \<Rightarrow> True
      | Prefetch l ts \<Rightarrow> in_table k l ts
      | Plan l ts \<Rightarrow> in_table k l ts \<and> int (length ts) \<le> ks_max_topk k \<and> plan_fits L base k (v, s) l ts \<and>
          (\<forall>t \<in> set ts. stored (ks_table k) (l, t))
      | Release l ts \<Rightarrow> True)"

definition op_spec :: "int \<Rightarrow> kv_op \<Rightarrow> kv_map \<Rightarrow> unit result \<Rightarrow> kv_map \<Rightarrow> bool" where
  "op_spec u op M r M' \<longleftrightarrow>
     (case op of
        Offload blocks \<Rightarrow>
          (case r of Inr _ \<Rightarrow> M' = spec_offload u blocks M
           | Inl e \<Rightarrow> M \<subseteq>\<^sub>m M' \<and> M' \<subseteq>\<^sub>m spec_offload u blocks M)
      | Flush \<Rightarrow> r = Inr () \<and> M' = M
      | Prefetch l ts \<Rightarrow> M' = M \<and> (r = Inr () \<longleftrightarrow> (\<forall>t \<in> set ts. M (l, t) \<noteq> None))
      | Plan l ts \<Rightarrow> r = Inr () \<and> M' = M
      | Release l ts \<Rightarrow> (\<exists>us ws. ts = us @ ws \<and> M' = spec_release l us M \<and> (ws = [] \<longleftrightarrow> r = Inr ())))"

lemma fresh_blocks_dom: "dom M = dom M' \<Longrightarrow> fresh_blocks u M bs = fresh_blocks u M' bs"
proof (induction bs arbitrary: M M')
  case (Cons b bs)
  have "dom (spec_block u b n M) = dom (spec_block u b n M')" for n using Cons.prems by (induction n) (simp_all add: spec_block_Suc)
  note IH = Cons.IH [OF this]
  have "M x = None \<longleftrightarrow> M' x = None" for x using Cons.prems by (metis domIff)
  then show ?case using IH [of "nat (kb_token_count b)"] by simp
qed simp

lemma occupied_dom: "store_rel view M (k, v, s) \<Longrightarrow> dom (occupied k) = dom M"
proof -
  assume "store_rel view M (k, v, s)"
  then obtain U where "store_inv view U M (k, v, s)" by (auto simp: store_rel_def)
  from store_inv_stored [OF this] show ?thesis by (auto simp: occupied_def dom_def split: if_splits)
qed

context chunk_store
begin

lemma run_op_refines:
  assumes "store_rel view M (k, v, s)" and "inv s" and "fair sched" and "op_pre L base op (k, v, s)"
    and "run_op L sched op (k, v, s) = (r, (k', v', s'))"
  shows "inv s' \<and> same_store (k, v, s) (k', v', s') \<and> (\<exists>M'. op_spec (ks_unit_size k) op M r M' \<and> store_rel view M' (k', v', s'))"
proof (cases op)
  case (Offload blocks)
  have "fresh_blocks (ks_unit_size k) M blocks"
    using assms(4) Offload fresh_blocks_dom [OF occupied_dom [OF assms(1)]] by (simp add: op_pre_def)
  from offload_ok [OF assms(1,2) this] assms(5) Offload show ?thesis by (auto simp: run_op_def op_spec_def split: sum.splits)
next
  case Flush
  then show ?thesis using ks_flush_ok [OF assms(1,2)] assms(5) by (auto simp: run_op_def op_spec_def)
next
  case (Prefetch l ts)
  from prefetch_ok [OF assms(1-3), of l ts] assms(4,5) Prefetch show ?thesis
    by (auto simp: run_op_def op_spec_def op_pre_def)
next
  case (Plan l ts)
  obtain U where U: "store_inv view U M (k, v, s)" using assms(1) by (auto simp: store_rel_def)
  have pre: "in_table k l ts" "int (length ts) \<le> ks_max_topk k" "plan_fits L base k (v, s) l ts" "\<forall>t \<in> set ts. M (l, t) \<noteq> None"
    using assms(4) Plan store_inv_stored [OF U] by (simp_all add: op_pre_def)
  from plan_ok [OF U pre(1,4,2,3)] obtain pv st buf where
    p: "plan L l ts (v, s) k = (Inr pv, with_plan st buf k)" "length st = length (ks_staging k)" "length buf = length (ks_desc_buf k)"
    by (elim exE conjE) (rule that)
  have "r = Inr ()" "k' = with_plan st buf k" "v' = v" "s' = s" using assms(5) Plan p(1) by (auto simp: run_op_def)
  then show ?thesis using store_inv_plan [OF U p(2,3)] assms(2) Plan by (auto simp: op_spec_def store_rel_def same_store_def)
next
  case (Release l ts)
  obtain r1 k1 v1 where rl: "ks_release l ts (k, v) = (r1, (k1, v1))" by (metis prod.exhaust)
  from ks_release_ok [OF assms(1) rl] obtain us ws where
    w: "same_store (k, v, s) (k1, v1, s)" "ts = us @ ws" "store_rel view (spec_release l us M) (k1, v1, s)"
      "if ws = [] then r1 = Inr () else r1 = Inl ValueError \<and> \<not> tb_check (ks_table k) l (hd ws)" by blast
  have res: "r = r1" "k' = k1" "v' = v1" "s' = s" using assms(5) Release rl by (auto simp: run_op_def)
  have "op_spec (ks_unit_size k) op M r (spec_release l us M)"
    using w(2,4) res(1) Release by (auto simp: op_spec_def split: if_splits)
  then show ?thesis using w res assms(2) by blast
qed

end

text \<open>Runs of operations, with the result of each, and the matching runs of the specification.\<close>

inductive kv_run :: "'s umm_lib \<Rightarrow> (int \<Rightarrow> int) \<Rightarrow> 's kv_state \<Rightarrow> (kv_op \<times> unit result) list \<Rightarrow> 's kv_state \<Rightarrow> bool" for L base x0 where
  start: "kv_run L base x0 [] x0"
| step: "\<lbrakk>kv_run L base x0 tr x; fair sched; op_pre L base op x; run_op L sched op x = (r, x')\<rbrakk> \<Longrightarrow> kv_run L base x0 (tr @ [(op, r)]) x'"

inductive spec_run :: "int \<Rightarrow> (kv_op \<times> unit result) list \<Rightarrow> kv_map \<Rightarrow> bool" for u where
  start: "spec_run u [] Map.empty"
| step: "\<lbrakk>spec_run u tr M; op_spec u op M r M'\<rbrakk> \<Longrightarrow> spec_run u (tr @ [(op, r)]) M'"

lemma new_store_rel:
  assumes "vm_inv view U (v, s)" and "batch_ok (vm_strategy v)" and "0 < vm_unit_size v" and "SparseKVStore v n m topk = Inr k"
  shows "store_rel view Map.empty (k, v, s)"
proof -
  obtain tb where tb: "SlotTable n m = Inr tb" and topk: "0 < topk"
    and k: "k = \<lparr>ks_num_layers = n, ks_max_tokens = m, ks_max_topk = topk,
            ks_unit_size = vm_unit_size v, ks_table = tb, ks_cache = Map.empty, ks_closed = False,
            ks_desc_buf = replicate (HEADER_SIZE + ENTRY_SIZE * nat topk) 0,
            ks_staging = replicate (nat (topk * vm_unit_size v)) 0\<rparr>"
    using assms(4) by (auto simp: SparseKVStore_def split: if_splits sum.splits)
  note to = SlotTable_ok [OF tb]
  then have none: "\<not> stored tb x" for x by (auto simp: stored_def)
  have "store_inv view U Map.empty (k, v, s)"
    by (rule store_invI) (use assms(1-3) to none topk in \<open>auto simp: k store_shape_def\<close>)
  then show ?thesis by (auto simp: store_rel_def)
qed

context chunk_store
begin

lemma kv_run_refines:
  assumes "kv_run L base (k0, v0, s0) tr x" and "store_rel view Map.empty (k0, v0, s0)" and "inv s0"
  shows "\<exists>M. spec_run (ks_unit_size k0) tr M \<and> store_rel view M x \<and> inv (snd (snd x)) \<and> same_store (k0, v0, s0) x"
  using assms
proof (induction rule: kv_run.induct)
  case start
  then show ?case using spec_run.start [of "ks_unit_size k0"] by auto
next
  case (step tr x sched op r x')
  obtain k v s where x: "x = (k, v, s)" by (cases x) auto
  obtain k' v' s' where x': "x' = (k', v', s')" by (cases x') auto
  from step obtain M where M: "spec_run (ks_unit_size k0) tr M" "store_rel view M (k, v, s)" "inv s" "same_store (k0, v0, s0) (k, v, s)"
    unfolding x by auto
  have u: "ks_unit_size k = ks_unit_size k0" using M(4) by (simp add: same_store_def)
  from run_op_refines [OF M(2,3) step.hyps(2) step.hyps(3) [unfolded x] step.hyps(4) [unfolded x x']] obtain M' where
    M': "inv s'" "same_store (k, v, s) (k', v', s')" "op_spec (ks_unit_size k0) op M r M'" "store_rel view M' (k', v', s')" unfolding u by blast
  show ?case unfolding x' using spec_run.step [OF M(1) M'(3)] M' same_store_trans [OF M(4) M'(2)] by auto
qed

end

subsection \<open>From construction to a running store\<close>

lemma open_devices_unit:
  assumes "open_devices L a sp ov ds ms s = (None, ms', s')" and "ds \<noteq> []"
  shows "0 < ma_unit_size a"
proof -
  obtain d ds' where ds: "ds = d # ds'" using assms(2) by (cases ds) auto
  obtain m s1 where od: "open_device L a sp ov d s = (Inr m, s1)"
    using assms(1) ds by (cases "open_device L a sp ov d s"; cases "fst (open_device L a sp ov d s)") auto
  then obtain desc where "DeviceSegmentManager_init desc d (override_for ov d sp) (ma_unit_size a) = Inr m"
    by (auto simp: open_device_def rbind_def split: sum.splits prod.splits)
  then show ?thesis by (auto simp: DeviceSegmentManager_init_def check_segment_geometry_def split: if_splits)
qed

lemma init_unit_positive:
  assumes "VirtualMedia_init L reg file a s = (Inr v, s')"
  shows "0 < vm_unit_size v"
proof -
  obtain topo cfg ds sp ov st s1 where p: "media_plan reg cfg a topo = Inr (ds, sp, ov, st)" "media_open L a ds sp ov st s1 = (Inr v, s')"
    using assms by (auto simp: VirtualMedia_init_def rbind_def split: if_splits sum.splits)
  have ds: "ds \<noteq> []" using p(1) by (auto simp: media_plan_def split: sum.splits if_splits)
  obtain ms s2 where "open_devices L a sp ov ds [] s1 = (None, ms, s2)" "vm_unit_size v = ma_unit_size a"
    using p(2) by (auto simp: media_open_def split: prod.splits option.splits sum.splits)
  then show ?thesis using open_devices_unit ds by metis
qed

text \<open>The strategies of the built-in registry compute a batch as the single lookups do.\<close>

lemma position_hash_batch_ok: "ph_ok p \<Longrightarrow> batch_ok (position_hash_strategy p)"
  using ph.batch_agrees by (simp add: batch_ok_def)

lemma store_started:
  assumes "chunk_store L view good room" and "good sb" and "registry_ok reg"
    and "strategy_arg_ok (ma_strategy a)" and "capacity_ok (ma_capacity a)"
    and "\<And>topo s1 ds. lib_get_topology L sb = (Inr topo, s1) \<Longrightarrow> list_ssd_devices topo = Inr ds \<Longrightarrow> room sb (length ds)"
    and "VirtualMedia_init L reg file a sb = (Inr v0, s0)" and "batch_ok (vm_strategy v0)"
    and "SparseKVStore v0 n m topk = Inr k0" and "kv_run L base (k0, v0, s0) tr (k, v, s)"
  shows "\<exists>M. spec_run (vm_unit_size v0) tr M \<and> store_rel view M (k, v, s) \<and> good s \<and> same_store (k0, v0, s0) (k, v, s)"
proof -
  have i: "good s0 \<and> vm_inv view (\<lambda>_. Map.empty) (v0, s0)"
    using chunk_store.media_init_ok [OF assms(1-5) _ assms(7)] assms(6) by auto
  have "store_rel view Map.empty (k0, v0, s0)"
    by (rule new_store_rel [OF conjunct2 [OF i] assms(8) init_unit_positive [OF assms(7)] assms(9)])
  from chunk_store.kv_run_refines [OF assms(1,10) this] i
  have "\<exists>M. spec_run (ks_unit_size k0) tr M \<and> store_rel view M (k, v, s) \<and> good s \<and> same_store (k0, v0, s0) (k, v, s)" by simp
  moreover have "ks_unit_size k0 = vm_unit_size v0" using assms(9) by (auto simp: SparseKVStore_def split: if_splits sum.splits)
  ultimately show ?thesis by simp
qed

subsection \<open>A small store\<close>

definition demo_store :: store where
  "demo_store = \<lparr>ks_num_layers = 1, ks_max_tokens = 2, ks_max_topk = 2, ks_unit_size = 4096,
     ks_table = \<lparr>tb_num_layers = 1, tb_max_tokens = 2, tb_layers = [[0, 0]]\<rparr>, ks_cache = Map.empty, ks_closed = False,
     ks_desc_buf = replicate 80 0, ks_staging = replicate 8192 0\<rparr>"

definition demo_store2 :: store where
  "demo_store2 = demo_store\<lparr>ks_table := \<lparr>tb_num_layers = 1, tb_max_tokens = 2, tb_layers = [[1, 268435457]]\<rparr>\<rparr>"

definition demo_block :: kv_block where
  "demo_block = \<lparr>kb_layer_id = 0, kb_block_idx = 0, kb_token_start = 0, kb_token_count = 2, kb_buffer = demo_unit @ demo_unit\<rparr>"

lemma demo_store_init: "SparseKVStore (demo_media demo_mgr) 1 2 2 = Inr demo_store"
  by (simp add: SparseKVStore_def SlotTable_def demo_store_def demo_media_def HEADER_SIZE_def ENTRY_SIZE_def numeral_eq_Suc)

lemma demo_batch_ok: "batch_ok (vm_strategy (demo_media demo_mgr))"
proof -
  have "map_result (st_locate demo_strategy) ks = Inr ds \<Longrightarrow> st_locate_batch demo_strategy ks = Inr ds" for ks ds
  proof (induction ks arbitrary: ds)
    case (Cons k ks)
    then show ?case
      by (auto simp: demo_locate demo_strategy_def position_hash_strategy_def ph_locate_batch_def ph_locate_def split: if_splits sum.splits)
  qed (simp add: demo_strategy_def position_hash_strategy_def ph_locate_batch_def)
  then show ?thesis by (simp add: batch_ok_def demo_media_def)
qed

lemma demo_block_units:
  "block_unit demo_store demo_block 0 = demo_unit" "block_unit demo_store demo_block (Suc 0) = demo_unit"
proof -
  have u: "ks_unit_size demo_store = 4096" "kb_buffer demo_block = demo_unit @ demo_unit" by (simp_all add: demo_store_def demo_block_def)
  show "block_unit demo_store demo_block 0 = demo_unit"
    using py_slice_prefix [of 4096 "demo_unit @ demo_unit"] u by (simp add: block_unit_def)
  show "block_unit demo_store demo_block (Suc 0) = demo_unit"
    using py_slice_inside [of 4096 4096 "demo_unit @ demo_unit"] u by (simp add: block_unit_def)
qed

lemma demo_offload:
  "\<exists>s. offload FakeUMMLib [demo_block] (demo_store, demo_media demo_mgr, demo_ssd) = (Inr (), (demo_store2, demo_media demo_mgr2, s))"
proof -
  obtain s where w: "vm_write FakeUMMLib (0, 1) demo_unit (demo_media demo_mgr1, demo_ssd) = (Inr 4096, (demo_media demo_mgr2, s))"
    using demo_write2 by blast
  let ?k1 = "demo_store\<lparr>ks_table := \<lparr>tb_num_layers = 1, tb_max_tokens = 2, tb_layers = [[1, 0]]\<rparr>\<rparr>"
  have "tb_set 0 0 0 FLAG_VALID (ks_table demo_store) = (Inr (), ks_table ?k1)"
    "tb_set 0 1 4096 FLAG_VALID (ks_table ?k1) = (Inr (), ks_table demo_store2)"
    by (simp_all add: demo_store_def demo_store2_def tb_set_def tb_check_def pack_entry_def OFFSET_SHIFT_def FLAG_VALID_def tb_store_def
      py_nth_def py_index_def py_set_def push_bit_eq_mult)
  then have "offload_unit FakeUMMLib 0 0 demo_unit (demo_store, demo_media demo_mgr, demo_ssd) = (Inr (), (?k1, demo_media demo_mgr1, demo_ssd))"
    "offload_unit FakeUMMLib 0 1 demo_unit (?k1, demo_media demo_mgr1, demo_ssd) = (Inr (), (demo_store2, demo_media demo_mgr2, s))"
    using demo_write1 w by (simp_all add: offload_unit_def) (simp add: demo_store2_def)
  moreover have "check_block demo_store demo_block" by (simp add: check_block_def demo_store_def demo_block_def)
  moreover have "[0..<nat (kb_token_count demo_block)] = [0, Suc 0]" "kb_layer_id demo_block = 0" "kb_token_start demo_block = 0"
    by (simp_all add: demo_block_def numeral_eq_Suc)
  ultimately show ?thesis using demo_block_units by (auto simp: offload_def offload_block_def)
qed

lemma demo_kv_run:
  "\<exists>s. kv_run FakeUMMLib (\<lambda>_. 0) (demo_store, demo_media demo_mgr, demo_ssd) [(Offload [demo_block], Inr ())] (demo_store2, demo_media demo_mgr2, s)"
proof -
  obtain s where o: "offload FakeUMMLib [demo_block] (demo_store, demo_media demo_mgr, demo_ssd) = (Inr (), (demo_store2, demo_media demo_mgr2, s))"
    using demo_offload by blast
  have "occupied demo_store x = None" for x
    by (auto simp: occupied_def stored_def demo_store_def tb_check_def tb_entry_def nth_Cons')
  then have "op_pre FakeUMMLib (\<lambda>_. 0) (Offload [demo_block]) (demo_store, demo_media demo_mgr, demo_ssd)" by (simp add: op_pre_def)
  moreover have "run_op FakeUMMLib id (Offload [demo_block]) (demo_store, demo_media demo_mgr, demo_ssd) = (Inr (), (demo_store2, demo_media demo_mgr2, s))"
    using o by (simp add: run_op_def)
  moreover have "fair id" by (simp add: fair_def)
  ultimately show ?thesis using kv_run.step [OF kv_run.start] by fastforce
qed

subsection \<open>Properties\<close>


lemmas demo_kv_start = demo_media_start demo_room_devices demo_media_init demo_batch_ok demo_store_init

lemma spec_run_single: "spec_run u [(op, r)] M \<Longrightarrow> op_spec u op Map.empty r M"
proof (erule spec_run.cases)
  fix tr M0 op' r' M'
  assume "[(op, r)] = tr @ [(op', r')]" "M = M'" "spec_run u tr M0" "op_spec u op' M0 r' M'"
  moreover from this have "tr = []" "op' = op" "r' = r" by (auto simp: Cons_eq_append_conv)
  moreover have "M0 = Map.empty" using \<open>spec_run u tr M0\<close> \<open>tr = []\<close> by (auto elim: spec_run.cases)
  ultimately show "op_spec u op Map.empty r M" by simp
qed simp


text \<open>
  Fetching, in any order and with repetitions, tokens of a block that \<open>offload\<close> has just accepted
  returns exactly the block's units, with the rest of each output buffer untouched.
\<close>

theorem offload_then_fetch:
  assumes "chunk_store L view good room" and "good s" and "store_rel view M (k, v, s)" and "fair sched"
    and "\<forall>i < nat (kb_token_count b). M (kb_layer_id b, kb_token_start b + int i) = None"
    and "offload L [b] (k, v, s) = (Inr (), (k', v', s'))"
    and "\<forall>i \<in> set is. i < nat (kb_token_count b)" and "is \<noteq> []"
    and "length outs = length is" and "outs_ok (ks_unit_size k) outs bs"
  shows "\<exists>bs' s''. fetch L sched (kb_layer_id b) (map (\<lambda>i. kb_token_start b + int i) is) outs k' v' (bs, s') = (Inr (), (bs', s'')) \<and>
    (\<forall>p < length is. bs' (outs ! p) = set_prefix (block_unit k b (is ! p)) (bs (outs ! p)))"
proof -
  let ?l = "kb_layer_id b" and ?st = "kb_token_start b" and ?u = "ks_unit_size k" and ?n = "nat (kb_token_count b)"
  let ?ts = "map (\<lambda>i. ?st + int i) is" and ?M = "spec_block ?u b ?n M"
  have "fresh_blocks ?u M [b]" using assms(5) by simp
  from chunk_store.offload_ok [OF assms(1,3,2) this assms(6)]
  have o: "good s'" "same_store (k, v, s) (k', v', s')" "store_rel view ?M (k', v', s')" by (auto simp: spec_offload_def)
  have u: "ks_unit_size k' = ?u" "ks_num_layers k' = ks_num_layers k" "ks_max_tokens k' = ks_max_tokens k" using o(2) by (auto simp: same_store_def)
  have cb: "check_block k b" using assms(6) by (auto simp: offload_def offload_block_def split: if_splits)
  have "?st + int i < ks_max_tokens k" if "i < ?n" for i using cb that by (auto simp: check_block_def)
  then have it: "in_table k' ?l ?ts" using cb assms(7) u by (auto simp: in_table_def check_block_def)
  have val: "?M (?l, ?st + int i) = Some (block_unit k b i)" if "i < ?n" for i
  proof -
    have "spec_block ?u b m M (?l, ?st + int i) = Some (block_unit k b i)" if "i < m" for m
      using that by (induction m) (auto simp: spec_block_Suc block_unit_def less_Suc_eq)
    then show ?thesis using that by blast
  qed
  have "\<forall>t \<in> set ?ts. ?M (?l, t) \<noteq> None" using val assms(7) by auto
  from chunk_store.fetch_ok [OF assms(1) o(3,1) assms(4) it, of outs bs, OF _ _ this] assms(9,10) u(1) obtain bs' s'' where
    "fetch L sched ?l ?ts outs k' v' (bs, s') = (Inr (), (bs', s''))"
    "filled_outs outs (\<lambda>p. the (?M (?l, ?ts ! p))) {..<length outs} bs bs'" by auto
  then show ?thesis using val assms(7,9) by (auto simp: filled_outs_def)
qed

theorem offload_then_fetch_witness:
  "\<exists>s' bs' s''. offload FakeUMMLib [demo_block] (demo_store, demo_media demo_mgr, demo_ssd) = (Inr (), (demo_store2, demo_media demo_mgr2, s')) \<and>
     fetch FakeUMMLib id 0 [1, 1] [0, 1] demo_store2 (demo_media demo_mgr2) (\<lambda>_. bytearray_buf (replicate 4096 0), s') = (Inr (), (bs', s'')) \<and>
     buf_data (bs' 1) = demo_unit"
proof -
  let ?bs = "\<lambda>_. bytearray_buf (replicate 4096 0)"
  obtain s' where o: "offload FakeUMMLib [demo_block] (demo_store, demo_media demo_mgr, demo_ssd) = (Inr (), (demo_store2, demo_media demo_mgr2, s'))"
    using demo_offload by blast
  have "vm_inv fk_chunks (\<lambda>_. Map.empty) (demo_media demo_mgr, demo_ssd)" "fk_inv demo_ssd"
    using fake_store.media_init_ok [OF fk_inv_init builtin_registry_ok demo_args_ok _ demo_media_init] demo_room_devices by auto
  then have r: "fk_inv demo_ssd" "store_rel fk_chunks Map.empty (demo_store, demo_media demo_mgr, demo_ssd)"
    using new_store_rel [OF _ demo_batch_ok _ demo_store_init] by (auto simp: demo_media_def)
  have fr: "fair id" by (simp add: fair_def)
  have ok: "outs_ok (ks_unit_size demo_store) [0, 1] ?bs" by (simp add: outs_ok_def demo_store_def bytearray_buf_def)
  have ix: "\<forall>i \<in> set [1, 1]. i < nat (kb_token_count demo_block)" by (simp add: demo_block_def)
  from offload_then_fetch [OF fake_store.chunk_store_axioms r(1,2) fr _ o ix _ _ ok] obtain bs' s'' where
    "fetch FakeUMMLib id (kb_layer_id demo_block) (map (\<lambda>i. kb_token_start demo_block + int i) [1, 1]) [0, 1] demo_store2
       (demo_media demo_mgr2) (?bs, s') = (Inr (), (bs', s''))"
    "bs' ([0, 1] ! 1) = set_prefix (block_unit demo_store demo_block ([1, 1] ! 1)) (?bs 1)" by auto
  then have "fetch FakeUMMLib id 0 [1, 1] [0, 1] demo_store2 (demo_media demo_mgr2) (?bs, s') = (Inr (), (bs', s''))"
    "buf_data (bs' 1) = demo_unit" using demo_block_units(2) by (simp_all add: demo_block_def set_prefix_def bytearray_buf_def)
  then show ?thesis using o by blast
qed



end
