(* ===== verification/PpaSelection.thy ===== *)
theory PpaSelection
  imports PyValues "HOL-Library.Product_Lexorder"
begin

section \<open>PPA-aware candidate selection\<close>

text \<open>
  Model of \<open>scripts/ppa_selection.py\<close>: the per-layer batch LRU, the compact physical-page mapping,
  the concentration proxy over flash resources and the greedy exchange that replaces native misses
  by extra candidates of lower concentration. Python sets of tokens are HOL sets; where the code
  iterates over a set the model iterates in ascending order, and the loops concerned compute
  minima of total orders or sums, so the order does not show in the result. Scores are any type
  with a linear order, a negation and a subtraction: no law of arithmetic is used for them, so
  that finite floating-point numbers are an instance.
\<close>

definition PAGE :: int where "PAGE = 16384"
definition SLOT :: int where "SLOT = 4096"

subsection \<open>BatchLRU\<close>

text \<open>The keys of the ordered dictionary, oldest first; the values are all \<open>None\<close>.\<close>

record batch_lru =
  lru_capacity :: int
  lru_rows :: "int list"

definition BatchLRU :: "int \<Rightarrow> batch_lru" where
  "BatchLRU capacity = \<lparr>lru_capacity = capacity, lru_rows = []\<rparr>"

text \<open>
  The eviction loop: \<open>popitem(last=False)\<close> raises \<open>KeyError\<close> on an empty dictionary. The loop is
  modelled as a possibly diverging one, not returning being \<open>None\<close>.
\<close>

partial_function (option) lru_evict :: "int \<Rightarrow> int \<Rightarrow> int list \<Rightarrow> int list result option" where
  "lru_evict n capacity rows =
     (if capacity < int (length rows) + n
      then (case rows of [] \<Rightarrow> Some (Inl KeyError) | _ # rest \<Rightarrow> lru_evict n capacity rest)
      else Some (Inr rows))"

definition BatchLRU_commit :: "int set \<Rightarrow> batch_lru \<Rightarrow> (unit, batch_lru) outcome option" where
  "BatchLRU_commit selected c =
     (let n = int (card selected) in
      if lru_capacity c < n then Some (Inl ValueError, c)
      else
        let popped = filter (\<lambda>t. t \<notin> selected) (lru_rows c) in
        case lru_evict n (lru_capacity c) popped of
          None \<Rightarrow> None
        | Some (Inl e) \<Rightarrow> Some (Inl e, c\<lparr>lru_rows := []\<rparr>)
        | Some (Inr kept) \<Rightarrow> Some (Inr (), c\<lparr>lru_rows := kept @ sorted_list_of_set selected\<rparr>))"

subsection \<open>DenseMapping\<close>

text \<open>Eight unsigned 64-bit values per page, in the order of the class's \<open>columns\<close>.\<close>

type_synonym dense_mapping = "int list"

record page_row =
  pr_lpa :: int
  pr_ppa :: int
  pr_channel :: int
  pr_chip :: int
  pr_die :: int
  pr_plane :: int
  pr_block :: int
  pr_page :: int

definition columns :: "string list" where
  "columns = [''lpa'', ''ppa'', ''channel'', ''chip'', ''die'', ''plane'', ''block'', ''page'']"

definition dense_len :: "dense_mapping \<Rightarrow> int" where
  "dense_len m = int (length m) div 8"

definition dense_getitem :: "dense_mapping \<Rightarrow> int \<Rightarrow> page_row result" where
  "dense_getitem m lpa =
     (if lpa < 0 \<or> dense_len m \<le> lpa then Inl KeyError
      else let v = py_slice m (lpa * 8) ((lpa + 1) * 8) in
        Inr \<lparr>pr_lpa = v ! 0, pr_ppa = v ! 1, pr_channel = v ! 2, pr_chip = v ! 3,
             pr_die = v ! 4, pr_plane = v ! 5, pr_block = v ! 6, pr_page = v ! 7\<rparr>)"

text \<open>
  \<open>load_mapping\<close> over the rows \<open>csv.DictReader\<close> yields, each a dictionary of strings; a missing
  column is a \<open>KeyError\<close>, a value that is no integer a \<open>ValueError\<close>, one that does not fit an
  unsigned 64-bit element an \<open>OverflowError\<close>.
\<close>

definition csv_int :: "(string \<times> string) list \<Rightarrow> string \<Rightarrow> int result" where
  "csv_int r k =
     (case map_of r k of None \<Rightarrow> Inl KeyError
      | Some s \<Rightarrow> (case parse_int s of None \<Rightarrow> Inl ValueError | Some i \<Rightarrow> Inr i))"

fun load_mapping_rows :: "(string \<times> string) list list \<Rightarrow> int set \<Rightarrow> dense_mapping \<Rightarrow> dense_mapping result" where
  "load_mapping_rows [] seen m = Inr m"
| "load_mapping_rows (r # rs) seen m =
     (case map_result (csv_int r) columns of
        Inl e \<Rightarrow> Inl e
      | Inr values \<Rightarrow>
          if values ! 0 \<noteq> dense_len m \<or> values ! 1 \<in> seen \<or> Min (set values) < 0 then Inl ValueError
          else if list_ex (\<lambda>v. 2 ^ 64 \<le> v) values then Inl OverflowError
          else load_mapping_rows rs (insert (values ! 1) seen) (m @ values))"

definition load_mapping :: "(string \<times> string) list list \<Rightarrow> dense_mapping result" where
  "load_mapping rs = load_mapping_rows rs {} []"

subsection \<open>Counters over flash resources\<close>

type_synonym resource = "int list"
type_synonym counter = "(resource \<times> int) list"

definition resources :: "page_row \<Rightarrow> resource list" where
  "resources row =
     (let full = [pr_channel row, pr_chip row, pr_die row, pr_plane row]
      in map (\<lambda>i. take i full) [1..<5])"

text \<open>\<open>collections.Counter\<close>: a missing key counts as zero, updates add.\<close>

definition cnt :: "counter \<Rightarrow> resource \<Rightarrow> int" where
  "cnt c k = (case map_of c k of None \<Rightarrow> 0 | Some v \<Rightarrow> v)"

definition cnt_add :: "resource \<Rightarrow> int \<Rightarrow> counter \<Rightarrow> counter" where
  "cnt_add k n c = dict_set k (n + cnt c k) c"

definition counter_update :: "(resource \<times> int) list \<Rightarrow> counter \<Rightarrow> counter" where
  "counter_update d c = foldl (\<lambda>acc (k, n). cnt_add k n acc) c d"

definition counter_count :: "resource list \<Rightarrow> int \<Rightarrow> counter \<Rightarrow> counter" where
  "counter_count ks n c = counter_update (map (\<lambda>k. (k, n)) ks) c"

fun pressure_loop :: "int list \<Rightarrow> (int \<Rightarrow> page_row option) \<Rightarrow> counter \<Rightarrow> counter result" where
  "pressure_loop [] info acc = Inr acc"
| "pressure_loop (t # ts) info acc =
     (case info t of None \<Rightarrow> Inl KeyError
      | Some row \<Rightarrow> pressure_loop ts info (counter_count (resources row) 1 acc))"

definition pressure :: "int list \<Rightarrow> (int \<Rightarrow> page_row option) \<Rightarrow> counter result" where
  "pressure ids info = pressure_loop ids info []"

definition objective :: "counter \<Rightarrow> int" where
  "objective loads = sum_list (map (\<lambda>(k, v). v * v) loads)"

subsection \<open>select\<close>

record 's candidate =
  c_token :: int
  c_score :: "'s option"
  c_offset_bytes :: int

text \<open>The scored candidates, best score first, ties by token.\<close>

definition scored_candidates :: "('s :: {linorder, uminus}) candidate list \<Rightarrow> (int \<times> 's) list" where
  "scored_candidates rows =
     sort_key (\<lambda>(t, s). (- s, t))
       (concat (map (\<lambda>r. case c_score r of None \<Rightarrow> [] | Some s \<Rightarrow> [(c_token r, s)]) rows))"

definition rank_of :: "(int \<times> 's) list \<Rightarrow> int \<Rightarrow> nat option" where
  "rank_of scored = map_of (rev (zip (map fst scored) [0..<length scored]))"

definition score_of :: "(int \<times> 's) list \<Rightarrow> int \<Rightarrow> 's option" where
  "score_of scored = map_of (rev scored)"

fun info_of :: "('s, 'x) candidate_scheme list \<Rightarrow> dense_mapping \<Rightarrow> (int \<Rightarrow> page_row option) \<Rightarrow> (int \<Rightarrow> page_row option) result" where
  "info_of [] m acc = Inr acc"
| "info_of (r # rs) m acc =
     (case dense_getitem m (c_offset_bytes r div PAGE) of
        Inl e \<Rightarrow> Inl e | Inr row \<Rightarrow> info_of rs m (acc(c_token r \<mapsto> row)))"

text \<open>
  One representative token per innermost resource: the first loop keeps the removable token of
  least score (ties: the larger token), the second the available token of greatest score (ties:
  the smaller token). \<open>better\<close> is the comparison of the keys.
\<close>

definition group_step :: "(int \<Rightarrow> resource list) \<Rightarrow> (int \<Rightarrow> int \<Rightarrow> bool) \<Rightarrow> (resource \<times> int) list \<Rightarrow> int \<Rightarrow> (resource \<times> int) list" where
  "group_step res better groups t =
     (let key = last (res t) in
      case map_of groups key of
        None \<Rightarrow> dict_set key t groups
      | Some u \<Rightarrow> if better t u then dict_set key t groups else groups)"

definition group_by_resource :: "(int \<Rightarrow> resource list) \<Rightarrow> (int \<Rightarrow> int \<Rightarrow> bool) \<Rightarrow> int set \<Rightarrow> int list" where
  "group_by_resource res better ts = map snd (foldl (group_step res better) [] (sorted_list_of_set ts))"

definition removal_list :: "(int \<Rightarrow> resource list) \<Rightarrow> (int \<Rightarrow> 's :: {linorder, uminus}) \<Rightarrow> counter \<Rightarrow> int set \<Rightarrow> int list" where
  "removal_list res score loads removable =
     take 16 (sort_key (\<lambda>t. (- sum_list (map (\<lambda>k. 2 * cnt loads k - 1) (res t)), score t, t))
       (group_by_resource res (\<lambda>t u. (score t, - t) < (score u, - u)) removable))"

definition addition_list :: "(int \<Rightarrow> resource list) \<Rightarrow> (int \<Rightarrow> 's :: {linorder, uminus}) \<Rightarrow> counter \<Rightarrow> int set \<Rightarrow> int list" where
  "addition_list res score loads available =
     take 16 (sort_key (\<lambda>t. (sum_list (map (\<lambda>k. 2 * cnt loads k + 1) (res t)), - score t, t))
       (group_by_resource res (\<lambda>t u. (- score t, t) < (- score u, u)) available))"

text \<open>The change of the counter and of the objective when \<open>old\<close> is exchanged for \<open>new\<close>.\<close>

definition swap_change :: "(int \<Rightarrow> resource list) \<Rightarrow> int \<Rightarrow> int \<Rightarrow> counter" where
  "swap_change res old new = counter_count (res old) (-1) (counter_count (res new) 1 [])"

definition swap_delta :: "counter \<Rightarrow> counter \<Rightarrow> int" where
  "swap_delta loads change = sum_list (map (\<lambda>(k, n). 2 * cnt loads k * n + n * n) change)"

type_synonym 's best = "((int \<times> 's \<times> int \<times> int) \<times> counter) option"

definition best_step ::
  "(int \<Rightarrow> resource list) \<Rightarrow> (int \<Rightarrow> 's :: {linorder, minus}) \<Rightarrow> counter \<Rightarrow> 's best \<Rightarrow> int \<times> int \<Rightarrow> 's best" where
  "best_step res score loads best p =
     (let (old, new) = p; change = swap_change res old new; delta = swap_delta loads change;
          key = (delta, score old - score new, old, new)
      in if delta < 0 \<and> (case best of None \<Rightarrow> True | Some (bk, _) \<Rightarrow> key < bk)
         then Some (key, change) else best)"

definition best_exchange ::
  "(int \<Rightarrow> resource list) \<Rightarrow> (int \<Rightarrow> 's :: {linorder, minus}) \<Rightarrow> counter \<Rightarrow> int list \<Rightarrow> int list \<Rightarrow> 's best" where
  "best_exchange res score loads removals additions =
     foldl (best_step res score loads) None (List.product removals additions)"

record sel_state =
  ss_selected :: "int set"
  ss_removable :: "int set"
  ss_available :: "int set"
  ss_loads :: counter
  ss_exchanges :: "(int \<times> int) list"

text \<open>The exchange loop; it ends early when no exchange lowers the objective.\<close>

fun select_loop ::
  "(int \<Rightarrow> resource list) \<Rightarrow> (int \<Rightarrow> 's :: {linorder, uminus, minus}) \<Rightarrow> nat \<Rightarrow> sel_state \<Rightarrow> sel_state" where
  "select_loop res score 0 s = s"
| "select_loop res score (Suc n) s =
     (case best_exchange res score (ss_loads s)
             (removal_list res score (ss_loads s) (ss_removable s))
             (addition_list res score (ss_loads s) (ss_available s)) of
        None \<Rightarrow> s
      | Some ((_, _, old, new), change) \<Rightarrow>
          select_loop res score n
            \<lparr>ss_selected = insert new (ss_selected s - {old}),
             ss_removable = ss_removable s - {old},
             ss_available = ss_available s - {new},
             ss_loads = counter_update change (ss_loads s),
             ss_exchanges = ss_exchanges s @ [(old, new)]\<rparr>)"

text \<open>
  \<open>removable\<close> and \<open>available\<close> hold scored candidates only, so the dictionary lookups of the loop
  never fail; the look-ups \<open>the\<close> below are inside the domains (lemma \<open>select_domains\<close>).
\<close>

definition select ::
  "int list \<Rightarrow> ('s :: {linorder, uminus, minus}) candidate list \<Rightarrow> dense_mapping \<Rightarrow> int \<Rightarrow> int \<Rightarrow> int \<Rightarrow> int set
   \<Rightarrow> (int set \<times> (int \<times> int) list \<times> int \<times> int) result" where
  "select native candidate_rows mapping current budget protect_top cached =
     (let selected = set native;
          resident = insert current cached;
          scored = scored_candidates candidate_rows;
          rank = rank_of scored
      in case info_of candidate_rows mapping Map.empty of
           Inl e \<Rightarrow> Inl e
         | Inr info \<Rightarrow>
             let available = fst ` set scored - selected - resident;
                 removable = {t \<in> set native. t \<notin> resident \<and>
                   (case rank t of None \<Rightarrow> False | Some r \<Rightarrow> protect_top \<le> int r)}
             in case pressure (sorted_list_of_set (selected - resident)) info of
                  Inl e \<Rightarrow> Inl e
                | Inr loads \<Rightarrow>
                    let s = select_loop (\<lambda>t. resources (the (info t))) (\<lambda>t. the (score_of scored t)) (nat budget)
                          \<lparr>ss_selected = selected, ss_removable = removable, ss_available = available,
                           ss_loads = loads, ss_exchanges = []\<rparr>
                    in Inr (ss_selected s, ss_exchanges s, objective loads, objective (ss_loads s)))"

subsection \<open>The declared-stride layout\<close>

text \<open>A dictionary comprehension: for a layer id listed twice the later rank would win.\<close>

definition declared_stride_offsets :: "int list \<Rightarrow> int \<Rightarrow> int \<Rightarrow> (int \<times> int) list result" where
  "declared_stride_offsets layer_ids stride_tokens slot =
     (if stride_tokens \<le> 0 then Inl ValueError
      else let ls = sort layer_ids
           in Inr (dict_update [] (map (\<lambda>(rank, layer). (layer, int rank * stride_tokens * slot))
                (zip [0..<length ls] ls))))"

definition token_offset :: "int \<Rightarrow> int \<Rightarrow> int \<Rightarrow> int" where
  "token_offset base_bytes token slot = base_bytes + token * slot"

subsection \<open>The eviction loop ends\<close>

definition lru_inv :: "batch_lru \<Rightarrow> bool" where
  "lru_inv c \<longleftrightarrow> distinct (lru_rows c) \<and> int (length (lru_rows c)) \<le> max 0 (lru_capacity c)"

lemma lru_inv_BatchLRU [simp]: "lru_inv (BatchLRU capacity)"
  by (simp add: lru_inv_def BatchLRU_def)

lemma lru_evict_returns:
  "n \<le> capacity \<Longrightarrow>
   lru_evict n capacity rows = Some (Inr (drop (nat (int (length rows) + n - capacity)) rows))"
proof (induction rows)
  case (Cons x rows)
  show ?case
  proof (cases "capacity < int (length (x # rows)) + n")
    case True
    then have "nat (int (length (x # rows)) + n - capacity) = Suc (nat (int (length rows) + n - capacity))"
      by simp
    then show ?thesis using True Cons by (subst lru_evict.simps) simp
  qed (subst lru_evict.simps, simp)
qed (subst lru_evict.simps, simp)

lemma commit_cases:
  assumes "finite selected"
  shows "BatchLRU_commit selected c =
    (if lru_capacity c < int (card selected) then Some (Inl ValueError, c)
     else Some (Inr (), c\<lparr>lru_rows :=
       drop (nat (int (length (filter (\<lambda>t. t \<notin> selected) (lru_rows c))) + int (card selected) - lru_capacity c))
         (filter (\<lambda>t. t \<notin> selected) (lru_rows c)) @ sorted_list_of_set selected\<rparr>))"
  using assms by (simp add: BatchLRU_commit_def lru_evict_returns Let_def)

lemma commit_keeps_inv:
  assumes "lru_inv c" and "finite selected" and "BatchLRU_commit selected c = Some (r, c')"
  shows "lru_inv c' \<and> lru_capacity c' = lru_capacity c"
proof -
  let ?old = "filter (\<lambda>t. t \<notin> selected) (lru_rows c)"
  have "set (drop k ?old) \<inter> selected = {}" for k using set_drop_subset [of k ?old] by auto
  then show ?thesis
    using assms by (auto simp: lru_inv_def commit_cases split: if_splits)
qed

text \<open>
  C25. Committing a batch always ends, although the eviction loop has no bound of its own. A batch
  larger than the cache is refused with \<open>ValueError\<close> and changes nothing. Otherwise the batch
  becomes the newest part of the cache in ascending order, nothing outside the batch is reordered,
  only the oldest rows are dropped, a row is dropped only when the cache is then full, and the
  cache never exceeds its capacity nor lists a row twice.
\<close>

theorem commit_terminates:
  assumes "finite selected" and "lru_inv c"
  shows "\<exists>r c'. BatchLRU_commit selected c = Some (r, c') \<and> lru_inv c' \<and> lru_capacity c' = lru_capacity c \<and>
    (if lru_capacity c < int (card selected) then r = Inl ValueError \<and> c' = c
     else r = Inr () \<and>
       (\<exists>k. lru_rows c' = drop k (filter (\<lambda>t. t \<notin> selected) (lru_rows c)) @ sorted_list_of_set selected \<and>
            (k = 0 \<or> int (length (lru_rows c')) = lru_capacity c)))"
proof -
  let ?old = "filter (\<lambda>t. t \<notin> selected) (lru_rows c)"
  let ?k = "nat (int (length ?old) + int (card selected) - lru_capacity c)"
  show ?thesis
  proof (cases "lru_capacity c < int (card selected)")
    case True
    then show ?thesis using assms commit_cases [OF assms(1), of c] by simp
  next
    case False
    let ?c' = "c\<lparr>lru_rows := drop ?k ?old @ sorted_list_of_set selected\<rparr>"
    have committed: "BatchLRU_commit selected c = Some (Inr (), ?c')"
      using False commit_cases [OF assms(1), of c] by simp
    have "?k = 0 \<or> int (length (drop ?k ?old @ sorted_list_of_set selected)) = lru_capacity c"
      using False assms(1) by auto
    then show ?thesis
      using False committed commit_keeps_inv [OF assms(2,1) committed]
      by (intro exI [of _ "Inr ()"] exI [of _ ?c'] conjI) (auto intro: exI [of _ ?k])
  qed
qed

theorem commit_terminates_witness:
  "lru_inv \<lparr>lru_capacity = 4, lru_rows = [7, 3, 9, 1]\<rparr> \<and>
   (\<exists>c'. BatchLRU_commit {9, 2} \<lparr>lru_capacity = 4, lru_rows = [7, 3, 9, 1]\<rparr> = Some (Inr (), c') \<and> lru_inv c')"
  using commit_terminates [of "{9, 2}" "\<lparr>lru_capacity = 4, lru_rows = [7, 3, 9, 1]\<rparr>"]
  by (auto simp: lru_inv_def)

subsection \<open>Counters\<close>

lemma cnt_simps [simp]:
  "cnt [] k = 0"
  "cnt (cnt_add j n c) k = cnt c k + (if k = j then n else 0)"
  by (auto simp: cnt_def cnt_add_def)

lemma cnt_counter_update: "cnt (counter_update d c) k = cnt c k + sum_list (map (\<lambda>(j, n). if j = k then n else 0) d)"
  by (induction d arbitrary: c) (auto simp: counter_update_def)

lemma counter_keys:
  "distinct (map fst c) \<Longrightarrow> distinct (map fst (counter_update d c))"
  "fst ` set (counter_update d c) = fst ` set c \<union> fst ` set d"
proof -
  show "distinct (map fst c) \<Longrightarrow> distinct (map fst (counter_update d c))"
    by (induction d arbitrary: c) (auto simp: counter_update_def cnt_add_def)
  have one: "fst ` set (dict_set k v ps) = insert k (fst ` set ps)" for k :: resource and v :: int and ps
    using keys_dict_set [of k v ps, THEN arg_cong, of set] by (auto split: if_splits)
  show "fst ` set (counter_update d c) = fst ` set c \<union> fst ` set d"
  proof (induction d arbitrary: c)
    case (Cons p d)
    obtain k n where p: "p = (k, n)" by fastforce
    have "fst ` set (counter_update (p # d) c) = fst ` set (cnt_add k n c) \<union> fst ` set d"
      using Cons p by (simp add: counter_update_def)
    then show ?case using p by (simp add: cnt_add_def one)
  qed (simp add: counter_update_def)
qed

lemma cnt_outside: "k \<notin> fst ` set c \<Longrightarrow> cnt c k = 0"
  using map_of_eq_None_iff [of c k] by (simp add: cnt_def)

lemma sum_over_counter:
  assumes "distinct (map fst c)" and "finite S" and "fst ` set c \<subseteq> S" and "\<And>k. f k 0 = 0"
  shows "sum_list (map (\<lambda>(k, v). f k v) c) = (\<Sum>k\<in>S. f k (cnt c k :: int) :: int)"
proof -
  have "sum_list (map (\<lambda>(k, v). f k v) c) = (\<Sum>k\<in>fst ` set c. f k (cnt c k))"
    using assms(1)
  proof (induction c)
    case (Cons p c)
    obtain k v where p: "p = (k, v)" by fastforce
    have "(\<Sum>j\<in>fst ` set c. f j (cnt (p # c) j)) = (\<Sum>j\<in>fst ` set c. f j (cnt c j))"
      using Cons.prems p by (intro sum.cong) (auto simp: cnt_def)
    then show ?case using Cons p by (simp add: cnt_def)
  qed simp
  also have "\<dots> = (\<Sum>k\<in>S. f k (cnt c k))"
    using assms by (intro sum.mono_neutral_left) (auto simp: cnt_outside)
  finally show ?thesis .
qed

lemma objective_sum:
  "distinct (map fst c) \<Longrightarrow> finite S \<Longrightarrow> fst ` set c \<subseteq> S \<Longrightarrow> objective c = (\<Sum>k\<in>S. cnt c k * cnt c k)"
  unfolding objective_def by (rule sum_over_counter) auto

text \<open>The objective of a counter depends on its counts only, not on the order or presence of keys.\<close>

lemma objective_cong:
  assumes "distinct (map fst c)" and "distinct (map fst d)" and "\<And>k. cnt c k = cnt d k"
  shows "objective c = objective d"
  using assms objective_sum [of c "fst ` set c \<union> fst ` set d"] objective_sum [of d "fst ` set c \<union> fst ` set d"]
  by simp

lemma cnt_counter_update_distinct:
  assumes "distinct (map fst d)"
  shows "cnt (counter_update d c) k = cnt c k + cnt d k"
proof -
  have "sum_list (map (\<lambda>(j, n). if j = k then n else 0) d) = (\<Sum>j\<in>insert k (fst ` set d). if j = k then cnt d j else 0)"
    using assms by (intro sum_over_counter) auto
  then show ?thesis by (simp add: cnt_counter_update)
qed

lemma objective_update:
  assumes "distinct (map fst c)" and "distinct (map fst d)"
  shows "objective (counter_update d c) = objective c + swap_delta c d"
proof -
  let ?S = "fst ` set c \<union> fst ` set d"
  have "objective (counter_update d c) = (\<Sum>k\<in>?S. (cnt c k + cnt d k) * (cnt c k + cnt d k))"
    using assms by (subst objective_sum [of _ ?S]) (auto simp: counter_keys cnt_counter_update_distinct)
  moreover have "swap_delta c d = (\<Sum>k\<in>?S. 2 * cnt c k * cnt d k + cnt d k * cnt d k)"
    unfolding swap_delta_def using assms by (intro sum_over_counter) auto
  moreover have "objective c = (\<Sum>k\<in>?S. cnt c k * cnt c k)"
    using assms by (intro objective_sum) auto
  ultimately show ?thesis by (simp add: sum.distrib [symmetric] algebra_simps)
qed

subsection \<open>Pressure is the sum of the resources used\<close>

definition uses :: "(int \<Rightarrow> resource list) \<Rightarrow> int set \<Rightarrow> resource \<Rightarrow> int" where
  "uses res ts k = (\<Sum>t\<in>ts. int (count_list (res t) k))"

lemma cnt_counter_count: "cnt (counter_count ks n c) k = cnt c k + n * int (count_list ks k)"
  unfolding counter_count_def cnt_counter_update
  by (induction ks) (auto simp: algebra_simps)

lemma distinct_counter_count: "distinct (map fst c) \<Longrightarrow> distinct (map fst (counter_count ks n c))"
  by (simp add: counter_count_def counter_keys)

lemma pressure_loop_ok:
  "pressure_loop ids info acc = (if \<forall>t\<in>set ids. info t \<noteq> None
     then Inr (foldl (\<lambda>c t. counter_count (resources (the (info t))) 1 c) acc ids) else Inl KeyError)"
  by (induction ids arbitrary: acc) (auto split: option.splits)

lemma pressure_fold:
  assumes "distinct ids"
  shows "cnt (foldl (\<lambda>c t. counter_count (res t) 1 c) acc ids) k = cnt acc k + uses res (set ids) k"
    and "distinct (map fst acc) \<Longrightarrow> distinct (map fst (foldl (\<lambda>c t. counter_count (res t) 1 c) acc ids))"
  using assms
  by (induction ids arbitrary: acc) (auto simp: uses_def cnt_counter_count distinct_counter_count)

lemma pressure_error:
  "finite S \<Longrightarrow> pressure (sorted_list_of_set S) info = Inl e \<longleftrightarrow> e = KeyError \<and> (\<exists>t\<in>S. info t = None)"
  by (auto simp: pressure_def pressure_loop_ok)

lemma pressure_returns:
  assumes "finite S" and "\<forall>t\<in>S. info t \<noteq> None"
  obtains loads where "pressure (sorted_list_of_set S) info = Inr loads"
    and "distinct (map fst loads)" and "\<And>k. cnt loads k = uses (\<lambda>t. resources (the (info t))) S k"
proof -
  let ?l = "foldl (\<lambda>c t. counter_count (resources (the (info t))) 1 c) [] (sorted_list_of_set S)"
  have "pressure (sorted_list_of_set S) info = Inr ?l" using assms by (simp add: pressure_def pressure_loop_ok)
  moreover have "distinct (map fst ?l)" by (intro pressure_fold) auto
  moreover have "cnt ?l k = uses (\<lambda>t. resources (the (info t))) S k" for k
    using pressure_fold(1) [OF distinct_sorted_list_of_set [of S], of "\<lambda>t. resources (the (info t))" "[]" k] assms(1) by simp
  ultimately show thesis by (rule that)
qed

lemma pressure_values:
  assumes "finite S" and "pressure (sorted_list_of_set S) info = Inr loads"
  shows "distinct (map fst loads)" and "cnt loads k = uses (\<lambda>t. resources (the (info t))) S k"
    and "\<forall>t\<in>S. info t \<noteq> None"
proof -
  show *: "\<forall>t\<in>S. info t \<noteq> None"
    using assms pressure_error [OF assms(1), of info KeyError] by auto
  obtain l where "pressure (sorted_list_of_set S) info = Inr l" "distinct (map fst l)"
    "\<And>k. cnt l k = uses (\<lambda>t. resources (the (info t))) S k"
    using pressure_returns [OF assms(1) *] by blast
  then show "distinct (map fst loads)" "cnt loads k = uses (\<lambda>t. resources (the (info t))) S k"
    using assms(2) by auto
qed

subsection \<open>The exchange loop\<close>

lemma group_step_values:
  "set (map snd (foldl (group_step res better) gs ts)) \<subseteq> set (map snd gs) \<union> set ts"
proof (induction ts arbitrary: gs)
  case (Cons t ts)
  have "set (dict_set k v ps) \<subseteq> insert (k, v) (set ps)" for k :: resource and v :: int and ps
    by (induction ps) (auto split: if_splits)
  then have "snd ` set (dict_set k v ps) \<subseteq> insert v (snd ` set ps)" for k :: resource and v :: int and ps
    using image_mono [of "set (dict_set k v ps)" "insert (k, v) (set ps)" snd] by simp
  then have "set (map snd (group_step res better gs t)) \<subseteq> insert t (set (map snd gs))"
    by (simp add: group_step_def Let_def split: option.splits) blast
  then show ?case using Cons [of "group_step res better gs t"] by simp blast
qed simp

lemma group_by_resource_sub: "finite ts \<Longrightarrow> set (group_by_resource res better ts) \<subseteq> ts"
  using group_step_values [of res better "[]" "sorted_list_of_set ts"] by (simp add: group_by_resource_def)

lemma shortlists_sub:
  "finite ts \<Longrightarrow> set (removal_list res score loads ts) \<subseteq> ts"
  "finite ts \<Longrightarrow> set (addition_list res score loads ts) \<subseteq> ts"
  using group_by_resource_sub set_take_subset
  by (fastforce simp: removal_list_def addition_list_def)+

lemma best_exchange_sound:
  assumes "best_exchange res score loads rs as = Some ((d, q, old, new), change)"
  shows "old \<in> set rs" and "new \<in> set as" and "d < 0" and "change = swap_change res old new"
    and "d = swap_delta loads change"
proof -
  let ?P = "\<lambda>b :: 's best. case b of None \<Rightarrow> True | Some ((d, q, old, new), change) \<Rightarrow>
    old \<in> set rs \<and> new \<in> set as \<and> d < 0 \<and> change = swap_change res old new \<and> d = swap_delta loads change"
  have "?P b \<Longrightarrow> set ps \<subseteq> set rs \<times> set as \<Longrightarrow> ?P (foldl (best_step res score loads) b ps)" for b ps
  proof (induction ps arbitrary: b)
    case (Cons p ps)
    have "?P (best_step res score loads b p)"
      using Cons.prems by (auto simp: best_step_def Let_def split: prod.splits)
    then show ?case using Cons by simp
  qed simp
  from this [of None "List.product rs as"]
  show "old \<in> set rs" and "new \<in> set as" and "d < 0" and "change = swap_change res old new"
    and "d = swap_delta loads change"
    using assms by (auto simp: best_exchange_def)
qed

definition sel_inv :: "(int \<Rightarrow> resource list) \<Rightarrow> int set \<Rightarrow> sel_state \<Rightarrow> bool" where
  "sel_inv res R s \<longleftrightarrow>
     finite (ss_selected s) \<and> finite (ss_available s) \<and>
     ss_removable s \<subseteq> ss_selected s - R \<and> ss_available s \<inter> (ss_selected s \<union> R) = {} \<and>
     distinct (map fst (ss_loads s)) \<and> (\<forall>k. cnt (ss_loads s) k = uses res (ss_selected s - R) k)"

lemma uses_swap:
  assumes "finite S" and "old \<in> S" and "new \<notin> S"
  shows "uses res (insert new (S - {old})) k = uses res S k + int (count_list (res new) k) - int (count_list (res old) k)"
  using assms by (simp add: uses_def sum.remove [of S old])

lemma swap_change_facts:
  "distinct (map fst (swap_change res old new))"
  "cnt (swap_change res old new) k = int (count_list (res new) k) - int (count_list (res old) k)"
  by (simp_all add: swap_change_def distinct_counter_count cnt_counter_count)

lemma exchange_keeps_inv:
  assumes "sel_inv res R s" and "old \<in> ss_removable s" and "new \<in> ss_available s"
  shows "sel_inv res R
    \<lparr>ss_selected = insert new (ss_selected s - {old}), ss_removable = ss_removable s - {old},
     ss_available = ss_available s - {new},
     ss_loads = counter_update (swap_change res old new) (ss_loads s),
     ss_exchanges = ss_exchanges s @ [(old, new)]\<rparr>"
proof -
  have "insert new (ss_selected s - {old}) - R = insert new ((ss_selected s - R) - {old})"
    using assms by (auto simp: sel_inv_def)
  moreover have "uses res (insert new ((ss_selected s - R) - {old})) k =
    uses res (ss_selected s - R) k + int (count_list (res new) k) - int (count_list (res old) k)" for k
    using assms by (intro uses_swap) (auto simp: sel_inv_def)
  ultimately show ?thesis
    using assms by (auto simp: sel_inv_def counter_keys cnt_counter_update_distinct swap_change_facts)
qed

text \<open>
  What \<open>n\<close> rounds of the loop do: at most \<open>n\<close> exchanges of removable for available tokens, no
  token twice, the objective falling by at least one with each.
\<close>

lemma select_loop_ok:
  assumes "sel_inv res R s"
  shows "\<exists>xs. let s' = select_loop res score n s in
    sel_inv res R s' \<and> ss_exchanges s' = ss_exchanges s @ xs \<and> length xs \<le> n \<and>
    fst ` set xs \<subseteq> ss_removable s \<and> snd ` set xs \<subseteq> ss_available s \<and>
    distinct (map fst xs) \<and> distinct (map snd xs) \<and>
    ss_selected s' = (ss_selected s - fst ` set xs) \<union> snd ` set xs \<and>
    objective (ss_loads s') + int (length xs) \<le> objective (ss_loads s)"
  using assms
proof (induction n arbitrary: s)
  case (Suc n)
  let ?b = "best_exchange res score (ss_loads s) (removal_list res score (ss_loads s) (ss_removable s))
             (addition_list res score (ss_loads s) (ss_available s))"
  show ?case
  proof (cases ?b)
    case None
    then show ?thesis using Suc.prems by (auto intro!: exI [of _ "[]"])
  next
    case (Some p)
    then obtain d q old new change where b: "?b = Some ((d, q, old, new), change)"
      by (metis prod.exhaust)
    have fin: "finite (ss_removable s)" "finite (ss_available s)"
      using Suc.prems by (auto simp: sel_inv_def intro: finite_subset)
    have old: "old \<in> ss_removable s" and new: "new \<in> ss_available s" and d: "d < 0"
      and ch: "change = swap_change res old new" and dd: "d = swap_delta (ss_loads s) change"
      using best_exchange_sound [OF b] shortlists_sub(1) [OF fin(1)] shortlists_sub(2) [OF fin(2)] by blast+
    let ?t = "\<lparr>ss_selected = insert new (ss_selected s - {old}), ss_removable = ss_removable s - {old},
     ss_available = ss_available s - {new}, ss_loads = counter_update change (ss_loads s),
     ss_exchanges = ss_exchanges s @ [(old, new)]\<rparr>"
    have "sel_inv res R ?t" using exchange_keeps_inv [OF Suc.prems old new] ch by simp
    then obtain xs where xs: "let s' = select_loop res score n ?t in
      sel_inv res R s' \<and> ss_exchanges s' = ss_exchanges ?t @ xs \<and> length xs \<le> n \<and>
      fst ` set xs \<subseteq> ss_removable ?t \<and> snd ` set xs \<subseteq> ss_available ?t \<and>
      distinct (map fst xs) \<and> distinct (map snd xs) \<and>
      ss_selected s' = (ss_selected ?t - fst ` set xs) \<union> snd ` set xs \<and>
      objective (ss_loads s') + int (length xs) \<le> objective (ss_loads ?t)"
      using Suc.IH by blast
    have "objective (ss_loads ?t) = objective (ss_loads s) + d"
      using Suc.prems objective_update [of "ss_loads s" change] swap_change_facts(1) ch dd
      by (simp add: sel_inv_def)
    moreover have "select_loop res score (Suc n) s = select_loop res score n ?t" using b by simp
    moreover have "new \<notin> ss_removable s" "new \<notin> ss_selected s" "old \<in> ss_selected s"
      using Suc.prems old new by (auto simp: sel_inv_def)
    ultimately show ?thesis
      using xs d old new by (intro exI [of _ "(old, new) # xs"]) (auto simp: Let_def)
  qed
qed (auto intro!: exI [of _ "[]"])

subsection \<open>select as a whole\<close>

lemma info_of_ok:
  "info_of rows m acc = Inr info \<Longrightarrow>
   dom info = dom acc \<union> c_token ` set rows \<and> (\<forall>r\<in>set rows. \<exists>row. dense_getitem m (c_offset_bytes r div PAGE) = Inr row)"
  by (induction rows arbitrary: acc) (auto split: sum.splits)

lemma info_of_error:
  "info_of rows m acc = Inl e \<Longrightarrow> e = KeyError \<and>
   (\<exists>r\<in>set rows. c_offset_bytes r div PAGE < 0 \<or> dense_len m \<le> c_offset_bytes r div PAGE)"
  by (induction rows arbitrary: acc) (auto simp: dense_getitem_def Let_def split: sum.splits if_splits)

lemma scored_tokens: "fst ` set (scored_candidates rows) \<subseteq> c_token ` set rows"
  by (auto simp: scored_candidates_def split: option.splits)

lemma rank_of_dom: "rank_of scored t = Some r \<Longrightarrow> t \<in> fst ` set scored"
  by (auto simp: rank_of_def dest!: map_of_SomeD in_set_zipE)

text \<open>The tokens the loop looks up are scored candidates, so all its dictionaries are defined there.\<close>

lemma select_domains:
  assumes "info_of rows m Map.empty = Inr info" and "t \<in> fst ` set (scored_candidates rows)"
  shows "info t \<noteq> None" and "score_of (scored_candidates rows) t \<noteq> None"
proof -
  have "dom info = c_token ` set rows" using info_of_ok [OF assms(1)] by simp
  then have "t \<in> dom info" using subsetD [OF scored_tokens assms(2)] by simp
  then show "info t \<noteq> None" by auto
  show "score_of (scored_candidates rows) t \<noteq> None"
    using assms(2) map_of_eq_None_iff [of "rev (scored_candidates rows)" t] by (auto simp: score_of_def)
qed

definition removable_tokens :: "int list \<Rightarrow> int set \<Rightarrow> ('s :: {linorder, uminus}) candidate list \<Rightarrow> int \<Rightarrow> int set" where
  "removable_tokens native resident rows protect_top =
     {t \<in> set native. t \<notin> resident \<and>
       (case rank_of (scored_candidates rows) t of None \<Rightarrow> False | Some r \<Rightarrow> protect_top \<le> int r)}"

lemma select_spec:
  fixes rows :: "('s :: {linorder, uminus, minus}) candidate list"
  shows "case select native rows mapping current budget protect_top cached of
    Inl e \<Rightarrow> e = KeyError \<and>
      ((\<exists>r\<in>set rows. c_offset_bytes r div PAGE < 0 \<or> dense_len mapping \<le> c_offset_bytes r div PAGE) \<or>
       (\<exists>t\<in>set native - insert current cached. t \<notin> c_token ` set rows))
  | Inr (selected, xs, before, after) \<Rightarrow>
      selected = (set native - fst ` set xs) \<union> snd ` set xs \<and>
      fst ` set xs \<subseteq> removable_tokens native (insert current cached) rows protect_top \<and>
      snd ` set xs \<subseteq> fst ` set (scored_candidates rows) - set native - insert current cached \<and>
      distinct (map fst xs) \<and> distinct (map snd xs) \<and> length xs \<le> nat budget \<and>
      card selected = card (set native) \<and> selected \<inter> insert current cached = set native \<inter> insert current cached \<and>
      after + int (length xs) \<le> before \<and>
      (\<exists>info loads. info_of rows mapping Map.empty = Inr info \<and>
         pressure (sorted_list_of_set (selected - insert current cached)) info = Inr loads \<and> after = objective loads)"
proof (cases "info_of rows mapping Map.empty")
  case (Inl e)
  then show ?thesis using info_of_error [OF Inl] by (auto simp: select_def Let_def)
next
  case (Inr info)
  let ?R = "insert current cached"
  let ?M = "set native - ?R"
  let ?res = "\<lambda>t. resources (the (info t))"
  have dom: "dom info = c_token ` set rows" using info_of_ok [OF Inr] by simp
  show ?thesis
  proof (cases "pressure (sorted_list_of_set ?M) info")
    case (Inl e)
    have "e = KeyError \<and> (\<exists>t\<in>?M. t \<notin> dom info)" using pressure_error [of ?M info e] Inl by auto
    then have "e = KeyError \<and> (\<exists>t\<in>?M. t \<notin> c_token ` set rows)" using dom by blast
    then show ?thesis using Inr Inl by (simp add: select_def Let_def)
  next
    case loads: (Inr loads)
    let ?s = "\<lparr>ss_selected = set native, ss_removable = removable_tokens native ?R rows protect_top,
      ss_available = fst ` set (scored_candidates rows) - set native - ?R, ss_loads = loads, ss_exchanges = []\<rparr>"
    let ?t = "select_loop ?res (\<lambda>t. the (score_of (scored_candidates rows) t)) (nat budget) ?s"
    have sel: "select native rows mapping current budget protect_top cached =
        Inr (ss_selected ?t, ss_exchanges ?t, objective loads, objective (ss_loads ?t))"
      using Inr loads by (simp add: select_def Let_def removable_tokens_def)
    have "sel_inv ?res ?R ?s"
      using pressure_values [OF _ loads] by (auto simp: sel_inv_def removable_tokens_def)
    from select_loop_ok [OF this, of "\<lambda>t. the (score_of (scored_candidates rows) t)" "nat budget"]
    obtain xs where inv: "sel_inv ?res ?R ?t" and ex: "ss_exchanges ?t = xs" "length xs \<le> nat budget"
      and sub: "fst ` set xs \<subseteq> removable_tokens native ?R rows protect_top"
        "snd ` set xs \<subseteq> fst ` set (scored_candidates rows) - set native - ?R"
      and dist: "distinct (map fst xs)" "distinct (map snd xs)"
      and selected: "ss_selected ?t = (set native - fst ` set xs) \<union> snd ` set xs"
      and obj: "objective (ss_loads ?t) + int (length xs) \<le> objective loads"
      by (auto simp: Let_def)
    have gone: "fst ` set xs \<subseteq> set native - ?R" using sub(1) by (auto simp: removable_tokens_def)
    have "card ((set native - fst ` set xs) \<union> snd ` set xs) = card (set native - fst ` set xs) + card (snd ` set xs)"
      using sub(2) by (intro card_Un_disjoint) auto
    also have "\<dots> = card (set native) - length xs + length xs"
      using gone dist by (subst card_Diff_subset) (auto simp: distinct_card simp flip: set_map)
    also have "length xs \<le> card (set native)"
      using gone dist card_mono [of "set native" "set (map fst xs)"] distinct_card [of "map fst xs"] by auto
    ultimately have card: "card (ss_selected ?t) = card (set native)" using selected by simp
    have final: "\<forall>t\<in>ss_selected ?t - ?R. info t \<noteq> None"
    proof
      fix t assume "t \<in> ss_selected ?t - ?R"
      then have "t \<in> ?M \<or> t \<in> fst ` set (scored_candidates rows)" using selected sub(2) by blast
      then show "info t \<noteq> None" using pressure_values(3) [OF _ loads] select_domains(1) [OF Inr] by blast
    qed
    obtain l where l: "pressure (sorted_list_of_set (ss_selected ?t - ?R)) info = Inr l"
        "distinct (map fst l)" "\<And>k. cnt l k = uses ?res (ss_selected ?t - ?R) k"
      using pressure_returns [OF _ final] selected by auto
    then have "objective (ss_loads ?t) = objective l"
      using inv by (intro objective_cong) (auto simp: sel_inv_def)
    moreover have "ss_selected ?t \<inter> ?R = set native \<inter> ?R" using selected sub gone by auto
    ultimately show ?thesis
      unfolding sel using ex sub dist obj card selected Inr l(1) by simp
  qed
qed

text \<open>
  C4. The exchange never touches a hit. When \<open>select\<close> fails it is with \<open>KeyError\<close>, because a
  candidate lies outside the mapping or a native miss is no candidate. Otherwise the selection is
  the native one with the listed exchanges applied: every token given up is a native miss whose
  score rank is at least \<open>protect_top\<close>, every token taken in is a scored extra candidate that is
  not resident, no token is exchanged twice, there are at most \<open>budget\<close> exchanges, the number of
  selected tokens and the resident ones among them are unchanged, the objective falls by at least
  one per exchange, and the value reported at the end, kept incrementally by the loop, is the
  objective recomputed from the final selection.
\<close>

theorem select_exchanges_misses_only:
  fixes rows :: "('s :: {linorder, uminus, minus}) candidate list"
  shows "case select native rows mapping current budget protect_top cached of
    Inl e \<Rightarrow> e = KeyError \<and>
      ((\<exists>r\<in>set rows. c_offset_bytes r div PAGE < 0 \<or> dense_len mapping \<le> c_offset_bytes r div PAGE) \<or>
       (\<exists>t\<in>set native - insert current cached. t \<notin> c_token ` set rows))
  | Inr (selected, xs, before, after) \<Rightarrow>
      selected = (set native - fst ` set xs) \<union> snd ` set xs \<and>
      fst ` set xs \<subseteq> removable_tokens native (insert current cached) rows protect_top \<and>
      snd ` set xs \<subseteq> fst ` set (scored_candidates rows) - set native - insert current cached \<and>
      distinct (map fst xs) \<and> distinct (map snd xs) \<and> length xs \<le> nat budget \<and>
      card selected = card (set native) \<and> selected \<inter> insert current cached = set native \<inter> insert current cached \<and>
      after + int (length xs) \<le> before \<and>
      (\<exists>info loads. info_of rows mapping Map.empty = Inr info \<and>
         pressure (sorted_list_of_set (selected - insert current cached)) info = Inr loads \<and> after = objective loads)"
  by (rule select_spec)

subsection \<open>The mapping and the declared-stride layout\<close>

text \<open>A loaded mapping has one page per CSV row, page \<open>i\<close> at position \<open>i\<close>, and no physical page twice.\<close>

definition mapping_ok :: "dense_mapping \<Rightarrow> bool" where
  "mapping_ok m \<longleftrightarrow> length m mod 8 = 0 \<and>
     (\<forall>i < length m div 8. m ! (8 * i) = int i) \<and>
     (\<forall>i < length m div 8. \<forall>j < length m div 8. m ! (8 * i + 1) = m ! (8 * j + 1) \<longrightarrow> i = j) \<and>
     (\<forall>v\<in>set m. 0 \<le> v \<and> v < 2 ^ 64)"

lemma mapping_ok_extend:
  assumes "mapping_ok m" and "length values = 8" and "values ! 0 = int (length m div 8)"
    and "values ! 1 \<notin> {m ! (8 * i + 1) | i. i < length m div 8}" and "\<forall>v\<in>set values. 0 \<le> v \<and> v < 2 ^ 64"
  shows "mapping_ok (m @ values)"
proof -
  obtain q where q: "length m = 8 * q" using assms(1) by (auto simp: mapping_ok_def)
  have d: "length (m @ values) div 8 = Suc q" using q assms(2) by simp
  have old: "(m @ values) ! (8 * i) = m ! (8 * i)" "(m @ values) ! (8 * i + 1) = m ! (8 * i + 1)" if "i < q" for i
    using that q by (simp_all add: nth_append)
  have new: "(m @ values) ! (8 * q) = values ! 0" "(m @ values) ! (8 * q + 1) = values ! 1"
    using q by (simp_all add: nth_append)
  have "(m @ values) ! (8 * i) = int i" if "i < Suc q" for i
    using that old(1) [of i] new(1) assms(1,3) q by (cases "i = q") (auto simp: mapping_ok_def)
  moreover have "i = j" if "i < Suc q" "j < Suc q" "(m @ values) ! (8 * i + 1) = (m @ values) ! (8 * j + 1)" for i j
  proof (cases "i < q \<and> j < q")
    case True
    then show ?thesis using that(3) old(2) [of i] old(2) [of j] assms(1) q by (auto simp: mapping_ok_def)
  next
    case False
    have ne: "values ! 1 \<noteq> m ! (8 * k + 1)" if "k < q" for k using that assms(4) q by auto
    show ?thesis
      using False that new(2) old(2) [of i] old(2) [of j] ne [of i] ne [of j] by (cases "i = q"; cases "j = q") auto
  qed
  ultimately show ?thesis using assms q d by (auto simp: mapping_ok_def)
qed

lemma load_mapping_rows_ok:
  assumes "load_mapping_rows rs seen m = Inr m'" and "mapping_ok m"
    and "seen = {m ! (8 * i + 1) | i. i < length m div 8}"
  shows "mapping_ok m' \<and> length m' = length m + 8 * length rs"
  using assms
proof (induction rs arbitrary: seen m)
  case (Cons r rs)
  from Cons.prems(1) obtain vs where v: "map_result (csv_int r) columns = Inr vs"
    and c: "vs ! 0 = dense_len m" "vs ! 1 \<notin> seen" "\<not> Min (set vs) < 0" "\<not> list_ex (\<lambda>v. 2 ^ 64 \<le> v) vs"
    and rest: "load_mapping_rows rs (insert (vs ! 1) seen) (m @ vs) = Inr m'"
    by (auto split: sum.splits if_splits)
  have len: "length vs = 8" using map_result_length [OF v] by (simp add: columns_def)
  have "\<forall>v\<in>set vs. Min (set vs) \<le> v" by simp
  then have rng: "\<forall>v\<in>set vs. 0 \<le> v \<and> v < 2 ^ 64" using c(3,4) by (meson list_ex_iff not_le order_trans)
  have ok: "mapping_ok (m @ vs)"
    using Cons.prems(2,3) len c(1,2) rng by (intro mapping_ok_extend) (auto simp: dense_len_def zdiv_int)
  obtain q where q: "length m = 8 * q" using Cons.prems(2) by (auto simp: mapping_ok_def)
  have "insert (vs ! 1) seen = {(m @ vs) ! (8 * i + 1) | i. i < Suc q}"
  proof -
    have "{(m @ vs) ! (8 * i + 1) | i. i < Suc q} = insert ((m @ vs) ! (8 * q + 1)) {(m @ vs) ! (8 * i + 1) | i. i < q}"
      by (auto simp: less_Suc_eq)
    moreover have "{(m @ vs) ! (8 * i + 1) | i. i < q} = seen"
    proof -
      have "(m @ vs) ! (8 * i + 1) = m ! (8 * i + 1)" if "i < q" for i using that q by (simp add: nth_append)
      then show ?thesis using Cons.prems(3) q by force
    qed
    moreover have "(m @ vs) ! (8 * q + 1) = vs ! 1" using q by (simp add: nth_append)
    ultimately show ?thesis by simp
  qed
  then have "mapping_ok m' \<and> length m' = length (m @ vs) + 8 * length rs"
    using q len by (intro Cons.IH [OF rest ok]) simp
  then show ?case using len by simp
qed simp

lemma load_mapping_ok:
  assumes "load_mapping rs = Inr m"
  shows "mapping_ok m" and "dense_len m = int (length rs)"
  using load_mapping_rows_ok [of rs "{}" "[]" m] assms
  by (auto simp: load_mapping_def mapping_ok_def dense_len_def zdiv_int)

lemma dense_getitem_ok:
  assumes "mapping_ok m" and "0 \<le> lpa" and "lpa < dense_len m"
  shows "\<exists>row. dense_getitem m lpa = Inr row \<and> pr_lpa row = lpa \<and> pr_ppa row = m ! (8 * nat lpa + 1)"
proof -
  have n: "8 * nat lpa + 8 \<le> length m" "nat lpa < length m div 8"
    using assms by (auto simp: dense_len_def)
  have "py_slice m (lpa * 8) ((lpa + 1) * 8) = take 8 (drop (8 * nat lpa) m)"
    using py_slice_inside [of "lpa * 8" 8 m] assms n by (simp add: algebra_simps nat_mult_distrib)
  then show ?thesis
    using assms n by (simp add: dense_getitem_def mapping_ok_def Let_def)
qed

text \<open>Distinct pages of a loaded mapping have distinct physical addresses.\<close>

lemma dense_getitem_inj:
  assumes "mapping_ok m" and "dense_getitem m a = Inr p" and "dense_getitem m b = Inr q" and "pr_ppa p = pr_ppa q"
  shows "a = b"
proof -
  have a: "0 \<le> a" "a < dense_len m" "0 \<le> b" "b < dense_len m"
    using assms(2,3) by (auto simp: dense_getitem_def split: if_splits)
  have "nat a = nat b"
    using assms dense_getitem_ok [OF assms(1) a(1,2)] dense_getitem_ok [OF assms(1) a(3,4)] a
    by (auto simp: mapping_ok_def dense_len_def)
  then show ?thesis using a by simp
qed

text \<open>
  In the declared-stride layout every layer has its own region of \<open>stride\<close> slots: the slots of
  distinct (layer, token) pairs do not overlap.
\<close>

lemma declared_stride_value:
  assumes "declared_stride_offsets layers stride slot = Inr bases" and "distinct layers" and "map_of bases l = Some b"
  shows "\<exists>i < length layers. sort layers ! i = l \<and> b = int i * stride * slot"
proof -
  let ?ls = "sort layers"
  let ?e = "map (\<lambda>(rank, layer). (layer, int rank * stride * slot)) (zip [0..<length ?ls] ?ls)"
  have "map fst ?e = ?ls" by (rule nth_equalityI) auto
  then have "distinct (map fst ?e)" using assms(2) by (metis distinct_sort)
  moreover have "bases = dict_update [] ?e"
    using assms(1) by (auto simp: declared_stride_offsets_def Let_def split: if_splits)
  ultimately have "map_of ?e l = Some b" using assms(3) map_of_dict_update [of ?e "[]"] by simp
  then obtain i where "i < length layers" "l = sort layers ! i" "b = int i * stride * slot"
    by (auto dest!: map_of_SomeD simp: set_zip)
  then show ?thesis by blast
qed

lemma declared_stride_disjoint:
  assumes "declared_stride_offsets layers stride slot = Inr bases" and "distinct layers" and "0 < slot"
    and "map_of bases l = Some b" and "map_of bases l' = Some b'"
    and "0 \<le> t" and "t < stride" and "0 \<le> t'" and "t' < stride" and "(l, t) \<noteq> (l', t')"
  shows "token_offset b t slot + slot \<le> token_offset b' t' slot \<or> token_offset b' t' slot + slot \<le> token_offset b t slot"
proof -
  obtain i i' where i: "sort layers ! i = l" "b = int i * stride * slot" "sort layers ! i' = l'" "b' = int i' * stride * slot"
    using declared_stride_value [OF assms(1,2,4)] declared_stride_value [OF assms(1,2,5)] by blast
  let ?p = "int i * stride + t" and ?q = "int i' * stride + t'"
  have "?p \<noteq> ?q"
  proof
    assume eq: "?p = ?q"
    have "int i = ?p div stride" "int i' = ?q div stride" using assms by (simp_all add: div_mult_self3)
    then have "i = i'" using eq by simp
    then show False using eq i assms(10) by auto
  qed
  then have "?p + 1 \<le> ?q \<or> ?q + 1 \<le> ?p" by linarith
  then have "(?p + 1) * slot \<le> ?q * slot \<or> (?q + 1) * slot \<le> ?p * slot"
    using assms(3) by (auto intro: mult_right_mono)
  then show ?thesis using i by (simp add: token_offset_def algebra_simps)
qed

end
