(* ===== verification/TraceBench.thy ===== *)
theory TraceBench
  imports SparseStore "HOL-Library.Product_Lexorder" "HOL-Library.List_Lexorder" "HOL-Library.Char_ord"
begin

section \<open>Single-SSD trace replay\<close>

text \<open>
  Model of \<open>bmpclient/bench/single_ssd.py\<close>: argument and trace parsing, the read planner, the
  preparation of the data set and the replay of a batch. The native SSD pool is a pair of
  parameters, its positional read and write; \<open>SHAKE-256\<close>, which generates the page contents, is a
  parameter too. Times, statistics counters of the library and the result file are not modelled.
\<close>

definition BENCH_PAGE :: int where "BENCH_PAGE = 4096"
definition KV_BYTES :: int where "KV_BYTES = 1152"

subsection \<open>size_arg and integer\<close>

definition upper_char :: "char \<Rightarrow> char" where
  "upper_char ch = (let n = of_char ch :: nat in if 97 \<le> n \<and> n \<le> 122 then char_of (n - 32) else ch)"

definition ends_with :: "string \<Rightarrow> string \<Rightarrow> bool" where
  "ends_with s suf \<longleftrightarrow> length suf \<le> length s \<and> drop (length s - length suf) s = suf"

text \<open>\<open>int(s, 0)\<close>: a prefix chooses the base; a decimal literal has no leading zero unless it is zero.\<close>

definition digit_of :: "char \<Rightarrow> nat" where
  "digit_of ch = (let n = of_char ch :: nat in
     if 48 \<le> n \<and> n \<le> 57 then n - 48 else if 65 \<le> n \<and> n \<le> 90 then n - 55
     else if 97 \<le> n \<and> n \<le> 122 then n - 87 else 36)"

fun digits_base :: "nat \<Rightarrow> nat \<Rightarrow> bool \<Rightarrow> string \<Rightarrow> nat option" where
  "digits_base b acc prev [] = (if prev then Some acc else None)"
| "digits_base b acc prev (ch # cs) =
     (if digit_of ch < b then digits_base b (b * acc + digit_of ch) True cs
      else if ch = CHR ''_'' \<and> prev then digits_base b acc False cs else None)"

definition base_digits :: "nat \<Rightarrow> string \<Rightarrow> nat option" where
  "base_digits b cs = (case cs of CHR ''_'' # ds \<Rightarrow> digits_base b 0 False ds | _ \<Rightarrow> digits_base b 0 False cs)"

definition prefixed_value :: "string \<Rightarrow> nat option" where
  "prefixed_value s =
     (case s of
        [] \<Rightarrow> None
      | [ch] \<Rightarrow> digits_val 0 False s
      | z # ch # cs \<Rightarrow>
          if z \<noteq> CHR ''0'' then digits_val 0 False s
          else if ch = CHR ''X'' \<or> ch = CHR ''x'' then base_digits 16 cs
          else if ch = CHR ''O'' \<or> ch = CHR ''o'' then base_digits 8 cs
          else if ch = CHR ''B'' \<or> ch = CHR ''b'' then base_digits 2 cs
          else (case digits_val 0 False s of Some 0 \<Rightarrow> Some 0 | _ \<Rightarrow> None))"

definition int_base0 :: "string \<Rightarrow> int option" where
  "int_base0 s =
     (case strip s of
        [] \<Rightarrow> None
      | ch # cs \<Rightarrow>
          if ch = CHR ''-'' then map_option (\<lambda>n. - int n) (prefixed_value cs)
          else if ch = CHR ''+'' then map_option int (prefixed_value cs)
          else map_option int (prefixed_value (ch # cs)))"

definition size_suffixes :: "(string \<times> int) list" where
  "size_suffixes = [(''GIB'', 2 ^ 30), (''MIB'', 2 ^ 20), (''KIB'', 2 ^ 10),
                    (''G'', 2 ^ 30), (''M'', 2 ^ 20), (''K'', 2 ^ 10)]"

fun size_loop :: "(string \<times> int) list \<Rightarrow> string \<Rightarrow> int result" where
  "size_loop [] v = (case int_base0 v of None \<Rightarrow> Inl ValueError | Some i \<Rightarrow> Inr i)"
| "size_loop ((suffix, scale) # rest) v =
     (if ends_with v suffix
      then (case parse_int (take (length v - length suffix) v) of None \<Rightarrow> Inl ValueError | Some i \<Rightarrow> Inr (i * scale))
      else size_loop rest v)"

definition size_arg :: "jval \<Rightarrow> int result" where
  "size_arg value = size_loop size_suffixes (map upper_char (strip (py_str value)))"

text \<open>\<open>type(value) is not int\<close> also excludes booleans.\<close>

definition integer :: "jval \<Rightarrow> int \<Rightarrow> int result" where
  "integer value minimum =
     (case value of JInt i \<Rightarrow> if i < minimum then Inl ValueError else Inr i | _ \<Rightarrow> Inl ValueError)"

subsection \<open>load_trace\<close>

text \<open>
  A line of the trace file: blank, not a JSON text, or the parsed value. The digest of the file is
  not modelled.
\<close>

datatype trace_line = BlankLine | BadLine | JsonLine jval

type_synonym row_key = "string \<times> int"

record trace =
  tr_records :: "jdict list"
  tr_bases :: "(row_key \<times> int) list"
  tr_rows :: int

definition jget :: "jdict \<Rightarrow> string \<Rightarrow> jval result" where
  "jget d k = (case map_of d k of None \<Rightarrow> Inl KeyError | Some v \<Rightarrow> Inr v)"

definition jint :: "jdict \<Rightarrow> string \<Rightarrow> int \<Rightarrow> int result" where
  "jint d k minimum = (case jget d k of Inl e \<Rightarrow> Inl e | Inr v \<Rightarrow> integer v minimum)"

fun check_tokens :: "jval list \<Rightarrow> int \<Rightarrow> int list result" where
  "check_tokens [] ctx = Inr []"
| "check_tokens (v # vs) ctx =
     (case integer v 0 of Inl e \<Rightarrow> Inl e
      | Inr t \<Rightarrow> if ctx \<le> t then Inl ValueError
                 else (case check_tokens vs ctx of Inl e \<Rightarrow> Inl e | Inr ts \<Rightarrow> Inr (t # ts)))"

text \<open>The validation of one record: its key, its context length and its token indices.\<close>

definition check_record :: "int \<Rightarrow> bool \<Rightarrow> jval \<Rightarrow> (jdict \<times> row_key \<times> int \<times> int list) result" where
  "check_record max_topk allow_empty value =
     (case value of
        JObj r \<Rightarrow>
          (case map_of r ''request_id'' of
             Some (JStr req) \<Rightarrow>
               if req = [] then Inl ValueError
               else (case jint r ''step_id'' 0 of Inl e \<Rightarrow> Inl e
                | Inr _ \<Rightarrow> (case jint r ''layer_id'' 0 of Inl e \<Rightarrow> Inl e
                | Inr layer \<Rightarrow> (case jint r ''context_length'' 1 of Inl e \<Rightarrow> Inl e
                | Inr ctx \<Rightarrow> (case jget r ''topk_token_indices'' of Inl e \<Rightarrow> Inl e
                | Inr v \<Rightarrow>
                    (case v of
                       JArr vs \<Rightarrow>
                         if (if allow_empty then 0 else 1) \<le> int (length vs) \<and> int (length vs) \<le> max_topk
                         then (case check_tokens vs ctx of Inl e \<Rightarrow> Inl e | Inr ts \<Rightarrow> Inr (r, (req, layer), ctx, ts))
                         else Inl ValueError
                     | _ \<Rightarrow> Inl ValueError)))))
           | _ \<Rightarrow> Inl ValueError)
      | _ \<Rightarrow> Inl ValueError)"

text \<open>The reading loop; every exception of a line is turned into \<open>ValueError\<close>.\<close>

fun read_lines ::
  "int \<Rightarrow> bool \<Rightarrow> trace_line list \<Rightarrow> jdict list \<Rightarrow> (row_key \<times> int) list \<Rightarrow> (jdict list \<times> (row_key \<times> int) list) result" where
  "read_lines max_topk allow_empty [] records lengths = Inr (records, lengths)"
| "read_lines max_topk allow_empty (BlankLine # ls) records lengths =
     read_lines max_topk allow_empty ls records lengths"
| "read_lines max_topk allow_empty (BadLine # ls) records lengths = Inl ValueError"
| "read_lines max_topk allow_empty (JsonLine v # ls) records lengths =
     (case check_record max_topk allow_empty v of
        Inl e \<Rightarrow> Inl ValueError
      | Inr (r, key, ctx, ts) \<Rightarrow>
          read_lines max_topk allow_empty ls (records @ [r])
            (dict_set key (max (dict_get lengths key 0) ctx) lengths))"

fun assign_bases :: "(row_key \<times> int) list \<Rightarrow> row_key list \<Rightarrow> int \<Rightarrow> (row_key \<times> int) list \<times> int" where
  "assign_bases lengths [] rows = ([], rows)"
| "assign_bases lengths (k # ks) rows =
     (let (bs, tot) = assign_bases lengths ks (rows + dict_get lengths k 0) in ((k, rows) # bs, tot))"

definition load_trace :: "trace_line list \<Rightarrow> int \<Rightarrow> bool \<Rightarrow> trace result" where
  "load_trace ls max_topk allow_empty =
     (case read_lines max_topk allow_empty ls [] [] of
        Inl e \<Rightarrow> Inl e
      | Inr (records, lengths) \<Rightarrow>
          if records = [] then Inl ValueError
          else let (bases, rows) = assign_bases lengths (sort (map fst lengths)) 0
               in Inr \<lparr>tr_records = records, tr_bases = bases, tr_rows = rows\<rparr>)"

subsection \<open>plan_rows\<close>

type_synonym run = "int \<times> int \<times> int"

definition position :: "int list \<Rightarrow> int \<Rightarrow> int option" where
  "position rows = map_of (zip rows (map int [0..<length rows]))"

definition run_step :: "bool \<Rightarrow> int \<Rightarrow> run list \<Rightarrow> int \<times> int \<Rightarrow> run list" where
  "run_step merge max_rows runs p =
     (let (pos, row) = p in
      if merge \<and> runs \<noteq> [] \<and>
         (case last runs of (start, dst, n) \<Rightarrow> row = start + n \<and> n < max_rows)
      then (case last runs of (start, dst, n) \<Rightarrow> butlast runs @ [(start, dst, n + 1)])
      else runs @ [(row, pos, 1)])"

text \<open>\<open>lookup[base + t]\<close> cannot fail: the dictionary holds every \<open>base + t\<close> (lemma \<open>position_ok\<close>).\<close>

definition plan_rows :: "int list \<Rightarrow> int \<Rightarrow> bool \<Rightarrow> int \<Rightarrow> int list \<times> int list \<times> run list" where
  "plan_rows indices base merge max_read =
     (let rows = sorted_list_of_set ((\<lambda>t. base + t) ` set indices);
          slots = map (\<lambda>t. the (position rows (base + t))) indices;
          max_rows = max_read div BENCH_PAGE
      in (rows, slots, foldl (run_step merge max_rows) [] (zip (map int [0..<length rows]) rows)))"

subsection \<open>Contents of the data set\<close>

text \<open>\<open>pattern(row, seed)\<close>: the parameter is the 4096-byte SHAKE-256 output of its argument.\<close>

definition pattern :: "(bytes \<Rightarrow> bytes) \<Rightarrow> int \<Rightarrow> int \<Rightarrow> bytes result" where
  "pattern shake row seed =
     (case pack_fields [(8, row), (8, seed)] of Inl e \<Rightarrow> Inl e | Inr b \<Rightarrow> Inr (shake b))"

definition py_range :: "int \<Rightarrow> int \<Rightarrow> int \<Rightarrow> int list" where
  "py_range start stop step = map (\<lambda>i. start + int i * step) [0..<nat ((stop - start + step - 1) div step)]"

subsection \<open>prepare\<close>

definition write_pieces ::
  "('p \<Rightarrow> int \<Rightarrow> bytes \<Rightarrow> 'p result) \<Rightarrow> int \<Rightarrow> int \<Rightarrow> int \<Rightarrow> bytes \<Rightarrow> int \<Rightarrow> 'p \<Rightarrow> (unit, 'p) outcome" where
  "write_pieces pwrite start len write_size generated local p =
     (let size = min write_size (len - local) in
      case pwrite p (start + local) (py_slice generated local (local + size)) of
        Inl e \<Rightarrow> (Inl e, p) | Inr p' \<Rightarrow> (Inr (), p'))"

definition prepare_chunk ::
  "(bytes \<Rightarrow> bytes) \<Rightarrow> ('p \<Rightarrow> int \<Rightarrow> bytes \<Rightarrow> 'p result) \<Rightarrow> int \<Rightarrow> int \<Rightarrow> int \<Rightarrow> int \<Rightarrow> int \<Rightarrow> 'p \<Rightarrow> (unit, 'p) outcome" where
  "prepare_chunk shake pwrite dataset_bytes write_size generation_chunk seed start p =
     (let len = min generation_chunk (dataset_bytes - start) in
      case map_result (\<lambda>row. pattern shake row seed)
             (py_range (start div BENCH_PAGE) ((start + len) div BENCH_PAGE) 1) of
        Inl e \<Rightarrow> (Inl e, p)
      | Inr pages \<Rightarrow>
          for_each (write_pieces pwrite start len write_size (concat pages)) (py_range 0 len write_size) p)"

definition prepare ::
  "(bytes \<Rightarrow> bytes) \<Rightarrow> ('p \<Rightarrow> int \<Rightarrow> bytes \<Rightarrow> 'p result) \<Rightarrow> int \<Rightarrow> int \<Rightarrow> int \<Rightarrow> int \<Rightarrow> 'p \<Rightarrow> (unit, 'p) outcome" where
  "prepare shake pwrite dataset_bytes write_size generation_chunk seed p =
     for_each (prepare_chunk shake pwrite dataset_bytes write_size generation_chunk seed)
       (py_range 0 dataset_bytes generation_chunk) p"

subsection \<open>replay\<close>

text \<open>
  \<open>memmove\<close> into a buffer of fixed size; a move outside it is undefined behaviour, \<open>None\<close>. The
  reads of a batch run on worker threads, so they complete in some order: \<open>order\<close> is the list of
  runs in the order of completion.
\<close>

definition memmove :: "bytes \<Rightarrow> int \<Rightarrow> bytes \<Rightarrow> bytes option" where
  "memmove buf off data =
     (if 0 \<le> off \<and> off + int (length data) \<le> int (length buf) then Some (put_block (nat off) data buf) else None)"

definition read_run ::
  "('p \<Rightarrow> int \<Rightarrow> int \<Rightarrow> bytes result) \<Rightarrow> 'p \<Rightarrow> int \<Rightarrow> run \<Rightarrow> bytes \<Rightarrow> bytes result option" where
  "read_run pread p max_read r output =
     (case r of (row, dst, n) \<Rightarrow>
        if max_read < n * BENCH_PAGE then None
        else (case pread p (row * BENCH_PAGE) (n * BENCH_PAGE) of
                Inl e \<Rightarrow> Some (Inl e)
              | Inr data \<Rightarrow> map_option Inr (memmove output (dst * BENCH_PAGE) data)))"

fun read_runs ::
  "('p \<Rightarrow> int \<Rightarrow> int \<Rightarrow> bytes result) \<Rightarrow> 'p \<Rightarrow> int \<Rightarrow> run list \<Rightarrow> bytes \<Rightarrow> bytes result option" where
  "read_runs pread p max_read [] output = Some (Inr output)"
| "read_runs pread p max_read (r # rs) output =
     (case read_run pread p max_read r output of
        None \<Rightarrow> None | Some (Inl e) \<Rightarrow> Some (Inl e) | Some (Inr output') \<Rightarrow> read_runs pread p max_read rs output')"

text \<open>Restore the requested order, duplicates included.\<close>

fun gather_slots :: "int list \<Rightarrow> int \<Rightarrow> bytes \<Rightarrow> bytes \<Rightarrow> bytes option" where
  "gather_slots [] pos output ordered = Some ordered"
| "gather_slots (slot # ss) pos output ordered =
     (if slot * BENCH_PAGE < 0 \<or> int (length output) < slot * BENCH_PAGE + BENCH_PAGE then None
      else (case memmove ordered (pos * BENCH_PAGE) (block_at (nat (slot * BENCH_PAGE)) (nat BENCH_PAGE) output) of
              None \<Rightarrow> None | Some ordered' \<Rightarrow> gather_slots ss (pos + 1) output ordered'))"

fun verify_rows :: "(bytes \<Rightarrow> bytes) \<Rightarrow> int \<Rightarrow> int \<Rightarrow> int list \<Rightarrow> int \<Rightarrow> bytes \<Rightarrow> unit result" where
  "verify_rows shake seed base [] pos ordered = Inr ()"
| "verify_rows shake seed base (t # ts) pos ordered =
     (case pattern shake (base + t) seed of
        Inl e \<Rightarrow> Inl e
      | Inr want \<Rightarrow>
          if block_at (nat (pos * BENCH_PAGE)) (nat BENCH_PAGE) ordered \<noteq> want then Inl RuntimeError
          else verify_rows shake seed base ts (pos + 1) ordered)"

definition replay_record ::
  "(bytes \<Rightarrow> bytes) \<Rightarrow> ('p \<Rightarrow> int \<Rightarrow> int \<Rightarrow> bytes result) \<Rightarrow> 'p \<Rightarrow> bool \<Rightarrow> int \<Rightarrow> int \<Rightarrow> bool \<Rightarrow>
   (run list \<Rightarrow> run list) \<Rightarrow> int \<Rightarrow> int list \<Rightarrow> bytes \<times> bytes \<Rightarrow> (bytes \<times> bytes) result option" where
  "replay_record shake pread p merge max_read seed verify order base indices bufs =
     (case bufs of (output, ordered) \<Rightarrow>
      case plan_rows indices base merge max_read of (rows, slots, runs) \<Rightarrow>
      case read_runs pread p max_read (order runs) output of
        None \<Rightarrow> None
      | Some (Inl e) \<Rightarrow> Some (Inl e)
      | Some (Inr output') \<Rightarrow>
          (case gather_slots slots 0 output' ordered of
             None \<Rightarrow> None
           | Some ordered' \<Rightarrow>
               (case (if verify then verify_rows shake seed base indices 0 ordered' else Inr ()) of
                  Inl e \<Rightarrow> Some (Inl e)
                | Inr _ \<Rightarrow> Some (Inr (output', ordered')))))"

text \<open>The fields of a validated record.\<close>

definition rec_str :: "jdict \<Rightarrow> string \<Rightarrow> string" where
  "rec_str r k = (case map_of r k of Some (JStr s) \<Rightarrow> s | _ \<Rightarrow> [])"

definition rec_int :: "jdict \<Rightarrow> string \<Rightarrow> int" where
  "rec_int r k = (case map_of r k of Some (JInt i) \<Rightarrow> i | _ \<Rightarrow> 0)"

definition rec_key :: "jdict \<Rightarrow> row_key" where
  "rec_key r = (rec_str r ''request_id'', rec_int r ''layer_id'')"

definition rec_tokens :: "jdict \<Rightarrow> int list" where
  "rec_tokens r = (case map_of r ''topk_token_indices'' of
     Some (JArr vs) \<Rightarrow> map (\<lambda>v. case v of JInt i \<Rightarrow> i | _ \<Rightarrow> 0) vs | _ \<Rightarrow> [])"

text \<open>
  The replay of a trace: the warm-up records first, then all records. \<open>order n\<close> is the order in
  which the reads of the \<open>n\<close>-th batch complete.
\<close>

fun replay_loop ::
  "(bytes \<Rightarrow> bytes) \<Rightarrow> ('p \<Rightarrow> int \<Rightarrow> int \<Rightarrow> bytes result) \<Rightarrow> 'p \<Rightarrow> trace \<Rightarrow> bool \<Rightarrow> int \<Rightarrow> int \<Rightarrow> bool \<Rightarrow>
   (nat \<Rightarrow> run list \<Rightarrow> run list) \<Rightarrow> nat \<Rightarrow> jdict list \<Rightarrow> bytes \<times> bytes \<Rightarrow> (bytes \<times> bytes) result option" where
  "replay_loop shake pread p tr merge max_read seed verify order n [] bufs = Some (Inr bufs)"
| "replay_loop shake pread p tr merge max_read seed verify order n (r # rs) bufs =
     (case map_of (tr_bases tr) (rec_key r) of
        None \<Rightarrow> Some (Inl KeyError)
      | Some base \<Rightarrow>
          (case replay_record shake pread p merge max_read seed verify (order n) base (rec_tokens r) bufs of
             None \<Rightarrow> None
           | Some (Inl e) \<Rightarrow> Some (Inl e)
           | Some (Inr bufs') \<Rightarrow> replay_loop shake pread p tr merge max_read seed verify order (Suc n) rs bufs'))"

definition replay ::
  "(bytes \<Rightarrow> bytes) \<Rightarrow> ('p \<Rightarrow> int \<Rightarrow> int \<Rightarrow> bytes result) \<Rightarrow> 'p \<Rightarrow> trace \<Rightarrow> bool \<Rightarrow> int \<Rightarrow> int \<Rightarrow> int \<Rightarrow> bool \<Rightarrow> nat \<Rightarrow>
   (nat \<Rightarrow> run list \<Rightarrow> run list) \<Rightarrow> (bytes \<times> bytes) result option" where
  "replay shake pread p tr merge max_read max_topk seed verify warmup order =
     (let fresh = replicate (nat (max_topk * BENCH_PAGE)) 0 in
      replay_loop shake pread p tr merge max_read seed verify order 0
        (take warmup (tr_records tr) @ tr_records tr) (fresh, fresh))"

subsection \<open>The checks of run\<close>

record run_args =
  ra_segments :: "int list"
  ra_workers :: int
  ra_max_read_bytes :: int
  ra_max_topk :: int
  ra_repeats :: int
  ra_warmup_batches :: int
  ra_seed :: int
  ra_window_offset :: "int option"
  ra_window_bytes :: "int option"

record run_plan =
  rp_sizes :: "int list"
  rp_trace :: trace
  rp_dataset :: int
  rp_base :: int
  rp_capacity :: int

definition run_checks :: "run_args \<Rightarrow> trace_line list \<Rightarrow> run_plan result" where
  "run_checks a ls =
     (if ra_workers a < 1 \<or> ra_max_topk a < 1 \<or> ra_repeats a < 1 \<or> ra_warmup_batches a < 0 \<or> ra_seed a < 0
         \<or> 2 ^ 64 \<le> ra_seed a then Inl ValueError
      else
        let sizes = sorted_list_of_set (insert BENCH_PAGE (set (ra_segments a))); largest = Max (set sizes) in
        if list_ex (\<lambda>s. s < BENCH_PAGE \<or> s mod BENCH_PAGE \<noteq> 0) sizes \<or> list_ex (\<lambda>s. largest mod s \<noteq> 0) sizes
        then Inl ValueError
        else if ra_max_read_bytes a < BENCH_PAGE \<or> ra_max_read_bytes a mod BENCH_PAGE \<noteq> 0 then Inl ValueError
        else (case load_trace ls (ra_max_topk a) False of
                Inl e \<Rightarrow> Inl e
              | Inr tr \<Rightarrow>
                  if int (length (tr_records tr)) < ra_warmup_batches a then Inl ValueError
                  else
                    let dataset = (tr_rows tr * BENCH_PAGE + largest - 1) div largest * largest;
                        base = (case ra_window_offset a of None \<Rightarrow> 0 | Some b \<Rightarrow> b);
                        capacity = (case ra_window_bytes a of None \<Rightarrow> dataset | Some c \<Rightarrow> c) in
                    if base < 0 \<or> base mod BENCH_PAGE \<noteq> 0 \<or> capacity < dataset \<or> capacity mod BENCH_PAGE \<noteq> 0
                    then Inl ValueError
                    else Inr \<lparr>rp_sizes = sizes, rp_trace = tr, rp_dataset = dataset, rp_base = base, rp_capacity = capacity\<rparr>))"

subsection \<open>The read plan covers the rows\<close>

definition run_rows :: "run \<Rightarrow> int list" where
  "run_rows r = (case r of (start, dst, n) \<Rightarrow> map (\<lambda>i. start + int i) [0..<nat n])"

definition run_dsts :: "run \<Rightarrow> int list" where
  "run_dsts r = (case r of (start, dst, n) \<Rightarrow> map (\<lambda>i. dst + int i) [0..<nat n])"

definition runs_ok :: "int \<Rightarrow> int list \<Rightarrow> run list \<Rightarrow> bool" where
  "runs_ok max_rows rows runs \<longleftrightarrow>
     concat (map run_rows runs) = rows \<and> concat (map run_dsts runs) = map int [0..<length rows] \<and>
     (\<forall>(start, dst, n)\<in>set runs. 1 \<le> n \<and> n \<le> max 1 max_rows)"

lemma run_snoc:
  "0 \<le> n \<Longrightarrow> run_rows (s, d, n + 1) = run_rows (s, d, n) @ [s + n]"
  "0 \<le> n \<Longrightarrow> run_dsts (s, d, n + 1) = run_dsts (s, d, n) @ [d + n]"
  by (simp_all add: run_rows_def run_dsts_def nat_add_distrib)

lemma runs_ok_step:
  assumes "runs_ok max_rows rows runs"
  shows "runs_ok max_rows (rows @ [row]) (run_step merge max_rows runs (int (length rows), row))"
proof (cases "merge \<and> runs \<noteq> [] \<and> (case last runs of (s, d, n) \<Rightarrow> row = s + n \<and> n < max_rows)")
  case True
  then obtain rs s d n where r: "runs = rs @ [(s, d, n)]" "row = s + n" "n < max_rows"
    by (cases runs rule: rev_cases) auto
  have n: "1 \<le> n" using assms r by (auto simp: runs_ok_def)
  have dsts: "concat (map run_dsts rs) @ run_dsts (s, d, n) = map int [0..<length rows]"
    using assms r by (simp add: runs_ok_def)
  have "run_dsts (s, d, n) \<noteq> []" "last (run_dsts (s, d, n)) = d + n - 1"
    using n run_snoc(2) [of "n - 1" s d] by auto
  then have "d + n - 1 = last (map int [0..<length rows])" using dsts by (metis last_appendR)
  moreover have "length rows \<noteq> 0" using dsts \<open>run_dsts (s, d, n) \<noteq> []\<close> by (cases "length rows") auto
  ultimately have d: "d + n = int (length rows)" by (cases "length rows") (auto simp: last_map)
  have step: "run_step merge max_rows runs (int (length rows), row) = rs @ [(s, d, n + 1)]"
    using True r by (simp add: run_step_def)
  show ?thesis
    unfolding step using assms r n d by (auto simp: runs_ok_def run_snoc)
next
  case False
  then have "run_step merge max_rows runs (int (length rows), row) = runs @ [(row, int (length rows), 1)]"
    by (auto simp: run_step_def)
  then show ?thesis using assms by (auto simp: runs_ok_def run_rows_def run_dsts_def)
qed

lemma runs_ok_fold: "runs_ok max_rows rows (foldl (run_step merge max_rows) [] (zip (map int [0..<length rows]) rows))"
proof (induction rows rule: rev_induct)
  case (snoc row rows)
  then show ?case using runs_ok_step by simp
qed (simp add: runs_ok_def)

lemma position_ok:
  assumes "distinct rows" and "r \<in> set rows"
  obtains i where "i < length rows" and "rows ! i = r" and "position rows r = Some (int i)"
proof -
  obtain i where i: "i < length rows" "rows ! i = r" using assms(2) by (auto simp: in_set_conv_nth)
  have "map_of (zip rows (map int [0..<length rows])) (rows ! i) = Some (map int [0..<length rows] ! i)"
    using assms(1) i(1) by (intro map_of_zip_nth) auto
  then show thesis using that [OF i] i by (simp add: position_def)
qed

lemma plan_slots:
  assumes "plan_rows indices base merge max_read = (rows, slots, runs)" and i: "i < length indices"
  shows "0 \<le> slots ! i \<and> slots ! i < int (length rows) \<and> rows ! nat (slots ! i) = base + indices ! i"
proof -
  have rows: "rows = sorted_list_of_set ((\<lambda>t. base + t) ` set indices)"
    and slots: "slots = map (\<lambda>t. the (position rows (base + t))) indices"
    using assms(1) by (auto simp: plan_rows_def Let_def)
  have "distinct rows" "base + indices ! i \<in> set rows" using rows i by auto
  then obtain j where "j < length rows" "rows ! j = base + indices ! i"
      "position rows (base + indices ! i) = Some (int j)"
    by (rule position_ok)
  then show ?thesis using slots i by simp
qed

text \<open>
  The read plan of a batch: its rows are the distinct requested rows in ascending order, each
  requested position has the slot of its row, and the runs, one after the other, read exactly the
  rows into consecutive slots, each run being non-empty and no larger than the read limit allows.
\<close>

theorem plan_rows_covers:
  assumes "plan_rows indices base merge max_read = (rows, slots, runs)" and "BENCH_PAGE \<le> max_read"
  shows "sorted rows \<and> distinct rows \<and> set rows = (\<lambda>t. base + t) ` set indices \<and>
    length slots = length indices \<and>
    (\<forall>i < length indices. 0 \<le> slots ! i \<and> slots ! i < int (length rows) \<and> rows ! nat (slots ! i) = base + indices ! i) \<and>
    concat (map run_rows runs) = rows \<and> concat (map run_dsts runs) = map int [0..<length rows] \<and>
    (\<forall>(start, dst, n)\<in>set runs. 1 \<le> n \<and> n * BENCH_PAGE \<le> max_read)"
proof -
  have rows: "rows = sorted_list_of_set ((\<lambda>t. base + t) ` set indices)"
    and slots: "slots = map (\<lambda>t. the (position rows (base + t))) indices"
    and rs: "runs = foldl (run_step merge (max_read div BENCH_PAGE)) [] (zip (map int [0..<length rows]) rows)"
    using assms(1) by (auto simp: plan_rows_def Let_def)
  have runs: "runs_ok (max_read div BENCH_PAGE) rows runs" unfolding rs by (rule runs_ok_fold)
  have "n * BENCH_PAGE \<le> max_read" if "n \<le> max 1 (max_read div BENCH_PAGE)" for n
    using that assms(2) by (auto simp: BENCH_PAGE_def)
  then show ?thesis using rows slots plan_slots [OF assms(1)] runs by (fastforce simp: runs_ok_def)
qed

theorem plan_rows_covers_witness:
  "plan_rows [5, 3, 4, 9, 3] 100 True 8192 = ([103, 104, 105, 109], [2, 0, 1, 3, 0], [(103, 0, 2), (105, 2, 1), (109, 3, 1)]) \<and>
   concat (map run_rows [(103, 0, 2), (105, 2, 1), (109, 3, 1)]) = [103, 104, 105, 109 :: int]"
proof -
  have e: "plan_rows [5, 3, 4, 9, 3] 100 True 8192 = ([103, 104, 105, 109], [2, 0, 1, 3, 0], [(103, 0, 2), (105, 2, 1), (109, 3, 1)])"
    by code_simp
  show ?thesis using plan_rows_covers [OF e] e by (simp add: BENCH_PAGE_def)
qed

subsection \<open>Trace geometry\<close>

lemma check_tokens_ok: "check_tokens vs ctx = Inr ts \<Longrightarrow> vs = map JInt ts \<and> (\<forall>t\<in>set ts. 0 \<le> t \<and> t < ctx)"
  by (induction vs arbitrary: ts) (auto simp: integer_def split: sum.splits if_splits jval.splits)

definition record_ok :: "int \<Rightarrow> jdict \<Rightarrow> bool" where
  "record_ok max_topk r \<longleftrightarrow>
     int (length (rec_tokens r)) \<le> max_topk \<and> 0 < rec_int r ''context_length'' \<and>
     (\<forall>t\<in>set (rec_tokens r). 0 \<le> t \<and> t < rec_int r ''context_length'')"

lemma jint_ok: "jint r k m = Inr i \<Longrightarrow> map_of r k = Some (JInt i) \<and> m \<le> i"
  by (auto simp: jint_def jget_def integer_def split: sum.splits option.splits jval.splits if_splits)

lemma check_record_ok:
  assumes "check_record max_topk allow_empty v = Inr (r, key, ctx, ts)"
  shows "v = JObj r" and "key = rec_key r" and "ctx = rec_int r ''context_length''" and "ts = rec_tokens r"
    and "record_ok max_topk r" and "allow_empty \<or> ts \<noteq> []"
proof -
  from assms obtain req st layer vs where v: "v = JObj r" and key: "key = (req, layer)" "map_of r ''request_id'' = Some (JStr req)"
    and ints: "jint r ''step_id'' 0 = Inr st" "jint r ''layer_id'' 0 = Inr layer" "jint r ''context_length'' 1 = Inr ctx"
    and vs: "map_of r ''topk_token_indices'' = Some (JArr vs)" "check_tokens vs ctx = Inr ts"
    and len: "(if allow_empty then 0 else 1) \<le> int (length vs)" "int (length vs) \<le> max_topk"
    by (auto simp: check_record_def jget_def split: jval.splits option.splits if_splits sum.splits)
  have tok: "rec_tokens r = ts" using vs check_tokens_ok [OF vs(2)] by (simp add: rec_tokens_def comp_def)
  have ctx: "ctx = rec_int r ''context_length''" "1 \<le> ctx" using jint_ok [OF ints(3)] by (simp_all add: rec_int_def)
  show "v = JObj r" "key = rec_key r" "ctx = rec_int r ''context_length''" "ts = rec_tokens r"
    using v key jint_ok [OF ints(2)] tok ctx by (simp_all add: rec_key_def rec_str_def rec_int_def)
  show "record_ok max_topk r" "allow_empty \<or> ts \<noteq> []"
    using tok ctx len check_tokens_ok [OF vs(2)] by (auto simp: record_ok_def)
qed

lemma dict_get_set: "dict_get (dict_set k v d) k' dflt = (if k' = k then v else dict_get d k' dflt)"
  by (simp add: dict_get_def)

lemma read_lines_ok:
  assumes "read_lines max_topk allow_empty ls rs lengths = Inr (records, lengths')" and "distinct (map fst lengths)"
    and "\<forall>r\<in>set rs. record_ok max_topk r \<and> rec_int r ''context_length'' \<le> dict_get lengths (rec_key r) 0"
    and "\<forall>k. 0 \<le> dict_get lengths k 0"
  shows "distinct (map fst lengths') \<and> (\<forall>k. 0 \<le> dict_get lengths' k 0) \<and>
    (\<forall>r\<in>set records. record_ok max_topk r \<and> rec_int r ''context_length'' \<le> dict_get lengths' (rec_key r) 0)"
  using assms
proof (induction ls arbitrary: rs lengths)
  case (Cons l ls)
  show ?case
  proof (cases l)
    case (JsonLine v)
    with Cons.prems(1) obtain r key ctx ts where c: "check_record max_topk allow_empty v = Inr (r, key, ctx, ts)"
      and rest: "read_lines max_topk allow_empty ls (rs @ [r]) (dict_set key (max (dict_get lengths key 0) ctx) lengths) = Inr (records, lengths')"
      by (auto split: sum.splits)
    have "0 \<le> rec_int r ''context_length''" using check_record_ok(5) [OF c] by (simp add: record_ok_def)
    then show ?thesis
      using Cons.prems(2,3,4) check_record_ok [OF c]
      by (intro Cons.IH [OF rest]) (auto simp: dict_get_set max.coboundedI1 max.coboundedI2)
  qed (use Cons in simp_all)
qed auto

lemma assign_bases_ok:
  assumes "assign_bases lengths ks rows = (bs, tot)" and "distinct ks" and "\<forall>k. 0 \<le> dict_get lengths k 0"
  shows "rows \<le> tot \<and> map fst bs = ks \<and>
    (\<forall>k b. map_of bs k = Some b \<longrightarrow> rows \<le> b \<and> b + dict_get lengths k 0 \<le> tot)"
  using assms
proof (induction ks arbitrary: rows bs)
  case (Cons k ks)
  obtain bs' where bs: "bs = (k, rows) # bs'" and rest: "assign_bases lengths ks (rows + dict_get lengths k 0) = (bs', tot)"
    using Cons.prems(1) by (auto simp: Let_def split: prod.splits)
  have "0 \<le> dict_get lengths k 0" using Cons.prems(3) by blast
  with Cons.IH [OF rest] Cons.prems(2,3) bs show ?case
    by (auto split: if_splits) (smt (verit))+
qed simp

lemma load_trace_ok:
  assumes "load_trace ls max_topk allow_empty = Inr tr"
  shows "tr_records tr \<noteq> []" and "0 \<le> tr_rows tr"
    and "r \<in> set (tr_records tr) \<Longrightarrow> record_ok max_topk r \<and>
      (\<exists>b. map_of (tr_bases tr) (rec_key r) = Some b \<and> 0 \<le> b \<and> b + rec_int r ''context_length'' \<le> tr_rows tr)"
proof -
  from assms obtain records lengths bases rows where
    rd: "read_lines max_topk allow_empty ls [] [] = Inr (records, lengths)" and ne: "records \<noteq> []"
    and as: "assign_bases lengths (sort (map fst lengths)) 0 = (bases, rows)"
    and tr: "tr = \<lparr>tr_records = records, tr_bases = bases, tr_rows = rows\<rparr>"
    by (auto simp: load_trace_def Let_def split: sum.splits if_splits prod.splits)
  have L: "distinct (map fst lengths)" "\<forall>k. 0 \<le> dict_get lengths k 0"
    "\<forall>r\<in>set records. record_ok max_topk r \<and> rec_int r ''context_length'' \<le> dict_get lengths (rec_key r) 0"
    using read_lines_ok [OF rd] by (auto simp: dict_get_def)
  have B: "0 \<le> rows" "map fst bases = sort (map fst lengths)"
    "\<forall>k b. map_of bases k = Some b \<longrightarrow> 0 \<le> b \<and> b + dict_get lengths k 0 \<le> rows"
    using assign_bases_ok [OF as] L(1,2) by auto
  show "tr_records tr \<noteq> []" "0 \<le> tr_rows tr" using ne tr B by auto
  assume "r \<in> set (tr_records tr)"
  then have r: "record_ok max_topk r" "rec_int r ''context_length'' \<le> dict_get lengths (rec_key r) 0" using L(3) tr by auto
  then have "0 < dict_get lengths (rec_key r) 0" by (auto simp: record_ok_def)
  then have "rec_key r \<in> fst ` set lengths" using map_of_eq_None_iff [of lengths "rec_key r"]
    by (auto simp: dict_get_def split: option.splits)
  then have "rec_key r \<in> fst ` set bases" using B(2) by (metis list.set_map set_sort)
  then obtain b where b: "map_of bases (rec_key r) = Some b" using map_of_eq_None_iff [of bases "rec_key r"] by auto
  then show "record_ok max_topk r \<and> (\<exists>b. map_of (tr_bases tr) (rec_key r) = Some b \<and> 0 \<le> b \<and>
      b + rec_int r ''context_length'' \<le> tr_rows tr)"
    using r B(3) tr by fastforce
qed

subsection \<open>Pages of a buffer\<close>

definition page_at :: "int \<Rightarrow> bytes \<Rightarrow> bytes" where
  "page_at j buf = block_at (nat (j * BENCH_PAGE)) (nat BENCH_PAGE) buf"

lemma concat_pages:
  assumes "\<forall>x\<in>set xs. length (f x) = P" and "i < length xs"
  shows "block_at (i * P) P (concat (map f xs)) = f (xs ! i)"
  using assms
proof (induction xs arbitrary: i)
  case (Cons x xs)
  then show ?case by (cases i) (auto simp: block_at_def)
qed simp

lemma length_concat_pages: "\<forall>x\<in>set xs. length (f x) = P \<Longrightarrow> length (concat (map f xs)) = length xs * P"
  by (induction xs) auto

lemma page_at_put:
  assumes "\<forall>x\<in>set xs. length (f x) = nat BENCH_PAGE" and "0 \<le> d" and "0 \<le> j"
    and "(d + int (length xs)) * BENCH_PAGE \<le> int (length buf)" and "(j + 1) * BENCH_PAGE \<le> int (length buf)"
  shows "page_at j (put_block (nat (d * BENCH_PAGE)) (concat (map f xs)) buf) =
    (if d \<le> j \<and> j < d + int (length xs) then f (xs ! nat (j - d)) else page_at j buf)"
proof -
  let ?P = "nat BENCH_PAGE"
  have P: "int ?P = BENCH_PAGE" "?P = 4096" by (simp_all add: BENCH_PAGE_def)
  have len: "length (concat (map f xs)) = length xs * ?P" using assms(1) by (rule length_concat_pages)
  have D: "nat (d * BENCH_PAGE) = nat d * ?P" "nat (j * BENCH_PAGE) = nat j * ?P"
    using assms(2,3) by (simp_all add: nat_mult_distrib)
  have fit: "nat d * ?P + length (concat (map f xs)) \<le> length buf"
    using assms(2,4) len P(2) by (simp add: BENCH_PAGE_def)
  have fit_j: "nat j * ?P + ?P \<le> length buf" using assms(3,5) P(2) by (simp add: BENCH_PAGE_def)
  show ?thesis
  proof (cases "d \<le> j \<and> j < d + int (length xs)")
    case True
    have k: "nat (j - d) < length xs" "nat j = nat d + nat (j - d)" using True assms(2) by auto
    have "nat (j - d) * ?P + ?P \<le> length (concat (map f xs))"
      using k(1) len mult_le_mono1 [of "Suc (nat (j - d))" "length xs" ?P] by simp
    then have "block_at (nat d * ?P + nat (j - d) * ?P) ?P (put_block (nat d * ?P) (concat (map f xs)) buf)
        = block_at (nat (j - d) * ?P) ?P (concat (map f xs))"
      using fit by (intro block_at_put_inner)
    then show ?thesis
      using True k concat_pages [OF assms(1) k(1)] D by (simp add: page_at_def add_mult_distrib)
  next
    case False
    have "nat j * ?P + ?P \<le> nat d * ?P \<or> nat d * ?P + length (concat (map f xs)) \<le> nat j * ?P"
      using False assms(2,3) len P(2) by auto
    then show ?thesis
      unfolding page_at_def if_not_P [OF False] D using fit fit_j by (intro block_at_put_other)
  qed
qed

definition disk_pages :: "(int \<Rightarrow> bytes) \<Rightarrow> ('p \<Rightarrow> int \<Rightarrow> int \<Rightarrow> bytes result) \<Rightarrow> 'p \<Rightarrow> int \<Rightarrow> bool" where
  "disk_pages page pread p rows \<longleftrightarrow>
     (\<forall>row. length (page row) = nat BENCH_PAGE) \<and>
     (\<forall>s n. 0 \<le> s \<and> 0 \<le> n \<and> s + n \<le> rows \<longrightarrow>
        pread p (s * BENCH_PAGE) (n * BENCH_PAGE) = Inr (concat (map page (run_rows (s, 0, n)))))"

lemma read_runs_ok:
  assumes "disk_pages page pread p total_rows"
    and "\<forall>(s, d, n)\<in>set rs. 0 \<le> s \<and> 1 \<le> n \<and> s + n \<le> total_rows \<and> n * BENCH_PAGE \<le> max_read \<and>
      0 \<le> d \<and> (d + n) * BENCH_PAGE \<le> int (length out) \<and> (\<forall>i. 0 \<le> i \<and> i < n \<longrightarrow> g (d + i) = s + i)"
  shows "\<exists>out'. read_runs pread p max_read rs out = Some (Inr out') \<and> length out' = length out \<and>
    (\<forall>j. 0 \<le> j \<and> (j + 1) * BENCH_PAGE \<le> int (length out) \<longrightarrow>
       page_at j out' = (if \<exists>(s, d, n)\<in>set rs. d \<le> j \<and> j < d + n then page (g j) else page_at j out))"
  using assms(2)
proof (induction rs arbitrary: out)
  case (Cons r rs)
  obtain s d n where r: "r = (s, d, n)" by (cases r)
  have c: "0 \<le> s" "1 \<le> n" "s + n \<le> total_rows" "n * BENCH_PAGE \<le> max_read" "0 \<le> d"
      "(d + n) * BENCH_PAGE \<le> int (length out)" "\<forall>i. 0 \<le> i \<and> i < n \<longrightarrow> g (d + i) = s + i"
    using Cons.prems r by auto
  let ?xs = "run_rows (s, 0, n)"
  let ?data = "concat (map page ?xs)"
  let ?o = "put_block (nat (d * BENCH_PAGE)) ?data out"
  have xs: "length ?xs = nat n" "\<And>i. i < nat n \<Longrightarrow> ?xs ! i = s + int i" by (simp_all add: run_rows_def)
  have plen: "\<forall>x\<in>set ?xs. length (page x) = nat BENCH_PAGE" using assms(1) by (simp add: disk_pages_def)
  have dlen: "length ?data = nat n * nat BENCH_PAGE" using length_concat_pages [OF plen] xs(1) by simp
  have fit: "nat (d * BENCH_PAGE) + length ?data \<le> length out"
    using c(2,5,6) dlen by (simp add: BENCH_PAGE_def)
  have "read_run pread p max_read r out = Some (Inr ?o)"
    using r c assms(1) fit by (simp add: read_run_def disk_pages_def memmove_def BENCH_PAGE_def)
  moreover have lo: "length ?o = length out" using fit by simp
  moreover obtain o' where o': "read_runs pread p max_read rs ?o = Some (Inr o')" "length o' = length out"
      "\<And>j. 0 \<le> j \<Longrightarrow> (j + 1) * BENCH_PAGE \<le> int (length out) \<Longrightarrow>
         page_at j o' = (if \<exists>(s, d, n)\<in>set rs. d \<le> j \<and> j < d + n then page (g j) else page_at j ?o)"
    using Cons.IH [of ?o] Cons.prems lo by auto
  moreover have "page_at j ?o = (if d \<le> j \<and> j < d + n then page (g j) else page_at j out)"
    if j: "0 \<le> j" "(j + 1) * BENCH_PAGE \<le> int (length out)" for j
  proof -
    have "page_at j ?o = (if d \<le> j \<and> j < d + int (length ?xs) then page (?xs ! nat (j - d)) else page_at j out)"
      using c xs(1) j plen by (intro page_at_put) auto
    moreover have "?xs ! nat (j - d) = g j" if "d \<le> j" "j < d + n"
      using that xs(2) [of "nat (j - d)"] c(7) [rule_format, of "j - d"] by simp
    ultimately show ?thesis using xs(1) c(2) by auto
  qed
  ultimately show ?case using r by (intro exI [of _ o']) auto
qed simp

lemma gather_slots_ok:
  assumes "\<forall>s\<in>set ss. 0 \<le> s \<and> (s + 1) * BENCH_PAGE \<le> int (length out)" and "0 \<le> pos"
    and "(pos + int (length ss)) * BENCH_PAGE \<le> int (length ordered)"
  shows "\<exists>ordered'. gather_slots ss pos out ordered = Some ordered' \<and> length ordered' = length ordered \<and>
    (\<forall>j. 0 \<le> j \<and> (j + 1) * BENCH_PAGE \<le> int (length ordered) \<longrightarrow>
       page_at j ordered' = (if pos \<le> j \<and> j < pos + int (length ss) then page_at (ss ! nat (j - pos)) out else page_at j ordered))"
  using assms
proof (induction ss arbitrary: pos ordered)
  case (Cons s ss)
  let ?d = "page_at s out"
  let ?o = "put_block (nat (pos * BENCH_PAGE)) ?d ordered"
  have dlen: "length ?d = nat BENCH_PAGE" 
    unfolding page_at_def by (rule length_block_at) (use Cons.prems(1) in \<open>auto simp: BENCH_PAGE_def\<close>)
  have fit: "nat (pos * BENCH_PAGE) + length ?d \<le> length ordered"
    using Cons.prems(2,3) dlen by (simp add: BENCH_PAGE_def)
  have step: "gather_slots (s # ss) pos out ordered = gather_slots ss (pos + 1) out ?o"
    using Cons.prems dlen fit by (simp add: memmove_def page_at_def BENCH_PAGE_def)
  have lo: "length ?o = length ordered" using fit by simp
  have put: "page_at j ?o = (if j = pos then ?d else page_at j ordered)"
    if "0 \<le> j" "(j + 1) * BENCH_PAGE \<le> int (length ordered)" for j
    using page_at_put [of "[()]" "\<lambda>_. ?d" pos j ordered] that dlen Cons.prems(2,3)
    by (auto simp: BENCH_PAGE_def)
  obtain o' where o': "gather_slots ss (pos + 1) out ?o = Some o'" "length o' = length ordered"
      "\<And>j. 0 \<le> j \<Longrightarrow> (j + 1) * BENCH_PAGE \<le> int (length ordered) \<Longrightarrow>
         page_at j o' = (if pos + 1 \<le> j \<and> j < pos + 1 + int (length ss) then page_at (ss ! nat (j - (pos + 1))) out else page_at j ?o)"
    using Cons.IH [of "pos + 1" ?o] Cons.prems lo by (auto simp: algebra_simps)
  have "(s # ss) ! nat (j - pos) = ss ! nat (j - (pos + 1))" if "pos + 1 \<le> j" for j
  proof -
    have "nat (j - pos) = Suc (nat (j - (pos + 1)))" using that by simp
    then show ?thesis by simp
  qed
  then show ?case using step o' put by (intro exI [of _ o']) auto
qed auto

subsection \<open>A replayed batch holds the requested rows\<close>

lemma runs_ok_nth:
  assumes "runs_ok m rows runs" and "(s, d, n) \<in> set runs"
  shows "0 \<le> d" and "d + n \<le> int (length rows)" and "\<forall>i. 0 \<le> i \<and> i < n \<longrightarrow> rows ! nat (d + i) = s + i"
    and "s \<in> set rows" and "s + n - 1 \<in> set rows"
proof -
  obtain as bs where ab: "runs = as @ (s, d, n) # bs" using assms(2) by (meson split_list)
  let ?k = "length (concat (map run_rows as))"
  have n: "1 \<le> n" using assms by (auto simp: runs_ok_def)
  have len: "length (run_rows r) = length (run_dsts r)" for r by (simp add: run_rows_def run_dsts_def split: prod.splits)
  have kd: "length (concat (map run_dsts as)) = ?k" by (induction as) (auto simp: len)
  have rows: "rows = concat (map run_rows as) @ run_rows (s, d, n) @ concat (map run_rows bs)"
    and dsts: "map int [0..<length rows] = concat (map run_dsts as) @ run_dsts (s, d, n) @ concat (map run_dsts bs)"
    using assms(1) ab by (auto simp: runs_ok_def)
  have lr: "length (run_rows (s, d, n)) = nat n" "length (run_dsts (s, d, n)) = nat n" by (simp_all add: run_rows_def run_dsts_def)
  have lrows: "?k + nat n \<le> length rows" using rows lr by simp
  have "(map int [0..<length rows]) ! ?k = run_dsts (s, d, n) ! 0"
    unfolding dsts using kd lr n by (simp add: nth_append)
  then have d: "d = int ?k" using lrows n by (simp add: run_dsts_def)
  show "0 \<le> d" "d + n \<le> int (length rows)" using d lrows n by auto
  have nth: "rows ! (?k + i) = s + int i" if "i < nat n" for i
    unfolding rows using that lr by (simp add: nth_append run_rows_def)
  show "\<forall>i. 0 \<le> i \<and> i < n \<longrightarrow> rows ! nat (d + i) = s + i"
  proof (intro allI impI)
    fix i assume i: "0 \<le> i \<and> i < n"
    then have "nat (d + i) = ?k + nat i" using d by (simp add: nat_add_distrib)
    then show "rows ! nat (d + i) = s + i" using nth [of "nat i"] i by simp
  qed
  have "rows ! ?k = s" "rows ! (?k + nat (n - 1)) = s + n - 1" using nth [of 0] nth [of "nat (n - 1)"] n by simp_all
  moreover have "?k < length rows" "?k + nat (n - 1) < length rows" using lrows n by auto
  ultimately show "s \<in> set rows" "s + n - 1 \<in> set rows" by (metis nth_mem)+
qed

lemma runs_ok_cover:
  assumes "runs_ok m rows runs" and "0 \<le> j" and "j < int (length rows)"
  shows "\<exists>(s, d, n)\<in>set runs. d \<le> j \<and> j < d + n"
proof -
  have "j \<in> set (map int [0..<length rows])" using assms(2,3) by (auto intro!: image_eqI [of _ _ "nat j"])
  then have "j \<in> set (concat (map run_dsts runs))" using assms(1) by (simp add: runs_ok_def)
  then obtain s d n where "(s, d, n) \<in> set runs" "j \<in> set (run_dsts (s, d, n))" by auto
  then show ?thesis by (intro bexI [of _ "(s, d, n)"]) (auto simp: run_dsts_def)
qed

lemma verify_rows_ok:
  assumes "\<forall>i < length ts. pattern shake (base + ts ! i) seed = Inr (page_at (pos + int i) ordered)"
  shows "verify_rows shake seed base ts pos ordered = Inr ()"
  using assms
proof (induction ts arbitrary: pos)
  case (Cons t ts)
  have hd: "pattern shake (base + t) seed = Inr (page_at pos ordered)" using Cons.prems [rule_format, of 0] by simp
  have "verify_rows shake seed base ts (pos + 1) ordered = Inr ()"
  proof (rule Cons.IH, intro allI impI)
    fix i assume "i < length ts"
    then show "pattern shake (base + ts ! i) seed = Inr (page_at (pos + 1 + int i) ordered)"
      using Cons.prems [rule_format, of "Suc i"] by (simp add: add.assoc)
  qed
  then show ?case using hd by (simp add: page_at_def)
qed simp

lemma replay_record_ok:
  assumes "disk_pages page pread p total_rows" and "BENCH_PAGE \<le> max_read"
    and "\<And>rs. mset (order rs) = mset rs" and "\<forall>t\<in>set indices. 0 \<le> base + t \<and> base + t < total_rows"
    and "int (length indices) * BENCH_PAGE \<le> int (length out)"
    and "int (length indices) * BENCH_PAGE \<le> int (length ordered)"
    and "\<forall>t\<in>set indices. pattern shake (base + t) seed = Inr (page (base + t))"
  shows "\<exists>out' ordered'. replay_record shake pread p merge max_read seed verify order base indices (out, ordered) =
      Some (Inr (out', ordered')) \<and> length out' = length out \<and> length ordered' = length ordered \<and>
    (\<forall>i < length indices. page_at (int i) ordered' = page (base + indices ! i))"
proof -
  let ?rows = "sorted_list_of_set ((\<lambda>t. base + t) ` set indices)"
  obtain rows slots runs where pl: "plan_rows indices base merge max_read = (rows, slots, runs)" by (metis prod_cases3)
  have rows: "rows = ?rows" and slots: "slots = map (\<lambda>t. the (position rows (base + t))) indices"
    and rs: "runs = foldl (run_step merge (max_read div BENCH_PAGE)) [] (zip (map int [0..<length rows]) rows)"
    using pl by (auto simp: plan_rows_def Let_def)
  have ok: "runs_ok (max_read div BENCH_PAGE) rows runs" unfolding rs by (rule runs_ok_fold)
  have few: "length rows \<le> length indices"
    using rows card_image_le [of "set indices" "\<lambda>t. base + t"] card_length [of indices] by simp
  have fit: "int (length rows) * BENCH_PAGE \<le> int (length out)"
    using few assms(5) by (simp add: BENCH_PAGE_def)
  have so: "set (order runs) = set runs" using mset_eq_setD [OF assms(3)] .
  have in_rows: "r \<in> set rows \<Longrightarrow> 0 \<le> r \<and> r < total_rows" for r using rows assms(4) by auto
  have "\<forall>(s, d, n)\<in>set (order runs). 0 \<le> s \<and> 1 \<le> n \<and> s + n \<le> total_rows \<and> n * BENCH_PAGE \<le> max_read \<and>
      0 \<le> d \<and> (d + n) * BENCH_PAGE \<le> int (length out) \<and> (\<forall>i. 0 \<le> i \<and> i < n \<longrightarrow> rows ! nat (d + i) = s + i)"
  proof (clarify)
    fix s d n assume "(s, d, n) \<in> set (order runs)"
    then have m: "(s, d, n) \<in> set runs" using so by simp
    have n: "1 \<le> n" "n \<le> max 1 (max_read div BENCH_PAGE)" using ok m by (auto simp: runs_ok_def)
    have "n * BENCH_PAGE \<le> max_read" using n assms(2) by (auto simp: BENCH_PAGE_def)
    moreover have "(d + n) * BENCH_PAGE \<le> int (length out)"
      using runs_ok_nth(2) [OF ok m] fit by (simp add: BENCH_PAGE_def)
    ultimately show "0 \<le> s \<and> 1 \<le> n \<and> s + n \<le> total_rows \<and> n * BENCH_PAGE \<le> max_read \<and>
      0 \<le> d \<and> (d + n) * BENCH_PAGE \<le> int (length out) \<and> (\<forall>i. 0 \<le> i \<and> i < n \<longrightarrow> rows ! nat (d + i) = s + i)"
      using n(1) runs_ok_nth [OF ok m] in_rows [of s] in_rows [of "s + n - 1"] by auto
  qed
  from read_runs_ok [OF assms(1) this]
  obtain out' where out': "read_runs pread p max_read (order runs) out = Some (Inr out')" "length out' = length out"
    and pages: "\<And>j. 0 \<le> j \<Longrightarrow> (j + 1) * BENCH_PAGE \<le> int (length out) \<Longrightarrow>
       page_at j out' = (if \<exists>(s, d, n)\<in>set (order runs). d \<le> j \<and> j < d + n then page (rows ! nat j) else page_at j out)"
    by blast
  have got: "page_at j out' = page (rows ! nat j)" if j: "0 \<le> j" "j < int (length rows)" for j
  proof -
    have "\<exists>(s, d, n)\<in>set (order runs). d \<le> j \<and> j < d + n"
      using runs_ok_cover [OF ok j] so by simp
    moreover have "(j + 1) * BENCH_PAGE \<le> int (length out)" using fit j by (simp add: BENCH_PAGE_def)
    ultimately show ?thesis using pages j(1) by simp
  qed
  have slot: "0 \<le> slots ! i \<and> slots ! i < int (length rows) \<and> rows ! nat (slots ! i) = base + indices ! i"
    if "i < length indices" for i
    using plan_slots [OF pl] that by simp
  have lslots: "length slots = length indices" using slots by simp
  have "\<forall>s\<in>set slots. 0 \<le> s \<and> (s + 1) * BENCH_PAGE \<le> int (length out')"
  proof
    fix s assume "s \<in> set slots"
    then obtain i where i: "i < length indices" "s = slots ! i" using lslots by (auto simp: in_set_conv_nth)
    have "0 \<le> s" "s + 1 \<le> int (length rows)" using slot [OF i(1)] i(2) by auto
    then show "0 \<le> s \<and> (s + 1) * BENCH_PAGE \<le> int (length out')" using fit out'(2) by (simp add: BENCH_PAGE_def)
  qed
  from gather_slots_ok [OF this, of 0 ordered] assms(6) lslots
  obtain ordered' where ord: "gather_slots slots 0 out' ordered = Some ordered'" "length ordered' = length ordered"
    and opages: "\<And>j. 0 \<le> j \<Longrightarrow> (j + 1) * BENCH_PAGE \<le> int (length ordered) \<Longrightarrow>
       page_at j ordered' = (if j < int (length indices) then page_at (slots ! nat j) out' else page_at j ordered)"
    by auto
  have final: "page_at (int i) ordered' = page (base + indices ! i)" if i: "i < length indices" for i
  proof -
    have "(int i + 1) * BENCH_PAGE \<le> int (length ordered)" using i assms(6) by (simp add: BENCH_PAGE_def)
    then show ?thesis using opages [of "int i"] i slot [OF i] got by simp
  qed
  have "verify_rows shake seed base indices 0 ordered' = Inr ()"
    using final assms(7) by (intro verify_rows_ok) simp
  then show ?thesis using pl out' ord final by (simp add: replay_record_def)
qed

subsection \<open>The prepared data set\<close>

lemma for_each_range:
  assumes "0 < step" and "0 \<le> stop" and "I 0 s"
    and "\<And>x u. 0 \<le> x \<Longrightarrow> x < stop \<Longrightarrow> step dvd x \<Longrightarrow> I x u \<Longrightarrow> \<exists>u'. f x u = (Inr (), u') \<and> I (min (x + step) stop) u'"
  shows "\<exists>s'. for_each f (py_range 0 stop step) s = (Inr (), s') \<and> I stop s'"
proof -
  let ?n = "nat ((stop + step - 1) div step)"
  have below: "int i * step < stop" if "i < ?n" for i
  proof -
    have "int i + 1 \<le> (stop + step - 1) div step" using that by linarith
    then have "(int i + 1) * step \<le> (stop + step - 1) div step * step" using assms(1) by simp
    also have "\<dots> \<le> stop + step - 1" using assms(1) by (metis div_mult_mod_eq le_add_same_cancel1 pos_mod_sign)
    finally show ?thesis by (simp add: algebra_simps)
  qed
  have "\<exists>s'. for_each f (map (\<lambda>i. int i * step) [0..<m]) s = (Inr (), s') \<and> I (min (int m * step) stop) s'" if "m \<le> ?n" for m
    using that
  proof (induction m)
    case 0
    then show ?case using assms(2,3) by (simp add: min_def)
  next
    case (Suc m)
    then obtain u where u: "for_each f (map (\<lambda>i. int i * step) [0..<m]) s = (Inr (), u)" "I (min (int m * step) stop) u" by auto
    have lt: "int m * step < stop" using Suc.prems below by simp
    have "0 \<le> int m * step" using assms(1) by simp
    from assms(4) [OF this lt] u(2) lt obtain u' where u': "f (int m * step) u = (Inr (), u')" "I (min (int m * step + step) stop) u'"
      by (auto simp: min_def)
    have "min (int (Suc m) * step) stop = min (int m * step + step) stop" by (simp add: algebra_simps)
    then show ?case using u(1) u' by (simp add: for_each_append)
  qed
  from this [of ?n]
  obtain s' where s': "for_each f (map (\<lambda>i. int i * step) [0..<?n]) s = (Inr (), s')" "I (min (int ?n * step) stop) s'" by auto
  have "stop \<le> int ?n * step"
  proof -
    have "stop \<le> round_up stop step" using assms(1) by (rule round_up_ge)
    also have "\<dots> \<le> int ?n * step" using assms(1,2) by (simp add: round_up_def)
    finally show ?thesis .
  qed
  then have "min (int ?n * step) stop = stop" by simp
  then show ?thesis using s' by (simp add: py_range_def)
qed

text \<open>
  What is assumed of the native pool (\<open>ssd_pool_pread\<close>, \<open>ssd_pool_pwrite\<close> on a device window): a
  positional write inside the window replaces exactly the bytes it covers, a positional read inside
  the window returns them. \<open>contents\<close> is the window's contents in a pool state.
\<close>

definition pool_window ::
  "('p \<Rightarrow> bytes) \<Rightarrow> ('p \<Rightarrow> int \<Rightarrow> int \<Rightarrow> bytes result) \<Rightarrow> ('p \<Rightarrow> int \<Rightarrow> bytes \<Rightarrow> 'p result) \<Rightarrow> bool" where
  "pool_window contents pread pwrite \<longleftrightarrow>
     (\<forall>p off data. 0 \<le> off \<and> off + int (length data) \<le> int (length (contents p)) \<longrightarrow>
        (\<exists>p'. pwrite p off data = Inr p' \<and> contents p' = put_block (nat off) data (contents p))) \<and>
     (\<forall>p off size. 0 \<le> off \<and> 0 \<le> size \<and> off + size \<le> int (length (contents p)) \<longrightarrow>
        pread p off size = Inr (block_at (nat off) (nat size) (contents p)))"

lemma take_put_block:
  assumes "take k xs = take k ys" and "k + m \<le> length xs" and "k + m \<le> length ys"
  shows "take (k + m) (put_block k (block_at k m ys) xs) = take (k + m) ys"
proof -
  have "length (block_at k m ys) = m" using assms(3) by simp
  moreover have "take k ys @ block_at k m ys = take (k + m) ys" by (simp add: block_at_def take_add)
  ultimately show ?thesis using assms by (simp add: put_block_def)
qed

definition page_of :: "(bytes \<Rightarrow> bytes) \<Rightarrow> int \<Rightarrow> int \<Rightarrow> bytes" where
  "page_of shake seed row = shake (le_bytes 8 row @ le_bytes 8 seed)"

lemma pattern_ok: "0 \<le> row \<Longrightarrow> row < 2 ^ 64 \<Longrightarrow> 0 \<le> seed \<Longrightarrow> seed < 2 ^ 64 \<Longrightarrow> pattern shake row seed = Inr (page_of shake seed row)"
  by (simp add: pattern_def pack_fields_def pack_uint_def page_of_def)

definition dataset :: "(bytes \<Rightarrow> bytes) \<Rightarrow> int \<Rightarrow> nat \<Rightarrow> bytes" where
  "dataset shake seed rows = concat (map (\<lambda>i. page_of shake seed (int i)) [0..<rows])"

lemma dataset_block:
  assumes "\<And>b. length (shake b) = nat BENCH_PAGE" and "a \<le> b" and "b \<le> rows"
  shows "concat (map (\<lambda>i. page_of shake seed (int i)) [a..<b]) =
    block_at (a * nat BENCH_PAGE) ((b - a) * nat BENCH_PAGE) (dataset shake seed rows)"
proof -
  let ?c = "\<lambda>xs. concat (map (\<lambda>i. page_of shake seed (int i)) xs)"
  have len: "length (?c xs) = length xs * nat BENCH_PAGE" for xs
    using assms(1) by (intro length_concat_pages) (simp add: page_of_def)
  have "[0..<rows] = [0..<a] @ [a..<b] @ [b..<rows]"
    using assms(2,3) by (metis le_add_diff_inverse upt_add_eq_append zero_le append.assoc le0)
  then have "dataset shake seed rows = ?c [0..<a] @ ?c [a..<b] @ ?c [b..<rows]"
    by (simp add: dataset_def)
  then show ?thesis by (simp add: block_at_def len)
qed

definition written_to :: "('p \<Rightarrow> bytes) \<Rightarrow> bytes \<Rightarrow> nat \<Rightarrow> int \<Rightarrow> 'p \<Rightarrow> bool" where
  "written_to contents T L x p \<longleftrightarrow> length (contents p) = L \<and> take (nat x) (contents p) = take (nat x) T"

lemma write_pieces_ok:
  assumes "pool_window contents pread pwrite" and "length T \<le> L"
    and "0 \<le> start" and "0 \<le> x" and "x < len" and "nat (start + len) \<le> length T" and "0 < write_size"
    and "written_to contents T L (start + x) p"
  shows "\<exists>p'. write_pieces pwrite start len write_size (block_at (nat start) (nat len) T) x p = (Inr (), p') \<and>
    written_to contents T L (start + min (x + write_size) len) p'"
proof -
  let ?size = "min write_size (len - x)"
  let ?data = "block_at (nat (start + x)) (nat ?size) T"
  have s: "0 \<le> ?size" "x + ?size \<le> len" "x + ?size = min (x + write_size) len" using assms(5,7) by auto
  have len: "length (block_at (nat start) (nat len) T) = nat len"
    using assms(3-6) by (intro length_block_at) (simp add: nat_add_distrib)
  have "py_slice (block_at (nat start) (nat len) T) x (x + ?size) = block_at (nat x) (nat ?size) (block_at (nat start) (nat len) T)"
    using s assms(4,5) len by (intro py_slice_block) auto
  also have "\<dots> = block_at (nat start + nat x) (nat ?size) T"
    using s assms(4,5) by (intro block_at_block_at) auto
  finally have sl: "py_slice (block_at (nat start) (nat len) T) x (x + ?size) = ?data"
    using assms(3,4) by (simp add: nat_add_distrib)
  have fit: "nat (start + x) + nat ?size \<le> length T" using s assms(3,4,6) by linarith
  then have ld: "length ?data = nat ?size" by simp
  have "0 \<le> start + x \<and> start + x + int (length ?data) \<le> int (length (contents p))"
    using assms(2-4,8) fit ld by (auto simp: written_to_def)
  then obtain p' where p': "pwrite p (start + x) ?data = Inr p'" "contents p' = put_block (nat (start + x)) ?data (contents p)"
    using assms(1) unfolding pool_window_def by blast
  have lc: "length (contents p) = L" "take (nat (start + x)) (contents p) = take (nat (start + x)) T"
    using assms(8) by (simp_all add: written_to_def)
  have "take (nat (start + x) + nat ?size) (contents p') = take (nat (start + x) + nat ?size) T"
    unfolding p'(2) using lc fit assms(2) by (intro take_put_block) auto
  moreover have "nat (start + x) + nat ?size = nat (start + min (x + write_size) len)"
    using s assms(3,4) by linarith
  moreover have "length (contents p') = L" using p'(2) lc fit ld assms(2) by simp
  ultimately have "written_to contents T L (start + min (x + write_size) len) p'" by (simp add: written_to_def)
  then show ?thesis using sl p'(1) by (simp add: write_pieces_def Let_def)
qed

lemma prepare_chunk_ok:
  assumes "pool_window contents pread pwrite" and "\<And>b. length (shake b) = nat BENCH_PAGE"
    and "0 < write_size" and "0 < chunk" and "BENCH_PAGE dvd chunk" and "BENCH_PAGE dvd bytes"
    and "bytes div BENCH_PAGE \<le> 2 ^ 64" and "0 \<le> seed" and "seed < 2 ^ 64"
    and "T = dataset shake seed (nat (bytes div BENCH_PAGE))" and "length T \<le> L"
    and "0 \<le> start" and "start < bytes" and "chunk dvd start" and "written_to contents T L start p"
  shows "\<exists>p'. prepare_chunk shake pwrite bytes write_size chunk seed start p = (Inr (), p') \<and>
    written_to contents T L (min (start + chunk) bytes) p'"
proof -
  let ?len = "min chunk (bytes - start)"
  let ?P = "nat BENCH_PAGE"
  obtain a where a: "start = a * BENCH_PAGE" using assms(5,14) by (metis dvdE dvd_trans mult.commute)
  have "start + ?len = min (start + chunk) bytes" by auto
  moreover have "BENCH_PAGE dvd min (start + chunk) bytes" using a assms(5,6) by (simp add: min_def)
  ultimately have "BENCH_PAGE dvd start + ?len" by simp
  then obtain b where b: "start + ?len = b * BENCH_PAGE" by (metis dvdE mult.commute)
  obtain c where c: "bytes = c * BENCH_PAGE" using assms(6) by (metis dvdE mult.commute)
  have P: "BENCH_PAGE = 4096" by (simp add: BENCH_PAGE_def)
  have "c \<le> 2 ^ 64" using assms(7) c P by simp
  moreover have "0 \<le> a" "a \<le> b" "b \<le> c" using a b c assms(4,12,13) unfolding P by linarith+
  ultimately have abc: "0 \<le> a" "a \<le> b" "b \<le> c" "c \<le> 2 ^ 64" by blast+
  have lenT: "length T = nat c * ?P"
    unfolding assms(10) dataset_def using c assms(2) P
    by (subst length_concat_pages [where P = ?P]) (simp_all add: page_of_def)
  have T: "T = dataset shake seed (nat c)" using assms(10) c P by simp
  have rng: "py_range (start div BENCH_PAGE) ((start + ?len) div BENCH_PAGE) 1 = map int [nat a..<nat b]"
  proof -
    have "start div BENCH_PAGE = a" "(start + ?len) div BENCH_PAGE = b" using a b P by simp_all
    moreover have "map (\<lambda>i. a + int i) [0..<nat (b - a)] = map int [nat a..<nat b]"
      using abc by (intro nth_equalityI) auto
    ultimately show ?thesis by (simp add: py_range_def)
  qed
  have "map_result (\<lambda>row. pattern shake row seed) (map int [nat a..<nat b]) =
      Inr (map (page_of shake seed) (map int [nat a..<nat b]))"
    using abc assms(8,9) by (intro map_result_total pattern_ok) auto
  moreover have "concat (map (page_of shake seed) (map int [nat a..<nat b])) = block_at (nat start) (nat ?len) T"
  proof -
    have "?len = (b - a) * BENCH_PAGE" using a b by (simp add: algebra_simps)
    then have "nat ?len = (nat b - nat a) * ?P" using abc by (simp add: nat_mult_distrib nat_diff_distrib)
    moreover have "nat start = nat a * ?P" using a abc by (simp add: nat_mult_distrib)
    ultimately show ?thesis
      using dataset_block [of shake "nat a" "nat b" "nat c" seed] assms(2) nat_mono [OF abc(2)] nat_mono [OF abc(3)] T by (simp add: comp_def)
  qed
  ultimately have run: "prepare_chunk shake pwrite bytes write_size chunk seed start p =
      for_each (write_pieces pwrite start ?len write_size (block_at (nat start) (nat ?len) T)) (py_range 0 ?len write_size) p"
    by (simp add: prepare_chunk_def Let_def rng)
  have "nat (start + ?len) = nat b * ?P" using b abc by (simp add: nat_mult_distrib)
  then have "nat (start + ?len) \<le> length T" using lenT nat_mono [OF abc(3)] by simp
  then have "\<exists>p'. for_each (write_pieces pwrite start ?len write_size (block_at (nat start) (nat ?len) T)) (py_range 0 ?len write_size) p
      = (Inr (), p') \<and> written_to contents T L (start + ?len) p'"
    using assms(3,4,12,13,15) write_pieces_ok [OF assms(1,11,12), of _ ?len write_size]
    by (intro for_each_range [where I = "\<lambda>x. written_to contents T L (start + x)"]) auto
  moreover have "start + ?len = min (start + chunk) bytes" by auto
  ultimately show ?thesis using run by simp
qed

lemma prepare_ok:
  assumes "pool_window contents pread pwrite" and "\<And>b. length (shake b) = nat BENCH_PAGE"
    and "0 < write_size" and "0 < chunk" and "BENCH_PAGE dvd chunk" and "BENCH_PAGE dvd bytes" and "0 \<le> bytes"
    and "bytes div BENCH_PAGE \<le> 2 ^ 64" and "0 \<le> seed" and "seed < 2 ^ 64" and "bytes \<le> int (length (contents p))"
  shows "\<exists>p'. prepare shake pwrite bytes write_size chunk seed p = (Inr (), p') \<and>
    length (contents p') = length (contents p) \<and>
    take (nat bytes) (contents p') = dataset shake seed (nat (bytes div BENCH_PAGE))"
proof -
  let ?T = "dataset shake seed (nat (bytes div BENCH_PAGE))"
  have lenT: "length ?T = nat bytes"
    unfolding dataset_def using assms(2,6,7)
    by (subst length_concat_pages [where P = "nat BENCH_PAGE"]) (auto simp: page_of_def BENCH_PAGE_def nat_mult_distrib)
  have "\<exists>p'. for_each (prepare_chunk shake pwrite bytes write_size chunk seed) (py_range 0 bytes chunk) p = (Inr (), p') \<and>
      written_to contents ?T (length (contents p)) bytes p'"
    using assms lenT prepare_chunk_ok [OF assms(1) _ assms(3,4,5,6,8,9,10) refl, where L = "length (contents p)"]
    by (intro for_each_range) (auto simp: written_to_def)
  then show ?thesis using lenT by (auto simp: prepare_def written_to_def)
qed

subsection \<open>Preparing and replaying a trace\<close>

lemma prepared_disk:
  assumes "pool_window contents pread pwrite" and "\<And>b. length (shake b) = nat BENCH_PAGE"
    and "0 \<le> rows" and "rows * BENCH_PAGE \<le> int (length (contents p))"
    and "take (nat (rows * BENCH_PAGE)) (contents p) = dataset shake seed (nat rows)"
  shows "disk_pages (page_of shake seed) pread p rows"
  unfolding disk_pages_def
proof (intro conjI allI impI)
  show "length (page_of shake seed row) = nat BENCH_PAGE" for row using assms(2) by (simp add: page_of_def)
  fix s n assume sn: "0 \<le> s \<and> 0 \<le> n \<and> s + n \<le> rows"
  let ?P = "nat BENCH_PAGE"
  have P: "BENCH_PAGE = 4096" by (simp add: BENCH_PAGE_def)
  have "pread p (s * BENCH_PAGE) (n * BENCH_PAGE) = Inr (block_at (nat (s * BENCH_PAGE)) (nat (n * BENCH_PAGE)) (contents p))"
  proof -
    have "0 \<le> s * BENCH_PAGE" "0 \<le> n * BENCH_PAGE" "s * BENCH_PAGE + n * BENCH_PAGE \<le> int (length (contents p))"
      using assms(4) sn unfolding P by linarith+
    then show ?thesis using assms(1) unfolding pool_window_def by blast
  qed
  moreover have "block_at (nat (s * BENCH_PAGE)) (nat (n * BENCH_PAGE)) (contents p) =
      block_at (nat s * ?P) (nat n * ?P) (take (nat (rows * BENCH_PAGE)) (contents p))"
  proof -
    have "nat n + nat s \<le> nat rows" using sn by linarith
    then have "nat n * ?P + nat s * ?P \<le> nat rows * ?P"
      using mult_le_mono1 [of "nat n + nat s" "nat rows" ?P] by (simp add: add_mult_distrib)
    then have "min (nat n * ?P) (nat rows * ?P - nat s * ?P) = nat n * ?P" by (intro min_absorb1) linarith
    then show ?thesis using sn assms(3) by (simp add: block_at_def drop_take nat_mult_distrib)
  qed
  moreover have "\<dots> = concat (map (\<lambda>i. page_of shake seed (int i)) [nat s..<nat (s + n)])"
  proof -
    have "nat s + nat n \<le> nat rows" "nat (s + n) = nat s + nat n" using sn by linarith+
    then show ?thesis
      unfolding assms(5) using dataset_block [of shake "nat s" "nat s + nat n" "nat rows" seed] assms(2) by simp
  qed
  moreover have "map int [nat s..<nat (s + n)] = run_rows (s, 0, n)"
    using sn by (intro nth_equalityI) (auto simp: run_rows_def nat_add_distrib)
  ultimately show "pread p (s * BENCH_PAGE) (n * BENCH_PAGE) = Inr (concat (map (page_of shake seed) (run_rows (s, 0, n))))"
    by (metis (no_types, lifting) list.map_comp comp_def map_eq_conv)
qed

lemma replay_loop_ok:
  assumes "disk_pages (page_of shake seed) pread p (tr_rows tr)" and "BENCH_PAGE \<le> max_read"
    and "\<And>n rs. mset (order n rs) = mset rs" and "0 \<le> seed" and "seed < 2 ^ 64" and "tr_rows tr \<le> 2 ^ 64"
    and "\<forall>r\<in>set rs. record_ok max_topk r \<and>
      (\<exists>b. map_of (tr_bases tr) (rec_key r) = Some b \<and> 0 \<le> b \<and> b + rec_int r ''context_length'' \<le> tr_rows tr)"
    and "length out = nat (max_topk * BENCH_PAGE)" and "length ordered = nat (max_topk * BENCH_PAGE)"
  shows "\<exists>bufs. replay_loop shake pread p tr merge max_read seed verify order n rs (out, ordered) = Some (Inr bufs)"
  using assms(7-9)
proof (induction rs arbitrary: n out ordered)
  case (Cons r rs)
  obtain b where b: "map_of (tr_bases tr) (rec_key r) = Some b" "0 \<le> b" "b + rec_int r ''context_length'' \<le> tr_rows tr"
    and ok: "record_ok max_topk r" using Cons.prems(1) by auto
  have t: "0 \<le> b + t \<and> b + t < tr_rows tr" if "t \<in> set (rec_tokens r)" for t
    using ok b that by (fastforce simp: record_ok_def)
  have lens: "int (length (rec_tokens r)) * BENCH_PAGE \<le> int (nat (max_topk * BENCH_PAGE))"
    using ok by (simp add: record_ok_def BENCH_PAGE_def)
  have "\<exists>out' ordered'. replay_record shake pread p merge max_read seed verify (order n) b (rec_tokens r) (out, ordered) =
      Some (Inr (out', ordered')) \<and> length out' = length out \<and> length ordered' = length ordered \<and>
      (\<forall>i < length (rec_tokens r). page_at (int i) ordered' = page_of shake seed (b + rec_tokens r ! i))"
    using assms(1-3) t lens Cons.prems(2,3) pattern_ok [of _ seed shake] assms(4,5,6)
    by (intro replay_record_ok) (auto intro!: pattern_ok dest!: t)
  then obtain out' ordered' where
    "replay_record shake pread p merge max_read seed verify (order n) b (rec_tokens r) (out, ordered) = Some (Inr (out', ordered'))"
    "length out' = length out" "length ordered' = length ordered" by blast
  then show ?case using b(1) Cons.IH [of out' ordered' "Suc n"] Cons.prems by simp
qed simp


text \<open>A window held in memory, and a trace of two batches, as a concrete instance.\<close>

definition mem_pread :: "bytes \<Rightarrow> int \<Rightarrow> int \<Rightarrow> bytes result" where
  "mem_pread p off sz =
     (if 0 \<le> off \<and> 0 \<le> sz \<and> off + sz \<le> int (length p) then Inr (block_at (nat off) (nat sz) p) else Inl RuntimeError)"

definition mem_pwrite :: "bytes \<Rightarrow> int \<Rightarrow> bytes \<Rightarrow> bytes result" where
  "mem_pwrite p off data =
     (if 0 \<le> off \<and> off + int (length data) \<le> int (length p) then Inr (put_block (nat off) data p) else Inl RuntimeError)"

lemma mem_window: "pool_window id mem_pread mem_pwrite"
  by (simp add: pool_window_def mem_pread_def mem_pwrite_def)

definition demo_args :: run_args where
  "demo_args = \<lparr>ra_segments = [8192], ra_workers = 2, ra_max_read_bytes = 8192, ra_max_topk = 4, ra_repeats = 1,
     ra_warmup_batches = 1, ra_seed = 7, ra_window_offset = None, ra_window_bytes = None\<rparr>"

definition demo_record :: "int \<Rightarrow> int list \<Rightarrow> jdict" where
  "demo_record layer ts = [(''request_id'', JStr ''r''), (''step_id'', JInt 0), (''layer_id'', JInt layer),
     (''context_length'', JInt 2), (''topk_token_indices'', JArr (map JInt ts))]"

definition demo_lines :: "trace_line list" where
  "demo_lines = [JsonLine (JObj (demo_record 1 [1, 0, 1])), BlankLine, JsonLine (JObj (demo_record 0 [1]))]"

definition demo_plan :: run_plan where
  "demo_plan = \<lparr>rp_sizes = [4096, 8192],
     rp_trace = \<lparr>tr_records = [demo_record 1 [1, 0, 1], demo_record 0 [1]],
       tr_bases = [((''r'', 0), 0), ((''r'', 1), 2)], tr_rows = 4\<rparr>,
     rp_dataset = 16384, rp_base = 0, rp_capacity = 16384\<rparr>"

lemma demo_checks: "run_checks demo_args demo_lines = Inr demo_plan"
  by code_simp


end
