(* ===== verification/DefaultPrime.thy ===== *)
theory DefaultPrime
  imports Strategy
begin

section \<open>The default parameters of the position hash\<close>

text \<open>
  The constructor of the position hash rejects a modulus that is not prime. This theory shows that
  the default modulus, the Mersenne number \<open>2\<^sup>3\<^sup>1 - 1\<close>, passes the trial division: a least divisor
  above one is congruent to one modulo 31, by Fermat's little theorem and the order of two, so that
  only the candidates \<open>62 k + 1\<close> remain and these are few enough to be evaluated.
\<close>

lemma least_divisor:
  assumes "1 < (n::int)"
  obtains q where "no_divisor q" and "q dvd n"
proof -
  let ?P = "\<lambda>m. 1 < m \<and> int m dvd n"
  have ex: "?P (nat n)" using assms by simp
  let ?q = "LEAST m. ?P m"
  have q: "?P ?q" by (rule LeastI [of ?P, OF ex])
  have "no_divisor (int ?q)"
    unfolding no_divisor_def
  proof (intro conjI allI impI notI)
    fix d assume d: "1 < d \<and> d < int ?q" "d dvd int ?q"
    then have "?P (nat d)" using q by (auto intro: dvd_trans)
    then have "?q \<le> nat d" by (rule Least_le)
    then show False using d by linarith
  qed (use q in simp)
  then show thesis using that q by blast
qed

lemma fermat_two:
  assumes "no_divisor q" and "odd q"
  shows "q dvd 2 ^ nat (q - 1) - 1"
proof -
  let ?S = "{1..<q}"
  have q: "2 < q" using assms by (auto simp: no_divisor_def le_less)
  have cop2: "coprime q 2" using no_divisor_coprime [OF assms(1), of 2] q by simp
  have inj: "inj_on (\<lambda>k. 2 * k mod q) ?S"
  proof (rule inj_onI)
    fix x y assume xy: "x \<in> ?S" "y \<in> ?S" "2 * x mod q = 2 * y mod q"
    then have "q dvd 2 * (x - y)" by (metis mod_eq_dvd_iff right_diff_distrib)
    then have "q dvd x - y" unfolding coprime_dvd_mult_right_iff [OF cop2] .
    moreover have "\<bar>x - y\<bar> < q" using xy by auto
    ultimately show "x = y" by (metis dvd_imp_le_int eq_iff_diff_eq_0 linorder_not_le abs_of_nonneg q order_less_imp_le order.strict_trans zero_less_numeral)
  qed
  have sub: "(\<lambda>k. 2 * k mod q) ` ?S \<subseteq> ?S"
  proof
    fix y assume "y \<in> (\<lambda>k. 2 * k mod q) ` ?S"
    then obtain k where k: "k \<in> ?S" "y = 2 * k mod q" by auto
    have "\<not> q dvd k" using k(1) by (auto dest: zdvd_imp_le)
    then have "\<not> q dvd 2 * k" using cop2 by (simp add: coprime_dvd_mult_right_iff)
    then have "y \<noteq> 0" using k(2) by (simp add: dvd_eq_mod_eq_0)
    moreover have "0 \<le> y" "y < q" using k(2) q by simp_all
    ultimately show "y \<in> ?S" by auto
  qed
  have perm: "(\<lambda>k. 2 * k mod q) ` ?S = ?S"
    using sub inj by (intro endo_inj_surj) auto
  have "(\<Prod>k\<in>?S. k) = (\<Prod>k\<in>?S. 2 * k mod q)"
    using prod.reindex [OF inj, of id] perm by (simp add: comp_def)
  then have "(\<Prod>k\<in>?S. k) mod q = (\<Prod>k\<in>?S. 2 * k) mod q" by (simp add: mod_prod_eq)
  also have "(\<Prod>k\<in>?S. 2 * k) = 2 ^ nat (q - 1) * (\<Prod>k\<in>?S. k)" by (simp add: prod.distrib)
  finally have "q dvd (\<Prod>k\<in>?S. k) * (2 ^ nat (q - 1) - 1)"
    by (metis mod_eq_dvd_iff mult.commute mult.right_neutral right_diff_distrib)
  moreover have "coprime q (\<Prod>k\<in>?S. k)"
    using no_divisor_coprime [OF assms(1)] by (intro prod_coprime_right) auto
  ultimately show ?thesis by (simp add: coprime_dvd_mult_right_iff)
qed

lemma divisor_form:
  assumes "no_divisor q" and "q dvd 2147483647"
  shows "31 dvd q - 1"
proof (rule ccontr)
  assume not: "\<not> 31 dvd q - 1"
  have "odd q" using assms(2) by (meson dvd_trans even_numeral odd_numeral)
  then have f: "q dvd 2 ^ nat (q - 1) - 1" by (rule fermat_two [OF assms(1)])
  have q: "1 < q" using assms(1) by (simp add: no_divisor_def)
  have "no_divisor 31" unfolding is_prime_iff [symmetric] by code_simp
  have "coprime (31::nat) (nat (q - 1))"
  proof -
    let ?r = "(q - 1) mod 31"
    have "0 < ?r" "?r < 31" using not by (auto simp: dvd_eq_mod_eq_0 le_less)
    then have "coprime 31 ?r" by (rule no_divisor_coprime [OF \<open>no_divisor 31\<close>])
    then have "coprime 31 (q - 1)" by (simp add: coprime_mod_right_iff)
    then show ?thesis using q by (simp add: coprime_int_iff [symmetric])
  qed
  then obtain x y where xy: "31 * x = nat (q - 1) * y + 1"
    using bezout_nat [of 31 "nat (q - 1)"] by (auto simp: coprime_iff_gcd_eq_1)
  have a: "(2 ^ 31) mod q = 1 mod q" using assms(2) by (simp add: mod_eq_dvd_iff)
  have b: "(2 ^ nat (q - 1)) mod q = 1 mod q" using f by (simp add: mod_eq_dvd_iff)
  have "1 mod q = (2 ^ 31) ^ x mod q" using a by (metis power_mod power_one)
  also have "\<dots> = 2 ^ (nat (q - 1) * y + 1) mod q" by (simp only: power_mult [symmetric] xy)
  also have "(2 :: int) ^ (nat (q - 1) * y + 1) = (2 ^ nat (q - 1)) ^ y * 2" by (simp only: power_add power_mult power_one_right)
  also have "\<dots> mod q = ((2 ^ nat (q - 1)) ^ y mod q) * 2 mod q" by (simp only: mod_mult_left_eq)
  also have "(2 ^ nat (q - 1)) ^ y mod q = 1 mod q" using b by (metis power_mod power_one)
  finally have "2 mod q = 1 mod q" by (simp add: mod_mult_left_eq)
  then have "q dvd 2 - 1" unfolding mod_eq_dvd_iff .
  then have "q dvd 1" by simp
  then show False using q by (auto dest: zdvd_imp_le)
qed

function no_candidate :: "int \<Rightarrow> bool" where
  "no_candidate q = (if 46340 < q then True else if 2147483647 mod q = 0 then False else no_candidate (q + 62))"
  by pat_completeness auto
termination by (relation "measure (\<lambda>q. nat (46341 - q))") auto

declare no_candidate.simps [simp del]

lemma no_candidate_from: "no_candidate q \<Longrightarrow> 0 \<le> j \<Longrightarrow> q + 62 * j \<le> 46340 \<Longrightarrow> 2147483647 mod (q + 62 * j) \<noteq> 0"
proof (induction q arbitrary: j rule: no_candidate.induct)
  case (1 q)
  have q: "q \<le> 46340" "2147483647 mod q \<noteq> 0" "no_candidate (q + 62)"
    using 1(2-4) by (auto simp: no_candidate.simps [of q] split: if_splits)
  show ?case
  proof (cases "j = 0")
    case False
    then show ?thesis using 1(1) [of "j - 1"] q 1(3,4) by (simp add: algebra_simps)
  qed (use q in simp)
qed

lemma default_candidates: "no_candidate 63"
  by code_simp

lemma default_prime: "is_prime DEFAULT_PRIME"
proof -
  have "no_divisor 2147483647"
  proof (rule ccontr)
    assume "\<not> no_divisor 2147483647"
    then obtain d :: int where d: "1 < d" "d < 2147483647" "d dvd 2147483647" by (auto simp: no_divisor_def)
    obtain e :: int where e: "e dvd 2147483647" "1 < e" "e * e \<le> 2147483647" using small_divisor [OF d(3,1,2)] by blast
    obtain q where q: "no_divisor q" "q dvd e" using least_divisor [OF e(2)] by blast
    have qM: "q dvd 2147483647" using q(2) e(1) by (rule dvd_trans)
    have q1: "1 < q" using q(1) by (simp add: no_divisor_def)
    have "q \<le> e" using q(2) e(2) by (auto dest: zdvd_imp_le)
    then have "q * q \<le> e * e" using q1 by (intro mult_mono) auto
    then have qq: "q * q \<le> 2147483647" using e(3) by linarith
    have small: "q \<le> 46340"
    proof (rule ccontr)
      assume "\<not> q \<le> 46340"
      then have "46341 * 46341 \<le> q * q" by (intro mult_mono) auto
      then show False using qq by simp
    qed
    have "odd q" using qM by (meson dvd_trans even_numeral odd_numeral)
    then have "2 dvd q - 1" by simp
    moreover have "31 dvd q - 1" by (rule divisor_form [OF q(1) qM])
    ultimately have "62 dvd q - 1" by presburger
    then obtain k where k: "q = 62 * k + 1" by (metis add_diff_cancel dvdE diff_add_cancel)
    then have "1 \<le> k" using q1 by auto
    then have "2147483647 mod q \<noteq> 0" using no_candidate_from [OF default_candidates, of "k - 1"] k small by (simp add: algebra_simps)
    then show False using qM by (simp add: dvd_eq_mod_eq_0)
  qed
  then show ?thesis by (simp add: is_prime_iff DEFAULT_PRIME_def)
qed

text \<open>Without configuration the strategy can be built for one to sixteen devices.\<close>

lemma default_strategy:
  assumes "1 \<le> n" and "n < 17"
  shows "PositionHash_init n [] = Inr \<lparr>ph_num_devices = n, ph_step_idx = 17, ph_step_layer = 23, ph_prime = 2147483647\<rparr>"
proof -
  have "is_prime 17" "is_prime 23" by code_simp+
  moreover have "is_prime 2147483647" using default_prime by (simp add: DEFAULT_PRIME_def)
  ultimately show ?thesis
    using assms by (simp add: PositionHash_init_def cfg_int_def dict_get_def ph_check_steps_def ph_check_domain_def
      DEFAULT_STEP_IDX_def DEFAULT_STEP_LAYER_def DEFAULT_PRIME_def)
qed

end
