(* ===== verification/MultiDevice.thy ===== *)
theory MultiDevice
  imports TraceBench DefaultPrime
begin

section \<open>Device windows, placements and capacity planning of the layout benchmark\<close>

text \<open>
  Model of \<open>bmpclient/bench/multi_device.py\<close> and of \<open>geometry\<close> in \<open>bmpclient/bench/layout_replay.py\<close>:
  the two placement strategies of the benchmark, the capacities it reserves per request and device,
  and the validation of the device manifest. The number of devices is a natural number; the code
  always passes eight.
\<close>

subsection \<open>The two placements\<close>

definition OriginalLayerHash :: "nat \<Rightarrow> int list \<Rightarrow> strategy result" where
  "OriginalLayerHash n original_layers =
     (case PositionHash_init (int n) [] of
        Inl e \<Rightarrow> Inl e
      | Inr ph \<Rightarrow>
          let loc = (\<lambda>(layer, token). case py_nth original_layers layer of
                Inl e \<Rightarrow> Inl e | Inr l \<Rightarrow> ph_locate ph (l, token))
          in Inr \<lparr>st_num_devices = int n, st_locate = loc, st_locate_batch = base_locate_batch loc\<rparr>)"

definition LayerPlacement :: "nat \<Rightarrow> int list \<Rightarrow> string \<Rightarrow> (row_key \<times> int) list \<Rightarrow> strategy result" where
  "LayerPlacement n original_layers request lengths =
     (if n = 0 then Inl ValueError
      else case map_result (\<lambda>l. case map_of lengths (request, l) of None \<Rightarrow> Inl KeyError | Some v \<Rightarrow> Inr v) original_layers of
        Inl e \<Rightarrow> Inl e
      | Inr ns \<Rightarrow>
          let loc = (\<lambda>(layer, token). case py_nth ns layer of
                Inl e \<Rightarrow> Inl e
              | Inr len \<Rightarrow>
                  if \<not> (0 \<le> token \<and> token < len) then Inl ValueError
                  else (case py_nth original_layers layer of Inl e \<Rightarrow> Inl e | Inr l \<Rightarrow> Inr (l mod int n)))
          in Inr \<lparr>st_num_devices = int n, st_locate = loc, st_locate_batch = base_locate_batch loc\<rparr>)"

subsection \<open>Capacities\<close>

datatype mode = Snapshot | Online

type_synonym per_device = "(string \<times> int list) list"

text \<open>\<open>rows[req][d] += n\<close> for every device; the request is a key of the dictionary.\<close>

definition add_rows :: "string \<Rightarrow> int list \<Rightarrow> per_device \<Rightarrow> per_device" where
  "add_rows req counts rows =
     (case map_of rows req of None \<Rightarrow> rows | Some old \<Rightarrow> dict_set req (map2 (+) old counts) rows)"

definition zero_rows :: "nat \<Rightarrow> string list \<Rightarrow> per_device" where
  "zero_rows n reqs = foldl (\<lambda>acc r. dict_set r (replicate n 0) acc) [] reqs"

definition pad :: "int \<Rightarrow> int \<Rightarrow> int" where
  "pad segment b = (b + segment - 1) div segment * segment"

definition layer_rows :: "(row_key \<times> int) list \<Rightarrow> nat \<Rightarrow> per_device" where
  "layer_rows lengths n =
     foldl (\<lambda>rows ((req, layer), len). add_rows req ((replicate n 0)[nat (layer mod int n) := len]) rows)
       (zero_rows n (map (fst \<circ> fst) lengths)) (sort_key fst lengths)"

definition layer_capacities :: "int \<Rightarrow> (row_key \<times> int) list \<Rightarrow> nat \<Rightarrow> per_device \<times> per_device" where
  "layer_capacities segment lengths n =
     (let rows = layer_rows lengths n
      in (map (\<lambda>(req, counts). (req, map (\<lambda>c. max segment (pad segment (c * BENCH_PAGE))) counts)) rows, rows))"

text \<open>The tokens of one event, counted per device.\<close>

fun count_tokens :: "(key \<Rightarrow> int result) \<Rightarrow> int \<Rightarrow> int list \<Rightarrow> int list \<Rightarrow> int list result" where
  "count_tokens loc layer [] counts = Inr counts"
| "count_tokens loc layer (t # ts) counts =
     (case loc (layer, t) of
        Inl e \<Rightarrow> Inl e
      | Inr d \<Rightarrow>
          (case py_nth counts d of Inl e \<Rightarrow> Inl e
           | Inr c \<Rightarrow> (case py_set counts d (c + 1) of Inl e \<Rightarrow> Inl e | Inr counts' \<Rightarrow> count_tokens loc layer ts counts')))"

record hash_state =
  hs_sizes :: per_device
  hs_rows :: per_device
  hs_loaded :: "(row_key \<times> int) list"

definition event_step ::
  "(key \<Rightarrow> int result) \<Rightarrow> int \<Rightarrow> mode \<Rightarrow> nat \<Rightarrow> string \<times> int \<times> int \<Rightarrow> hash_state \<Rightarrow> (unit, hash_state) outcome" where
  "event_step loc segment m n ev s =
     (case ev of (req, layer, stop) \<Rightarrow>
        (case count_tokens loc layer (py_range (dict_get (hs_loaded s) (req, layer) 0) stop 1) (replicate n 0) of
           Inl e \<Rightarrow> (Inl e, s)
         | Inr counts \<Rightarrow>
             if map_of (hs_rows s) req = None then (Inl KeyError, s)
             else (Inr (), \<lparr>hs_sizes = add_rows req (map (\<lambda>c. if m = Online then pad segment (c * BENCH_PAGE) else c * BENCH_PAGE) counts) (hs_sizes s),
                      hs_rows = add_rows req counts (hs_rows s),
                      hs_loaded = dict_set (req, layer) stop (hs_loaded s)\<rparr>)))"

definition hash_events :: "trace \<Rightarrow> mode \<Rightarrow> (row_key \<times> int) list \<Rightarrow> (string \<times> int \<times> int) list" where
  "hash_events tr m lengths =
     (case m of
        Snapshot \<Rightarrow> map (\<lambda>((req, layer), len). (req, layer, len)) (sort_key fst lengths)
      | Online \<Rightarrow> map (\<lambda>r. (rec_str r ''request_id'', rec_int r ''layer_id'', rec_int r ''context_length'')) (tr_records tr))"

definition hash_capacities ::
  "trace \<Rightarrow> int \<Rightarrow> mode \<Rightarrow> nat \<Rightarrow> (row_key \<times> int) list \<Rightarrow> (per_device \<times> per_device) result" where
  "hash_capacities tr segment m n lengths =
     (case PositionHash_init (int n) [] of
        Inl e \<Rightarrow> Inl e
      | Inr ph \<Rightarrow>
          let reqs = sorted_list_of_set (fst ` fst ` set lengths);
              s0 = \<lparr>hs_sizes = zero_rows n reqs, hs_rows = zero_rows n reqs, hs_loaded = []\<rparr>
          in case for_each (event_step (ph_locate ph) segment m n) (hash_events tr m lengths) s0 of
               (Inl e, _) \<Rightarrow> Inl e
             | (Inr _, s) \<Rightarrow>
                 Inr (map (\<lambda>(req, ns). (req, map (\<lambda>b. max segment (pad segment b)) ns)) (hs_sizes s), hs_rows s))"

subsection \<open>geometry\<close>

record geo_state =
  gs_lengths :: "(row_key \<times> int) list"
  gs_slots :: "(string \<times> int) list"
  gs_steps :: "(string \<times> int) list"

definition geometry_step :: "int \<Rightarrow> mode \<Rightarrow> jdict \<Rightarrow> geo_state \<Rightarrow> (unit, geo_state) outcome" where
  "geometry_step segment m r s =
     (let key = rec_key r; req = fst key; st = rec_int r ''step_id'';
          old = dict_get (gs_lengths s) key 0; new = rec_int r ''context_length'' in
      if m = Online \<and> st < dict_get (gs_steps s) req 0 then (Inl ValueError, s)
      else
        let s1 = s\<lparr>gs_steps := dict_set req st (gs_steps s)\<rparr> in
        if m = Online \<and> new < old then (Inl ValueError, s1)
        else
          let s2 = (if old < new then s1\<lparr>gs_slots := dict_set req (dict_get (gs_slots s1) req 0 + pad segment ((new - old) * BENCH_PAGE)) (gs_slots s1)\<rparr> else s1)
          in (Inr (), s2\<lparr>gs_lengths := dict_set key (max old new) (gs_lengths s2)\<rparr>))"

definition snapshot_slots :: "int \<Rightarrow> (row_key \<times> int) list \<Rightarrow> (string \<times> int) list" where
  "snapshot_slots segment lengths =
     map (\<lambda>(req, b). (req, pad segment b))
       (foldl (\<lambda>slots ((req, layer), len). dict_set req (dict_get slots req 0 + len * BENCH_PAGE) slots) [] lengths)"

definition geometry :: "trace \<Rightarrow> int \<Rightarrow> mode \<Rightarrow> ((row_key \<times> int) list \<times> (string \<times> int) list) result" where
  "geometry tr segment m =
     (case for_each (geometry_step segment m) (tr_records tr) \<lparr>gs_lengths = [], gs_slots = [], gs_steps = []\<rparr> of
        (Inl e, _) \<Rightarrow> Inl e
      | (Inr _, s) \<Rightarrow>
          Inr (gs_lengths s, if m = Snapshot then snapshot_slots segment (gs_lengths s) else gs_slots s))"

subsection \<open>load\_devices\<close>

record window =
  w_device_idx :: int
  w_is_device :: bool
  w_target :: string
  w_offset :: int
  w_bytes :: int

definition size_value :: "jval \<Rightarrow> int result" where
  "size_value v = (case v of JInt _ \<Rightarrow> size_arg v | JStr _ \<Rightarrow> size_arg v | _ \<Rightarrow> Inl ValueError)"

text \<open>\<open>resolve\<close> stands for \<open>Path.resolve\<close>, which follows the symbolic links of the file system.\<close>

definition load_window :: "(string \<Rightarrow> string) \<Rightarrow> nat \<Rightarrow> jval \<Rightarrow> window result" where
  "load_window resolve d entry =
     (case entry of
        JObj e \<Rightarrow>
          let keys = fst ` set e; kind = (if ''device'' \<in> keys then ''device'' else ''file'') in
          if (''device'' \<in> keys) = (''file'' \<in> keys) then Inl ValueError
          else if keys \<noteq> {kind, ''window_offset'', ''window_bytes''} then Inl ValueError
          else (case map_of e kind of
                  Some (JStr path) \<Rightarrow>
                    if path = [] \<or> hd path \<noteq> CHR ''/'' then Inl ValueError
                    else (case jget e ''window_offset'' of Inl x \<Rightarrow> Inl x | Inr ov \<Rightarrow>
                         (case size_value ov of Inl x \<Rightarrow> Inl x | Inr off \<Rightarrow>
                         (case jget e ''window_bytes'' of Inl x \<Rightarrow> Inl x | Inr bv \<Rightarrow>
                         (case size_value bv of Inl x \<Rightarrow> Inl x | Inr b \<Rightarrow>
                           Inr \<lparr>w_device_idx = int d, w_is_device = (kind = ''device''), w_target = resolve path,
                                w_offset = off, w_bytes = b\<rparr>))))
                | _ \<Rightarrow> Inl ValueError)
      | _ \<Rightarrow> Inl ValueError)"

definition load_devices :: "(string \<Rightarrow> string) \<Rightarrow> jval \<Rightarrow> window list result" where
  "load_devices resolve doc =
     (case doc of
        JArr es \<Rightarrow>
          if length es \<noteq> 8 then Inl ValueError
          else (case map_result (\<lambda>(d, e). load_window resolve d e) (zip [0..<8] es) of
                  Inl x \<Rightarrow> Inl x
                | Inr ws \<Rightarrow>
                    if card (set (map w_target ws)) \<noteq> 8 then Inl ValueError
                    else if card (set (map w_is_device ws)) \<noteq> 1 then Inl ValueError
                    else Inr ws)
      | _ \<Rightarrow> Inl ValueError)"

subsection \<open>Counting rows per device\<close>

definition placed_count :: "(key \<Rightarrow> int result) \<Rightarrow> int \<Rightarrow> int list \<Rightarrow> nat \<Rightarrow> int" where
  "placed_count loc layer ts d = int (length (filter (\<lambda>t. loc (layer, t) = Inr (int d)) ts))"

definition count_vec :: "(key \<Rightarrow> int result) \<Rightarrow> nat \<Rightarrow> int \<Rightarrow> int list \<Rightarrow> int list" where
  "count_vec loc n layer ts = map (placed_count loc layer ts) [0..<n]"

lemma count_tokens_ok:
  assumes "\<forall>t\<in>set ts. \<exists>d. loc (layer, t) = Inr d \<and> 0 \<le> d \<and> d < int n" and "length counts = n"
  shows "count_tokens loc layer ts counts = Inr (map2 (+) counts (count_vec loc n layer ts))"
  using assms
proof (induction ts arbitrary: counts)
  case Nil
  then show ?case by (auto simp: count_vec_def placed_count_def intro!: nth_equalityI)
next
  case (Cons t ts)
  then obtain d where d: "loc (layer, t) = Inr d" "0 \<le> d" "d < int n" by auto
  let ?c = "counts[nat d := counts ! nat d + 1]"
  have "count_tokens loc layer (t # ts) counts = count_tokens loc layer ts ?c"
    using d Cons.prems(2) by (simp add: py_nth_nonneg py_set_nonneg)
  also have "\<dots> = Inr (map2 (+) ?c (count_vec loc n layer ts))" using Cons by simp
  also have "map2 (+) ?c (count_vec loc n layer ts) = map2 (+) counts (count_vec loc n layer (t # ts))"
  proof (rule nth_equalityI)
    fix i assume "i < length (map2 (+) ?c (count_vec loc n layer ts))"
    then have i: "i < n" using Cons.prems(2) by (simp add: count_vec_def)
    have "(d = int i) = (nat d = i)" using d by auto
    then show "map2 (+) ?c (count_vec loc n layer ts) ! i = map2 (+) counts (count_vec loc n layer (t # ts)) ! i"
      using i d Cons.prems(2) by (auto simp: count_vec_def placed_count_def nth_list_update)
  qed (simp add: count_vec_def)
  finally show ?case .
qed

lemma map_of_add_rows:
  "map_of (add_rows req c rows) r = (if r = req then map_option (\<lambda>old. map2 (+) old c) (map_of rows req) else map_of rows r)"
  by (simp add: add_rows_def split: option.splits)

definition sum_for :: "string \<Rightarrow> nat \<Rightarrow> (string \<times> int list) list \<Rightarrow> nat \<Rightarrow> int" where
  "sum_for req n evs d = sum_list (map (\<lambda>(r, v). if r = req then v ! d else 0) evs)"

lemma add_rows_sum:
  assumes "\<forall>(r, v)\<in>set evs. length v = n" and "map_of rows req = Some old" and "length old = n"
  shows "map_of (foldl (\<lambda>rows (r, v). add_rows r v rows) rows evs) req = Some (map (\<lambda>d. old ! d + sum_for req n evs d) [0..<n])"
  using assms
proof (induction evs arbitrary: rows old)
  case Nil
  then show ?case by (auto simp: sum_for_def intro!: nth_equalityI)
next
  case (Cons ev evs)
  obtain r v where ev: "ev = (r, v)" by fastforce
  let ?old = "if r = req then map2 (+) old v else old"
  have "map_of (add_rows r v rows) req = Some ?old" "length ?old = n"
    using Cons.prems ev by (auto simp: map_of_add_rows)
  from Cons.IH [OF _ this] Cons.prems ev
  have "map_of (foldl (\<lambda>rows (r, v). add_rows r v rows) rows (ev # evs)) req =
      Some (map (\<lambda>d. ?old ! d + sum_for req n evs d) [0..<n])" by auto
  moreover have "?old ! d + sum_for req n evs d = old ! d + sum_for req n (ev # evs) d" if "d < n" for d
    using that ev Cons.prems by (auto simp: sum_for_def)
  ultimately show ?case by simp
qed

lemma zero_rows_lookup: "map_of (zero_rows n reqs) r = (if r \<in> set reqs then Some (replicate n 0) else None)"
proof -
  have "map_of (foldl (\<lambda>acc r. dict_set r (replicate n 0) acc) acc reqs) r =
      (if r \<in> set reqs then Some (replicate n 0) else map_of acc r)" for acc :: per_device
    by (induction reqs arbitrary: acc) auto
  then show ?thesis by (simp add: zero_rows_def)
qed

text \<open>Summed over the entries of one request, the counts are the number of rows placed on the device.\<close>

definition request_rows :: "(key \<Rightarrow> int result) \<Rightarrow> (row_key \<times> int) list \<Rightarrow> string \<Rightarrow> nat \<Rightarrow> (int \<times> int) set" where
  "request_rows loc lengths req d =
     {(l, t). \<exists>len. map_of lengths (req, l) = Some len \<and> 0 \<le> t \<and> t < len \<and> loc (l, t) = Inr (int d)}"

lemma py_range_unit: "py_range 0 n 1 = map int [0..<nat n]"
  by (simp add: py_range_def)

lemma placed_count_card: "placed_count loc l (py_range 0 len 1) d = int (card {t. 0 \<le> t \<and> t < len \<and> loc (l, t) = Inr (int d)})"
proof -
  have "distinct (map int [0..<nat len])" by (simp add: distinct_map)
  then have "length (filter (\<lambda>t. loc (l, t) = Inr (int d)) (map int [0..<nat len])) =
      card (set (filter (\<lambda>t. loc (l, t) = Inr (int d)) (map int [0..<nat len])))"
    by (intro distinct_card [symmetric] distinct_filter)
  also have "set (filter (\<lambda>t. loc (l, t) = Inr (int d)) (map int [0..<nat len])) = {t. 0 \<le> t \<and> t < len \<and> loc (l, t) = Inr (int d)}"
    by (auto intro!: image_eqI [of _ int "nat _"])
  finally show ?thesis by (simp add: placed_count_def py_range_unit)
qed

lemma request_rows_finite: "finite (request_rows loc lengths req d)"
proof -
  let ?A = "\<Union>((r, l), len)\<in>set lengths. {l} \<times> {0..<len}"
  have "request_rows loc lengths req d \<subseteq> ?A"
    by (fastforce simp: request_rows_def dest: map_of_SomeD)
  moreover have "finite ?A" by (intro finite_UN_I) (auto split: prod.splits)
  ultimately show ?thesis by (rule finite_subset)
qed

lemma request_rows_sum:
  assumes "distinct (map fst lengths)"
  shows "sum_list (map (\<lambda>((r, l), len). if r = req then placed_count loc l (py_range 0 len 1) d else 0) lengths) =
    int (card (request_rows loc lengths req d))"
  using assms
proof (induction lengths)
  case Nil
  then show ?case by (simp add: request_rows_def)
next
  case (Cons p lengths)
  obtain r l len where p: "p = ((r, l), len)" by (metis prod.exhaust)
  let ?new = "(\<lambda>t. (l, t)) ` {t. 0 \<le> t \<and> t < len \<and> loc (l, t) = Inr (int d)}"
  have none: "map_of lengths (r, l) = None" using Cons.prems p by (simp add: map_of_eq_None_iff)
  show ?case
  proof (cases "r = req")
    case True
    have split: "request_rows loc (p # lengths) req d = ?new \<union> request_rows loc lengths req d"
      using p True none by (auto simp: request_rows_def split: if_splits)
    have "?new \<inter> request_rows loc lengths req d = {}" using none True by (auto simp: request_rows_def)
    moreover have "finite {t. 0 \<le> t \<and> t < len \<and> loc (l, t) = Inr (int d)}"
      by (rule finite_subset [of _ "{0..<len}"]) auto
    ultimately have "card (request_rows loc (p # lengths) req d) =
        card {t. 0 \<le> t \<and> t < len \<and> loc (l, t) = Inr (int d)} + card (request_rows loc lengths req d)"
      unfolding split using request_rows_finite
      by (subst card_Un_disjoint) (auto simp: card_image inj_on_def)
    then show ?thesis using Cons p True by (simp add: placed_count_card)
  next
    case False
    then have "request_rows loc (p # lengths) req d = request_rows loc lengths req d" using p by (simp add: request_rows_def)
    then show ?thesis using Cons p False by simp
  qed
qed

lemma pad_facts: "0 < segment \<Longrightarrow> b \<le> pad segment b" "segment dvd pad segment b"
  using round_up_ge [of segment b] round_up_dvd [of segment b] by (simp_all add: pad_def round_up_def)

lemma map_of_map_values: "map_of (map (\<lambda>(k, v). (k, f v)) ps) = map_option f \<circ> map_of ps"
  by (rule map_of_map)

lemma sum_list_sort_key: "sum_list (map f (sort_key g xs)) = sum_list (map f xs :: int list)"
  by (metis mset_map mset_sort sum_mset_sum_list)

subsection \<open>Placement by layer\<close>

definition by_layer :: "nat \<Rightarrow> key \<Rightarrow> int result" where
  "by_layer n k = Inr (fst k mod int n)"

lemma layer_vector:
  assumes "0 < n" and "0 \<le> len"
  shows "(replicate n 0)[nat (layer mod int n) := len] = count_vec (by_layer n) n layer (py_range 0 len 1)"
proof (rule nth_equalityI)
  fix d assume "d < length ((replicate n 0)[nat (layer mod int n) := len])"
  then have d: "d < n" by simp
  have "(nat (layer mod int n) = d) = (layer mod int n = int d)" using assms(1) by auto
  then show "(replicate n 0)[nat (layer mod int n) := len] ! d = count_vec (by_layer n) n layer (py_range 0 len 1) ! d"
    using d assms(2) by (auto simp: count_vec_def placed_count_def by_layer_def py_range_unit nth_list_update)
qed (simp add: count_vec_def)

lemma layer_rows_ok:
  assumes "0 < n" and "distinct (map fst lengths)" and "\<forall>(k, len)\<in>set lengths. 0 \<le> len" and "req \<in> fst ` fst ` set lengths"
  shows "map_of (layer_rows lengths n) req = Some (map (\<lambda>d. int (card (request_rows (by_layer n) lengths req d))) [0..<n])"
proof -
  let ?vec = "\<lambda>((r, l), len). (r, count_vec (by_layer n) n l (py_range 0 len 1))"
  let ?evs = "map ?vec (sort_key fst lengths)"
  have "foldl (\<lambda>rows ((req, layer), len). add_rows req ((replicate n 0)[nat (layer mod int n) := len]) rows) acc ps =
      foldl (\<lambda>rows (r, v). add_rows r v rows) acc (map ?vec ps)" if "set ps \<subseteq> set lengths" for acc ps
    using that assms(1,3) by (induction ps arbitrary: acc) (auto simp: layer_vector)
  then have rows: "layer_rows lengths n = foldl (\<lambda>rows (r, v). add_rows r v rows) (zero_rows n (map (fst \<circ> fst) lengths)) ?evs"
    by (simp add: layer_rows_def)
  have zero: "map_of (zero_rows n (map (fst \<circ> fst) lengths)) req = Some (replicate n 0)"
    using assms(4) by (auto simp: zero_rows_lookup image_comp)
  have "map_of (layer_rows lengths n) req = Some (map (\<lambda>d. replicate n 0 ! d + sum_for req n ?evs d) [0..<n])"
    unfolding rows by (rule add_rows_sum [OF _ zero]) (auto simp: count_vec_def)
  moreover have "sum_for req n ?evs d = int (card (request_rows (by_layer n) lengths req d))" if "d < n" for d
  proof -
    have "sum_for req n ?evs d = sum_list (map (\<lambda>((r, l), len). if r = req then placed_count (by_layer n) l (py_range 0 len 1) d else 0) (sort_key fst lengths))"
      unfolding sum_for_def list.map_comp using that by (intro arg_cong [where f = sum_list] map_cong) (auto simp: count_vec_def)
    then show ?thesis using request_rows_sum [OF assms(2)] by (simp add: sum_list_sort_key)
  qed
  ultimately show ?thesis by simp
qed

subsection \<open>Placement by hash\<close>

lemma hash_events_run:
  assumes "\<forall>(r, l, len)\<in>set evs. \<forall>t. 0 \<le> t \<longrightarrow> (\<exists>d. loc (l, t) = Inr d \<and> 0 \<le> d \<and> d < int n)"
    and "distinct (map (\<lambda>(r, l, len). (r, l)) evs)"
    and "\<forall>(r, l, len)\<in>set evs. map_of (hs_loaded s) (r, l) = None \<and> map_of (hs_rows s) r \<noteq> None"
    and "\<forall>r. map_of (hs_sizes s) r = map_option (map (\<lambda>c. c * BENCH_PAGE)) (map_of (hs_rows s) r)"
  shows "\<exists>s'. for_each (event_step loc segment Snapshot n) evs s = (Inr (), s') \<and>
    hs_rows s' = foldl (\<lambda>rows (r, v). add_rows r v rows) (hs_rows s) (map (\<lambda>(r, l, len). (r, count_vec loc n l (py_range 0 len 1))) evs) \<and>
    (\<forall>r. map_of (hs_sizes s') r = map_option (map (\<lambda>c. c * BENCH_PAGE)) (map_of (hs_rows s') r))"
  using assms
proof (induction evs arbitrary: s)
  case (Cons ev evs)
  obtain r l len where ev: "ev = (r, l, len)" by (cases ev)
  let ?v = "count_vec loc n l (py_range 0 len 1)"
  let ?s = "\<lparr>hs_sizes = add_rows r (map (\<lambda>c. c * BENCH_PAGE) ?v) (hs_sizes s), hs_rows = add_rows r ?v (hs_rows s),
      hs_loaded = dict_set (r, l) len (hs_loaded s)\<rparr>"
  have "count_tokens loc l (py_range 0 len 1) (replicate n 0) = Inr (map2 (+) (replicate n 0) ?v)"
    using Cons.prems(1) ev by (intro count_tokens_ok) (auto simp: py_range_unit)
  moreover have "map2 (+) (replicate n 0) ?v = ?v" by (auto simp: count_vec_def intro!: nth_equalityI)
  moreover have "dict_get (hs_loaded s) (r, l) 0 = 0" using Cons.prems(3) ev by (simp add: dict_get_def)
  ultimately have step: "event_step loc segment Snapshot n ev s = (Inr (), ?s)"
    using Cons.prems(3) ev by (auto simp: event_step_def)
  have scale: "map (\<lambda>c. c * BENCH_PAGE) (map2 (+) old ?v) = map2 (+) (map (\<lambda>c. c * BENCH_PAGE) old) (map (\<lambda>c. c * BENCH_PAGE) ?v)" for old
    by (intro nth_equalityI) (auto simp: algebra_simps)
  have "\<exists>s'. for_each (event_step loc segment Snapshot n) evs ?s = (Inr (), s') \<and>
    hs_rows s' = foldl (\<lambda>rows (r, v). add_rows r v rows) (hs_rows ?s) (map (\<lambda>(r, l, len). (r, count_vec loc n l (py_range 0 len 1))) evs) \<and>
    (\<forall>r. map_of (hs_sizes s') r = map_option (map (\<lambda>c. c * BENCH_PAGE)) (map_of (hs_rows s') r))"
  proof (rule Cons.IH)
    show "\<forall>(r', l', len')\<in>set evs. map_of (hs_loaded ?s) (r', l') = None \<and> map_of (hs_rows ?s) r' \<noteq> None"
    proof (clarify)
      fix r' l' len' assume m: "(r', l', len') \<in> set evs"
      then have "(r', l') \<in> (\<lambda>(r, l, len). (r, l)) ` set evs" by force
      moreover have "(r, l) \<notin> (\<lambda>(r, l, len). (r, l)) ` set evs" using Cons.prems(2) ev by simp
      ultimately have "(r', l') \<noteq> (r, l)" by metis
      then show "map_of (hs_loaded ?s) (r', l') = None \<and> map_of (hs_rows ?s) r' \<noteq> None"
        using Cons.prems(3) m ev by (auto simp: map_of_add_rows)
    qed
    show "\<forall>q. map_of (hs_sizes ?s) q = map_option (map (\<lambda>c. c * BENCH_PAGE)) (map_of (hs_rows ?s) q)"
      using Cons.prems(4) scale by (auto simp: map_of_add_rows option.map_comp comp_def)
  qed (use Cons.prems ev in auto)
  then show ?case using step ev by simp
qed simp

lemma init_hash:
  assumes "PositionHash_init (int n) [] = Inr ph" and "0 \<le> l" and "0 \<le> t"
  shows "\<exists>d. ph_locate ph (l, t) = Inr d \<and> 0 \<le> d \<and> d < int n"
proof -
  have "ph_ok ph" "ph_num_devices ph = int n" using PositionHash_init_ok [OF assms(1)] by auto
  then show ?thesis using assms(2,3) ph.locate_range [of ph "(l, t)"] ph.devices_pos [of ph]
    by (auto simp: position_hash_strategy_def ph_locate_def)
qed

lemma hash_snapshot_run:
  assumes "PositionHash_init (int n) [] = Inr ph" and "distinct (map fst lengths)"
    and "\<forall>((r, l), len)\<in>set lengths. 0 \<le> l \<and> 0 \<le> len"
  shows "\<exists>s'. for_each (event_step (ph_locate ph) segment Snapshot n) (hash_events tr Snapshot lengths)
      \<lparr>hs_sizes = zero_rows n (sorted_list_of_set (fst ` fst ` set lengths)),
       hs_rows = zero_rows n (sorted_list_of_set (fst ` fst ` set lengths)), hs_loaded = []\<rparr> = (Inr (), s') \<and>
    hs_rows s' = foldl (\<lambda>rows (r, v). add_rows r v rows) (zero_rows n (sorted_list_of_set (fst ` fst ` set lengths)))
      (map (\<lambda>(r, l, len). (r, count_vec (ph_locate ph) n l (py_range 0 len 1))) (hash_events tr Snapshot lengths)) \<and>
    (\<forall>r. map_of (hs_sizes s') r = map_option (map (\<lambda>c. c * BENCH_PAGE)) (map_of (hs_rows s') r))"
proof -
  let ?reqs = "sorted_list_of_set (fst ` fst ` set lengths)"
  let ?s0 = "\<lparr>hs_sizes = zero_rows n ?reqs, hs_rows = zero_rows n ?reqs, hs_loaded = []\<rparr>"
  let ?ev = "\<lambda>((req, layer), len). (req, layer, len)"
  let ?evs = "map ?ev (sort_key fst lengths)"
  let ?vec = "\<lambda>(r, l, len). (r, count_vec (ph_locate ph) n l (py_range 0 len 1))"
  have evs: "hash_events tr Snapshot lengths = ?evs" by (simp add: hash_events_def)
  have mem: "(r, l, len) \<in> set ?evs \<longleftrightarrow> ((r, l), len) \<in> set lengths" for r l len by force
  have keys: "map (\<lambda>(r, l, len). (r, l)) ?evs = map fst (sort_key fst lengths)" by (auto simp: split_def)
  have "distinct (map fst (sort_key fst lengths))"
    using assms(2) mset_eq_imp_distinct_iff [of "map fst (sort_key fst lengths)" "map fst lengths"] by simp
  then have dist: "distinct (map (\<lambda>(r, l, len). (r, l)) ?evs)" unfolding keys .
  have "\<exists>s'. for_each (event_step (ph_locate ph) segment Snapshot n) ?evs ?s0 = (Inr (), s') \<and>
    hs_rows s' = foldl (\<lambda>rows (r, v). add_rows r v rows) (hs_rows ?s0) (map ?vec ?evs) \<and>
    (\<forall>r. map_of (hs_sizes s') r = map_option (map (\<lambda>c. c * BENCH_PAGE)) (map_of (hs_rows s') r))"
  proof (rule hash_events_run [OF _ dist])
    show "\<forall>(r, l, len)\<in>set ?evs. \<forall>t. 0 \<le> t \<longrightarrow> (\<exists>d. ph_locate ph (l, t) = Inr d \<and> 0 \<le> d \<and> d < int n)"
    proof (clarify)
      fix r l len and t :: int assume "(r, l, len) \<in> set ?evs" and t: "0 \<le> t"
      then have "((r, l), len) \<in> set lengths" unfolding mem by simp
      then have "0 \<le> l" using assms(3) by auto
      then show "\<exists>d. ph_locate ph (l, t) = Inr d \<and> 0 \<le> d \<and> d < int n" using init_hash [OF assms(1)] t by blast
    qed
    show "\<forall>(r, l, len)\<in>set ?evs. map_of (hs_loaded ?s0) (r, l) = None \<and> map_of (hs_rows ?s0) r \<noteq> None"
    proof (clarify)
      fix r l len assume "(r, l, len) \<in> set ?evs"
      then have "((r, l), len) \<in> set lengths" unfolding mem .
      then have "r \<in> fst ` fst ` set lengths" by force
      then show "map_of (hs_loaded ?s0) (r, l) = None \<and> map_of (hs_rows ?s0) r \<noteq> None" by (simp add: zero_rows_lookup)
    qed
  qed (simp add: zero_rows_lookup)
  then show ?thesis unfolding evs by simp
qed

lemma hash_rows_ok:
  assumes "PositionHash_init (int n) [] = Inr ph" and "distinct (map fst lengths)"
    and "\<forall>((r, l), len)\<in>set lengths. 0 \<le> l \<and> 0 \<le> len" and "req \<in> fst ` fst ` set lengths"
    and "hash_capacities tr segment Snapshot n lengths = Inr (sizes, rows)"
  shows "map_of rows req = Some (map (\<lambda>d. int (card (request_rows (ph_locate ph) lengths req d))) [0..<n])"
    and "map_of sizes req = Some (map (\<lambda>d. max segment (pad segment (int (card (request_rows (ph_locate ph) lengths req d)) * BENCH_PAGE))) [0..<n])"
proof -
  let ?reqs = "sorted_list_of_set (fst ` fst ` set lengths)"
  let ?s0 = "\<lparr>hs_sizes = zero_rows n ?reqs, hs_rows = zero_rows n ?reqs, hs_loaded = []\<rparr>"
  let ?ev = "\<lambda>((req, layer), len). (req, layer, len)"
  let ?evs = "map ?ev (sort_key fst lengths)"
  let ?vec = "\<lambda>(r, l, len). (r, count_vec (ph_locate ph) n l (py_range 0 len 1))"
  have evs: "hash_events tr Snapshot lengths = ?evs" by (simp add: hash_events_def)
  obtain s' where s': "for_each (event_step (ph_locate ph) segment Snapshot n) ?evs ?s0 = (Inr (), s')"
    "hs_rows s' = foldl (\<lambda>rows (r, v). add_rows r v rows) (zero_rows n ?reqs) (map ?vec ?evs)"
    "\<And>r. map_of (hs_sizes s') r = map_option (map (\<lambda>c. c * BENCH_PAGE)) (map_of (hs_rows s') r)"
    using hash_snapshot_run [OF assms(1,2,3), of segment tr] unfolding evs by blast
  have res: "rows = hs_rows s'" "sizes = map (\<lambda>(req, ns). (req, map (\<lambda>b. max segment (pad segment b)) ns)) (hs_sizes s')"
    using assms(1,5) s'(1) by (auto simp: hash_capacities_def Let_def evs)
  have zero: "map_of (zero_rows n ?reqs) req = Some (replicate n 0)" using assms(4) by (simp add: zero_rows_lookup)
  have "map_of (hs_rows s') req = Some (map (\<lambda>d. replicate n 0 ! d + sum_for req n (map ?vec ?evs) d) [0..<n])"
    unfolding s'(2) by (rule add_rows_sum [OF _ zero]) (auto simp: count_vec_def)
  moreover have "sum_for req n (map ?vec ?evs) d = int (card (request_rows (ph_locate ph) lengths req d))" if "d < n" for d
  proof -
    have "sum_for req n (map ?vec ?evs) d = sum_list (map (\<lambda>((r, l), len). if r = req then placed_count (ph_locate ph) l (py_range 0 len 1) d else 0) (sort_key fst lengths))"
      unfolding sum_for_def list.map_comp using that by (intro arg_cong [where f = sum_list] map_cong) (auto simp: count_vec_def)
    then show ?thesis using request_rows_sum [OF assms(2)] by (simp add: sum_list_sort_key)
  qed
  ultimately show r: "map_of rows req = Some (map (\<lambda>d. int (card (request_rows (ph_locate ph) lengths req d))) [0..<n])"
    using res(1) by simp
  have "map_of sizes req = map_option (map (\<lambda>b. max segment (pad segment b))) (map_of (hs_sizes s') req)"
    unfolding res(2) by (simp add: map_of_map_values)
  then show "map_of sizes req = Some (map (\<lambda>d. max segment (pad segment (int (card (request_rows (ph_locate ph) lengths req d)) * BENCH_PAGE))) [0..<n])"
    using s'(3) [of req] r res(1) by (simp add: comp_def)
qed

subsection \<open>Capacities cover the placement\<close>

text \<open>
  The rows of one request a strategy object places on device \<open>d\<close>; the store numbers the layers of
  the request densely, so that the keys are positions in the sorted list of its layers.
\<close>

definition dense_rows :: "strategy \<Rightarrow> int list \<Rightarrow> (row_key \<times> int) list \<Rightarrow> string \<Rightarrow> nat \<Rightarrow> (nat \<times> int) set" where
  "dense_rows strat layers lengths req d =
     {(i, t). i < length layers \<and> 0 \<le> t \<and> t < dict_get lengths (req, layers ! i) 0 \<and> st_locate strat (int i, t) = Inr (int d)}"

lemma dense_rows_card:
  assumes "layers = sorted_list_of_set {l. (req, l) \<in> fst ` set lengths}"
    and "\<And>i t. i < length layers \<Longrightarrow> 0 \<le> t \<Longrightarrow> t < dict_get lengths (req, layers ! i) 0 \<Longrightarrow>
      st_locate strat (int i, t) = loc (layers ! i, t)"
  shows "card (dense_rows strat layers lengths req d) = card (request_rows loc lengths req d)"
proof -
  have fin: "finite {l. (req, l) \<in> fst ` set lengths}"
    by (rule finite_subset [of _ "snd ` fst ` set lengths"]) (auto simp: image_iff, force)
  have layers: "set layers = {l. (req, l) \<in> fst ` set lengths}" "distinct layers" using assms(1) fin by auto
  have known: "map_of lengths (req, l) = Some (dict_get lengths (req, l) 0)" if "l \<in> set layers" for l
    using that layers(1) map_of_eq_None_iff [of lengths "(req, l)"] by (auto simp: dict_get_def split: option.splits)
  have only: "l \<in> set layers" if "map_of lengths (req, l) = Some len" for l len
    using that layers(1) by (auto dest!: map_of_SomeD intro: rev_image_eqI)
  have "bij_betw (\<lambda>(i, t). (layers ! i, t)) (dense_rows strat layers lengths req d) (request_rows loc lengths req d)"
  proof (rule bij_betwI')
    fix x y assume "x \<in> dense_rows strat layers lengths req d" "y \<in> dense_rows strat layers lengths req d"
    then show "((case x of (i, t) \<Rightarrow> (layers ! i, t)) = (case y of (i, t) \<Rightarrow> (layers ! i, t))) = (x = y)"
      using layers(2) by (auto simp: dense_rows_def nth_eq_iff_index_eq)
  next
    fix x assume "x \<in> dense_rows strat layers lengths req d"
    then show "(case x of (i, t) \<Rightarrow> (layers ! i, t)) \<in> request_rows loc lengths req d"
      using assms(2) known nth_mem by (fastforce simp: dense_rows_def request_rows_def)
  next
    fix y assume y: "y \<in> request_rows loc lengths req d"
    obtain l t len where lt: "y = (l, t)" "map_of lengths (req, l) = Some len" "0 \<le> t" "t < len" "loc (l, t) = Inr (int d)"
      using y by (auto simp: request_rows_def)
    obtain i where i: "i < length layers" "layers ! i = l" using only [OF lt(2)] by (auto simp: in_set_conv_nth)
    have "(i, t) \<in> dense_rows strat layers lengths req d"
      using lt i assms(2) [OF i(1) lt(3)] by (simp add: dense_rows_def dict_get_def)
    then show "\<exists>x\<in>dense_rows strat layers lengths req d. y = (case x of (i, t) \<Rightarrow> (layers ! i, t))"
      using lt(1) i(2) by (intro bexI [of _ "(i, t)"]) auto
  qed
  then show ?thesis by (rule bij_betw_same_card)
qed

definition covers :: "strategy \<Rightarrow> int list \<Rightarrow> (row_key \<times> int) list \<Rightarrow> string \<Rightarrow> int \<Rightarrow> nat \<Rightarrow> per_device \<Rightarrow> per_device \<Rightarrow> bool" where
  "covers strat layers lengths req segment n sizes rows \<longleftrightarrow>
     (\<exists>cs rs. map_of sizes req = Some cs \<and> map_of rows req = Some rs \<and> length cs = n \<and> length rs = n \<and>
        (\<forall>d < n. rs ! d = int (card (dense_rows strat layers lengths req d)) \<and>
           rs ! d * BENCH_PAGE \<le> cs ! d \<and> segment \<le> cs ! d \<and> segment dvd cs ! d))"

lemma coversI:
  assumes "map_of rows req = Some (map (\<lambda>d. int (card (request_rows loc lengths req d))) [0..<n])"
    and "map_of sizes req = Some (map (\<lambda>d. max segment (pad segment (int (card (request_rows loc lengths req d)) * BENCH_PAGE))) [0..<n])"
    and "0 < segment" and "\<And>d. card (dense_rows strat layers lengths req d) = card (request_rows loc lengths req d)"
  shows "covers strat layers lengths req segment n sizes rows"
  unfolding covers_def using assms pad_facts
  by (intro exI conjI) (auto simp: max_def intro: order_trans [OF pad_facts(1)])

text \<open>
  C6. The capacities reserved for a snapshot are sufficient for either placement: for every request
  of the trace and every device, the row count the planner reports is the number of rows the
  strategy object of the replay places there, and the reserved capacity is a positive multiple of
  the segment size that holds them all.
\<close>

theorem capacities_cover_placement:
  assumes "distinct (map fst lengths)" and "\<forall>((r, l), len)\<in>set lengths. 0 \<le> l \<and> 0 \<le> len"
    and "req \<in> fst ` fst ` set lengths" and "0 < segment"
    and "layers = sorted_list_of_set {l. (req, l) \<in> fst ` set lengths}"
    and "hash_capacities tr segment Snapshot n lengths = Inr (hsizes, hrows)" and "OriginalLayerHash n layers = Inr hs"
    and "layer_capacities segment lengths n = (lsizes, lrows)" and "LayerPlacement n layers req lengths = Inr ls"
  shows "covers hs layers lengths req segment n hsizes hrows \<and> covers ls layers lengths req segment n lsizes lrows"
proof
  obtain ph where ph: "PositionHash_init (int n) [] = Inr ph"
    using assms(7) by (auto simp: OriginalLayerHash_def split: sum.splits)
  have "st_locate hs (int i, t) = ph_locate ph (layers ! i, t)" if "i < length layers" for i t
    using assms(7) ph that by (auto simp: OriginalLayerHash_def Let_def py_nth_nonneg)
  then have "card (dense_rows hs layers lengths req d) = card (request_rows (ph_locate ph) lengths req d)" for d
    by (intro dense_rows_card [OF assms(5)]) auto
  then show "covers hs layers lengths req segment n hsizes hrows"
    using hash_rows_ok [OF ph assms(1,2,3,6)] assms(4) by (intro coversI)
next
  obtain ns where ns: "map_result (\<lambda>l. case map_of lengths (req, l) of None \<Rightarrow> Inl KeyError | Some v \<Rightarrow> Inr v) layers = Inr ns"
    and n: "0 < n" using assms(9) by (auto simp: LayerPlacement_def split: sum.splits if_splits)
  have len: "length ns = length layers" using map_result_length [OF ns] .
  have nth: "ns ! i = dict_get lengths (req, layers ! i) 0" if "i < length layers" for i
    using ns that by (auto simp: map_result_Inr_iff list_all2_conv_all_nth dict_get_def split: option.splits)
  have "st_locate ls (int i, t) = by_layer n (layers ! i, t)"
    if "i < length layers" "0 \<le> t" "t < dict_get lengths (req, layers ! i) 0" for i t
    using assms(9) ns n that nth len by (auto simp: LayerPlacement_def Let_def py_nth_nonneg by_layer_def)
  then have "card (dense_rows ls layers lengths req d) = card (request_rows (by_layer n) lengths req d)" for d
    by (intro dense_rows_card [OF assms(5)])
  moreover have lens: "\<forall>(k, len)\<in>set lengths. 0 \<le> len" using assms(2) by auto
  have rows: "lrows = layer_rows lengths n"
      "lsizes = map (\<lambda>(req, counts). (req, map (\<lambda>c. max segment (pad segment (c * BENCH_PAGE))) counts)) lrows"
    using assms(8) by (auto simp: layer_capacities_def Let_def)
  have r: "map_of lrows req = Some (map (\<lambda>d. int (card (request_rows (by_layer n) lengths req d))) [0..<n])"
    unfolding rows(1) by (rule layer_rows_ok [OF n assms(1) lens assms(3)])
  moreover have "map_of lsizes req = map_option (map (\<lambda>c. max segment (pad segment (c * BENCH_PAGE)))) (map_of lrows req)"
    unfolding rows(2) by (simp add: map_of_map_values)
  ultimately show "covers ls layers lengths req segment n lsizes lrows"
    using assms(4) by (intro coversI) (auto simp: comp_def)
qed

definition demo_lengths :: "(row_key \<times> int) list" where
  "demo_lengths = [((''a'', 4), 3), ((''b'', 0), 1), ((''a'', 1), 2)]"

definition demo_trace :: trace where "demo_trace = \<lparr>tr_records = [], tr_bases = [], tr_rows = 0\<rparr>"

lemma hash_capacities_return:
  assumes "PositionHash_init (int n) [] = Inr ph" and "distinct (map fst lengths)"
    and "\<forall>((r, l), len)\<in>set lengths. 0 \<le> l \<and> 0 \<le> len"
  obtains sizes rows where "hash_capacities tr segment Snapshot n lengths = Inr (sizes, rows)"
proof -
  obtain s' where "for_each (event_step (ph_locate ph) segment Snapshot n) (hash_events tr Snapshot lengths)
      \<lparr>hs_sizes = zero_rows n (sorted_list_of_set (fst ` fst ` set lengths)),
       hs_rows = zero_rows n (sorted_list_of_set (fst ` fst ` set lengths)), hs_loaded = []\<rparr> = (Inr (), s')"
    using hash_snapshot_run [OF assms] by blast
  then show thesis using that assms(1) by (simp add: hash_capacities_def Let_def)
qed

theorem capacities_cover_placement_witness:
  "\<exists>hsizes hrows hs lsizes lrows ls. hash_capacities demo_trace 8192 Snapshot 8 demo_lengths = Inr (hsizes, hrows) \<and>
     OriginalLayerHash 8 [1, 4] = Inr hs \<and> LayerPlacement 8 [1, 4] ''a'' demo_lengths = Inr ls \<and>
     covers hs [1, 4] demo_lengths ''a'' 8192 8 hsizes hrows \<and> covers ls [1, 4] demo_lengths ''a'' 8192 8 lsizes lrows"
proof -
  have ph: "PositionHash_init (int 8) [] = Inr \<lparr>ph_num_devices = 8, ph_step_idx = 17, ph_step_layer = 23, ph_prime = 2147483647\<rparr>"
    using default_strategy [of 8] by simp
  have ok: "distinct (map fst demo_lengths)" "\<forall>((r, l), len)\<in>set demo_lengths. 0 \<le> l \<and> 0 \<le> len"
    "''a'' \<in> fst ` fst ` set demo_lengths" by (auto simp: demo_lengths_def)
  obtain hsizes hrows where h: "hash_capacities demo_trace 8192 Snapshot 8 demo_lengths = Inr (hsizes, hrows)"
    by (rule hash_capacities_return [OF ph ok(1,2)])
  obtain hs where hs: "OriginalLayerHash 8 [1, 4] = Inr hs" using ph by (auto simp: OriginalLayerHash_def Let_def)
  obtain ls where ls: "LayerPlacement 8 [1, 4] ''a'' demo_lengths = Inr ls" by (auto simp: LayerPlacement_def demo_lengths_def Let_def)
  obtain lsizes lrows where l: "layer_capacities 8192 demo_lengths 8 = (lsizes, lrows)" by fastforce
  have "{l. (''a'', l) \<in> fst ` set demo_lengths} = {1, 4}" by (auto simp: demo_lengths_def)
  then have layers: "[1, 4] = sorted_list_of_set {l. (''a'', l) \<in> fst ` set demo_lengths}" by simp
  have "covers hs [1, 4] demo_lengths ''a'' 8192 8 hsizes hrows \<and> covers ls [1, 4] demo_lengths ''a'' 8192 8 lsizes lrows"
    by (rule capacities_cover_placement [OF ok(1,2,3) _ layers h hs l ls]) simp
  then show ?thesis using h hs ls by blast
qed

end
