(* ===== verification/HbmSim.thy ===== *)
theory HbmSim
  imports Complex_Main PpaSelection TraceBench
begin

section \<open>Replay of candidate dumps against per-layer caches\<close>

text \<open>
  Model of \<open>scripts/simulate_hbm_candidates.py\<close> and \<open>scripts/export_hbm_miss_traces.py\<close>: the
  replacement of native misses by cached candidates, the validation of a dump record, the discovery
  of the dump files, the replay of all layers against two caches per capacity, and the miss traces
  exported from it. Reading a dump file (\<open>torch.load\<close> or \<open>json.loads\<close>) is a parameter. A
  computation is \<open>None\<close> when it does not return.
\<close>

definition pbind :: "'a result option \<Rightarrow> ('a \<Rightarrow> 'b result option) \<Rightarrow> 'b result option" where
  "pbind x f = (case x of None \<Rightarrow> None | Some (Inl e) \<Rightarrow> Some (Inl e) | Some (Inr v) \<Rightarrow> f v)"

lemma pbind_simps [simp]:
  "pbind None f = None" "pbind (Some (Inl e)) f = Some (Inl e)" "pbind (Some (Inr v)) f = f v"
  by (simp_all add: pbind_def)

lemma pbind_Inr_iff: "pbind x f = Some (Inr w) \<longleftrightarrow> (\<exists>v. x = Some (Inr v) \<and> f v = Some (Inr w))"
  by (auto simp: pbind_def split: option.splits sum.splits)

subsection \<open>choose\<close>

definition rank_ids :: "int list \<Rightarrow> int \<Rightarrow> nat option" where
  "rank_ids ranked = map_of (rev (zip ranked [0..<length ranked]))"

definition choose_additions :: "int set \<Rightarrow> int list \<Rightarrow> int set \<Rightarrow> int list" where
  "choose_additions native ranked available = filter (\<lambda>t. t \<notin> native \<and> t \<in> available) ranked"

definition choose_removals :: "int set \<Rightarrow> int list \<Rightarrow> int set \<Rightarrow> int \<Rightarrow> int list" where
  "choose_removals native ranked available protect_top =
     rev (sort_key (\<lambda>t. the (rank_ids ranked t))
       (sorted_list_of_set {t \<in> native. t \<notin> available \<and>
          (case rank_ids ranked t of None \<Rightarrow> False | Some r \<Rightarrow> protect_top \<le> int r)}))"

definition choose_tokens :: "int set \<Rightarrow> int list \<Rightarrow> int set \<Rightarrow> int \<Rightarrow> int \<Rightarrow> int set \<times> int" where
  "choose_tokens native ranked available budget protect_top =
     (let additions = choose_additions native ranked available;
          removals = choose_removals native ranked available protect_top;
          n = min budget (min (int (length additions)) (int (length removals)))
      in ((native - set (py_slice removals 0 n)) \<union> set (py_slice additions 0 n), n))"

subsection \<open>Dump records\<close>

text \<open>A tensor or a nested list, as \<open>tolist\<close> gives it; scores are floating-point values.\<close>

datatype 'a nested = Leaf 'a | Node "'a nested list"

fun flatten :: "'a nested \<Rightarrow> 'a list" where
  "flatten (Leaf x) = [x]"
| "flatten (Node xs) = concat (map flatten xs)"

datatype 's py_float = Finite 's | PosInf | NegInf | NaN

definition is_finite :: "'s py_float \<Rightarrow> bool" where
  "is_finite x = (case x of Finite _ \<Rightarrow> True | _ \<Rightarrow> False)"

definition float_value :: "'s py_float \<Rightarrow> 's option" where
  "float_value x = (case x of Finite v \<Rightarrow> Some v | _ \<Rightarrow> None)"

text \<open>A missing key is \<open>None\<close>; only the value \<open>True\<close> of the reference flag is accepted.\<close>

record 's raw_dump =
  rd_layer :: "string option"
  rd_seq_lens_key :: "int nested option"
  rd_seq_lens_query :: "int nested option"
  rd_has_reference :: "bool option"
  rd_indices :: "int nested option"
  rd_candidate_indices :: "int nested option"
  rd_candidate_scores :: "'s py_float nested option"

definition need :: "'a option \<Rightarrow> 'a result" where
  "need x = (case x of None \<Rightarrow> Inl KeyError | Some v \<Rightarrow> Inr v)"

record 's dump =
  du_layer :: string
  du_native :: "int set"
  du_ranked :: "int list"
  du_scores :: "(int \<times> 's) list"

definition candidates_valid :: "int \<Rightarrow> int list \<Rightarrow> 's py_float list \<Rightarrow> bool" where
  "candidates_valid seq_len ids scores \<longleftrightarrow>
     int (length ids) = min 2400 seq_len \<and> length ids = length scores \<and> distinct ids \<and>
     list_all (\<lambda>t. 0 \<le> t \<and> t < seq_len) ids \<and> list_all is_finite scores"

definition rank_candidates :: "int list \<Rightarrow> ('s :: {linorder, uminus}) list \<Rightarrow> int list" where
  "rank_candidates ids scores = map fst (sort_key (\<lambda>(t, s). (- s, t)) (zip ids scores))"

definition load_native :: "'s raw_dump \<Rightarrow> int \<Rightarrow> int set result" where
  "load_native raw seq_len =
     (case need (rd_indices raw) of Inl e \<Rightarrow> Inl e | Inr indices \<Rightarrow>
        let native_list = filter (\<lambda>t. 0 \<le> t \<and> t < seq_len) (flatten indices); native = set native_list in
        if int (card native) \<noteq> min 2048 seq_len \<or> card native \<noteq> length native_list then Inl ValueError
        else Inr native)"

definition load_candidates :: "'s raw_dump \<Rightarrow> int \<Rightarrow> (int list \<times> 's list) result" where
  "load_candidates raw seq_len =
     (case need (rd_candidate_indices raw) of Inl e \<Rightarrow> Inl e | Inr cids \<Rightarrow>
     (case need (rd_candidate_scores raw) of Inl e \<Rightarrow> Inl e | Inr cscores \<Rightarrow>
        let ids = flatten cids; scores = flatten cscores in
        if \<not> candidates_valid seq_len ids scores then Inl ValueError
        else Inr (ids, map (the \<circ> float_value) scores)))"

definition load_record :: "('s :: {linorder, uminus}) raw_dump \<Rightarrow> int \<Rightarrow> 's dump result" where
  "load_record raw seq_len =
     (case need (rd_seq_lens_key raw) of Inl e \<Rightarrow> Inl e | Inr keys \<Rightarrow>
     (case need (rd_seq_lens_query raw) of Inl e \<Rightarrow> Inl e | Inr queries \<Rightarrow>
      if flatten keys \<noteq> [seq_len] \<or> flatten queries \<noteq> [1] then Inl ValueError
      else if rd_has_reference raw \<noteq> Some True then Inl ValueError
      else
     (case load_native raw seq_len of Inl e \<Rightarrow> Inl e | Inr native \<Rightarrow>
     (case load_candidates raw seq_len of Inl e \<Rightarrow> Inl e | Inr (ids, vals) \<Rightarrow>
     (case need (rd_layer raw) of Inl e \<Rightarrow> Inl e | Inr layer \<Rightarrow>
        Inr \<lparr>du_layer = layer, du_native = native, du_ranked = rank_candidates ids vals, du_scores = zip ids vals\<rparr>)))))"

subsection \<open>discover\<close>

text \<open>
  The regular expression \<open>(.+)_s(\d+)\.(pt|json)\<close> on the whole name: the sequence number is the
  maximal block of digits before the extension, the group what stands before \<open>_s\<close>.
\<close>

definition strip_extension :: "string \<Rightarrow> string option" where
  "strip_extension name =
     (if ends_with name ''.pt'' then Some (take (length name - 3) name)
      else if ends_with name ''.json'' then Some (take (length name - 5) name) else None)"

definition parse_dump_name :: "string \<Rightarrow> (string \<times> int) option" where
  "parse_dump_name name =
     (case strip_extension name of
        None \<Rightarrow> None
      | Some stem \<Rightarrow>
          let ds = takeWhile is_digit (rev stem); rest = dropWhile is_digit (rev stem) in
          if ds = [] then None
          else (case rest of
                  s # u # g \<Rightarrow>
                    if s = CHR ''s'' \<and> u = CHR ''_'' \<and> g \<noteq> [] \<and> list_all (\<lambda>ch. ch \<noteq> CHR 0x0A) g
                    then map_option (\<lambda>n. (rev g, int n)) (digits_val 0 False (rev ds)) else None
                | _ \<Rightarrow> None))"

type_synonym dump_files = "(int \<times> string) list"
type_synonym dump_groups = "(string \<times> dump_files) list"

definition add_file :: "dump_groups \<Rightarrow> string \<Rightarrow> dump_groups" where
  "add_file groups name =
     (case parse_dump_name name of None \<Rightarrow> groups
      | Some (g, n) \<Rightarrow> dict_set g (dict_get groups g [] @ [(n, name)]) groups)"

definition consecutive_steps :: "int list \<Rightarrow> bool" where
  "consecutive_steps seqs \<longleftrightarrow> list_all (\<lambda>(a, b). b = a + 1) (zip seqs (tl seqs))"

definition discover :: "string list \<Rightarrow> dump_groups result" where
  "discover names =
     (let groups = map (\<lambda>(g, fs). (g, sort fs)) (foldl add_file [] names) in
      if groups = [] then Inl ValueError
      else if \<not> list_all (\<lambda>(g, fs). consecutive_steps (map fst fs)) groups then Inl ValueError
      else if card (set (map (\<lambda>(g, fs). (fst (hd fs), fst (last fs), length fs)) groups)) \<noteq> 1 then Inl ValueError
      else Inr groups)"

subsection \<open>measure and the three policies\<close>

record counts =
  sc_selected :: int
  sc_cache_hits :: int
  sc_fresh_hits :: int
  sc_misses :: int
  sc_replacements :: int

definition hbm_measure :: "int set \<Rightarrow> batch_lru \<Rightarrow> int set \<Rightarrow> int \<Rightarrow> counts" where
  "hbm_measure selected cache ready replacements =
     (let hits = int (card (selected \<inter> set (lru_rows cache)));
          ready_only = int (card ((selected - set (lru_rows cache)) \<inter> ready))
      in \<lparr>sc_selected = int (card selected), sc_cache_hits = hits, sc_fresh_hits = ready_only,
          sc_misses = int (card selected) - hits - ready_only, sc_replacements = replacements\<rparr>)"

record hbm_args =
  ha_capacities :: "int list"
  ha_max_replacements :: int
  ha_protect_top :: int
  ha_warmup_steps :: int
  ha_resident :: bool
  ha_row_bytes :: int
  ha_expected_layers :: "int option"

record policy_row =
  po_capacity :: int
  po_mode :: string
  po_selected :: "int set"
  po_cache :: batch_lru
  po_replacements :: int

type_synonym cache_states = "(int \<times> batch_lru \<times> batch_lru) list"

definition ready_set :: "hbm_args \<Rightarrow> int \<Rightarrow> int set" where
  "ready_set a seq_len = (if ha_resident a then {seq_len - 1} else {})"

definition commit_to :: "int set \<Rightarrow> batch_lru \<Rightarrow> batch_lru result option" where
  "commit_to selected c =
     (case BatchLRU_commit selected c of None \<Rightarrow> None | Some (Inl e, _) \<Rightarrow> Some (Inl e) | Some (Inr _, c') \<Rightarrow> Some (Inr c'))"

definition policy_rows :: "hbm_args \<Rightarrow> int set \<Rightarrow> int list \<Rightarrow> int set \<Rightarrow> int \<Rightarrow> batch_lru \<Rightarrow> batch_lru \<Rightarrow> policy_row list" where
  "policy_rows a native ranked ready cap base aware =
     (let (shadow, ns) = choose_tokens native ranked (set (lru_rows base) \<union> ready) (ha_max_replacements a) (ha_protect_top a);
          (chosen, na) = choose_tokens native ranked (set (lru_rows aware) \<union> ready) (ha_max_replacements a) (ha_protect_top a)
      in [\<lparr>po_capacity = cap, po_mode = ''baseline'', po_selected = native, po_cache = base, po_replacements = 0\<rparr>,
          \<lparr>po_capacity = cap, po_mode = ''same_state_replacement'', po_selected = shadow, po_cache = base, po_replacements = ns\<rparr>,
          \<lparr>po_capacity = cap, po_mode = ''independent_replacement'', po_selected = chosen, po_cache = aware, po_replacements = na\<rparr>])"

fun capacity_loop ::
  "hbm_args \<Rightarrow> int set \<Rightarrow> int list \<Rightarrow> int set \<Rightarrow> cache_states \<Rightarrow> (policy_row list \<times> cache_states) result option" where
  "capacity_loop a native ranked ready [] = Some (Inr ([], []))"
| "capacity_loop a native ranked ready ((cap, base, aware) # rest) =
     (let rows = policy_rows a native ranked ready cap base aware in
      pbind (commit_to native base) (\<lambda>base'.
      pbind (commit_to (po_selected (rows ! 2)) aware) (\<lambda>aware'.
      pbind (capacity_loop a native ranked ready rest) (\<lambda>(more, states').
        Some (Inr (rows @ more, (cap, base', aware') # states'))))))"

subsection \<open>The replay of all layers\<close>

record 'l event =
  ev_layer :: 'l
  ev_step :: int
  ev_seq_len :: int
  ev_native :: "int set"
  ev_ranked :: "int list"
  ev_rows :: "policy_row list"

definition fresh_states :: "hbm_args \<Rightarrow> cache_states" where
  "fresh_states a = map (\<lambda>c. (c, BatchLRU c, BatchLRU c)) (sorted_list_of_set (set (ha_capacities a)))"

text \<open>
  The records of one group. \<open>ident\<close> turns the layer name of a record into the identity the script
  compares: the name itself in the simulation, the layer number in the export.
\<close>

fun group_loop ::
  "(string \<Rightarrow> ('s :: {linorder, uminus}) raw_dump result) \<Rightarrow> (string \<Rightarrow> 'l result) \<Rightarrow> hbm_args \<Rightarrow> int \<Rightarrow> 'l option \<Rightarrow>
   dump_files \<Rightarrow> cache_states \<Rightarrow> 'l set \<Rightarrow> ('l event list \<times> 'l set) result option" where
  "group_loop load ident a step expected [] states seen = Some (Inr ([], seen))"
| "group_loop load ident a step expected ((seq_len, path) # files) states seen =
     (case load path of Inl e \<Rightarrow> Some (Inl e) | Inr raw \<Rightarrow>
     (case load_record raw seq_len of Inl e \<Rightarrow> Some (Inl e) | Inr d \<Rightarrow>
     (case ident (du_layer d) of Inl e \<Rightarrow> Some (Inl e) | Inr layer \<Rightarrow>
      if (case expected of None \<Rightarrow> layer \<in> seen | Some l \<Rightarrow> layer \<noteq> l) then Some (Inl ValueError)
      else pbind (capacity_loop a (du_native d) (du_ranked d) (ready_set a seq_len) states) (\<lambda>(rows, states').
           pbind (group_loop load ident a (step + 1) (Some layer) files states' (insert layer seen)) (\<lambda>(evs, seen').
             Some (Inr (\<lparr>ev_layer = layer, ev_step = step, ev_seq_len = seq_len, ev_native = du_native d,
                         ev_ranked = du_ranked d, ev_rows = rows\<rparr> # evs, seen')))))))"

fun groups_loop ::
  "(string \<Rightarrow> ('s :: {linorder, uminus}) raw_dump result) \<Rightarrow> (string \<Rightarrow> 'l result) \<Rightarrow> hbm_args \<Rightarrow>
   dump_groups \<Rightarrow> 'l set \<Rightarrow> 'l event list result option" where
  "groups_loop load ident a [] seen = Some (Inr [])"
| "groups_loop load ident a ((g, files) # gs) seen =
     pbind (group_loop load ident a 0 None files (fresh_states a) seen) (\<lambda>(evs, seen').
     pbind (groups_loop load ident a gs seen') (\<lambda>more. Some (Inr (evs @ more))))"

definition budgets_ok :: "hbm_args \<Rightarrow> bool" where
  "budgets_ok a \<longleftrightarrow>
     ha_capacities a \<noteq> [] \<and> 2048 \<le> Min (set (ha_capacities a)) \<and> 0 \<le> ha_max_replacements a \<and>
     0 \<le> ha_protect_top a \<and> 0 \<le> ha_warmup_steps a"

definition groups_ok :: "hbm_args \<Rightarrow> dump_groups \<Rightarrow> bool" where
  "groups_ok a groups \<longleftrightarrow>
     (case ha_expected_layers a of None \<Rightarrow> True | Some n \<Rightarrow> int (length groups) = n) \<and>
     list_all (\<lambda>(g, fs). ha_warmup_steps a < int (length fs)) groups"

subsection \<open>The simulation report\<close>

record step_row =
  sr_layer :: string
  sr_seq_len :: int
  sr_step :: int
  sr_capacity :: int
  sr_strategy :: string
  sr_warmup :: bool
  sr_counts :: counts

definition event_step_rows :: "hbm_args \<Rightarrow> string event \<Rightarrow> step_row list" where
  "event_step_rows a e =
     map (\<lambda>p. \<lparr>sr_layer = ev_layer e, sr_seq_len = ev_seq_len e, sr_step = ev_step e, sr_capacity = po_capacity p,
                sr_strategy = po_mode p, sr_warmup = (ev_step e < ha_warmup_steps a),
                sr_counts = hbm_measure (po_selected p) (po_cache p) (ready_set a (ev_seq_len e)) (po_replacements p)\<rparr>)
       (ev_rows e)"

definition add_counts :: "counts \<Rightarrow> counts \<Rightarrow> counts" where
  "add_counts x y = \<lparr>sc_selected = sc_selected x + sc_selected y, sc_cache_hits = sc_cache_hits x + sc_cache_hits y,
     sc_fresh_hits = sc_fresh_hits x + sc_fresh_hits y, sc_misses = sc_misses x + sc_misses y,
     sc_replacements = sc_replacements x + sc_replacements y\<rparr>"

definition no_counts :: counts where
  "no_counts = \<lparr>sc_selected = 0, sc_cache_hits = 0, sc_fresh_hits = 0, sc_misses = 0, sc_replacements = 0\<rparr>"

type_synonym aggregate = "((int \<times> string) \<times> counts) list"

definition aggregate_row :: "aggregate \<Rightarrow> step_row \<Rightarrow> aggregate" where
  "aggregate_row agg r =
     (if sr_warmup r then agg
      else dict_set (sr_capacity r, sr_strategy r)
             (add_counts (dict_get agg (sr_capacity r, sr_strategy r) no_counts) (sr_counts r)) agg)"

record trace_quality =
  tq_records :: int
  tq_native_rows :: int
  tq_native_covered :: int
  tq_native_ref_overlap :: int

definition add_quality :: "trace_quality \<Rightarrow> 'l event \<Rightarrow> trace_quality" where
  "add_quality q e =
     (let native = ev_native e; ranked = ev_ranked e in
      \<lparr>tq_records = tq_records q + 1, tq_native_rows = tq_native_rows q + int (card native),
       tq_native_covered = tq_native_covered q + int (card (native \<inter> set ranked)),
       tq_native_ref_overlap = tq_native_ref_overlap q + int (card (native \<inter> set (take (card native) ranked)))\<rparr>)"

text \<open>The rates are quotients; \<open>None\<close> when the denominator is zero. Rounding to floats is not modelled.\<close>

definition rate :: "int \<Rightarrow> int \<Rightarrow> rat option" where
  "rate x y = (if y = 0 then None else Some (of_int x / of_int y))"

record summary =
  su_capacity :: int
  su_strategy :: string
  su_totals :: counts
  su_cache_hit_rate :: "rat option"
  su_available_hit_rate :: "rat option"
  su_logical_miss_bytes :: int
  su_miss_reduction :: "rat option"
  su_persistent_cache_bytes :: int

definition summary_row :: "hbm_args \<Rightarrow> nat \<Rightarrow> int \<Rightarrow> string \<Rightarrow> counts \<Rightarrow> int \<Rightarrow> summary" where
  "summary_row a layers capacity m totals base_misses =
     \<lparr>su_capacity = capacity, su_strategy = m, su_totals = totals,
      su_cache_hit_rate = rate (sc_cache_hits totals) (sc_selected totals),
      su_available_hit_rate = rate (sc_cache_hits totals + sc_fresh_hits totals) (sc_selected totals),
      su_logical_miss_bytes = sc_misses totals * ha_row_bytes a,
      su_miss_reduction = map_option (\<lambda>r. 1 - r) (rate (sc_misses totals) base_misses),
      su_persistent_cache_bytes = capacity * ha_row_bytes a * int layers\<rparr>"

definition MODES :: "string list" where
  "MODES = [''baseline'', ''same_state_replacement'', ''independent_replacement'']"

definition simulate ::
  "(string \<Rightarrow> ('s :: {linorder, uminus}) raw_dump result) \<Rightarrow> hbm_args \<Rightarrow> string list \<Rightarrow>
   (step_row list \<times> trace_quality \<times> summary list) result option" where
  "simulate load a names =
     (if \<not> budgets_ok a \<or> ha_row_bytes a \<le> 0 then Some (Inl SystemExit) else
      case discover names of Inl e \<Rightarrow> Some (Inl e) | Inr groups \<Rightarrow>
      if \<not> groups_ok a groups then Some (Inl SystemExit)
      else pbind (groups_loop load Inr a (sort_key fst groups) {}) (\<lambda>evs.
        let rows = concat (map (event_step_rows a) evs);
            agg = foldl aggregate_row [] rows;
            quality = foldl add_quality \<lparr>tq_records = 0, tq_native_rows = 0, tq_native_covered = 0, tq_native_ref_overlap = 0\<rparr> evs
        in Some (Inr (rows, quality,
             concat (map (\<lambda>c. map (\<lambda>m. summary_row a (length groups) c m (dict_get agg (c, m) no_counts)
                                  (sc_misses (dict_get agg (c, ''baseline'') no_counts))) MODES)
               (sorted_list_of_set (set (ha_capacities a))))))))"

subsection \<open>Exported miss traces\<close>

text \<open>
  The layer number of a name: \<open>(?:^|\.)layers\.(\d+)(?:\.|$)\<close> finds the first component \<open>layers\<close>
  that is followed by a component of digits.
\<close>

fun split_dots :: "string \<Rightarrow> string list" where
  "split_dots [] = [[]]"
| "split_dots (ch # cs) =
     (if ch = CHR ''.'' then [] # split_dots cs
      else (case split_dots cs of [] \<Rightarrow> [[ch]] | w # ws \<Rightarrow> (ch # w) # ws))"

fun find_layer :: "string list \<Rightarrow> int result" where
  "find_layer (w # d # ws) =
     (if w = ''layers'' \<and> d \<noteq> [] \<and> list_all is_digit d
      then (case digits_val 0 False d of Some n \<Rightarrow> Inr (int n) | None \<Rightarrow> Inl ValueError)
      else find_layer (d # ws))"
| "find_layer ws = Inl ValueError"

definition layer_number :: "string \<Rightarrow> int result" where
  "layer_number name = find_layer (split_dots name)"

definition miss_list :: "hbm_args \<Rightarrow> int event \<Rightarrow> policy_row \<Rightarrow> int list" where
  "miss_list a e p = sorted_list_of_set (po_selected p - set (lru_rows (po_cache p)) - ready_set a (ev_seq_len e))"

definition miss_record :: "string \<Rightarrow> hbm_args \<Rightarrow> int event \<Rightarrow> policy_row \<Rightarrow> jdict" where
  "miss_record sample a e p =
     (let s = hbm_measure (po_selected p) (po_cache p) (ready_set a (ev_seq_len e)) (po_replacements p) in
      [(''request_id'', JStr sample), (''step_id'', JInt (ev_step e)), (''layer_id'', JInt (ev_layer e)),
       (''context_length'', JInt (ev_seq_len e)), (''topk_token_indices'', JArr (map JInt (miss_list a e p))),
       (''warmup'', JBool (ev_step e < ha_warmup_steps a)), (''cache_capacity'', JInt (po_capacity p)),
       (''cache_strategy'', JStr (po_mode p)), (''selected'', JInt (sc_selected s)),
       (''cache_hits'', JInt (sc_cache_hits s)), (''fresh_hits'', JInt (sc_fresh_hits s)),
       (''misses'', JInt (sc_misses s)), (''replacements'', JInt (sc_replacements s))])"

text \<open>The rows of the spool table: key columns and body.\<close>

record spool_row =
  sp_capacity :: int
  sp_mode :: string
  sp_step :: int
  sp_layer :: int
  sp_body :: jdict

definition event_spool_rows :: "string \<Rightarrow> hbm_args \<Rightarrow> int event \<Rightarrow> spool_row list" where
  "event_spool_rows sample a e =
     map (\<lambda>p. \<lparr>sp_capacity = po_capacity p, sp_mode = po_mode p, sp_step = ev_step e, sp_layer = ev_layer e,
                sp_body = miss_record sample a e p\<rparr>) (ev_rows e)"

definition add_totals :: "hbm_args \<Rightarrow> int event \<Rightarrow> aggregate \<Rightarrow> policy_row \<Rightarrow> aggregate" where
  "add_totals a e agg p =
     (if ev_step e < ha_warmup_steps a then agg
      else dict_set (po_capacity p, po_mode p)
             (add_counts (dict_get agg (po_capacity p, po_mode p) no_counts)
               (hbm_measure (po_selected p) (po_cache p) (ready_set a (ev_seq_len e)) (po_replacements p))) agg)"

record trace_file =
  tf_capacity :: int
  tf_strategy :: string
  tf_records :: "jdict list"
  tf_totals :: counts

definition export ::
  "(string \<Rightarrow> ('s :: {linorder, uminus}) raw_dump result) \<Rightarrow> string \<Rightarrow> hbm_args \<Rightarrow> string list \<Rightarrow> trace_file list result option" where
  "export load sample a names =
     (case discover names of Inl e \<Rightarrow> Some (Inl e) | Inr groups \<Rightarrow>
      if \<not> budgets_ok a \<or> \<not> groups_ok a groups then Some (Inl ValueError)
      else pbind (groups_loop load layer_number a (sort_key fst groups) {}) (\<lambda>evs.
        let spool = concat (map (event_spool_rows sample a) evs);
            agg = foldl (\<lambda>agg e. foldl (add_totals a e) agg (ev_rows e)) [] evs
        in Some (Inr (concat (map (\<lambda>c. map (\<lambda>m.
             \<lparr>tf_capacity = c, tf_strategy = m,
              tf_records = map sp_body (sort_key (\<lambda>r. (sp_step r, sp_layer r))
                (filter (\<lambda>r. sp_capacity r = c \<and> sp_mode r = m) spool)),
              tf_totals = dict_get agg (c, m) no_counts\<rparr>) MODES)
             (sorted_list_of_set (set (ha_capacities a))))))))"

subsection \<open>validate\_miss\_trace\<close>

definition count_fields :: "string list" where
  "count_fields = [''selected'', ''cache_hits'', ''fresh_hits'', ''misses'', ''replacements'', ''cache_capacity'']"

definition natural_field :: "jdict \<Rightarrow> string \<Rightarrow> bool" where
  "natural_field r k = (case map_of r k of Some (JInt i) \<Rightarrow> 0 \<le> i | _ \<Rightarrow> False)"

definition miss_record_valid :: "jdict \<Rightarrow> bool" where
  "miss_record_valid r \<longleftrightarrow>
     (case map_of r ''warmup'' of Some (JBool _) \<Rightarrow> True | _ \<Rightarrow> False) \<and> list_all (natural_field r) count_fields \<and>
     rec_int r ''misses'' = int (length (rec_tokens r)) \<and> int (card (set (rec_tokens r))) = rec_int r ''misses'' \<and>
     rec_int r ''selected'' = rec_int r ''cache_hits'' + rec_int r ''fresh_hits'' + rec_int r ''misses'' \<and>
     rec_int r ''selected'' \<le> 2048 \<and> 2048 \<le> rec_int r ''cache_capacity'' \<and> rec_str r ''cache_strategy'' \<in> set MODES"

definition rec_warmup :: "jdict \<Rightarrow> bool" where
  "rec_warmup r = (map_of r ''warmup'' = Some (JBool True))"

definition validate_miss_trace :: "trace \<Rightarrow> (int \<times> string) result" where
  "validate_miss_trace tr =
     (if \<not> list_all miss_record_valid (tr_records tr) then Inl ValueError
      else
        let settings = (\<lambda>r. (rec_int r ''cache_capacity'', rec_str r ''cache_strategy'')) ` set (tr_records tr) in
        if card settings \<noteq> 1 \<or> list_all rec_warmup (tr_records tr) then Inl ValueError
        else Inr (the_elem settings))"

subsection \<open>Replacement never adds a miss\<close>

lemma rank_ids_dom: "rank_ids ranked t \<noteq> None \<longleftrightarrow> t \<in> set ranked"
proof -
  have "fst ` set (rev (zip ranked [0..<length ranked])) = set ranked"
    by (simp flip: set_map)
  then show ?thesis using map_of_eq_None_iff [of "rev (zip ranked [0..<length ranked])" t] by (simp add: rank_ids_def)
qed

lemma additions_facts:
  "set (choose_additions native ranked available) = {t \<in> set ranked. t \<notin> native \<and> t \<in> available}"
  "distinct ranked \<Longrightarrow> distinct (choose_additions native ranked available)"
  by (auto simp: choose_additions_def)

lemma removals_facts:
  assumes "finite native"
  shows "set (choose_removals native ranked available protect_top) \<subseteq> {t \<in> native. t \<notin> available}"
    and "distinct (choose_removals native ranked available protect_top)"
    and "t \<in> set (choose_removals native ranked available protect_top) \<Longrightarrow> rank_ids ranked t = Some r \<Longrightarrow> protect_top \<le> int r"
proof -
  let ?S = "{t \<in> native. t \<notin> available \<and> (case rank_ids ranked t of None \<Rightarrow> False | Some r \<Rightarrow> protect_top \<le> int r)}"
  have "finite ?S" using assms by simp
  then have S: "set (choose_removals native ranked available protect_top) = ?S" by (simp add: choose_removals_def)
  then show "set (choose_removals native ranked available protect_top) \<subseteq> {t \<in> native. t \<notin> available}"
    and "t \<in> set (choose_removals native ranked available protect_top) \<Longrightarrow> rank_ids ranked t = Some r \<Longrightarrow> protect_top \<le> int r"
    by auto
  show "distinct (choose_removals native ranked available protect_top)"
    by (simp add: choose_removals_def distinct_sort)
qed

lemma choose_tokens_ok:
  assumes "finite native" and "distinct ranked" and "0 \<le> budget"
    and "choose_tokens native ranked available budget protect_top = (chosen, n)"
  shows "finite chosen \<and> card chosen = card native \<and> native \<inter> available \<subseteq> chosen \<and>
    {t \<in> native. case rank_ids ranked t of None \<Rightarrow> True | Some r \<Rightarrow> int r < protect_top} \<subseteq> chosen \<and>
    chosen - native \<subseteq> available \<inter> set ranked \<and> 0 \<le> n \<and> n \<le> budget \<and>
    int (card (chosen - available)) = int (card (native - available)) - n"
proof -
  let ?adds = "choose_additions native ranked available"
  let ?rems = "choose_removals native ranked available protect_top"
  let ?A = "set (take (nat n) ?adds)" and ?R = "set (take (nat n) ?rems)"
  have n: "n = min budget (min (int (length ?adds)) (int (length ?rems)))"
    using assms(4) by (simp add: choose_tokens_def Let_def)
  have bounds: "0 \<le> n" "n \<le> budget" "n \<le> int (length ?adds)" "n \<le> int (length ?rems)" using n assms(3) by auto
  have chosen: "chosen = (native - ?R) \<union> ?A"
    using assms(4) bounds n by (auto simp: choose_tokens_def Let_def py_slice_prefix)
  have A: "?A \<subseteq> {t \<in> set ranked. t \<notin> native \<and> t \<in> available}" "card ?A = nat n"
    using set_take_subset [of "nat n" ?adds] additions_facts(1) [of native ranked available]
      distinct_card [OF distinct_take [OF additions_facts(2) [OF assms(2), of native available], of "nat n"]] bounds by auto
  have R: "?R \<subseteq> {t \<in> native. t \<notin> available}" "card ?R = nat n"
    using set_take_subset [of "nat n" ?rems] removals_facts(1) [OF assms(1), of ranked available protect_top]
      distinct_card [OF distinct_take [OF removals_facts(2) [OF assms(1), of ranked available protect_top], of "nat n"]] bounds by auto
  have le: "nat n \<le> card (native - available)" "nat n \<le> card native"
    using R card_mono [of "native - available" ?R] card_mono [of native ?R] assms(1) by auto
  have "card chosen = card (native - ?R) + card ?A"
    unfolding chosen using A assms(1) by (intro card_Un_disjoint) auto
  also have "card (native - ?R) = card native - nat n" using R by (subst card_Diff_subset) auto
  finally have card: "card chosen = card native" using A(2) le by simp
  have "chosen - available = (native - available) - ?R" unfolding chosen using A by auto
  then have "card (chosen - available) = card (native - available) - nat n"
    using R by (simp add: card_Diff_subset [of ?R] subset_iff)
  then have miss: "int (card (chosen - available)) = int (card (native - available)) - n"
    using le(1) bounds(1) by simp
  have "{t \<in> native. case rank_ids ranked t of None \<Rightarrow> True | Some r \<Rightarrow> int r < protect_top} \<inter> ?R = {}"
  proof -
    have "\<exists>r. rank_ids ranked t = Some r \<and> protect_top \<le> int r" if "t \<in> ?R" for t
    proof -
      have t: "t \<in> set ?rems" using that set_take_subset by fastforce
      have "rank_ids ranked t \<noteq> None"
        using t assms(1) by (auto simp: choose_removals_def split: option.splits)
      then show ?thesis using removals_facts(3) [OF assms(1) t] by auto
    qed
    then show ?thesis by fastforce
  qed
  then show ?thesis unfolding card miss using chosen A R bounds assms(1) card miss by auto
qed

lemma choose_tokens_facts:
  assumes "finite native" and "distinct ranked" and "0 \<le> budget"
    and "choose_tokens native ranked available budget protect_top = (chosen, n)"
  shows "finite chosen \<and> card chosen = card native \<and> chosen \<subseteq> native \<union> set ranked \<and> 0 \<le> n"
  using choose_tokens_ok [OF assms] by blast

text \<open>
  C8. The cache-aware replacement trades misses for hits one for one: for a selection without
  duplicates, a ranking without duplicates and a budget that is not negative, the chosen set has the
  size of the native one, keeps every available native token and every native token ranked in the
  protected prefix or not ranked at all, adds only available ranked tokens, and has exactly as many
  misses fewer as the number of replacements reported, which is within the budget.
\<close>

theorem choose_trades_misses:
  assumes "finite native" and "distinct ranked" and "0 \<le> budget"
    and "choose_tokens native ranked available budget protect_top = (chosen, n)"
  shows "finite chosen \<and> card chosen = card native \<and> native \<inter> available \<subseteq> chosen \<and>
    {t \<in> native. case rank_ids ranked t of None \<Rightarrow> True | Some r \<Rightarrow> int r < protect_top} \<subseteq> chosen \<and>
    chosen - native \<subseteq> available \<inter> set ranked \<and> 0 \<le> n \<and> n \<le> budget \<and>
    int (card (chosen - available)) = int (card (native - available)) - n"
  using assms by (rule choose_tokens_ok)

theorem choose_trades_misses_witness:
  "choose_tokens {1, 2, 3, 5} [5, 4, 3, 2, 6] {1, 4, 6} 1 0 = ({1, 3, 4, 5}, 1) \<and>
   card ({1, 3, 4, 5} - {1, 4, 6 :: int}) = (2 :: nat)"
proof -
  have e: "choose_tokens {1, 2, 3, 5} [5, 4, 3, 2, 6] {1, 4, 6} 1 0 = ({1, 3, 4, 5}, 1)" by code_simp
  have m: "card ({1, 2, 3, 5} - {1, 4, 6 :: int}) = 3" by code_simp
  have "int (card ({1, 3, 4, 5} - {1, 4, 6 :: int})) = int (card ({1, 2, 3, 5} - {1, 4, 6 :: int})) - 1"
    using choose_trades_misses [OF _ _ _ e] by simp
  then show ?thesis using e m by simp
qed

subsection \<open>Consistency of the replayed rows\<close>

lemma hbm_measure_misses:
  assumes "finite sel"
  shows "sc_misses (hbm_measure sel c ready k) = int (card (sel - set (lru_rows c) - ready))"
    and "sc_selected (hbm_measure sel c ready k) = sc_cache_hits (hbm_measure sel c ready k) +
      sc_fresh_hits (hbm_measure sel c ready k) + sc_misses (hbm_measure sel c ready k)"
proof -
  let ?C = "set (lru_rows c)"
  have split: "card S = card (S \<inter> B) + card (S - B)" if "finite S" for S B :: "int set"
    using that card_Int_Diff by blast
  have "card sel = card (sel \<inter> ?C) + card (sel - ?C)" using assms by (rule split)
  moreover have "card (sel - ?C) = card ((sel - ?C) \<inter> ready) + card (sel - ?C - ready)" using assms by (intro split) simp
  ultimately show "sc_misses (hbm_measure sel c ready k) = int (card (sel - ?C - ready))"
    by (simp add: hbm_measure_def Let_def)
qed (simp add: hbm_measure_def Let_def)

lemma load_record_ok:
  fixes raw :: "('s :: {linorder, uminus}) raw_dump"
  assumes "load_record raw seq_len = Inr d"
  shows "finite (du_native d)" and "int (card (du_native d)) = min 2048 seq_len" and "du_native d \<subseteq> {0..<seq_len}"
    and "distinct (du_ranked d)" and "set (du_ranked d) \<subseteq> {0..<seq_len}"
proof -
  from assms obtain ids and vals :: "'s list" where
    nat: "load_native raw seq_len = Inr (du_native d)" and cand: "load_candidates raw seq_len = Inr (ids, vals)"
    and ranked: "du_ranked d = rank_candidates ids vals"
    by (auto simp: load_record_def split: sum.splits if_splits)
  obtain indices where ix: "need (rd_indices raw) = Inr indices"
    using nat by (cases "need (rd_indices raw)") (simp_all add: load_native_def)
  let ?l = "filter (\<lambda>t. 0 \<le> t \<and> t < seq_len) (flatten indices)"
  have "du_native d = set ?l \<and> int (card (du_native d)) = min 2048 seq_len"
    using nat unfolding load_native_def ix Let_def sum.case
    by (cases "int (card (set ?l)) \<noteq> min 2048 seq_len \<or> card (set ?l) \<noteq> length ?l") (simp_all only: if_True if_False sum.inject sum.distinct de_Morgan_disj not_not, metis)
  then have eq: "du_native d = set ?l" and cd: "int (card (du_native d)) = min 2048 seq_len" by (rule conjunct1, rule conjunct2)
  show "int (card (du_native d)) = min 2048 seq_len" by (rule cd)
  show "finite (du_native d)" "du_native d \<subseteq> {0..<seq_len}" unfolding eq by auto
  have ok: "distinct ids" "set ids \<subseteq> {0..<seq_len}" "length vals = length ids"
    using cand by (auto simp: load_candidates_def Let_def candidates_valid_def list_all_iff split: sum.splits if_splits)
  have "mset (du_ranked d) = mset (map fst (zip ids vals))" using ranked by (simp add: rank_candidates_def)
  also have "map fst (zip ids vals) = ids" using ok(3) by simp
  finally have m: "mset (du_ranked d) = mset ids" .
  show "distinct (du_ranked d)" using ok(1) mset_eq_imp_distinct_iff [OF m] by simp
  show "set (du_ranked d) \<subseteq> {0..<seq_len}" using ok(2) mset_eq_setD [OF m] by simp
qed

definition row_ok :: "int set \<Rightarrow> int list \<Rightarrow> policy_row \<Rightarrow> bool" where
  "row_ok native ranked p \<longleftrightarrow>
     finite (po_selected p) \<and> card (po_selected p) = card native \<and> po_selected p \<subseteq> native \<union> set ranked \<and> 0 \<le> po_replacements p"

definition row_keys :: "int list \<Rightarrow> (int \<times> string) list" where
  "row_keys caps = concat (map (\<lambda>c. map (Pair c) MODES) caps)"

lemma policy_rows_ok:
  assumes "finite native" and "distinct ranked" and "0 \<le> ha_max_replacements a"
  shows "\<forall>p\<in>set (policy_rows a native ranked ready cap base aware). row_ok native ranked p"
    and "map (\<lambda>p. (po_capacity p, po_mode p)) (policy_rows a native ranked ready cap base aware) = map (Pair cap) MODES"
proof -
  obtain sh ns where s: "choose_tokens native ranked (set (lru_rows base) \<union> ready) (ha_max_replacements a) (ha_protect_top a) = (sh, ns)" by fastforce
  obtain ch na where c: "choose_tokens native ranked (set (lru_rows aware) \<union> ready) (ha_max_replacements a) (ha_protect_top a) = (ch, na)" by fastforce
  have "finite sh \<and> card sh = card native \<and> sh \<subseteq> native \<union> set ranked \<and> 0 \<le> ns"
    "finite ch \<and> card ch = card native \<and> ch \<subseteq> native \<union> set ranked \<and> 0 \<le> na"
    using choose_tokens_facts [OF assms s] choose_tokens_facts [OF assms c] by blast+
  then show "\<forall>p\<in>set (policy_rows a native ranked ready cap base aware). row_ok native ranked p"
    "map (\<lambda>p. (po_capacity p, po_mode p)) (policy_rows a native ranked ready cap base aware) = map (Pair cap) MODES"
    using assms(1) s c by (simp_all add: policy_rows_def row_ok_def MODES_def)
qed

lemma capacity_loop_ok:
  assumes "capacity_loop a native ranked ready states = Some (Inr (rows, states'))"
    and "finite native" and "distinct ranked" and "0 \<le> ha_max_replacements a"
  shows "(\<forall>p\<in>set rows. row_ok native ranked p) \<and> map fst states' = map fst states \<and>
    map (\<lambda>p. (po_capacity p, po_mode p)) rows = row_keys (map fst states)"
  using assms(1)
proof (induction states arbitrary: rows states')
  case Nil
  then show ?case by (simp add: row_keys_def)
next
  case (Cons st states)
  obtain cap base aware where st: "st = (cap, base, aware)" by (cases st)
  from Cons.prems st obtain more s2 where
    rest: "capacity_loop a native ranked ready states = Some (Inr (more, s2))"
    and rows: "rows = policy_rows a native ranked ready cap base aware @ more" and caps: "map fst states' = cap # map fst s2"
    by (auto simp: pbind_Inr_iff Let_def)
  show ?case
    using Cons.IH [OF rest] policy_rows_ok [OF assms(2-4), of ready cap base aware] rows caps st
    by (auto simp: row_keys_def)
qed

definition event_ok :: "hbm_args \<Rightarrow> int event \<Rightarrow> bool" where
  "event_ok a e \<longleftrightarrow>
     0 \<le> ev_step e \<and> 0 \<le> ev_layer e \<and> 1 \<le> ev_seq_len e \<and>
     map (\<lambda>p. (po_capacity p, po_mode p)) (ev_rows e) = row_keys (sorted_list_of_set (set (ha_capacities a))) \<and>
     (\<forall>p\<in>set (ev_rows e). finite (po_selected p) \<and> card (po_selected p) \<le> 2048 \<and>
        po_selected p \<subseteq> {0..<ev_seq_len e} \<and> 0 \<le> po_replacements p)"

lemma find_layer_nonneg: "find_layer ws = Inr l \<Longrightarrow> 0 \<le> l"
  by (induction ws rule: find_layer.induct) (auto split: if_splits option.splits)

lemma group_loop_ok:
  assumes "group_loop load layer_number a step expected files states seen = Some (Inr (evs, seen'))"
    and "0 \<le> step" and "map fst states = sorted_list_of_set (set (ha_capacities a))" and "0 \<le> ha_max_replacements a"
    and "\<forall>(n, path)\<in>set files. 1 \<le> n"
  shows "(\<forall>e\<in>set evs. event_ok a e) \<and> map ev_step evs = map (\<lambda>i. step + int i) [0..<length files]"
  using assms
proof (induction files arbitrary: step expected states seen evs)
  case (Cons f files)
  obtain n path where f: "f = (n, path)" by fastforce
  from Cons.prems(1) f obtain raw d layer rows states2 evs2 where
    "load path = Inr raw" and d: "load_record raw n = Inr d" and layer: "layer_number (du_layer d) = Inr layer"
    and cl: "capacity_loop a (du_native d) (du_ranked d) (ready_set a n) states = Some (Inr (rows, states2))"
    and gl: "group_loop load layer_number a (step + 1) (Some layer) files states2 (insert layer seen) = Some (Inr (evs2, seen'))"
    and evs: "evs = \<lparr>ev_layer = layer, ev_step = step, ev_seq_len = n, ev_native = du_native d, ev_ranked = du_ranked d, ev_rows = rows\<rparr> # evs2"
    by (auto simp: pbind_Inr_iff split: sum.splits if_splits prod.splits)
  note nat = load_record_ok [OF d]
  have c: "\<forall>p\<in>set rows. row_ok (du_native d) (du_ranked d) p" "map fst states2 = map fst states"
      "map (\<lambda>p. (po_capacity p, po_mode p)) rows = row_keys (map fst states)"
    using capacity_loop_ok [OF cl nat(1,4) Cons.prems(4)] by auto
  have "1 \<le> n" using Cons.prems(5) f by simp
  moreover have "card (du_native d) \<le> 2048" using nat(2) by linarith
  ultimately have "event_ok a (hd evs)"
    using evs Cons.prems(2,3) c nat(3,5) find_layer_nonneg [of _ layer] layer
    by (auto simp: event_ok_def row_ok_def layer_number_def)
  moreover have "(\<forall>e\<in>set evs2. event_ok a e) \<and> map ev_step evs2 = map (\<lambda>i. step + 1 + int i) [0..<length files]"
    using Cons.prems c(2) by (intro Cons.IH [OF gl]) auto
  moreover have "map (\<lambda>i. step + int i) [0..<length (f # files)] = step # map (\<lambda>i. step + 1 + int i) [0..<length files]"
    by (simp add: upt_conv_Cons map_Suc_upt [symmetric] comp_def del: upt_Suc)
  ultimately show ?case using evs by auto
qed simp

subsection \<open>Exported traces are accepted by the benchmark\<close>

lemma miss_record_fields [simp]:
  "map_of (miss_record sample a e p) ''request_id'' = Some (JStr sample)"
  "map_of (miss_record sample a e p) ''step_id'' = Some (JInt (ev_step e))"
  "map_of (miss_record sample a e p) ''layer_id'' = Some (JInt (ev_layer e))"
  "map_of (miss_record sample a e p) ''context_length'' = Some (JInt (ev_seq_len e))"
  "map_of (miss_record sample a e p) ''topk_token_indices'' = Some (JArr (map JInt (miss_list a e p)))"
  "map_of (miss_record sample a e p) ''warmup'' = Some (JBool (ev_step e < ha_warmup_steps a))"
  "map_of (miss_record sample a e p) ''cache_capacity'' = Some (JInt (po_capacity p))"
  "map_of (miss_record sample a e p) ''cache_strategy'' = Some (JStr (po_mode p))"
  by (simp_all add: miss_record_def Let_def)

lemma miss_record_counts [simp]:
  fixes sample :: string and a :: hbm_args and e :: "int event" and p :: policy_row
  defines "s \<equiv> hbm_measure (po_selected p) (po_cache p) (ready_set a (ev_seq_len e)) (po_replacements p)"
  shows "map_of (miss_record sample a e p) ''selected'' = Some (JInt (sc_selected s))"
    "map_of (miss_record sample a e p) ''cache_hits'' = Some (JInt (sc_cache_hits s))"
    "map_of (miss_record sample a e p) ''fresh_hits'' = Some (JInt (sc_fresh_hits s))"
    "map_of (miss_record sample a e p) ''misses'' = Some (JInt (sc_misses s))"
    "map_of (miss_record sample a e p) ''replacements'' = Some (JInt (po_replacements p))"
  by (simp_all add: miss_record_def Let_def s_def hbm_measure_def)

lemma miss_tokens [simp]: "rec_tokens (miss_record sample a e p) = miss_list a e p"
  by (simp add: rec_tokens_def comp_def)

lemma miss_list_facts:
  assumes "finite (po_selected p)" and "po_selected p \<subseteq> {0..<ev_seq_len e}"
  shows "distinct (miss_list a e p)" and "set (miss_list a e p) \<subseteq> {0..<ev_seq_len e}"
    and "int (length (miss_list a e p)) = sc_misses (hbm_measure (po_selected p) (po_cache p) (ready_set a (ev_seq_len e)) (po_replacements p))"
    and "length (miss_list a e p) \<le> card (po_selected p)"
proof -
  let ?M = "po_selected p - set (lru_rows (po_cache p)) - ready_set a (ev_seq_len e)"
  have fin: "finite ?M" using assms(1) by simp
  show "distinct (miss_list a e p)" by (simp add: miss_list_def)
  show "set (miss_list a e p) \<subseteq> {0..<ev_seq_len e}" using assms(2) fin by (auto simp: miss_list_def)
  show "int (length (miss_list a e p)) = sc_misses (hbm_measure (po_selected p) (po_cache p) (ready_set a (ev_seq_len e)) (po_replacements p))"
    using hbm_measure_misses(1) [OF assms(1)] by (simp add: miss_list_def)
  show "length (miss_list a e p) \<le> card (po_selected p)" using assms(1) by (auto simp: miss_list_def intro: card_mono)
qed

lemma hbm_measure_bounds:
  "0 \<le> sc_selected (hbm_measure sel c r k)" "0 \<le> sc_cache_hits (hbm_measure sel c r k)" "0 \<le> sc_fresh_hits (hbm_measure sel c r k)"
  "sc_selected (hbm_measure sel c r k) = int (card sel)"
  by (simp_all add: hbm_measure_def Let_def)

lemma miss_record_valid_ok:
  assumes "event_ok a e" and "p \<in> set (ev_rows e)" and "ha_capacities a \<noteq> []" and "2048 \<le> Min (set (ha_capacities a))"
  shows "miss_record_valid (miss_record sample a e p)"
proof -
  let ?s = "hbm_measure (po_selected p) (po_cache p) (ready_set a (ev_seq_len e)) (po_replacements p)"
  have sel: "finite (po_selected p)" "card (po_selected p) \<le> 2048" "po_selected p \<subseteq> {0..<ev_seq_len e}" "0 \<le> po_replacements p"
    using assms(1,2) by (auto simp: event_ok_def)
  have "(po_capacity p, po_mode p) \<in> set (row_keys (sorted_list_of_set (set (ha_capacities a))))"
    using assms(1,2) unfolding event_ok_def by (metis (no_types, lifting) image_eqI list.set_map)
  then have key: "po_capacity p \<in> set (ha_capacities a)" "po_mode p \<in> set MODES" by (auto simp: row_keys_def)
  have cap: "2048 \<le> po_capacity p" using assms(3,4) key(1) by (metis List.finite_set Min_le order_trans)
  note ml = miss_list_facts [OF sel(1,3), of a]
  have "0 \<le> sc_misses ?s" using ml(3) by linarith
  then show ?thesis
    using sel ml key cap hbm_measure_bounds [of "po_selected p" "po_cache p" "ready_set a (ev_seq_len e)" "po_replacements p"]
      hbm_measure_misses(2) [OF sel(1), of "po_cache p" "ready_set a (ev_seq_len e)" "po_replacements p"]
    by (simp add: miss_record_valid_def count_fields_def natural_field_def rec_int_def rec_str_def distinct_card)
qed

lemma miss_record_checked:
  assumes "event_ok a e" and "p \<in> set (ev_rows e)" and "sample \<noteq> []" and "2048 \<le> max_topk"
  shows "\<exists>key. check_record max_topk True (JObj (miss_record sample a e p)) =
    Inr (miss_record sample a e p, key, ev_seq_len e, miss_list a e p)"
proof -
  have sel: "finite (po_selected p)" "card (po_selected p) \<le> 2048" "po_selected p \<subseteq> {0..<ev_seq_len e}"
    and ev: "0 \<le> ev_step e" "0 \<le> ev_layer e" "1 \<le> ev_seq_len e"
    using assms(1,2) by (auto simp: event_ok_def)
  note ml = miss_list_facts [OF sel(1,3), of a]
  have "check_tokens (map JInt ts) ctx = Inr ts" if "set ts \<subseteq> {0..<ctx}" for ts ctx
    using that by (induction ts) (auto simp: integer_def)
  then have "check_tokens (map JInt (miss_list a e p)) (ev_seq_len e) = Inr (miss_list a e p)" using ml(2) by blast
  moreover have "int (length (miss_list a e p)) \<le> max_topk" using ml(4) sel(2) assms(4) by linarith
  ultimately show ?thesis
    using assms(3) ev by (simp add: check_record_def jint_def jget_def integer_def)
qed

lemma read_lines_all:
  assumes "\<forall>r\<in>set rs. \<exists>key ctx ts. check_record max_topk allow (JObj r) = Inr (r, key, ctx, ts)"
  shows "\<exists>lengths'. read_lines max_topk allow (map (\<lambda>r. JsonLine (JObj r)) rs) acc lengths = Inr (acc @ rs, lengths')"
  using assms
proof (induction rs arbitrary: acc lengths)
  case (Cons r rs)
  then obtain key ctx ts where c: "check_record max_topk allow (JObj r) = Inr (r, key, ctx, ts)" by auto
  then show ?case using Cons.IH [of "acc @ [r]" "dict_set key (max (dict_get lengths key 0) ctx) lengths"] Cons.prems by simp
qed simp

lemma load_trace_all:
  assumes "\<forall>r\<in>set rs. \<exists>key ctx ts. check_record max_topk allow (JObj r) = Inr (r, key, ctx, ts)" and "rs \<noteq> []"
  shows "\<exists>tr. load_trace (map (\<lambda>r. JsonLine (JObj r)) rs) max_topk allow = Inr tr \<and> tr_records tr = rs"
  using read_lines_all [OF assms(1), of "[]" "[]"] assms(2)
  by (auto simp: load_trace_def Let_def split: prod.splits)

lemma groups_loop_ok:
  assumes "groups_loop load layer_number a gs seen = Some (Inr evs)" and "0 \<le> ha_max_replacements a"
    and "\<forall>(g, fs)\<in>set gs. \<forall>(n, path)\<in>set fs. 1 \<le> n"
  shows "(\<forall>e\<in>set evs. event_ok a e) \<and> (\<forall>g fs. (g, fs) \<in> set gs \<longrightarrow> int ` {0..<length fs} \<subseteq> ev_step ` set evs)"
  using assms
proof (induction gs arbitrary: seen evs)
  case (Cons gf gs)
  obtain g fs where gf: "gf = (g, fs)" by fastforce
  from Cons.prems(1) gf obtain e1 seen1 e2 where
    one: "group_loop load layer_number a 0 None fs (fresh_states a) seen = Some (Inr (e1, seen1))"
    and rest: "groups_loop load layer_number a gs seen1 = Some (Inr e2)" and evs: "evs = e1 @ e2"
    by (auto simp: pbind_Inr_iff)
  have "(\<forall>e\<in>set e1. event_ok a e) \<and> map ev_step e1 = map (\<lambda>i. 0 + int i) [0..<length fs]"
    using Cons.prems(2,3) gf by (intro group_loop_ok [OF one]) (auto simp: fresh_states_def comp_def)
  then have ok1: "\<forall>e\<in>set e1. event_ok a e" and "set (map ev_step e1) = set (map int [0..<length fs])" by simp_all
  then have e1: "\<forall>e\<in>set e1. event_ok a e" "ev_step ` set e1 = int ` {0..<length fs}" by simp_all
  moreover have "(\<forall>e\<in>set e2. event_ok a e) \<and> (\<forall>g fs. (g, fs) \<in> set gs \<longrightarrow> int ` {0..<length fs} \<subseteq> ev_step ` set e2)"
    using Cons.prems(2,3) by (intro Cons.IH [OF rest]) auto
  ultimately show ?case using evs gf by (simp add: image_Un) blast
qed simp

lemma discover_ok:
  assumes "discover names = Inr groups" and "\<forall>name\<in>set names. \<forall>g n. parse_dump_name name = Some (g, n) \<longrightarrow> 1 \<le> n"
  shows "groups \<noteq> []" and "\<forall>(g, fs)\<in>set groups. \<forall>(n, path)\<in>set fs. 1 \<le> n"
proof -
  have groups: "groups = map (\<lambda>(g, fs). (g, sort fs)) (foldl add_file [] names)" and ne: "groups \<noteq> []"
    using assms(1) by (auto simp: discover_def Let_def split: if_splits)
  show "groups \<noteq> []" by (rule ne)
  have set_dict: "(h, x) \<in> set (dict_set g v ps) \<Longrightarrow> (h, x) = (g, v) \<or> (h, x) \<in> set ps" for h g :: string and x v :: dump_files and ps
    by (induction ps) (auto split: if_splits)
  have "\<forall>(g, fs)\<in>set (foldl add_file acc ns). \<forall>(n, path)\<in>set fs. 1 \<le> n"
    if "\<forall>(g, fs)\<in>set acc. \<forall>(n, path)\<in>set fs. 1 \<le> n" "set ns \<subseteq> set names" for acc ns
    using that
  proof (induction ns arbitrary: acc)
    case (Cons nm ns)
    have "\<forall>(g, fs)\<in>set (add_file acc nm). \<forall>(n, path)\<in>set fs. 1 \<le> n"
    proof (cases "parse_dump_name nm")
      case None
      then show ?thesis using Cons.prems(1) by (simp add: add_file_def)
    next
      case (Some gn)
      obtain g n where gn: "gn = (g, n)" by fastforce
      have n: "1 \<le> n" using assms(2) Cons.prems(2) Some gn by auto
      have old: "\<forall>(k, path)\<in>set (dict_get acc g []). 1 \<le> k"
      proof (cases "map_of acc g")
        case (Some fs)
        then show ?thesis using Cons.prems(1) map_of_SomeD [OF Some] by (auto simp: dict_get_def)
      qed (simp add: dict_get_def)
      show ?thesis
        using Cons.prems(1) old n Some gn by (auto simp: add_file_def dest!: set_dict)
    qed
    then show ?case using Cons.prems(2) by (simp add: Cons.IH)
  qed simp
  from this [of "[]" names] show "\<forall>(g, fs)\<in>set groups. \<forall>(n, path)\<in>set fs. 1 \<le> n"
    unfolding groups by (auto dest!: bspec)
qed

lemma sum_list_map_sort_key: "sum_list (map g (sort_key k xs)) = (sum_list (map g xs) :: int)"
proof -
  have "sum_mset (mset (map g (sort_key k xs))) = sum_mset (mset (map g xs))" by (simp only: mset_map mset_sort)
  then show ?thesis by (simp only: sum_mset_sum_list)
qed

text \<open>The totals of the manifest: summed misses of the measured records.\<close>

lemma totals_sum:
  "sc_misses (dict_get (foldl (\<lambda>agg e. foldl (add_totals a e) agg (ev_rows e)) agg evs) (c, m) no_counts) =
   sc_misses (dict_get agg (c, m) no_counts) +
   sum_list (map (\<lambda>e. if ev_step e < ha_warmup_steps a then 0
     else sum_list (map (\<lambda>p. if po_capacity p = c \<and> po_mode p = m
       then sc_misses (hbm_measure (po_selected p) (po_cache p) (ready_set a (ev_seq_len e)) (po_replacements p)) else 0) (ev_rows e))) evs)"
proof (induction evs arbitrary: agg)
  case (Cons e evs)
  have "sc_misses (dict_get (foldl (add_totals a e) agg ps) (c, m) no_counts) = sc_misses (dict_get agg (c, m) no_counts) +
      (if ev_step e < ha_warmup_steps a then 0
       else sum_list (map (\<lambda>p. if po_capacity p = c \<and> po_mode p = m
         then sc_misses (hbm_measure (po_selected p) (po_cache p) (ready_set a (ev_seq_len e)) (po_replacements p)) else 0) ps))" for ps
    by (induction ps arbitrary: agg) (auto simp: add_totals_def dict_get_set add_counts_def)
  then show ?case by (simp add: Cons.IH)
qed simp

definition file_rows :: "string \<Rightarrow> hbm_args \<Rightarrow> int event list \<Rightarrow> int \<Rightarrow> string \<Rightarrow> spool_row list" where
  "file_rows sample a evs c m = filter (\<lambda>r. sp_capacity r = c \<and> sp_mode r = m) (concat (map (event_spool_rows sample a) evs))"

lemma file_row_cases:
  assumes "r \<in> set (file_rows sample a evs c m)"
  obtains e p where "e \<in> set evs" and "p \<in> set (ev_rows e)" and "sp_body r = miss_record sample a e p"
    and "po_capacity p = c" and "po_mode p = m"
  using assms by (auto simp: file_rows_def event_spool_rows_def)

lemma file_misses_sum:
  assumes "\<forall>e\<in>set evs. event_ok a e"
  shows "sum_list (map (\<lambda>r. if rec_warmup r then 0 else int (length (rec_tokens r))) (map sp_body (file_rows sample a evs c m))) =
    sum_list (map (\<lambda>e. if ev_step e < ha_warmup_steps a then 0
     else sum_list (map (\<lambda>p. if po_capacity p = c \<and> po_mode p = m
       then sc_misses (hbm_measure (po_selected p) (po_cache p) (ready_set a (ev_seq_len e)) (po_replacements p)) else 0) (ev_rows e))) evs)"
  using assms
proof (induction evs)
  case (Cons e evs)
  let ?body = "\<lambda>r. if rec_warmup r then 0 else int (length (rec_tokens r))"
  let ?miss = "\<lambda>p. if po_capacity p = c \<and> po_mode p = m
       then sc_misses (hbm_measure (po_selected p) (po_cache p) (ready_set a (ev_seq_len e)) (po_replacements p)) else 0"
  let ?spool = "\<lambda>p. \<lparr>sp_capacity = po_capacity p, sp_mode = po_mode p, sp_step = ev_step e, sp_layer = ev_layer e,
       sp_body = miss_record sample a e p\<rparr>"
  have one: "sum_list (map (\<lambda>r. ?body (sp_body r)) (filter (\<lambda>r. sp_capacity r = c \<and> sp_mode r = m) (map ?spool ps))) =
      (if ev_step e < ha_warmup_steps a then 0 else sum_list (map ?miss ps))" if "set ps \<subseteq> set (ev_rows e)" for ps
    using that
  proof (induction ps)
    case (Cons p ps)
    have "finite (po_selected p)" "po_selected p \<subseteq> {0..<ev_seq_len e}"
      using \<open>\<forall>e\<in>set (e # evs). event_ok a e\<close> Cons.prems by (auto simp: event_ok_def)
    then have "int (length (miss_list a e p)) = sc_misses (hbm_measure (po_selected p) (po_cache p) (ready_set a (ev_seq_len e)) (po_replacements p))"
      by (rule miss_list_facts(3))
    then show ?case using Cons by (auto simp: rec_warmup_def)
  qed simp
  have "file_rows sample a (e # evs) c m = filter (\<lambda>r. sp_capacity r = c \<and> sp_mode r = m) (map ?spool (ev_rows e)) @ file_rows sample a evs c m"
    by (simp add: file_rows_def event_spool_rows_def)
  then show ?case using Cons one [of "ev_rows e"] by (simp add: comp_def)
qed (simp add: file_rows_def)

text \<open>
  C7. Every miss trace the exporter writes is one the benchmark accepts: it loads (empty batches
  allowed) with the records written, it passes the validation of miss traces with the capacity and
  the strategy named in the manifest, and the number of misses the manifest reports is the number
  of rows the measured batches of the file will read. Assumed are a non-empty sample name and dump
  files of positive sequence length.
\<close>

theorem exported_traces_validate:
  assumes "export load sample a names = Some (Inr files)" and "f \<in> set files" and "sample \<noteq> []" and "2048 \<le> max_topk"
    and "\<forall>name\<in>set names. \<forall>g n. parse_dump_name name = Some (g, n) \<longrightarrow> 1 \<le> n"
  shows "\<exists>tr. load_trace (map (\<lambda>r. JsonLine (JObj r)) (tf_records f)) max_topk True = Inr tr \<and> tr_records tr = tf_records f \<and>
    validate_miss_trace tr = Inr (tf_capacity f, tf_strategy f) \<and>
    sc_misses (tf_totals f) = sum_list (map (\<lambda>r. if rec_warmup r then 0 else int (length (rec_tokens r))) (tf_records f))"
proof -
  from assms(1) obtain groups evs where gr: "discover names = Inr groups" and ok: "budgets_ok a" "groups_ok a groups"
    and evs: "groups_loop load layer_number a (sort_key fst groups) {} = Some (Inr evs)"
    and files: "files = concat (map (\<lambda>c. map (\<lambda>m. \<lparr>tf_capacity = c, tf_strategy = m,
        tf_records = map sp_body (sort_key (\<lambda>r. (sp_step r, sp_layer r)) (file_rows sample a evs c m)),
        tf_totals = dict_get (foldl (\<lambda>agg e. foldl (add_totals a e) agg (ev_rows e)) [] evs) (c, m) no_counts\<rparr>) MODES)
        (sorted_list_of_set (set (ha_capacities a))))"
    by (auto simp: export_def pbind_Inr_iff Let_def file_rows_def split: sum.splits if_splits)
  obtain c m where cm: "c \<in> set (ha_capacities a)" "m \<in> set MODES" and f: "tf_capacity f = c" "tf_strategy f = m"
    "tf_records f = map sp_body (sort_key (\<lambda>r. (sp_step r, sp_layer r)) (file_rows sample a evs c m))"
    "tf_totals f = dict_get (foldl (\<lambda>agg e. foldl (add_totals a e) agg (ev_rows e)) [] evs) (c, m) no_counts"
    using assms(2) unfolding files by auto
  have caps: "ha_capacities a \<noteq> []" "2048 \<le> Min (set (ha_capacities a))" "0 \<le> ha_max_replacements a" "0 \<le> ha_warmup_steps a"
    "\<forall>(g, fs)\<in>set groups. ha_warmup_steps a < int (length fs)"
    using ok by (auto simp: budgets_ok_def groups_ok_def list_all_iff)
  note disc = discover_ok [OF gr assms(5)]
  have evok: "\<forall>e\<in>set evs. event_ok a e" and steps: "\<And>g fs. (g, fs) \<in> set groups \<Longrightarrow> int ` {0..<length fs} \<subseteq> ev_step ` set evs"
    using groups_loop_ok [OF evs caps(3)] disc(2) by auto
  let ?rows = "file_rows sample a evs c m"
  have recs: "set (tf_records f) = sp_body ` set ?rows" using f(3) by simp
  have each: "\<exists>e p. e \<in> set evs \<and> p \<in> set (ev_rows e) \<and> r = miss_record sample a e p \<and> po_capacity p = c \<and> po_mode p = m"
    if r: "r \<in> set (tf_records f)" for r
    using r unfolding recs by (auto elim!: file_row_cases)
  have "\<exists>r\<in>set (tf_records f). \<not> rec_warmup r"
  proof -
    obtain g fs where gf: "(g, fs) \<in> set groups" using disc(1) by (cases groups) auto
    then have "nat (ha_warmup_steps a) \<in> {0..<length fs}" using caps(4,5) by auto
    then have "ha_warmup_steps a \<in> ev_step ` set evs" using steps gf caps(4) by (force intro: image_eqI [of _ int "nat (ha_warmup_steps a)"])
    then obtain e where e: "e \<in> set evs" "ev_step e = ha_warmup_steps a" by auto
    have "(c, m) \<in> set (row_keys (sorted_list_of_set (set (ha_capacities a))))" using cm by (auto simp: row_keys_def)
    moreover have "row_keys (sorted_list_of_set (set (ha_capacities a))) = map (\<lambda>p. (po_capacity p, po_mode p)) (ev_rows e)"
      using evok e(1) by (simp add: event_ok_def)
    ultimately obtain p where p: "p \<in> set (ev_rows e)" "po_capacity p = c" "po_mode p = m" by auto
    have "miss_record sample a e p \<in> sp_body ` set ?rows"
      using p e(1) by (force simp: file_rows_def event_spool_rows_def)
    then show ?thesis using e(2) recs by (intro bexI [of _ "miss_record sample a e p"]) (auto simp: rec_warmup_def)
  qed
  then have ne: "tf_records f \<noteq> []" and measured: "\<not> list_all rec_warmup (tf_records f)" by (auto simp: list_all_iff)
  obtain tr where tr: "load_trace (map (\<lambda>r. JsonLine (JObj r)) (tf_records f)) max_topk True = Inr tr" "tr_records tr = tf_records f"
    using load_trace_all [of "tf_records f" max_topk True] ne each evok miss_record_checked [OF _ _ assms(3,4)] by blast
  have valid: "list_all miss_record_valid (tf_records f)"
    using each evok miss_record_valid_ok [OF _ _ caps(1,2)] by (fastforce simp: list_all_iff)
  have "(\<lambda>r. (rec_int r ''cache_capacity'', rec_str r ''cache_strategy'')) ` set (tf_records f) = {(c, m)}"
  proof -
    have "rec_int r ''cache_capacity'' = c \<and> rec_str r ''cache_strategy'' = m" if "r \<in> set (tf_records f)" for r
      using each [OF that] by (auto simp: rec_int_def rec_str_def)
    then show ?thesis using ne by (cases "tf_records f") auto
  qed
  then have "validate_miss_trace tr = Inr (c, m)" using tr(2) valid measured by (simp add: validate_miss_trace_def)
  moreover have "sc_misses (tf_totals f) = sum_list (map (\<lambda>r. if rec_warmup r then 0 else int (length (rec_tokens r))) (tf_records f))"
  proof -
    let ?g = "\<lambda>r. if rec_warmup r then 0 else int (length (rec_tokens r))"
    have "sum_list (map ?g (tf_records f)) = sum_list (map ?g (map sp_body ?rows))"
      unfolding f(3) list.map_comp by (rule sum_list_map_sort_key)
    also have "\<dots> = sc_misses (tf_totals f)"
      unfolding file_misses_sum [OF evok] f(4) totals_sum by (simp add: dict_get_def no_counts_def)
    finally show ?thesis by simp
  qed
  ultimately show ?thesis using tr f(1,2) by blast
qed


text \<open>Two decode steps of one layer, of sequence lengths 1 and 2, the first one a warm-up step.\<close>

definition demo_dump :: "string \<Rightarrow> int raw_dump result" where
  "demo_dump path =
     (let n = (if path = ''m_s1.pt'' then 1 else 2) in
      Inr \<lparr>rd_layer = Some ''layers.0'', rd_seq_lens_key = Some (Node [Leaf n]), rd_seq_lens_query = Some (Leaf 1),
        rd_has_reference = Some True, rd_indices = Some (Node (map Leaf [0..n - 1])),
        rd_candidate_indices = Some (Node (map Leaf [0..n - 1])),
        rd_candidate_scores = Some (Node (map (Leaf \<circ> Finite) [0..n - 1]))\<rparr>)"

definition hbm_demo_args :: hbm_args where
  "hbm_demo_args = \<lparr>ha_capacities = [2048], ha_max_replacements = 4, ha_protect_top = 0, ha_warmup_steps = 1,
     ha_resident = False, ha_row_bytes = 576, ha_expected_layers = Some 1\<rparr>"

declare lru_evict.simps [code]

lemma demo_export:
  "\<exists>files. export demo_dump ''req'' hbm_demo_args [''m_s2.pt'', ''m_s1.pt''] = Some (Inr files) \<and>
     map (\<lambda>f. map rec_tokens (tf_records f)) files = replicate 3 [[0], [1]]"
proof -
  have "map_option (\<lambda>r. case r of Inl e \<Rightarrow> [] | Inr files \<Rightarrow> map (\<lambda>f. map rec_tokens (tf_records f)) files)
    (export demo_dump ''req'' hbm_demo_args [''m_s2.pt'', ''m_s1.pt'']) = Some (replicate 3 [[0], [1]])"
    by code_simp
  then obtain z where "export demo_dump ''req'' hbm_demo_args [''m_s2.pt'', ''m_s1.pt''] = Some z"
    and "(case z of Inl e \<Rightarrow> [] | Inr files \<Rightarrow> map (\<lambda>f. map rec_tokens (tf_records f)) files) = replicate 3 [[0], [1]]"
    by (auto simp: map_option_eq_Some)
  then show ?thesis by (cases z) auto
qed

theorem exported_traces_validate_witness:
  "\<exists>files f tr. export demo_dump ''req'' hbm_demo_args [''m_s2.pt'', ''m_s1.pt''] = Some (Inr files) \<and> f \<in> set files \<and>
     map rec_tokens (tf_records f) = [[0], [1]] \<and>
     load_trace (map (\<lambda>r. JsonLine (JObj r)) (tf_records f)) 2048 True = Inr tr \<and>
     validate_miss_trace tr = Inr (tf_capacity f, tf_strategy f)"
proof -
  obtain files where e: "export demo_dump ''req'' hbm_demo_args [''m_s2.pt'', ''m_s1.pt''] = Some (Inr files)"
    and t: "map (\<lambda>f. map rec_tokens (tf_records f)) files = replicate 3 [[0], [1]]"
    using demo_export by blast
  then obtain f where f: "f \<in> set files" "map rec_tokens (tf_records f) = [[0], [1]]"
    by (cases files) (auto simp: numeral_3_eq_3 map_eq_Cons_conv)
  have "parse_dump_name ''m_s2.pt'' = Some (''m'', 2)" "parse_dump_name ''m_s1.pt'' = Some (''m'', 1)" by code_simp+
  then have "\<forall>name\<in>set [''m_s2.pt'', ''m_s1.pt'']. \<forall>g n. parse_dump_name name = Some (g, n) \<longrightarrow> 1 \<le> n" by simp
  then show ?thesis using exported_traces_validate [OF e f(1), of 2048] e f by auto
qed

end
