(* ===== verification/ConvertTrace.thy ===== *)
theory ConvertTrace
  imports HbmSim
begin

section \<open>Conversion of traces\<close>

text \<open>
  Model of \<open>bmpclient/bench/convert_trace.py\<close>: the CSV reader it uses, the CSV records, the
  normalisation of JSON records, the validation with the loader of the benchmark and the parsing of
  the command line's field mappings. The bytes of the input are decoded and JSON texts are parsed
  values; limits of the runtime on field sizes and digits, and the digests, are not modelled.
\<close>

subsection \<open>csv.reader\<close>

text \<open>
  The state machine of the \<open>csv\<close> module for the default dialect with \<open>strict=True\<close>. A line ends at
  \<open>\n\<close>, \<open>\r\<close> or both; inside quotes the characters of a line end belong to the field.
\<close>

datatype csv_state = START_RECORD | START_FIELD | IN_FIELD | IN_QUOTED_FIELD | QUOTE_IN_QUOTED_FIELD

definition is_newline :: "char \<Rightarrow> bool" where
  "is_newline ch \<longleftrightarrow> ch = CHR 0x0A \<or> ch = CHR 0x0D"

definition skip_newline :: "char \<Rightarrow> string \<Rightarrow> string" where
  "skip_newline ch cs = (case cs of c # cs' \<Rightarrow> if ch = CHR 0x0D \<and> c = CHR 0x0A then cs' else cs | [] \<Rightarrow> cs)"

lemma length_skip_newline [termination_simp]: "length (skip_newline ch cs) < Suc (length cs)"
  by (auto simp: skip_newline_def split: list.splits)

text \<open>\<open>field\<close> and \<open>row\<close> are the field and the record read so far; the reader is a generator, so a malformed
  line is an error after the records before it.\<close>

fun csv_reader :: "csv_state \<Rightarrow> string \<Rightarrow> string list \<Rightarrow> string \<Rightarrow> string list result list" where
  "csv_reader st field row [] =
     (case st of START_RECORD \<Rightarrow> [] | IN_QUOTED_FIELD \<Rightarrow> [Inl CsvError] | _ \<Rightarrow> [Inr (row @ [field])])"
| "csv_reader st field row (ch # cs) =
     (case st of
        START_RECORD \<Rightarrow>
          if is_newline ch then Inr [] # csv_reader START_RECORD [] [] (skip_newline ch cs)
          else if ch = CHR 0x22 then csv_reader IN_QUOTED_FIELD [] row cs
          else if ch = CHR '','' then csv_reader START_FIELD [] (row @ [[]]) cs
          else csv_reader IN_FIELD [ch] row cs
      | START_FIELD \<Rightarrow>
          if is_newline ch then Inr (row @ [[]]) # csv_reader START_RECORD [] [] (skip_newline ch cs)
          else if ch = CHR 0x22 then csv_reader IN_QUOTED_FIELD [] row cs
          else if ch = CHR '','' then csv_reader START_FIELD [] (row @ [[]]) cs
          else csv_reader IN_FIELD [ch] row cs
      | IN_FIELD \<Rightarrow>
          if is_newline ch then Inr (row @ [field]) # csv_reader START_RECORD [] [] (skip_newline ch cs)
          else if ch = CHR '','' then csv_reader START_FIELD [] (row @ [field]) cs
          else csv_reader IN_FIELD (field @ [ch]) row cs
      | IN_QUOTED_FIELD \<Rightarrow>
          if ch = CHR 0x22 then csv_reader QUOTE_IN_QUOTED_FIELD field row cs
          else csv_reader IN_QUOTED_FIELD (field @ [ch]) row cs
      | QUOTE_IN_QUOTED_FIELD \<Rightarrow>
          if ch = CHR 0x22 then csv_reader IN_QUOTED_FIELD (field @ [ch]) row cs
          else if ch = CHR '','' then csv_reader START_FIELD [] (row @ [field]) cs
          else if is_newline ch then Inr (row @ [field]) # csv_reader START_RECORD [] [] (skip_newline ch cs)
          else [Inl CsvError])"

subsection \<open>csv_records\<close>

definition FIELDS :: "string list" where
  "FIELDS = [''request_id'', ''step_id'', ''layer_id'', ''context_length'', ''topk_token_indices'']"

definition idx_name :: "nat \<Rightarrow> string" where
  "idx_name i = ''idx_'' @ show_nat i"

definition csv_required :: "int \<Rightarrow> string list" where
  "csv_required max_topk = [''step_idx'', ''layer'', ''step_seqlen''] @ map idx_name [0..<nat max_topk]"

definition csv_positions :: "string list \<Rightarrow> string \<Rightarrow> nat option" where
  "csv_positions header = map_of (rev (zip header [0..<length header]))"

definition csv_number :: "string list \<Rightarrow> string list \<Rightarrow> string \<Rightarrow> int result" where
  "csv_number header cells name =
     (case csv_positions header name of None \<Rightarrow> Inl KeyError
      | Some p \<Rightarrow>
          if length cells \<le> p then Inl IndexError
          else let value = strip (cells ! p) in
            if value = [] \<or> \<not> list_all is_digit value then Inl ValueError
            else (case digits_val 0 False value of None \<Rightarrow> Inl ValueError | Some n \<Rightarrow> Inr (int n)))"

definition csv_row :: "string \<Rightarrow> string list \<Rightarrow> int \<Rightarrow> string list \<Rightarrow> jdict result" where
  "csv_row request header max_topk cells =
     (if length cells \<noteq> length header then Inl ValueError else
      case csv_number header cells ''step_seqlen'' of Inl e \<Rightarrow> Inl e | Inr ctx \<Rightarrow>
      if ctx < 1 then Inl ValueError else
      case map_result (csv_number header cells) (map idx_name [0..<nat max_topk]) of Inl e \<Rightarrow> Inl e | Inr tokens \<Rightarrow>
      if \<not> list_all (\<lambda>t. t < ctx) tokens then Inl ValueError else
      case csv_number header cells ''step_idx'' of Inl e \<Rightarrow> Inl e | Inr step \<Rightarrow>
      case csv_number header cells ''layer'' of Inl e \<Rightarrow> Inl e | Inr layer \<Rightarrow>
      Inr [(''request_id'', JStr request), (''step_id'', JInt step), (''layer_id'', JInt layer),
           (''context_length'', JInt ctx), (''topk_token_indices'', JArr (map JInt tokens))])"

text \<open>Blank lines are skipped.\<close>

fun csv_rows :: "(string list \<Rightarrow> jdict result) \<Rightarrow> string list result list \<Rightarrow> jdict list result" where
  "csv_rows f [] = Inr []"
| "csv_rows f (Inl e # items) = Inl e"
| "csv_rows f (Inr cells # items) =
     (if cells = [] then csv_rows f items else
      case f cells of Inl e \<Rightarrow> Inl e
      | Inr r \<Rightarrow> (case csv_rows f items of Inl e \<Rightarrow> Inl e | Inr rs \<Rightarrow> Inr (r # rs)))"

definition csv_table :: "string list result list \<Rightarrow> jdict \<Rightarrow> int \<Rightarrow> jdict list result" where
  "csv_table items defaults max_topk =
     (case map_of defaults ''request_id'' of
        Some (JStr request) \<Rightarrow>
          if strip request = [] then Inl ValueError else
          (case items of [] \<Rightarrow> Inl ValueError
           | Inl e # _ \<Rightarrow> Inl e
           | Inr first # rest \<Rightarrow>
               let header = map strip first in
               if \<not> distinct header then Inl ValueError
               else if set header \<noteq> set (csv_required max_topk) then Inl ValueError
               else csv_rows (csv_row request header max_topk) rest)
      | _ \<Rightarrow> Inl ValueError)"

definition csv_records :: "string \<Rightarrow> jdict \<Rightarrow> int \<Rightarrow> jdict list result" where
  "csv_records raw defaults max_topk = csv_table (csv_reader START_RECORD [] [] raw) defaults max_topk"

subsection \<open>convert\<close>

datatype conv_input = CsvInput string | JsonInput "jval option" | JsonlInput "trace_line list" | OtherFormat

definition json_line :: "trace_line \<Rightarrow> jval option result" where
  "json_line l = (case l of BlankLine \<Rightarrow> Inr None | BadLine \<Rightarrow> Inl ValueError | JsonLine v \<Rightarrow> Inr (Some v))"

definition input_records :: "conv_input \<Rightarrow> (string \<times> string) list \<Rightarrow> jdict \<Rightarrow> int \<Rightarrow> int \<Rightarrow> jval list result" where
  "input_records source field_map defaults step_start max_topk =
     (case source of
        CsvInput raw \<Rightarrow>
          if field_map \<noteq> [] \<or> set (map fst defaults) - {''request_id''} \<noteq> {} \<or> step_start \<noteq> 0 then Inl ValueError
          else (case csv_records raw defaults max_topk of Inl e \<Rightarrow> Inl e | Inr rs \<Rightarrow> Inr (map JObj rs))
      | JsonInput v \<Rightarrow> (case v of Some (JArr vs) \<Rightarrow> Inr vs | _ \<Rightarrow> Inl ValueError)
      | JsonlInput ls \<Rightarrow>
          (case map_result json_line ls of Inl e \<Rightarrow> Inl e | Inr vs \<Rightarrow> Inr (map the (filter (\<lambda>v. v \<noteq> None) vs)))
      | OtherFormat \<Rightarrow> Inl ValueError)"

definition canonical_value :: "(string \<times> string) list \<Rightarrow> jdict \<Rightarrow> int \<Rightarrow> int \<Rightarrow> jdict \<Rightarrow> string \<Rightarrow> (string \<times> jval) result" where
  "canonical_value field_map defaults step_start i item canonical =
     (case map_of item (dict_get field_map canonical canonical) of
        Some v \<Rightarrow> Inr (canonical, v)
      | None \<Rightarrow> (case map_of defaults canonical of
          Some v \<Rightarrow> Inr (canonical, v)
        | None \<Rightarrow> if canonical = ''step_id'' then Inr (canonical, JInt (step_start + i)) else Inl ValueError))"

definition normalize :: "(string \<times> string) list \<Rightarrow> jdict \<Rightarrow> int \<Rightarrow> int \<times> jval \<Rightarrow> jdict result" where
  "normalize field_map defaults step_start p =
     (let (i, item) = p;
          item' = (case item of JArr ts \<Rightarrow> JObj [(''topk_token_indices'', JArr ts)] | _ \<Rightarrow> item)
      in case item' of
           JObj d \<Rightarrow> map_result (canonical_value field_map defaults step_start i d) FIELDS
         | _ \<Rightarrow> Inl ValueError)"

text \<open>
  \<open>exists\<close> says that the output exists or is the input. The result is the text written, one JSON
  record per line, and the number of rows reported.
\<close>

definition convert ::
  "bool \<Rightarrow> conv_input \<Rightarrow> (string \<times> string) list \<Rightarrow> jdict \<Rightarrow> int \<Rightarrow> int \<Rightarrow> (trace_line list \<times> int) result" where
  "convert exists source field_map defaults step_start max_topk =
     (if exists then Inl FileExistsError
      else if step_start < 0 \<or> max_topk < 1 then Inl ValueError
      else if set (map fst field_map) - set FIELDS \<noteq> {} then Inl ValueError else
      case input_records source field_map defaults step_start max_topk of Inl e \<Rightarrow> Inl e | Inr records \<Rightarrow>
      case map_result (normalize field_map defaults step_start) (zip (map int [0..<length records]) records) of Inl e \<Rightarrow> Inl e
      | Inr normalized \<Rightarrow>
          let text = map (\<lambda>r. JsonLine (JObj r)) normalized in
          case load_trace text max_topk False of Inl e \<Rightarrow> Inl e | Inr tr \<Rightarrow> Inr (text, tr_rows tr))"

subsection \<open>The command line\<close>

fun split_eq :: "string \<Rightarrow> (string \<times> string) option" where
  "split_eq [] = None"
| "split_eq (ch # cs) =
     (if ch = CHR ''='' then Some ([], cs) else map_option (\<lambda>(k, v). (ch # k, v)) (split_eq cs))"

definition field_step :: "string \<Rightarrow> (string \<times> string) list \<Rightarrow> (string \<times> string) list result" where
  "field_step field mapping =
     (case split_eq field of None \<Rightarrow> Inl SystemExit
      | Some (key, value) \<Rightarrow>
          if key \<in> set (map fst mapping) \<or> value = [] then Inl SystemExit else Inr (mapping @ [(key, value)]))"

fun parse_fields :: "string list \<Rightarrow> (string \<times> string) list \<Rightarrow> (string \<times> string) list result" where
  "parse_fields [] mapping = Inr mapping"
| "parse_fields (f # fs) mapping =
     (case field_step f mapping of Inl e \<Rightarrow> Inl e | Inr mapping' \<Rightarrow> parse_fields fs mapping')"

definition metadata :: "string option \<Rightarrow> int option \<Rightarrow> int option \<Rightarrow> jdict" where
  "metadata request_id layer_id context_length =
     (case request_id of None \<Rightarrow> [] | Some s \<Rightarrow> [(''request_id'', JStr s)]) @
     (case layer_id of None \<Rightarrow> [] | Some i \<Rightarrow> [(''layer_id'', JInt i)]) @
     (case context_length of None \<Rightarrow> [] | Some i \<Rightarrow> [(''context_length'', JInt i)])"

definition convert_main ::
  "bool \<Rightarrow> conv_input \<Rightarrow> string list \<Rightarrow> string option \<Rightarrow> int option \<Rightarrow> int option \<Rightarrow> int \<Rightarrow> int \<Rightarrow> (trace_line list \<times> int) result" where
  "convert_main exists source field_args request_id layer_id context_length step_start max_topk =
     (case parse_fields field_args [] of Inl e \<Rightarrow> Inl e
      | Inr mapping \<Rightarrow> convert exists source mapping (metadata request_id layer_id context_length) step_start max_topk)"


subsection \<open>Converted CSV traces are valid\<close>

lemma csv_number_nonneg: "csv_number header cells name = Inr n \<Longrightarrow> 0 \<le> n"
  by (auto simp: csv_number_def Let_def split: option.splits if_splits)

lemma csv_row_form:
  assumes "csv_row request header k cells = Inr r"
  obtains step layer ctx tokens where
    "r = [(''request_id'', JStr request), (''step_id'', JInt step), (''layer_id'', JInt layer),
           (''context_length'', JInt ctx), (''topk_token_indices'', JArr (map JInt tokens))]"
    and "0 \<le> step" "0 \<le> layer" "1 \<le> ctx" and "length tokens = nat k" and "set tokens \<subseteq> {0..<ctx}"
proof -
  from assms obtain step layer ctx tokens where r: "r = [(''request_id'', JStr request), (''step_id'', JInt step), (''layer_id'', JInt layer),
           (''context_length'', JInt ctx), (''topk_token_indices'', JArr (map JInt tokens))]"
    and n: "csv_number header cells ''step_idx'' = Inr step" "csv_number header cells ''layer'' = Inr layer"
    and ts: "map_result (csv_number header cells) (map idx_name [0..<nat k]) = Inr tokens"
    and b: "1 \<le> ctx" "list_all (\<lambda>t. t < ctx) tokens"
    by (auto simp: csv_row_def split: if_splits sum.splits)
  have "\<forall>t\<in>set tokens. 0 \<le> t"
    using ts by (auto simp: map_result_Inr_iff list_all2_conv_all_nth in_set_conv_nth) (metis csv_number_nonneg)
  then have "set tokens \<subseteq> {0..<ctx}" using b(2) by (auto simp: list_all_iff)
  then show ?thesis
    using that [OF r] n csv_number_nonneg b(1) map_result_length [OF ts] by simp
qed

lemma check_tokens_ints: "set ts \<subseteq> {0..<ctx} \<Longrightarrow> check_tokens (map JInt ts) ctx = Inr ts"
  by (induction ts) (auto simp: integer_def)

lemma csv_row_checked:
  assumes "csv_row request header k cells = Inr r" and "request \<noteq> []" and "1 \<le> k"
  shows "\<exists>key ctx ts. check_record k False (JObj r) = Inr (r, key, ctx, ts)"
    and "normalize [] defaults 0 (i, JObj r) = Inr r"
proof -
  from assms(1) obtain step layer ctx tokens where
    r: "r = [(''request_id'', JStr request), (''step_id'', JInt step), (''layer_id'', JInt layer),
           (''context_length'', JInt ctx), (''topk_token_indices'', JArr (map JInt tokens))]"
    and b: "0 \<le> step" "0 \<le> layer" "1 \<le> ctx" "length tokens = nat k" "set tokens \<subseteq> {0..<ctx}"
    by (rule csv_row_form)
  show "\<exists>key ctx ts. check_record k False (JObj r) = Inr (r, key, ctx, ts)"
    using b assms(2,3) by (simp add: r check_record_def jint_def jget_def integer_def check_tokens_ints)
  show "normalize [] defaults 0 (i, JObj r) = Inr r"
    by (simp add: r normalize_def FIELDS_def canonical_value_def dict_get_def)
qed

lemma csv_rows_members: "csv_rows f items = Inr rs \<Longrightarrow> r \<in> set rs \<Longrightarrow> \<exists>cells. f cells = Inr r"
  by (induction f items arbitrary: rs rule: csv_rows.induct) (auto split: if_splits sum.splits)

lemma csv_records_members:
  assumes "csv_records raw defaults k = Inr recs"
  obtains request header where "request \<noteq> []" and "\<forall>r\<in>set recs. \<exists>cells. csv_row request header k cells = Inr r"
proof -
  from assms obtain request first rest where "strip request \<noteq> []"
    and rows: "csv_rows (csv_row request (map strip first) k) rest = Inr recs"
    by (auto simp: csv_records_def csv_table_def Let_def split: option.splits jval.splits if_splits list.splits sum.splits)
  then have "request \<noteq> []" by (auto simp: strip_def)
  then show ?thesis using that csv_rows_members [OF rows] by blast
qed

text \<open>
  A CSV file whose rows pass the checks of the CSV reader is always converted: the validator of
  the replay accepts every record, no record is changed by the normalisation, and the file written
  holds the records in the order of the rows.
\<close>

theorem csv_conversion_succeeds:
  assumes "csv_records raw defaults max_topk = Inr recs" and "recs \<noteq> []" and "1 \<le> max_topk"
    and "set (map fst defaults) \<subseteq> {''request_id''}"
  shows "\<exists>n. convert False (CsvInput raw) [] defaults 0 max_topk = Inr (map (\<lambda>r. JsonLine (JObj r)) recs, n)"
proof -
  obtain request header where req: "request \<noteq> []" and rows: "\<forall>r\<in>set recs. \<exists>cells. csv_row request header max_topk cells = Inr r"
    by (rule csv_records_members [OF assms(1)])
  have norm: "normalize [] defaults 0 (i, JObj r) = Inr r" if "r \<in> set recs" for i r
    using rows that csv_row_checked(2) [OF _ req assms(3)] by blast
  have "map_result (normalize [] defaults 0) (zip (map int [0..<length (map JObj recs)]) (map JObj recs)) = Inr recs"
    using norm by (auto simp: map_result_Inr_iff list_all2_conv_all_nth)
  moreover obtain tr where "load_trace (map (\<lambda>r. JsonLine (JObj r)) recs) max_topk False = Inr tr"
    using load_trace_all [of recs max_topk False] assms(2) rows csv_row_checked(1) [OF _ req assms(3)] by metis
  ultimately show ?thesis
    using assms by (simp add: convert_def input_records_def Diff_eq_empty_iff)
qed

theorem csv_conversion_succeeds_witness:
  "\<exists>n. convert False (CsvInput (''step_idx,layer,step_seqlen,idx_0'' @ [CHR 0x0A] @ ''0,3,7,5'' @ [CHR 0x0A])) []
     [(''request_id'', JStr ''r'')] 0 1 =
   Inr ([JsonLine (JObj [(''request_id'', JStr ''r''), (''step_id'', JInt 0), (''layer_id'', JInt 3),
           (''context_length'', JInt 7), (''topk_token_indices'', JArr [JInt 5])])], n)"
proof -
  have "csv_records (''step_idx,layer,step_seqlen,idx_0'' @ [CHR 0x0A] @ ''0,3,7,5'' @ [CHR 0x0A]) [(''request_id'', JStr ''r'')] 1 =
    Inr [[(''request_id'', JStr ''r''), (''step_id'', JInt 0), (''layer_id'', JInt 3),
           (''context_length'', JInt 7), (''topk_token_indices'', JArr [JInt 5])]]"
    by code_simp
  from csv_conversion_succeeds [OF this] show ?thesis by simp
qed

subsection \<open>Columns may come in any order\<close>

definition csv_value :: "string \<Rightarrow> int result" where
  "csv_value cell =
     (let value = strip cell in
      if value = [] \<or> \<not> list_all is_digit value then Inl ValueError
      else (case digits_val 0 False value of None \<Rightarrow> Inl ValueError | Some n \<Rightarrow> Inr (int n)))"

lemma csv_positions_nth: "distinct header \<Longrightarrow> p < length header \<Longrightarrow> csv_positions header (header ! p) = Some p"
proof -
  assume d: "distinct header" and p: "p < length header"
  have "distinct (map fst (rev (zip header [0..<length header])))" using d by (simp add: rev_map [symmetric])
  moreover have "(header ! p, p) \<in> set (rev (zip header [0..<length header]))" using p by (force simp: set_zip)
  ultimately show ?thesis by (simp add: csv_positions_def)
qed

lemma csv_number_cell:
  assumes "distinct header" and "name \<in> set header"
  shows "csv_number header (map cell header) name = csv_value (cell name)"
proof -
  obtain p where "p < length header" "header ! p = name" using assms(2) by (auto simp: in_set_conv_nth)
  then show ?thesis using csv_positions_nth [OF assms(1), of p] by (auto simp: csv_number_def csv_value_def Let_def)
qed

lemma map_result_cong: "(\<And>x. x \<in> set xs \<Longrightarrow> f x = g x) \<Longrightarrow> map_result f xs = map_result g xs"
  by (induction xs) (auto split: sum.splits)

lemma csv_row_cells:
  assumes "distinct header" and "set header = set (csv_required k)"
    and "distinct header'" and "set header' = set (csv_required k)"
  shows "csv_row request header k (map cell header) = csv_row request header' k (map cell header')"
proof -
  have eq: "csv_number header (map cell header) name = csv_number header' (map cell header') name" if "name \<in> set (csv_required k)" for name
    using that assms by (simp add: csv_number_cell)
  have tokens: "map_result (csv_number header (map cell header)) (map idx_name [0..<nat k]) =
      map_result (csv_number header' (map cell header')) (map idx_name [0..<nat k])"
    by (intro map_result_cong eq) (auto simp: csv_required_def)
  have "\<forall>name\<in>{''step_seqlen'', ''step_idx'', ''layer''}. csv_number header (map cell header) name = csv_number header' (map cell header') name"
    by (auto simp: csv_required_def intro!: eq)
  then have rest: "csv_number header (map cell header) ''step_seqlen'' = csv_number header' (map cell header') ''step_seqlen''"
    "csv_number header (map cell header) ''step_idx'' = csv_number header' (map cell header') ''step_idx''"
    "csv_number header (map cell header) ''layer'' = csv_number header' (map cell header') ''layer''" by simp_all
  show ?thesis by (simp only: csv_row_def rest tokens length_map not_True_eq_False simp_thms if_False)
qed

lemma show_nat_inj: "show_nat m = show_nat n \<Longrightarrow> m = n"
  using foldl_show_nat by metis

lemma distinct_csv_required: "distinct (csv_required k)"
  by (auto simp: csv_required_def distinct_map inj_on_def idx_name_def dest: show_nat_inj)

lemma strip_csv_required: "name \<in> set (csv_required k) \<Longrightarrow> strip name = name"
proof -
  assume "name \<in> set (csv_required k)"
  moreover have "list_all (\<lambda>ch. \<not> is_space ch) (idx_name n)" for n
    using show_nat_digits [of n] digit_no_space by (auto simp: idx_name_def list_all_iff is_space_def)
  ultimately show ?thesis by (auto simp: csv_required_def is_space_def intro!: strip_digits)
qed

text \<open>A line of cells without quotes, commas or line ends.\<close>

definition plain_cell :: "string \<Rightarrow> bool" where
  "plain_cell c \<longleftrightarrow> list_all (\<lambda>ch. \<not> is_newline ch \<and> ch \<noteq> CHR 0x22 \<and> ch \<noteq> CHR '','') c"

definition csv_line :: "string list \<Rightarrow> string" where
  "csv_line cells = join '','' cells @ [CHR 0x0A]"

lemma csv_in_field:
  "plain_cell c \<Longrightarrow> csv_reader IN_FIELD field row (c @ rest) = csv_reader IN_FIELD (field @ c) row rest"
  by (induction c arbitrary: field) (auto simp: plain_cell_def)

lemma csv_start_field:
  "plain_cell c \<Longrightarrow> csv_reader START_FIELD [] row (c @ CHR '','' # rest) = csv_reader START_FIELD [] (row @ [c]) rest"
  "plain_cell c \<Longrightarrow> csv_reader START_FIELD [] row (c @ CHR 0x0A # rest) = Inr (row @ [c]) # csv_reader START_RECORD [] [] rest"
  by (cases c; auto simp: plain_cell_def csv_in_field is_newline_def skip_newline_def split: list.splits)+

lemma csv_join:
  "cells \<noteq> [] \<Longrightarrow> list_all plain_cell cells \<Longrightarrow>
   csv_reader START_FIELD [] row (join '','' cells @ CHR 0x0A # rest) = Inr (row @ cells) # csv_reader START_RECORD [] [] rest"
  by (induction "'',''" cells arbitrary: row rule: join.induct) (auto simp: csv_start_field)

lemma csv_start_record:
  "s \<noteq> [] \<Longrightarrow> \<not> is_newline (hd s) \<Longrightarrow> csv_reader START_RECORD [] [] s = csv_reader START_FIELD [] [] s"
  by (cases s) auto

lemma csv_reader_line:
  assumes "list_all plain_cell cells" and "2 \<le> length cells"
  shows "csv_reader START_RECORD [] [] (csv_line cells @ rest) = Inr cells # csv_reader START_RECORD [] [] rest"
proof -
  obtain a b cs where c: "cells = a # b # cs" using assms(2) by (cases cells; cases "tl cells") auto
  let ?text = "join '','' cells @ CHR 0x0A # rest"
  have "?text \<noteq> []" "\<not> is_newline (hd ?text)" using c assms(1) by (cases a; auto simp: plain_cell_def is_newline_def)+
  then have "csv_reader START_RECORD [] [] ?text = csv_reader START_FIELD [] [] ?text" by (rule csv_start_record)
  then show ?thesis using c csv_join [OF _ assms(1), of "[]" rest] by (simp add: csv_line_def)
qed

lemma csv_reader_lines:
  "list_all (\<lambda>cells. list_all plain_cell cells \<and> 2 \<le> length cells) rows \<Longrightarrow>
   csv_reader START_RECORD [] [] (concat (map csv_line rows)) = map Inr rows"
  by (induction rows) (auto simp: csv_reader_line)

lemma csv_rows_cong:
  "list_all2 (\<lambda>c c'. c \<noteq> [] \<and> c' \<noteq> [] \<and> f c = g c') cs cs' \<Longrightarrow> csv_rows f (map Inr cs) = csv_rows g (map Inr cs')"
  by (induction rule: list_all2_induct) (auto split: sum.splits)

lemma csv_table_cells:
  assumes "distinct header" and "set header = set (csv_required k)"
  shows "csv_table (map Inr (header # map (\<lambda>cell. map cell header) rows)) defaults k =
    csv_table (map Inr (csv_required k # map (\<lambda>cell. map cell (csv_required k)) rows)) defaults k"
proof -
  have st: "map strip header = header" "map strip (csv_required k) = csv_required k"
    using strip_csv_required assms(2) by (auto intro: map_idI)
  have ne': "csv_required k \<noteq> []" by (simp add: csv_required_def)
  then have ne: "header \<noteq> []" "csv_required k \<noteq> []" using assms(2) by (metis set_empty, blast)
  have "csv_rows (csv_row request header k) (map Inr (map (\<lambda>cell. map cell header) rows)) =
      csv_rows (csv_row request (csv_required k) k) (map Inr (map (\<lambda>cell. map cell (csv_required k)) rows))" for request
    using csv_row_cells [OF assms distinct_csv_required refl] ne
    by (intro csv_rows_cong) (simp add: list_all2_conv_all_nth)
  then show ?thesis
    using assms distinct_csv_required st by (simp add: csv_table_def Let_def split: option.split jval.split)
qed

text \<open>
  The order of the columns does not matter: a CSV text whose header is any arrangement of the
  required columns gives the records of the same table written in the canonical order, in
  particular \<open>idx_10\<close> is the eleventh token wherever its column stands.
\<close>

theorem csv_columns_any_order:
  assumes "distinct header" and "set header = set (csv_required max_topk)"
    and "\<forall>cell\<in>set rows. \<forall>name\<in>set header. plain_cell (cell name)"
  shows "csv_records (concat (map csv_line (header # map (\<lambda>cell. map cell header) rows))) defaults max_topk =
    csv_records (concat (map csv_line (csv_required max_topk # map (\<lambda>cell. map cell (csv_required max_topk)) rows))) defaults max_topk"
proof -
  have plain: "plain_cell name" if "name \<in> set (csv_required max_topk)" for name
  proof -
    have "plain_cell (idx_name n)" for n
      using show_nat_digits [of n] by (auto simp: idx_name_def plain_cell_def list_all_iff is_newline_def is_digit_def)
    then show ?thesis using that by (auto simp: csv_required_def plain_cell_def is_newline_def)
  qed
  have len: "length header = length (csv_required max_topk)"
    using distinct_card [OF assms(1)] distinct_card [OF distinct_csv_required [of max_topk]] assms(2) by simp
  have two: "2 \<le> length (csv_required max_topk)" by (simp add: csv_required_def)
  have lines: "csv_reader START_RECORD [] [] (concat (map csv_line (h # map (\<lambda>cell. map cell h) rows))) =
      map Inr (h # map (\<lambda>cell. map cell h) rows)" if "set h = set (csv_required max_topk)" "2 \<le> length h" for h
  proof (rule csv_reader_lines)
    have "list_all plain_cell h" using plain that(1) by (simp add: list_all_iff)
    moreover have "list_all plain_cell (map cell h)" if "cell \<in> set rows" for cell
      using assms(2,3) that \<open>set h = set (csv_required max_topk)\<close> by (simp add: list_all_iff)
    ultimately show "list_all (\<lambda>cells. list_all plain_cell cells \<and> 2 \<le> length cells) (h # map (\<lambda>cell. map cell h) rows)"
      using that(2) by (simp add: list_all_iff [of _ "map _ _"] list_all_iff [of _ rows])
  qed
  have "csv_reader START_RECORD [] [] (concat (map csv_line (header # map (\<lambda>cell. map cell header) rows))) =
      map Inr (header # map (\<lambda>cell. map cell header) rows)"
    using assms(2) len two by (intro lines) simp_all
  moreover note lines [OF refl two]
  ultimately show ?thesis using csv_table_cells [OF assms(1,2)] by (simp only: csv_records_def)
qed

theorem csv_columns_any_order_witness:
  "csv_records (''idx_1,layer,step_idx,idx_0,step_seqlen'' @ [CHR 0x0A] @ ''4,3,0,5,7'' @ [CHR 0x0A]) [(''request_id'', JStr ''r'')] 2 =
   csv_records (''step_idx,layer,step_seqlen,idx_0,idx_1'' @ [CHR 0x0A] @ ''0,3,7,5,4'' @ [CHR 0x0A]) [(''request_id'', JStr ''r'')] 2"
proof -
  let ?header = "[''idx_1'', ''layer'', ''step_idx'', ''idx_0'', ''step_seqlen'']"
  let ?cell = "\<lambda>n. if n = ''idx_1'' then ''4'' else if n = ''layer'' then ''3'' else if n = ''step_idx'' then ''0''
    else if n = ''idx_0'' then ''5'' else ''7''"
  have req: "csv_required 2 = [''step_idx'', ''layer'', ''step_seqlen'', ''idx_0'', ''idx_1'']" by code_simp
  have "distinct ?header" "set ?header = set (csv_required 2)" by (simp, auto simp: req)
  moreover have "\<forall>cell\<in>set [?cell]. \<forall>name\<in>set ?header. plain_cell (cell name)"
    by (simp add: plain_cell_def is_newline_def)
  ultimately show ?thesis
    using csv_columns_any_order [of ?header 2 "[?cell]" "[(''request_id'', JStr ''r'')]"] by (simp add: req csv_line_def)
qed

end
