(* ===== verification/MqsimOracle.thy ===== *)
theory MqsimOracle
  imports HbmSim
begin

section \<open>Fixed-trajectory replay through the SSD simulator\<close>

text \<open>
  Model of \<open>scripts/mqsim_ppa_oracle.py\<close>: the validation of a candidate export, the shared baseline
  cache trajectory, the planning of one case for every strategy, the snapshot writes, the checks on
  the simulator's output and the attribution of NAND reads to layers. The simulator is a program of
  its own: its batch and transaction tables are arguments. The hashes (\<open>lru_digest\<close> and the contract
  of a record) and \<open>random.sample\<close> are parameters; times taken by the planner are not modelled.
\<close>

subsection \<open>Records of a candidate export\<close>

record 's placed_candidate = "'s candidate" +
  cd_device :: int

text \<open>
  \<open>or_applied_selected\<close> is \<open>None\<close> when the key is missing and \<open>Some None\<close> when its value is null.
\<close>

record 's oracle_row =
  or_step :: int
  or_layer :: int
  or_context_length :: int
  or_current :: int
  or_native :: "int list"
  or_candidates :: "'s py_float placed_candidate list"
  or_applied_selected :: "int list option option"
  or_applied_swaps :: "(int \<times> int) list option"
  or_applied_state :: "string option"

record layer_geometry =
  lg_base_bytes :: int
  lg_context_length :: int

record manifest =
  ma_complete :: bool
  ma_device_count :: int
  ma_slot_bytes :: int
  ma_segment_bytes :: int
  ma_snapshot_bytes :: int
  ma_layers :: "(int \<times> layer_geometry) list"
  ma_records :: int
  ma_checksum_ok :: bool

subsection \<open>validate_export\<close>

definition valid_native :: "'s oracle_row \<Rightarrow> bool" where
  "valid_native r \<longleftrightarrow>
     (let native = or_native r; ids = c_token ` set (or_candidates r) in
      int (length native) = min 2048 (or_context_length r) \<and> card (set native) = length native \<and>
      set native \<subseteq> ids \<and> card ids = length (or_candidates r))"

definition valid_scores :: "'s oracle_row \<Rightarrow> bool" where
  "valid_scores r \<longleftrightarrow>
     (let scored = filter (\<lambda>x. c_score x \<noteq> None) (or_candidates r) in
      int (length scored) = min 2400 (or_context_length r) \<and> list_all (\<lambda>x. is_finite (the (c_score x))) scored)"

definition valid_applied :: "'s oracle_row \<Rightarrow> bool" where
  "valid_applied r \<longleftrightarrow>
     (case or_applied_selected r of
        Some (Some applied) \<Rightarrow>
          length applied = length (or_native r) \<and> card (set applied) = length applied \<and>
          list_all (\<lambda>t. 0 \<le> t \<and> t < or_context_length r) applied
      | _ \<Rightarrow> True)"

definition valid_geometry :: "layer_geometry \<Rightarrow> 's oracle_row \<Rightarrow> bool" where
  "valid_geometry g r \<longleftrightarrow>
     1 \<le> or_context_length r \<and> or_current r = or_context_length r - 1 \<and> or_context_length r \<le> lg_context_length g"

definition valid_address :: "layer_geometry \<Rightarrow> int \<Rightarrow> 's placed_candidate \<Rightarrow> bool" where
  "valid_address g ctx x \<longleftrightarrow>
     0 \<le> c_token x \<and> c_token x < ctx \<and> cd_device x = 0 \<and> c_offset_bytes x = lg_base_bytes g + c_token x * SLOT"

definition check_row :: "manifest \<Rightarrow> 's oracle_row \<Rightarrow> unit result" where
  "check_row m r =
     (case map_of (rev (ma_layers m)) (or_layer r) of
        None \<Rightarrow> Inl KeyError
      | Some g \<Rightarrow>
          if valid_native r \<and> valid_scores r \<and> valid_applied r \<and> valid_geometry g r \<and>
             list_all (valid_address g (or_context_length r)) (or_candidates r)
          then Inr () else Inl ValueError)"

fun check_rows :: "manifest \<Rightarrow> (int \<times> int) option \<Rightarrow> 's oracle_row list \<Rightarrow> unit result" where
  "check_rows m previous [] = Inr ()"
| "check_rows m previous (r # rs) =
     (let key = (or_step r, or_layer r) in
      if (case previous of None \<Rightarrow> False | Some p \<Rightarrow> key \<le> p) then Inl ValueError
      else case check_row m r of Inl e \<Rightarrow> Inl e | Inr _ \<Rightarrow> check_rows m (Some key) rs)"

definition validate_export :: "manifest \<Rightarrow> 's oracle_row list \<Rightarrow> unit result" where
  "validate_export m rows =
     (if \<not> ma_complete m \<or> ma_device_count m \<noteq> 1 \<or> ma_slot_bytes m \<noteq> SLOT then Inl ValueError
      else if \<not> ma_checksum_ok m then Inl ValueError
      else if ma_segment_bytes m mod PAGE \<noteq> 0 \<or> 65535 < ma_segment_bytes m div 512 then Inl ValueError
      else if ma_segment_bytes m = 0 then Inl ZeroDivisionError
      else if ma_snapshot_bytes m mod ma_segment_bytes m \<noteq> 0 then Inl ValueError
      else case check_rows m None rows of Inl e \<Rightarrow> Inl e
      | Inr _ \<Rightarrow> if int (length rows) \<noteq> ma_records m \<or> rows = [] then Inl ValueError else Inr ())"

subsection \<open>baseline_states\<close>

text \<open>The state before a record and the caches after it; a capacity of zero disables the cache.\<close>

definition baseline_step ::
  "int \<Rightarrow> (int \<times> batch_lru) list \<Rightarrow> 's oracle_row \<Rightarrow> (int list \<times> (int \<times> batch_lru) list) result option" where
  "baseline_step capacity caches row =
     (let cache = dict_get caches (or_layer row) (BatchLRU capacity);
          state = lru_rows cache
      in if capacity = 0 then Some (Inr (state, dict_set (or_layer row) cache caches))
         else pbind (commit_to (set (or_native row)) cache) (\<lambda>cache'.
                Some (Inr (state, dict_set (or_layer row) cache' caches))))"

subsection \<open>Planning one record\<close>

datatype strategy_name = Baseline | PpaAware | RandomMatched | Applied

record 's sel_meta =
  m_batch :: int
  m_step :: int
  m_layer :: int
  m_capacity :: int
  m_selected :: int
  m_cache_hits :: int
  m_fresh_hits :: int
  m_requests :: int
  m_state :: string
  m_contract :: string
  m_warmup :: bool
  m_replacements :: int
  m_score_loss :: 's
  m_objective_before :: int
  m_objective_after :: int
  m_unique_pages :: int
  m_peak_channel :: int
  m_peak_die :: int
  m_peak_plane :: int
  m_selected_indices :: "int list"
  m_miss_indices :: "int list"
  m_offsets :: "int list"

type_synonym contract = "int \<times> int \<times> string \<times> int list \<times> int list \<times> int \<times> int"

record oracle_args =
  oa_capacity :: int
  oa_strategy :: strategy_name
  oa_budget :: int
  oa_protect_top :: int
  oa_seed :: int
  oa_warmup_steps :: int

text \<open>Scores of validated records are finite.\<close>

definition finite_candidates :: "'s oracle_row \<Rightarrow> 's candidate list" where
  "finite_candidates r =
     map (\<lambda>x. \<lparr>c_token = c_token x, c_score = Option.bind (c_score x) float_value, c_offset_bytes = c_offset_bytes x\<rparr>)
       (or_candidates r)"

text \<open>\<open>sample (seed, index, budget) second xs n\<close> is the first or second \<open>rng.sample(xs, n)\<close>.\<close>

type_synonym sampler = "int \<times> int \<times> int \<Rightarrow> bool \<Rightarrow> int list \<Rightarrow> nat \<Rightarrow> int list result"

definition random_matched ::
  "sampler \<Rightarrow> oracle_args \<Rightarrow> int \<Rightarrow> ('s :: {linorder, uminus}) oracle_row \<Rightarrow> int set \<Rightarrow> nat \<Rightarrow> (int set \<times> (int \<times> int) list) result" where
  "random_matched sample a index row resident n =
     (let native = set (or_native row);
          ranked = map fst (scored_candidates (finite_candidates row));
          protected = set (py_slice ranked 0 (oa_protect_top a)) \<union> resident;
          eligible = sorted_list_of_set (native \<inter> set ranked - protected);
          extra = sorted_list_of_set (set ranked - native - resident);
          key = (oa_seed a, index, oa_budget a)
      in case sample key False eligible n of Inl e \<Rightarrow> Inl e | Inr old \<Rightarrow>
         case sample key True extra n of Inl e \<Rightarrow> Inl e | Inr new \<Rightarrow>
         Inr ((native - set old) \<union> set new, zip old new))"

definition applied_choice ::
  "'s oracle_row \<Rightarrow> string \<Rightarrow> (int \<Rightarrow> page_row option) \<Rightarrow> int set \<Rightarrow> (int set \<times> (int \<times> int) list \<times> int) result" where
  "applied_choice row digest info native_misses =
     (case or_applied_selected row of None \<Rightarrow> Inl ValueError
      | Some sel \<Rightarrow>
     (case or_applied_state row of None \<Rightarrow> Inl KeyError
      | Some st \<Rightarrow>
          if st \<noteq> digest then Inl ValueError
          else case sel of None \<Rightarrow> Inl TypeError
          | Some selected \<Rightarrow>
     (case or_applied_swaps row of None \<Rightarrow> Inl KeyError
      | Some swaps \<Rightarrow>
     (case pressure (sorted_list_of_set native_misses) info of Inl e \<Rightarrow> Inl e
      | Inr loads \<Rightarrow> Inr (set selected, swaps, objective loads)))))"

definition choice ::
  "sampler \<Rightarrow> oracle_args \<Rightarrow> dense_mapping \<Rightarrow> int \<Rightarrow> ('s :: {linorder, uminus, minus}) oracle_row \<Rightarrow> int set \<Rightarrow> string \<Rightarrow>
   (int \<Rightarrow> page_row option) \<Rightarrow> (int set \<times> (int \<times> int) list \<times> int) result" where
  "choice sample a mapping index row cached digest info =
     (let native = set (or_native row); resident = insert (or_current row) cached in
      if oa_strategy a = Applied then applied_choice row digest info (native - resident)
      else case select (or_native row) (finite_candidates row) mapping (or_current row) (oa_budget a) (oa_protect_top a) cached of
        Inl e \<Rightarrow> Inl e
      | Inr (selected, swaps, before, _) \<Rightarrow>
          (case oa_strategy a of
             Baseline \<Rightarrow> Inr (native, [], before)
           | RandomMatched \<Rightarrow>
               (case random_matched sample a index row resident (length swaps) of
                  Inl e \<Rightarrow> Inl e | Inr (selected', swaps') \<Rightarrow> Inr (selected', swaps', before))
           | _ \<Rightarrow> Inr (selected, swaps, before)))"

text \<open>The loss of one exchange: a token without score makes the subtraction a \<open>TypeError\<close>.\<close>

definition swap_loss :: "('s :: minus) oracle_row \<Rightarrow> int \<times> int \<Rightarrow> 's result" where
  "swap_loss row p =
     (let scores = map_of (rev (map (\<lambda>c. (c_token c, c_score c)) (finite_candidates row))) in
      case scores (fst p) of None \<Rightarrow> Inl KeyError | Some x \<Rightarrow>
      case scores (snd p) of None \<Rightarrow> Inl KeyError | Some y \<Rightarrow>
      (case (x, y) of (Some u, Some v) \<Rightarrow> Inr (u - v) | _ \<Rightarrow> Inl TypeError))"

definition peak :: "counter \<Rightarrow> nat \<Rightarrow> int" where
  "peak loads n = (let vs = map snd (filter (\<lambda>(k, v). length k = n) loads) in if vs = [] then 0 else Max (set vs))"

definition choice_ok :: "int set \<Rightarrow> int set \<Rightarrow> int set \<Rightarrow> (int \<times> int) list \<Rightarrow> bool" where
  "choice_ok native resident selected swaps \<longleftrightarrow>
     card selected = card native \<and> selected \<inter> resident = native \<inter> resident \<and>
     card (selected - resident) = card (native - resident) \<and>
     list_all (\<lambda>(old, new). old \<in> native - resident \<and> new \<notin> resident \<and> new \<notin> native) swaps"

definition plan_record ::
  "sampler \<Rightarrow> (int list \<Rightarrow> string) \<Rightarrow> (contract \<Rightarrow> string) \<Rightarrow> oracle_args \<Rightarrow> dense_mapping \<Rightarrow> int \<Rightarrow>
   ('s :: {linorder, uminus, minus, plus, zero}) oracle_row \<Rightarrow> int list \<Rightarrow> 's sel_meta result" where
  "plan_record sample lru_digest seal a mapping index row state =
     (let cached = set state; digest = lru_digest state;
          native = set (or_native row); resident = insert (or_current row) cached; native_misses = native - resident in
      case info_of (finite_candidates row) mapping Map.empty of Inl e \<Rightarrow> Inl e | Inr info \<Rightarrow>
      case choice sample a mapping index row cached digest info of Inl e \<Rightarrow> Inl e | Inr (selected, swaps, before) \<Rightarrow>
      if \<not> choice_ok native resident selected swaps then Inl ValueError else
      let emitted = sorted_list_of_set (selected - resident);
          hits = int (card (native \<inter> cached));
          fresh = (if or_current row \<in> native \<and> or_current row \<notin> cached then 1 else 0) in
      case pressure emitted info of Inl e \<Rightarrow> Inl e | Inr loads \<Rightarrow>
      case map_result (swap_loss row) swaps of Inl e \<Rightarrow> Inl e | Inr losses \<Rightarrow>
      Inr \<lparr>m_batch = index, m_step = or_step row, m_layer = or_layer row, m_capacity = oa_capacity a,
           m_selected = int (card selected), m_cache_hits = hits, m_fresh_hits = fresh,
           m_requests = int (length emitted), m_state = digest,
           m_contract = seal (or_step row, or_layer row, digest, sorted_list_of_set native,
                              sorted_list_of_set native_misses, hits, fresh),
           m_warmup = (or_step row < oa_warmup_steps a), m_replacements = int (length swaps),
           m_score_loss = foldl (+) 0 losses, m_objective_before = before, m_objective_after = objective loads,
           m_unique_pages = int (card ((\<lambda>t. pr_ppa (the (info t))) ` set emitted)),
           m_peak_channel = peak loads 1, m_peak_die = peak loads 3, m_peak_plane = peak loads 4,
           m_selected_indices = sorted_list_of_set selected, m_miss_indices = emitted,
           m_offsets = map (\<lambda>t. the (map_of (rev (map (\<lambda>c. (c_token c, c_offset_bytes c)) (finite_candidates row))) t)) emitted\<rparr>)"

fun selections_loop ::
  "sampler \<Rightarrow> (int list \<Rightarrow> string) \<Rightarrow> (contract \<Rightarrow> string) \<Rightarrow> oracle_args \<Rightarrow> dense_mapping \<Rightarrow> int \<Rightarrow>
   (int \<times> batch_lru) list \<Rightarrow> ('s :: {linorder, uminus, minus, plus, zero}) oracle_row list \<Rightarrow> 's sel_meta list result option" where
  "selections_loop sample lru_digest seal a mapping index caches [] = Some (Inr [])"
| "selections_loop sample lru_digest seal a mapping index caches (row # rows) =
     pbind (baseline_step (oa_capacity a) caches row) (\<lambda>(state, caches').
     pbind (Some (plan_record sample lru_digest seal a mapping index row state)) (\<lambda>m.
     pbind (selections_loop sample lru_digest seal a mapping (index + 1) caches' rows) (\<lambda>ms. Some (Inr (m # ms)))))"

definition selections_with_baseline ::
  "sampler \<Rightarrow> (int list \<Rightarrow> string) \<Rightarrow> (contract \<Rightarrow> string) \<Rightarrow> oracle_args \<Rightarrow> dense_mapping \<Rightarrow>
   ('s :: {linorder, uminus, minus, plus, zero}) oracle_row list \<Rightarrow> 's sel_meta list result option" where
  "selections_with_baseline sample lru_digest seal a mapping rows = selections_loop sample lru_digest seal a mapping 1 [] rows"

subsection \<open>Snapshot writes\<close>

text \<open>One line of the input trace: time, batch, sector, number of sectors, and 0 for a write.\<close>

type_synonym trace_request = "int \<times> int \<times> int \<times> int \<times> int"

definition write_snapshot :: "int \<Rightarrow> int \<Rightarrow> trace_request list" where
  "write_snapshot snapshot_bytes segment =
     map (\<lambda>offset. (0, 0, offset div 512, segment div 512, 0)) (py_range 0 snapshot_bytes segment)"

definition read_requests :: "'s sel_meta \<Rightarrow> trace_request list" where
  "read_requests m = map (\<lambda>offset. (0, m_batch m, offset div 512, 8, 1)) (m_offsets m)"

subsection \<open>Checks on the output of the simulator\<close>

record batch_row =
  br_batch :: int
  br_requests :: int
  br_begin_ns :: int
  br_end_ns :: int
  br_elapsed_ns :: int

record nand_row =
  nr_source :: int
  nr_type :: int
  nr_bytes :: int
  nr_issue_ns :: int
  nr_end_ns :: int
  nr_execution_ns :: int
  nr_transfer_ns :: int
  nr_position :: page_row

definition check_run :: "int \<Rightarrow> int \<Rightarrow> batch_row list \<Rightarrow> nand_row list \<Rightarrow> unit result" where
  "check_run snapshot_bytes segment batches nand =
     (if batches = [] \<or> br_batch (hd batches) \<noteq> 0 \<or> br_requests (hd batches) \<noteq> snapshot_bytes div segment then Inl ValueError
      else if \<not> list_all (\<lambda>r. nr_source r = 0 \<and> (nr_type r = 0 \<or> nr_type r = 1)) nand then Inl ValueError
      else if sum_list (map (\<lambda>r. if nr_type r = 1 then nr_bytes r else 0) nand) \<noteq> snapshot_bytes then Inl ValueError
      else Inr ())"

definition read_nand :: "nand_row list \<Rightarrow> nand_row list" where
  "read_nand nand = filter (\<lambda>r. nr_type r = 0) nand"

subsection \<open>Layer times and attribution of NAND reads\<close>

record layer_time =
  lt_batch :: int
  lt_requests :: int
  lt_begin_ns :: int
  lt_end_ns :: int
  lt_elapsed_ns :: int
  lt_transactions :: int
  lt_payload_bytes :: int
  lt_residence_ns :: int
  lt_execution_ns :: int
  lt_transfer_ns :: int

definition batches_checked :: "'s sel_meta list \<Rightarrow> int \<Rightarrow> batch_row list \<Rightarrow> bool" where
  "batches_checked metas prep_requests batches \<longleftrightarrow>
     set (map br_batch (tl batches)) = set (map m_batch (filter (\<lambda>m. m_requests m \<noteq> 0) metas)) \<and>
     card (set (map br_batch (tl batches))) = length batches - 1 \<and>
     sum_list (map br_requests batches) = sum_list (map m_requests metas) + prep_requests"

fun layer_times :: "(int \<times> batch_row) list \<Rightarrow> int \<Rightarrow> 's sel_meta list \<Rightarrow> layer_time list result" where
  "layer_times active cursor [] = Inr []"
| "layer_times active cursor (m # ms) =
     (let mk = (\<lambda>b e l. \<lparr>lt_batch = m_batch m, lt_requests = m_requests m, lt_begin_ns = b, lt_end_ns = e, lt_elapsed_ns = l,
          lt_transactions = 0, lt_payload_bytes = 0, lt_residence_ns = 0, lt_execution_ns = 0, lt_transfer_ns = 0\<rparr>) in
      if m_requests m = 0
      then (case layer_times active cursor ms of Inl e \<Rightarrow> Inl e | Inr ts \<Rightarrow> Inr (mk cursor cursor 0 # ts))
      else (case map_of active (m_batch m) of None \<Rightarrow> Inl KeyError
        | Some b \<Rightarrow>
            if br_requests b \<noteq> m_requests m \<or> br_begin_ns b \<le> cursor then Inl ValueError
            else (case layer_times active (br_end_ns b) ms of Inl e \<Rightarrow> Inl e
              | Inr ts \<Rightarrow> Inr (mk (br_begin_ns b) (br_end_ns b) (br_elapsed_ns b) # ts))))"

text \<open>The \<open>while\<close> loop that moves on to the layer in which a transaction ends.\<close>

function advance :: "layer_time list \<Rightarrow> nat \<Rightarrow> int \<Rightarrow> nat" where
  "advance ts i end_ns = (if i < length ts \<and> lt_end_ns (ts ! i) < end_ns then advance ts (Suc i) end_ns else i)"
  by auto
termination by (relation "measure (\<lambda>(ts, i, end_ns). length ts - i)") auto

declare advance.simps [simp del]

definition charge :: "nand_row \<Rightarrow> layer_time \<Rightarrow> layer_time" where
  "charge tr t = t\<lparr>lt_transactions := lt_transactions t + 1, lt_payload_bytes := lt_payload_bytes t + nr_bytes tr,
     lt_residence_ns := lt_residence_ns t + (nr_end_ns tr - nr_issue_ns tr),
     lt_execution_ns := lt_execution_ns t + nr_execution_ns tr, lt_transfer_ns := lt_transfer_ns t + nr_transfer_ns tr\<rparr>"

fun attribute :: "dense_mapping \<Rightarrow> nand_row list \<Rightarrow> nat \<Rightarrow> layer_time list \<Rightarrow> layer_time list result" where
  "attribute mapping [] i ts = Inr ts"
| "attribute mapping (tr # trs) i ts =
     (let j = advance ts i (nr_end_ns tr) in
      if length ts \<le> j \<or> nr_issue_ns tr < lt_begin_ns (ts ! j) then Inl ValueError
      else case dense_getitem mapping (pr_lpa (nr_position tr)) of Inl e \<Rightarrow> Inl e
      | Inr want \<Rightarrow>
          if nr_position tr \<noteq> want\<lparr>pr_lpa := pr_lpa (nr_position tr)\<rparr> then Inl ValueError
          else attribute mapping trs j (ts[j := charge tr (ts ! j)]))"

definition reads_match :: "layer_time list \<Rightarrow> bool" where
  "reads_match ts \<longleftrightarrow> list_all (\<lambda>t. lt_transactions t = lt_requests t \<and> lt_payload_bytes t = lt_requests t * SLOT) ts"

text \<open>
  The part of a case after the simulation. A layer without requests keeps its zero counters, so the
  final comparison holds for it, and only the layers with requests are charged.
\<close>

definition finish_case ::
  "dense_mapping \<Rightarrow> 's sel_meta list \<Rightarrow> int \<Rightarrow> batch_row list \<Rightarrow> nand_row list \<Rightarrow> layer_time list result" where
  "finish_case mapping metas prep_requests batches nand =
     (if \<not> batches_checked metas prep_requests batches then Inl ValueError else
      case layer_times (map (\<lambda>b. (br_batch b, b)) (rev (tl batches))) (br_end_ns (hd batches)) metas of Inl e \<Rightarrow> Inl e
      | Inr ts \<Rightarrow>
      (case attribute mapping (read_nand nand) 0 (filter (\<lambda>t. lt_requests t \<noteq> 0) ts) of Inl e \<Rightarrow> Inl e
       | Inr charged \<Rightarrow> if \<not> reads_match charged then Inl ValueError else Inr charged))"


subsection \<open>Every strategy reads the same volume\<close>

definition covered :: "dense_mapping \<Rightarrow> 's oracle_row \<Rightarrow> bool" where
  "covered mapping r \<longleftrightarrow> (\<forall>x\<in>set (or_candidates r). 0 \<le> c_offset_bytes x div PAGE \<and> c_offset_bytes x div PAGE < dense_len mapping)"

definition sampler_ok :: "sampler \<Rightarrow> bool" where
  "sampler_ok sample \<longleftrightarrow> (\<forall>key b xs n. distinct xs \<longrightarrow> n \<le> length xs \<longrightarrow>
     (\<exists>ys. sample key b xs n = Inr ys \<and> length ys = n \<and> distinct ys \<and> set ys \<subseteq> set xs))"

definition volume :: "'s sel_meta \<Rightarrow> int \<times> int \<times> int \<times> int \<times> int \<times> int \<times> int \<times> string" where
  "volume m = (m_batch m, m_step m, m_layer m, m_selected m, m_cache_hits m, m_fresh_hits m, m_requests m, m_contract m)"

text \<open>An exchange of scored, not resident native tokens for scored extra tokens.\<close>

definition exchange_of :: "int set \<Rightarrow> int set \<Rightarrow> int set \<Rightarrow> int set \<Rightarrow> (int \<times> int) list \<Rightarrow> bool" where
  "exchange_of scored native resident selected swaps \<longleftrightarrow>
     selected = (native - fst ` set swaps) \<union> snd ` set swaps \<and>
     fst ` set swaps \<subseteq> native \<inter> scored - resident \<and> snd ` set swaps \<subseteq> scored - native - resident \<and>
     distinct (map fst swaps) \<and> distinct (map snd swaps)"

lemma exchange_choice_ok:
  assumes "exchange_of scored native resident selected swaps" and "finite native"
  shows "choice_ok native resident selected swaps" and "card (selected - resident) = card (native - resident)"
    and "card selected = card native" and "finite selected"
proof -
  let ?A = "fst ` set swaps" and ?B = "snd ` set swaps"
  have sel: "selected = (native - ?A) \<union> ?B" and A: "?A \<subseteq> native" "?A \<inter> resident = {}" and B: "?B \<inter> native = {}" "?B \<inter> resident = {}"
    and d: "distinct (map fst swaps)" "distinct (map snd swaps)"
    using assms(1) by (auto simp: exchange_of_def)
  have len: "card ?A = length swaps" "card ?B = length swaps" using distinct_card [OF d(1)] distinct_card [OF d(2)] by simp_all
  have swap: "card ((X - ?A) \<union> ?B) = card X" if "finite X" "?A \<subseteq> X" "?B \<inter> X = {}" for X
  proof -
    have "card ((X - ?A) \<union> ?B) = card (X - ?A) + card ?B" using that by (intro card_Un_disjoint) auto
    then show ?thesis using that len card_Diff_subset [of ?A X] card_mono [of X ?A] by simp
  qed
  show c: "card selected = card native" unfolding sel using assms(2) A(1) B(1) by (rule swap)
  have "selected - resident = (native - resident - ?A) \<union> ?B" using sel A(2) B(2) by blast
  moreover have "?A \<subseteq> native - resident" "?B \<inter> (native - resident) = {}" using A B(1) by blast+
  ultimately show m: "card (selected - resident) = card (native - resident)"
    using swap [of "native - resident"] assms(2) by simp
  have "selected \<inter> resident = native \<inter> resident" using sel A(2) B(2) by blast
  moreover have "list_all (\<lambda>(old, new). old \<in> native - resident \<and> new \<notin> resident \<and> new \<notin> native) swaps"
    using A B by (force simp: list_all_iff)
  ultimately show "choice_ok native resident selected swaps" using c m by (simp add: choice_ok_def)
  show "finite selected" using sel assms(2) by simp
qed

lemma finite_candidates_tokens [simp]:
  "c_token ` set (finite_candidates r) = c_token ` set (or_candidates r)"
  "map c_token (finite_candidates r) = map c_token (or_candidates r)"
  by (auto simp: finite_candidates_def comp_def image_image)

lemma distinct_tokens: "valid_native r \<Longrightarrow> distinct (map c_token (or_candidates r))"
  by (simp add: valid_native_def Let_def card_distinct)

lemma distinct_scored:
  assumes "distinct (map c_token cs)"
  shows "distinct (map fst (scored_candidates cs))"
proof -
  let ?f = "\<lambda>r. case c_score r of None \<Rightarrow> [] | Some s \<Rightarrow> [(c_token r, s)]"
  have "distinct (map fst (concat (map ?f cs))) \<and> set (map fst (concat (map ?f cs))) \<subseteq> c_token ` set cs"
    using assms by (induction cs) (auto split: option.splits)
  moreover have "mset (map fst (scored_candidates cs)) = mset (map fst (concat (map ?f cs)))"
    by (simp add: scored_candidates_def)
  ultimately show ?thesis using mset_eq_imp_distinct_iff by blast
qed

lemma swap_loss_scored:
  assumes "distinct (map c_token (or_candidates r))"
    and "{fst p, snd p} \<subseteq> fst ` set (scored_candidates (finite_candidates r))"
  shows "\<exists>x. swap_loss r p = Inr x"
proof -
  let ?cs = "finite_candidates r"
  have d: "distinct (map fst (rev (map (\<lambda>c. (c_token c, c_score c)) ?cs)))"
    using assms(1) by (simp add: comp_def flip: rev_map)
  have found: "\<exists>s. map_of (rev (map (\<lambda>c. (c_token c, c_score c)) ?cs)) t = Some (Some s)" if "t \<in> fst ` set (scored_candidates ?cs)" for t
  proof -
    from that obtain c s where "c \<in> set ?cs" "c_token c = t" "c_score c = Some s"
      by (fastforce simp: scored_candidates_def split: option.splits)
    then have "(t, Some s) \<in> set (rev (map (\<lambda>c. (c_token c, c_score c)) ?cs))" by force
    then show ?thesis using map_of_is_SomeI [OF d] by blast
  qed
  obtain u where u: "map_of (rev (map (\<lambda>c. (c_token c, c_score c)) ?cs)) (fst p) = Some (Some u)"
    using found [of "fst p"] assms(2) by auto
  obtain v where "map_of (rev (map (\<lambda>c. (c_token c, c_score c)) ?cs)) (snd p) = Some (Some v)"
    using found [of "snd p"] assms(2) by auto
  then show ?thesis using u by (simp add: swap_loss_def)
qed

lemma eligible_covers_removable:
  assumes "distinct (map fst scored)" and "rank_of scored t = Some r" and "p \<le> int r" and "0 \<le> p"
  shows "t \<in> set (map fst scored)" and "t \<notin> set (py_slice (map fst scored) 0 p)"
proof -
  let ?ids = "map fst scored"
  from assms(2) have "(t, r) \<in> set (zip ?ids [0..<length scored])" by (auto simp: rank_of_def dest!: map_of_SomeD)
  then have r: "r < length ?ids" "?ids ! r = t" by (auto simp: set_zip)
  then show "t \<in> set ?ids" by (metis nth_mem)
  have "py_slice ?ids 0 p = take (nat p) ?ids" using assms(4) by (simp add: py_slice_def py_clamp_def min_def)
  moreover have "t \<notin> set (take (nat p) ?ids)"
  proof
    assume "t \<in> set (take (nat p) ?ids)"
    then obtain i where "i < nat p" "i < length ?ids" "?ids ! i = t" by (auto simp: in_set_conv_nth)
    then have "i = r" using r nth_eq_iff_index_eq [OF assms(1), of i r] by simp
    then show False using \<open>i < nat p\<close> assms(3) by linarith
  qed
  ultimately show "t \<notin> set (py_slice ?ids 0 p)" by simp
qed


lemma select_exchange:
  assumes "select native rows mapping current budget protect_top cached = Inr (selected, xs, before, after)"
  shows "exchange_of (fst ` set (scored_candidates rows)) (set native) (insert current cached) selected xs"
    and "fst ` set xs \<subseteq> removable_tokens native (insert current cached) rows protect_top"
proof -
  have *: "selected = (set native - fst ` set xs) \<union> snd ` set xs"
    "fst ` set xs \<subseteq> removable_tokens native (insert current cached) rows protect_top"
    "snd ` set xs \<subseteq> fst ` set (scored_candidates rows) - set native - insert current cached"
    "distinct (map fst xs)" "distinct (map snd xs)"
    using select_spec [where native = native and rows = rows and mapping = mapping and current = current and budget = budget
      and protect_top = protect_top and cached = cached] assms by auto
  show "fst ` set xs \<subseteq> removable_tokens native (insert current cached) rows protect_top" by (rule *(2))
  have "removable_tokens native (insert current cached) rows protect_top \<subseteq>
      set native \<inter> fst ` set (scored_candidates rows) - insert current cached"
    using rank_of_dom by (fastforce simp: removable_tokens_def split: option.splits)
  then show "exchange_of (fst ` set (scored_candidates rows)) (set native) (insert current cached) selected xs"
    using * by (simp add: exchange_of_def)
qed

lemma random_exchange:
  fixes row :: "('s :: {linorder, uminus}) oracle_row"
  assumes "valid_native row" and "sampler_ok sample" and "0 \<le> oa_protect_top a"
    and "exchange_of (fst ` set (scored_candidates (finite_candidates row))) (set (or_native row)) resident selected xs"
    and "fst ` set xs \<subseteq> removable_tokens (or_native row) resident (finite_candidates row) (oa_protect_top a)"
  shows "\<exists>selected' swaps. random_matched sample a index row resident (length xs) = Inr (selected', swaps) \<and>
    exchange_of (fst ` set (scored_candidates (finite_candidates row))) (set (or_native row)) resident selected' swaps"
proof -
  let ?scored = "scored_candidates (finite_candidates row)"
  let ?ranked = "map fst ?scored" and ?native = "set (or_native row)" and ?key = "(oa_seed a, index, oa_budget a)"
  let ?E = "?native \<inter> set ?ranked - (set (py_slice ?ranked 0 (oa_protect_top a)) \<union> resident)"
  let ?X = "set ?ranked - ?native - resident"
  have d: "distinct ?ranked" using distinct_scored [of "finite_candidates row"] distinct_tokens [OF assms(1)] by simp
  have "removable_tokens (or_native row) resident (finite_candidates row) (oa_protect_top a) \<subseteq> ?E"
    using eligible_covers_removable [OF d _ _ assms(3)] by (force simp: removable_tokens_def split: option.splits)
  then have E: "fst ` set xs \<subseteq> ?E" using assms(5) by blast
  have X: "snd ` set xs \<subseteq> ?X" and dx: "distinct (map fst xs)" "distinct (map snd xs)"
    using assms(4) by (auto simp: exchange_of_def)
  have "length xs \<le> card ?E" "length xs \<le> card ?X"
    using card_mono [OF _ E] card_mono [OF _ X] distinct_card [OF dx(1)] distinct_card [OF dx(2)] by simp_all
  then obtain old new where old: "sample ?key False (sorted_list_of_set ?E) (length xs) = Inr old" "length old = length xs" "distinct old" "set old \<subseteq> ?E"
    and new: "sample ?key True (sorted_list_of_set ?X) (length xs) = Inr new" "length new = length xs" "distinct new" "set new \<subseteq> ?X"
    using assms(2) unfolding sampler_ok_def by (metis (no_types, lifting) distinct_sorted_list_of_set finite_Diff finite_Int finite_set set_sorted_list_of_set length_sorted_list_of_set)
  have maps: "map fst (zip old new) = old" "map snd (zip old new) = new" using old(2) new(2) by simp_all
  then have sets: "fst ` set (zip old new) = set old" "snd ` set (zip old new) = set new" by (metis list.set_map)+
  have "random_matched sample a index row resident (length xs) = Inr ((?native - set old) \<union> set new, zip old new)"
    using old(1) new(1) by (simp add: random_matched_def Let_def)
  moreover have "exchange_of (set ?ranked) ?native resident ((?native - set old) \<union> set new) (zip old new)"
    unfolding exchange_of_def sets maps using old(3,4) new(3,4) by blast
  ultimately show ?thesis by simp
qed

lemma choice_exchange:
  fixes row :: "('s :: {linorder, uminus, minus}) oracle_row"
  assumes "valid_native row" and "covered mapping row" and "sampler_ok sample" and "0 \<le> oa_protect_top a" and "oa_strategy a \<noteq> Applied"
  shows "\<exists>selected swaps before. choice sample a mapping index row cached digest info = Inr (selected, swaps, before) \<and>
    exchange_of (fst ` set (scored_candidates (finite_candidates row))) (set (or_native row)) (insert (or_current row) cached) selected swaps"
proof -
  let ?sel = "select (or_native row) (finite_candidates row) mapping (or_current row) (oa_budget a) (oa_protect_top a) cached"
  have "\<exists>r. ?sel = Inr r"
  proof (cases ?sel)
    case (Inl e)
    then have "(\<exists>r\<in>set (finite_candidates row). c_offset_bytes r div PAGE < 0 \<or> dense_len mapping \<le> c_offset_bytes r div PAGE) \<or>
       (\<exists>t\<in>set (or_native row) - insert (or_current row) cached. t \<notin> c_token ` set (finite_candidates row))"
      using select_spec [where native = "or_native row" and rows = "finite_candidates row" and mapping = mapping and current = "or_current row"
        and budget = "oa_budget a" and protect_top = "oa_protect_top a" and cached = cached] by simp
    moreover have "set (or_native row) \<subseteq> c_token ` set (finite_candidates row)" using assms(1) by (simp add: valid_native_def Let_def)
    moreover have "\<forall>r\<in>set (finite_candidates row). 0 \<le> c_offset_bytes r div PAGE \<and> c_offset_bytes r div PAGE < dense_len mapping"
      using assms(2) by (simp add: covered_def finite_candidates_def)
    ultimately have False by (meson DiffD1 linorder_not_le subsetD)
    then show ?thesis ..
  qed blast
  then obtain selected xs before after where sel: "?sel = Inr (selected, xs, before, after)" by (metis prod.exhaust)
  note ex = select_exchange [OF sel]
  obtain selected' swaps where ran: "random_matched sample a index row (insert (or_current row) cached) (length xs) = Inr (selected', swaps)"
    "exchange_of (fst ` set (scored_candidates (finite_candidates row))) (set (or_native row)) (insert (or_current row) cached) selected' swaps"
    using random_exchange [OF assms(1,3,4) ex] by blast
  have none: "exchange_of S N R N []" for S N R by (simp add: exchange_of_def)
  show ?thesis
    using sel ex(1) ran none assms(5) by (cases "oa_strategy a") (simp_all add: choice_def Let_def)
qed

definition native_volume ::
  "(int list \<Rightarrow> string) \<Rightarrow> (contract \<Rightarrow> string) \<Rightarrow> int \<Rightarrow> 's oracle_row \<Rightarrow> int list \<Rightarrow>
   int \<times> int \<times> int \<times> int \<times> int \<times> int \<times> int \<times> string" where
  "native_volume lru_digest seal index row state =
     (let native = set (or_native row); cached = set state; misses = native - insert (or_current row) cached;
          hits = int (card (native \<inter> cached));
          fresh = (if or_current row \<in> native \<and> or_current row \<notin> cached then 1 else 0)
      in (index, or_step row, or_layer row, int (card native), hits, fresh, int (card misses),
          seal (or_step row, or_layer row, lru_digest state, sorted_list_of_set native, sorted_list_of_set misses, hits, fresh)))"

lemma plan_record_volume:
  fixes row :: "('s :: {linorder, uminus, minus, plus, zero}) oracle_row"
  assumes "valid_native row" and "covered mapping row" and "sampler_ok sample" and "0 \<le> oa_protect_top a" and "oa_strategy a \<noteq> Applied"
  shows "\<exists>m. plan_record sample lru_digest seal a mapping index row state = Inr m \<and> volume m = native_volume lru_digest seal index row state"
proof -
  let ?native = "set (or_native row)" and ?R = "insert (or_current row) (set state)"
  let ?S = "fst ` set (scored_candidates (finite_candidates row))"
  obtain info where info: "info_of (finite_candidates row) mapping Map.empty = Inr info"
  proof (cases "info_of (finite_candidates row) mapping Map.empty")
    case (Inl e)
    then show ?thesis using info_of_error [OF Inl] assms(2) by (auto simp: covered_def finite_candidates_def)
  qed (rule that)
  then have dom: "dom info = c_token ` set (or_candidates row)" using info_of_ok [OF info] by simp
  obtain selected swaps before where ch: "choice sample a mapping index row (set state) (lru_digest state) info = Inr (selected, swaps, before)"
    and ex: "exchange_of ?S ?native ?R selected swaps"
    using choice_exchange [OF assms] by blast
  note ok = exchange_choice_ok [OF ex finite_set]
  have "?S \<subseteq> dom info" using scored_tokens [of "finite_candidates row"] dom by simp
  moreover have "?native \<subseteq> dom info" using assms(1) dom by (simp add: valid_native_def Let_def)
  moreover have "selected \<subseteq> ?native \<union> ?S" using ex by (auto simp: exchange_of_def)
  ultimately have "\<forall>t\<in>selected - ?R. info t \<noteq> None" by blast
  then obtain loads where loads: "pressure (sorted_list_of_set (selected - ?R)) info = Inr loads"
    using pressure_returns [of "selected - ?R" info] ok(4) by blast
  have "\<forall>p\<in>set swaps. \<exists>x. swap_loss row p = Inr x"
  proof
    fix p assume p: "p \<in> set swaps"
    have "fst p \<in> ?S" "snd p \<in> ?S" using ex p unfolding exchange_of_def by blast+
    then show "\<exists>x. swap_loss row p = Inr x" by (intro swap_loss_scored distinct_tokens assms(1)) simp
  qed
  then obtain losses where losses: "map_result (swap_loss row) swaps = Inr losses"
    using map_result_total [of swaps "swap_loss row" "\<lambda>p. projr (swap_loss row p)"] by (metis sum.sel(2))
  show ?thesis
    using info ch ok loads losses by (simp add: plan_record_def volume_def native_volume_def Let_def)
qed


definition caches_ok :: "int \<Rightarrow> (int \<times> batch_lru) list \<Rightarrow> bool" where
  "caches_ok capacity caches \<longleftrightarrow> (\<forall>c\<in>ran (map_of caches). lru_inv c \<and> lru_capacity c = capacity)"

lemma caches_ok_set: "caches_ok capacity caches \<Longrightarrow> lru_inv c \<Longrightarrow> lru_capacity c = capacity \<Longrightarrow> caches_ok capacity (dict_set l c caches)"
  by (auto simp: caches_ok_def ran_def split: if_splits)

lemma baseline_step_ok:
  assumes "caches_ok capacity caches" and "capacity = 0 \<or> 2048 \<le> capacity" and "valid_native row"
  shows "\<exists>state caches'. baseline_step capacity caches row = Some (Inr (state, caches')) \<and> caches_ok capacity caches'"
proof -
  let ?c = "dict_get caches (or_layer row) (BatchLRU capacity)"
  have c: "lru_inv ?c" "lru_capacity ?c = capacity"
    using assms(1) by (auto simp: dict_get_def caches_ok_def ranI BatchLRU_def lru_inv_def split: option.splits)
  show ?thesis
  proof (cases "capacity = 0")
    case True
    then show ?thesis using c assms(1) by (simp add: baseline_step_def Let_def caches_ok_set)
  next
    case False
    have "int (card (set (or_native row))) \<le> capacity"
      using assms(2,3) False by (simp add: valid_native_def Let_def)
    then obtain c' where c': "BatchLRU_commit (set (or_native row)) ?c = Some (Inr (), c')"
      using commit_cases [of "set (or_native row)" ?c] c(2) by auto
    have "lru_inv c' \<and> lru_capacity c' = capacity"
      using commit_keeps_inv [OF c(1) _ c'] c(2) by simp
    then show ?thesis
      using False c' assms(1) by (simp add: baseline_step_def Let_def commit_to_def caches_ok_set)
  qed
qed

lemma selections_loop_volume:
  fixes rows :: "('s :: {linorder, uminus, minus, plus, zero}) oracle_row list"
  assumes "\<forall>r\<in>set rows. valid_native r \<and> covered mapping r" and "sampler_ok sample"
    and "caches_ok (oa_capacity a) caches" and "oa_capacity a = 0 \<or> 2048 \<le> oa_capacity a"
    and "0 \<le> oa_protect_top a" "oa_strategy a \<noteq> Applied" and "0 \<le> oa_protect_top b" "oa_strategy b \<noteq> Applied" and "oa_capacity b = oa_capacity a"
  shows "\<exists>ms bs. selections_loop sample lru_digest seal a mapping index caches rows = Some (Inr ms) \<and>
    selections_loop sample lru_digest seal b mapping index caches rows = Some (Inr bs) \<and> map volume ms = map volume bs \<and> length ms = length rows"
  using assms(1,3)
proof (induction rows arbitrary: caches index)
  case (Cons row rows)
  then have row: "valid_native row" "covered mapping row" by simp_all
  obtain state caches' where st: "baseline_step (oa_capacity a) caches row = Some (Inr (state, caches'))" "caches_ok (oa_capacity a) caches'"
    using baseline_step_ok [OF Cons.prems(2) assms(4) row(1)] by blast
  obtain m where m: "plan_record sample lru_digest seal a mapping index row state = Inr m" "volume m = native_volume lru_digest seal index row state"
    using plan_record_volume [OF row assms(2,5,6)] by blast
  obtain m' where m': "plan_record sample lru_digest seal b mapping index row state = Inr m'" "volume m' = native_volume lru_digest seal index row state"
    using plan_record_volume [OF row assms(2,7,8)] by blast
  obtain ms bs where rest: "selections_loop sample lru_digest seal a mapping (index + 1) caches' rows = Some (Inr ms)"
    "selections_loop sample lru_digest seal b mapping (index + 1) caches' rows = Some (Inr bs)" "map volume ms = map volume bs" "length ms = length rows"
    using Cons.IH [of caches' "index + 1"] Cons.prems(1) st(2) by auto
  show ?case using st m m' rest assms(9) by simp
qed simp

lemma check_rows_native: "check_rows m previous rows = Inr () \<Longrightarrow> r \<in> set rows \<Longrightarrow> valid_native r"
  by (induction rows arbitrary: previous) (auto simp: Let_def check_row_def split: if_splits sum.splits option.splits)

text \<open>
  C9. For an accepted export whose candidates lie in the mapped snapshot, planning a case never
  fails, whatever the strategy other than the replay of applied selections, and every record of it
  selects as many rows, hits the cache as often and reads as many rows as the baseline case, with
  the same contract: the comparisons between the cases that abort a run cannot fire. Assumed of
  \<open>random.sample\<close> is what its documentation says.
\<close>

theorem strategies_read_equal_volume:
  fixes rows :: "('s :: {linorder, uminus, minus, plus, zero}) oracle_row list"
  assumes "validate_export man rows = Inr ()" and "\<forall>r\<in>set rows. covered mapping r" and "sampler_ok sample"
    and "oa_capacity a = 0 \<or> 2048 \<le> oa_capacity a" and "0 \<le> oa_protect_top a" and "oa_strategy a \<noteq> Applied"
  shows "\<exists>ms bs. selections_with_baseline sample lru_digest seal a mapping rows = Some (Inr ms) \<and>
    selections_with_baseline sample lru_digest seal (a\<lparr>oa_strategy := Baseline, oa_budget := 0\<rparr>) mapping rows = Some (Inr bs) \<and>
    map volume ms = map volume bs \<and> length ms = length rows"
proof -
  have "check_rows man None rows = Inr ()" using assms(1) by (auto simp: validate_export_def split: if_splits sum.splits)
  then have "\<forall>r\<in>set rows. valid_native r \<and> covered mapping r" using check_rows_native assms(2) by blast
  moreover have "caches_ok (oa_capacity a) []" by (simp add: caches_ok_def)
  ultimately show ?thesis
    unfolding selections_with_baseline_def using assms by (intro selections_loop_volume) auto
qed

text \<open>One record of a context of three tokens on two pages; the current token is resident.\<close>

definition demo_manifest :: manifest where
  "demo_manifest = \<lparr>ma_complete = True, ma_device_count = 1, ma_slot_bytes = 4096, ma_segment_bytes = 16384,
     ma_snapshot_bytes = 32768, ma_layers = [(0, \<lparr>lg_base_bytes = 0, lg_context_length = 8\<rparr>)], ma_records = 1, ma_checksum_ok = True\<rparr>"

definition demo_row :: "int oracle_row" where
  "demo_row = \<lparr>or_step = 0, or_layer = 0, or_context_length = 3, or_current = 2, or_native = [0, 1, 2],
     or_candidates = map (\<lambda>t. \<lparr>c_token = t, c_score = Some (Finite t), c_offset_bytes = t * 4096, cd_device = 0\<rparr>) [0, 1, 2],
     or_applied_selected = None, or_applied_swaps = None, or_applied_state = None\<rparr>"

definition demo_oracle :: oracle_args where
  "demo_oracle = \<lparr>oa_capacity = 2048, oa_strategy = RandomMatched, oa_budget = 32, oa_protect_top = 0, oa_seed = 2026, oa_warmup_steps = 0\<rparr>"

definition first_sample :: sampler where
  "first_sample key second xs n = (if length xs < n then Inl ValueError else Inr (take n xs))"

theorem strategies_read_equal_volume_witness:
  "\<exists>ms bs. selections_with_baseline first_sample (\<lambda>s. []) (\<lambda>c. []) demo_oracle [0, 5, 0, 0, 0, 0, 0, 0] [demo_row] = Some (Inr ms) \<and>
    selections_with_baseline first_sample (\<lambda>s. []) (\<lambda>c. []) (demo_oracle\<lparr>oa_strategy := Baseline, oa_budget := 0\<rparr>)
      [0, 5, 0, 0, 0, 0, 0, 0] [demo_row] = Some (Inr bs) \<and> map volume ms = map volume bs \<and> length ms = length [demo_row]"
proof (rule strategies_read_equal_volume)
  show "validate_export demo_manifest [demo_row] = Inr ()" by code_simp
  show "\<forall>r\<in>set [demo_row]. covered [0, 5, 0, 0, 0, 0, 0, 0] r" by code_simp
  show "sampler_ok first_sample" by (auto simp: sampler_ok_def first_sample_def dest: in_set_takeD)
qed (simp_all add: demo_oracle_def)


subsection \<open>The snapshot is written exactly once\<close>

lemma write_snapshot_tiles:
  assumes "0 < segment" and "segment mod 512 = 0" and "snapshot mod segment = 0" and "0 \<le> snapshot" and "0 \<le> sector" and "sector < snapshot div 512"
  shows "\<exists>!i. i < length (write_snapshot snapshot segment) \<and>
    (case write_snapshot snapshot segment ! i of (_, _, start, n, _) \<Rightarrow> start \<le> sector \<and> sector < start + n)"
proof -
  obtain q where q: "segment = 512 * q" using assms(2) by auto
  then have q0: "0 < q" using assms(1) by simp
  obtain n where "snapshot = segment * n" using assms(3) by auto
  then have n: "snapshot = 512 * (q * n)" using q by simp
  have "0 \<le> n" using assms(4) n q0 by (simp add: zero_le_mult_iff)
  have len: "nat ((snapshot + segment - 1) div segment) = nat n"
  proof -
    have "(segment - 1 + segment * n) div segment = n + (segment - 1) div segment"
      using assms(1) by (intro div_mult_self2) simp
    also have "(segment - 1) div segment = 0" using assms(1) by simp
    finally have "(segment - 1 + segment * n) div segment = n" by simp
    moreover have "snapshot + segment - 1 = segment - 1 + segment * n" using n q by simp
    ultimately show ?thesis by metis
  qed
  have ws: "write_snapshot snapshot segment = map (\<lambda>i. (0, 0, int i * q, q, 0)) [0..<nat n]"
    using len q by (simp add: write_snapshot_def py_range_def comp_def)
  have "sector < q * n" using assms(6) n by simp
  moreover have "q * (sector div q) \<le> sector" using q0 by (simp add: minus_mod_eq_mult_div [symmetric])
  ultimately have "q * (sector div q) < q * n" by linarith
  then have i: "0 \<le> sector div q" "sector div q < n" using assms(5) q0 by (simp_all add: pos_imp_zdiv_nonneg_iff)
  have mem: "int k * q \<le> sector \<and> sector < int k * q + q \<longleftrightarrow> int k = sector div q" for k
  proof
    assume "int k * q \<le> sector \<and> sector < int k * q + q"
    then have "sector div q = int k" by (intro int_div_pos_eq [of _ _ _ "sector - int k * q"]) (auto simp: mult.commute)
    then show "int k = sector div q" by simp
  next
    assume "int k = sector div q"
    then show "int k * q \<le> sector \<and> sector < int k * q + q"
      using q0 pos_mod_bound [OF q0, of sector] pos_mod_sign [OF q0, of sector] div_mult_mod_eq [of sector q] by (simp, linarith)
  qed
  have one: "k < nat m \<and> int k = d \<longleftrightarrow> k = nat d" if "0 \<le> d" "d < m" for k m d using that by auto
  have A: "k < nat n \<and> int k * q \<le> sector \<and> sector < int k * q + q \<longleftrightarrow> k = nat (sector div q)" for k
    unfolding mem by (rule one [OF i])
  have B: "(case write_snapshot snapshot segment ! k of (_, _, start, n, _) \<Rightarrow> start \<le> sector \<and> sector < start + n) \<longleftrightarrow>
      int k * q \<le> sector \<and> sector < int k * q + q" if "k < nat n" for k using that by (simp add: ws)
  have C: "length (write_snapshot snapshot segment) = nat n" by (simp add: ws)
  have "k < length (write_snapshot snapshot segment) \<and>
    (case write_snapshot snapshot segment ! k of (_, _, start, n, _) \<Rightarrow> start \<le> sector \<and> sector < start + n) \<longleftrightarrow> k = nat (sector div q)" for k
    unfolding C A [of k, symmetric] using B [of k] by (rule conj_cong [OF refl])
  then show ?thesis by simp
qed

subsection \<open>Attribution of NAND reads\<close>

definition inside :: "layer_time \<Rightarrow> nand_row \<Rightarrow> bool" where
  "inside t r \<longleftrightarrow> lt_begin_ns t \<le> nr_issue_ns r \<and> nr_end_ns r \<le> lt_end_ns t"

text \<open>Consecutive intervals, each beginning after the previous one ended.\<close>

definition barriers :: "layer_time list \<Rightarrow> bool" where
  "barriers ts \<longleftrightarrow> (\<forall>i j. i < j \<longrightarrow> j < length ts \<longrightarrow> lt_end_ns (ts ! i) < lt_begin_ns (ts ! j))"

lemma advance_stops:
  "advance ts i e = j \<Longrightarrow> i \<le> j \<and> (j < length ts \<longrightarrow> e \<le> lt_end_ns (ts ! j))"
proof (induction ts i e rule: advance.induct)
  case (1 ts i e)
  then show ?case by (cases "i < length ts \<and> lt_end_ns (ts ! i) < e") (auto simp: advance.simps [of ts i e])
qed

lemma inside_unique:
  assumes "barriers ts" and "nr_issue_ns r \<le> nr_end_ns r" and "i < length ts" and "j < length ts"
    and "inside (ts ! i) r" and "inside (ts ! j) r"
  shows "i = j"
proof -
  have "\<not> i' < j'" if "i' < length ts" "j' < length ts" "inside (ts ! i') r" "inside (ts ! j') r" for i' j'
    using that assms(1,2) by (fastforce simp: barriers_def inside_def)
  then show ?thesis using assms(3-6) by (meson nat_neq_iff)
qed

definition same_layer :: "layer_time \<Rightarrow> layer_time \<Rightarrow> bool" where
  "same_layer t u \<longleftrightarrow> lt_batch t = lt_batch u \<and> lt_requests t = lt_requests u \<and> lt_begin_ns t = lt_begin_ns u \<and> lt_end_ns t = lt_end_ns u"

lemma same_layer_simps [simp]:
  "same_layer t t" "same_layer (charge r t) u = same_layer t u" "same_layer t (charge r u) = same_layer t u"
  "inside (charge r t) = inside t" "lt_begin_ns (charge r t) = lt_begin_ns t" "lt_end_ns (charge r t) = lt_end_ns t"
  by (simp_all add: same_layer_def charge_def inside_def fun_eq_iff)

lemma attribute_counts:
  assumes "attribute mapping rs i ts = Inr ts'" and "barriers ts" and "\<forall>r\<in>set rs. nr_issue_ns r \<le> nr_end_ns r"
  shows "list_all2 same_layer ts ts' \<and> (\<forall>r\<in>set rs. \<exists>j<length ts. inside (ts ! j) r) \<and>
    (\<forall>j<length ts. lt_transactions (ts' ! j) = lt_transactions (ts ! j) + int (length (filter (inside (ts ! j)) rs)) \<and>
       lt_payload_bytes (ts' ! j) = lt_payload_bytes (ts ! j) + sum_list (map nr_bytes (filter (inside (ts ! j)) rs)))"
  using assms
proof (induction rs arbitrary: i ts)
  case (Cons r rs)
  let ?j = "advance ts i (nr_end_ns r)"
  let ?ts = "ts[?j := charge r (ts ! ?j)]"
  from Cons.prems(1) have j: "?j < length ts" "lt_begin_ns (ts ! ?j) \<le> nr_issue_ns r" and rest: "attribute mapping rs ?j ?ts = Inr ts'"
    by (auto simp: Let_def split: if_splits sum.splits)
  have ins: "inside (ts ! ?j) r" using advance_stops [of ts i "nr_end_ns r" ?j] j by (simp add: inside_def)
  have only: "inside (ts ! k) r \<longleftrightarrow> k = ?j" if "k < length ts" for k
    using inside_unique [OF Cons.prems(2) _ that j(1)] Cons.prems(3) ins by auto
  have fields: "inside (?ts ! k) = inside (ts ! k)" "lt_begin_ns (?ts ! k) = lt_begin_ns (ts ! k)" "lt_end_ns (?ts ! k) = lt_end_ns (ts ! k)" if "k < length ts" for k
    using that j(1) by (auto simp: nth_list_update)
  have "barriers ?ts" using Cons.prems(2) fields by (simp add: barriers_def)
  then have IH: "list_all2 same_layer ?ts ts'" "\<forall>r\<in>set rs. \<exists>j<length ts. inside (?ts ! j) r"
    "\<And>k. k < length ts \<Longrightarrow> lt_transactions (ts' ! k) = lt_transactions (?ts ! k) + int (length (filter (inside (ts ! k)) rs)) \<and>
       lt_payload_bytes (ts' ! k) = lt_payload_bytes (?ts ! k) + sum_list (map nr_bytes (filter (inside (ts ! k)) rs))"
    using Cons.IH [OF rest] Cons.prems(3) fields by auto
  have "same_layer (ts ! k) (?ts ! k)" if "k < length ts" for k using that j(1) by (simp add: nth_list_update)
  then have "list_all2 same_layer ts ts'"
    using IH(1) by (auto simp: list_all2_conv_all_nth same_layer_def)
  moreover have "lt_transactions (ts' ! k) = lt_transactions (ts ! k) + int (length (filter (inside (ts ! k)) (r # rs))) \<and>
       lt_payload_bytes (ts' ! k) = lt_payload_bytes (ts ! k) + sum_list (map nr_bytes (filter (inside (ts ! k)) (r # rs)))" if "k < length ts" for k
    using IH(3) [OF that] only [OF that] that j(1) by (auto simp: nth_list_update charge_def)
  moreover have "\<forall>r\<in>set rs. \<exists>j<length ts. inside (ts ! j) r" using IH(2) fields(1) by metis
  ultimately show ?case using ins j(1) by auto
qed (simp add: list_all2_same)

lemma layer_times_ok:
  assumes "layer_times active cursor ms = Inr ts" and "\<forall>b\<in>ran (map_of active). br_begin_ns b \<le> br_end_ns b"
  shows "map lt_requests ts = map m_requests ms \<and> (\<forall>t\<in>set ts. lt_transactions t = 0 \<and> lt_payload_bytes t = 0) \<and>
    barriers (filter (\<lambda>t. lt_requests t \<noteq> 0) ts) \<and> (\<forall>t\<in>set ts. lt_requests t \<noteq> 0 \<longrightarrow> cursor < lt_begin_ns t \<and> lt_begin_ns t \<le> lt_end_ns t)"
  using assms
proof (induction ms arbitrary: cursor ts)
  case Nil
  then show ?case by (auto simp: barriers_def)
next
  case (Cons m ms)
  show ?case
  proof (cases "m_requests m = 0")
    case True
    with Cons.prems(1) obtain t ts2 where ts: "ts = t # ts2" "layer_times active cursor ms = Inr ts2"
      and t: "lt_requests t = 0" "lt_transactions t = 0" "lt_payload_bytes t = 0"
      by (auto simp: Let_def split: sum.splits)
    then show ?thesis using Cons.IH [OF ts(2) Cons.prems(2)] True by simp
  next
    case False
    with Cons.prems(1) obtain b t ts2 where b: "map_of active (m_batch m) = Some b" "cursor < br_begin_ns b"
      and ts: "ts = t # ts2" "layer_times active (br_end_ns b) ms = Inr ts2"
      and t: "lt_requests t = m_requests m" "lt_transactions t = 0" "lt_payload_bytes t = 0" "lt_begin_ns t = br_begin_ns b" "lt_end_ns t = br_end_ns b"
      by (auto simp: Let_def split: sum.splits if_splits option.splits)
    have be: "br_begin_ns b \<le> br_end_ns b" using b(1) Cons.prems(2) by (simp add: ranI)
    note IH = Cons.IH [OF ts(2) Cons.prems(2)]
    let ?f = "filter (\<lambda>t. lt_requests t \<noteq> 0) ts2"
    have "barriers (t # ?f)"
    proof -
      have "lt_end_ns t < lt_begin_ns (?f ! j)" if "j < length ?f" for j
        using IH nth_mem [OF that] t(5) by auto
      then show ?thesis using IH by (auto simp: barriers_def nth_Cons split: nat.splits)
    qed
    then show ?thesis using IH b be ts(1) t False by auto
  qed
qed



text \<open>One layer with one read of slot 0, answered by one NAND transaction inside its interval.\<close>

definition demo_meta :: "int sel_meta" where
  "demo_meta = \<lparr>m_batch = 1, m_step = 0, m_layer = 0, m_capacity = 0, m_selected = 1, m_cache_hits = 0, m_fresh_hits = 0,
     m_requests = 1, m_state = [], m_contract = [], m_warmup = False, m_replacements = 0, m_score_loss = 0,
     m_objective_before = 4, m_objective_after = 4, m_unique_pages = 1, m_peak_channel = 1, m_peak_die = 1, m_peak_plane = 1,
     m_selected_indices = [0], m_miss_indices = [0], m_offsets = [0]\<rparr>"

definition demo_batches :: "batch_row list" where
  "demo_batches = [\<lparr>br_batch = 0, br_requests = 2, br_begin_ns = 0, br_end_ns = 50, br_elapsed_ns = 50\<rparr>,
     \<lparr>br_batch = 1, br_requests = 1, br_begin_ns = 60, br_end_ns = 90, br_elapsed_ns = 30\<rparr>]"

definition demo_nand :: "nand_row list" where
  "demo_nand = [\<lparr>nr_source = 0, nr_type = 0, nr_bytes = 4096, nr_issue_ns = 61, nr_end_ns = 88, nr_execution_ns = 20,
     nr_transfer_ns = 5, nr_position = \<lparr>pr_lpa = 0, pr_ppa = 5, pr_channel = 0, pr_chip = 0, pr_die = 0, pr_plane = 0,
       pr_block = 0, pr_page = 0\<rparr>\<rparr>]"


end
