(* ===== verification/ExportPpa.thy ===== *)
theory ExportPpa
  imports MqsimOracle
begin

section \<open>Export of scored candidates\<close>

text \<open>
  Model of \<open>scripts/export_ppa_candidates.py\<close>: the choice of the layers, the two layouts of a
  snapshot (cumulative, or a declared stride per layer), the candidate records in step and layer
  order and the manifest. Reading a dump is a parameter; the digest of the file is not modelled.
\<close>

text \<open>The fields the online hook adds to a dump; a missing key is \<open>None\<close>.\<close>

record 's hook_dump = "'s raw_dump" +
  hd_stride_tokens :: "int option"
  hd_layer_rank :: "int option"
  hd_selected :: "int list option"
  hd_overridden :: "bool option"
  hd_cache_mode :: "string option"
  hd_swaps :: "(int \<times> int) list option"
  hd_cache_state :: "string option"

record export_args =
  xa_slot_bytes :: int
  xa_segment_bytes :: int
  xa_max_steps :: "int option"
  xa_expected_layers :: "int option"
  xa_layers :: "int list option"
  xa_declared_stride :: int

type_synonym 's chosen_layer = "int \<times> dump_files \<times> 's hook_dump"

subsection \<open>The layers\<close>

definition first_steps :: "export_args \<Rightarrow> dump_files \<Rightarrow> dump_files" where
  "first_steps a files = (case xa_max_steps a of None \<Rightarrow> files | Some n \<Rightarrow> take (nat n) files)"

definition choose_layer ::
  "(string \<Rightarrow> ('s :: {linorder, uminus}) hook_dump result) \<Rightarrow> export_args \<Rightarrow> string \<times> dump_files \<Rightarrow> 's chosen_layer list result" where
  "choose_layer load a item =
     (let files = snd item in
      case load (snd (hd files)) of Inl e \<Rightarrow> Inl e | Inr raw \<Rightarrow>
      case load_record (raw_dump.truncate raw) (fst (hd files)) of Inl e \<Rightarrow> Inl e | Inr d \<Rightarrow>
      case layer_number (du_layer d) of Inl e \<Rightarrow> Inl e | Inr layer \<Rightarrow>
      Inr (if (case xa_layers a of None \<Rightarrow> True | Some ls \<Rightarrow> layer \<in> set ls)
           then [(layer, first_steps a files, raw)] else []))"

definition choose_layers ::
  "(string \<Rightarrow> ('s :: {linorder, uminus}) hook_dump result) \<Rightarrow> export_args \<Rightarrow> dump_groups \<Rightarrow> 's chosen_layer list result" where
  "choose_layers load a groups =
     (case map_result (choose_layer load a) groups of Inl e \<Rightarrow> Inl e | Inr parts \<Rightarrow>
      let chosen = sort_key fst (concat parts) in
      if chosen = [] \<or> card (set (map fst chosen)) \<noteq> length chosen then Inl ValueError
      else if (case xa_layers a of None \<Rightarrow> False | Some ls \<Rightarrow> set ls \<noteq> set (map fst chosen)) then Inl ValueError
      else Inr chosen)"

definition export_stride :: "export_args \<Rightarrow> 's chosen_layer list \<Rightarrow> int result" where
  "export_stride a chosen =
     (let strides = set (concat (map (\<lambda>(_, _, raw). case hd_stride_tokens raw of None \<Rightarrow> [] | Some s \<Rightarrow> [s]) chosen)) in
      if 1 < card strides \<or> strides \<noteq> {} \<and> xa_declared_stride a \<noteq> 0 \<and> strides \<noteq> {xa_declared_stride a} then Inl ValueError
      else Inr (if strides = {} then xa_declared_stride a else the_elem strides))"

subsection \<open>The layout\<close>

record layout =
  ly_offset :: int
  ly_ranks :: "(int \<times> int) list"

definition place_layer :: "export_args \<Rightarrow> int \<Rightarrow> int \<Rightarrow> 's chosen_layer \<Rightarrow> layout \<Rightarrow> (int \<times> layout) result" where
  "place_layer a stride rank c ly =
     (case c of (layer, files, first_raw) \<Rightarrow>
      if stride \<noteq> 0
      then let layer_rank = (case hd_layer_rank first_raw of None \<Rightarrow> rank | Some r \<Rightarrow> r) in
           if layer_rank \<in> set (map snd (ly_ranks ly)) then Inl ValueError
           else Inr (layer_rank * stride * xa_slot_bytes a,
                     \<lparr>ly_offset = max (ly_offset ly) ((layer_rank + 1) * stride * xa_slot_bytes a),
                      ly_ranks = dict_set layer layer_rank (ly_ranks ly)\<rparr>)
      else Inr (ly_offset ly, ly\<lparr>ly_offset := ly_offset ly + fst (last files) * xa_slot_bytes a\<rparr>))"

subsection \<open>The records\<close>

definition candidate_row :: "int \<Rightarrow> int \<Rightarrow> int \<Rightarrow> int \<Rightarrow> int \<Rightarrow> 's dump \<Rightarrow> 's oracle_row" where
  "candidate_row slot_bytes base layer step seq d =
     \<lparr>or_step = step, or_layer = layer, or_context_length = seq, or_current = seq - 1,
      or_native = sorted_list_of_set (du_native d),
      or_candidates = map (\<lambda>t. \<lparr>c_token = t, c_score = map_option Finite (map_of (rev (du_scores d)) t),
                                c_offset_bytes = base + t * slot_bytes, cd_device = 0\<rparr>)
        (sorted_list_of_set (du_native d \<union> set (du_ranked d))),
      or_applied_selected = None, or_applied_swaps = None, or_applied_state = None\<rparr>"

definition add_applied :: "'s hook_dump \<Rightarrow> 's oracle_row \<Rightarrow> 's oracle_row result" where
  "add_applied raw row =
     (case hd_selected raw of None \<Rightarrow> Inr row
      | Some selected \<Rightarrow>
          if hd_overridden raw \<noteq> Some True then Inl ValueError
          else if length selected \<noteq> length (or_native row) \<or> hd_cache_mode raw \<noteq> Some ''shared'' then Inl ValueError
          else (case hd_swaps raw of None \<Rightarrow> Inl KeyError | Some swaps \<Rightarrow>
               (case hd_cache_state raw of None \<Rightarrow> Inl KeyError | Some st \<Rightarrow>
                Inr (row\<lparr>or_applied_selected := Some (Some selected), or_applied_swaps := Some swaps,
                         or_applied_state := Some st\<rparr>))))"

definition export_row ::
  "(string \<Rightarrow> ('s :: {linorder, uminus}) hook_dump result) \<Rightarrow> export_args \<Rightarrow> int \<Rightarrow> layout \<Rightarrow> bool \<Rightarrow> int \<Rightarrow> int \<Rightarrow> int \<Rightarrow>
   int \<times> string \<Rightarrow> 's oracle_row result" where
  "export_row load a stride ly record_driven layer base step file =
     (case file of (seq, path) \<Rightarrow>
      case load path of Inl e \<Rightarrow> Inl e | Inr raw \<Rightarrow>
      case load_record (raw_dump.truncate raw) seq of Inl e \<Rightarrow> Inl e | Inr d \<Rightarrow>
      if layer_number (du_layer d) \<noteq> Inr layer then Inl ValueError
      else if record_driven \<and> hd_stride_tokens raw \<noteq> Some stride then Inl ValueError
      else if record_driven \<and> map_of (ly_ranks ly) layer = None then Inl KeyError
      else if record_driven \<and> hd_layer_rank raw \<noteq> map_of (ly_ranks ly) layer then Inl ValueError
      else add_applied raw (candidate_row (xa_slot_bytes a) base layer step seq d))"

fun export_rows ::
  "(string \<Rightarrow> ('s :: {linorder, uminus}) hook_dump result) \<Rightarrow> export_args \<Rightarrow> int \<Rightarrow> layout \<Rightarrow> bool \<Rightarrow> int \<Rightarrow> int \<Rightarrow> int \<Rightarrow>
   dump_files \<Rightarrow> 's oracle_row list result" where
  "export_rows load a stride ly record_driven layer base step [] = Inr []"
| "export_rows load a stride ly record_driven layer base step (f # fs) =
     (case export_row load a stride ly record_driven layer base step f of Inl e \<Rightarrow> Inl e
      | Inr r \<Rightarrow> (case export_rows load a stride ly record_driven layer base (step + 1) fs of Inl e \<Rightarrow> Inl e
                 | Inr rs \<Rightarrow> Inr (r # rs)))"

fun export_layers ::
  "(string \<Rightarrow> ('s :: {linorder, uminus}) hook_dump result) \<Rightarrow> export_args \<Rightarrow> int \<Rightarrow> int \<Rightarrow> layout \<Rightarrow> 's chosen_layer list \<Rightarrow>
   ((int \<times> layer_geometry) list \<times> 's oracle_row list \<times> int) result" where
  "export_layers load a stride rank ly [] = Inr ([], [], ly_offset ly)"
| "export_layers load a stride rank ly (c # cs) =
     (case c of (layer, files, first_raw) \<Rightarrow>
      case place_layer a stride rank c ly of Inl e \<Rightarrow> Inl e | Inr (base, ly') \<Rightarrow>
      case export_rows load a stride ly' (hd_stride_tokens first_raw \<noteq> None) layer base 0 files of Inl e \<Rightarrow> Inl e | Inr rows \<Rightarrow>
      case export_layers load a stride (rank + 1) ly' cs of Inl e \<Rightarrow> Inl e | Inr (gs, others, offset) \<Rightarrow>
      Inr ((layer, \<lparr>lg_base_bytes = base, lg_context_length = fst (last files)\<rparr>) # gs, rows @ others, offset))"

definition applied_count :: "'s oracle_row list \<Rightarrow> nat" where
  "applied_count rows = length (filter (\<lambda>r. or_applied_selected r \<noteq> None) rows)"

definition export_candidates ::
  "(string \<Rightarrow> ('s :: {linorder, uminus}) hook_dump result) \<Rightarrow> export_args \<Rightarrow> string list \<Rightarrow> (manifest \<times> 's oracle_row list \<times> bool) result" where
  "export_candidates load a names =
     (if xa_slot_bytes a \<noteq> 4096 \<or> xa_segment_bytes a \<le> 0 \<or> xa_segment_bytes a mod 16384 \<noteq> 0 then Inl ValueError
      else if (case xa_max_steps a of None \<Rightarrow> False | Some n \<Rightarrow> n < 1) then Inl ValueError else
      case discover names of Inl e \<Rightarrow> Inl e | Inr groups \<Rightarrow>
      if (case xa_expected_layers a of None \<Rightarrow> False | Some n \<Rightarrow> int (length groups) \<noteq> n) then Inl ValueError else
      case choose_layers load a groups of Inl e \<Rightarrow> Inl e | Inr chosen \<Rightarrow>
      case export_stride a chosen of Inl e \<Rightarrow> Inl e | Inr stride \<Rightarrow>
      case export_layers load a stride 0 \<lparr>ly_offset = 0, ly_ranks = []\<rparr> chosen of Inl e \<Rightarrow> Inl e | Inr (gs, spooled, offset) \<Rightarrow>
      let rows = sort_key (\<lambda>r. (or_step r, or_layer r)) spooled in
      if applied_count rows \<noteq> 0 \<and> applied_count rows \<noteq> length rows then Inl ValueError
      else Inr (\<lparr>ma_complete = True, ma_device_count = 1, ma_slot_bytes = xa_slot_bytes a,
                 ma_segment_bytes = xa_segment_bytes a,
                 ma_snapshot_bytes = ((offset + xa_segment_bytes a - 1) div xa_segment_bytes a) * xa_segment_bytes a,
                 ma_layers = gs, ma_records = int (length rows), ma_checksum_ok = True\<rparr>,
                rows, 0 < applied_count rows))"

subsection \<open>An exported record is valid\<close>

lemma load_record_scores:
  fixes raw :: "('s :: {linorder, uminus}) raw_dump"
  assumes "load_record raw n = Inr d"
  shows "distinct (map fst (du_scores d))" and "set (map fst (du_scores d)) = set (du_ranked d)"
    and "int (length (du_ranked d)) = min 2400 n"
proof -
  from assms obtain ids and vals :: "'s list" where cand: "load_candidates raw n = Inr (ids, vals)"
    and eqs: "du_ranked d = rank_candidates ids vals" "du_scores d = zip ids vals"
    by (auto simp: load_record_def split: sum.splits if_splits)
  have ok: "distinct ids" "length vals = length ids" "int (length ids) = min 2400 n"
    using cand by (auto simp: load_candidates_def Let_def candidates_valid_def split: sum.splits if_splits)
  have "mset (du_ranked d) = mset (map fst (zip ids vals))" using eqs(1) by (simp add: rank_candidates_def)
  also have "map fst (zip ids vals) = ids" using ok(2) by simp
  finally have m: "mset (du_ranked d) = mset ids" .
  show "distinct (map fst (du_scores d))" "set (map fst (du_scores d)) = set (du_ranked d)"
    using eqs(2) ok(1,2) mset_eq_setD [OF m] by simp_all
  show "int (length (du_ranked d)) = min 2400 n" using ok(3) mset_eq_length [OF m] by simp
qed

lemma candidate_row_valid:
  fixes raw :: "('s :: {linorder, uminus}) raw_dump"
  assumes "load_record raw seq = Inr d" and "1 \<le> seq" and "seq \<le> lg_context_length g" and "lg_base_bytes g = base"
  shows "valid_native (candidate_row SLOT base layer step seq d)" and "valid_scores (candidate_row SLOT base layer step seq d)"
    and "valid_geometry g (candidate_row SLOT base layer step seq d)"
    and "list_all (valid_address g seq) (or_candidates (candidate_row SLOT base layer step seq d))"
proof -
  let ?r = "candidate_row SLOT base layer step seq d"
  let ?ids = "du_native d \<union> set (du_ranked d)"
  note lr = load_record_ok [OF assms(1)] and sc = load_record_scores [OF assms(1)]
  have fin: "finite ?ids" using lr(1) by simp
  have toks: "c_token ` set (or_candidates ?r) = ?ids" using fin by (auto simp: candidate_row_def image_iff)
  show "valid_native ?r"
    using lr fin toks unfolding valid_native_def Let_def by (simp add: candidate_row_def)
  show "valid_geometry g ?r" using assms(2,3) by (simp add: valid_geometry_def candidate_row_def)
  show "list_all (valid_address g seq) (or_candidates ?r)"
    using lr(3,5) fin assms(4) by (auto simp: list_all_iff candidate_row_def valid_address_def)
  have some: "map_of (rev (du_scores d)) t \<noteq> None \<longleftrightarrow> t \<in> set (du_ranked d)" for t
    using sc(2) by (simp add: map_of_eq_None_iff)
  have "filter (\<lambda>x. c_score x \<noteq> None) (or_candidates ?r) =
      map (\<lambda>t. \<lparr>c_token = t, c_score = map_option Finite (map_of (rev (du_scores d)) t), c_offset_bytes = base + t * SLOT, cd_device = 0\<rparr>)
        (filter (\<lambda>t. t \<in> set (du_ranked d)) (sorted_list_of_set ?ids))"
    using some by (simp add: candidate_row_def filter_map comp_def)
  moreover have "length (filter (\<lambda>t. t \<in> set (du_ranked d)) (sorted_list_of_set ?ids)) = length (du_ranked d)"
  proof -
    have "length (filter (\<lambda>t. t \<in> set (du_ranked d)) (sorted_list_of_set ?ids)) = card (set (filter (\<lambda>t. t \<in> set (du_ranked d)) (sorted_list_of_set ?ids)))"
      by (intro distinct_card [symmetric] distinct_filter) simp
    also have "set (filter (\<lambda>t. t \<in> set (du_ranked d)) (sorted_list_of_set ?ids)) = set (du_ranked d)" using fin by auto
    finally show ?thesis using distinct_card [OF lr(4)] by simp
  qed
  moreover have "list_all (\<lambda>x. is_finite (the (c_score x))) (filter (\<lambda>x. c_score x \<noteq> None) (or_candidates ?r))"
    by (auto simp: list_all_iff candidate_row_def is_finite_def)
  moreover have "or_context_length ?r = seq" by (simp add: candidate_row_def)
  ultimately show "valid_scores ?r" using sc(3) by (simp add: valid_scores_def)
qed


definition valid_row :: "layer_geometry \<Rightarrow> 's oracle_row \<Rightarrow> bool" where
  "valid_row g r \<longleftrightarrow> valid_native r \<and> valid_scores r \<and> valid_geometry g r \<and> list_all (valid_address g (or_context_length r)) (or_candidates r)"

lemma add_applied_keeps:
  assumes "add_applied raw row = Inr r"
  shows "or_step r = or_step row" "or_layer r = or_layer row" "or_context_length r = or_context_length row" "or_candidates r = or_candidates row"
    and "valid_row g r = valid_row g row"
  using assms
  by (auto simp: add_applied_def valid_row_def valid_native_def valid_scores_def valid_geometry_def split: option.splits if_splits)

lemma export_row_ok:
  assumes "export_row load a stride ly rd layer base step (seq, path) = Inr r" and "xa_slot_bytes a = 4096"
    and "1 \<le> seq" and "seq \<le> lg_context_length g" and "lg_base_bytes g = base"
  shows "valid_row g r \<and> or_step r = step \<and> or_layer r = layer"
proof -
  from assms(1) obtain raw d where "load path = Inr raw" and d: "load_record (raw_dump.truncate raw) seq = Inr d"
    and r: "add_applied raw (candidate_row (xa_slot_bytes a) base layer step seq d) = Inr r"
    by (auto simp: export_row_def split: sum.splits if_splits)
  have "xa_slot_bytes a = SLOT" using assms(2) by (simp add: SLOT_def)
  then show ?thesis
    using add_applied_keeps [OF r] candidate_row_valid [OF d assms(3-5)]
    by (simp add: valid_row_def) (simp add: candidate_row_def)
qed

lemma export_rows_ok:
  assumes "export_rows load a stride ly rd layer base step files = Inr rows" and "xa_slot_bytes a = 4096"
    and "\<forall>f\<in>set files. 1 \<le> fst f \<and> fst f \<le> lg_context_length g" and "lg_base_bytes g = base"
  shows "(\<forall>r\<in>set rows. valid_row g r \<and> or_layer r = layer) \<and> map or_step rows = map (\<lambda>i. step + int i) [0..<length files]"
  using assms
proof (induction files arbitrary: step rows)
  case (Cons f files)
  obtain seq path where f: "f = (seq, path)" by fastforce
  from Cons.prems(1) obtain r rs where r: "export_row load a stride ly rd layer base step (seq, path) = Inr r"
    and rs: "export_rows load a stride ly rd layer base (step + 1) files = Inr rs" and rows: "rows = r # rs"
    by (auto simp: f split: sum.splits)
  have "valid_row g r \<and> or_step r = step \<and> or_layer r = layer"
    using Cons.prems f by (intro export_row_ok [OF r]) auto
  moreover have "map (\<lambda>i. step + int i) [0..<length (f # files)] = step # map (\<lambda>i. step + 1 + int i) [0..<length files]"
    by (simp add: upt_conv_Cons map_Suc_upt [symmetric] comp_def del: upt_Suc)
  ultimately show ?case using Cons.IH [OF rs] Cons.prems rows by auto
qed simp

definition layer_files_ok :: "dump_files \<Rightarrow> bool" where
  "layer_files_ok files \<longleftrightarrow> files \<noteq> [] \<and> (\<forall>f\<in>set files. 1 \<le> fst f \<and> fst f \<le> fst (last files))"

lemma export_layers_ok:
  assumes "export_layers load a stride rank ly cs = Inr (gs, rows, offset)" and "xa_slot_bytes a = 4096"
    and "\<forall>c\<in>set cs. layer_files_ok (fst (snd c))" and "distinct (map fst cs)"
  shows "map fst gs = map fst cs" and "\<forall>r\<in>set rows. \<exists>g. (or_layer r, g) \<in> set gs \<and> valid_row g r"
    and "distinct (map (\<lambda>r. (or_step r, or_layer r)) rows)" and "cs \<noteq> [] \<longrightarrow> rows \<noteq> []"
    and "stride = 0 \<longrightarrow> ly_offset ly \<le> offset \<and>
      (\<forall>lg\<in>set gs. ly_offset ly \<le> lg_base_bytes (snd lg) \<and> lg_base_bytes (snd lg) + lg_context_length (snd lg) * 4096 \<le> offset)"
proof -
  have "map fst gs = map fst cs \<and> (\<forall>r\<in>set rows. \<exists>g. (or_layer r, g) \<in> set gs \<and> valid_row g r) \<and>
    distinct (map (\<lambda>r. (or_step r, or_layer r)) rows) \<and> (cs \<noteq> [] \<longrightarrow> rows \<noteq> []) \<and>
    (stride = 0 \<longrightarrow> ly_offset ly \<le> offset \<and>
      (\<forall>lg\<in>set gs. ly_offset ly \<le> lg_base_bytes (snd lg) \<and> lg_base_bytes (snd lg) + lg_context_length (snd lg) * 4096 \<le> offset))"
    using assms
  proof (induction cs arbitrary: rank ly gs rows offset)
    case (Cons c cs)
    obtain layer files first where c: "c = (layer, files, first)" by (cases c)
    from Cons.prems(1) c obtain base ly2 rs gs2 others where pl: "place_layer a stride rank c ly = Inr (base, ly2)"
      and fl: "export_rows load a stride ly2 (hd_stride_tokens first \<noteq> None) layer base 0 files = Inr rs"
      and rest: "export_layers load a stride (rank + 1) ly2 cs = Inr (gs2, others, offset)"
      and eqs: "gs = (layer, \<lparr>lg_base_bytes = base, lg_context_length = fst (last files)\<rparr>) # gs2" "rows = rs @ others"
      by (auto split: sum.splits prod.splits)
    let ?g = "\<lparr>lg_base_bytes = base, lg_context_length = fst (last files)\<rparr>"
    have lf: "layer_files_ok files" using Cons.prems(3) c by simp
    have fo: "(\<forall>r\<in>set rs. valid_row ?g r \<and> or_layer r = layer) \<and> map or_step rs = map (\<lambda>i. 0 + int i) [0..<length files]"
      using lf Cons.prems(2) by (intro export_rows_ok [OF fl]) (auto simp: layer_files_ok_def)
    have IH: "map fst gs2 = map fst cs" "\<forall>r\<in>set others. \<exists>g. (or_layer r, g) \<in> set gs2 \<and> valid_row g r"
      "distinct (map (\<lambda>r. (or_step r, or_layer r)) others)"
      "stride = 0 \<longrightarrow> ly_offset ly2 \<le> offset \<and>
        (\<forall>lg\<in>set gs2. ly_offset ly2 \<le> lg_base_bytes (snd lg) \<and> lg_base_bytes (snd lg) + lg_context_length (snd lg) * 4096 \<le> offset)"
      using Cons.IH [OF rest] Cons.prems by simp_all
    have layers: "\<forall>r\<in>set others. or_layer r \<in> set (map fst cs)" using IH(2) unfolding IH(1) [symmetric] by force
    have "length rs = length files" using fo by (metis length_map length_upt minus_nat.diff_0)
    then have ne: "rs \<noteq> []" using lf by (auto simp: layer_files_ok_def)
    have "distinct (map or_step rs)" using fo by (simp add: distinct_map inj_on_def)
    then have "distinct (map (\<lambda>r. (or_step r, or_layer r)) rs)" by (auto simp: distinct_map inj_on_def)
    moreover have "layer \<notin> set (map fst cs)" using Cons.prems(4) c by simp
    ultimately have "distinct (map (\<lambda>r. (or_step r, or_layer r)) rows)"
      using IH(3) layers fo eqs(2) by auto
    moreover have "\<forall>r\<in>set rows. \<exists>g. (or_layer r, g) \<in> set gs \<and> valid_row g r" using fo IH(2) eqs by fastforce
    moreover have "stride = 0 \<longrightarrow> ly_offset ly \<le> offset \<and>
      (\<forall>lg\<in>set gs. ly_offset ly \<le> lg_base_bytes (snd lg) \<and> lg_base_bytes (snd lg) + lg_context_length (snd lg) * 4096 \<le> offset)"
    proof
      assume s: "stride = 0"
      then have b: "base = ly_offset ly" "ly_offset ly2 = ly_offset ly + fst (last files) * 4096"
        using pl c Cons.prems(2) by (auto simp: place_layer_def)
      have "1 \<le> fst (last files)" using lf by (auto simp: layer_files_ok_def)
      then show "ly_offset ly \<le> offset \<and>
          (\<forall>lg\<in>set gs. ly_offset ly \<le> lg_base_bytes (snd lg) \<and> lg_base_bytes (snd lg) + lg_context_length (snd lg) * 4096 \<le> offset)"
        using IH(4) s b eqs(1) by fastforce
    qed
    ultimately show ?case using IH(1) eqs c ne by simp
  qed simp
  then show "map fst gs = map fst cs" "\<forall>r\<in>set rows. \<exists>g. (or_layer r, g) \<in> set gs \<and> valid_row g r"
    "distinct (map (\<lambda>r. (or_step r, or_layer r)) rows)" "cs \<noteq> [] \<longrightarrow> rows \<noteq> []"
    "stride = 0 \<longrightarrow> ly_offset ly \<le> offset \<and>
      (\<forall>lg\<in>set gs. ly_offset ly \<le> lg_base_bytes (snd lg) \<and> lg_base_bytes (snd lg) + lg_context_length (snd lg) * 4096 \<le> offset)"
    by blast+
qed


subsection \<open>Every export is accepted\<close>

lemma discover_sorted:
  assumes "discover names = Inr groups" and "(g, fs) \<in> set groups"
  shows "fs \<noteq> []" and "sorted (map fst fs)"
proof -
  have groups: "groups = map (\<lambda>(g, fs). (g, sort fs)) (foldl add_file [] names)"
    using assms(1) by (auto simp: discover_def Let_def split: if_splits)
  then obtain fs' where fs': "(g, fs') \<in> set (foldl add_file [] names)" "fs = sort fs'" using assms(2) by auto
  have set_dict: "(h, x) \<in> set (dict_set k v ps) \<Longrightarrow> x = v \<or> (h, x) \<in> set ps" for h k :: string and x v :: dump_files and ps
    by (induction ps) (auto split: if_splits)
  have "(h, x) \<in> set (foldl add_file acc ns) \<Longrightarrow> (\<forall>p\<in>set acc. snd p \<noteq> []) \<Longrightarrow> x \<noteq> []" for h x acc ns
  proof (induction ns arbitrary: acc)
    case (Cons nm ns)
    have "\<forall>p\<in>set (add_file acc nm). snd p \<noteq> []"
      using Cons.prems(2) by (auto simp: add_file_def split: option.splits dest!: set_dict)
    then show ?case using Cons by simp
  qed auto
  then show "fs \<noteq> []" using fs' by (metis empty_iff list.set(1) set_empty set_sort)
  have "sorted fs" using fs'(2) by simp
  then show "sorted (map fst fs)"
    by (auto simp: sorted_map sorted_wrt_iff_nth_less less_eq_prod_def less_le_not_le split: prod.splits elim!: sorted_wrt_mono_rel [rotated])
qed

lemma first_steps_ok:
  assumes "files \<noteq> []" and "sorted (map fst files)" and "\<forall>f\<in>set files. 1 \<le> fst f" and "case xa_max_steps a of None \<Rightarrow> True | Some n \<Rightarrow> 1 \<le> n"
  shows "layer_files_ok (first_steps a files)"
proof -
  have ok: "layer_files_ok fs" if "fs \<noteq> []" "sorted (map fst fs)" "\<forall>f\<in>set fs. 1 \<le> fst f" for fs :: dump_files
  proof -
    have "fst f \<le> fst (last fs)" if f: "f \<in> set fs" for f
    proof -
      obtain i where i: "i < length fs" "f = fs ! i" using f by (metis in_set_conv_nth)
      have "map fst fs ! i \<le> map fst fs ! (length fs - 1)" using i(1) \<open>sorted (map fst fs)\<close> by (intro sorted_nth_mono) auto
      then show ?thesis using i \<open>fs \<noteq> []\<close> by (simp add: last_conv_nth)
    qed
    then show ?thesis using that by (simp add: layer_files_ok_def)
  qed
  show ?thesis
  proof (cases "xa_max_steps a")
    case None
    then show ?thesis using assms ok by (simp add: first_steps_def)
  next
    case (Some n)
    then have "take (nat n) files \<noteq> []" using assms(1,4) by simp
    moreover have "sorted (map fst (take (nat n) files))" using assms(2) by (simp add: sorted_wrt_take flip: take_map)
    moreover have "\<forall>f\<in>set (take (nat n) files). 1 \<le> fst f" using assms(3) by (blast dest: in_set_takeD)
    ultimately show ?thesis using ok [of "take (nat n) files"] Some by (simp add: first_steps_def)
  qed
qed

lemma choose_layers_ok:
  assumes "choose_layers load a groups = Inr chosen"
  shows "chosen \<noteq> []" and "distinct (map fst chosen)" and "\<forall>c\<in>set chosen. \<exists>g fs. (g, fs) \<in> set groups \<and> fst (snd c) = first_steps a fs"
proof -
  from assms obtain parts where parts: "map_result (choose_layer load a) groups = Inr parts"
    and ch: "chosen = sort_key fst (concat parts)" "chosen \<noteq> []" "card (set (map fst chosen)) = length chosen"
    by (auto simp: choose_layers_def Let_def split: sum.splits if_splits)
  show "chosen \<noteq> []" by (rule ch(2))
  show "distinct (map fst chosen)" using ch(3) by (simp add: card_distinct)
  have "\<forall>part\<in>set parts. \<forall>c\<in>set part. \<exists>g fs. (g, fs) \<in> set groups \<and> fst (snd c) = first_steps a fs"
  proof (intro ballI)
    fix part c assume "part \<in> set parts" "c \<in> set part"
    obtain i where "i < length parts" "part = parts ! i" using \<open>part \<in> set parts\<close> by (metis in_set_conv_nth)
    then have "groups ! i \<in> set groups" "choose_layer load a (groups ! i) = Inr part"
      using parts by (simp_all add: map_result_Inr_iff list_all2_conv_all_nth)
    then obtain g fs where gf: "(g, fs) \<in> set groups" "choose_layer load a (g, fs) = Inr part" by (metis surj_pair)
    have "fst (snd c) = first_steps a fs"
      using gf(2) \<open>c \<in> set part\<close> by (auto simp: choose_layer_def Let_def split: sum.splits if_splits option.splits)
    then show "\<exists>g fs. (g, fs) \<in> set groups \<and> fst (snd c) = first_steps a fs" using gf(1) by blast
  qed
  then show "\<forall>c\<in>set chosen. \<exists>g fs. (g, fs) \<in> set groups \<and> fst (snd c) = first_steps a fs" using ch(1) by auto
qed

lemma choose_layers_loaded:
  assumes "choose_layers load a groups = Inr chosen" and "c \<in> set chosen"
  shows "\<exists>path. load path = Inr (snd (snd c))"
proof -
  from assms(1) obtain parts where parts: "map_result (choose_layer load a) groups = Inr parts" and "chosen = sort_key fst (concat parts)"
    by (auto simp: choose_layers_def Let_def split: sum.splits if_splits)
  then obtain part where part: "part \<in> set parts" "c \<in> set part" using assms(2) by auto
  then obtain i where "i < length parts" "part = parts ! i" by (metis in_set_conv_nth)
  then have "choose_layer load a (groups ! i) = Inr part" using parts by (simp add: map_result_Inr_iff list_all2_conv_all_nth)
  then show ?thesis using part(2) by (auto simp: choose_layer_def Let_def split: sum.splits if_splits option.splits)
qed

lemma check_rows_sorted:
  assumes "sorted_wrt (\<lambda>r s. (or_step r, or_layer r) < (or_step s, or_layer s)) rows" and "\<forall>r\<in>set rows. check_row m r = Inr ()"
    and "\<forall>p. previous = Some p \<longrightarrow> (\<forall>r\<in>set rows. p < (or_step r, or_layer r))"
  shows "check_rows m previous rows = Inr ()"
  using assms by (induction rows arbitrary: previous) (auto simp: Let_def not_le split: option.splits)


lemma padded_bounds:
  fixes n s :: int
  assumes "0 < s"
  shows "n \<le> ((n + s - 1) div s) * s" and "(((n + s - 1) div s) * s) mod s = 0"
proof -
  have "(n + s - 1) div s * s + (n + s - 1) mod s = n + s - 1" by (rule div_mult_mod_eq)
  moreover have "(n + s - 1) mod s < s" using assms by simp
  ultimately show "n \<le> ((n + s - 1) div s) * s" by linarith
qed simp

lemma valid_rows_covered:
  assumes "valid_row g r" and "0 \<le> lg_base_bytes g" and "lg_base_bytes g + lg_context_length g * 4096 \<le> snapshot"
    and "snapshot mod PAGE = 0" and "dense_len mapping = snapshot div PAGE"
  shows "covered mapping r"
  unfolding covered_def
proof
  fix x assume "x \<in> set (or_candidates r)"
  then have x: "0 \<le> c_token x" "c_token x < or_context_length r" "c_offset_bytes x = lg_base_bytes g + c_token x * 4096"
    using assms(1) by (auto simp: valid_row_def list_all_iff valid_address_def SLOT_def)
  have "or_context_length r \<le> lg_context_length g" using assms(1) by (simp add: valid_row_def valid_geometry_def)
  then have "0 \<le> c_offset_bytes x" "c_offset_bytes x < snapshot" using x assms(2,3) by linarith+
  moreover have "snapshot = PAGE * (snapshot div PAGE)" using assms(4) by (metis mult_div_mod_eq add.right_neutral)
  ultimately show "0 \<le> c_offset_bytes x div PAGE \<and> c_offset_bytes x div PAGE < dense_len mapping"
    using assms(5) by (simp add: PAGE_def) linarith
qed

lemma sorted_rows:
  assumes "distinct (map (\<lambda>r. (or_step r, or_layer r)) rows)"
  shows "sorted_wrt (\<lambda>r s. (or_step r, or_layer r) < (or_step s, or_layer s)) (sort_key (\<lambda>r. (or_step r, or_layer r)) rows)"
proof -
  let ?k = "\<lambda>r. (or_step r, or_layer r)"
  have "mset (map ?k (sort_key ?k rows)) = mset (map ?k rows)" by (simp only: mset_map mset_sort)
  then have "distinct (map ?k (sort_key ?k rows))" using assms mset_eq_imp_distinct_iff by blast
  then have "sorted_wrt (<) (map ?k (sort_key ?k rows))" by (simp add: strict_sorted_iff)
  then show ?thesis by (simp only: sorted_wrt_map)
qed

text \<open>
  C13. Every export passes the validation of the oracle, provided the applied selections taken over
  from the hook are proper and the segment fits one NVMe command, which the exporter does not
  check. In the cumulative layout moreover every candidate lies in the snapshot, so a mapping of
  the whole snapshot answers every look-up of the planner. File names of dumps carry positive
  sequence lengths.
\<close>

theorem exported_candidates_validate:
  fixes load :: "string \<Rightarrow> ('s :: {linorder, uminus}) hook_dump result"
  assumes "export_candidates load a names = Inr (man, rows, applied)" and "xa_segment_bytes a div 512 \<le> 65535"
    and "\<forall>r\<in>set rows. valid_applied r"
    and "\<forall>name\<in>set names. \<forall>g n. parse_dump_name name = Some (g, n) \<longrightarrow> 1 \<le> n"
  shows "validate_export man rows = Inr () \<and>
    (xa_declared_stride a = 0 \<and> (\<forall>path raw. load path = Inr raw \<longrightarrow> hd_stride_tokens raw = None) \<longrightarrow>
     dense_len mapping = ma_snapshot_bytes man div PAGE \<longrightarrow> (\<forall>r\<in>set rows. covered mapping r))"
proof -
  from assms(1) obtain groups chosen stride gs spooled offset where
    args: "xa_slot_bytes a = 4096" "0 < xa_segment_bytes a" "xa_segment_bytes a mod 16384 = 0"
      "case xa_max_steps a of None \<Rightarrow> True | Some n \<Rightarrow> 1 \<le> n"
    and gr: "discover names = Inr groups" and ch: "choose_layers load a groups = Inr chosen" and st: "export_stride a chosen = Inr stride"
    and ex: "export_layers load a stride 0 \<lparr>ly_offset = 0, ly_ranks = []\<rparr> chosen = Inr (gs, spooled, offset)"
    and rows: "rows = sort_key (\<lambda>r. (or_step r, or_layer r)) spooled"
    and man: "ma_complete man" "ma_device_count man = 1" "ma_slot_bytes man = SLOT" "ma_segment_bytes man = xa_segment_bytes a"
      "ma_snapshot_bytes man = ((offset + xa_segment_bytes a - 1) div xa_segment_bytes a) * xa_segment_bytes a"
      "ma_layers man = gs" "ma_records man = int (length rows)" "ma_checksum_ok man"
    by (auto simp: export_candidates_def Let_def SLOT_def split: sum.splits if_splits prod.splits option.splits)
  note chl = choose_layers_ok [OF ch]
  have "layer_files_ok (fst (snd c))" if c: "c \<in> set chosen" for c
  proof -
    obtain g fs where "(g, fs) \<in> set groups" "fst (snd c) = first_steps a fs" using chl(3) c by blast
    moreover from this have "\<forall>f\<in>set fs. 1 \<le> fst f" using discover_ok(2) [OF gr assms(4)] by fastforce
    ultimately show ?thesis using discover_sorted [OF gr, of g fs] first_steps_ok [of fs a] args(4) by simp
  qed
  then have lo: "map fst gs = map fst chosen" "\<forall>r\<in>set spooled. \<exists>g. (or_layer r, g) \<in> set gs \<and> valid_row g r"
    "distinct (map (\<lambda>r. (or_step r, or_layer r)) spooled)" "spooled \<noteq> []"
    "stride = 0 \<longrightarrow> 0 \<le> offset \<and> (\<forall>lg\<in>set gs. 0 \<le> lg_base_bytes (snd lg) \<and> lg_base_bytes (snd lg) + lg_context_length (snd lg) * 4096 \<le> offset)"
    using export_layers_ok [OF ex args(1) _ chl(2)] chl(1) by auto
  have found: "\<exists>g. map_of (rev gs) (or_layer r) = Some g \<and> (or_layer r, g) \<in> set gs \<and> valid_row g r" if r: "r \<in> set rows" for r
  proof -
    obtain g where g: "(or_layer r, g) \<in> set gs" "valid_row g r" using lo(2) r rows by auto
    have "distinct (map fst (rev gs))" using lo(1) chl(2) by (simp flip: rev_map)
    then show ?thesis using g by (metis map_of_is_SomeI set_rev)
  qed
  then have "\<forall>r\<in>set rows. check_row man r = Inr ()"
    using assms(3) man(6) by (fastforce simp: check_row_def valid_row_def)
  then have "check_rows man None rows = Inr ()" using sorted_rows [OF lo(3)] rows by (intro check_rows_sorted) simp_all
  moreover have pad: "offset \<le> ma_snapshot_bytes man" "ma_snapshot_bytes man mod xa_segment_bytes a = 0"
    unfolding man(5) using padded_bounds [OF args(2)] by blast+
  moreover have "rows \<noteq> []" using lo(4) rows by (metis length_0_conv length_sort)
  ultimately have valid: "validate_export man rows = Inr ()"
    using man args assms(2) by (simp add: validate_export_def PAGE_def)
  have "covered mapping r" if "xa_declared_stride a = 0" "\<forall>path raw. load path = Inr raw \<longrightarrow> hd_stride_tokens raw = None"
    and map: "dense_len mapping = ma_snapshot_bytes man div PAGE" and r: "r \<in> set rows" for r
  proof -
    have "\<forall>c\<in>set chosen. hd_stride_tokens (snd (snd c)) = None" using choose_layers_loaded [OF ch] that(2) by blast
    then have "concat (map (\<lambda>(_, _, raw). case hd_stride_tokens raw of None \<Rightarrow> [] | Some s \<Rightarrow> [s]) chosen) = []" by auto
    then have "stride = 0" using st that(1) by (simp add: export_stride_def Let_def)
    moreover obtain g where "(or_layer r, g) \<in> set gs" "valid_row g r" using found [OF r] by blast
    moreover have "ma_snapshot_bytes man mod PAGE = 0"
      using pad(2) args(3) by (metis PAGE_def mod_0_imp_dvd dvd_trans mod_eq_0_iff_dvd)
    ultimately show ?thesis using lo(5) pad(1) map by (intro valid_rows_covered [of g r "ma_snapshot_bytes man"]) force+
  qed
  then show ?thesis using valid by blast
qed


text \<open>One layer, one decode step of sequence length 2.\<close>

definition demo_hook :: "string \<Rightarrow> int hook_dump result" where
  "demo_hook path =
     Inr \<lparr>rd_layer = Some ''layers.3'', rd_seq_lens_key = Some (Leaf 2), rd_seq_lens_query = Some (Leaf 1),
       rd_has_reference = Some True, rd_indices = Some (Node [Leaf 1, Leaf 0]), rd_candidate_indices = Some (Node [Leaf 0, Leaf 1]),
       rd_candidate_scores = Some (Node [Leaf (Finite 7), Leaf (Finite 9)]), hd_stride_tokens = None, hd_layer_rank = None,
       hd_selected = None, hd_overridden = None, hd_cache_mode = None, hd_swaps = None, hd_cache_state = None\<rparr>"

definition demo_export_args :: export_args where
  "demo_export_args = \<lparr>xa_slot_bytes = 4096, xa_segment_bytes = 16384, xa_max_steps = None, xa_expected_layers = Some 1,
     xa_layers = None, xa_declared_stride = 0\<rparr>"

theorem exported_candidates_validate_witness:
  "\<exists>man rows applied. export_candidates demo_hook demo_export_args [''m_s2.pt''] = Inr (man, rows, applied) \<and>
     validate_export man rows = Inr () \<and> (\<forall>r\<in>set rows. covered [0, 5, 0, 0, 0, 0, 0, 0] r)"
proof -
  have ev: "case export_candidates demo_hook demo_export_args [''m_s2.pt''] of Inl e \<Rightarrow> False
    | Inr (man, rows, applied) \<Rightarrow> ma_snapshot_bytes man = 16384 \<and> list_all valid_applied rows" by code_simp
  then obtain man rows applied where ex: "export_candidates demo_hook demo_export_args [''m_s2.pt''] = Inr (man, rows, applied)"
    and snap: "ma_snapshot_bytes man = 16384" and ap: "\<forall>r\<in>set rows. valid_applied r"
    by (auto simp: list_all_iff split: sum.splits prod.splits)
  have "parse_dump_name ''m_s2.pt'' = Some (''m'', 2)" by code_simp
  then have "\<forall>name\<in>set [''m_s2.pt'']. \<forall>g n. parse_dump_name name = Some (g, n) \<longrightarrow> 1 \<le> n" by simp
  from exported_candidates_validate [OF ex _ ap this, of "[0, 5, 0, 0, 0, 0, 0, 0]"] snap ex show ?thesis
    by (auto simp: demo_export_args_def demo_hook_def dense_len_def PAGE_def)
qed

end
