(* ===== verification/DumpHook.thy ===== *)
theory DumpHook
  imports ExportPpa
begin

section \<open>The online dump and override hook\<close>

text \<open>
  Model of \<open>scripts/dsa_hook/dsa_dump_hook.py\<close>, called by every tensor-parallel rank after the fused
  top-k of a layer. The tensors of the device enter through their shapes and through the values the
  hook copies to the host; the reference ranking it computes on the device is a function of the
  input. The two collective operations are modelled by what a rank receives: the value rank 0
  broadcasts, and whether the digests of all ranks agree. Messages printed once are not modelled;
  the environment is fixed, so reading the configuration once or at every call is the same.
\<close>

subsection \<open>Configuration\<close>

record hook_cfg =
  hc_enable :: bool
  hc_dump_dir :: string
  hc_rank :: int
  hc_ref_topk :: int
  hc_native_topk :: int
  hc_min_seq :: int
  hc_max_steps :: int

type_synonym environ = "string \<Rightarrow> string option"

definition env_get :: "environ \<Rightarrow> string \<Rightarrow> string \<Rightarrow> string" where
  "env_get env k dflt = (case env k of None \<Rightarrow> dflt | Some v \<Rightarrow> v)"

definition env_int :: "environ \<Rightarrow> string \<Rightarrow> string \<Rightarrow> int result" where
  "env_int env k dflt = (case parse_int (env_get env k dflt) of None \<Rightarrow> Inl ValueError | Some i \<Rightarrow> Inr i)"

definition dump_config :: "environ \<Rightarrow> hook_cfg result" where
  "dump_config env =
     (case map_result (\<lambda>(k, d). env_int env k d)
        [(''DSA_DUMP_RANK'', ''0''), (''DSA_DUMP_REF_TOPK'', ''2400''), (''DSA_DUMP_NATIVE_TOPK'', ''2048''),
         (''DSA_DUMP_MIN_SEQ'', ''2049''), (''DSA_DUMP_MAX_STEPS_PER_LAYER'', ''0'')] of
        Inl e \<Rightarrow> Inl e
      | Inr vs \<Rightarrow> Inr \<lparr>hc_enable = (env ''DSA_DUMP_ENABLE'' = Some ''1''), hc_dump_dir = strip (env_get env ''DSA_DUMP_DIR'' []),
          hc_rank = vs ! 0, hc_ref_topk = vs ! 1, hc_native_topk = vs ! 2, hc_min_seq = vs ! 3, hc_max_steps = vs ! 4\<rparr>)"

record override_cfg =
  oc_capacity :: int
  oc_budget :: int
  oc_protect_top :: int
  oc_stride :: int
  oc_mapping_path :: string
  oc_verify_ranks :: bool
  oc_rank_map :: "(string \<times> int) list option"

text \<open>The \<open>try\<close> block; \<open>ranks_file\<close> reads and parses the file of layer ranks.\<close>

definition override_values :: "environ \<Rightarrow> bool \<Rightarrow> (string \<Rightarrow> (string \<times> int) list result) \<Rightarrow> override_cfg result" where
  "override_values env enable ranks_file =
     (if \<not> enable then Inl ValueError else
      case (if env_get env ''DSA_OVERRIDE_LAYER_RANKS'' [] = [] then Inr None
            else map_sum id Some (ranks_file (env_get env ''DSA_OVERRIDE_LAYER_RANKS'' []))) of Inl e \<Rightarrow> Inl e
      | Inr ranks \<Rightarrow>
     (case map_result (\<lambda>(k, d). env_int env k d)
        [(''DSA_OVERRIDE_CAPACITY'', ''4096''), (''DSA_OVERRIDE_BUDGET'', ''128''), (''DSA_OVERRIDE_PROTECT_TOP'', ''0''),
         (''DSA_OVERRIDE_STRIDE_TOKENS'', ''0'')] of
        Inl e \<Rightarrow> Inl e
      | Inr vs \<Rightarrow>
          let path = strip (env_get env ''DSA_OVERRIDE_MAPPING'' []) in
          if vs ! 0 < 2048 \<or> \<not> (0 \<le> vs ! 1 \<and> vs ! 1 \<le> 352) \<or> vs ! 2 < 0 \<or> vs ! 3 \<le> 0 \<or> path = [] \<or>
             env_get env ''DSA_OVERRIDE_CACHE'' ''shared'' \<noteq> ''shared'' then Inl ValueError
          else Inr \<lparr>oc_capacity = vs ! 0, oc_budget = vs ! 1, oc_protect_top = vs ! 2, oc_stride = vs ! 3, oc_mapping_path = path,
                    oc_verify_ranks = (env_get env ''DSA_OVERRIDE_VERIFY_RANKS'' ''1'' = ''1''), oc_rank_map = ranks\<rparr>))"

definition override_config ::
  "environ \<Rightarrow> bool \<Rightarrow> bool \<Rightarrow> (string \<Rightarrow> (string \<times> int) list result) \<Rightarrow> override_cfg option result" where
  "override_config env importable enable ranks_file =
     (if env ''DSA_OVERRIDE_ENABLE'' \<noteq> Some ''1'' \<or> \<not> importable then Inr None
      else case override_values env enable ranks_file of
        Inr c \<Rightarrow> Inr (Some c)
      | Inl e \<Rightarrow> if e = KeyError \<or> e = ValueError then Inr None else Inl e)"

subsection \<open>State and inputs\<close>

record indexer_stash =
  sh_q_shape :: "int list"
  sh_weights_numel :: int

record hook_state =
  hs_stash :: "indexer_stash option"
  hs_counters :: "(string \<times> int) list"
  hs_last_seq :: "(string \<times> int) list"
  hs_manifest_open :: bool
  hs_ready :: bool
  hs_sample :: string
  hs_lrus :: "(string \<times> batch_lru) list"

definition hook_init :: hook_state where
  "hook_init = \<lparr>hs_stash = None, hs_counters = [], hs_last_seq = [], hs_manifest_open = False, hs_ready = False,
     hs_sample = ''_'', hs_lrus = []\<rparr>"

text \<open>
  \<open>hi_reference keep\<close> are the ids and scores of the reference top-\<open>keep\<close>; \<open>hi_marker\<close> is the text of the
  marker file, \<open>None\<close> when it cannot be read; \<open>hi_dist\<close> is \<open>None\<close> without a process group, otherwise the
  selection rank 0 broadcasts (\<open>None\<close> for a fallback).
\<close>

record 's hook_input =
  hi_tp_rank :: int
  hi_layer_name :: string
  hi_topk :: "int list"
  hi_decode_only :: bool
  hi_dsa_cp :: bool
  hi_kv_parts :: "nat option"
  hi_query_numel :: int
  hi_key_numel :: int
  hi_seq :: int
  hi_n_head :: int
  hi_head_dim :: int
  hi_cache_shape :: "int list"
  hi_block_table_shape :: "int \<times> int"
  hi_reference :: "int \<Rightarrow> int list \<times> 's py_float list"
  hi_marker :: "string option"
  hi_dist :: "int set option option"
  hi_ranks_agree :: bool

definition bump :: "string \<Rightarrow> hook_state \<Rightarrow> hook_state" where
  "bump key s = s\<lparr>hs_counters := dict_set key (dict_get (hs_counters s) key 0 + 1) (hs_counters s)\<rparr>"

subsection \<open>Samples\<close>

definition sample_char :: "char \<Rightarrow> bool" where
  "sample_char ch \<longleftrightarrow>
     (let n = of_char ch :: nat in 65 \<le> n \<and> n \<le> 90 \<or> 97 \<le> n \<and> n \<le> 122 \<or> 48 \<le> n \<and> n \<le> 57) \<or>
     ch = CHR ''.'' \<or> ch = CHR ''_'' \<or> ch = CHR ''-''"

text \<open>Every maximal run of other characters becomes one underscore; the flag says that such a run was just replaced.\<close>

fun sample_sub :: "bool \<Rightarrow> string \<Rightarrow> string" where
  "sample_sub inrun [] = []"
| "sample_sub inrun (ch # cs) =
     (if sample_char ch then ch # sample_sub False cs
      else if inrun then sample_sub True cs else CHR ''_'' # sample_sub True cs)"

definition marker_sample :: "string option \<Rightarrow> string" where
  "marker_sample marker =
     (case marker of None \<Rightarrow> ''_''
      | Some raw \<Rightarrow> (let text = strip raw in if text = [] then ''_'' else take 64 (sample_sub False text)))"

definition starts_with :: "string \<Rightarrow> string \<Rightarrow> bool" where
  "starts_with p s \<longleftrightarrow> take (length p) s = p"

definition rotate_sample :: "string \<Rightarrow> hook_state \<Rightarrow> hook_state" where
  "rotate_sample sample s =
     s\<lparr>hs_manifest_open := False, hs_last_seq := [], hs_lrus := [],
       hs_counters := filter (\<lambda>(k, v). \<not> starts_with ''dumps:'' k) (hs_counters s),
       hs_sample := sample, hs_ready := False\<rparr>"

subsection \<open>The override\<close>

definition hook_rank :: "override_cfg \<Rightarrow> int \<Rightarrow> int result" where
  "hook_rank oc layer_id =
     (case oc_rank_map oc of None \<Rightarrow> Inr layer_id
      | Some [] \<Rightarrow> Inr layer_id
      | Some m \<Rightarrow> (case map_of (rev m) (show_int layer_id) of None \<Rightarrow> Inl KeyError | Some r \<Rightarrow> Inr r))"

definition hook_candidates :: "int \<Rightarrow> int list \<Rightarrow> int list \<Rightarrow> 's list \<Rightarrow> 's candidate list" where
  "hook_candidates base native cand_ids cand_scores =
     map (\<lambda>t. \<lparr>c_token = t, c_score = map_of (rev (zip cand_ids cand_scores)) t, c_offset_bytes = base + t * SLOT\<rparr>)
       (sorted_list_of_set (set native \<union> set cand_ids))"

text \<open>The decision of rank 0; \<open>None\<close> stands for a fallback.\<close>

definition rank0_decision ::
  "override_cfg \<Rightarrow> dense_mapping \<Rightarrow> int \<Rightarrow> int \<Rightarrow> int list \<Rightarrow> int list \<Rightarrow> ('s :: {linorder, uminus, minus}) list \<Rightarrow> batch_lru \<Rightarrow>
   (int set option \<times> (int \<times> int) list) result" where
  "rank0_decision oc mapping base seq native cand_ids cand_scores lru =
     (case select native (hook_candidates base native cand_ids cand_scores) mapping (seq - 1) (oc_budget oc)
             (oc_protect_top oc) (set (lru_rows lru)) of
        Inl e \<Rightarrow> Inl e
      | Inr (selected, swaps, _, _) \<Rightarrow> Inr (if card selected \<noteq> card (set native) then None else Some selected, swaps))"

definition broadcast_from_rank0 :: "int \<Rightarrow> int set option option \<Rightarrow> int set option \<Rightarrow> int set option" where
  "broadcast_from_rank0 tp_rank wire selected =
     (case wire of None \<Rightarrow> selected | Some sent \<Rightarrow> if tp_rank = 0 then selected else sent)"

record applied =
  ap_selected :: "int set"
  ap_swaps :: "(int \<times> int) list"
  ap_digest :: string
  ap_rank :: int

text \<open>
  The new cache dictionary is returned with the outcome, and the value of the broadcast: \<open>None\<close> when
  the rank did not take part in it, otherwise what it carried.
\<close>

definition apply_override ::
  "(int list \<Rightarrow> string) \<Rightarrow> override_cfg \<Rightarrow> dense_mapping \<Rightarrow> ('s :: {linorder, uminus, minus}) hook_input \<Rightarrow> int list \<Rightarrow> 's list \<Rightarrow>
   (string \<times> batch_lru) list \<Rightarrow> (applied option \<times> int set option option \<times> (string \<times> batch_lru) list) result option" where
  "apply_override lru_digest oc mapping i cand_ids cand_scores lrus =
     (let name = hi_layer_name i; seq = hi_seq i; native = hi_topk i in
      case layer_number name of Inl _ \<Rightarrow> Some (Inr (None, None, lrus)) | Inr layer_id \<Rightarrow>
      case hook_rank oc layer_id of Inl e \<Rightarrow> Some (Inl e) | Inr rank \<Rightarrow>
      let base = rank * oc_stride oc * SLOT in
      if dense_len mapping \<le> (base + (seq - 1) * SLOT) div 16384 then Some (Inr (None, None, lrus)) else
      let lru = dict_get lrus name (BatchLRU (oc_capacity oc)) in
      case (if hi_tp_rank i = 0 then rank0_decision oc mapping base seq native cand_ids cand_scores lru else Inr (None, [])) of
        Inl e \<Rightarrow> Some (Inl e)
      | Inr (decision, swaps) \<Rightarrow>
      (case broadcast_from_rank0 (hi_tp_rank i) (hi_dist i) decision of
         None \<Rightarrow> Some (Inr (None, Some None, dict_set name lru lrus))
       | Some selected \<Rightarrow>
           pbind (commit_to (set native) lru) (\<lambda>lru'.
             Some (Inr (Some \<lparr>ap_selected = selected, ap_swaps = swaps, ap_digest = lru_digest (lru_rows lru), ap_rank = rank\<rparr>,
                        Some (Some selected), dict_set name lru' lrus)))))"

subsection \<open>stash_indexer_inputs\<close>

definition stash_indexer_inputs ::
  "hook_cfg \<Rightarrow> override_cfg option \<Rightarrow> int \<Rightarrow> bool \<Rightarrow> indexer_stash \<Rightarrow> hook_state \<Rightarrow> hook_state" where
  "stash_indexer_inputs cfg ocfg tp_rank sparse_c8 inputs s =
     (if \<not> hc_enable cfg then s
      else if tp_rank \<noteq> hc_rank cfg \<and> ocfg = None then s
      else if sparse_c8 then s
      else s\<lparr>hs_stash := Some inputs\<rparr>)"

subsection \<open>maybe_dump\<close>

definition keys_available :: "'s hook_input \<Rightarrow> bool" where
  "keys_available i \<longleftrightarrow>
     length (hi_cache_shape i) = 4 \<and> hi_cache_shape i ! 2 = 1 \<and> hi_cache_shape i ! 3 = hi_head_dim i \<and>
     (let block_size = hi_cache_shape i ! 1; n_blocks = (hi_seq i + block_size - 1) div block_size in
      1 \<le> fst (hi_block_table_shape i) \<and> n_blocks \<le> snd (hi_block_table_shape i))"

text \<open>The checks in order; a hit names the counter that is bumped.\<close>

definition early_skip :: "hook_cfg \<Rightarrow> 's hook_input \<Rightarrow> hook_state \<Rightarrow> string option" where
  "early_skip cfg i s =
     (if \<not> hi_decode_only i then Some ''skip_state''
      else if hi_dsa_cp i then Some ''skip_cp''
      else if (case hi_kv_parts i of None \<Rightarrow> True | Some n \<Rightarrow> n < 3) then Some ''skip_kv_cache''
      else if hi_query_numel i \<noteq> 1 \<or> hi_key_numel i \<noteq> 1 then Some ''skip_multi_request''
      else if hi_seq i < hc_min_seq cfg then Some ''skip_short_seq''
      else case hs_stash s of None \<Rightarrow> Some ''skip_no_stash''
      | Some sh \<Rightarrow>
          if sh_q_shape sh \<noteq> [1, hi_n_head i, hi_head_dim i] then Some ''skip_head_shape''
          else if sh_weights_numel sh \<noteq> hi_n_head i then Some ''skip_weight_shape''
          else (case map_of (hs_last_seq s) (hi_layer_name i) of
                  None \<Rightarrow> None | Some lst \<Rightarrow> if hi_seq i \<le> lst then Some ''skip_replayed_step'' else None))"

definition native_valid :: "hook_cfg \<Rightarrow> 's hook_input \<Rightarrow> bool" where
  "native_valid cfg i \<longleftrightarrow>
     int (length (hi_topk i)) = min (hc_native_topk cfg) (hi_seq i) \<and> distinct (hi_topk i) \<and>
     list_all (\<lambda>t. 0 \<le> t \<and> t < hi_seq i) (hi_topk i)"

definition dumps_key :: "'s hook_input \<Rightarrow> string" where
  "dumps_key i = ''dumps:'' @ hi_layer_name i"

definition late_skip :: "hook_cfg \<Rightarrow> 's hook_input \<Rightarrow> hook_state \<Rightarrow> string option" where
  "late_skip cfg i s =
     (if hc_max_steps cfg \<noteq> 0 \<and> hc_max_steps cfg \<le> dict_get (hs_counters s) (dumps_key i) 0 then Some ''skip_step_limit''
      else if \<not> native_valid cfg i then Some ''skip_native_invalid''
      else if \<not> keys_available i then Some ''skip_key_gather''
      else if \<not> list_all is_finite (snd (hi_reference i (min (hc_ref_topk cfg) (hi_seq i)))) then Some ''skip_nonfinite''
      else None)"

definition gap_bump :: "'s hook_input \<Rightarrow> hook_state \<Rightarrow> hook_state" where
  "gap_bump i s =
     (case map_of (hs_last_seq s) (hi_layer_name i) of
        None \<Rightarrow> s | Some lst \<Rightarrow> if hi_seq i \<noteq> lst + 1 then bump ''seq_gaps'' s else s)"

text \<open>The marker file is read at sample boundaries only; \<open>None\<close> is the unbound local variable.\<close>

definition rotate_at_boundary :: "'s hook_input \<Rightarrow> hook_state \<Rightarrow> string option \<times> hook_state" where
  "rotate_at_boundary i s =
     (if (case map_of (hs_last_seq s) (hi_layer_name i) of None \<Rightarrow> True | Some lst \<Rightarrow> hi_seq i \<noteq> lst + 1)
      then let sample = marker_sample (hi_marker i) in
           (Some sample, if sample \<noteq> hs_sample s then rotate_sample sample s else s)
      else (None, s))"

definition dump_record :: "override_cfg option \<Rightarrow> 's hook_input \<Rightarrow> int list \<Rightarrow> 's py_float list \<Rightarrow> applied option \<Rightarrow> 's hook_dump" where
  "dump_record ocfg i cand_ids cand_scores override =
     (let on = (case (ocfg, override) of (Some oc, Some ap) \<Rightarrow> True | _ \<Rightarrow> False); ap = the override in
      \<lparr>rd_layer = Some (hi_layer_name i), rd_seq_lens_key = Some (Node [Leaf (hi_seq i)]), rd_seq_lens_query = Some (Node [Leaf 1]),
       rd_has_reference = Some True, rd_indices = Some (Node (map Leaf (sort (hi_topk i)))),
       rd_candidate_indices = Some (Node (map Leaf cand_ids)), rd_candidate_scores = Some (Node (map Leaf cand_scores)),
       hd_stride_tokens = (if on then Some (oc_stride (the ocfg)) else None),
       hd_layer_rank = (if on then Some (ap_rank ap) else None),
       hd_selected = (if on then Some (sorted_list_of_set (ap_selected ap)) else None),
       hd_overridden = (if ocfg = None then None else Some on),
       hd_cache_mode = (if on then Some ''shared'' else None),
       hd_swaps = (if on then Some (ap_swaps ap) else None),
       hd_cache_state = (if on then Some (ap_digest ap) else None)\<rparr>)"

record manifest_entry =
  me_layer :: string
  me_seq :: int
  me_native :: int
  me_candidates :: int
  me_overlap :: int
  me_overridden :: bool
  me_swaps :: int

record 's dump_event =
  de_sample :: string
  de_file :: string
  de_record :: "'s hook_dump"
  de_entry :: manifest_entry

record 's hook_output =
  ho_indices :: "int list"
  ho_sent :: "int set option option"
  ho_dump :: "'s dump_event option"

definition kept :: "'s hook_input \<Rightarrow> 's hook_output" where
  "kept i = \<lparr>ho_indices = hi_topk i, ho_sent = None, ho_dump = None\<rparr>"

definition write_dump ::
  "hook_cfg \<Rightarrow> override_cfg option \<Rightarrow> 's hook_input \<Rightarrow> int list \<Rightarrow> 's py_float list \<Rightarrow> applied option \<Rightarrow> string \<Rightarrow> 's hook_output \<Rightarrow>
   hook_state \<Rightarrow> 's hook_output \<times> hook_state" where
  "write_dump cfg ocfg i cand_ids cand_scores override sample out s =
     (if \<not> hs_ready s \<and> hc_dump_dir cfg = [] then (out, bump ''skip_no_dir'' s)
      else
        let entry = \<lparr>me_layer = hi_layer_name i, me_seq = hi_seq i, me_native = int (length (hi_topk i)),
                     me_candidates = min (hc_ref_topk cfg) (hi_seq i), me_overlap = int (card (set (hi_topk i) \<inter> set cand_ids)),
                     me_overridden = (override \<noteq> None),
                     me_swaps = (case override of None \<Rightarrow> 0 | Some ap \<Rightarrow> int (length (ap_swaps ap)))\<rparr>;
            event = \<lparr>de_sample = sample, de_file = hi_layer_name i @ ''_s'' @ show_int (hi_seq i) @ ''.pt'',
                     de_record = dump_record ocfg i cand_ids cand_scores override, de_entry = entry\<rparr>;
            s1 = s\<lparr>hs_ready := True, hs_manifest_open := True\<rparr>;
            s2 = (if ocfg = None then s1 else bump (if override \<noteq> None then ''override_applied'' else ''override_fallback'') s1)
        in (out\<lparr>ho_dump := Some event\<rparr>, bump (dumps_key i) (bump ''dumps'' s2)))"

definition maybe_dump ::
  "(int list \<Rightarrow> string) \<Rightarrow> hook_cfg \<Rightarrow> override_cfg option \<Rightarrow> dense_mapping \<Rightarrow> ('s :: {linorder, uminus, minus}) hook_input \<Rightarrow>
   hook_state \<Rightarrow> ('s hook_output \<times> hook_state) result option" where
  "maybe_dump lru_digest cfg ocfg mapping i s =
     (let dump_rank = (hc_enable cfg \<and> hi_tp_rank i = hc_rank cfg) in
      if ocfg = None \<and> \<not> dump_rank then Some (Inr (kept i, s)) else
      let s1 = bump ''forward_calls'' s in
      case early_skip cfg i s1 of Some key \<Rightarrow> Some (Inr (kept i, bump key s1)) | None \<Rightarrow>
      let s2 = gap_bump i s1 in
      case late_skip cfg i s2 of Some key \<Rightarrow> Some (Inr (kept i, bump key s2)) | None \<Rightarrow>
      let (cand_ids, cand_scores) = hi_reference i (min (hc_ref_topk cfg) (hi_seq i));
          (sample, s3) = rotate_at_boundary i s2 in
      pbind (case ocfg of None \<Rightarrow> Some (Inr (None, None, hs_lrus s3))
             | Some oc \<Rightarrow> apply_override lru_digest oc mapping i cand_ids (map (the \<circ> float_value) cand_scores) (hs_lrus s3))
        (\<lambda>(override, sent, lrus).
          let s4 = s3\<lparr>hs_lrus := lrus\<rparr>;
              indices = (case override of None \<Rightarrow> hi_topk i
                 | Some ap \<Rightarrow> if ap_selected ap \<noteq> set (hi_topk i) then sorted_list_of_set (ap_selected ap) else hi_topk i);
              out = \<lparr>ho_indices = indices, ho_sent = sent, ho_dump = None\<rparr> in
          if override \<noteq> None \<and> oc_verify_ranks (the ocfg) \<and> hi_dist i \<noteq> None \<and> \<not> hi_ranks_agree i then Some (Inl RuntimeError)
          else if \<not> dump_rank then Some (Inr (out, s4))
          else case sample of None \<Rightarrow> Some (Inl NameError)
            | Some sm \<Rightarrow> Some (Inr (write_dump cfg ocfg i cand_ids cand_scores override sm out s4))))"

subsection \<open>The summary at exit\<close>

definition per_layer_dumps :: "hook_state \<Rightarrow> (string \<times> int) list" where
  "per_layer_dumps s = map (\<lambda>(k, v). (drop 6 k, v)) (filter (\<lambda>(k, v). starts_with ''dumps:'' k) (hs_counters s))"

definition write_summary :: "hook_state \<Rightarrow> ((string \<times> int) list \<times> (string \<times> int) list \<times> string) option" where
  "write_summary s = (if \<not> hs_ready s then None else Some (per_layer_dumps s, hs_last_seq s, hs_sample s))"


subsection \<open>The last sequence number is never recorded\<close>

lemma bump_simps [simp]:
  "hs_last_seq (bump k s) = hs_last_seq s" "hs_lrus (bump k s) = hs_lrus s" "hs_sample (bump k s) = hs_sample s"
  "hs_stash (bump k s) = hs_stash s" "hs_ready (bump k s) = hs_ready s"
  "dict_get (hs_counters (bump k s)) k' 0 = (if k' = k then dict_get (hs_counters s) k 0 + 1 else dict_get (hs_counters s) k' 0)"
  by (simp_all add: bump_def dict_get_set)

lemma gap_bump_simps [simp]:
  "hs_last_seq (gap_bump i s) = hs_last_seq s" "hs_lrus (gap_bump i s) = hs_lrus s" "hs_sample (gap_bump i s) = hs_sample s"
  "hs_stash (gap_bump i s) = hs_stash s"
  by (simp_all add: gap_bump_def split: option.split)

lemma write_dump_simps [simp]:
  "hs_last_seq (snd (write_dump cfg ocfg i ids scs ov sm out s)) = hs_last_seq s"
  "hs_lrus (snd (write_dump cfg ocfg i ids scs ov sm out s)) = hs_lrus s"
  "hs_sample (snd (write_dump cfg ocfg i ids scs ov sm out s)) = hs_sample s"
  "hs_stash (snd (write_dump cfg ocfg i ids scs ov sm out s)) = hs_stash s"
  "ho_indices (fst (write_dump cfg ocfg i ids scs ov sm out s)) = ho_indices out"
  "ho_sent (fst (write_dump cfg ocfg i ids scs ov sm out s)) = ho_sent out"
  by (simp_all add: write_dump_def Let_def)

text \<open>
  The ways a call goes on after all checks. \<open>None\<close> for the reasons to skip leaves the reference
  ranking, the rotation and the override.
\<close>

lemma maybe_dump_cases:
  fixes i :: "('s :: {linorder, uminus, minus}) hook_input"
  assumes "maybe_dump dg cfg ocfg mapping i s = Some (Inr (out, s'))"
  obtains (skip) "out = kept i" and "hs_last_seq s' = hs_last_seq s" and "hs_lrus s' = hs_lrus s" and "hs_sample s' = hs_sample s" and "hs_stash s' = hs_stash s"
  | (run) s2 ids scs sample s3 override sent lrus where
    "s2 = gap_bump i (bump ''forward_calls'' s)" and "early_skip cfg i (bump ''forward_calls'' s) = None" and "late_skip cfg i s2 = None"
    and "hi_reference i (min (hc_ref_topk cfg) (hi_seq i)) = (ids, scs)" and "rotate_at_boundary i s2 = (sample, s3)"
    and "(case ocfg of None \<Rightarrow> Some (Inr (None, None, hs_lrus s3))
       | Some oc \<Rightarrow> apply_override dg oc mapping i ids (map (the \<circ> float_value) scs) (hs_lrus s3)) = Some (Inr (override, sent, lrus))"
    and "ho_indices out = (case override of None \<Rightarrow> hi_topk i
       | Some ap \<Rightarrow> if ap_selected ap \<noteq> set (hi_topk i) then sorted_list_of_set (ap_selected ap) else hi_topk i)"
    and "ho_sent out = sent" and "hs_lrus s' = lrus" and "hs_last_seq s' = hs_last_seq s3" and "hs_sample s' = hs_sample s3" and "hs_stash s' = hs_stash s3"
    and "\<not> (hc_enable cfg \<and> hi_tp_rank i = hc_rank cfg) \<and> ho_dump out = None \<or>
       (\<exists>sm out0. sample = Some sm \<and> ho_dump out0 = None \<and> (out, s') = write_dump cfg ocfg i ids scs override sm out0 (s3\<lparr>hs_lrus := lrus\<rparr>))"
proof -
  let ?s1 = "bump ''forward_calls'' s" and ?dr = "hc_enable cfg \<and> hi_tp_rank i = hc_rank cfg"
  let ?s2 = "gap_bump i ?s1"
  consider "ocfg = None \<and> \<not> ?dr" | key where "\<not> (ocfg = None \<and> \<not> ?dr)" "early_skip cfg i ?s1 = Some key"
    | key where "\<not> (ocfg = None \<and> \<not> ?dr)" "early_skip cfg i ?s1 = None" "late_skip cfg i ?s2 = Some key"
    | "\<not> (ocfg = None \<and> \<not> ?dr)" "early_skip cfg i ?s1 = None" "late_skip cfg i ?s2 = None"
    by (cases "ocfg = None \<and> \<not> ?dr"; cases "early_skip cfg i ?s1"; cases "late_skip cfg i ?s2") blast+
  then show thesis
  proof cases
    case 1
    then show thesis using assms skip by (auto simp: maybe_dump_def)
  next
    case 2
    then show thesis using assms skip by (auto simp: maybe_dump_def Let_def)
  next
    case 3
    then show thesis using assms skip by (auto simp: maybe_dump_def Let_def)
  next
    case 4
    obtain ids scs where ref: "hi_reference i (min (hc_ref_topk cfg) (hi_seq i)) = (ids, scs)" by fastforce
    obtain sample s3 where rot: "rotate_at_boundary i ?s2 = (sample, s3)" by fastforce
    let ?ov = "case ocfg of None \<Rightarrow> Some (Inr (None, None, hs_lrus s3))
       | Some oc \<Rightarrow> apply_override dg oc mapping i ids (map (the \<circ> float_value) scs) (hs_lrus s3)"
    have eq: "maybe_dump dg cfg ocfg mapping i s = pbind ?ov (\<lambda>(override, sent, lrus).
          let s4 = s3\<lparr>hs_lrus := lrus\<rparr>;
              indices = (case override of None \<Rightarrow> hi_topk i
                 | Some ap \<Rightarrow> if ap_selected ap \<noteq> set (hi_topk i) then sorted_list_of_set (ap_selected ap) else hi_topk i);
              out = \<lparr>ho_indices = indices, ho_sent = sent, ho_dump = None\<rparr> in
          if override \<noteq> None \<and> oc_verify_ranks (the ocfg) \<and> hi_dist i \<noteq> None \<and> \<not> hi_ranks_agree i then Some (Inl RuntimeError)
          else if \<not> ?dr then Some (Inr (out, s4))
          else case sample of None \<Rightarrow> Some (Inl NameError)
            | Some sm \<Rightarrow> Some (Inr (write_dump cfg ocfg i ids scs override sm out s4)))"
      unfolding maybe_dump_def Let_def ref rot 4(2,3) prod.case option.case using 4(1) by (simp only: if_False)
    obtain v where v: "?ov = Some (Inr v)" using assms unfolding eq pbind_Inr_iff by blast
    obtain override sent lrus where "v = (override, sent, lrus)" by (cases v)
    then have ov: "?ov = Some (Inr (override, sent, lrus))" using v by simp
    let ?idx = "case override of None \<Rightarrow> hi_topk i
       | Some ap \<Rightarrow> if ap_selected ap \<noteq> set (hi_topk i) then sorted_list_of_set (ap_selected ap) else hi_topk i"
    let ?out = "\<lparr>ho_indices = ?idx, ho_sent = sent, ho_dump = None\<rparr> :: 's hook_output"
    have dis: "\<not> ?dr \<and> (out, s') = (?out, s3\<lparr>hs_lrus := lrus\<rparr>) \<or>
        ?dr \<and> (\<exists>sm. sample = Some sm \<and> (out, s') = write_dump cfg ocfg i ids scs override sm ?out (s3\<lparr>hs_lrus := lrus\<rparr>))"
      using assms unfolding eq ov pbind_simps prod.case Let_def by (cases sample) (auto split: if_splits)
    then have or: "(\<not> ?dr \<and> out = ?out \<and> s' = s3\<lparr>hs_lrus := lrus\<rparr>) \<or>
        (\<exists>sm. sample = Some sm \<and> out = fst (write_dump cfg ocfg i ids scs override sm ?out (s3\<lparr>hs_lrus := lrus\<rparr>)) \<and>
          s' = snd (write_dump cfg ocfg i ids scs override sm ?out (s3\<lparr>hs_lrus := lrus\<rparr>)))"
      unfolding prod_eq_iff fst_conv snd_conv by blast
    have none: "ho_dump ?out = None" by simp
    show thesis
    proof (rule run [OF refl 4(2,3) ref rot ov])
      show "ho_indices out = ?idx" "ho_sent out = sent" "hs_lrus s' = lrus" "hs_last_seq s' = hs_last_seq s3"
        "hs_sample s' = hs_sample s3" "hs_stash s' = hs_stash s3" using or by auto
      show "\<not> ?dr \<and> ho_dump out = None \<or>
        (\<exists>sm out0. sample = Some sm \<and> ho_dump out0 = None \<and> (out, s') = write_dump cfg ocfg i ids scs override sm out0 (s3\<lparr>hs_lrus := lrus\<rparr>))"
        using dis
      proof
        assume "\<not> ?dr \<and> (out, s') = (?out, s3\<lparr>hs_lrus := lrus\<rparr>)"
        then show ?thesis by simp
      next
        assume "?dr \<and> (\<exists>sm. sample = Some sm \<and> (out, s') = write_dump cfg ocfg i ids scs override sm ?out (s3\<lparr>hs_lrus := lrus\<rparr>))"
        then show ?thesis using none by blast
      qed
    qed
  qed
qed

lemma rotate_keeps:
  assumes "rotate_at_boundary i s = (sample, s')"
  shows "hs_stash s' = hs_stash s" and "hs_last_seq s = [] \<Longrightarrow> hs_last_seq s' = [] \<and> sample = Some (marker_sample (hi_marker i)) \<and> hs_sample s' = marker_sample (hi_marker i)"
  using assms by (auto simp: rotate_at_boundary_def rotate_sample_def Let_def split: if_splits)

inductive hook_reachable :: "(int list \<Rightarrow> string) \<Rightarrow> hook_cfg \<Rightarrow> override_cfg option \<Rightarrow> dense_mapping \<Rightarrow> hook_state \<Rightarrow> bool"
  for dg cfg ocfg mapping where
  start: "hook_reachable dg cfg ocfg mapping hook_init"
| stash: "hook_reachable dg cfg ocfg mapping s \<Longrightarrow> hook_reachable dg cfg ocfg mapping (stash_indexer_inputs cfg ocfg r c8 sh s)"
| dump: "hook_reachable dg cfg ocfg mapping s \<Longrightarrow> maybe_dump dg cfg ocfg mapping (i :: int hook_input) s = Some (Inr (out, s')) \<Longrightarrow>
    hook_reachable dg cfg ocfg mapping s'"

text \<open>
  The dictionary of last sequence numbers stays empty for the life of the process: no operation
  ever adds an entry, so the checks on replayed and skipped steps never fire and the marker file is
  read at every step.
\<close>

theorem last_seq_never_set:
  "hook_reachable dg cfg ocfg mapping s \<Longrightarrow> hs_last_seq s = []"
proof (induction rule: hook_reachable.induct)
  case (dump s i out s')
  from dump.hyps(2) show ?case
  proof (cases rule: maybe_dump_cases)
    case skip
    then show ?thesis using dump.IH by simp
  next
    case (run s2 ids scs sample s3 override sent lrus)
    then show ?thesis using dump.IH rotate_keeps(2) [OF run(5)] by simp
  qed
qed (simp_all add: hook_init_def stash_indexer_inputs_def)


subsection \<open>Dumps can be loaded again\<close>

lemma while_block:
  "list_all P xs \<Longrightarrow> takeWhile P (xs @ ys) = xs @ takeWhile P ys"
  "list_all P xs \<Longrightarrow> dropWhile P (xs @ ys) = dropWhile P ys"
  by (induction xs) simp_all

lemma parse_dump_name_show:
  assumes "name \<noteq> []" and "list_all (\<lambda>ch. ch \<noteq> CHR 0x0A) name" and "0 \<le> n"
  shows "parse_dump_name (name @ ''_s'' @ show_int n @ ''.pt'') = Some (name, n)"
proof -
  let ?d = "show_nat (nat n)"
  have d: "list_all is_digit ?d" "?d \<noteq> []" using show_nat_digits by auto
  have val: "digits_val 0 False ?d = Some (nat n)" using digits_val_digits [OF d(1)] d(2) foldl_show_nat by simp
  have int: "show_int n = ?d" using assms(3) by (simp add: show_int_def)
  have ext: "strip_extension (name @ ''_s'' @ ?d @ ''.pt'') = Some (name @ ''_s'' @ ?d)"
    by (simp add: strip_extension_def ends_with_def)
  have all: "list_all is_digit (rev ?d)" using d(1) by (simp add: list_all_iff)
  have "\<not> is_digit CHR ''s''" by (simp add: is_digit_def)
  have "rev (name @ ''_s'' @ ?d) = rev ?d @ ''s_'' @ rev name" by simp
  moreover have "takeWhile is_digit (rev ?d @ ''s_'' @ rev name) = rev ?d" "dropWhile is_digit (rev ?d @ ''s_'' @ rev name) = ''s_'' @ rev name"
    using \<open>\<not> is_digit CHR ''s''\<close> while_block [OF all] by simp_all
  ultimately show ?thesis
    using assms d(2) val ext unfolding int by (simp add: parse_dump_name_def Let_def list_all_iff)
qed

definition reference_ok :: "'s hook_input \<Rightarrow> int \<Rightarrow> bool" where
  "reference_ok i keep \<longleftrightarrow>
     (let (ids, scs) = hi_reference i keep in
      int (length ids) = keep \<and> length scs = length ids \<and> distinct ids \<and> set ids \<subseteq> {0..<hi_seq i})"

lemma flatten_leaves [simp]: "flatten (Node (map Leaf xs)) = xs"
  by (induction xs) simp_all

lemma truncate_dump_record:
  "raw_dump.truncate (dump_record ocfg i ids scs ov) =
   \<lparr>rd_layer = Some (hi_layer_name i), rd_seq_lens_key = Some (Node [Leaf (hi_seq i)]), rd_seq_lens_query = Some (Node [Leaf 1]),
    rd_has_reference = Some True, rd_indices = Some (Node (map Leaf (sort (hi_topk i)))),
    rd_candidate_indices = Some (Node (map Leaf ids)), rd_candidate_scores = Some (Node (map Leaf scs))\<rparr>"
  by (simp add: dump_record_def Let_def raw_dump.truncate_def)

lemma dumped_record:
  assumes "(out, s') = write_dump cfg ocfg i ids scs ov sm out0 s" and "ho_dump out0 = None" and "ho_dump out = Some ev"
  shows "de_record ev = dump_record ocfg i ids scs ov" and "de_file ev = hi_layer_name i @ ''_s'' @ show_int (hi_seq i) @ ''.pt''" and "de_sample ev = sm"
proof -
  have "out = fst (write_dump cfg ocfg i ids scs ov sm out0 s)" using assms(1) by (metis fst_conv)
  then show "de_record ev = dump_record ocfg i ids scs ov" "de_file ev = hi_layer_name i @ ''_s'' @ show_int (hi_seq i) @ ''.pt''" "de_sample ev = sm"
    using assms(2,3) by (auto simp: write_dump_def Let_def split: if_splits)
qed



definition demo_cfg :: hook_cfg where
  "demo_cfg = \<lparr>hc_enable = True, hc_dump_dir = ''/d'', hc_rank = 0, hc_ref_topk = 2400, hc_native_topk = 2048, hc_min_seq = 1, hc_max_steps = 0\<rparr>"

definition demo_ocfg :: override_cfg where
  "demo_ocfg = \<lparr>oc_capacity = 2048, oc_budget = 0, oc_protect_top = 0, oc_stride = 4, oc_mapping_path = ''m'', oc_verify_ranks = True, oc_rank_map = None\<rparr>"

definition demo_input :: "int hook_input" where
  "demo_input = \<lparr>hi_tp_rank = 0, hi_layer_name = ''layers.0'', hi_topk = [1, 0], hi_decode_only = True, hi_dsa_cp = False, hi_kv_parts = Some 3,
     hi_query_numel = 1, hi_key_numel = 1, hi_seq = 2, hi_n_head = 1, hi_head_dim = 2, hi_cache_shape = [4, 16, 1, 2], hi_block_table_shape = (1, 4),
     hi_reference = (\<lambda>keep. ([1, 0], [Finite 5, Finite 3])), hi_marker = None, hi_dist = None, hi_ranks_agree = True\<rparr>"

definition demo_state :: hook_state where
  "demo_state = hook_init\<lparr>hs_stash := Some \<lparr>sh_q_shape = [1, 1, 2], sh_weights_numel = 1\<rparr>\<rparr>"

lemma demo_dumps:
  "\<exists>out s' ev. maybe_dump (\<lambda>_. []) demo_cfg None [] demo_input demo_state = Some (Inr (out, s')) \<and> ho_dump out = Some ev"
proof -
  have "(case maybe_dump (\<lambda>_. []) demo_cfg None [] demo_input demo_state of Some (Inr (out, s')) \<Rightarrow> ho_dump out \<noteq> None | _ \<Rightarrow> False)" by code_simp
  then show ?thesis by (auto split: option.splits sum.splits prod.splits)
qed


subsection \<open>Online and offline caches agree\<close>

fun baseline_states :: "int \<Rightarrow> (int \<times> batch_lru) list \<Rightarrow> 's oracle_row list \<Rightarrow> int list list result option" where
  "baseline_states capacity caches [] = Some (Inr [])"
| "baseline_states capacity caches (row # rows) =
     pbind (baseline_step capacity caches row) (\<lambda>(state, caches').
     pbind (baseline_states capacity caches' rows) (\<lambda>states. Some (Inr (state # states))))"

fun hook_run ::
  "(int list \<Rightarrow> string) \<Rightarrow> hook_cfg \<Rightarrow> override_cfg option \<Rightarrow> dense_mapping \<Rightarrow> ('s :: {linorder, uminus, minus}) hook_input list \<Rightarrow>
   hook_state \<Rightarrow> ('s hook_output list \<times> hook_state) result option" where
  "hook_run lru_digest cfg ocfg mapping [] s = Some (Inr ([], s))"
| "hook_run lru_digest cfg ocfg mapping (i # rest) s =
     pbind (maybe_dump lru_digest cfg ocfg mapping i s) (\<lambda>(out, s').
     pbind (hook_run lru_digest cfg ocfg mapping rest s') (\<lambda>(outs, s''). Some (Inr (out # outs, s''))))"

definition overridden_dump :: "'s hook_output \<Rightarrow> bool" where
  "overridden_dump out = (case ho_dump out of None \<Rightarrow> False | Some ev \<Rightarrow> hd_overridden (de_record ev) = Some True)"

definition out_digest :: "'s hook_output \<Rightarrow> string option" where
  "out_digest out = hd_cache_state (de_record (the (ho_dump out)))"

lemma overridden_step:
  fixes i :: "('s :: {linorder, uminus, minus}) hook_input"
  assumes "maybe_dump dg cfg (Some oc) mapping i s = Some (Inr (out, s'))" and "overridden_dump out"
    and "hs_last_seq s = []" and "marker_sample (hi_marker i) = hs_sample s"
  shows "\<exists>l lru'. layer_number (hi_layer_name i) = Inr l \<and> hs_last_seq s' = [] \<and> hs_sample s' = hs_sample s \<and>
    commit_to (set (hi_topk i)) (dict_get (hs_lrus s) (hi_layer_name i) (BatchLRU (oc_capacity oc))) = Some (Inr lru') \<and>
    hs_lrus s' = dict_set (hi_layer_name i) lru' (hs_lrus s) \<and>
    out_digest out = Some (dg (lru_rows (dict_get (hs_lrus s) (hi_layer_name i) (BatchLRU (oc_capacity oc)))))"
  using assms(1)
proof (cases rule: maybe_dump_cases)
  case skip
  then show ?thesis using assms(2) by (simp add: overridden_dump_def kept_def)
next
  case (run s2 ids scs sample s3 override sent lrus)
  have s3: "s3 = s2" "hs_last_seq s3 = []" "hs_lrus s3 = hs_lrus s" "hs_sample s3 = hs_sample s"
    using run(1,5) assms(3,4) by (auto simp: rotate_at_boundary_def Let_def)
  obtain ev where ev: "ho_dump out = Some ev" "hd_overridden (de_record ev) = Some True"
    using assms(2) by (auto simp: overridden_dump_def split: option.splits)
  obtain sm out0 s4 where "(out, s') = write_dump cfg (Some oc) i ids scs override sm out0 s4" "ho_dump out0 = None"
    using run(13) ev(1) by auto
  note rec = dumped_record [OF this ev(1)]
  then obtain ap where ap: "override = Some ap"
    using ev(2) by (auto simp: dump_record_def Let_def split: option.splits)
  have dig: "out_digest out = Some (ap_digest ap)" using ev(1) rec(1) ap by (simp add: out_digest_def dump_record_def Let_def)
  obtain l where l: "layer_number (hi_layer_name i) = Inr l"
    using run(6) ap by (cases "layer_number (hi_layer_name i)") (auto simp: apply_override_def Let_def)
  let ?lru = "dict_get (hs_lrus s) (hi_layer_name i) (BatchLRU (oc_capacity oc))"
  have "\<exists>lru'. commit_to (set (hi_topk i)) ?lru = Some (Inr lru') \<and> lrus = dict_set (hi_layer_name i) lru' (hs_lrus s) \<and> ap_digest ap = dg (lru_rows ?lru)"
    using run(6) ap l s3(3)
    by (auto simp: apply_override_def Let_def pbind_Inr_iff split: sum.splits if_splits option.splits prod.splits)
  then show ?thesis using l s3 run(9-11) dig by auto
qed

definition caches_agree :: "int \<Rightarrow> string set \<Rightarrow> (string \<times> batch_lru) list \<Rightarrow> (int \<times> batch_lru) list \<Rightarrow> bool" where
  "caches_agree capacity names lrus caches \<longleftrightarrow>
     (\<forall>name\<in>names. \<forall>l. layer_number name = Inr l \<longrightarrow> dict_get lrus name (BatchLRU capacity) = dict_get caches l (BatchLRU capacity))"

lemma caches_agree_set:
  assumes "caches_agree capacity names lrus caches" and "layer_number name = Inr l" and "name \<in> names"
    and "\<forall>a\<in>names. \<forall>b\<in>names. layer_number a = layer_number b \<longrightarrow> a = b"
  shows "caches_agree capacity names (dict_set name c lrus) (dict_set l c caches)"
  unfolding caches_agree_def
proof (intro ballI allI impI)
  fix other k assume o: "other \<in> names" "layer_number other = Inr k"
  have "other = name \<longleftrightarrow> k = l" using assms(2-4) o by (metis sum.inject(2))
  then show "dict_get (dict_set name c lrus) other (BatchLRU capacity) = dict_get (dict_set l c caches) k (BatchLRU capacity)"
    using assms(1) o by (simp add: dict_get_set caches_agree_def)
qed

lemma hook_run_digests:
  fixes ins :: "('s :: {linorder, uminus, minus}) hook_input list"
  assumes "hook_run dg cfg (Some oc) mapping ins s = Some (Inr (outs, s'))" and "\<forall>out\<in>set outs. overridden_dump out"
    and "hs_last_seq s = []" and "\<forall>i\<in>set ins. marker_sample (hi_marker i) = hs_sample s" and "oc_capacity oc \<noteq> 0"
    and "list_all2 (\<lambda>i r. layer_number (hi_layer_name i) = Inr (or_layer r) \<and> set (or_native r) = set (hi_topk i)) ins rows"
    and "hi_layer_name ` set ins \<subseteq> names" and "\<forall>a\<in>names. \<forall>b\<in>names. layer_number a = layer_number b \<longrightarrow> a = b"
    and "caches_agree (oc_capacity oc) names (hs_lrus s) caches"
  shows "\<exists>states. baseline_states (oc_capacity oc) caches rows = Some (Inr states) \<and> map out_digest outs = map (\<lambda>st. Some (dg st)) states"
  using assms
proof (induction ins arbitrary: s outs rows caches)
  case (Cons i rest)
  obtain r rs where rows: "rows = r # rs" "layer_number (hi_layer_name i) = Inr (or_layer r)" "set (or_native r) = set (hi_topk i)"
    and rs: "list_all2 (\<lambda>i r. layer_number (hi_layer_name i) = Inr (or_layer r) \<and> set (or_native r) = set (hi_topk i)) rest rs"
    using Cons.prems(6) by (auto simp: list_all2_Cons1)
  obtain out s1 os where step: "maybe_dump dg cfg (Some oc) mapping i s = Some (Inr (out, s1))"
    and more: "hook_run dg cfg (Some oc) mapping rest s1 = Some (Inr (os, s'))" and outs: "outs = out # os"
    using Cons.prems(1) by (auto simp: pbind_Inr_iff)
  let ?name = "hi_layer_name i" and ?cap = "oc_capacity oc"
  have "overridden_dump out" "marker_sample (hi_marker i) = hs_sample s" using Cons.prems(2,4) outs by auto
  from overridden_step [OF step this(1) Cons.prems(3) this(2)] obtain lru' where
    k: "hs_last_seq s1 = []" "hs_sample s1 = hs_sample s" "commit_to (set (hi_topk i)) (dict_get (hs_lrus s) ?name (BatchLRU ?cap)) = Some (Inr lru')"
    "hs_lrus s1 = dict_set ?name lru' (hs_lrus s)" "out_digest out = Some (dg (lru_rows (dict_get (hs_lrus s) ?name (BatchLRU ?cap))))"
    by auto
  have name: "?name \<in> names" using Cons.prems(7) by simp
  have eq: "dict_get (hs_lrus s) ?name (BatchLRU ?cap) = dict_get caches (or_layer r) (BatchLRU ?cap)"
    using Cons.prems(9) rows(2) name by (simp add: caches_agree_def)
  have base: "baseline_step ?cap caches r = Some (Inr (lru_rows (dict_get caches (or_layer r) (BatchLRU ?cap)), dict_set (or_layer r) lru' caches))"
    using k(3) rows(3) Cons.prems(5) unfolding eq by (simp add: baseline_step_def Let_def)
  have "caches_agree ?cap names (hs_lrus s1) (dict_set (or_layer r) lru' caches)"
    unfolding k(4) by (rule caches_agree_set [OF Cons.prems(9) rows(2) name Cons.prems(8)])
  then have "\<exists>states. baseline_states ?cap (dict_set (or_layer r) lru' caches) rs = Some (Inr states) \<and> map out_digest os = map (\<lambda>st. Some (dg st)) states"
    using Cons.prems outs k(1,2) rs by (intro Cons.IH [OF more]) auto
  then show ?case using base rows(1) outs k(5) eq by auto
qed simp

text \<open>
  C11. While the override is applied at every step of a sample, the cache digest the hook records at
  each step is the digest of the state the offline replay reaches when it advances its own caches
  with the same native selections: the check that pins the online trajectory to the replayed
  baseline succeeds. Layers are told apart by their numbers.
\<close>

theorem online_digests_match_offline:
  fixes ins :: "('s :: {linorder, uminus, minus}) hook_input list"
  assumes "hook_run dg cfg (Some oc) mapping ins s = Some (Inr (outs, s'))" and "\<forall>out\<in>set outs. overridden_dump out"
    and "hs_last_seq s = []" and "hs_lrus s = []" and "\<forall>i\<in>set ins. marker_sample (hi_marker i) = hs_sample s" and "oc_capacity oc \<noteq> 0"
    and "list_all2 (\<lambda>i r. layer_number (hi_layer_name i) = Inr (or_layer r) \<and> set (or_native r) = set (hi_topk i)) ins rows"
    and "\<forall>a\<in>hi_layer_name ` set ins. \<forall>b\<in>hi_layer_name ` set ins. layer_number a = layer_number b \<longrightarrow> a = b"
  shows "\<exists>states. baseline_states (oc_capacity oc) [] rows = Some (Inr states) \<and> map out_digest outs = map (\<lambda>st. Some (dg st)) states"
proof -
  have "caches_agree (oc_capacity oc) (hi_layer_name ` set ins) (hs_lrus s) []" using assms(4) by (simp add: caches_agree_def dict_get_def)
  from hook_run_digests [OF assms(1-3,5-7) order_refl assms(8) this] show ?thesis .
qed


theorem online_digests_match_offline_witness:
  "\<exists>outs s' states. hook_run (\<lambda>st. map (\<lambda>_. CHR ''x'') st) demo_cfg (Some demo_ocfg) [0, 5, 0, 0, 0, 0, 0, 0] [demo_input] demo_state = Some (Inr (outs, s')) \<and>
     baseline_states 2048 [] [demo_row\<lparr>or_native := [0, 1]\<rparr>] = Some (Inr states) \<and>
     map out_digest outs = map (\<lambda>st. Some (map (\<lambda>_. CHR ''x'') st)) states"
proof -
  let ?ins = "[demo_input]"
  have "(case hook_run (\<lambda>st. map (\<lambda>_. CHR ''x'') st) demo_cfg (Some demo_ocfg) [0, 5, 0, 0, 0, 0, 0, 0] ?ins demo_state of
      Some (Inr (outs, s')) \<Rightarrow> list_all overridden_dump outs | _ \<Rightarrow> False)" by code_simp
  then obtain outs s' where run: "hook_run (\<lambda>st. map (\<lambda>_. CHR ''x'') st) demo_cfg (Some demo_ocfg) [0, 5, 0, 0, 0, 0, 0, 0] ?ins demo_state = Some (Inr (outs, s'))"
    and all: "\<forall>out\<in>set outs. overridden_dump out"
    by (auto simp: list_all_iff split: option.splits sum.splits prod.splits)
  have layer: "layer_number ''layers.0'' = Inr 0" by code_simp
  have "\<exists>states. baseline_states (oc_capacity demo_ocfg) [] [demo_row\<lparr>or_native := [0, 1]\<rparr>] = Some (Inr states) \<and>
     map out_digest outs = map (\<lambda>st. Some (map (\<lambda>_. CHR ''x'') st)) states"
  proof (rule online_digests_match_offline [OF run all])
    show "\<forall>i\<in>set ?ins. marker_sample (hi_marker i) = hs_sample demo_state" by (simp add: demo_input_def demo_state_def hook_init_def marker_sample_def)
    show "list_all2 (\<lambda>i r. layer_number (hi_layer_name i) = Inr (or_layer r) \<and> set (or_native r) = set (hi_topk i)) ?ins
        [demo_row\<lparr>or_native := [0, 1]\<rparr>]"
      using layer by (auto simp: demo_input_def demo_row_def)
  qed (simp_all add: demo_state_def hook_init_def demo_ocfg_def demo_input_def)
  then show ?thesis using run by (simp add: demo_ocfg_def)
qed

subsection \<open>All ranks attend over the same tokens\<close>

lemma apply_override_ranks:
  fixes i :: "('s :: {linorder, uminus, minus}) hook_input"
  assumes "apply_override dg oc mapping i ids scs lrus = Some (Inr (override, sent, lrus'))" and "hi_tp_rank i = 0" and "r \<noteq> 0"
  shows "\<exists>override'. apply_override dg oc mapping (i\<lparr>hi_tp_rank := r, hi_dist := Some (case sent of None \<Rightarrow> None | Some x \<Rightarrow> x)\<rparr>) ids scs lrus =
      Some (Inr (override', sent, lrus')) \<and> map_option ap_selected override' = map_option ap_selected override"
proof -
  have b0: "broadcast_from_rank0 0 w sel = sel" for w sel by (simp add: broadcast_from_rank0_def split: option.splits)
  have br: "broadcast_from_rank0 r (Some w) sel = w" for w sel using assms(3) by (simp add: broadcast_from_rank0_def)
  let ?name = "hi_layer_name i" and ?lru = "dict_get lrus (hi_layer_name i) (BatchLRU (oc_capacity oc))"
  show ?thesis
  proof (cases "layer_number ?name")
    case (Inl e)
    then show ?thesis using assms(1) by (simp add: apply_override_def Let_def)
  next
    case l: (Inr l)
    show ?thesis
    proof (cases "hook_rank oc l")
      case (Inl e)
      then show ?thesis using assms(1) l by (simp add: apply_override_def Let_def)
    next
      case rank: (Inr rank)
      let ?base = "rank * oc_stride oc * SLOT"
      show ?thesis
      proof (cases "dense_len mapping \<le> (?base + (hi_seq i - 1) * SLOT) div 16384")
        case True
        then show ?thesis using assms(1) l rank by (simp add: apply_override_def Let_def)
      next
        case inside: False
        show ?thesis
        proof (cases "rank0_decision oc mapping ?base (hi_seq i) (hi_topk i) ids scs ?lru")
          case (Inl e)
          then show ?thesis using assms(1,2) l rank inside by (simp add: apply_override_def Let_def)
        next
          case (Inr v)
          obtain dec swaps where v: "v = (dec, swaps)" by fastforce
          show ?thesis
            using assms l rank inside Inr v by (cases dec) (auto simp: apply_override_def Let_def b0 br pbind_Inr_iff)
        qed
      qed
    qed
  qed
qed


text \<open>The checks do not look at the rank, and without a step limit not at the counters.\<close>

lemma early_skip_agree:
  "hs_last_seq s1 = hs_last_seq s \<Longrightarrow> hs_stash s1 = hs_stash s \<Longrightarrow> early_skip cfg i s1 = early_skip cfg i s"
  "early_skip cfg (i\<lparr>hi_tp_rank := r, hi_dist := w\<rparr>) s = early_skip cfg i s"
  by (simp only: early_skip_def) (auto simp: early_skip_def split: option.splits)

lemma skips_agree:
  assumes "hs_last_seq s1 = hs_last_seq s" and "hs_stash s1 = hs_stash s" and "hc_max_steps cfg = 0"
  shows "early_skip cfg (i\<lparr>hi_tp_rank := r, hi_dist := w\<rparr>) s1 = early_skip cfg i s"
    and "late_skip cfg (i\<lparr>hi_tp_rank := r, hi_dist := w\<rparr>) s1 = late_skip cfg i s"
    and "hs_sample s1 = hs_sample s \<Longrightarrow> hs_lrus s1 = hs_lrus s \<Longrightarrow>
      fst (rotate_at_boundary (i\<lparr>hi_tp_rank := r, hi_dist := w\<rparr>) s1) = fst (rotate_at_boundary i s) \<and>
      hs_lrus (snd (rotate_at_boundary (i\<lparr>hi_tp_rank := r, hi_dist := w\<rparr>) s1)) = hs_lrus (snd (rotate_at_boundary i s)) \<and>
      hs_last_seq (snd (rotate_at_boundary (i\<lparr>hi_tp_rank := r, hi_dist := w\<rparr>) s1)) = hs_last_seq (snd (rotate_at_boundary i s)) \<and>
      hs_sample (snd (rotate_at_boundary (i\<lparr>hi_tp_rank := r, hi_dist := w\<rparr>) s1)) = hs_sample (snd (rotate_at_boundary i s))"
  using assms
  by (auto simp: early_skip_def late_skip_def native_valid_def keys_available_def rotate_at_boundary_def rotate_sample_def Let_def split: option.splits)

lemma maybe_dump_run:
  fixes i :: "('s :: {linorder, uminus, minus}) hook_input"
  assumes "early_skip cfg i (bump ''forward_calls'' s) = None" and "late_skip cfg i (gap_bump i (bump ''forward_calls'' s)) = None"
    and "hi_reference i (min (hc_ref_topk cfg) (hi_seq i)) = (ids, scs)" and "rotate_at_boundary i (gap_bump i (bump ''forward_calls'' s)) = (Some sm, s3)"
    and "apply_override dg oc mapping i ids (map (the \<circ> float_value) scs) (hs_lrus s3) = Some (Inr (override, sent, lrus))" and "hi_ranks_agree i"
  shows "\<exists>out s'. maybe_dump dg cfg (Some oc) mapping i s = Some (Inr (out, s')) \<and> ho_sent out = sent \<and> hs_lrus s' = lrus \<and>
    hs_last_seq s' = hs_last_seq s3 \<and> hs_sample s' = hs_sample s3 \<and> ho_indices out = (case override of None \<Rightarrow> hi_topk i
       | Some ap \<Rightarrow> if ap_selected ap \<noteq> set (hi_topk i) then sorted_list_of_set (ap_selected ap) else hi_topk i)"
proof -
  let ?dr = "hc_enable cfg \<and> hi_tp_rank i = hc_rank cfg"
  let ?out = "\<lparr>ho_indices = (case override of None \<Rightarrow> hi_topk i
       | Some ap \<Rightarrow> if ap_selected ap \<noteq> set (hi_topk i) then sorted_list_of_set (ap_selected ap) else hi_topk i), ho_sent = sent, ho_dump = None\<rparr> :: 's hook_output"
  let ?res = "if ?dr then write_dump cfg (Some oc) i ids scs override sm ?out (s3\<lparr>hs_lrus := lrus\<rparr>) else (?out, s3\<lparr>hs_lrus := lrus\<rparr>)"
  have "maybe_dump dg cfg (Some oc) mapping i s = Some (Inr ?res)"
    unfolding maybe_dump_def Let_def assms(1-5) prod.case option.case pbind_simps using assms(6) by simp
  then show ?thesis
    by (intro exI [of _ "fst ?res"] exI [of _ "snd ?res"]) (cases ?dr; auto)
qed

text \<open>
  C12. With the override on and no step limit, all tensor-parallel ranks attend over the same
  tokens: when rank 0 returns from a call, every other rank that has the same inputs and caches and
  receives what rank 0 broadcast returns the same indices, took part in the broadcast exactly when
  rank 0 did, and leaves its caches in the same state, so that the next call starts from equal
  caches again.
\<close>

theorem ranks_attend_same_tokens:
  fixes i :: "('s :: {linorder, uminus, minus}) hook_input"
  assumes "maybe_dump dg cfg (Some oc) mapping i s = Some (Inr (out, s'))" and "hi_tp_rank i = 0" and "r \<noteq> 0" and "hc_max_steps cfg = 0"
    and "hs_last_seq s = []" and "hs_last_seq s1 = []" and "hs_stash s1 = hs_stash s" and "hs_sample s1 = hs_sample s" and "hs_lrus s1 = hs_lrus s"
    and "hi_ranks_agree i"
  shows "\<exists>out1 s1'. maybe_dump dg cfg (Some oc) mapping (i\<lparr>hi_tp_rank := r, hi_dist := Some (case ho_sent out of None \<Rightarrow> None | Some x \<Rightarrow> x)\<rparr>) s1 =
      Some (Inr (out1, s1')) \<and> ho_indices out1 = ho_indices out \<and> ho_sent out1 = ho_sent out \<and> hs_lrus s1' = hs_lrus s' \<and>
    hs_last_seq s1' = [] \<and> hs_sample s1' = hs_sample s'"
proof -
  let ?w = "Some (case ho_sent out of None \<Rightarrow> None | Some x \<Rightarrow> x)"
  let ?i = "i\<lparr>hi_tp_rank := r, hi_dist := ?w\<rparr>"
  let ?t = "bump ''forward_calls'' s" and ?t1 = "bump ''forward_calls'' s1"
  have early: "early_skip cfg ?i ?t1 = early_skip cfg i ?t" using assms(4-7) by (intro skips_agree) simp_all
  have late: "late_skip cfg ?i (gap_bump ?i ?t1) = late_skip cfg i (gap_bump i ?t)" using assms(4-7) by (intro skips_agree) simp_all
  show ?thesis
  proof (cases "early_skip cfg i ?t = None \<and> late_skip cfg i (gap_bump i ?t) = None")
    case False
    then have "out = kept i \<and> hs_lrus s' = hs_lrus s \<and> hs_sample s' = hs_sample s"
      using assms(1) by (cases "early_skip cfg i ?t"; cases "late_skip cfg i (gap_bump i ?t)") (auto simp: maybe_dump_def Let_def)
    moreover have "\<exists>s1'. maybe_dump dg cfg (Some oc) mapping ?i s1 = Some (Inr (kept ?i, s1')) \<and> hs_lrus s1' = hs_lrus s1 \<and> hs_last_seq s1' = hs_last_seq s1 \<and> hs_sample s1' = hs_sample s1"
      using False early late
      by (cases "early_skip cfg i ?t"; cases "late_skip cfg i (gap_bump i ?t)") (auto simp: maybe_dump_def Let_def)
    ultimately show ?thesis using assms(6,8,9) by (auto simp: kept_def)
  next
    case True
    obtain ids scs where ref: "hi_reference i (min (hc_ref_topk cfg) (hi_seq i)) = (ids, scs)" by fastforce
    obtain sample s3 where rot: "rotate_at_boundary i (gap_bump i ?t) = (sample, s3)" by fastforce
    note rk = rotate_keeps(2) [OF rot]
    have sm: "sample = Some (marker_sample (hi_marker i))" "hs_last_seq s3 = []" using rk assms(5) by simp_all
    have "fst (rotate_at_boundary ?i (gap_bump ?i ?t1)) = fst (rotate_at_boundary i (gap_bump i ?t)) \<and>
        hs_lrus (snd (rotate_at_boundary ?i (gap_bump ?i ?t1))) = hs_lrus (snd (rotate_at_boundary i (gap_bump i ?t))) \<and>
        hs_last_seq (snd (rotate_at_boundary ?i (gap_bump ?i ?t1))) = hs_last_seq (snd (rotate_at_boundary i (gap_bump i ?t))) \<and>
        hs_sample (snd (rotate_at_boundary ?i (gap_bump ?i ?t1))) = hs_sample (snd (rotate_at_boundary i (gap_bump i ?t)))"
      using assms(4-9) by (intro skips_agree(3)) simp_all
    then obtain s31 where rot1: "rotate_at_boundary ?i (gap_bump ?i ?t1) = (sample, s31)" and s31: "hs_lrus s31 = hs_lrus s3" "hs_last_seq s31 = hs_last_seq s3" "hs_sample s31 = hs_sample s3"
      using rot by (metis fst_conv snd_conv surj_pair)
    obtain override sent lrus where ov: "apply_override dg oc mapping i ids (map (the \<circ> float_value) scs) (hs_lrus s3) = Some (Inr (override, sent, lrus))"
    proof -
      have "\<exists>v. apply_override dg oc mapping i ids (map (the \<circ> float_value) scs) (hs_lrus s3) = Some (Inr v)"
        using assms(1) True unfolding maybe_dump_def Let_def ref rot prod.case by (auto simp: pbind_Inr_iff)
      then show thesis using that by (metis prod_cases3)
    qed
    have o: "ho_sent out = sent" "hs_lrus s' = lrus" "hs_sample s' = hs_sample s3"
      "ho_indices out = (case override of None \<Rightarrow> hi_topk i
        | Some ap \<Rightarrow> if ap_selected ap \<noteq> set (hi_topk i) then sorted_list_of_set (ap_selected ap) else hi_topk i)"
      using maybe_dump_run [OF conjunct1 [OF True] conjunct2 [OF True] ref _ ov assms(10)] rot sm(1) assms(1) by auto
    obtain override' where ov': "apply_override dg oc mapping ?i ids (map (the \<circ> float_value) scs) (hs_lrus s31) = Some (Inr (override', sent, lrus))"
      and eq: "map_option ap_selected override' = map_option ap_selected override"
      using apply_override_ranks [OF ov assms(2,3)] o(1) s31(1) by auto
    have "early_skip cfg ?i ?t1 = None" "late_skip cfg ?i (gap_bump ?i ?t1) = None" using early late True by simp_all
    moreover have "hi_reference ?i (min (hc_ref_topk cfg) (hi_seq ?i)) = (ids, scs)" "hi_ranks_agree ?i" using ref assms(10) by simp_all
    ultimately have "\<exists>out1 s1'. maybe_dump dg cfg (Some oc) mapping ?i s1 = Some (Inr (out1, s1')) \<and> ho_sent out1 = sent \<and> hs_lrus s1' = lrus \<and>
        hs_last_seq s1' = hs_last_seq s31 \<and> hs_sample s1' = hs_sample s31 \<and> ho_indices out1 = (case override' of None \<Rightarrow> hi_topk ?i
       | Some ap \<Rightarrow> if ap_selected ap \<noteq> set (hi_topk ?i) then sorted_list_of_set (ap_selected ap) else hi_topk ?i)"
      using rot1 sm(1) ov' by (intro maybe_dump_run) simp_all
    moreover have "(case override' of None \<Rightarrow> hi_topk ?i
       | Some ap \<Rightarrow> if ap_selected ap \<noteq> set (hi_topk ?i) then sorted_list_of_set (ap_selected ap) else hi_topk ?i) = ho_indices out"
      using eq unfolding o(4) by (cases override; cases override') auto
    ultimately show ?thesis using o s31 sm(2) by auto
  qed
qed


theorem ranks_attend_same_tokens_witness:
  "\<exists>out s' out1 s1'. maybe_dump (\<lambda>_. []) demo_cfg (Some demo_ocfg) [0, 5, 0, 0, 0, 0, 0, 0] demo_input demo_state = Some (Inr (out, s')) \<and>
     maybe_dump (\<lambda>_. []) demo_cfg (Some demo_ocfg) [0, 5, 0, 0, 0, 0, 0, 0]
       (demo_input\<lparr>hi_tp_rank := 1, hi_dist := Some (case ho_sent out of None \<Rightarrow> None | Some x \<Rightarrow> x)\<rparr>) demo_state = Some (Inr (out1, s1')) \<and>
     ho_indices out1 = ho_indices out \<and> ho_sent out1 \<noteq> None"
proof -
  have "(case maybe_dump (\<lambda>_. []) demo_cfg (Some demo_ocfg) [0, 5, 0, 0, 0, 0, 0, 0] demo_input demo_state of
    Some (Inr (out, s')) \<Rightarrow> ho_sent out \<noteq> None | _ \<Rightarrow> False)" by code_simp
  then obtain out s' where o: "maybe_dump (\<lambda>_. []) demo_cfg (Some demo_ocfg) [0, 5, 0, 0, 0, 0, 0, 0] demo_input demo_state = Some (Inr (out, s'))" "ho_sent out \<noteq> None"
    by (auto split: option.splits sum.splits prod.splits)
  from ranks_attend_same_tokens [OF o(1), of 1 demo_state] o show ?thesis
    by (fastforce simp: demo_input_def demo_cfg_def demo_state_def hook_init_def)
qed

text \<open>
  With a step limit the ranks part: only the dump rank counts its dumps, so once it has reached the
  limit rank 0 returns the native indices without a broadcast, while every other rank, whose counter
  is still zero, passes the same checks and goes on to wait for one.
\<close>

theorem step_limit_splits_ranks:
  fixes i :: "('s :: {linorder, uminus, minus}) hook_input"
  assumes "0 < hc_max_steps cfg" and "hc_max_steps cfg \<le> dict_get (hs_counters s) (dumps_key i) 0" and "dict_get (hs_counters s1) (dumps_key i) 0 = 0"
    and "hs_last_seq s = []" and "hs_last_seq s1 = []" and "hs_stash s1 = hs_stash s"
    and "early_skip cfg i s = None" and "late_skip (cfg\<lparr>hc_max_steps := 0\<rparr>) i s = None"
  shows "(\<exists>s'. maybe_dump dg cfg (Some oc) mapping i s = Some (Inr (kept i, s'))) \<and>
    early_skip cfg (i\<lparr>hi_tp_rank := r, hi_dist := w\<rparr>) (bump ''forward_calls'' s1) = None \<and>
    late_skip cfg (i\<lparr>hi_tp_rank := r, hi_dist := w\<rparr>) (gap_bump i (bump ''forward_calls'' s1)) = None"
proof -
  have key: "dumps_key i \<noteq> ''forward_calls''" "dumps_key (i\<lparr>hi_tp_rank := r, hi_dist := w\<rparr>) = dumps_key i" by (simp_all add: dumps_key_def)
  have gap: "gap_bump i (bump ''forward_calls'' s) = bump ''forward_calls'' s" "gap_bump i (bump ''forward_calls'' s1) = bump ''forward_calls'' s1"
    using assms(4,5) by (simp_all add: gap_bump_def)
  have "early_skip cfg i (bump ''forward_calls'' s) = None"
    using assms(7) early_skip_agree(1) [of "bump ''forward_calls'' s" s cfg i] by simp
  moreover have "late_skip cfg i (bump ''forward_calls'' s) = Some ''skip_step_limit''" using assms(1,2) key(1) by (simp add: late_skip_def)
  ultimately have "\<exists>s'. maybe_dump dg cfg (Some oc) mapping i s = Some (Inr (kept i, s'))" by (simp add: maybe_dump_def Let_def gap)
  moreover have "early_skip cfg (i\<lparr>hi_tp_rank := r, hi_dist := w\<rparr>) (bump ''forward_calls'' s1) = None"
    unfolding early_skip_agree(2) using assms(4-7) early_skip_agree(1) [of "bump ''forward_calls'' s1" s cfg i] by simp
  moreover have "late_skip cfg (i\<lparr>hi_tp_rank := r, hi_dist := w\<rparr>) (bump ''forward_calls'' s1) = None"
    using assms(1,3,8) key by (simp add: late_skip_def native_valid_def keys_available_def split: if_splits)
  ultimately show ?thesis by (simp add: gap)
qed

end
