(* ===== verification/CheckDumps.thy ===== *)
theory CheckDumps
  imports HbmSim
begin

section \<open>The dump checker\<close>

text \<open>
  Model of \<open>scripts/dsa_hook/check_dumps.py\<close>: every check per file and across files, the statistics,
  the warnings and the exit status. A message is represented by its kind and the file or layer it is
  about. The checker promises that a directory it accepts is consumable by the offline replay; the
  theorems relate it to the definitions of that replay. Averages are exact quotients.
\<close>

datatype dump_issue =
    NotConsecutive string int int | BadSeqKey string | BadSeqQuery string | NoReference string | LayerField string
  | LayerName string | BadNative string | BadCandidates string | NonFiniteScores string | NotDescending string
  | DifferentRanges | LowOverlap

record check_args =
  ck_native_topk :: int
  ck_ref_topk :: int
  ck_min_overlap :: rat

record check_state =
  cs_errors :: "dump_issue list"
  cs_warnings :: "dump_issue list"
  cs_overlaps :: "int list"
  cs_missing_native :: "int list"

text \<open>\<open>b > a\<close> on floating-point values; every comparison with a NaN is false.\<close>

definition float_greater :: "('s :: linorder) py_float \<Rightarrow> 's py_float \<Rightarrow> bool" where
  "float_greater b a =
     (case (a, b) of (Finite x, Finite y) \<Rightarrow> x < y | (NaN, _) \<Rightarrow> False | (_, NaN) \<Rightarrow> False
      | (PosInf, _) \<Rightarrow> False | (_, NegInf) \<Rightarrow> False | _ \<Rightarrow> True)"

definition steps_errors :: "string \<Rightarrow> int list \<Rightarrow> dump_issue list" where
  "steps_errors g seqs =
     map (\<lambda>(a, b). NotConsecutive g a b) (filter (\<lambda>(a, b). b \<noteq> a + 1) (zip seqs (tl seqs)))"

definition issue :: "bool \<Rightarrow> dump_issue \<Rightarrow> dump_issue list" where
  "issue bad i = (if bad then [i] else [])"

definition ids_valid :: "int \<Rightarrow> int \<Rightarrow> int list \<Rightarrow> bool" where
  "ids_valid expected seq ids \<longleftrightarrow> int (length ids) = expected \<and> distinct ids \<and> list_all (\<lambda>t. 0 \<le> t \<and> t < seq) ids"

text \<open>
  The checks of one file, in the order of the source. \<open>expected\<close> is bound twice there: the count of
  missing native tokens uses the second value, the expected size of the reference.
\<close>

definition check_file ::
  "(string \<Rightarrow> ('s :: linorder) raw_dump result) \<Rightarrow> check_args \<Rightarrow> string \<Rightarrow> check_state \<Rightarrow> int \<times> string \<Rightarrow> check_state result" where
  "check_file load a g s f =
     (case f of (seq, path) \<Rightarrow>
      case load path of Inl e \<Rightarrow> Inl e | Inr raw \<Rightarrow>
      case need (rd_seq_lens_key raw) of Inl e \<Rightarrow> Inl e | Inr keys \<Rightarrow>
      case need (rd_seq_lens_query raw) of Inl e \<Rightarrow> Inl e | Inr queries \<Rightarrow>
      case need (rd_layer raw) of Inl e \<Rightarrow> Inl e | Inr layer_field \<Rightarrow>
      case need (rd_indices raw) of Inl e \<Rightarrow> Inl e | Inr indices \<Rightarrow>
      case need (rd_candidate_indices raw) of Inl e \<Rightarrow> Inl e | Inr cids \<Rightarrow>
      case need (rd_candidate_scores raw) of Inl e \<Rightarrow> Inl e | Inr cscores \<Rightarrow>
      let native = flatten indices; ids = flatten cids; scores = flatten cscores;
          expected = min (ck_ref_topk a) seq;
          overlap = int (card (set native \<inter> set ids))
      in Inr \<lparr>cs_errors = cs_errors s
                @ issue (flatten keys \<noteq> [seq]) (BadSeqKey path)
                @ issue (flatten queries \<noteq> [1]) (BadSeqQuery path)
                @ issue (rd_has_reference raw \<noteq> Some True) (NoReference path)
                @ issue (layer_field \<noteq> g) (LayerField path)
                @ issue (case layer_number layer_field of Inl _ \<Rightarrow> True | Inr _ \<Rightarrow> False) (LayerName path)
                @ issue (\<not> ids_valid (min (ck_native_topk a) seq) seq native) (BadNative path)
                @ issue (\<not> (ids_valid expected seq ids \<and> length ids = length scores)) (BadCandidates path)
                @ issue (\<not> list_all is_finite scores) (NonFiniteScores path),
              cs_warnings = cs_warnings s
                @ issue (list_ex (\<lambda>(x, y). float_greater y x) (zip scores (tl scores))) (NotDescending path),
              cs_overlaps = cs_overlaps s @ [overlap],
              cs_missing_native = cs_missing_native s @ [expected - overlap]\<rparr>)"

fun fold_result :: "('s \<Rightarrow> 'x \<Rightarrow> 's result) \<Rightarrow> 's \<Rightarrow> 'x list \<Rightarrow> 's result" where
  "fold_result f s [] = Inr s"
| "fold_result f s (x # xs) = (case f s x of Inl e \<Rightarrow> Inl e | Inr s' \<Rightarrow> fold_result f s' xs)"

definition check_group ::
  "(string \<Rightarrow> ('s :: linorder) raw_dump result) \<Rightarrow> check_args \<Rightarrow> check_state \<Rightarrow> string \<times> dump_files \<Rightarrow> check_state result" where
  "check_group load a s gf =
     (case gf of (g, files) \<Rightarrow>
        fold_result (check_file load a g) (s\<lparr>cs_errors := cs_errors s @ steps_errors g (map fst files)\<rparr>) files)"

text \<open>The groups with their files sorted; \<open>sorted(groups)\<close> orders them by name.\<close>

definition dump_groups_of :: "string list \<Rightarrow> dump_groups" where
  "dump_groups_of names = map (\<lambda>(g, fs). (g, sort fs)) (foldl add_file [] names)"

definition step_range :: "string \<times> dump_files \<Rightarrow> int \<times> int" where
  "step_range gf = (fst (hd (snd gf)), fst (last (snd gf)))"

record check_summary =
  cm_layers :: nat
  cm_layer_ids :: "int list"
  cm_files :: nat
  cm_seq_range :: "(int \<times> int) option"
  cm_mean_overlap :: rat
  cm_min_overlap :: int
  cm_max_missing :: int
  cm_errors :: "dump_issue list"
  cm_warnings :: "dump_issue list"

definition mean :: "int list \<Rightarrow> rat" where
  "mean xs = (if xs = [] then 0 else of_int (sum_list xs) / of_nat (length xs))"

definition low_overlap :: "check_args \<Rightarrow> dump_groups \<Rightarrow> rat \<Rightarrow> bool" where
  "low_overlap a groups mean_overlap =
     (let seqs = concat (map (map fst \<circ> snd) groups);
          min_seq_seen = (if seqs = [] then 0 else Min (set seqs));
          expected_native = (if min_seq_seen \<noteq> 0 then min (ck_native_topk a) min_seq_seen else ck_native_topk a)
      in mean_overlap < ck_min_overlap a * of_int expected_native)"

definition summarize_dumps :: "check_args \<Rightarrow> dump_groups \<Rightarrow> int list \<Rightarrow> check_state \<Rightarrow> check_summary" where
  "summarize_dumps a groups layers s =
     (let ranges = set (map step_range groups);
          errors = cs_errors s @ issue (card ranges \<noteq> 1) DifferentRanges
      in \<lparr>cm_layers = length groups, cm_layer_ids = (if layers = [] then [] else [hd layers, last layers]),
          cm_files = length (cs_overlaps s),
          cm_seq_range = (if card ranges = 1 then Some (the_elem ranges) else None),
          cm_mean_overlap = mean (cs_overlaps s),
          cm_min_overlap = (if cs_overlaps s = [] then 0 else Min (set (cs_overlaps s))),
          cm_max_missing = (if cs_missing_native s = [] then 0 else Max (set (cs_missing_native s))),
          cm_errors = errors, cm_warnings = take 20 (cs_warnings s)\<rparr>)"

text \<open>
  The whole script: the summary it prints, whether it prints the overlap warning, and the exit
  status, which is zero exactly when no error was collected. \<open>LAYER_RE.search(g).group(1)\<close> raises on
  a group name without a layer number.
\<close>

definition check_dumps ::
  "(string \<Rightarrow> ('s :: linorder) raw_dump result) \<Rightarrow> check_args \<Rightarrow> string list \<Rightarrow> (check_summary \<times> bool \<times> nat) result" where
  "check_dumps load a names =
     (let groups = dump_groups_of names in
      if groups = [] then Inl SystemExit else
      case fold_result (check_group load a) \<lparr>cs_errors = [], cs_warnings = [], cs_overlaps = [], cs_missing_native = []\<rparr>
             (sort_key fst groups) of Inl e \<Rightarrow> Inl e
      | Inr s \<Rightarrow>
      case map_result (\<lambda>(g, fs). case layer_number g of Inl _ \<Rightarrow> Inl AttributeError | Inr l \<Rightarrow> Inr l) groups of Inl e \<Rightarrow> Inl e
      | Inr ls \<Rightarrow>
          let summary = summarize_dumps a groups (sorted_list_of_set (set ls)) s
          in Inr (summary, low_overlap a groups (cm_mean_overlap summary), if cm_errors summary = [] then 0 else 1))"


subsection \<open>What an accepted directory holds\<close>

text \<open>A file the offline replay can load, with the layer name of its group.\<close>

definition file_loads :: "(string \<Rightarrow> ('s :: {linorder, uminus}) raw_dump result) \<Rightarrow> string \<Rightarrow> int \<times> string \<Rightarrow> bool" where
  "file_loads load g f \<longleftrightarrow>
     (\<exists>raw d. load (snd f) = Inr raw \<and> load_record raw (fst f) = Inr d \<and> du_layer d = g)"

lemma issue_Nil [simp]: "issue bad i = [] \<longleftrightarrow> \<not> bad"
  by (simp add: issue_def)

lemma ids_valid_native:
  assumes "ids_valid (min 2048 seq) seq (flatten indices)" and "rd_indices raw = Some indices"
  shows "load_native raw seq = Inr (set (flatten indices))"
proof -
  have "filter (\<lambda>t. 0 \<le> t \<and> t < seq) (flatten indices) = flatten indices"
    using assms(1) by (intro filter_True) (auto simp: ids_valid_def list_all_iff)
  then show ?thesis using assms by (simp add: load_native_def need_def ids_valid_def distinct_card)
qed

lemma check_file_clean:
  assumes "check_file load a g s f = Inr s'" and "cs_errors s' = []" and "ck_native_topk a = 2048" and "ck_ref_topk a = 2400"
  shows "cs_errors s = [] \<and> file_loads load g f \<and> (\<exists>l. layer_number g = Inr l)"
proof -
  obtain seq path where f: "f = (seq, path)" by fastforce
  from assms(1) f obtain raw keys queries indices cids cscores where
    raw: "load path = Inr raw" "rd_seq_lens_key raw = Some keys" "rd_seq_lens_query raw = Some queries"
    "rd_indices raw = Some indices" "rd_candidate_indices raw = Some cids" "rd_candidate_scores raw = Some cscores"
    and layer: "rd_layer raw \<noteq> None"
    by (auto simp: check_file_def need_def split: sum.splits option.splits)
  then have ok: "cs_errors s = []" "flatten keys = [seq]" "flatten queries = [1]" "rd_has_reference raw = Some True" "rd_layer raw = Some g"
    "\<exists>l. layer_number g = Inr l" "ids_valid (min 2048 seq) seq (flatten indices)"
    "ids_valid (min 2400 seq) seq (flatten cids)" "length (flatten cids) = length (flatten cscores)" "list_all is_finite (flatten cscores)"
    using assms f by (auto simp: check_file_def need_def Let_def split: sum.splits)
  then have "candidates_valid seq (flatten cids) (flatten cscores)"
    by (simp add: candidates_valid_def ids_valid_def)
  then have "load_candidates raw seq = Inr (flatten cids, map (the \<circ> float_value) (flatten cscores))"
    using raw by (simp add: load_candidates_def need_def)
  then have "\<exists>d. load_record raw seq = Inr d \<and> du_layer d = g"
    using raw ok ids_valid_native [OF ok(7) raw(4)] by (simp add: load_record_def need_def)
  then show ?thesis using raw(1) ok(1,6) f by (auto simp: file_loads_def)
qed

lemma fold_result_clean:
  assumes "fold_result f s xs = Inr s'" and "cs_errors s' = []"
    and "\<And>x u u'. x \<in> set xs \<Longrightarrow> f u x = Inr u' \<Longrightarrow> cs_errors u' = [] \<Longrightarrow> cs_errors u = [] \<and> P x"
  shows "cs_errors s = [] \<and> (\<forall>x\<in>set xs. P x)"
  using assms
proof (induction xs arbitrary: s)
  case (Cons x xs)
  from Cons.prems(1) obtain u where u: "f s x = Inr u" "fold_result f u xs = Inr s'"
    by (auto split: sum.splits)
  have "cs_errors u = [] \<and> (\<forall>y\<in>set xs. P y)"
    using Cons.prems(2,3) by (intro Cons.IH [OF u(2)]) auto
  then show ?case using Cons.prems(3) [of x s u] u(1) by auto
qed simp

lemma check_group_clean:
  assumes "check_group load a s gf = Inr s'" and "cs_errors s' = []" and "ck_native_topk a = 2048" and "ck_ref_topk a = 2400"
  shows "cs_errors s = [] \<and> consecutive_steps (map fst (snd gf)) \<and> (\<forall>f\<in>set (snd gf). file_loads load (fst gf) f)"
proof -
  obtain g files where gf: "gf = (g, files)" by fastforce
  have "cs_errors (s\<lparr>cs_errors := cs_errors s @ steps_errors g (map fst files)\<rparr>) = [] \<and> (\<forall>f\<in>set files. file_loads load g f)"
  proof (rule fold_result_clean [OF _ assms(2), of "check_file load a g"])
    show "fold_result (check_file load a g) (s\<lparr>cs_errors := cs_errors s @ steps_errors g (map fst files)\<rparr>) files = Inr s'"
      using assms(1) gf by (simp add: check_group_def)
  qed (use check_file_clean [OF _ _ assms(3,4)] in blast)
  then show ?thesis
    using gf by (auto simp: steps_errors_def consecutive_steps_def list_all_iff filter_empty_conv)
qed

lemma dump_groups_shape:
  "distinct (map fst (dump_groups_of names))" "(g, fs) \<in> set (dump_groups_of names) \<Longrightarrow> fs \<noteq> []"
proof -
  have set_dict: "(h, x) \<in> set (dict_set k v ps) \<Longrightarrow> x = v \<or> (h, x) \<in> set ps" for h k :: string and x v :: dump_files and ps
    by (induction ps) (auto split: if_splits)
  have one: "distinct (map fst (add_file acc n)) \<and> (\<forall>p\<in>set (add_file acc n). snd p \<noteq> [])"
    if "distinct (map fst acc)" "\<forall>p\<in>set acc. snd p \<noteq> []" for acc n
  proof (cases "parse_dump_name n")
    case (Some gn)
    obtain g k where "gn = (g, k)" by fastforce
    then show ?thesis using Some that by (auto simp: add_file_def dest!: set_dict)
  qed (use that in \<open>simp add: add_file_def\<close>)
  have "distinct (map fst acc) \<and> (\<forall>p\<in>set acc. snd p \<noteq> []) \<Longrightarrow>
    distinct (map fst (foldl add_file acc names)) \<and> (\<forall>p\<in>set (foldl add_file acc names). snd p \<noteq> [])" for acc
    using one by (induction names arbitrary: acc) auto
  from this [of "[]"] have *: "distinct (map fst (foldl add_file [] names))" "\<forall>p\<in>set (foldl add_file [] names). snd p \<noteq> []" by auto
  show "distinct (map fst (dump_groups_of names))"
    using *(1) by (simp add: dump_groups_of_def comp_def case_prod_unfold)
  show "(g, fs) \<in> set (dump_groups_of names) \<Longrightarrow> fs \<noteq> []"
    using *(2) by (auto simp: dump_groups_of_def) (metis length_0_conv length_sort snd_conv)
qed

lemma consecutive_length:
  assumes "consecutive_steps seqs" and "seqs \<noteq> []"
  shows "int (length seqs) = last seqs - hd seqs + 1"
  using assms
proof (induction seqs rule: induct_list012)
  case (3 x y zs)
  then have "consecutive_steps (y # zs)" "y = x + 1" by (auto simp: consecutive_steps_def)
  then show ?case using "3.IH"(2) by simp
qed simp_all

lemma check_dumps_clean:
  assumes "check_dumps load a names = Inr (sm, w, 0)" and "ck_native_topk a = 2048" and "ck_ref_topk a = 2400"
  shows "discover names = Inr (dump_groups_of names)"
    and "\<forall>(g, fs)\<in>set (dump_groups_of names). (\<forall>f\<in>set fs. file_loads load g f) \<and> (\<exists>l. layer_number g = Inr l)"
proof -
  let ?gs = "dump_groups_of names"
  let ?s0 = "\<lparr>cs_errors = [], cs_warnings = [], cs_overlaps = [], cs_missing_native = []\<rparr>"
  let ?num = "\<lambda>(g, fs). case layer_number g of Inl _ \<Rightarrow> Inl AttributeError | Inr l \<Rightarrow> Inr l"
  have ne: "?gs \<noteq> []" using assms(1) by (auto simp: check_dumps_def)
  obtain s where s: "fold_result (check_group load a) ?s0 (sort_key fst ?gs) = Inr s"
    using assms(1) ne by (cases "fold_result (check_group load a) ?s0 (sort_key fst ?gs)") (simp_all add: check_dumps_def)
  obtain ls where ls: "map_result ?num ?gs = Inr ls"
    using assms(1) ne s by (cases "map_result ?num ?gs") (simp_all add: check_dumps_def)
  have "cm_errors (summarize_dumps a ?gs (sorted_list_of_set (set ls)) s) = []"
    using assms(1) ne s ls by (simp add: check_dumps_def Let_def split: if_splits)
  then have err: "cs_errors s = []" "card (set (map step_range ?gs)) = 1"
    by (simp_all add: summarize_dumps_def Let_def)
  let ?ok = "\<lambda>gf. consecutive_steps (map fst (snd gf)) \<and> (\<forall>f\<in>set (snd gf). file_loads load (fst gf) f)"
  have "cs_errors ?s0 = [] \<and> (\<forall>gf\<in>set (sort_key fst ?gs). ?ok gf)"
    by (rule fold_result_clean [OF s err(1)]) (rule check_group_clean [OF _ _ assms(2,3)])
  then have groups: "\<forall>gf\<in>set ?gs. ?ok gf" by simp
  have "\<exists>l. layer_number g = Inr l" if "(g, fs) \<in> set ?gs" for g fs
    using ls that by (auto simp: map_result_Inr_iff list_all2_conv_all_nth in_set_conv_nth split: sum.splits)
  then show "\<forall>(g, fs)\<in>set ?gs. (\<forall>f\<in>set fs. file_loads load g f) \<and> (\<exists>l. layer_number g = Inr l)" using groups by auto
  have "(fst (hd fs), fst (last fs), length fs) = (\<lambda>(x, y). (x, y, nat (y - x + 1))) (step_range (g, fs))" if "(g, fs) \<in> set ?gs" for g fs
  proof -
    have "fs \<noteq> []" using dump_groups_shape(2) [OF that] .
    moreover have "consecutive_steps (map fst fs)" using groups that by auto
    ultimately have "int (length fs) = fst (last fs) - fst (hd fs) + 1"
      using consecutive_length [of "map fst fs"] by (simp add: last_map hd_map)
    then show ?thesis by (simp add: step_range_def)
  qed
  then have "set (map (\<lambda>(g, fs). (fst (hd fs), fst (last fs), length fs)) ?gs) = (\<lambda>(x, y). (x, y, nat (y - x + 1))) ` set (map step_range ?gs)"
    by (force simp: image_image intro!: image_cong)
  moreover obtain p where "set (map step_range ?gs) = {p}" using err(2) card_1_singletonE by blast
  ultimately have "card (set (map (\<lambda>(g, fs). (fst (hd fs), fst (last fs), length fs)) ?gs)) = 1" by simp
  then show "discover names = Inr ?gs"
    using ne groups by (auto simp: discover_def dump_groups_of_def Let_def list_all_iff)
qed


subsection \<open>The replay of loadable files returns\<close>

definition states_hold :: "hbm_args \<Rightarrow> cache_states \<Rightarrow> bool" where
  "states_hold a states \<longleftrightarrow>
     (\<forall>(c, base, aware)\<in>set states. 2048 \<le> lru_capacity base \<and> 2048 \<le> lru_capacity aware)"

lemma commit_to_total:
  assumes "finite selected" and "card selected \<le> 2048" and "2048 \<le> lru_capacity c"
  shows "\<exists>c'. commit_to selected c = Some (Inr c') \<and> lru_capacity c' = lru_capacity c"
  using assms by (simp add: commit_to_def commit_cases)

lemma capacity_loop_total:
  assumes "finite native" and "card native \<le> 2048" and "distinct ranked" and "0 \<le> ha_max_replacements a" and "states_hold a states"
  shows "\<exists>rows states'. capacity_loop a native ranked ready states = Some (Inr (rows, states')) \<and> states_hold a states'"
  using assms(5)
proof (induction states)
  case (Cons st states)
  obtain cap base aware where st: "st = (cap, base, aware)" by (cases st)
  have caps: "2048 \<le> lru_capacity base" "2048 \<le> lru_capacity aware" and rest: "states_hold a states"
    using Cons.prems st by (auto simp: states_hold_def)
  let ?rows = "policy_rows a native ranked ready cap base aware"
  have "?rows ! 2 \<in> set ?rows" by (simp add: policy_rows_def split: prod.splits)
  then have "finite (po_selected (?rows ! 2))" "card (po_selected (?rows ! 2)) \<le> 2048"
    using policy_rows_ok(1) [OF assms(1,3,4), of ready cap base aware] assms(2) by (auto simp: row_ok_def)
  then obtain aware' where "commit_to (po_selected (?rows ! 2)) aware = Some (Inr aware')" "lru_capacity aware' = lru_capacity aware"
    using commit_to_total caps(2) by blast
  moreover obtain base' where "commit_to native base = Some (Inr base')" "lru_capacity base' = lru_capacity base"
    using commit_to_total [OF assms(1,2) caps(1)] by blast
  moreover obtain more states' where "capacity_loop a native ranked ready states = Some (Inr (more, states'))" "states_hold a states'"
    using Cons.IH [OF rest] by blast
  ultimately show ?case using st caps by (simp add: Let_def states_hold_def)
qed (simp add: states_hold_def)

lemma group_loop_total:
  assumes "\<forall>f\<in>set files. file_loads load g f" and "ident g = Inr l" and "0 \<le> ha_max_replacements a"
    and "states_hold a states" and "case expected of None \<Rightarrow> l \<notin> seen | Some k \<Rightarrow> k = l"
  shows "\<exists>evs. group_loop load ident a step expected files states seen = Some (Inr (evs, if files = [] then seen else insert l seen))"
  using assms
proof (induction files arbitrary: step expected states seen)
  case (Cons f files)
  obtain n path where f: "f = (n, path)" by fastforce
  obtain raw d where d: "load path = Inr raw" "load_record raw n = Inr d" "du_layer d = g"
    using Cons.prems(1) f by (auto simp: file_loads_def)
  note r = load_record_ok [OF d(2)]
  have "card (du_native d) \<le> 2048" using r(2) by linarith
  then obtain rows states' where cl: "capacity_loop a (du_native d) (du_ranked d) (ready_set a n) states = Some (Inr (rows, states'))" "states_hold a states'"
    using capacity_loop_total [OF r(1) _ r(4) Cons.prems(3,4)] by blast
  obtain evs where "group_loop load ident a (step + 1) (Some l) files states' (insert l seen) =
      Some (Inr (evs, if files = [] then insert l seen else insert l (insert l seen)))"
    using Cons.IH [where states = states' and expected = "Some l" and seen = "insert l seen" and step = "step + 1"] Cons.prems(1-3) cl(2) by auto
  moreover have "\<not> (case expected of None \<Rightarrow> l \<in> seen | Some k \<Rightarrow> l \<noteq> k)" using Cons.prems(5) by (auto split: option.splits)
  ultimately show ?case using d cl(1) Cons.prems(2) f by simp
qed simp

lemma group_loop_fresh:
  assumes "group_loop load ident a step None files states seen = Some (Inr (evs, seen'))" and "files \<noteq> []"
    and "\<forall>f\<in>set files. file_loads load g f" and "ident g = Inr l"
  shows "l \<notin> seen"
proof -
  obtain n path rest where f: "files = (n, path) # rest" using assms(2) by (cases files) auto
  then show ?thesis using assms(1,3,4) by (auto simp: file_loads_def split: if_splits)
qed

lemma fresh_states_hold: "budgets_ok a \<Longrightarrow> states_hold a (fresh_states a)"
  by (auto simp: budgets_ok_def states_hold_def fresh_states_def BatchLRU_def)

lemma groups_loop_total_iff:
  assumes "\<forall>(g, fs)\<in>set gs. (\<forall>f\<in>set fs. file_loads load g f) \<and> fs \<noteq> [] \<and> (\<exists>l. ident g = Inr l)" and "budgets_ok a"
  shows "(\<exists>evs. groups_loop load ident a gs seen = Some (Inr evs)) \<longleftrightarrow>
    distinct (map (ident \<circ> fst) gs) \<and> (\<forall>(g, fs)\<in>set gs. \<forall>l. ident g = Inr l \<longrightarrow> l \<notin> seen)"
  using assms(1)
proof (induction gs arbitrary: seen)
  case (Cons gf gs)
  obtain g fs where gf: "gf = (g, fs)" by fastforce
  then obtain l where l: "ident g = Inr l" "\<forall>f\<in>set fs. file_loads load g f" "fs \<noteq> []" using Cons.prems by auto
  have rest: "\<forall>(g, fs)\<in>set gs. (\<forall>f\<in>set fs. file_loads load g f) \<and> fs \<noteq> [] \<and> (\<exists>l. ident g = Inr l)" using Cons.prems by auto
  have budget: "0 \<le> ha_max_replacements a" using assms(2) by (simp add: budgets_ok_def)
  show ?case
  proof (cases "l \<in> seen")
    case True
    then have "\<nexists>evs seen'. group_loop load ident a 0 None fs (fresh_states a) seen = Some (Inr (evs, seen'))"
      using group_loop_fresh [where ident = ident and g = g and files = fs, OF _ l(3,2,1)] by blast
    then show ?thesis using True gf l(1) by (auto simp: pbind_Inr_iff)
  next
    case False
    then obtain evs where one: "group_loop load ident a 0 None fs (fresh_states a) seen = Some (Inr (evs, insert l seen))"
      using group_loop_total [where ident = ident and expected = None and seen = seen and step = 0, OF l(2,1) budget fresh_states_hold [OF assms(2)]] l(3) by auto
    have other: "Inr l \<notin> (ident \<circ> fst) ` set gs \<longleftrightarrow> (\<forall>p\<in>set gs. ident (fst p) \<noteq> Inr l)"
      by (force simp: image_iff)
    have "(\<exists>evs. groups_loop load ident a (gf # gs) seen = Some (Inr evs)) \<longleftrightarrow> (\<exists>evs. groups_loop load ident a gs (insert l seen) = Some (Inr evs))"
      using one gf by (auto simp: pbind_Inr_iff)
    also have "\<dots> \<longleftrightarrow> distinct (map (ident \<circ> fst) gs) \<and> (\<forall>(g, fs)\<in>set gs. \<forall>k. ident g = Inr k \<longrightarrow> k \<notin> insert l seen)"
      by (rule Cons.IH [OF rest])
    also have "\<dots> \<longleftrightarrow> distinct (map (ident \<circ> fst) (gf # gs)) \<and> (\<forall>(g, fs)\<in>set (gf # gs). \<forall>k. ident g = Inr k \<longrightarrow> k \<notin> seen)"
      using False gf l(1) other by (simp add: case_prod_unfold) blast
    finally show ?thesis .
  qed
qed simp



text \<open>Two layer names with the number 0, one decode step of sequence length 1 each.\<close>

definition twin_dump :: "string \<Rightarrow> int raw_dump result" where
  "twin_dump path =
     Inr \<lparr>rd_layer = Some (if path = ''layers.0_s1.pt'' then ''layers.0'' else ''x.layers.0''),
       rd_seq_lens_key = Some (Node [Leaf 1]), rd_seq_lens_query = Some (Leaf 1), rd_has_reference = Some True,
       rd_indices = Some (Node [Leaf 0]), rd_candidate_indices = Some (Node [Leaf 0]),
       rd_candidate_scores = Some (Node [Leaf (Finite 5)])\<rparr>"

definition twin_names :: "string list" where
  "twin_names = [''layers.0_s1.pt'', ''x.layers.0_s1.pt'']"

definition twin_args :: hbm_args where
  "twin_args = \<lparr>ha_capacities = [2048], ha_max_replacements = 8, ha_protect_top = 0, ha_warmup_steps = 0,
     ha_resident = True, ha_row_bytes = 1152, ha_expected_layers = None\<rparr>"

definition default_check :: check_args where
  "default_check = \<lparr>ck_native_topk = 2048, ck_ref_topk = 2400, ck_min_overlap = 9 / 10\<rparr>"

lemma twin_groups:
  "dump_groups_of twin_names = [(''layers.0'', [(1, ''layers.0_s1.pt'')]), (''x.layers.0'', [(1, ''x.layers.0_s1.pt'')])]"
  by code_simp

lemma twin_layer_number: "layer_number ''layers.0'' = Inr 0" "layer_number ''x.layers.0'' = Inr 0"
  by code_simp+

lemma twin_check: "\<exists>sm w. check_dumps twin_dump default_check twin_names = Inr (sm, w, 0)"
  unfolding check_dumps_def twin_groups
  by (simp add: check_group_def check_file_def twin_dump_def default_check_def need_def twin_layer_number Let_def issue_def ids_valid_def is_finite_def steps_errors_def
      summarize_dumps_def step_range_def)


text \<open>
  The statistic \<open>max_native_missing_from_reference\<close> counts from the expected size of the reference:
  a file whose native tokens all occur in the reference still counts the difference of the two sizes.
\<close>

lemma missing_native_overstated:
  assumes "check_file load a g s (seq, path) = Inr s'" and "load path = Inr raw"
    and "rd_indices raw = Some indices" and "rd_candidate_indices raw = Some cids" and "set (flatten indices) \<subseteq> set (flatten cids)"
    and "ids_valid (min (ck_native_topk a) seq) seq (flatten indices)"
  shows "cs_missing_native s' = cs_missing_native s @ [min (ck_ref_topk a) seq - min (ck_native_topk a) seq]"
proof -
  have "int (card (set (flatten indices) \<inter> set (flatten cids))) = min (ck_native_topk a) seq"
    using assms(5,6) by (simp add: Int_absorb2 ids_valid_def distinct_card)
  then show ?thesis using assms(1-4) by (auto simp: check_file_def need_def Let_def split: option.splits sum.splits)
qed

end
