(* ===== verification/QualityCommon.thy ===== *)
theory QualityCommon
  imports ConvertTrace DumpHook
begin

section \<open>Answers, samples and data sets of the quality tools\<close>

text \<open>
  Model of \<open>scripts/quality/common.py\<close>: sample identifiers, normalisation and judgement of answers,
  the validation of a data set, and percentiles. Strings are ASCII, so the alternatives of the option
  pattern that are not ASCII never match. A data set is the list of its non-blank lines, each the
  outcome of \<open>json.loads\<close>. Numbers with a fraction are exact rationals.
\<close>

subsection \<open>Strings\<close>

definition upper :: "string \<Rightarrow> string" where
  "upper s = map upper_char s"

definition is_letter :: "char \<Rightarrow> bool" where
  "is_letter ch \<longleftrightarrow> (let n = of_char ch :: nat in 65 \<le> n \<and> n \<le> 90 \<or> 97 \<le> n \<and> n \<le> 122)"

definition is_word :: "char \<Rightarrow> bool" where
  "is_word ch \<longleftrightarrow> is_letter ch \<or> is_digit ch \<or> ch = CHR ''_''"

function py_split :: "string \<Rightarrow> string list" where
  "py_split s =
     (let t = dropWhile is_space s in
      if t = [] then [] else takeWhile (\<lambda>c. \<not> is_space c) t # py_split (dropWhile (\<lambda>c. \<not> is_space c) t))"
  by auto
termination
proof (relation "measure length", goal_cases)
  case (2 s t)
  have "\<not> is_space (hd t)" using 2 hd_dropWhile [of is_space s] by simp
  then have "dropWhile (\<lambda>c. \<not> is_space c) t = dropWhile (\<lambda>c. \<not> is_space c) (tl t)" using 2(2) by (cases t) auto
  then have "length (dropWhile (\<lambda>c. \<not> is_space c) t) < length t"
    using 2(2) length_dropWhile_le [of "\<lambda>c. \<not> is_space c" "tl t"] by (cases t) auto
  moreover have "length t \<le> length s" using 2(1) length_dropWhile_le by simp
  ultimately show ?case by simp
qed simp

declare py_split.simps [simp del]

text \<open>\<open>needle in text\<close> and \<open>text.find(needle, start)\<close>, with \<open>None\<close> for -1.\<close>

definition occurs_at :: "string \<Rightarrow> string \<Rightarrow> nat \<Rightarrow> bool" where
  "occurs_at needle text i \<longleftrightarrow> i + length needle \<le> length text \<and> take (length needle) (drop i text) = needle"

definition py_find :: "string \<Rightarrow> string \<Rightarrow> nat \<Rightarrow> nat option" where
  "py_find text needle start = find (occurs_at needle text) [start..<Suc (length text)]"

definition py_in :: "string \<Rightarrow> string \<Rightarrow> bool" where
  "py_in needle text \<longleftrightarrow> py_find text needle 0 \<noteq> None"

definition strip_chars :: "string \<Rightarrow> string \<Rightarrow> string" where
  "strip_chars cs s = rev (dropWhile (\<lambda>c. c \<in> set cs) (rev (dropWhile (\<lambda>c. c \<in> set cs) s)))"

subsection \<open>JSON values as Python objects\<close>

fun truthy :: "jval \<Rightarrow> bool" where
  "truthy JNull = False"
| "truthy (JBool b) = b"
| "truthy (JInt i) = (i \<noteq> 0)"
| "truthy (JStr s) = (s \<noteq> [])"
| "truthy (JArr xs) = (xs \<noteq> [])"
| "truthy (JObj d) = (d \<noteq> [])"

definition row_get :: "jdict \<Rightarrow> string \<Rightarrow> jval" where
  "row_get row k = dict_get row k JNull"

text \<open>\<open>str(v or "")\<close>\<close>

definition str_or_empty :: "jval \<Rightarrow> string" where
  "str_or_empty v = (if truthy v then py_str v else [])"

text \<open>\<open>[v] if isinstance(v, str) else list(v or [])\<close>\<close>

definition references :: "jval \<Rightarrow> jval list result" where
  "references v =
     (case v of JStr s \<Rightarrow> Inr [v]
      | _ \<Rightarrow> if \<not> truthy v then Inr []
            else (case v of JArr xs \<Rightarrow> Inr xs | JObj d \<Rightarrow> Inr (map (JStr \<circ> fst) d) | _ \<Rightarrow> Inl TypeError))"

subsection \<open>Identifiers\<close>

definition sanitize_id :: "string \<Rightarrow> string" where
  "sanitize_id text = (let cleaned = take 64 (sample_sub False (strip text)) in if cleaned = [] then ''sample'' else cleaned)"

subsection \<open>Answers\<close>

definition normalize_answer :: "jval \<Rightarrow> string" where
  "normalize_answer v = lower (strip (join '' '' (py_split (str_or_empty v))))"

text \<open>
  The two option patterns as scanners. In the first one the optional bracket is itself a non-word
  character, so the letter is the first word character. In the second one every repetition is
  followed by a character it cannot match, so no backtracking changes the result, except that the
  word \<open>is\<close> is optional.
\<close>

definition is_option :: "char \<Rightarrow> bool" where
  "is_option ch \<longleftrightarrow> ch \<in> set ''ABCD''"

definition option_start :: "string \<Rightarrow> char option" where
  "option_start s =
     (case dropWhile (\<lambda>c. \<not> is_word c) s of [] \<Rightarrow> None
      | c # rest \<Rightarrow> if is_option c \<and> (case rest of [] \<Rightarrow> True | d # _ \<Rightarrow> \<not> is_letter d) then Some c else None)"

definition skip_one :: "string \<Rightarrow> string \<Rightarrow> string" where
  "skip_one cs s = (case s of [] \<Rightarrow> [] | c # t \<Rightarrow> if c \<in> set cs then t else s)"

definition option_tail :: "string \<Rightarrow> char option" where
  "option_tail s =
     (case dropWhile is_space (skip_one ''(['' (dropWhile is_space (skip_one '':-'' (dropWhile is_space s)))) of
        [] \<Rightarrow> None
      | c # rest \<Rightarrow> if is_option (upper_char c) \<and> (case rest of [] \<Rightarrow> True | d # _ \<Rightarrow> \<not> is_word d) then Some c else None)"

definition after_is :: "string \<Rightarrow> string option" where
  "after_is s =
     (let t = dropWhile is_space s in
      if t \<noteq> s \<and> lower (take 2 t) = ''is'' then Some (drop 2 t) else None)"

definition option_at :: "string \<Rightarrow> char option" where
  "option_at s =
     (if lower (take 6 s) = ''answer'' \<or> lower (take 6 s) = ''option''
      then (case after_is (drop 6 s) of
              None \<Rightarrow> option_tail (drop 6 s)
            | Some t \<Rightarrow> (case option_tail t of None \<Rightarrow> option_tail (drop 6 s) | Some c \<Rightarrow> Some c))
      else None)"

fun option_explicit :: "string \<Rightarrow> char option" where
  "option_explicit [] = None"
| "option_explicit (c # cs) = (case option_at (c # cs) of Some d \<Rightarrow> Some d | None \<Rightarrow> option_explicit cs)"

definition extract_option :: "jval \<Rightarrow> string option" where
  "extract_option output =
     (let text = strip (str_or_empty output) in
      case option_explicit text of Some c \<Rightarrow> Some (upper [c])
      | None \<Rightarrow> (case option_start text of Some c \<Rightarrow> Some (upper [c]) | None \<Rightarrow> None))"

datatype match_mode = Exact | Option | Contain

definition match_answer :: "jval \<Rightarrow> jval \<Rightarrow> match_mode \<Rightarrow> bool option result" where
  "match_answer output reference m =
     (case references reference of Inl e \<Rightarrow> Inl e | Inr all \<Rightarrow>
      let refs = filter (\<lambda>r. strip (py_str r) \<noteq> []) all; out = normalize_answer output in
      if refs = [] then Inr None
      else Inr (Some (case m of
          Exact \<Rightarrow> list_ex (\<lambda>r. normalize_answer r = out) refs
        | Option \<Rightarrow> (let gold = upper (strip_chars ''()[]'' (strip (py_str (hd refs)))) in
            py_in gold ''ABCD'' \<and> extract_option (JStr out) = Some gold)
        | Contain \<Rightarrow> list_ex (\<lambda>r. py_in (normalize_answer r) out) refs)))"

text \<open>\<open>example.get("match", "contain")\<close>; any other text selects the containment test.\<close>

definition mode_of :: "jdict \<Rightarrow> match_mode" where
  "mode_of example =
     (case map_of example ''match'' of
        Some (JStr s) \<Rightarrow> if s = ''exact'' then Exact else if s = ''option'' then Option else Contain
      | _ \<Rightarrow> Contain)"

subsection \<open>Data sets\<close>

definition check_example :: "string set \<Rightarrow> jdict \<Rightarrow> string result" where
  "check_example seen row =
     (if strip (str_or_empty (row_get row ''id'')) = [] \<or> strip (str_or_empty (row_get row ''prompt'')) = [] then Inl ValueError
      else let safe = sanitize_id (py_str (row_get row ''id'')) in
        if safe \<in> seen then Inl ValueError
        else (case map_of row ''max_tokens'' of None \<Rightarrow> Inr safe
              | Some v \<Rightarrow> (case py_int v of Inl e \<Rightarrow> Inl e | Inr n \<Rightarrow> if n < 1 then Inl ValueError else Inr safe)))"

fun load_rows :: "int option \<Rightarrow> jval result list \<Rightarrow> jdict list \<Rightarrow> string set \<Rightarrow> jdict list result" where
  "load_rows limit [] rows seen = Inr rows"
| "load_rows limit (line # ls) rows seen =
     (case line of Inl e \<Rightarrow> Inl e
      | Inr (JObj row) \<Rightarrow>
          (case check_example seen row of Inl e \<Rightarrow> Inl e
           | Inr safe \<Rightarrow>
               let rows' = rows @ [row] in
               if (case limit of None \<Rightarrow> False | Some n \<Rightarrow> n \<le> int (length rows')) then Inr rows'
               else load_rows limit ls rows' (insert safe seen))
      | Inr _ \<Rightarrow> Inl AttributeError)"

definition load_dataset :: "jval result list \<Rightarrow> int option \<Rightarrow> jdict list result" where
  "load_dataset ls limit =
     (case load_rows limit ls [] {} of Inl e \<Rightarrow> Inl e | Inr rows \<Rightarrow> if rows = [] then Inl ValueError else Inr rows)"

text \<open>\<open>ref in prompt\<close>: a substring of a text, a member of a list, a key of an object.\<close>

definition py_contains :: "jval \<Rightarrow> jval \<Rightarrow> bool result" where
  "py_contains r v =
     (case v of
        JStr text \<Rightarrow> (case r of JStr s \<Rightarrow> Inr (py_in s text) | _ \<Rightarrow> Inl TypeError)
      | JArr xs \<Rightarrow> Inr (r \<in> set xs)
      | JObj d \<Rightarrow> (case r of JArr _ \<Rightarrow> Inl TypeError | JObj _ \<Rightarrow> Inl TypeError | _ \<Rightarrow> Inr (r \<in> set (map (JStr \<circ> fst) d)))
      | _ \<Rightarrow> Inl TypeError)"

fun first_contained :: "jval \<Rightarrow> jval list \<Rightarrow> jval option result" where
  "first_contained prompt [] = Inr None"
| "first_contained prompt (r # rs) =
     (case py_contains r prompt of Inl e \<Rightarrow> Inl e | Inr True \<Rightarrow> Inr (Some r) | Inr False \<Rightarrow> first_contained prompt rs)"

definition gold_text_of :: "jdict \<Rightarrow> jval option result" where
  "gold_text_of example =
     (let explicit = row_get example ''gold_text'' in
      if truthy explicit then Inr (Some (JStr (py_str explicit)))
      else case references (row_get example ''reference'') of Inl e \<Rightarrow> Inl e
        | Inr refs \<Rightarrow> first_contained (row_get example ''prompt'') refs)"

subsection \<open>Percentiles\<close>

definition py_trunc :: "rat \<Rightarrow> int" where
  "py_trunc x = (if x < 0 then \<lceil>x\<rceil> else \<lfloor>x\<rfloor>)"

definition percentile :: "rat list \<Rightarrow> rat \<Rightarrow> rat option result" where
  "percentile vals ratio =
     (if vals = [] then Inr None else
      let ordered = sort vals; n = int (length ordered);
          position = of_int (n - 1) * ratio; lo = py_trunc position; hi = min (lo + 1) (n - 1)
      in case py_nth ordered lo of Inl e \<Rightarrow> Inl e | Inr a \<Rightarrow>
         case py_nth ordered hi of Inl e \<Rightarrow> Inl e | Inr b \<Rightarrow> Inr (Some (a + (b - a) * (position - of_int lo))))"


subsection \<open>Identifiers and dump directories\<close>

lemma sample_sub_chars: "list_all sample_char (sample_sub b s)"
  by (induction b s rule: sample_sub.induct) (auto simp: sample_char_def)

lemma sample_sub_id: "list_all sample_char s \<Longrightarrow> sample_sub False s = s"
  by (induction s) auto

lemma sample_char_no_space: "sample_char ch \<Longrightarrow> \<not> is_space ch"
  by (auto simp: sample_char_def is_space_def Let_def)

lemma list_all_take: "list_all P xs \<Longrightarrow> list_all P (take n xs)"
  by (auto simp: list_all_iff dest: in_set_takeD)

lemma sanitize_id_shape: "list_all sample_char (sanitize_id s)" "sanitize_id s \<noteq> []" "length (sanitize_id s) \<le> 64"
  by (auto simp: sanitize_id_def Let_def sample_sub_chars list_all_take sample_char_def)

lemma strip_sample: "list_all sample_char s \<Longrightarrow> strip s = s"
  by (intro strip_digits) (auto simp: list_all_iff sample_char_no_space)

lemma sanitize_id_fixed:
  assumes "list_all sample_char s" and "s \<noteq> []" and "length s \<le> 64"
  shows "sanitize_id s = s"
  using assms by (simp add: sanitize_id_def strip_sample sample_sub_id)

lemma marker_sample_line:
  assumes "list_all sample_char s" and "s \<noteq> []" and "length s \<le> 64"
  shows "marker_sample (Some (s @ [CHR 0x0A])) = s"
proof -
  have "dropWhile is_space (s @ [CHR 0x0A]) = s @ [CHR 0x0A]"
    using assms(1,2) sample_char_no_space by (cases s) auto
  moreover have "dropWhile is_space (rev s) = rev s"
    using assms(1) sample_char_no_space by (cases "rev s") (auto simp: list_all_iff dest: arg_cong [of "rev s" _ set])
  ultimately have "strip (s @ [CHR 0x0A]) = s" by (simp add: strip_def is_space_def)
  then show ?thesis using assms by (simp add: marker_sample_def sample_sub_id)
qed

text \<open>The directory of an example: what the runner writes into the marker file and records with the result.\<close>

definition dump_subdir :: "jdict \<Rightarrow> string" where
  "dump_subdir row = sanitize_id (py_str (row_get row ''id''))"

lemma load_rows_distinct:
  assumes "load_rows limit ls rows (dump_subdir ` set rows) = Inr rows'" and "distinct (map dump_subdir rows)"
  shows "distinct (map dump_subdir rows')"
  using assms
proof (induction ls arbitrary: rows)
  case (Cons line ls)
  from Cons.prems(1) obtain row where line: "line = Inr (JObj row)" by (auto split: sum.splits jval.splits)
  with Cons.prems(1) obtain safe where safe: "check_example (dump_subdir ` set rows) row = Inr safe" by (auto split: sum.splits)
  then have fresh: "safe = dump_subdir row" "dump_subdir row \<notin> dump_subdir ` set rows"
    by (auto simp: check_example_def dump_subdir_def Let_def split: if_splits option.splits sum.splits)
  have ins: "insert safe (dump_subdir ` set rows) = dump_subdir ` set (rows @ [row])" using fresh(1) by simp
  have dist: "distinct (map dump_subdir (rows @ [row]))" using fresh(2) Cons.prems(2) by simp
  show ?case
  proof (cases "case limit of None \<Rightarrow> False | Some n \<Rightarrow> n \<le> int (length (rows @ [row]))")
    case True
    then show ?thesis using Cons.prems(1) line safe dist by (simp add: Let_def)
  next
    case False
    then have "load_rows limit ls (rows @ [row]) (dump_subdir ` set (rows @ [row])) = Inr rows'"
      using Cons.prems(1) line safe ins by (simp add: Let_def)
    then show ?thesis using Cons.IH dist by blast
  qed
qed simp


definition quality_row :: "string \<Rightarrow> jdict" where
  "quality_row i = [(''id'', JStr i), (''prompt'', JStr ''p'')]"


subsection \<open>The option judgement\<close>

lemma lower_no_option: "ch \<in> set (lower s) \<Longrightarrow> \<not> is_option ch"
proof -
  have "\<not> is_option (lower_char c)" for c
  proof (cases "65 \<le> (of_char c :: nat) \<and> (of_char c :: nat) \<le> 90")
    case True
    then have "(of_char (lower_char c) :: nat) = of_char c + 32" by (simp add: lower_char_def)
    then have "97 \<le> (of_char (lower_char c) :: nat)" using True by linarith
    then show ?thesis by (auto simp: is_option_def)
  next
    case False
    then show ?thesis by (auto simp: lower_char_def is_option_def Let_def)
  qed
  then show "ch \<in> set (lower s) \<Longrightarrow> \<not> is_option ch" by (auto simp: lower_def)
qed

lemma set_strip: "set (strip s) \<subseteq> set s"
  by (auto simp: strip_def dest!: set_dropWhileD)

lemma option_start_lower:
  assumes "set t \<subseteq> set (lower s)"
  shows "option_start t = None"
proof (cases "dropWhile (\<lambda>c. \<not> is_word c) t")
  case (Cons c rest)
  then have "c \<in> set t" using set_dropWhileD [of c "\<lambda>c. \<not> is_word c" t] by simp
  then show ?thesis using Cons assms lower_no_option by (auto simp: option_start_def)
next
  case Nil
  then show ?thesis unfolding option_start_def by (simp only: list.case)
qed

text \<open>
  In option mode the answer is normalised to lower case before the letter is extracted, so an
  output that commits to its letter by starting with it, as the prompts of the option data sets ask
  for, is never judged right: only an explicit "answer" or "option" phrase can be. The extraction
  itself recognises such a letter.
\<close>

theorem option_mode_ignores_leading_letter:
  assumes "option_explicit (strip (normalize_answer output)) = None"
  shows "match_answer output reference Option \<in> {Inr None, Inr (Some False), Inl TypeError}"
proof -
  have "set (strip (normalize_answer output)) \<subseteq> set (lower (strip (join '' '' (py_split (str_or_empty output)))))"
    using set_strip by (simp add: normalize_answer_def)
  then have "option_start (strip (normalize_answer output)) = None" by (rule option_start_lower)
  moreover have "str_or_empty (JStr s) = s" for s by (simp add: str_or_empty_def py_str_def)
  ultimately have "extract_option (JStr (normalize_answer output)) = None" using assms by (simp add: extract_option_def)
  moreover have "references reference = Inl e \<Longrightarrow> e = TypeError" for e
    by (auto simp: references_def split: jval.splits if_splits)
  ultimately show ?thesis by (auto simp: match_answer_def Let_def split: sum.splits)
qed

theorem option_mode_ignores_leading_letter_witness:
  "extract_option (JStr ''C. because'') = Some ''C'' \<and> match_answer (JStr ''C. because'') (JArr [JStr ''C'', JStr ''(C)'']) Option = Inr (Some False)"
proof -
  have "option_explicit (strip (normalize_answer (JStr ''C. because''))) = None" by code_simp
  from option_mode_ignores_leading_letter [OF this, of "JArr [JStr ''C'', JStr ''(C)'']"]
  have "match_answer (JStr ''C. because'') (JArr [JStr ''C'', JStr ''(C)'']) Option \<noteq> Inr (Some True)" by auto
  moreover have "match_answer (JStr ''C. because'') (JArr [JStr ''C'', JStr ''(C)'']) Option \<noteq> Inr None" by code_simp
  moreover have "references (JArr [JStr ''C'', JStr ''(C)'']) = Inr [JStr ''C'', JStr ''(C)'']" by (simp add: references_def)
  moreover have "extract_option (JStr ''C. because'') = Some ''C''" by code_simp
  ultimately show ?thesis by (auto simp: match_answer_def Let_def)
qed

subsection \<open>Percentiles\<close>

lemma between_neighbours:
  fixes a b x t :: rat
  assumes "a \<le> b" and "0 \<le> t" and "t \<le> 1"
  shows "a \<le> a + (b - a) * t" and "a + (b - a) * t \<le> b"
proof -
  have "0 \<le> (b - a) * t" "(b - a) * t \<le> (b - a) * 1"
    using assms by (intro mult_nonneg_nonneg mult_left_mono; simp)+
  then show "a \<le> a + (b - a) * t" "a + (b - a) * t \<le> b" by auto
qed

lemma sort_ends:
  assumes "xs \<noteq> []"
  shows "sort xs ! 0 = Min (set xs)" and "sort xs ! (length xs - 1) = Max (set xs)"
proof -
  have le: "sort xs ! 0 \<le> v \<and> v \<le> sort xs ! (length xs - 1)" if v: "v \<in> set xs" for v
  proof -
    obtain i where "i < length xs" "sort xs ! i = v" using v by (metis in_set_conv_nth length_sort set_sort)
    then show ?thesis using sorted_nth_mono [of "sort xs" 0 i] sorted_nth_mono [of "sort xs" i "length xs - 1"] by auto
  qed
  have mem: "sort xs ! 0 \<in> set xs" "sort xs ! (length xs - 1) \<in> set xs"
    using assms nth_mem [of 0 "sort xs"] nth_mem [of "length xs - 1" "sort xs"] by auto
  show "sort xs ! 0 = Min (set xs)" by (rule Min_eqI [symmetric]) (use le mem in auto)
  show "sort xs ! (length xs - 1) = Max (set xs)" by (rule Max_eqI [symmetric]) (use le mem in auto)
qed

text \<open>
  A percentile of a nonempty list at a ratio between zero and one is computed without an error
  and lies between the smallest and the largest value; at zero and one it is the smallest and the
  largest value.
\<close>

theorem percentile_between:
  assumes "vals \<noteq> []" and "0 \<le> ratio" and "ratio \<le> 1"
  shows "\<exists>p. percentile vals ratio = Inr (Some p) \<and> Min (set vals) \<le> p \<and> p \<le> Max (set vals) \<and>
    (ratio = 0 \<longrightarrow> p = Min (set vals)) \<and> (ratio = 1 \<longrightarrow> p = Max (set vals))"
proof -
  let ?o = "sort vals" and ?n = "int (length vals)"
  let ?p = "of_int (?n - 1) * ratio"
  have n: "1 \<le> ?n" using assms(1) by (cases vals) auto
  have p: "0 \<le> ?p" "?p \<le> of_int (?n - 1)"
    using n assms(2,3) mult_left_mono [OF assms(3), of "of_int (?n - 1)"] by auto
  let ?lo = "\<lfloor>?p\<rfloor>" and ?hi = "min (\<lfloor>?p\<rfloor> + 1) (?n - 1)"
  have "(of_int ?lo :: rat) \<le> of_int (?n - 1)" using p(2) of_int_floor_le [of ?p] by linarith
  then have lo: "0 \<le> ?lo" "?lo \<le> ?n - 1" "py_trunc ?p = ?lo"
    using p(1) unfolding of_int_le_iff by (simp_all add: py_trunc_def)
  have idx: "nat ?lo < length ?o" "nat ?hi < length ?o" "nat ?lo \<le> nat ?hi" using lo n by auto
  have frac: "0 \<le> ?p - of_int ?lo" "?p - of_int ?lo \<le> 1" by linarith+
  have mem: "?o ! nat ?lo \<in> set vals" "?o ! nat ?hi \<in> set vals" using idx nth_mem by (metis set_sort)+
  have le: "?o ! nat ?lo \<le> ?o ! nat ?hi" using idx by (intro sorted_nth_mono) auto
  let ?r = "?o ! nat ?lo + (?o ! nat ?hi - ?o ! nat ?lo) * (?p - of_int ?lo)"
  have eq: "percentile vals ratio = Inr (Some ?r)"
    using assms(1) lo n by (simp add: percentile_def Let_def py_nth_nonneg)
  have "Min (set vals) \<le> ?o ! nat ?lo" "?o ! nat ?hi \<le> Max (set vals)" using mem by auto
  then have bounds: "Min (set vals) \<le> ?r" "?r \<le> Max (set vals)" using between_neighbours [OF le frac] by linarith+
  have "ratio = 0 \<longrightarrow> ?r = Min (set vals)" "ratio = 1 \<longrightarrow> ?r = Max (set vals)"
    using sort_ends [OF assms(1)] n by (auto simp: nat_diff_distrib)
  then show ?thesis using eq bounds by blast
qed

theorem percentile_between_witness:
  "\<exists>p. percentile [3, 1, 2] (1 / 2) = Inr (Some p) \<and> 1 \<le> p \<and> p \<le> 3"
  using percentile_between [of "[3, 1, 2]" "1 / 2"] by auto

end
