(* ===== verification/QualityData.thy ===== *)
theory QualityData
  imports QualityCommon
begin

section \<open>Building the data sets of the quality experiment\<close>

text \<open>
  Model of \<open>scripts/quality/sample_dataset.py\<close>, \<open>convert_datasets.py\<close> and
  \<open>make_passkey_dataset.py\<close>: drawing a balanced subset and splitting it into batches, normalising
  downloaded benchmarks, and generating passkey prompts. A file is the list of the rows appended to
  it; the random generator, the tokenizer and the tokenize endpoint are parameters. Tasks are texts.
\<close>

subsection \<open>sample\_dataset.py\<close>

definition task_of :: "jdict \<Rightarrow> string" where
  "task_of row = (let t = row_get row ''task'' in if truthy t then py_str t else ''default'')"

definition group_rows :: "jdict list \<Rightarrow> (string \<times> jdict list) list" where
  "group_rows rows = foldl (\<lambda>gs row. dict_set (task_of row) (dict_get gs (task_of row) [] @ [row]) gs) [] rows"

text \<open>One pass over the tasks; the flag says that a row was taken.\<close>

fun pick_round ::
  "int \<Rightarrow> string list \<Rightarrow> (string \<times> jdict list) list \<Rightarrow> jdict list \<Rightarrow> bool \<Rightarrow> (string \<times> jdict list) list \<times> jdict list \<times> bool" where
  "pick_round want [] groups picked advanced = (groups, picked, advanced)"
| "pick_round want (key # ks) groups picked advanced =
     (case dict_get groups key [] of
        row # rest \<Rightarrow>
          if int (length picked) < want then pick_round want ks (dict_set key rest groups) (picked @ [row]) True
          else pick_round want ks groups picked advanced
      | [] \<Rightarrow> pick_round want ks groups picked advanced)"

lemma pick_round_grows:
  "pick_round want ks groups picked b = (groups', picked', b') \<Longrightarrow>
   length picked \<le> length picked' \<and> (b' \<and> \<not> b \<longrightarrow> length picked < length picked')"
  by (induction want ks groups picked b arbitrary: groups' picked' b' rule: pick_round.induct)
    (fastforce split: list.splits if_splits)+

lemma pick_round_flag: "pick_round want ks groups picked True = (groups', picked', b') \<Longrightarrow> b'"
proof (induction want ks groups picked True arbitrary: groups' picked' b' rule: pick_round.induct)
  case (2 want key ks groups picked)
  then show ?case by (auto split: list.splits if_splits)
qed simp

function pick_loop :: "int \<Rightarrow> (string \<times> jdict list) list \<Rightarrow> jdict list \<Rightarrow> jdict list" where
  "pick_loop want groups picked =
     (if int (length picked) < want
      then (case pick_round want (sort (map fst groups)) groups picked False of
              (groups', picked', advanced) \<Rightarrow> if advanced then pick_loop want groups' picked' else picked')
      else picked)"
  by auto
termination
  by (relation "measure (\<lambda>(want, groups, picked). nat (want - int (length picked)))")
    (auto dest!: pick_round_grows [OF sym])

declare pick_loop.simps [simp del]

datatype sample_strategy = TaskRoundRobin | Random

definition pick :: "(jdict list \<Rightarrow> int \<Rightarrow> jdict list result) \<Rightarrow> jdict list \<Rightarrow> int \<Rightarrow> sample_strategy \<Rightarrow> jdict list result" where
  "pick sample rows want strat =
     (case strat of Random \<Rightarrow> sample rows want | TaskRoundRobin \<Rightarrow> Inr (pick_loop want (group_rows rows) []))"

record sample_args =
  sa_count :: "int option"
  sa_strategy :: sample_strategy
  sa_out :: "string option"
  sa_out_prefix :: "string option"
  sa_batch_size :: int

type_synonym jsonl_files = "string \<Rightarrow> jdict list option"

definition append_jsonl :: "string \<Rightarrow> jdict \<Rightarrow> jsonl_files \<Rightarrow> jsonl_files" where
  "append_jsonl path row fs = fs(path \<mapsto> (case fs path of None \<Rightarrow> [] | Some rows \<Rightarrow> rows) @ [row])"

definition append_rows :: "string \<Rightarrow> jdict list \<Rightarrow> jsonl_files \<Rightarrow> jsonl_files" where
  "append_rows path rows fs = foldl (\<lambda>fs row. append_jsonl path row fs) fs rows"

definition pad_digits :: "nat \<Rightarrow> nat \<Rightarrow> string" where
  "pad_digits w n = replicate (w - length (show_nat n)) CHR ''0'' @ show_nat n"

definition write_batch :: "string \<Rightarrow> nat \<times> jdict list \<Rightarrow> jsonl_files \<Rightarrow> (unit, jsonl_files) outcome" where
  "write_batch prefix ib fs =
     (case ib of (index, batch) \<Rightarrow>
      let out = prefix @ pad_digits 2 index @ ''.jsonl'' in
      if fs out \<noteq> None then (Inl SystemExit, fs) else (Inr (), append_rows out batch fs))"

definition batches_of :: "int \<Rightarrow> jdict list \<Rightarrow> jdict list list" where
  "batches_of n rows = map (\<lambda>i. py_slice rows i (i + n)) (py_range 0 (int (length rows)) n)"

definition sample_main ::
  "(jdict list \<Rightarrow> int \<Rightarrow> jdict list result) \<Rightarrow> sample_args \<Rightarrow> jdict list \<Rightarrow> jsonl_files \<Rightarrow> (unit, jsonl_files) outcome" where
  "sample_main sample a rows fs =
     (let want = (case sa_count a of Some n \<Rightarrow> n | None \<Rightarrow> int (length rows)) in
      if int (length rows) < want then (Inl SystemExit, fs) else
      case pick sample rows want (sa_strategy a) of Inl e \<Rightarrow> (Inl e, fs) | Inr ordered \<Rightarrow>
      case sa_out_prefix a of
        Some (c # cs) \<Rightarrow>
          if sa_batch_size a < 1 then (Inl SystemExit, fs)
          else for_each (write_batch (c # cs)) (enumerate 1 (batches_of (sa_batch_size a) ordered)) fs
      | _ \<Rightarrow>
          (case sa_out a of
             Some (c # cs) \<Rightarrow> if fs (c # cs) \<noteq> None then (Inl SystemExit, fs) else (Inr (), append_rows (c # cs) ordered fs)
           | _ \<Rightarrow> (Inl SystemExit, fs)))"

subsection \<open>convert\_datasets.py\<close>

text \<open>A converter is a generator: the list of what its iterations yield or raise.\<close>

definition need_key :: "jdict \<Rightarrow> string \<Rightarrow> jval result" where
  "need_key row k = (case map_of row k of None \<Rightarrow> Inl KeyError | Some v \<Rightarrow> Inr v)"

definition jor :: "jval \<Rightarrow> jval \<Rightarrow> jval" where
  "jor x y = (if truthy x then x else y)"

definition ruler_row :: "nat \<Rightarrow> jval \<Rightarrow> jdict result" where
  "ruler_row index v =
     (case v of JObj row \<Rightarrow>
        (case need_key row ''prompt'' of Inl e \<Rightarrow> Inl e | Inr prompt \<Rightarrow>
         let truth = row_get row ''ground_truth'' in
         Inr [(''id'', JStr (sanitize_id (py_str (jor (row_get row ''id'') (JStr (''ruler_'' @ pad_digits 4 index)))))),
              (''task'', JStr (''ruler_'' @ py_str (jor (row_get row ''generator'') (jor (row_get row ''task'') (JStr ''gen''))))),
              (''prompt'', prompt), (''reference'', truth),
              (''gold_text'', case truth of JArr (t # _) \<Rightarrow> t | _ \<Rightarrow> truth),
              (''max_tokens'', JInt 32), (''match'', JStr ''contain'')])
      | _ \<Rightarrow> Inl AttributeError)"

definition rows_ruler :: "jval result option list \<Rightarrow> jdict result list" where
  "rows_ruler ls = map (\<lambda>(i, l). case l of Inl e \<Rightarrow> Inl e | Inr v \<Rightarrow> ruler_row i v)
     (concat (map (\<lambda>(i, l). case l of None \<Rightarrow> [] | Some x \<Rightarrow> [(i, x)]) (enumerate 0 ls)))"

definition choice_text :: "jdict \<Rightarrow> string \<times> string \<Rightarrow> string" where
  "choice_text row p =
     (case p of (letter, number) \<Rightarrow>
      (case row_get row (''choice_'' @ letter) of JNull \<Rightarrow> str_or_empty (row_get row (''choice'' @ number)) | v \<Rightarrow> py_str v))"

definition letters :: "string list" where
  "letters = [''A'', ''B'', ''C'', ''D'']"

definition nl :: string where
  "nl = [CHR 0x0A]"

definition longbench_row :: "nat \<Rightarrow> jval \<Rightarrow> jdict result" where
  "longbench_row index v =
     (case v of JObj row \<Rightarrow>
        (let answer = take 1 (upper (strip (str_or_empty (row_get row ''answer''))));
             options = map (choice_text row) (zip letters [''1'', ''2'', ''3'', ''4'']) in
         if list_all (\<lambda>x. strip x = []) options then Inl SystemExit else
         case need_key row ''context'' of Inl e \<Rightarrow> Inl e | Inr context \<Rightarrow>
         case need_key row ''question'' of Inl e \<Rightarrow> Inl e | Inr question \<Rightarrow>
         Inr [(''id'', JStr (sanitize_id (''lbv2_'' @ pad_digits 4 index))),
              (''task'', JStr (''lbv2_'' @ py_str (jor (row_get row ''domain'') (JStr ''any'')))),
              (''prompt'', JStr (py_str context @ nl @ nl @ ''Question: '' @ py_str question @ nl @
                 join nl (map (\<lambda>(l, x). l @ ''. '' @ x) (zip letters options)) @
                 nl @ ''Answer with the option'' @ [CHR 0x27] @ ''s letter only.'')),
              (''reference'', JArr [JStr answer, JStr (''('' @ answer @ '')'')]),
              (''max_tokens'', JInt 64), (''match'', JStr ''option'')])
      | _ \<Rightarrow> Inl AttributeError)"

definition rows_longbench_v2 :: "jval list \<Rightarrow> jdict result list" where
  "rows_longbench_v2 data = map (\<lambda>(i, v). longbench_row i v) (enumerate 0 data)"

definition infinitebench_row :: "string \<Rightarrow> nat \<Rightarrow> jval \<Rightarrow> jdict result" where
  "infinitebench_row task index v =
     (case v of JObj row \<Rightarrow>
        (let answer = row_get row ''answer'' in
         case need_key row ''context'' of Inl e \<Rightarrow> Inl e | Inr context \<Rightarrow>
         case need_key row ''input'' of Inl e \<Rightarrow> Inl e | Inr inp \<Rightarrow>
         case (case answer of JStr _ \<Rightarrow> py_contains answer context | _ \<Rightarrow> Inr False) of Inl e \<Rightarrow> Inl e | Inr verbatim \<Rightarrow>
         Inr [(''id'', JStr (sanitize_id (task @ ''_'' @ pad_digits 4 index))), (''task'', JStr (''inf_'' @ task)),
              (''prompt'', JStr (py_str context @ nl @ nl @ py_str inp)), (''reference'', answer),
              (''gold_text'', if verbatim then answer else JNull), (''max_tokens'', JInt 64), (''match'', JStr ''contain'')])
      | _ \<Rightarrow> Inl AttributeError)"

definition rows_infinitebench :: "string \<Rightarrow> jval list \<Rightarrow> jdict result list" where
  "rows_infinitebench stem data = map (\<lambda>(i, v). infinitebench_row (sanitize_id stem) i v) (enumerate 0 data)"

record convert_state =
  cv_endpoint :: bool
  cv_written :: int
  cv_kept :: int
  cv_filtered :: int
  cv_unscoreable :: int
  cv_longest :: int
  cv_out :: "jdict list"

fun py_len :: "jval \<Rightarrow> int result" where
  "py_len (JStr s) = Inr (int (length s))"
| "py_len (JArr xs) = Inr (int (length xs))"
| "py_len (JObj d) = Inr (int (length d))"
| "py_len _ = Inl TypeError"

text \<open>
  The body of the loop. \<open>tokenize\<close> stands for the request to the endpoint; after its first failure
  the endpoint is not used again.
\<close>

definition convert_row :: "(jval \<Rightarrow> int result) \<Rightarrow> int \<Rightarrow> jdict \<Rightarrow> convert_state \<Rightarrow> (unit, convert_state) outcome" where
  "convert_row tokenize max_prompt row s0 =
     (let s = s0\<lparr>cv_written := cv_written s0 + 1\<rparr> in
      if row_get row ''reference'' \<in> {JNull, JStr [], JArr []} then (Inr (), s\<lparr>cv_unscoreable := cv_unscoreable s + 1\<rparr>) else
      let prompt = row_get row ''prompt'';
          tokens = (if cv_endpoint s then (case tokenize prompt of Inl _ \<Rightarrow> None | Inr n \<Rightarrow> Some n) else None);
          s1 = (if cv_endpoint s \<and> tokens = None then s\<lparr>cv_endpoint := False\<rparr> else s) in
      case py_len prompt of Inl e \<Rightarrow> (Inl e, s1) | Inr chars \<Rightarrow>
      let row1 = dict_set ''prompt_chars'' (JInt chars) row in
      case tokens of
        None \<Rightarrow> (Inr (), s1\<lparr>cv_kept := cv_kept s1 + 1, cv_out := cv_out s1 @ [row1]\<rparr>)
      | Some n \<Rightarrow>
          let row2 = dict_set ''approx_tokens'' (JInt n) row1; s2 = s1\<lparr>cv_longest := max (cv_longest s1) n\<rparr> in
          (case py_int (jor (row_get row ''max_tokens'') (JInt 64)) of Inl e \<Rightarrow> (Inl e, s2)
           | Inr m \<Rightarrow>
               if max_prompt < n + m then (Inr (), s2\<lparr>cv_filtered := cv_filtered s2 + 1\<rparr>)
               else (Inr (), s2\<lparr>cv_kept := cv_kept s2 + 1, cv_out := cv_out s2 @ [row2]\<rparr>)))"

definition datasets_main ::
  "(jval \<Rightarrow> int result) \<Rightarrow> int \<Rightarrow> bool \<Rightarrow> bool \<Rightarrow> jdict result list \<Rightarrow> (unit, convert_state) outcome" where
  "datasets_main tokenize max_prompt use_endpoint out_exists rows =
     (let s0 = \<lparr>cv_endpoint = use_endpoint, cv_written = 0, cv_kept = 0, cv_filtered = 0, cv_unscoreable = 0,
                cv_longest = 0, cv_out = []\<rparr> in
      if out_exists then (Inl SystemExit, s0) else
      rbind (for_each (\<lambda>r s. case r of Inl e \<Rightarrow> (Inl e, s) | Inr row \<Rightarrow> convert_row tokenize max_prompt row s) rows s0)
        (\<lambda>_ s. if cv_kept s = 0 then (Inl SystemExit, s) else (Inr (), s)))"

subsection \<open>make\_passkey\_dataset.py\<close>

definition FILLER :: "string list" where
  "FILLER = [
    ''The tram line along the northern riverbank was rebuilt after the flood season.'',
    ''Local bakers start before sunrise so the market stalls smell of warm bread.'',
    ''A quiet reading room on the fourth floor keeps its lamps on until midnight.'',
    ''The observatory publishes a small bulletin whenever a comet becomes visible.'',
    ''Mountain railways use rack gears where the slope exceeds ordinary adhesion.'',
    ''The old print shop still sets headlines by hand for the summer festival.'',
    ''Coastal ferries adjust their timetable twice a year with the tides.'',
    ''The botanical garden labels its greenhouses by average humidity bands.'',
    ''Village wells were replaced by a piped network during the last decade.'',
    ''The choir rehearses in the stone chapel because the echo carries the bass.'',
    ''Cartographers of that era drew sea monsters where surveys were missing.'',
    ''The tool museum arranges its collection by the shape of the handle.'',
    ''Riverside benches face the water so the sunset can be watched in silence.'',
    ''The clockmaker winds the tower mechanism every Thursday afternoon.'',
    ''Shepherds in the high valley move with the grass, not the calendar.'',
    ''The city archive stores newspaper pages in flat boxes sorted by district.'',
    ''Orchard owners cover the youngest trees whenever frost is forecast.'',
    ''The pottery class learned that thin walls ring clearer than thick ones.'',
    ''A footbridge of woven bamboo connects the two halves of the island.'',
    ''The amateur radio club erects a temporary mast for the winter contest.'',
    ''Librarians rotate the display cases with the changing school terms.'',
    ''The hillside vineyard terraces follow seams of dark volcanic stone.'',
    ''Fishing families mend nets on the quay while the tide is out.'',
    ''The small foundry casts bronze fittings for the restored carousel.'',
    ''Night trains dim the corridor lights after the second station.'',
    ''The open-air cinema hangs its screen between two plane trees.'',
    ''Gliders climb along the ridge until the thermals fade in the evening.'',
    ''The town council meets in a hall with a very slightly sloping floor.'',
    ''Boatbuilders steam the ribs of oak until they bend to the template.'',
    ''The weather station notes the first frost on a brass plaque by the gate.'']"

text \<open>\<open>round(x)\<close> rounds half to even.\<close>

definition py_round :: "rat \<Rightarrow> int" where
  "py_round x =
     (let f = \<lfloor>x\<rfloor>; d = x - of_int f in
      if d < 1 / 2 then f else if 1 / 2 < d then f + 1 else if even f then f else f + 1)"

definition chars_counter :: "rat \<Rightarrow> string \<Rightarrow> int" where
  "chars_counter chars_per_token text = max 1 (py_round (of_nat (length text) / chars_per_token))"

text \<open>\<open>text.split(" ")\<close> and \<open>xs.insert(i, x)\<close>.\<close>

fun split_blank :: "string \<Rightarrow> string list" where
  "split_blank [] = [[]]"
| "split_blank (ch # cs) =
     (if ch = CHR '' '' then [] # split_blank cs
      else (case split_blank cs of [] \<Rightarrow> [[ch]] | w # ws \<Rightarrow> (ch # w) # ws))"

definition py_insert :: "int \<Rightarrow> 'a \<Rightarrow> 'a list \<Rightarrow> 'a list" where
  "py_insert i x xs = (let k = py_clamp (length xs) i in take k xs @ [x] @ drop k xs)"

type_synonym 'r rng = "'r \<Rightarrow> int \<Rightarrow> int \<Rightarrow> int \<times> 'r"

fun draw_keys :: "'r rng \<Rightarrow> nat \<Rightarrow> nat \<Rightarrow> 'r \<Rightarrow> string list \<times> 'r" where
  "draw_keys randrange digits 0 r = ([], r)"
| "draw_keys randrange digits (Suc n) r =
     (case randrange r (10 ^ (digits - 1)) (10 ^ digits) of (k, r1) \<Rightarrow>
      case draw_keys randrange digits n r1 of (ks, r2) \<Rightarrow> (show_int k # ks, r2))"

text \<open>The filler loop may not end when no sentence costs a token, so that not returning is the value \<open>None\<close>.\<close>

partial_function (option) fill_loop ::
  "'r rng \<Rightarrow> (string \<Rightarrow> int) \<Rightarrow> int \<Rightarrow> string list \<Rightarrow> int \<Rightarrow> 'r \<Rightarrow> ((string list \<times> int) result \<times> 'r) option" where
  "fill_loop randrange cost quota sentences spent r =
     (if spent < quota
      then (case randrange r 0 (int (length FILLER)) of (i, r') \<Rightarrow>
              case py_nth FILLER i of Inl e \<Rightarrow> Some (Inl e, r')
              | Inr sentence \<Rightarrow> fill_loop randrange cost quota (sentences @ [sentence]) (spent + cost (sentence @ '' '')) r')
      else Some (Inr (sentences, spent), r))"

lemma split_blank_length: "1 \<le> length (split_blank s)" "sum_list (map length (split_blank s)) + length (split_blank s) = Suc (length s)"
proof (induction s)
  case (Cons ch cs)
  {
    case 1
    then show ?case by (cases "split_blank cs") auto
  next
    case 2
    then show ?case using Cons by (cases "split_blank cs") auto
  }
qed auto

lemma join_blank_length: "xs \<noteq> [] \<Longrightarrow> length (join '' '' xs) + 1 = sum_list (map length xs) + length xs"
  by (induction "'' ''" xs rule: join.induct) auto

lemma cut_shorter:
  assumes "3 < length (split_blank s)"
  shows "length (join '' '' (butlast (split_blank s))) < length s"
proof -
  obtain ws w where ws: "split_blank s = ws @ [w]" "ws \<noteq> []"
    using assms by (cases "split_blank s" rule: rev_cases) force+
  then show ?thesis using split_blank_length(2) [of s] join_blank_length [OF ws(2)] by simp
qed

text \<open>Trimming the final sentence word by word into the tolerance window.\<close>

function trim_loop :: "(string \<Rightarrow> int) \<Rightarrow> int \<Rightarrow> int \<Rightarrow> string list \<Rightarrow> int \<Rightarrow> string list \<times> int" where
  "trim_loop cost target quota sentences spent =
     (if sentences \<noteq> [] \<and> max 8 (target div 50) < spent - quota
      then let words = split_blank (last sentences) in
        if length words \<le> 3
        then trim_loop cost target quota (butlast sentences) (spent - cost (join '' '' words @ '' ''))
        else let cut = join '' '' (butlast words) in
          trim_loop cost target quota (butlast sentences @ [cut]) (spent - cost (last sentences @ '' '') + cost (cut @ '' ''))
      else (sentences, spent))"
  by auto
termination
proof (relation "measure (\<lambda>(cost, target, quota, sentences, spent). length sentences + sum_list (map length sentences))", goal_cases)
  case (2 cost target quota sentences spent words)
  then show ?case by (cases sentences rule: rev_cases) auto
next
  case (3 cost target quota sentences spent words cut)
  then show ?case using cut_shorter [of "last sentences"] by (cases sentences rule: rev_cases) auto
qed simp

declare trim_loop.simps [simp del]

definition passkey_head :: string where
  "passkey_head = ''There is some text below. The text contains one or more special magic numbers for passkey retrieval. Read the text and answer the final question about them. ''"

definition passkey_tail :: string where
  "passkey_tail = ''What is the special magic number for passkey retrieval mentioned in the text? The special magic number for passkey retrieval mentioned in the text is''"

definition needle_text :: "string \<Rightarrow> string" where
  "needle_text key = '' One of the special magic numbers for passkey retrieval is: '' @ key @ ''. Remember it. ''"

definition insert_needles :: "rat \<Rightarrow> string list \<Rightarrow> string list \<Rightarrow> string list" where
  "insert_needles depth needles sentences =
     (let position = py_round (depth * of_nat (length sentences)) in
      foldl (\<lambda>ss needle. py_insert (min position (int (length ss))) (strip needle) ss) sentences needles)"

definition build_prompt ::
  "'r rng \<Rightarrow> (string \<Rightarrow> int) \<Rightarrow> int \<Rightarrow> rat \<Rightarrow> nat \<Rightarrow> nat \<Rightarrow> 'r \<Rightarrow> ((string \<times> string list) result \<times> 'r) option" where
  "build_prompt randrange cost target depth digits needles r =
     (if digits = 0 \<and> needles \<noteq> 0 then Some (Inl TypeError, r) else
      case draw_keys randrange digits needles r of (keys, r1) \<Rightarrow>
      let texts = map needle_text keys;
          quota = target - cost passkey_head - cost passkey_tail - sum_list (map cost texts)
      in case fill_loop randrange cost quota [] 0 r1 of
           None \<Rightarrow> None
         | Some (Inl e, r2) \<Rightarrow> Some (Inl e, r2)
         | Some (Inr (sentences, spent), r2) \<Rightarrow>
             let trimmed = fst (trim_loop cost target quota sentences spent) in
             Some (Inr (passkey_head @ join '' '' (insert_needles depth texts trimmed) @ '' '' @ passkey_tail, keys), r2))"

record passkey_args =
  pa_count :: nat
  pa_target_tokens :: int
  pa_depths :: "rat list"
  pa_digits :: nat
  pa_needle_count :: nat
  pa_max_tokens :: int

definition passkey_row :: "(string \<Rightarrow> int) \<Rightarrow> passkey_args \<Rightarrow> nat \<Rightarrow> rat \<Rightarrow> string \<Rightarrow> string list \<Rightarrow> jdict result" where
  "passkey_row cost a index depth prompt keys =
     (case py_nth keys 0 of Inl e \<Rightarrow> Inl e | Inr key \<Rightarrow>
      let tag = ''passkey'' @ show_int (pa_target_tokens a) in
      Inr [(''id'', JStr (sanitize_id (tag @ ''_d'' @ show_int (py_trunc (depth * 100)) @ ''_'' @ pad_digits 4 index))),
           (''task'', JStr tag), (''prompt'', JStr prompt),
           (''reference'', if pa_needle_count a = 1 then JStr key else JArr (map JStr keys)), (''gold_text'', JStr key),
           (''max_tokens'', JInt (pa_max_tokens a)), (''match'', JStr ''contain''), (''approx_tokens'', JInt (cost prompt))])"

text \<open>The rows appended to the output file; the depth column, a number with a fraction, is not modelled.\<close>

fun generate_rows :: "'r rng \<Rightarrow> (string \<Rightarrow> int) \<Rightarrow> passkey_args \<Rightarrow> nat list \<Rightarrow> 'r \<Rightarrow> jdict list \<Rightarrow> (unit, jdict list) outcome option" where
  "generate_rows randrange cost a [] r out = Some (Inr (), out)"
| "generate_rows randrange cost a (index # is) r out =
     (let depth = pa_depths a ! (index mod length (pa_depths a)) in
      case build_prompt randrange cost (pa_target_tokens a) depth (pa_digits a) (pa_needle_count a) r of
        None \<Rightarrow> None
      | Some (Inl e, _) \<Rightarrow> Some (Inl e, out)
      | Some (Inr (prompt, keys), r') \<Rightarrow>
          (case passkey_row cost a index depth prompt keys of Inl e \<Rightarrow> Some (Inl e, out)
           | Inr row \<Rightarrow> generate_rows randrange cost a is r' (out @ [row])))"

definition generate :: "'r rng \<Rightarrow> (string \<Rightarrow> int) \<Rightarrow> passkey_args \<Rightarrow> bool \<Rightarrow> 'r \<Rightarrow> (unit, jdict list) outcome option" where
  "generate randrange cost a out_exists r =
     (if out_exists then Some (Inl SystemExit, []) else generate_rows randrange cost a [0..<pa_count a] r [])"

subsection \<open>The drawn subset is balanced\<close>

abbreviation of_task :: "string \<Rightarrow> jdict list \<Rightarrow> jdict list" where
  "of_task t rows \<equiv> filter (\<lambda>r. task_of r = t) rows"

lemma group_rows_lookup: "dict_get (group_rows rows) t [] = of_task t rows"
proof (induction rows rule: rev_induct)
  case (snoc r rows)
  then show ?case by (auto simp: group_rows_def dict_get_set)
qed (simp add: group_rows_def dict_get_def)

lemma group_rows_keys: "set (map fst (group_rows rows)) = task_of ` set rows" "distinct (map fst (group_rows rows))"
proof -
  have "set (map fst (group_rows rows)) = task_of ` set rows \<and> distinct (map fst (group_rows rows))"
  proof (induction rows rule: rev_induct)
    case (snoc r rows)
    then show ?case using keys_dict_set [of "task_of r" _ "group_rows rows"] by (auto simp: group_rows_def)
  qed (simp add: group_rows_def)
  then show "set (map fst (group_rows rows)) = task_of ` set rows" "distinct (map fst (group_rows rows))" by auto
qed

text \<open>The state of the loop: of every task the first \<open>n t\<close> rows are taken, in order.\<close>

definition taken :: "jdict list \<Rightarrow> (string \<Rightarrow> nat) \<Rightarrow> (string \<times> jdict list) list \<Rightarrow> jdict list \<Rightarrow> bool" where
  "taken rows n groups picked \<longleftrightarrow>
     (\<forall>t. n t \<le> length (of_task t rows) \<and> dict_get groups t [] = drop (n t) (of_task t rows) \<and> of_task t picked = take (n t) (of_task t rows))"

lemma taken_next:
  assumes "taken rows n groups picked" and "dict_get groups key [] = row # rest"
  shows "taken rows (n(key := Suc (n key))) (dict_set key rest groups) (picked @ [row])" and "n key < length (of_task key rows)"
proof -
  let ?l = "of_task key rows"
  have d: "drop (n key) ?l = row # rest" using assms by (simp add: taken_def)
  show lt: "n key < length ?l" using d by (metis drop_all list.distinct(1) not_le)
  have row: "?l ! n key = row" using d lt by (metis Cons_nth_drop_Suc list.inject)
  have "row \<in> set ?l" using row lt nth_mem by metis
  then have "task_of row = key" by simp
  moreover have "drop (Suc (n key)) ?l = rest" using d by (metis drop_Suc list.sel(3) tl_drop)
  moreover have "take (Suc (n key)) ?l = take (n key) ?l @ [row]" using lt row by (simp add: take_Suc_conv_app_nth)
  ultimately show "taken rows (n(key := Suc (n key))) (dict_set key rest groups) (picked @ [row])"
    using assms(1) lt by (auto simp: taken_def dict_get_set)
qed

lemma pick_round_taken:
  assumes "pick_round want ks groups picked b = (groups', picked', b')" and "taken rows n groups picked" and "distinct ks"
    and "int (length picked) \<le> want" and "set ks \<subseteq> set (map fst groups)"
  shows "\<exists>n'. taken rows n' groups' picked' \<and> (\<forall>t. n t \<le> n' t \<and> n' t \<le> Suc (n t)) \<and> (\<forall>t. t \<notin> set ks \<longrightarrow> n' t = n t) \<and>
    (int (length picked') < want \<longrightarrow> (\<forall>t\<in>set ks. n' t = min (Suc (n t)) (length (of_task t rows)))) \<and>
    (\<not> b' \<longrightarrow> n' = n) \<and> int (length picked') \<le> want \<and> map fst groups' = map fst groups"
  using assms
proof (induction want ks groups picked b arbitrary: n rule: pick_round.induct)
  case (2 want key ks groups picked b)
  show ?case
  proof (cases "dict_get groups key []")
    case Nil
    then have full: "length (of_task key rows) \<le> n key" using "2.prems"(2) by (simp add: taken_def)
    obtain n' where n': "taken rows n' groups' picked'" "\<forall>t. n t \<le> n' t \<and> n' t \<le> Suc (n t)" "\<forall>t. t \<notin> set ks \<longrightarrow> n' t = n t"
      "int (length picked') < want \<longrightarrow> (\<forall>t\<in>set ks. n' t = min (Suc (n t)) (length (of_task t rows)))"
      "\<not> b' \<longrightarrow> n' = n" "int (length picked') \<le> want" "map fst groups' = map fst groups"
      using "2.IH"(1) [OF Nil, of n] "2.prems" Nil by auto
    have "n' key = min (Suc (n key)) (length (of_task key rows))"
    proof -
      have "n key \<le> length (of_task key rows)" using "2.prems"(2) unfolding taken_def by blast
      moreover have "n' key = n key" using n'(3) "2.prems"(3) by simp
      ultimately show ?thesis using full by simp
    qed
    then show ?thesis using n' by (intro exI [of _ n']) auto
  next
    case (Cons row rest)
    note nx = taken_next [OF "2.prems"(2) Cons]
    show ?thesis
    proof (cases "int (length picked) < want")
      case True
      have keys: "map fst (dict_set key rest groups) = map fst groups"
        using "2.prems"(5) by (simp add: keys_dict_set)
      have run: "pick_round want ks (dict_set key rest groups) (picked @ [row]) True = (groups', picked', b')"
        using "2.prems"(1) Cons True by simp
      have pre: "distinct ks" "int (length (picked @ [row])) \<le> want" "set ks \<subseteq> set (map fst (dict_set key rest groups))"
        using "2.prems"(3,5) True unfolding keys by simp_all
      obtain n' where n': "taken rows n' groups' picked'"
        "\<forall>t. (n(key := Suc (n key))) t \<le> n' t \<and> n' t \<le> Suc ((n(key := Suc (n key))) t)"
        "\<forall>t. t \<notin> set ks \<longrightarrow> n' t = (n(key := Suc (n key))) t"
        "int (length picked') < want \<longrightarrow> (\<forall>t\<in>set ks. n' t = min (Suc ((n(key := Suc (n key))) t)) (length (of_task t rows)))"
        "\<not> b' \<longrightarrow> n' = n(key := Suc (n key))" "int (length picked') \<le> want" "map fst groups' = map fst groups"
        using "2.IH"(2) [OF Cons True run nx(1) pre] unfolding keys by blast
      have b: "b'" using run pick_round_flag by blast
      have key: "n' key = Suc (n key)" using n'(3) "2.prems"(3) by simp
      have "n t \<le> n' t \<and> n' t \<le> Suc (n t)" for t
        using n'(2) [rule_format, of t] key by (cases "t = key") auto
      moreover have "n' t = n t" if "t \<notin> set (key # ks)" for t using n'(3) that by auto
      moreover have "n' t = min (Suc (n t)) (length (of_task t rows))" if "int (length picked') < want" "t \<in> set (key # ks)" for t
        using n'(4) that key nx(2) "2.prems"(3) by (cases "t = key") auto
      ultimately show ?thesis using n'(1,6,7) b by (intro exI [of _ n']) auto
    next
      case False
      obtain n' where n': "taken rows n' groups' picked'" "\<forall>t. n t \<le> n' t \<and> n' t \<le> Suc (n t)" "\<forall>t. t \<notin> set ks \<longrightarrow> n' t = n t"
        "\<not> b' \<longrightarrow> n' = n" "int (length picked') \<le> want" "map fst groups' = map fst groups"
        using "2.IH"(3) [OF Cons False, of n] "2.prems" Cons False by auto
      have "length picked \<le> length picked'" using pick_round_grows "2.prems"(1) by blast
      then show ?thesis using n' False by (intro exI [of _ n']) auto
    qed
  qed
qed auto


lemma pick_loop_taken:
  assumes "taken rows n groups picked" and "\<forall>t. n t = min r (length (of_task t rows))" and "int (length picked) \<le> want"
    and "set (map fst groups) = task_of ` set rows" and "distinct (map fst groups)"
  shows "\<exists>n' r'. (\<forall>t. of_task t (pick_loop want groups picked) = take (n' t) (of_task t rows) \<and>
      min r' (length (of_task t rows)) \<le> n' t \<and> n' t \<le> min (Suc r') (length (of_task t rows))) \<and>
    (int (length (pick_loop want groups picked)) = want \<or>
     int (length (pick_loop want groups picked)) < want \<and> (\<forall>t. of_task t (pick_loop want groups picked) = of_task t rows))"
  using assms
proof (induction want groups picked arbitrary: n r rule: pick_loop.induct)
  case (1 want groups picked)
  show ?case
  proof (cases "int (length picked) < want")
    case False
    then have "pick_loop want groups picked = picked" by (simp add: pick_loop.simps)
    then show ?thesis using False "1.prems"(1-3) by (intro exI [of _ n] exI [of _ r]) (auto simp: taken_def)
  next
    case True
    obtain groups' picked' b where run: "pick_round want (sort (map fst groups)) groups picked False = (groups', picked', b)"
      by (metis prod_cases3)
    obtain n' where n': "taken rows n' groups' picked'" "\<forall>t. n t \<le> n' t \<and> n' t \<le> Suc (n t)"
      "\<forall>t. t \<notin> set (map fst groups) \<longrightarrow> n' t = n t"
      "int (length picked') < want \<longrightarrow> (\<forall>t\<in>set (map fst groups). n' t = min (Suc (n t)) (length (of_task t rows)))"
      "\<not> b \<longrightarrow> n' = n" "int (length picked') \<le> want" "map fst groups' = map fst groups"
      using pick_round_taken [OF run "1.prems"(1)] "1.prems"(3,5) by auto
    have absent: "of_task t rows = []" if "t \<notin> set (map fst groups)" for t
      using that "1.prems"(4) by (auto simp: filter_empty_conv)
    have level: "min r (length (of_task t rows)) \<le> n' t \<and> n' t \<le> min (Suc r) (length (of_task t rows))" for t
      using n'(1) n'(2) [rule_format, of t] "1.prems"(2) by (auto simp: taken_def)
    have whole: "n' t = min (Suc r) (length (of_task t rows))" if "int (length picked') < want" for t
      using n'(3,4) that absent [of t] "1.prems"(2) by (cases "t \<in> set (map fst groups)") auto
    show ?thesis
    proof (cases "b")
      case b: True
      then have eq: "pick_loop want groups picked = pick_loop want groups' picked'"
        using True run by (subst pick_loop.simps) simp
      show ?thesis
      proof (cases "int (length picked') < want")
        case lt: True
        show ?thesis unfolding eq
          using "1.IH" [OF True run [symmetric] refl b n'(1), of "Suc r"] whole lt n'(6,7) "1.prems"(4,5) by simp
      next
        case False
        then have "pick_loop want groups' picked' = picked'" by (simp add: pick_loop.simps)
        then show ?thesis using False n'(1,6) level eq by (intro exI [of _ n'] exI [of _ r]) (auto simp: taken_def)
      qed
    next
      case b: False
      then have eq: "pick_loop want groups picked = picked'" using True run by (subst pick_loop.simps) simp
      have all: "of_task t picked' = of_task t rows" if lt: "int (length picked') < want" for t
      proof -
        have "n' t = min r (length (of_task t rows))" using n'(5) b "1.prems"(2) by simp
        then have "length (of_task t rows) \<le> n' t" using whole [OF lt, of t] by linarith
        then show ?thesis using n'(1) by (simp add: taken_def)
      qed
      then show ?thesis
        using n'(1,6) level eq by (intro exI [of _ n'] exI [of _ r]) (auto simp: taken_def)
    qed
  qed
qed

lemma tasks_submultiset:
  assumes "\<And>t. mset (of_task t xs) \<subseteq># mset (of_task t ys)"
  shows "mset xs \<subseteq># mset ys"
proof (rule mset_subset_eqI)
  fix r
  have "Multiset.count (mset zs) r = Multiset.count (mset (of_task (task_of r) zs)) r" for zs by (simp add: mset_filter)
  then show "Multiset.count (mset xs) r \<le> Multiset.count (mset ys) r" using mset_subset_eq_count [OF assms [of "task_of r"], of r] by simp
qed

text \<open>
  C21. Drawing a subset by task rotation returns as many rows as were asked for, or all of them when
  there are fewer; of every task it takes the first rows in their order, each row once, and the
  numbers taken from two tasks differ by at most one unless the smaller one is exhausted.
\<close>

theorem pick_balanced:
  assumes "0 \<le> want"
  shows "\<exists>picked n. pick sample rows want TaskRoundRobin = Inr picked \<and>
    int (length picked) = min want (int (length rows)) \<and> mset picked \<subseteq># mset rows \<and>
    (\<forall>t. filter (\<lambda>r. task_of r = t) picked = take (n t) (filter (\<lambda>r. task_of r = t) rows)) \<and>
    (\<forall>t u. n t < length (filter (\<lambda>r. task_of r = t) rows) \<longrightarrow> n u \<le> Suc (n t))"
proof -
  let ?p = "pick_loop want (group_rows rows) []"
  have start: "taken rows (\<lambda>_. 0) (group_rows rows) []" by (simp add: taken_def group_rows_lookup)
  have "\<exists>n r. (\<forall>t. of_task t ?p = take (n t) (of_task t rows) \<and>
      min r (length (of_task t rows)) \<le> n t \<and> n t \<le> min (Suc r) (length (of_task t rows))) \<and>
    (int (length ?p) = want \<or> int (length ?p) < want \<and> (\<forall>t. of_task t ?p = of_task t rows))"
    using pick_loop_taken [OF start, of 0 want] assms group_rows_keys [of rows] by simp
  then obtain n r where n: "\<forall>t. of_task t ?p = take (n t) (of_task t rows) \<and>
      min r (length (of_task t rows)) \<le> n t \<and> n t \<le> min (Suc r) (length (of_task t rows))"
    and len: "int (length ?p) = want \<or> int (length ?p) < want \<and> (\<forall>t. of_task t ?p = of_task t rows)"
    by blast
  have sub: "mset ?p \<subseteq># mset rows"
  proof (rule tasks_submultiset)
    fix t
    have "mset (take k xs) \<subseteq># mset xs" for k and xs :: "jdict list"
      by (metis append_take_drop_id mset_append mset_subset_eq_add_left)
    then show "mset (of_task t ?p) \<subseteq># mset (of_task t rows)" using n by metis
  qed
  have "mset rows \<subseteq># mset ?p" if "\<forall>t. of_task t ?p = of_task t rows"
  proof (rule tasks_submultiset)
    fix t
    show "mset (of_task t rows) \<subseteq># mset (of_task t ?p)" unfolding that [rule_format, of t] by (rule subset_mset.order_refl)
  qed
  then have "int (length ?p) = min want (int (length rows))"
    using len size_mset_mono [OF sub] size_mset_mono [of "mset rows" "mset ?p"] by auto
  moreover have "n u \<le> Suc (n t)" if "n t < length (of_task t rows)" for t u
    using n [rule_format, of t] n [rule_format, of u] that by linarith
  ultimately show ?thesis using n sub by (auto simp: pick_def)
qed

definition task_row :: "string \<Rightarrow> string \<Rightarrow> jdict" where
  "task_row i t = [(''id'', JStr i), (''task'', JStr t)]"

theorem pick_balanced_witness:
  "\<exists>picked n. pick (\<lambda>rows want. Inr []) [task_row ''1'' ''a'', task_row ''2'' ''a'', task_row ''3'' ''a'', task_row ''4'' ''b''] 3 TaskRoundRobin = Inr picked \<and>
     length picked = 3 \<and> (\<forall>t. filter (\<lambda>r. task_of r = t) picked =
       take (n t) (filter (\<lambda>r. task_of r = t) [task_row ''1'' ''a'', task_row ''2'' ''a'', task_row ''3'' ''a'', task_row ''4'' ''b'']))"
proof -
  let ?rows = "[task_row ''1'' ''a'', task_row ''2'' ''a'', task_row ''3'' ''a'', task_row ''4'' ''b'']"
  have "(0 :: int) \<le> 3" by simp
  from pick_balanced [OF this, of "\<lambda>rows want. Inr []" ?rows]
  obtain picked n where "pick (\<lambda>rows want. Inr []) ?rows 3 TaskRoundRobin = Inr picked" "int (length picked) = min 3 (int (length ?rows))"
    "\<forall>t. filter (\<lambda>r. task_of r = t) picked = take (n t) (filter (\<lambda>r. task_of r = t) ?rows)" by blast
  then show ?thesis by (intro exI [of _ picked] exI [of _ n]) simp
qed


subsection \<open>A converted benchmark is accepted as a data set\<close>

lemma pad_digits_value: "foldl (\<lambda>a ch. 10 * a + (of_char ch - 48)) 0 (pad_digits w n) = n"
proof -
  have "foldl (\<lambda>a ch. 10 * a + (of_char ch - 48)) 0 (replicate k CHR ''0'') = (0 :: nat)" for k by (induction k) auto
  then show ?thesis by (simp add: pad_digits_def foldl_show_nat)
qed

lemma pad_digits_inj: "pad_digits w m = pad_digits w n \<Longrightarrow> m = n"
  using pad_digits_value by metis

lemma digit_sample_char: "is_digit ch \<Longrightarrow> sample_char ch"
  by (auto simp: is_digit_def sample_char_def Let_def)

lemma pad_digits_chars: "list_all sample_char (pad_digits w n)"
proof -
  have "list_all sample_char (show_nat n)" using show_nat_digits [of n] by (auto simp: list_all_iff digit_sample_char)
  moreover have "sample_char CHR ''0''" by (simp add: sample_char_def)
  ultimately show ?thesis by (auto simp: pad_digits_def list_all_iff)
qed

lemma length_show_nat: "n < 10 ^ Suc k \<Longrightarrow> length (show_nat n) \<le> Suc k"
proof (induction k arbitrary: n)
  case 0
  then show ?case by (subst show_nat.simps) simp
next
  case (Suc k)
  have "n div 10 < 10 ^ Suc k" using Suc.prems by (simp add: less_mult_imp_div_less)
  then show ?case using Suc.IH [of "n div 10"] by (subst show_nat.simps) simp
qed

definition numbered :: "string \<Rightarrow> nat \<Rightarrow> string" where
  "numbered name i = name @ ''_'' @ pad_digits 4 i"

lemma numbered_id:
  assumes "list_all sample_char name" and "length name \<le> 59" and "i < 10000"
  shows "sanitize_id (numbered name i) = numbered name i"
proof (rule sanitize_id_fixed)
  have "length (show_nat i) \<le> 4" using length_show_nat [of i 3] assms(3) by simp
  then show "length (numbered name i) \<le> 64" using assms(2) by (simp add: numbered_def pad_digits_def)
qed (use assms(1) pad_digits_chars in \<open>auto simp: numbered_def sample_char_def\<close>)

text \<open>What \<open>load_dataset\<close> asks of one row, without the comparison with the other rows.\<close>

definition example_ok :: "jdict \<Rightarrow> bool" where
  "example_ok row \<longleftrightarrow>
     strip (str_or_empty (row_get row ''id'')) \<noteq> [] \<and> strip (str_or_empty (row_get row ''prompt'')) \<noteq> [] \<and>
     (case map_of row ''max_tokens'' of None \<Rightarrow> True | Some v \<Rightarrow> (case py_int v of Inl e \<Rightarrow> False | Inr n \<Rightarrow> 1 \<le> n))"

lemma load_rows_all:
  assumes "\<forall>row\<in>set rows. example_ok row" and "distinct (map dump_subdir (acc @ rows))"
  shows "load_rows None (map (Inr \<circ> JObj) rows) acc (dump_subdir ` set acc) = Inr (acc @ rows)"
  using assms
proof (induction rows arbitrary: acc)
  case (Cons row rows)
  have "dump_subdir row \<notin> dump_subdir ` set acc" using Cons.prems(2) by auto
  then have "check_example (dump_subdir ` set acc) row = Inr (dump_subdir row)"
    using Cons.prems(1) by (auto simp: check_example_def example_ok_def dump_subdir_def Let_def split: option.splits sum.splits)
  moreover have "load_rows None (map (Inr \<circ> JObj) rows) (acc @ [row]) (dump_subdir ` set (acc @ [row])) = Inr ((acc @ [row]) @ rows)"
    using Cons.prems by (intro Cons.IH) auto
  ultimately show ?case by (simp add: Let_def comp_def)
qed simp

text \<open>
  The rows a converter loop writes: \<open>good i\<close> holds of the row with index \<open>i\<close>, and is not affected by
  the two statistics keys.
\<close>

lemma convert_rows_numbered:
  assumes "for_each (\<lambda>r s. case r of Inl e \<Rightarrow> (Inl e, s) | Inr row \<Rightarrow> convert_row tokenize max_prompt row s)
      (map (\<lambda>(i, v). gen i v) (enumerate k data)) s = (Inr (), s')"
    and "\<And>i v row. i < k + length data \<Longrightarrow> gen i v = Inr row \<Longrightarrow> good i row"
    and "\<And>i row c. good i row \<Longrightarrow> good i (dict_set ''prompt_chars'' (JInt c) row)"
    and "\<And>i row c. good i row \<Longrightarrow> good i (dict_set ''approx_tokens'' (JInt c) row)"
  shows "\<exists>is new. cv_out s' = cv_out s @ new \<and> list_all2 good is new \<and> sorted_wrt (<) is \<and> set is \<subseteq> {k..<k + length data} \<and>
    cv_written s' = cv_written s + int (length data) \<and> cv_kept s' = cv_kept s + int (length new) \<and>
    cv_written s' - cv_kept s' - cv_filtered s' - cv_unscoreable s' = cv_written s - cv_kept s - cv_filtered s - cv_unscoreable s"
  using assms(1,2)
proof (induction data arbitrary: k s)
  case Nil
  then show ?case by (intro exI [of _ "[]"]) simp
next
  case (Cons v data)
  from Cons.prems(1) obtain row where row: "gen k v = Inr row" by (cases "gen k v") (auto simp: rbind_def split: sum.splits)
  from Cons.prems(1) row obtain s1 where one: "convert_row tokenize max_prompt row s = (Inr (), s1)"
    and rest: "for_each (\<lambda>r s. case r of Inl e \<Rightarrow> (Inl e, s) | Inr row \<Rightarrow> convert_row tokenize max_prompt row s)
      (map (\<lambda>(i, v). gen i v) (enumerate (Suc k) data)) s1 = (Inr (), s')"
    by (auto simp: rbind_Inr_iff)
  have good: "good k row" using Cons.prems(2) row by simp
  obtain news where news: "cv_out s1 = cv_out s @ news" "news = [] \<or> (\<exists>r. news = [r] \<and> good k r)"
    "cv_written s1 = cv_written s + 1" "cv_kept s1 = cv_kept s + int (length news)"
    "cv_kept s1 + cv_filtered s1 + cv_unscoreable s1 = cv_kept s + cv_filtered s + cv_unscoreable s + 1"
    using one assms(3) [OF good] assms(4) [OF assms(3) [OF good]]
    by (auto simp: convert_row_def Let_def split: if_splits option.splits sum.splits)
  have later: "good i row" if "i < Suc k + length data" "gen i v = Inr row" for i v row using Cons.prems(2) [of i v row] that by simp
  obtain "is" new where more: "cv_out s' = cv_out s1 @ new" "list_all2 good is new" "sorted_wrt (<) is"
    "set is \<subseteq> {Suc k..<Suc k + length data}" "cv_written s' = cv_written s1 + int (length data)" "cv_kept s' = cv_kept s1 + int (length new)"
    "cv_written s' - cv_kept s' - cv_filtered s' - cv_unscoreable s' = cv_written s1 - cv_kept s1 - cv_filtered s1 - cv_unscoreable s1"
    using Cons.IH [OF rest] later by blast
  let ?is = "(if news = [] then [] else [k]) @ is"
  have "list_all2 good ?is (news @ new)" using news(2) more(2) by auto
  moreover have "sorted_wrt (<) ?is" using more(3,4) by (force simp: sorted_wrt_append)
  moreover have "set ?is \<subseteq> {k..<k + length (v # data)}" using more(4) by auto
  ultimately show ?case
    using news more by (intro exI [of _ ?is] exI [of _ "news @ new"]) auto
qed

definition longbench_ok :: "nat \<Rightarrow> jdict \<Rightarrow> bool" where
  "longbench_ok i row \<longleftrightarrow>
     map_of row ''id'' = Some (JStr (sanitize_id (numbered ''lbv2'' i))) \<and>
     (\<exists>p. map_of row ''prompt'' = Some (JStr p) \<and> CHR ''Q'' \<in> set p) \<and> map_of row ''max_tokens'' = Some (JInt 64) \<and>
     (\<exists>a b. map_of row ''reference'' = Some (JArr [a, b]))"

lemma longbench_row_ok: "longbench_row i v = Inr row \<Longrightarrow> longbench_ok i row"
proof -
  assume a: "longbench_row i v = Inr row"
  then obtain d where "v = JObj d" by (cases v) (simp_all add: longbench_row_def)
  with a show ?thesis
    by (auto simp: longbench_row_def longbench_ok_def numbered_def Let_def split: if_splits sum.splits)
qed

lemma strip_nonblank:
  assumes "ch \<in> set s" and "\<not> is_space ch"
  shows "strip s \<noteq> []"
proof
  assume "strip s = []"
  then have "\<forall>c\<in>set (dropWhile is_space s). is_space c" by (auto simp: strip_def dropWhile_eq_Nil_conv)
  moreover have "takeWhile is_space s @ dropWhile is_space s = s" by simp
  then have "set (takeWhile is_space s) \<union> set (dropWhile is_space s) = set s" by (metis set_append)
  ultimately show False using assms set_takeWhileD by fastforce
qed

text \<open>
  C23. The conversion of a benchmark file with four-option questions yields a data set the other tools
  accept: when it succeeds on at most ten thousand entries, every input row is counted as kept,
  filtered or unscoreable, and the rows written load without an error and in full.
\<close>

theorem longbench_converts_to_dataset:
  assumes "datasets_main tokenize max_prompt use_endpoint False (rows_longbench_v2 data) = (Inr (), s)" and "length data \<le> 10000"
  shows "load_dataset (map (Inr \<circ> JObj) (cv_out s)) None = Inr (cv_out s) \<and> cv_kept s = int (length (cv_out s)) \<and>
    cv_written s = int (length data) \<and> cv_written s = cv_kept s + cv_filtered s + cv_unscoreable s"
proof -
  let ?s0 = "\<lparr>cv_endpoint = use_endpoint, cv_written = 0, cv_kept = 0, cv_filtered = 0, cv_unscoreable = 0, cv_longest = 0, cv_out = []\<rparr>"
  from assms(1) have loop: "for_each (\<lambda>r s. case r of Inl e \<Rightarrow> (Inl e, s) | Inr row \<Rightarrow> convert_row tokenize max_prompt row s)
      (map (\<lambda>(i, v). longbench_row i v) (enumerate 0 data)) ?s0 = (Inr (), s)" and kept: "cv_kept s \<noteq> 0"
    by (auto simp: datasets_main_def rows_longbench_v2_def rbind_Inr_iff Let_def split: if_splits)
  obtain "is" new where r: "cv_out s = new" "list_all2 longbench_ok is new" "sorted_wrt (<) is" "set is \<subseteq> {0..<length data}"
    "cv_written s = int (length data)" "cv_kept s = int (length new)" "cv_written s = cv_kept s + cv_filtered s + cv_unscoreable s"
    using convert_rows_numbered [OF loop, of longbench_ok] longbench_row_ok
    by (auto simp: longbench_ok_def map_of_dict_set)
  have sub: "dump_subdir row = numbered ''lbv2'' i" "example_ok row" if "longbench_ok i row" "i < length data" for i row
  proof -
    have chars: "list_all sample_char ''lbv2''" by code_simp
    have id: "sanitize_id (numbered ''lbv2'' i) = numbered ''lbv2'' i"
      using that(2) assms(2) chars by (intro numbered_id) auto
    then show "dump_subdir row = numbered ''lbv2'' i"
      using that(1) by (simp add: dump_subdir_def longbench_ok_def row_get_def dict_get_def py_str_def)
    have "CHR ''_'' \<in> set (numbered ''lbv2'' i)" by (simp add: numbered_def)
    then have "strip (numbered ''lbv2'' i) \<noteq> []" by (rule strip_nonblank) (simp add: is_space_def)
    moreover have "strip p \<noteq> []" if "CHR ''Q'' \<in> set p" for p
      by (rule strip_nonblank [OF that]) (simp add: is_space_def)
    ultimately show "example_ok row"
      using that(1) id by (fastforce simp: example_ok_def longbench_ok_def row_get_def dict_get_def py_str_def str_or_empty_def)
  qed
  have map: "map dump_subdir new = map (numbered ''lbv2'') is"
  proof (rule nth_equalityI)
    fix j assume "j < length (map dump_subdir new)"
    then have "longbench_ok (is ! j) (new ! j)" "is ! j < length data" "j < length is" "j < length new"
      using r(2,4) nth_mem [of j "is"] by (auto simp: list_all2_conv_all_nth dest!: subsetD)
    then show "map dump_subdir new ! j = map (numbered ''lbv2'') is ! j" using sub(1) by simp
  qed (use r(2) in \<open>simp add: list_all2_lengthD\<close>)
  have "distinct is" using r(3) strict_sorted_iff by auto
  then have dist: "distinct (map dump_subdir new)"
    unfolding map by (auto simp: distinct_map inj_on_def numbered_def dest: pad_digits_inj)
  have "\<forall>row\<in>set new. example_ok row"
    using r(2,4) sub(2) by (auto simp: list_all2_conv_all_nth in_set_conv_nth) (metis atLeastLessThan_iff nth_mem subsetD)
  then have "load_rows None (map (Inr \<circ> JObj) new) [] {} = Inr new" using load_rows_all [of new "[]"] dist by simp
  then show ?thesis using r kept by (auto simp: load_dataset_def)
qed


definition demo_question :: jval where
  "demo_question = JObj [(''context'', JStr ''c''), (''question'', JStr ''q''), (''choice_A'', JStr ''x''), (''choice_B'', JStr ''y''),
     (''choice_C'', JStr ''z''), (''choice_D'', JStr ''w''), (''answer'', JStr ''B'')]"

theorem longbench_converts_to_dataset_witness:
  "\<exists>s. datasets_main (\<lambda>_. Inl TypeError) 190000 True False (rows_longbench_v2 [demo_question, demo_question]) = (Inr (), s) \<and>
     load_dataset (map (Inr \<circ> JObj) (cv_out s)) None = Inr (cv_out s) \<and> length (cv_out s) = 2"
proof -
  let ?r = "datasets_main (\<lambda>_. Inl TypeError) 190000 True False (rows_longbench_v2 [demo_question, demo_question])"
  have "fst ?r = Inr () \<and> length (cv_out (snd ?r)) = 2" by code_simp
  then have r: "?r = (Inr (), snd ?r)" "length (cv_out (snd ?r)) = 2" by (simp_all add: prod_eq_iff)
  then show ?thesis
    using longbench_converts_to_dataset [of "\<lambda>_. Inl TypeError" 190000 True "[demo_question, demo_question]" "snd ?r"] by auto
qed

text \<open>
  The numbered identifiers of the long-context converter are cut at 64 characters: when the stem of
  the file name fills them, all rows of the file get the same identifier and the data set is rejected.
\<close>

lemma long_stem_ids_collide:
  assumes "infinitebench_row (sanitize_id stem) i v = Inr row" and "length (sanitize_id stem) = 64"
  shows "dump_subdir row = sanitize_id stem"
proof -
  let ?t = "sanitize_id stem"
  have "list_all sample_char (?t @ ''_'' @ pad_digits 4 i)"
    using sanitize_id_shape(1) [of stem] pad_digits_chars [of 4 i] by (simp add: sample_char_def)
  then have "sample_sub False (strip (?t @ ''_'' @ pad_digits 4 i)) = ?t @ ''_'' @ pad_digits 4 i"
    by (simp only: strip_sample sample_sub_id)
  then have "sanitize_id (?t @ ''_'' @ pad_digits 4 i) = ?t"
    unfolding sanitize_id_def [of "?t @ ''_'' @ pad_digits 4 i"] using assms(2) sanitize_id_shape(2) [of stem] by simp
  moreover have "map_of row ''id'' = Some (JStr (sanitize_id (?t @ ''_'' @ pad_digits 4 i)))"
    using assms(1) by (auto simp: infinitebench_row_def Let_def split: jval.splits sum.splits)
  ultimately show ?thesis
    using sanitize_id_fixed [OF sanitize_id_shape] by (simp add: dump_subdir_def row_get_def dict_get_def py_str_def)
qed

text \<open>
  A question without an answer is kept, with a list of two references: it is not counted as
  unscoreable, and every output is judged wrong.
\<close>

lemma missing_answer_scored_wrong:
  assumes "longbench_row i (JObj row) = Inr out" and "\<not> truthy (row_get row ''answer'')"
  shows "match_answer output (row_get out ''reference'') (mode_of out) = Inr (Some False)"
proof -
  have "strip [] = []" by (simp add: strip_def)
  then have ref: "row_get out ''reference'' = JArr [JStr [], JStr ''()'']" and m: "mode_of out = Option"
    using assms by (auto simp: longbench_row_def Let_def str_or_empty_def upper_def row_get_def dict_get_def mode_of_def split: if_splits sum.splits)
  have "strip ''()'' = ''()''" "upper (strip_chars ''()[]'' ''()'') = []" by code_simp+
  moreover have "extract_option x \<noteq> Some []" for x
    by (auto simp: extract_option_def upper_def Let_def split: option.splits)
  ultimately show ?thesis
    unfolding ref m by (simp add: match_answer_def references_def py_str_def Let_def \<open>strip [] = []\<close>)
qed


subsection \<open>Passkey prompts\<close>

definition rng_ok :: "'r rng \<Rightarrow> bool" where
  "rng_ok randrange \<longleftrightarrow> (\<forall>r a b. a < b \<longrightarrow> a \<le> fst (randrange r a b) \<and> fst (randrange r a b) < b)"

lemma fill_loop_returns:
  assumes "rng_ok randrange" and "\<forall>s\<in>set FILLER. 1 \<le> cost (s @ '' '')"
  shows "\<exists>ss spent' r'. fill_loop randrange cost quota sentences spent r = Some (Inr (ss, spent'), r')"
proof (induction "nat (quota - spent)" arbitrary: sentences spent r rule: less_induct)
  case less
  show ?case
  proof (cases "spent < quota")
    case True
    obtain i r' where i: "randrange r 0 (int (length FILLER)) = (i, r')" by fastforce
    have "0 < int (length FILLER)" by (simp add: FILLER_def)
    then have range: "0 \<le> i" "i < int (length FILLER)" using assms(1) i unfolding rng_ok_def by (metis fst_conv)+
    let ?s = "FILLER ! nat i"
    have nth: "py_nth FILLER i = Inr ?s" using range by (rule py_nth_nonneg)
    have "1 \<le> cost (?s @ '' '')" using assms(2) range by (meson nat_less_iff nth_mem)
    then have "nat (quota - (spent + cost (?s @ '' ''))) < nat (quota - spent)" using True by linarith
    from less [OF this] show ?thesis using True i nth by (subst fill_loop.simps) simp
  next
    case False
    then show ?thesis by (subst fill_loop.simps) simp
  qed
qed

lemma draw_keys_length: "draw_keys randrange digits n r = (ks, r') \<Longrightarrow> length ks = n"
  by (induction randrange digits n r arbitrary: ks r' rule: draw_keys.induct) (auto split: prod.splits)

lemma py_inI:
  assumes "text = u @ needle @ v"
  shows "py_in needle text"
proof -
  have "occurs_at needle text (length u)" using assms by (simp add: occurs_at_def)
  then have "\<exists>i\<in>set [0..<Suc (length text)]. occurs_at needle text i" using assms by (intro bexI [of _ "length u"]) auto
  then show ?thesis by (auto simp: py_in_def py_find_def find_None_iff)
qed

lemma join_member: "x \<in> set xs \<Longrightarrow> \<exists>u v. join sep xs = u @ x @ v"
proof (induction sep xs rule: join.induct)
  case (3 sep y z zs)
  show ?case
  proof (cases "x = y")
    case True
    then show ?thesis by (intro exI [of _ "[]"] exI [of _ "sep @ join sep (z # zs)"]) simp
  next
    case False
    then obtain u v where "join sep (z # zs) = u @ x @ v" using 3 by auto
    then show ?thesis by (intro exI [of _ "y @ sep @ u"] exI [of _ v]) simp
  qed
next
  case (2 sep y)
  then show ?case by (intro exI [of _ "[]"]) simp
qed simp

lemma insert_needles_set: "strip ` set needles \<subseteq> set (insert_needles depth needles sentences)"
proof -
  have ins: "set (py_insert i x xs) = insert x (set xs)" for i and x :: string and xs
  proof -
    have "set (take k xs) \<union> set (drop k xs) = set xs" for k by (metis append_take_drop_id set_append)
    then show ?thesis by (auto simp: py_insert_def Let_def)
  qed
  have keep: "set ss \<subseteq> set (foldl (\<lambda>ss needle. py_insert (min p (int (length ss))) (strip needle) ss) ss ns)" for p ss ns
  proof (induction ns arbitrary: ss)
    case (Cons n ns)
    show ?case using Cons [of "py_insert (min p (int (length ss))) (strip n) ss"] by (auto simp: ins)
  qed simp
  have "strip ` set ns \<subseteq> set (foldl (\<lambda>ss needle. py_insert (min p (int (length ss))) (strip needle) ss) ss ns)" for p ss ns
  proof (induction ns arbitrary: ss)
    case (Cons n ns)
    have "strip n \<in> set (py_insert (min p (int (length ss))) (strip n) ss)" by (simp add: ins)
    then show ?case using Cons subsetD [OF keep [of "py_insert (min p (int (length ss))) (strip n) ss" p ns]] by auto
  qed simp
  then show ?thesis by (simp add: insert_needles_def Let_def)
qed

lemma strip_needle: "strip (needle_text key) = ''One of the special magic numbers for passkey retrieval is: '' @ key @ ''. Remember it.''"
proof -
  have "needle_text key = CHR '' '' # ''One of the special magic numbers for passkey retrieval is: '' @ key @ ''. Remember it.'' @ [CHR '' '']"
    by (simp add: needle_text_def)
  then show ?thesis by (simp add: strip_def is_space_def)
qed

text \<open>
  C22. Generating a passkey prompt ends: when every filler sentence costs at least one token, the
  filler loop and the trimming loop return for every random generator that keeps to its ranges, and
  the prompt literally contains every key, which the reconciliation later searches for.
\<close>

theorem passkey_prompt_returns:
  assumes "rng_ok randrange" and "\<forall>s\<in>set FILLER. 1 \<le> cost (s @ '' '')" and "1 \<le> digits"
  shows "\<exists>prompt keys r'. build_prompt randrange cost target depth digits needles r = Some (Inr (prompt, keys), r') \<and>
    length keys = needles \<and> (\<forall>k\<in>set keys. py_in k prompt)"
proof -
  obtain keys r1 where keys: "draw_keys randrange digits needles r = (keys, r1)" by fastforce
  define texts where "texts = map needle_text keys"
  define quota where "quota = target - cost passkey_head - cost passkey_tail - sum_list (map cost texts)"
  obtain ss spent r2 where fill: "fill_loop randrange cost quota [] 0 r1 = Some (Inr (ss, spent), r2)"
    using fill_loop_returns [OF assms(1,2)] by blast
  define body where "body = insert_needles depth texts (fst (trim_loop cost target quota ss spent))"
  have "py_in k (passkey_head @ join '' '' body @ '' '' @ passkey_tail)" if "k \<in> set keys" for k
  proof -
    have "strip (needle_text k) \<in> set body"
      using insert_needles_set [of texts depth "fst (trim_loop cost target quota ss spent)"] that by (auto simp: texts_def body_def)
    from join_member [OF this] obtain u v where
      "join '' '' body = u @ (''One of the special magic numbers for passkey retrieval is: '' @ k @ ''. Remember it.'') @ v"
      unfolding strip_needle by blast
    then show ?thesis
      by (intro py_inI [of _ "passkey_head @ u @ ''One of the special magic numbers for passkey retrieval is: ''" _ "''. Remember it.'' @ v @ '' '' @ passkey_tail"]) simp
  qed
  moreover have "build_prompt randrange cost target depth digits needles r =
      Some (Inr (passkey_head @ join '' '' body @ '' '' @ passkey_tail, keys), r2)"
    using assms(3) fill unfolding build_prompt_def keys body_def quota_def texts_def Let_def by simp
  ultimately show ?thesis using draw_keys_length [OF keys] by blast
qed

theorem passkey_prompt_returns_witness:
  "\<exists>prompt keys r'. build_prompt (\<lambda>r a b. (a, r)) (chars_counter 4) 1000 (1 / 2) 5 2 () = Some (Inr (prompt, keys), r') \<and>
     length keys = 2 \<and> (\<forall>k\<in>set keys. py_in k prompt)"
  by (rule passkey_prompt_returns) (simp_all add: rng_ok_def chars_counter_def)

end
