(* ===== verification/QualityRun.thy ===== *)
theory QualityRun
  imports QualityData
begin

section \<open>Collecting and analysing a quality run\<close>

text \<open>
  Model of \<open>scripts/quality/run_quality_collection.py\<close>, \<open>reconcile_swaps.py\<close> and
  \<open>analyze_quality.py\<close>: the serial pass with its marker file, retries, result log and resumption, the
  search for gold tokens and their comparison with the dump records, and the comparison of two runs.
  The HTTP requests and the tokenizer are parameters; the requests act on an environment. Times,
  error texts and console output are not modelled. Log-probabilities and shares are exact rationals;
  the rounding of the report is not modelled.
\<close>

subsection \<open>run\_quality\_collection.py\<close>

datatype 'a reply = Reply 'a | Failed | Interrupted

record answer =
  an_output :: string
  an_tokens :: "string list"
  an_token_logprobs :: "rat option list"
  an_prompt_tokens :: "int option"

record result_row =
  qr_id :: jval
  qr_task :: string
  qr_max_tokens :: int
  qr_dump_subdir :: string
  qr_prompt_tokens :: "int option"
  qr_ok :: bool
  qr_filtered :: bool
  qr_answer :: "answer option"
  qr_attempts :: nat

record manifest_row =
  mf_status :: string
  mf_label :: string
  mf_dataset :: string
  mf_completed :: int
  mf_failed :: int
  mf_filtered :: int
  mf_skipped :: int

record collection_args =
  rq_label :: string
  rq_dataset :: string
  rq_limit :: "int option"
  rq_max_tokens :: int
  rq_max_prompt_tokens :: int
  rq_dump_root :: bool
  rq_dump_root_is_dir :: bool
  rq_append_ok :: bool

text \<open>
  The requests to the server. The server reads the marker file while it works on a completion, so its
  content is an argument; both requests act on the environment.
\<close>

record 'e server =
  sv_tokenize :: "string \<Rightarrow> 'e \<Rightarrow> int option reply \<times> 'e"
  sv_complete :: "string option \<Rightarrow> string \<Rightarrow> int \<Rightarrow> 'e \<Rightarrow> answer reply \<times> 'e"

record 'e run_state =
  rn_results :: "result_row list"
  rn_manifest :: "manifest_row option"
  rn_marker :: "string option"
  rn_endpoint :: bool
  rn_env :: 'e

text \<open>\<open>re.sub(r"/v1/?$", "", endpoint)\<close>; the dollar also matches before a final newline, which a URL does not have.\<close>

definition base_url :: "string \<Rightarrow> string" where
  "base_url endpoint =
     (if ends_with endpoint ''/v1/'' then take (length endpoint - 4) endpoint
      else if ends_with endpoint ''/v1'' then take (length endpoint - 3) endpoint else endpoint)"

definition new_row :: "collection_args \<Rightarrow> jdict \<Rightarrow> result_row result" where
  "new_row a example =
     (case py_int (jor (row_get example ''max_tokens'') (JInt (rq_max_tokens a))) of Inl e \<Rightarrow> Inl e | Inr n \<Rightarrow>
      Inr \<lparr>qr_id = row_get example ''id'', qr_task = task_of example, qr_max_tokens = n, qr_dump_subdir = dump_subdir example,
           qr_prompt_tokens = None, qr_ok = False, qr_filtered = False, qr_answer = None, qr_attempts = 0\<rparr>)"

text \<open>Up to two attempts; \<open>None\<close> when the request is interrupted from the keyboard.\<close>

definition attempt_completion :: "'e server \<Rightarrow> string option \<Rightarrow> string \<Rightarrow> result_row \<Rightarrow> 'e \<Rightarrow> result_row option \<times> 'e" where
  "attempt_completion sv marker prompt row env =
     (case sv_complete sv marker prompt (qr_max_tokens row) env of
        (Reply ans, env1) \<Rightarrow> (Some (row\<lparr>qr_answer := Some ans, qr_prompt_tokens := an_prompt_tokens ans, qr_ok := True, qr_attempts := 1\<rparr>), env1)
      | (Interrupted, env1) \<Rightarrow> (None, env1)
      | (Failed, env1) \<Rightarrow>
          (case sv_complete sv marker prompt (qr_max_tokens row) env1 of
             (Reply ans, env2) \<Rightarrow> (Some (row\<lparr>qr_answer := Some ans, qr_prompt_tokens := an_prompt_tokens ans, qr_ok := True, qr_attempts := 2\<rparr>), env2)
           | (Interrupted, env2) \<Rightarrow> (None, env2)
           | (Failed, env2) \<Rightarrow> (Some (row\<lparr>qr_ok := False, qr_attempts := 2\<rparr>), env2)))"

text \<open>
  The result row of one example, \<open>Inr None\<close> when interrupted. A prompt that is not a text has no
  tokens to send; the model takes its printed form.
\<close>

definition one_example :: "'e server \<Rightarrow> collection_args \<Rightarrow> jdict \<Rightarrow> 'e run_state \<Rightarrow> result_row option result \<times> 'e run_state" where
  "one_example sv a example s =
     (case new_row a example of Inl e \<Rightarrow> (Inl e, s) | Inr row \<Rightarrow>
      let prompt = py_str (row_get example ''prompt'') in
      let finish = (\<lambda>row s. case attempt_completion sv (rn_marker s) prompt row (rn_env s) of
            (r, env) \<Rightarrow> (Inr r, s\<lparr>rn_env := env\<rparr>)) in
      if rn_endpoint s
      then (case sv_tokenize sv prompt (rn_env s) of
              (Interrupted, env) \<Rightarrow> (Inr None, s\<lparr>rn_env := env\<rparr>)
            | (Failed, env) \<Rightarrow> finish row (s\<lparr>rn_env := env, rn_endpoint := False\<rparr>)
            | (Reply None, env) \<Rightarrow> finish row (s\<lparr>rn_env := env\<rparr>)
            | (Reply (Some n), env) \<Rightarrow>
                let row1 = row\<lparr>qr_prompt_tokens := Some n\<rparr> in
                if rq_max_prompt_tokens a < n + qr_max_tokens row
                then (Inr (Some (row1\<lparr>qr_filtered := True\<rparr>)), s\<lparr>rn_env := env\<rparr>)
                else finish row1 (s\<lparr>rn_env := env\<rparr>))
      else finish row s)"

definition count_row :: "result_row \<Rightarrow> manifest_row \<Rightarrow> manifest_row" where
  "count_row row m =
     (if qr_filtered row then m\<lparr>mf_filtered := mf_filtered m + 1\<rparr>
      else if qr_ok row then m\<lparr>mf_completed := mf_completed m + 1\<rparr> else m\<lparr>mf_failed := mf_failed m + 1\<rparr>)"

text \<open>The loop over the data set: \<open>Inr True\<close> when it was interrupted.\<close>

fun run_loop :: "'e server \<Rightarrow> collection_args \<Rightarrow> jval set \<Rightarrow> manifest_row \<Rightarrow> jdict list \<Rightarrow> 'e run_state \<Rightarrow> (manifest_row \<times> bool) result \<times> 'e run_state" where
  "run_loop sv a done m [] s = (Inr (m, False), s)"
| "run_loop sv a done m (example # exs) s =
     (if row_get example ''id'' \<in> done then run_loop sv a done m exs s
      else let s1 = (if rq_dump_root a then s\<lparr>rn_marker := Some (dump_subdir example @ [CHR 0x0A])\<rparr> else s) in
        case one_example sv a example s1 of
          (Inl e, s2) \<Rightarrow> (Inl e, s2)
        | (Inr None, s2) \<Rightarrow> (Inr (m, True), s2)
        | (Inr (Some row), s2) \<Rightarrow>
            let m' = count_row row m in
            run_loop sv a done m' exs (s2\<lparr>rn_results := rn_results s2 @ [row], rn_manifest := Some m'\<rparr>))"

text \<open>
  The whole script: its exit code. The marker is removed in every case; an exception leaves the
  manifest as the last row left it.
\<close>

definition run_main :: "'e server \<Rightarrow> collection_args \<Rightarrow> jval result list \<Rightarrow> 'e run_state \<Rightarrow> int result \<times> 'e run_state" where
  "run_main sv a ls s =
     (case load_dataset ls (rq_limit a) of Inl e \<Rightarrow> (Inl e, s) | Inr examples \<Rightarrow>
      let done = qr_id ` set (filter qr_ok (rn_results s));
          same = (case rn_manifest s of None \<Rightarrow> False | Some m \<Rightarrow> mf_label m = rq_label a \<and> mf_dataset m = rq_dataset a) in
      if done \<noteq> {} \<and> \<not> same \<and> \<not> rq_append_ok a then (Inl SystemExit, s)
      else if rq_dump_root a \<and> \<not> rq_dump_root_is_dir a then (Inl SystemExit, s)
      else let m = \<lparr>mf_status = ''running'', mf_label = rq_label a, mf_dataset = rq_dataset a, mf_completed = 0, mf_failed = 0,
                    mf_filtered = 0, mf_skipped = int (card done)\<rparr> in
        case run_loop sv a done m examples (s\<lparr>rn_manifest := Some m\<rparr>) of
          (Inl e, s1) \<Rightarrow> (Inl e, if rq_dump_root a then s1\<lparr>rn_marker := None\<rparr> else s1)
        | (Inr (m1, interrupted), s1) \<Rightarrow>
            let s2 = s1\<lparr>rn_manifest := Some (m1\<lparr>mf_status := if interrupted then ''interrupted'' else ''complete''\<rparr>)\<rparr> in
            (Inr (if interrupted then 130 else 0), if rq_dump_root a then s2\<lparr>rn_marker := None\<rparr> else s2))"

subsection \<open>reconcile\_swaps.py\<close>

type_synonym encoding = "(int \<times> int \<times> int) list"

text \<open>\<open>zip(ids, offsets)\<close> restricted to the tokens whose character span meets the occurrence at \<open>pos\<close>.\<close>

definition tokens_at :: "encoding \<Rightarrow> nat \<Rightarrow> nat \<Rightarrow> int set" where
  "tokens_at enc pos len =
     set (map fst (filter (\<lambda>(token, a, b). int pos < b \<and> a < int (pos + len)) enc))"

lemma py_find_Some:
  assumes "py_find text needle start = Some p"
  shows "start \<le> p \<and> p \<le> length text \<and> occurs_at needle text p" and "\<forall>q. start \<le> q \<and> q < p \<longrightarrow> \<not> occurs_at needle text q"
proof -
  obtain i where i: "i < length [start..<Suc (length text)]" "occurs_at needle text p" "p = [start..<Suc (length text)] ! i"
    and before: "\<forall>j<i. \<not> occurs_at needle text ([start..<Suc (length text)] ! j)"
    using assms unfolding py_find_def find_Some_iff by blast
  have p: "p = start + i" "i < Suc (length text) - start" using i(1,3) by (simp_all add: nth_upt del: upt_Suc)
  then show "start \<le> p \<and> p \<le> length text \<and> occurs_at needle text p" using i(2) by simp
  show "\<forall>q. start \<le> q \<and> q < p \<longrightarrow> \<not> occurs_at needle text q"
  proof (intro allI impI)
    fix q assume q: "start \<le> q \<and> q < p"
    then have "q - start < i" "start + (q - start) < Suc (length text)" using p by linarith+
    then have "[start..<Suc (length text)] ! (q - start) = q" "q - start < i"
      using q nth_upt [of start "q - start" "Suc (length text)"] by (simp_all del: upt_Suc)
    then show "\<not> occurs_at needle text q" using before by metis
  qed
qed

lemma py_find_None: "py_find text needle start = None \<longleftrightarrow> (\<forall>q. start \<le> q \<longrightarrow> \<not> occurs_at needle text q)"
proof -
  have "q < Suc (length text)" if "occurs_at needle text q" for q using that by (simp add: occurs_at_def)
  then have eq: "(\<forall>q. start \<le> q \<longrightarrow> \<not> occurs_at needle text q) \<longleftrightarrow>
      \<not> (\<exists>q. q \<in> set [start..<Suc (length text)] \<and> occurs_at needle text q)"
    unfolding set_upt atLeastLessThan_iff by blast
  show ?thesis unfolding py_find_def find_None_iff eq by (rule refl)
qed

function gold_from :: "encoding \<Rightarrow> string \<Rightarrow> string \<Rightarrow> nat \<Rightarrow> int set \<Rightarrow> int set" where
  "gold_from enc prompt needle start found =
     (case py_find prompt needle start of None \<Rightarrow> found
      | Some pos \<Rightarrow> gold_from enc prompt needle (Suc pos) (found \<union> tokens_at enc pos (length needle)))"
  by auto
termination
  by (relation "measure (\<lambda>(enc, prompt, needle, start, found). Suc (length prompt) - start)") (auto dest: py_find_Some(1))

declare gold_from.simps [simp del]

definition find_gold_token_ids :: "(string \<Rightarrow> encoding) \<Rightarrow> string \<Rightarrow> string \<Rightarrow> int set" where
  "find_gold_token_ids tokenizer prompt needle = gold_from (tokenizer prompt) prompt needle 0 {}"

text \<open>The files of a directory in the order of their names; other suffixes are skipped.\<close>

type_synonym 's dump_dir = "(string \<times> 's hook_dump result) list"

definition iter_dump_records :: "'s dump_dir \<Rightarrow> 's hook_dump result list" where
  "iter_dump_records dir =
     map snd (filter (\<lambda>(name, r). ends_with name ''.json'' \<or> ends_with name ''.pt'') (sort_key fst dir))"

text \<open>A value used as a list of token positions; a nested list has no hash, a number cannot be iterated.\<close>

definition plain_ids :: "int nested option \<Rightarrow> int list result" where
  "plain_ids v =
     (case v of None \<Rightarrow> Inr [] | Some (Leaf _) \<Rightarrow> Inl TypeError
      | Some (Node xs) \<Rightarrow> map_result (\<lambda>x. case x of Leaf t \<Rightarrow> Inr t | Node _ \<Rightarrow> Inl TypeError) xs)"

text \<open>\<open>record.get("seq_lens_key", [None])[0]\<close>; a nested value is only reported and appears as \<open>None\<close>.\<close>

definition record_seq :: "'s hook_dump \<Rightarrow> int option result" where
  "record_seq r =
     (case rd_seq_lens_key r of None \<Rightarrow> Inr None | Some (Leaf _) \<Rightarrow> Inl TypeError | Some (Node []) \<Rightarrow> Inl IndexError
      | Some (Node (Leaf x # _)) \<Rightarrow> Inr (Some x) | Some (Node (Node _ # _)) \<Rightarrow> Inr None)"

record gold_stats =
  go_gold_tokens :: int
  go_records :: int
  go_in_native_records :: int
  go_swapped_out :: int
  go_min_in_selected :: "int option"
  go_worst_step :: "int option"
  go_swapped_records :: int

definition reconcile_record :: "int set \<Rightarrow> 's hook_dump \<Rightarrow> gold_stats \<Rightarrow> gold_stats result" where
  "reconcile_record gold r st =
     (case record_seq r of Inl e \<Rightarrow> Inl e | Inr seq \<Rightarrow>
      case hd_selected r of None \<Rightarrow> Inr st | Some selected \<Rightarrow>
      case plain_ids (rd_indices r) of Inl e \<Rightarrow> Inl e | Inr native \<Rightarrow>
      let swaps = (case hd_swaps r of None \<Rightarrow> [] | Some xs \<Rightarrow> xs);
          in_native = int (card (gold \<inter> set native)); in_selected = int (card (gold \<inter> set selected));
          st1 = st\<lparr>go_records := go_records st + 1,
                   go_in_native_records := go_in_native_records st + (if 0 < in_native then 1 else 0),
                   go_swapped_records := go_swapped_records st + (if swaps \<noteq> [] then 1 else 0),
                   go_swapped_out := go_swapped_out st + int (length (filter (\<lambda>(old, new). old \<in> gold) swaps))\<rparr>
      in Inr (if in_native \<noteq> 0 \<and> (case go_min_in_selected st of None \<Rightarrow> True | Some x \<Rightarrow> in_selected < x)
              then st1\<lparr>go_min_in_selected := Some in_selected, go_worst_step := seq\<rparr> else st1))"

fun reconcile_records :: "int set \<Rightarrow> 's hook_dump result list \<Rightarrow> gold_stats \<Rightarrow> gold_stats result" where
  "reconcile_records gold [] st = Inr st"
| "reconcile_records gold (r # rs) st =
     (case r of Inl e \<Rightarrow> Inl e | Inr d \<Rightarrow>
      case reconcile_record gold d st of Inl e \<Rightarrow> Inl e | Inr st' \<Rightarrow> reconcile_records gold rs st')"

datatype no_stats = NoGoldText | NoDumpDirectory | NoGoldTokens | NoRecords

text \<open>The statistics with the flag \<open>gold_ever_absent\<close>, or the reason why there are none.\<close>

definition reconcile_example ::
  "(string \<Rightarrow> 's dump_dir option) \<Rightarrow> (string \<Rightarrow> encoding) \<Rightarrow> jdict \<Rightarrow> (no_stats + gold_stats \<times> bool) result" where
  "reconcile_example dump_root tokenizer example =
     (case gold_text_of example of Inl e \<Rightarrow> Inl e | Inr None \<Rightarrow> Inr (Inl NoGoldText)
      | Inr (Some gold_text) \<Rightarrow>
      case dump_root (dump_subdir example) of None \<Rightarrow> Inr (Inl NoDumpDirectory) | Some dir \<Rightarrow>
      case (row_get example ''prompt'', gold_text) of
        (JStr prompt, JStr needle) \<Rightarrow>
          let gold = find_gold_token_ids tokenizer prompt needle in
          if gold = {} then Inr (Inl NoGoldTokens) else
          (case reconcile_records gold (iter_dump_records dir)
                 \<lparr>go_gold_tokens = int (card gold), go_records = 0, go_in_native_records = 0, go_swapped_out = 0,
                  go_min_in_selected = None, go_worst_step = None, go_swapped_records = 0\<rparr> of Inl e \<Rightarrow> Inl e
           | Inr st \<Rightarrow> if go_records st = 0 then Inr (Inl NoRecords) else Inr (Inr (st, go_min_in_selected st = Some 0)))
      | _ \<Rightarrow> Inl AttributeError)"

text \<open>The examples whose answer run B lost and, as controls, those that kept it; the last successful row of a run counts.\<close>

definition ok_rows :: "result_row list \<Rightarrow> (jval \<times> result_row) list" where
  "ok_rows rows = dict_update [] (map (\<lambda>r. (qr_id r, r)) (filter qr_ok rows))"

definition row_output :: "result_row \<Rightarrow> jval" where
  "row_output r = (case qr_answer r of None \<Rightarrow> JNull | Some x \<Rightarrow> JStr (an_output x))"

definition scored :: "(jval \<times> result_row) list \<Rightarrow> (jval \<times> result_row) list \<Rightarrow> jdict \<Rightarrow> (bool option \<times> bool option) result" where
  "scored run_a run_b example =
     (let i = row_get example ''id''; ref = row_get example ''reference''; m = mode_of example in
      case match_answer (row_output (the (map_of run_a i))) ref m of Inl e \<Rightarrow> Inl e | Inr x \<Rightarrow>
      case match_answer (row_output (the (map_of run_b i))) ref m of Inl e \<Rightarrow> Inl e | Inr y \<Rightarrow> Inr (x, y))"

definition reconcile_groups :: "jval result list \<Rightarrow> result_row list \<Rightarrow> result_row list \<Rightarrow> int \<Rightarrow> (jdict list \<times> jdict list) result" where
  "reconcile_groups ls rows_a rows_b controls =
     (case load_dataset ls None of Inl e \<Rightarrow> Inl e | Inr examples \<Rightarrow>
      let run_a = ok_rows rows_a; run_b = ok_rows rows_b;
          ds = map snd (dict_update [] (map (\<lambda>e. (row_get e ''id'', e)) examples));
          paired = filter (\<lambda>e. map_of run_a (row_get e ''id'') \<noteq> None \<and> map_of run_b (row_get e ''id'') \<noteq> None) ds
      in case map_result (scored run_a run_b) paired of Inl e \<Rightarrow> Inl e
         | Inr ss \<Rightarrow>
             Inr (map fst (filter (\<lambda>(e, x, y). x = Some True \<and> y = Some False) (zip paired ss)),
                  py_slice (map fst (filter (\<lambda>(e, x, y). x = Some True \<and> y = Some True) (zip paired ss))) 0 controls))"

subsection \<open>analyze\_quality.py\<close>

definition results_by_id :: "result_row list \<Rightarrow> (jval \<times> result_row) list" where
  "results_by_id rows =
     foldl (\<lambda>d row. if qr_ok row \<and> map_of d (qr_id row) = None then d @ [(qr_id row, row)] else d) [] rows"

text \<open>The first position where two sequences differ; the shorter length when one is a proper prefix.\<close>

fun first_divergence :: "'a list \<Rightarrow> 'a list \<Rightarrow> nat option" where
  "first_divergence (x # xs) (y # ys) = (if x \<noteq> y then Some 0 else map_option Suc (first_divergence xs ys))"
| "first_divergence [] [] = None"
| "first_divergence xs ys = Some 0"

record joined_row =
  jr_id :: jval
  jr_task :: string
  jr_score_a :: "bool option"
  jr_score_b :: "bool option"
  jr_agree :: bool
  jr_divergence :: "nat option"
  jr_lp_delta_mean :: "rat option"
  jr_lp_delta_min :: "rat option"
  jr_lp_delta_p05 :: "rat option"
  jr_shared :: nat
  jr_out_a :: string
  jr_out_b :: string

definition out_of :: "result_row \<Rightarrow> string" where
  "out_of r = (case qr_answer r of None \<Rightarrow> [] | Some x \<Rightarrow> an_output x)"

definition tokens_of :: "result_row \<Rightarrow> string list" where
  "tokens_of r = (case qr_answer r of None \<Rightarrow> [] | Some x \<Rightarrow> an_tokens x)"

definition logprobs_of :: "result_row \<Rightarrow> rat option list" where
  "logprobs_of r = (case qr_answer r of None \<Rightarrow> [] | Some x \<Rightarrow> an_token_logprobs x)"

definition median_of :: "rat list \<Rightarrow> rat \<Rightarrow> rat option" where
  "median_of xs q = (case percentile xs q of Inr v \<Rightarrow> v | Inl _ \<Rightarrow> None)"

definition rat_mean :: "rat list \<Rightarrow> rat option" where
  "rat_mean xs = (if xs = [] then None else Some (sum_list xs / of_nat (length xs)))"

definition compare :: "result_row \<Rightarrow> result_row \<Rightarrow> (jval \<times> jdict) list \<Rightarrow> joined_row result" where
  "compare a b examples =
     (let example = dict_get examples (qr_id a) [] in
      case match_answer (JStr (out_of a)) (row_get example ''reference'') (mode_of example) of Inl e \<Rightarrow> Inl e | Inr score_a \<Rightarrow>
      case match_answer (JStr (out_of b)) (row_get example ''reference'') (mode_of example) of Inl e \<Rightarrow> Inl e | Inr score_b \<Rightarrow>
      let ta = tokens_of a; tb = tokens_of b; xa = strip (out_of a); xb = strip (out_of b);
          agree = (if ta \<noteq> [] \<and> tb \<noteq> [] then ta = tb else xa = xb);
          divergence = (if ta \<noteq> [] \<and> tb \<noteq> [] then first_divergence ta tb else first_divergence xa xb);
          la = logprobs_of a; lb = logprobs_of b;
          deltas = (if divergence = None \<and> la \<noteq> [] \<and> length la = length lb
                    then concat (map (\<lambda>p. case p of (Some x, Some y) \<Rightarrow> [y - x] | _ \<Rightarrow> []) (zip la lb)) else [])
      in Inr \<lparr>jr_id = qr_id a, jr_task = qr_task a, jr_score_a = score_a, jr_score_b = score_b, jr_agree = agree,
              jr_divergence = divergence, jr_lp_delta_mean = rat_mean deltas,
              jr_lp_delta_min = (if deltas = [] then None else Some (Min (set deltas))), 
              jr_lp_delta_p05 = median_of deltas (1 / 20), jr_shared = length deltas, jr_out_a = take 80 xa, jr_out_b = take 80 xb\<rparr>)"

definition a_only :: "joined_row \<Rightarrow> bool" where
  "a_only r \<longleftrightarrow> jr_score_a r = Some True \<and> jr_score_b r = Some False"

definition b_only :: "joined_row \<Rightarrow> bool" where
  "b_only r \<longleftrightarrow> jr_score_b r = Some True \<and> jr_score_a r = Some False"

definition share :: "(joined_row \<Rightarrow> bool) \<Rightarrow> joined_row list \<Rightarrow> rat option" where
  "share p rows = (if rows = [] then None else Some (of_nat (length (filter p rows)) / of_nat (length rows)))"

definition score_mean :: "(joined_row \<Rightarrow> bool option) \<Rightarrow> joined_row list \<Rightarrow> rat option" where
  "score_mean f rows =
     (let scored = filter (\<lambda>r. f r \<noteq> None) rows
      in if scored = [] then None else Some (of_nat (length (filter (\<lambda>r. f r = Some True) scored)) / of_nat (length scored)))"

record quality_block =
  qb_n :: nat
  qb_score_a :: "rat option"
  qb_score_b :: "rat option"
  qb_agreement :: "rat option"
  qb_a_only_right :: "rat option"
  qb_b_only_right :: "rat option"
  qb_both_wrong_agreeing :: "rat option"
  qb_diverged_share :: "rat option"
  qb_first_divergence_median :: "rat option"
  qb_lp_delta_mean :: "rat option"
  qb_lp_delta_p05 :: "rat option"

definition task_block :: "joined_row list \<Rightarrow> quality_block" where
  "task_block rows =
     (let diverged = map (\<lambda>r. of_nat (the (jr_divergence r))) (filter (\<lambda>r. jr_divergence r \<noteq> None) rows);
          deltas = map (\<lambda>r. the (jr_lp_delta_mean r)) (filter (\<lambda>r. jr_lp_delta_mean r \<noteq> None) rows)
      in \<lparr>qb_n = length rows, qb_score_a = score_mean jr_score_a rows, qb_score_b = score_mean jr_score_b rows,
          qb_agreement = share jr_agree rows, qb_a_only_right = share a_only rows, qb_b_only_right = share b_only rows,
          qb_both_wrong_agreeing = share (\<lambda>r. jr_agree r \<and> jr_score_a r = Some False \<and> jr_score_b r = Some False) rows,
          qb_diverged_share = share (\<lambda>r. jr_divergence r \<noteq> None) rows,
          qb_first_divergence_median = median_of diverged (1 / 2), qb_lp_delta_mean = rat_mean deltas,
          qb_lp_delta_p05 = median_of deltas (1 / 20)\<rparr>)"

record quality_summary =
  qs_overall :: quality_block
  qs_by_task :: "(string \<times> quality_block) list"
  qs_regressions :: "jval list"
  qs_improvements :: "jval list"
  qs_dataset_size :: nat
  qs_compared :: nat
  qs_only_a :: nat
  qs_only_b :: nat

definition by_task :: "joined_row list \<Rightarrow> (string \<times> joined_row list) list" where
  "by_task joined = map (\<lambda>t. (t, filter (\<lambda>r. jr_task r = t) joined)) (sorted_list_of_set (jr_task ` set joined))"

definition analyze_main :: "jval result list \<Rightarrow> result_row list \<Rightarrow> result_row list \<Rightarrow> (quality_summary \<times> joined_row list) result" where
  "analyze_main ls rows_a rows_b =
     (case load_dataset ls None of Inl e \<Rightarrow> Inl e | Inr examples \<Rightarrow>
      let ds = dict_update [] (map (\<lambda>e. (row_get e ''id'', e)) examples);
          run_a = results_by_id rows_a; run_b = results_by_id rows_b;
          in_a = (\<lambda>i. map_of run_a i \<noteq> None); in_b = (\<lambda>i. map_of run_b i \<noteq> None);
          shared = filter (\<lambda>i. in_a i \<and> in_b i) (map fst ds)
      in case map_result (\<lambda>i. compare (the (map_of run_a i)) (the (map_of run_b i)) ds) shared of Inl e \<Rightarrow> Inl e
         | Inr joined \<Rightarrow>
             Inr (\<lparr>qs_overall = task_block joined, qs_by_task = map (\<lambda>(t, rows). (t, task_block rows)) (by_task joined),
                   qs_regressions = map jr_id (filter a_only joined), qs_improvements = map jr_id (filter b_only joined),
                   qs_dataset_size = length ds, qs_compared = length shared,
                   qs_only_a = length (filter (\<lambda>i. in_a i \<and> \<not> in_b i) (map fst ds)),
                   qs_only_b = length (filter (\<lambda>i. in_b i \<and> \<not> in_a i) (map fst ds))\<rparr>, joined))"

subsection \<open>Runs can be interrupted and resumed\<close>

lemma attempt_completion_row:
  "attempt_completion sv marker prompt row env = (Some row', env') \<Longrightarrow>
   qr_id row' = qr_id row \<and> qr_dump_subdir row' = qr_dump_subdir row \<and> qr_filtered row' = qr_filtered row"
  by (auto simp: attempt_completion_def split: prod.splits reply.splits)

lemma one_example_row:
  assumes "one_example sv a example s = (r, s')"
  shows "rn_results s' = rn_results s \<and> rn_marker s' = rn_marker s \<and>
    (\<forall>row. r = Inr (Some row) \<longrightarrow> qr_id row = row_get example ''id'' \<and> qr_dump_subdir row = dump_subdir example \<and> (qr_filtered row \<longrightarrow> \<not> qr_ok row))"
proof (cases "new_row a example")
  case (Inr row0)
  then have row0: "qr_id row0 = row_get example ''id''" "qr_dump_subdir row0 = dump_subdir example" "\<not> qr_filtered row0" "\<not> qr_ok row0"
    by (auto simp: new_row_def split: sum.splits)
  have fin: "qr_id row' = row_get example ''id'' \<and> qr_dump_subdir row' = dump_subdir example \<and> \<not> qr_filtered row'"
    if "attempt_completion sv mk p row env = (Some row', env')" "row = row0 \<or> row = row0\<lparr>qr_prompt_tokens := Some n\<rparr>" for mk p row env row' env' n
    using attempt_completion_row [OF that(1)] that(2) row0 by auto
  show ?thesis
    using assms Inr row0 fin
    by (auto simp: one_example_def Let_def split: prod.splits reply.splits option.splits if_splits) blast+
qed (use assms in \<open>auto simp: one_example_def\<close>)

lemma count_row_sums:
  assumes "qr_filtered x \<longrightarrow> \<not> qr_ok x"
  shows "mf_completed (count_row x m) = mf_completed m + (if qr_ok x then 1 else 0)"
    and "mf_completed (count_row x m) + mf_failed (count_row x m) + mf_filtered (count_row x m) = mf_completed m + mf_failed m + mf_filtered m + 1"
  using assms by (auto simp: count_row_def)

definition pending_examples :: "jval set \<Rightarrow> jdict list \<Rightarrow> jdict list" where
  "pending_examples done exs = filter (\<lambda>e. row_get e ''id'' \<notin> done) exs"

lemma run_loop_rows:
  assumes "run_loop sv a done m exs s = (r, s')"
  shows "\<exists>new. rn_results s' = rn_results s @ new \<and>
    map qr_id new = take (length new) (map (\<lambda>e. row_get e ''id'') (pending_examples done exs)) \<and>
    map qr_dump_subdir new = take (length new) (map dump_subdir (pending_examples done exs)) \<and>
    (\<forall>m' b. r = Inr (m', b) \<longrightarrow> (\<not> b \<longrightarrow> length new = length (pending_examples done exs)) \<and>
       mf_completed m' = mf_completed m + int (length (filter qr_ok new)) \<and>
       mf_completed m' + mf_failed m' + mf_filtered m' = mf_completed m + mf_failed m + mf_filtered m + int (length new))"
  using assms
proof (induction exs arbitrary: m s)
  case Nil
  then show ?case by (intro exI [of _ "[]"]) (auto simp: pending_examples_def)
next
  case (Cons e exs)
  show ?case
  proof (cases "row_get e ''id'' \<in> done")
    case True
    then show ?thesis using Cons by (auto simp: pending_examples_def)
  next
    case False
    let ?s1 = "if rq_dump_root a then s\<lparr>rn_marker := Some (dump_subdir e @ [CHR 0x0A])\<rparr> else s"
    obtain r1 s2 where one: "one_example sv a e ?s1 = (r1, s2)" by fastforce
    note row = one_example_row [OF one]
    have res: "rn_results s2 = rn_results s" using row by (auto split: if_splits)
    show ?thesis
    proof (cases "\<exists>x. r1 = Inr (Some x)")
      case True
      then obtain x where x: "r1 = Inr (Some x)" by blast
      have run: "run_loop sv a done (count_row x m) exs (s2\<lparr>rn_results := rn_results s2 @ [x], rn_manifest := Some (count_row x m)\<rparr>) = (r, s')"
        using Cons.prems False one x by (simp add: Let_def)
      from Cons.IH [OF run] obtain new where new: "rn_results s' = rn_results s2 @ x # new"
        "map qr_id new = take (length new) (map (\<lambda>e. row_get e ''id'') (pending_examples done exs))"
        "map qr_dump_subdir new = take (length new) (map dump_subdir (pending_examples done exs))"
        "\<forall>m' b. r = Inr (m', b) \<longrightarrow> (\<not> b \<longrightarrow> length new = length (pending_examples done exs)) \<and>
          mf_completed m' = mf_completed (count_row x m) + int (length (filter qr_ok new)) \<and>
          mf_completed m' + mf_failed m' + mf_filtered m' = mf_completed (count_row x m) + mf_failed (count_row x m) + mf_filtered (count_row x m) + int (length new)"
        by auto
      have x': "qr_id x = row_get e ''id''" "qr_dump_subdir x = dump_subdir e" "qr_filtered x \<longrightarrow> \<not> qr_ok x" using row x by auto
      show ?thesis
        using new False res x'(1,2) count_row_sums [OF x'(3), of m] by (intro exI [of _ "x # new"]) (auto simp: pending_examples_def)
    next
      case no: False
      then have "r1 = Inr None \<or> (\<exists>err. r1 = Inl err)" by (cases r1) auto
      then have "s' = s2" "\<forall>m' b. r = Inr (m', b) \<longrightarrow> m' = m \<and> b"
        using Cons.prems False one by (auto simp: Let_def)
      then show ?thesis using res by (intro exI [of _ "[]"]) auto
    qed
  qed
qed



subsection \<open>Gold tokens\<close>

lemma gold_from_set:
  "gold_from enc prompt needle start found =
   found \<union> \<Union> ((\<lambda>p. tokens_at enc p (length needle)) ` {p. start \<le> p \<and> occurs_at needle prompt p})"
proof (induction enc prompt needle start found rule: gold_from.induct)
  case (1 enc prompt needle start found)
  show ?case
  proof (cases "py_find prompt needle start")
    case None
    then have "\<forall>q. start \<le> q \<longrightarrow> \<not> occurs_at needle prompt q" by (simp add: py_find_None)
    then have none: "{p. start \<le> p \<and> occurs_at needle prompt p} = {}" by blast
    show ?thesis unfolding none gold_from.simps [of enc prompt needle start] None by simp
  next
    case (Some p)
    note p = py_find_Some [OF Some]
    have "{q. start \<le> q \<and> occurs_at needle prompt q} = insert p {q. Suc p \<le> q \<and> occurs_at needle prompt q}"
      using p by (auto simp: not_le Suc_le_eq)
    then show ?thesis using 1 [OF Some] Some by (subst gold_from.simps) (simp add: Un_assoc)
  qed
qed

lemma find_gold_iff:
  "token \<in> find_gold_token_ids tokenizer prompt needle \<longleftrightarrow>
   (\<exists>a b p. (token, a, b) \<in> set (tokenizer prompt) \<and> occurs_at needle prompt p \<and> int p < b \<and> a < int (p + length needle))"
  by (force simp: find_gold_token_ids_def gold_from_set tokens_at_def)

text \<open>What a record contributes when no gold token is a position of the record.\<close>

lemma reconcile_record_misses:
  assumes "reconcile_record gold r st = Inr st'"
    and "hd_selected r \<noteq> None \<longrightarrow> (\<forall>ids. plain_ids (rd_indices r) = Inr ids \<longrightarrow> gold \<inter> set ids = {})"
    and "\<forall>xs. hd_swaps r = Some xs \<longrightarrow> gold \<inter> fst ` set xs = {}"
  shows "go_in_native_records st' = go_in_native_records st \<and> go_swapped_out st' = go_swapped_out st \<and> go_min_in_selected st' = go_min_in_selected st"
proof (cases "hd_selected r")
  case None
  then show ?thesis using assms(1) by (auto simp: reconcile_record_def split: sum.splits)
next
  case (Some selected)
  then obtain ids where ids: "plain_ids (rd_indices r) = Inr ids" using assms(1) by (auto simp: reconcile_record_def split: sum.splits)
  have none: "gold \<inter> set ids = {}" using assms(2) Some ids by auto
  have "filter (\<lambda>(old, new). old \<in> gold) (case hd_swaps r of None \<Rightarrow> [] | Some xs \<Rightarrow> xs) = []"
    using assms(3) by (cases "hd_swaps r") (force simp: filter_empty_conv disjoint_iff)+
  then show ?thesis using assms(1) Some ids none by (auto simp: reconcile_record_def Let_def split: sum.splits)
qed

lemma reconcile_records_miss:
  assumes "reconcile_records gold rs st = Inr st'"
    and "\<forall>r. Inr r \<in> set rs \<longrightarrow> (hd_selected r \<noteq> None \<longrightarrow> (\<forall>ids. plain_ids (rd_indices r) = Inr ids \<longrightarrow> gold \<inter> set ids = {})) \<and>
      (\<forall>xs. hd_swaps r = Some xs \<longrightarrow> gold \<inter> fst ` set xs = {})"
  shows "go_in_native_records st' = go_in_native_records st \<and> go_swapped_out st' = go_swapped_out st \<and> go_min_in_selected st' = go_min_in_selected st"
  using assms
proof (induction rs arbitrary: st)
  case (Cons r rs)
  from Cons.prems(1) obtain d st1 where d: "r = Inr d" "reconcile_record gold d st = Inr st1" "reconcile_records gold rs st1 = Inr st'"
    by (auto split: sum.splits)
  show ?case using reconcile_record_misses [OF d(2)] Cons.IH [OF d(3)] Cons.prems(2) d(1) by simp
qed simp

text \<open>
  C24. The reconciliation collects the vocabulary identifiers of the gold tokens and looks them up
  among token positions. So for a prompt all of whose token identifiers lie above the positions of
  its dump records, it never reports a gold token in the native selection, as swapped out or as
  absent, whatever the override removed.
\<close>

theorem reconcile_compares_ids_with_positions:
  assumes "reconcile_example dump_root tokenizer example = Inr (Inr (st, absent))"
    and "dump_root (dump_subdir example) = Some dir" and "row_get example ''prompt'' = JStr prompt"
    and "\<forall>(token, a, b)\<in>set (tokenizer prompt). bound \<le> token"
    and "\<forall>r. Inr r \<in> snd ` set dir \<longrightarrow> (\<forall>ids. plain_ids (rd_indices r) = Inr ids \<longrightarrow> (\<forall>t\<in>set ids. t < bound)) \<and>
      (\<forall>xs. hd_swaps r = Some xs \<longrightarrow> (\<forall>(old, new)\<in>set xs. old < bound))"
  shows "go_in_native_records st = 0 \<and> go_swapped_out st = 0 \<and> go_min_in_selected st = None \<and> \<not> absent"
proof -
  obtain g where g: "gold_text_of example = Inr (Some g)"
    using assms(1) by (auto simp: reconcile_example_def split: sum.splits option.splits)
  then obtain needle where n: "g = JStr needle"
    using assms(1-3) by (cases g) (auto simp: reconcile_example_def)
  let ?gold = "find_gold_token_ids tokenizer prompt needle"
  let ?st0 = "\<lparr>go_gold_tokens = int (card ?gold), go_records = 0, go_in_native_records = 0, go_swapped_out = 0,
    go_min_in_selected = None, go_worst_step = None, go_swapped_records = 0\<rparr>"
  have ne: "?gold \<noteq> {}" and "\<exists>st1. reconcile_records ?gold (iter_dump_records dir) ?st0 = Inr st1"
    using assms(1-3) g n by (auto simp: reconcile_example_def Let_def split: sum.splits if_splits)
  then obtain st1 where run: "reconcile_records ?gold (iter_dump_records dir) ?st0 = Inr st1" by blast
  then have st: "st = st1" "absent = (go_min_in_selected st1 = Some 0)"
    using assms(1-3) g n ne by (auto simp: reconcile_example_def Let_def split: if_splits)
  have high: "bound \<le> t" if "t \<in> ?gold" for t using that assms(4) by (auto simp: find_gold_iff)
  have sub: "set (iter_dump_records dir) \<subseteq> snd ` set dir" by (auto simp: iter_dump_records_def)
  have "go_in_native_records st1 = 0 \<and> go_swapped_out st1 = 0 \<and> go_min_in_selected st1 = None"
    using reconcile_records_miss [OF run] high sub assms(5) by (fastforce simp: disjoint_iff)
  then show ?thesis using st by simp
qed

subsection \<open>Agreement and divergence\<close>

lemma first_divergence_None: "first_divergence xs ys = None \<longleftrightarrow> xs = ys"
  by (induction xs ys rule: first_divergence.induct) auto

lemma first_divergence_Some:
  "first_divergence xs ys = Some i \<Longrightarrow> take i xs = take i ys \<and> (i < length xs \<and> i < length ys \<longrightarrow> xs ! i \<noteq> ys ! i) \<and>
     i \<le> length xs \<and> i \<le> length ys \<and> (i = length xs \<or> i = length ys \<or> xs ! i \<noteq> ys ! i) \<and> (i < length xs \<or> i < length ys)"
  by (induction xs ys arbitrary: i rule: first_divergence.induct) (auto split: if_splits)

lemma compare_agree: "compare a b ds = Inr r \<Longrightarrow> (jr_agree r \<longleftrightarrow> jr_divergence r = None) \<and> (jr_shared r \<noteq> 0 \<longrightarrow> jr_agree r)"
proof -
  assume a: "compare a b ds = Inr r"
  have self: "first_divergence xs xs = None" for xs :: "'z list" by (simp add: first_divergence_None)
  show ?thesis
  proof (cases "tokens_of a \<noteq> [] \<and> tokens_of b \<noteq> []")
    case True
    then show ?thesis using a first_divergence_None [of "tokens_of a" "tokens_of b"]
      by (auto simp: compare_def Let_def split: sum.splits if_splits)
  next
    case False
    then show ?thesis using a first_divergence_None [of "strip (out_of a)" "strip (out_of b)"]
      by (auto simp: compare_def Let_def split: sum.splits if_splits)
  qed
qed

lemma sum_lengths_by_task:
  "finite T \<Longrightarrow> jr_task ` set rows \<subseteq> T \<Longrightarrow> (\<Sum>t\<in>T. length (filter (\<lambda>r. jr_task r = t) rows)) = length rows"
proof (induction rows)
  case (Cons r rows)
  have "(\<Sum>t\<in>T. length (filter (\<lambda>q. jr_task q = t) (r # rows))) = (\<Sum>t\<in>T. (if jr_task r = t then 1 else 0) + length (filter (\<lambda>q. jr_task q = t) rows))"
    by (intro sum.cong) auto
  also have "\<dots> = 1 + length rows" using Cons by (simp add: sum.distrib)
  finally show ?case by simp
qed simp



subsection \<open>Concrete runs\<close>

definition demo_server :: "unit server" where
  "demo_server = \<lparr>sv_tokenize = (\<lambda>p e. (Reply (Some 5), e)),
     sv_complete = (\<lambda>mk p n e. (Reply \<lparr>an_output = ''out'', an_tokens = [''o''], an_token_logprobs = [Some 0], an_prompt_tokens = Some 5\<rparr>, e))\<rparr>"

definition demo_collection :: collection_args where
  "demo_collection = \<lparr>rq_label = ''A'', rq_dataset = ''d'', rq_limit = None, rq_max_tokens = 32, rq_max_prompt_tokens = 100,
     rq_dump_root = True, rq_dump_root_is_dir = True, rq_append_ok = False\<rparr>"

definition quality_lines :: "jval result list" where
  "quality_lines = [Inr (JObj (quality_row ''a b'')), Inr (JObj (quality_row ''a.b''))]"

definition fresh_run :: "unit run_state" where
  "fresh_run = \<lparr>rn_results = [], rn_manifest = None, rn_marker = None, rn_endpoint = True, rn_env = ()\<rparr>"

lemma demo_lines_load: "load_dataset quality_lines None = Inr [quality_row ''a b'', quality_row ''a.b'']"
  by code_simp


text \<open>The gold text occupies the second token, position 1, which the override swaps out.\<close>

definition gold_example :: jdict where
  "gold_example = [(''id'', JStr ''e''), (''prompt'', JStr ''k 7''), (''gold_text'', JStr ''7'')]"

definition gold_record :: "int hook_dump" where
  "gold_record = \<lparr>rd_layer = Some ''layers.0'', rd_seq_lens_key = Some (Node [Leaf 3]), rd_seq_lens_query = Some (Leaf 1), rd_has_reference = Some True,
     rd_indices = Some (Node [Leaf 0, Leaf 1]), rd_candidate_indices = None, rd_candidate_scores = None,
     hd_stride_tokens = None, hd_layer_rank = None, hd_selected = Some [0, 2], hd_overridden = Some True, hd_cache_mode = None,
     hd_swaps = Some [(1, 2)], hd_cache_state = None\<rparr>"

definition gold_root :: "string \<Rightarrow> int dump_dir option" where
  "gold_root d = Some [(''layers.0_s3.json'', Inr gold_record)]"

definition gold_tokenizer :: "string \<Rightarrow> encoding" where
  "gold_tokenizer p = [(9001, 0, 2), (9002, 2, 3)]"

theorem reconcile_compares_ids_with_positions_witness:
  "\<exists>st. reconcile_example gold_root gold_tokenizer gold_example = Inr (Inr (st, False)) \<and> go_swapped_records st = 1 \<and> go_swapped_out st = 0"
proof -
  have "(case reconcile_example gold_root gold_tokenizer gold_example of Inr (Inr (st, b)) \<Rightarrow> go_swapped_records st = 1 | _ \<Rightarrow> False)" by code_simp
  then obtain st b where st: "reconcile_example gold_root gold_tokenizer gold_example = Inr (Inr (st, b))" "go_swapped_records st = 1"
    by (auto split: sum.splits prod.splits)
  have "go_swapped_out st = 0 \<and> \<not> b"
    using reconcile_compares_ids_with_positions [OF st(1), of "[(''layers.0_s3.json'', Inr gold_record)]" "''k 7''" 9000]
    by (simp add: gold_root_def gold_example_def row_get_def dict_get_def gold_tokenizer_def gold_record_def plain_ids_def)
  then show ?thesis using st by auto
qed

definition demo_result :: "string \<Rightarrow> result_row" where
  "demo_result out = \<lparr>qr_id = JStr ''a b'', qr_task = ''t'', qr_max_tokens = 32, qr_dump_subdir = ''a_b'', qr_prompt_tokens = None, qr_ok = True,
     qr_filtered = False, qr_answer = Some \<lparr>an_output = out, an_tokens = [], an_token_logprobs = [], an_prompt_tokens = None\<rparr>, qr_attempts = 1\<rparr>"


end
