(* ===== verification/WaitHandles.thy ===== *)
theory WaitHandles
  imports ConcurrentIO Complex_Main
begin

section \<open>Waiting for handles\<close>

text \<open>
  Model of \<open>IOHandle.wait\<close>, \<open>wait_all\<close> and \<open>wait_any\<close> of \<open>bmpclient/concurrent_io.py\<close>. The first two
  are functions of the times at which the handles complete, with the clock advancing while they block.
  \<open>wait_any\<close> is a thread that shares an event with the workers: it is a transition system in which
  results are recorded, callbacks run and the thread moves in any order.
\<close>

subsection \<open>wait and wait\_all\<close>

text \<open>
  \<open>fin\<close> is the time at which the handle completes, \<open>None\<close> when it never does. The result is the
  returned flag and the time of the return, \<open>None\<close> when the call never returns.
\<close>

definition handle_wait :: "rat option \<Rightarrow> rat option \<Rightarrow> rat \<Rightarrow> (bool \<times> rat) option" where
  "handle_wait fin timeout now =
     (case timeout of
        None \<Rightarrow> (case fin of None \<Rightarrow> None | Some t \<Rightarrow> Some (True, max now t))
      | Some d \<Rightarrow>
          let deadline = now + d in
          (case fin of
             Some t \<Rightarrow> if t \<le> now then Some (True, now) else if t \<le> deadline then Some (True, t) else Some (False, max now deadline)
           | None \<Rightarrow> Some (False, max now deadline)))"

fun wait_each :: "rat option \<Rightarrow> rat option list \<Rightarrow> rat \<Rightarrow> (unit result \<times> rat) option" where
  "wait_each deadline [] now = Some (Inr (), now)"
| "wait_each deadline (fin # fins) now =
     (case handle_wait fin (map_option (\<lambda>d. max 0 (d - now)) deadline) now of
        None \<Rightarrow> None
      | Some (False, t) \<Rightarrow> Some (Inl TimeoutError, t)
      | Some (True, t) \<Rightarrow> wait_each deadline fins t)"

definition wait_all :: "rat option list \<Rightarrow> rat option \<Rightarrow> rat \<Rightarrow> (unit result \<times> rat) option" where
  "wait_all fins timeout now = wait_each (map_option (\<lambda>d. now + d) timeout) fins now"

lemma wait_each_deadline:
  assumes "now \<le> d"
  shows "\<exists>t. wait_each (Some d) fins now = Some (if \<forall>f\<in>set fins. \<exists>t. f = Some t \<and> t \<le> d then Inr () else Inl TimeoutError, t) \<and> now \<le> t \<and> t \<le> d"
  using assms
proof (induction fins arbitrary: now)
  case (Cons f fins)
  show ?case
  proof (cases "\<exists>t. f = Some t \<and> t \<le> d")
    case True
    then obtain t where t: "f = Some t" "t \<le> d" by blast
    then have "handle_wait f (Some (max 0 (d - now))) now = Some (True, max now t)"
      using Cons.prems by (auto simp: handle_wait_def Let_def max_def)
    then have step: "wait_each (Some d) (f # fins) now = wait_each (Some d) fins (max now t)" by simp
    have "max now t \<le> d" using t Cons.prems by simp
    from Cons.IH [OF this] obtain u where
      "wait_each (Some d) fins (max now t) = Some (if \<forall>f\<in>set fins. \<exists>t. f = Some t \<and> t \<le> d then Inr () else Inl TimeoutError, u)" "max now t \<le> u" "u \<le> d"
      by blast
    moreover have "(\<forall>g\<in>set (f # fins). \<exists>t. g = Some t \<and> t \<le> d) \<longleftrightarrow> (\<forall>g\<in>set fins. \<exists>t. g = Some t \<and> t \<le> d)" using True by simp
    ultimately show ?thesis unfolding step by (intro exI [of _ u]) simp
  next
    case False
    then have "handle_wait f (Some (max 0 (d - now))) now = Some (False, d)"
      using Cons.prems by (auto simp: handle_wait_def Let_def max_def split: option.splits)
    then show ?thesis using False Cons.prems by auto
  qed
qed auto

lemma wait_each_forever:
  "(\<exists>r. wait_each None fins now = Some r) \<longleftrightarrow> None \<notin> set fins"
  "wait_each None fins now = Some (r, t) \<Longrightarrow> r = Inr () \<and> now \<le> t \<and> (\<forall>f\<in>set fins. \<exists>u. f = Some u \<and> u \<le> t)"
proof -
  show "(\<exists>r. wait_each None fins now = Some r) \<longleftrightarrow> None \<notin> set fins"
    by (induction fins arbitrary: now) (auto simp: handle_wait_def split: option.splits)
  show "wait_each None fins now = Some (r, t) \<Longrightarrow> r = Inr () \<and> now \<le> t \<and> (\<forall>f\<in>set fins. \<exists>u. f = Some u \<and> u \<le> t)"
  proof (induction fins arbitrary: now)
    case (Cons f fins)
    then obtain u where "f = Some u" "wait_each None fins (max now u) = Some (r, t)"
      by (auto simp: handle_wait_def split: option.splits)
    then show ?case using Cons.IH [of "max now u"] by auto
  qed auto
qed

text \<open>
  Waiting for all handles succeeds exactly when every handle completes in time: with a time-out it
  always returns, within the time-out, and raises \<open>TimeoutError\<close> exactly when some handle is not
  complete by the common deadline, however the handles are ordered; without one it returns exactly
  when every handle completes, and then all of them are complete.
\<close>

theorem wait_all_outcome:
  assumes "0 \<le> d"
  shows "(\<exists>t. wait_all fins (Some d) now =
      Some (if \<forall>f\<in>set fins. \<exists>t. f = Some t \<and> t \<le> now + d then Inr () else Inl TimeoutError, t) \<and> now \<le> t \<and> t \<le> now + d) \<and>
    ((\<exists>r. wait_all fins None now = Some r) \<longleftrightarrow> None \<notin> set fins) \<and>
    (\<forall>r t. wait_all fins None now = Some (r, t) \<longrightarrow> r = Inr () \<and> (\<forall>f\<in>set fins. \<exists>u. f = Some u \<and> u \<le> t))"
proof -
  have "now \<le> now + d" using assms by simp
  from wait_each_deadline [OF this, of fins] show ?thesis
    using wait_each_forever [of fins now] by (auto simp: wait_all_def)
qed

theorem wait_all_outcome_witness:
  "\<exists>t. wait_all [Some 3, Some 1, Some 9] (Some 5) 0 = Some (Inl TimeoutError, t) \<and> t \<le> 5"
  using wait_all_outcome [of 5 "[Some 3, Some 1, Some 9]" 0] by auto

subsection \<open>wait\_any\<close>

text \<open>
  The waiting thread registers its callback with every handle of its list in turn, then polls them,
  sleeps on the event, clears it and polls again. A handle that completes takes a snapshot of its
  callbacks; these run later, outside its lock, one at a time, and each of them sets the event.
\<close>

datatype any_phase = Registering nat | Polling nat | Sleeping | Clearing | Found nat | TimedOut

record any_state =
  wa_handles :: "io_handle list"
  wa_pending :: nat
  wa_event :: bool
  wa_phase :: any_phase

definition any_start :: "io_handle list \<Rightarrow> nat list \<Rightarrow> any_state result" where
  "any_start hs ids =
     (if ids = [] then Inl ValueError
      else Inr \<lparr>wa_handles = hs, wa_pending = 0, wa_event = False, wa_phase = Registering 0\<rparr>)"

inductive any_step :: "nat \<Rightarrow> bool \<Rightarrow> nat list \<Rightarrow> any_state \<Rightarrow> any_state \<Rightarrow> bool" for cb timed ids where
  register: "\<lbrakk>wa_phase y = Registering k; k < length ids; add_done_callback cb (wa_handles y ! (ids ! k)) = (now, h)\<rbrakk> \<Longrightarrow>
    any_step cb timed ids y (y\<lparr>wa_handles := (wa_handles y)[ids ! k := h], wa_event := (wa_event y \<or> now), wa_phase := Registering (Suc k)\<rparr>)"
| registered: "wa_phase y = Registering (length ids) \<Longrightarrow> any_step cb timed ids y (y\<lparr>wa_phase := Polling 0\<rparr>)"
| poll_done: "\<lbrakk>wa_phase y = Polling k; k < length ids; handle_done (wa_handles y ! (ids ! k))\<rbrakk> \<Longrightarrow>
    any_step cb timed ids y (y\<lparr>wa_phase := Found (ids ! k)\<rparr>)"
| poll_next: "\<lbrakk>wa_phase y = Polling k; k < length ids; \<not> handle_done (wa_handles y ! (ids ! k))\<rbrakk> \<Longrightarrow>
    any_step cb timed ids y (y\<lparr>wa_phase := Polling (Suc k)\<rparr>)"
| sleep: "wa_phase y = Polling (length ids) \<Longrightarrow> any_step cb timed ids y (y\<lparr>wa_phase := Sleeping\<rparr>)"
| deadline: "\<lbrakk>wa_phase y = Polling (length ids); timed\<rbrakk> \<Longrightarrow> any_step cb timed ids y (y\<lparr>wa_phase := TimedOut\<rparr>)"
| wake: "\<lbrakk>wa_phase y = Sleeping; wa_event y \<or> timed\<rbrakk> \<Longrightarrow> any_step cb timed ids y (y\<lparr>wa_phase := Clearing\<rparr>)"
| clear: "wa_phase y = Clearing \<Longrightarrow> any_step cb timed ids y (y\<lparr>wa_event := False, wa_phase := Polling 0\<rparr>)"
| results: "\<lbrakk>i < length (wa_handles y); pairs \<noteq> []; int (length pairs) \<le> h_remaining (wa_handles y ! i);
     set_many pairs (wa_handles y ! i) = (cbs, h)\<rbrakk> \<Longrightarrow>
    any_step cb timed ids y (y\<lparr>wa_handles := (wa_handles y)[i := h], wa_pending := wa_pending y + count_list cbs cb\<rparr>)"
| callback: "wa_pending y = Suc n \<Longrightarrow> any_step cb timed ids y (y\<lparr>wa_pending := n, wa_event := True\<rparr>)"

inductive any_reach :: "nat \<Rightarrow> bool \<Rightarrow> nat list \<Rightarrow> any_state \<Rightarrow> any_state \<Rightarrow> bool" for cb timed ids y0 where
  any_init: "any_reach cb timed ids y0 y0"
| any_next: "any_reach cb timed ids y0 y \<Longrightarrow> any_step cb timed ids y y' \<Longrightarrow> any_reach cb timed ids y0 y'"

text \<open>How many handles of the list hold the callback, and how many were found open since the last clear.\<close>

fun registered_upto :: "nat list \<Rightarrow> any_phase \<Rightarrow> nat" where
  "registered_upto ids (Registering k) = k"
| "registered_upto ids _ = length ids"

fun signalled_upto :: "nat list \<Rightarrow> any_phase \<Rightarrow> nat" where
  "signalled_upto ids (Registering k) = k"
| "signalled_upto ids (Polling k) = k"
| "signalled_upto ids Sleeping = length ids"
| "signalled_upto ids _ = 0"

definition any_inv :: "nat \<Rightarrow> nat list \<Rightarrow> any_state \<Rightarrow> bool" where
  "any_inv cb ids y \<longleftrightarrow>
     (\<forall>i\<in>set ids. i < length (wa_handles y)) \<and> (\<forall>h\<in>set (wa_handles y). 0 \<le> h_remaining h) \<and>
     registered_upto ids (wa_phase y) \<le> length ids \<and> signalled_upto ids (wa_phase y) \<le> registered_upto ids (wa_phase y) \<and>
     (\<forall>j < registered_upto ids (wa_phase y). handle_done (wa_handles y ! (ids ! j)) \<or> cb \<in> set (h_callbacks (wa_handles y ! (ids ! j)))) \<and>
     (\<forall>j < signalled_upto ids (wa_phase y). handle_done (wa_handles y ! (ids ! j)) \<longrightarrow> wa_event y \<or> 0 < wa_pending y) \<and>
     (\<forall>i. wa_phase y = Found i \<longrightarrow> i \<in> set ids \<and> handle_done (wa_handles y ! i))"


lemma set_many_fields:
  assumes "set_many pairs h = (cbs, h')"
  shows "h_callbacks h' = h_callbacks h" "h_remaining h' = h_remaining h - int (length pairs)"
    "h_remaining h' \<le> 0 \<Longrightarrow> cbs = h_callbacks h"
  using assms by (auto simp: set_many_def Let_def split: if_splits)

lemma add_callback_fields:
  assumes "add_done_callback cb h = (now, h')" and "0 \<le> h_remaining h"
  shows "h_remaining h' = h_remaining h" "set (h_callbacks h) \<subseteq> set (h_callbacks h')" "now \<longleftrightarrow> handle_done h'" "\<not> handle_done h' \<Longrightarrow> cb \<in> set (h_callbacks h')"
  using assms by (auto simp: add_done_callback_def handle_done_def split: if_splits)

lemma any_inv_register:
  assumes "any_inv cb ids y" and "wa_phase y = Registering k" and "k < length ids"
    and "add_done_callback cb (wa_handles y ! (ids ! k)) = (now, h)"
  shows "any_inv cb ids (y\<lparr>wa_handles := (wa_handles y)[ids ! k := h], wa_event := (wa_event y \<or> now), wa_phase := Registering (Suc k)\<rparr>)"
proof -
  let ?hs = "wa_handles y" and ?i = "ids ! k"
  have i: "?i < length ?hs" using assms(1,3) by (auto simp: any_inv_def)
  then have nn: "0 \<le> h_remaining (?hs ! ?i)" using assms(1) nth_mem by (auto simp: any_inv_def)
  note f = add_callback_fields [OF assms(4) nn]
  have same: "handle_done (?hs[?i := h] ! j) = handle_done (?hs ! j)" "set (h_callbacks (?hs ! j)) \<subseteq> set (h_callbacks (?hs[?i := h] ! j))" for j
    using f(1,2) i by (cases "j = ?i"; auto simp: handle_done_def nth_list_update)+
  have "handle_done (?hs[?i := h] ! (ids ! j)) \<or> cb \<in> set (h_callbacks (?hs[?i := h] ! (ids ! j)))" if "j < Suc k" for j
  proof (cases "j = k")
    case True
    then show ?thesis using f(4) i by auto
  next
    case False
    then show ?thesis using assms(1,2) that same by (fastforce simp: any_inv_def less_Suc_eq)
  qed
  moreover have "wa_event y \<or> now \<or> 0 < wa_pending y" if "j < Suc k" "handle_done (?hs[?i := h] ! (ids ! j))" for j
  proof (cases "j = k")
    case True
    then show ?thesis using f(3) i that by auto
  next
    case False
    then show ?thesis using assms(1,2) that same(1) by (auto simp: any_inv_def less_Suc_eq)
  qed
  moreover have "0 \<le> h_remaining h" using f(1) nn by simp
  then have "\<forall>g\<in>set (?hs[?i := h]). 0 \<le> h_remaining g" using assms(1) set_update_subset_insert [of ?hs ?i h] by (auto simp: any_inv_def)
  ultimately show ?thesis using assms(1,3) by (auto simp: any_inv_def)
qed

lemma any_inv_results:
  assumes "any_inv cb ids y" and "i < length (wa_handles y)" and "pairs \<noteq> []" and "int (length pairs) \<le> h_remaining (wa_handles y ! i)"
    and "set_many pairs (wa_handles y ! i) = (cbs, h)"
  shows "any_inv cb ids (y\<lparr>wa_handles := (wa_handles y)[i := h], wa_pending := wa_pending y + count_list cbs cb\<rparr>)"
proof -
  let ?hs = "wa_handles y"
  note f = set_many_fields [OF assms(5)]
  have open_before: "\<not> handle_done (?hs ! i)" using assms(3,4) by (cases pairs) (auto simp: handle_done_def)
  have done_h: "handle_done h \<Longrightarrow> cbs = h_callbacks (?hs ! i)" using f(3) by (simp add: handle_done_def)
  have cbs: "h_callbacks (?hs[i := h] ! j) = h_callbacks (?hs ! j)" for j using f(1) assms(2) by (cases "j = i") auto
  have old: "handle_done (?hs[i := h] ! j) = handle_done (?hs ! j)" if "j \<noteq> i" for j using that by simp
  have mono: "handle_done (?hs ! j) \<Longrightarrow> handle_done (?hs[i := h] ! j)" for j using open_before by (cases "j = i") auto
  have "wa_event y \<or> 0 < wa_pending y + count_list cbs cb"
    if j: "j < signalled_upto ids (wa_phase y)" "handle_done (?hs[i := h] ! (ids ! j))" for j
  proof (cases "ids ! j = i")
    case False
    then show ?thesis using assms(1) j old by (auto simp: any_inv_def)
  next
    case True
    then have "handle_done h" using j(2) assms(2) by simp
    moreover have "cb \<in> set (h_callbacks (?hs ! i))"
    proof -
      have "j < registered_upto ids (wa_phase y)" using assms(1) j(1) unfolding any_inv_def by linarith
      then show ?thesis using assms(1) open_before True unfolding any_inv_def by blast
    qed
    ultimately have "0 < count_list cbs cb" using done_h by (metis count_list_0_iff gr0I)
    then show ?thesis by simp
  qed
  moreover have "0 \<le> h_remaining h" using f(2) assms(4) by simp
  then have "\<forall>g\<in>set (?hs[i := h]). 0 \<le> h_remaining g" using assms(1) set_update_subset_insert [of ?hs i h] by (auto simp: any_inv_def)
  ultimately show ?thesis using assms(1) cbs mono by (auto simp: any_inv_def)
qed

lemma any_inv_step:
  assumes "any_step cb timed ids y y'" and "any_inv cb ids y"
  shows "any_inv cb ids y'"
  using assms
proof (cases rule: any_step.cases)
  case (register k now h)
  then show ?thesis using any_inv_register assms(2) by blast
next
  case (results i pairs cbs h)
  then show ?thesis using any_inv_results assms(2) by blast
next
  case (poll_next k)
  then show ?thesis using assms(2) by (auto simp: any_inv_def less_Suc_eq)
qed (use assms(2) in \<open>auto simp: any_inv_def\<close>)

lemma any_inv_reach:
  assumes "any_reach cb timed ids y0 y" and "any_inv cb ids y0"
  shows "any_inv cb ids y"
  using assms by (induction rule: any_reach.induct) (auto intro: any_inv_step)

lemma any_inv_start:
  assumes "any_start hs ids = Inr y0" and "\<forall>i\<in>set ids. i < length hs" and "\<forall>h\<in>set hs. 0 \<le> h_remaining h"
  shows "any_inv cb ids y0"
  using assms by (auto simp: any_start_def any_inv_def split: if_splits)

lemma any_reach_trans:
  assumes "any_reach cb timed ids y1 y2" and "any_reach cb timed ids y0 y1"
  shows "any_reach cb timed ids y0 y2"
  using assms by (induction rule: any_reach.induct) (auto intro: any_reach.intros)

lemma any_reach_first: "any_step cb timed ids y0 y1 \<Longrightarrow> any_reach cb timed ids y1 y2 \<Longrightarrow> any_reach cb timed ids y0 y2"
  by (erule any_reach_trans) (blast intro: any_reach.intros)

text \<open>Once a handle of the list is complete, polling from the first handle finds a complete one.\<close>

lemma poll_finds:
  assumes "wa_phase y = Polling k" and "k \<le> j" and "j < length ids" and "handle_done (wa_handles y ! (ids ! j))"
  shows "\<exists>y'. any_reach cb timed ids y y' \<and> (\<exists>i. wa_phase y' = Found i)"
  using assms
proof (induction "j - k" arbitrary: k y rule: less_induct)
  case less
  show ?case
  proof (cases "handle_done (wa_handles y ! (ids ! k))")
    case True
    have "any_step cb timed ids y (y\<lparr>wa_phase := Found (ids ! k)\<rparr>)" using less.prems(1-3) True by (intro poll_done) auto
    then show ?thesis by (intro exI [of _ "y\<lparr>wa_phase := Found (ids ! k)\<rparr>"]) (auto intro: any_reach.intros)
  next
    case False
    let ?y = "y\<lparr>wa_phase := Polling (Suc k)\<rparr>"
    have "k < j" using False less.prems(2,4) by (cases "k = j") auto
    then have "\<exists>y'. any_reach cb timed ids ?y y' \<and> (\<exists>i. wa_phase y' = Found i)"
      using less.prems(3,4) by (intro less.hyps [of "Suc k"]) auto
    moreover have "any_step cb timed ids y ?y" using less.prems False by (intro poll_next) auto
    ultimately show ?thesis using any_reach_first by blast
  qed
qed

text \<open>
  C20. Waiting for any of several handles loses no wake-up: in every state the threads can reach, the
  handle returned is a complete one of the list, and whenever the waiting thread sleeps although some
  handle is complete, its event is set or a callback that will set it has not run yet, so that the
  thread can still go on to return. An empty list is rejected.
\<close>

theorem wait_any_keeps_wakeups:
  assumes "any_start hs ids = Inr y0" and "\<forall>i\<in>set ids. i < length hs" and "\<forall>h\<in>set hs. 0 \<le> h_remaining h"
    and "any_reach cb timed ids y0 y"
  shows "(\<forall>i. wa_phase y = Found i \<longrightarrow> i \<in> set ids \<and> handle_done (wa_handles y ! i)) \<and>
    (wa_phase y = Sleeping \<and> (\<exists>i\<in>set ids. handle_done (wa_handles y ! i)) \<longrightarrow>
      (wa_event y \<or> 0 < wa_pending y) \<and> (\<exists>y'. any_reach cb timed ids y y' \<and> (\<exists>i. wa_phase y' = Found i)))"
proof (intro conjI impI)
  have inv: "any_inv cb ids y" using any_inv_reach [OF assms(4) any_inv_start [OF assms(1-3)]] .
  then show "\<forall>i. wa_phase y = Found i \<longrightarrow> i \<in> set ids \<and> handle_done (wa_handles y ! i)" by (simp add: any_inv_def)
  assume sl: "wa_phase y = Sleeping \<and> (\<exists>i\<in>set ids. handle_done (wa_handles y ! i))"
  then obtain j where j: "j < length ids" "handle_done (wa_handles y ! (ids ! j))" by (auto simp: in_set_conv_nth)
  then show signal: "wa_event y \<or> 0 < wa_pending y" using inv sl by (auto simp: any_inv_def)
  obtain y1 where y1: "any_reach cb timed ids y y1" "wa_phase y1 = Sleeping" "wa_event y1" "wa_handles y1 = wa_handles y"
  proof (cases "wa_event y")
    case True
    then show ?thesis using that [of y] sl by (simp add: any_init)
  next
    case False
    then obtain n where "wa_pending y = Suc n" using signal gr0_conv_Suc by blast
    then have "any_step cb timed ids y (y\<lparr>wa_pending := n, wa_event := True\<rparr>)" by (rule callback)
    then show ?thesis using that [of "y\<lparr>wa_pending := n, wa_event := True\<rparr>"] sl by (auto intro: any_reach.intros)
  qed
  let ?c = "y1\<lparr>wa_phase := Clearing\<rparr>" and ?p = "y1\<lparr>wa_phase := Clearing, wa_event := False, wa_phase := Polling 0\<rparr>"
  have "any_step cb timed ids y1 ?c" using y1 by (intro wake) auto
  moreover have "any_step cb timed ids ?c (?c\<lparr>wa_event := False, wa_phase := Polling 0\<rparr>)" by (rule clear) simp
  moreover obtain y' i where "any_reach cb timed ids (?c\<lparr>wa_event := False, wa_phase := Polling 0\<rparr>) y'" "wa_phase y' = Found i"
    using poll_finds [of "?c\<lparr>wa_event := False, wa_phase := Polling 0\<rparr>" 0 j ids cb timed] j y1(4) by auto
  ultimately show "\<exists>y'. any_reach cb timed ids y y' \<and> (\<exists>i. wa_phase y' = Found i)"
    using y1(1) any_reach_first any_reach_trans by meson
qed

text \<open>
  A handle of one request that completes while the thread sleeps, the callback not run yet.
\<close>

definition open_handle :: io_handle where
  "open_handle = \<lparr>h_results = [None], h_remaining = 1, h_callbacks = []\<rparr>"

definition sleeping_state :: any_state where
  "sleeping_state = \<lparr>wa_handles = [\<lparr>h_results = [Some (Inr 8)], h_remaining = 0, h_callbacks = [7]\<rparr>],
     wa_pending = 1, wa_event = False, wa_phase = Sleeping\<rparr>"

lemma sleeping_reached:
  "any_reach 7 False [0] \<lparr>wa_handles = [open_handle], wa_pending = 0, wa_event = False, wa_phase = Registering 0\<rparr> sleeping_state"
proof -
  let ?h = "\<lparr>h_results = [None], h_remaining = 1, h_callbacks = [7]\<rparr>"
  let ?y = "\<lambda>h n p. \<lparr>wa_handles = [h], wa_pending = n, wa_event = False, wa_phase = p\<rparr>"
  have "any_step 7 False [0] (?y open_handle 0 (Registering 0)) (?y ?h 0 (Registering 1))"
    using any_step.register [of "?y open_handle 0 (Registering 0)" 0 "[0]" 7 False ?h]
    by (simp add: open_handle_def add_done_callback_def)
  moreover have "any_step 7 False [0] (?y ?h 0 (Registering 1)) (?y ?h 0 (Polling 0))"
    using any_step.registered [of "?y ?h 0 (Registering 1)" "[0]" 7 False] by simp
  moreover have "any_step 7 False [0] (?y ?h 0 (Polling 0)) (?y ?h 0 (Polling 1))"
    using any_step.poll_next [of "?y ?h 0 (Polling 0)" 0 "[0]" 7 False] by (simp add: handle_done_def)
  moreover have "any_step 7 False [0] (?y ?h 0 (Polling 1)) (?y ?h 0 Sleeping)"
    using any_step.sleep [of "?y ?h 0 (Polling 1)" "[0]" 7 False] by simp
  moreover have "any_step 7 False [0] (?y ?h 0 Sleeping) sleeping_state"
    using any_step.results [of 0 "?y ?h 0 Sleeping" "[(0, Inr 8)]" "[7]" "\<lparr>h_results = [Some (Inr 8)], h_remaining = 0, h_callbacks = [7]\<rparr>" 7 False "[0]"]
    by (simp add: set_many_def sleeping_state_def)
  ultimately show ?thesis by (meson any_reach.intros)
qed

theorem wait_any_keeps_wakeups_witness:
  "0 < wa_pending sleeping_state \<and> (\<exists>y'. any_reach 7 False [0] sleeping_state y' \<and> (\<exists>i. wa_phase y' = Found i))"
  using wait_any_keeps_wakeups [of "[open_handle]" "[0]" _ 7 False sleeping_state, OF _ _ _ sleeping_reached]
  by (simp add: any_start_def open_handle_def sleeping_state_def handle_done_def)

end
