(* ===== verification/SsdPool.thy ===== *)
theory SsdPool
  imports UmmLib
begin

section \<open>The native SSD pool\<close>

text \<open>
  Model of the part of \<open>umm/src/transport/ssd_pool.c\<close> that the benchmarks call through ctypes: the page
  bitmap, allocation on a device, release, the mapping of pool offsets to devices, and reads and writes
  through the direct back end (\<open>ssd_backend_direct.c\<close>), which accepts whole pages only. The bitmap is a
  list of bits, the contents of the device windows a function, and of the counters those of bytes are
  kept. Operating-system failures other than at opening a device are not modelled.
\<close>

definition UMM_E_INVALID_ARG :: int where "UMM_E_INVALID_ARG = - 1"
definition UMM_E_NO_MEMORY :: int where "UMM_E_NO_MEMORY = - 3"
definition UMM_E_TRANSPORT_ERROR :: int where "UMM_E_TRANSPORT_ERROR = - 7"
definition SSD_POOL_PAGE_SIZE :: int where "SSD_POOL_PAGE_SIZE = 4096"
definition SSD_POOL_MAX_DEVICES :: nat where "SSD_POOL_MAX_DEVICES = 16"

record ssd_device =
  dv_virtual_base :: int
  dv_capacity :: int
  dv_window_base :: int
  dv_read_bytes :: int
  dv_write_bytes :: int

record ssd_pool =
  sp_devices :: "ssd_device list"
  sp_total_capacity :: int
  sp_free_pages :: int
  sp_bitmap :: "bool list"
  sp_disk :: "nat \<Rightarrow> int \<Rightarrow> byte"

definition ssd_pool_create :: "(nat \<Rightarrow> int \<Rightarrow> byte) \<Rightarrow> ssd_pool" where
  "ssd_pool_create disk = \<lparr>sp_devices = [], sp_total_capacity = 0, sp_free_pages = 0, sp_bitmap = [], sp_disk = disk\<rparr>"

subsection \<open>The bitmap\<close>

function bm_scan :: "bool list \<Rightarrow> nat \<Rightarrow> nat \<Rightarrow> nat \<Rightarrow> nat \<Rightarrow> nat \<Rightarrow> nat" where
  "bm_scan bm total_pages npages p found consecutive =
     (if p < total_pages
      then if \<not> bm ! p
        then (let f = (if consecutive = 0 then p else found) in
              if npages \<le> Suc consecutive then f else bm_scan bm total_pages npages (Suc p) f (Suc consecutive))
        else bm_scan bm total_pages npages (Suc p) found 0
      else total_pages)"
  by auto
termination
  by (relation "measure (\<lambda>(bm, total_pages, npages, p, found, consecutive). total_pages - p)") auto

declare bm_scan.simps [simp del]

definition bm_find_free :: "bool list \<Rightarrow> nat \<Rightarrow> nat \<Rightarrow> nat \<Rightarrow> nat" where
  "bm_find_free bm total_pages start npages =
     (if npages = 0 \<or> total_pages \<le> start then total_pages else bm_scan bm total_pages npages start start 0)"

definition page_count :: "int \<Rightarrow> nat" where
  "page_count sz = nat ((sz + SSD_POOL_PAGE_SIZE - 1) div SSD_POOL_PAGE_SIZE)"

definition bm_fill :: "bool \<Rightarrow> nat \<Rightarrow> nat \<Rightarrow> bool list \<Rightarrow> bool list" where
  "bm_fill b page n bm = foldl (\<lambda>bm i. bm[page + i := b]) bm [0..<n]"

subsection \<open>Devices, allocation and release\<close>

text \<open>\<open>opens\<close> is the operating system's answer to opening the window of a device.\<close>

definition ssd_pool_add_device :: "(string \<Rightarrow> int \<Rightarrow> int \<Rightarrow> bool) \<Rightarrow> string \<Rightarrow> int \<Rightarrow> int \<Rightarrow> ssd_pool \<Rightarrow> int \<times> ssd_pool" where
  "ssd_pool_add_device opens path base capacity0 p =
     (let capacity = u64 (capacity0 + SSD_POOL_PAGE_SIZE - 1) div SSD_POOL_PAGE_SIZE * SSD_POOL_PAGE_SIZE in
      if SSD_POOL_MAX_DEVICES \<le> length (sp_devices p) then (UMM_E_NO_MEMORY, p)
      else if capacity = 0 \<or> base < 0 \<or> base mod SSD_POOL_PAGE_SIZE \<noteq> 0 \<or> 2 ^ 63 - 1 < base + capacity \<or> \<not> opens path base capacity
      then (UMM_E_TRANSPORT_ERROR, p)
      else (UMM_OK, p\<lparr>sp_devices := sp_devices p @ [\<lparr>dv_virtual_base = sp_total_capacity p, dv_capacity = capacity, dv_window_base = base,
                        dv_read_bytes = 0, dv_write_bytes = 0\<rparr>],
                      sp_total_capacity := u64 (sp_total_capacity p + capacity),
                      sp_free_pages := sp_free_pages p + capacity div SSD_POOL_PAGE_SIZE,
                      sp_bitmap := sp_bitmap p @ replicate (nat (capacity div SSD_POOL_PAGE_SIZE)) False\<rparr>))"

definition ssd_pool_alloc_on_device :: "int \<Rightarrow> int \<Rightarrow> ssd_pool \<Rightarrow> (int \<times> int) \<times> ssd_pool" where
  "ssd_pool_alloc_on_device dev sz p =
     (if sz = 0 \<or> 2 ^ 64 - SSD_POOL_PAGE_SIZE < sz then ((UMM_E_INVALID_ARG, 0), p)
      else if int (length (sp_devices p)) \<le> dev then ((UMM_E_INVALID_ARG, 0), p)
      else let d = sp_devices p ! nat dev; n = page_count sz; start = nat (dv_virtual_base d div SSD_POOL_PAGE_SIZE);
               pages = nat (dv_capacity d div SSD_POOL_PAGE_SIZE); stop = start + pages in
        if pages < n \<or> sp_free_pages p < int n then ((UMM_E_NO_MEMORY, 0), p)
        else let page = bm_find_free (sp_bitmap p) stop start n in
          if stop \<le> page then ((UMM_E_NO_MEMORY, 0), p)
          else ((UMM_OK, int page * SSD_POOL_PAGE_SIZE),
                p\<lparr>sp_bitmap := bm_fill True page n (sp_bitmap p), sp_free_pages := sp_free_pages p - int n\<rparr>))"

definition ssd_pool_free :: "int \<Rightarrow> int \<Rightarrow> ssd_pool \<Rightarrow> int \<times> ssd_pool" where
  "ssd_pool_free voffset sz p =
     (let start = nat (voffset div SSD_POOL_PAGE_SIZE); n = nat (u64 (sz + SSD_POOL_PAGE_SIZE - 1) div SSD_POOL_PAGE_SIZE) in
      if sz = 0 \<or> sp_total_capacity p \<le> voffset \<or> length (sp_bitmap p) < start + n \<or>
         list_ex (\<lambda>i. \<not> sp_bitmap p ! (start + i)) [0..<n]
      then (UMM_E_INVALID_ARG, p)
      else (UMM_OK, p\<lparr>sp_bitmap := bm_fill False start n (sp_bitmap p), sp_free_pages := sp_free_pages p + int n\<rparr>))"

subsection \<open>Reads and writes\<close>

fun find_device :: "ssd_device list \<Rightarrow> nat \<Rightarrow> int \<Rightarrow> (nat \<times> int) option" where
  "find_device [] i v = None"
| "find_device (d # ds) i v =
     (if dv_virtual_base d \<le> v \<and> v < dv_virtual_base d + dv_capacity d then Some (i, v - dv_virtual_base d)
      else find_device ds (Suc i) v)"

definition ssd_pool_translate :: "ssd_pool \<Rightarrow> int \<Rightarrow> (nat \<times> int) option" where
  "ssd_pool_translate p v = (if sp_total_capacity p \<le> v then None else find_device (sp_devices p) 0 v)"

definition direct_ok :: "ssd_device \<Rightarrow> int \<Rightarrow> int \<Rightarrow> bool" where
  "direct_ok d off len \<longleftrightarrow> \<not> (dv_capacity d < off \<or> dv_capacity d - off < len \<or> off mod SSD_POOL_PAGE_SIZE \<noteq> 0 \<or> len mod SSD_POOL_PAGE_SIZE \<noteq> 0)"

definition ssd_direct_read :: "nat \<Rightarrow> int \<Rightarrow> int \<Rightarrow> ssd_pool \<Rightarrow> int \<times> bytes \<times> ssd_pool" where
  "ssd_direct_read i off len p =
     (let d = sp_devices p ! i in
      if \<not> direct_ok d off len then (UMM_E_INVALID_ARG, [], p)
      else (UMM_OK, map (\<lambda>j. sp_disk p i (off + int j)) [0..<nat len],
            p\<lparr>sp_devices := (sp_devices p)[i := d\<lparr>dv_read_bytes := dv_read_bytes d + len\<rparr>]\<rparr>))"

definition ssd_direct_write :: "nat \<Rightarrow> int \<Rightarrow> bytes \<Rightarrow> ssd_pool \<Rightarrow> int \<times> ssd_pool" where
  "ssd_direct_write i off data p =
     (let d = sp_devices p ! i; len = int (length data) in
      if \<not> direct_ok d off len then (UMM_E_INVALID_ARG, p)
      else (UMM_OK, p\<lparr>sp_disk := (sp_disk p)(i := \<lambda>a. if off \<le> a \<and> a < off + len then data ! nat (a - off) else sp_disk p i a),
                      sp_devices := (sp_devices p)[i := d\<lparr>dv_write_bytes := dv_write_bytes d + len\<rparr>]\<rparr>))"

definition device_room :: "ssd_pool \<Rightarrow> nat \<Rightarrow> int \<Rightarrow> int \<Rightarrow> int" where
  "device_room p i cur stop = min (stop - cur) (dv_virtual_base (sp_devices p ! i) + dv_capacity (sp_devices p ! i) - cur)"

lemma find_device_range:
  "find_device ds i v = Some (j, off) \<Longrightarrow>
     i \<le> j \<and> j < i + length ds \<and> dv_virtual_base (ds ! (j - i)) \<le> v \<and> v < dv_virtual_base (ds ! (j - i)) + dv_capacity (ds ! (j - i)) \<and>
     off = v - dv_virtual_base (ds ! (j - i))"
proof (induction ds arbitrary: i)
  case (Cons d ds)
  show ?case
  proof (cases "dv_virtual_base d \<le> v \<and> v < dv_virtual_base d + dv_capacity d")
    case True
    then show ?thesis using Cons.prems by auto
  next
    case False
    then have "find_device ds (Suc i) v = Some (j, off)" using Cons.prems by auto
    note r = Cons.IH [OF this]
    then have "(d # ds) ! (j - i) = ds ! (j - Suc i)" by (simp add: nth_Cons')
    then show ?thesis using r by simp
  qed
qed simp

lemma translate_room:
  assumes "ssd_pool_translate p cur = Some (i, off)" and "cur < stop"
  shows "0 < device_room p i cur stop"
  using assms find_device_range [of "sp_devices p" 0 cur i off] by (auto simp: ssd_pool_translate_def device_room_def split: if_splits)

function pread_loop :: "int \<Rightarrow> int \<Rightarrow> ssd_pool \<Rightarrow> int \<times> bytes \<times> ssd_pool" where
  "pread_loop cur stop p =
     (if cur < stop
      then (case ssd_pool_translate p cur of
              None \<Rightarrow> (UMM_E_INVALID_ARG, [], p)
            | Some (i, off) \<Rightarrow>
                let chunk = device_room p i cur stop in
                case ssd_direct_read i off chunk p of (rc, data, p1) \<Rightarrow>
                  if rc \<noteq> UMM_OK then (rc, data, p1)
                  else (case pread_loop (cur + chunk) stop p1 of (rc', rest, p2) \<Rightarrow> (rc', data @ rest, p2)))
      else (UMM_OK, [], p))"
  by auto
termination
  by (relation "measure (\<lambda>(cur, stop, p). nat (stop - cur))") (auto dest: translate_room)

function pwrite_loop :: "int \<Rightarrow> bytes \<Rightarrow> ssd_pool \<Rightarrow> int \<times> ssd_pool" where
  "pwrite_loop cur data p =
     (if data \<noteq> []
      then (case ssd_pool_translate p cur of
              None \<Rightarrow> (UMM_E_INVALID_ARG, p)
            | Some (i, off) \<Rightarrow>
                let chunk = nat (device_room p i cur (cur + int (length data))) in
                case ssd_direct_write i off (take chunk data) p of (rc, p1) \<Rightarrow>
                  if rc \<noteq> UMM_OK then (rc, p1) else pwrite_loop (cur + int chunk) (drop chunk data) p1)
      else (UMM_OK, p))"
  by auto
termination
proof (relation "measure (\<lambda>(cur, data, p). length data)", goal_cases)
  case (2 cur data p x i off chunk)
  then have "0 < device_room p i cur (cur + int (length data))" by (intro translate_room) auto
  then show ?case using 2 by simp
qed simp

declare pread_loop.simps [simp del] pwrite_loop.simps [simp del]

definition ssd_pool_pread :: "int \<Rightarrow> int \<Rightarrow> ssd_pool \<Rightarrow> int \<times> bytes \<times> ssd_pool" where
  "ssd_pool_pread voffset len p =
     (if sp_total_capacity p < u64 (voffset + len) then (UMM_E_INVALID_ARG, [], p) else pread_loop voffset (u64 (voffset + len)) p)"

definition ssd_pool_pwrite :: "int \<Rightarrow> bytes \<Rightarrow> ssd_pool \<Rightarrow> int \<times> ssd_pool" where
  "ssd_pool_pwrite voffset data p =
     (if sp_total_capacity p < u64 (voffset + int (length data)) then (UMM_E_INVALID_ARG, p)
      else if u64 (voffset + int (length data)) \<le> voffset then (UMM_OK, p) else pwrite_loop voffset data p)"

text \<open>Flushing changes nothing that a reader sees.\<close>

function sync_loop :: "int \<Rightarrow> int \<Rightarrow> ssd_pool \<Rightarrow> int" where
  "sync_loop cur stop p =
     (if cur < stop
      then (case ssd_pool_translate p cur of None \<Rightarrow> UMM_E_INVALID_ARG | Some (i, off) \<Rightarrow> sync_loop (cur + device_room p i cur stop) stop p)
      else UMM_OK)"
  by auto
termination
  by (relation "measure (\<lambda>(cur, stop, p). nat (stop - cur))") (auto dest: translate_room)

declare sync_loop.simps [simp del]

definition ssd_pool_sync :: "int \<Rightarrow> int \<Rightarrow> ssd_pool \<Rightarrow> int" where
  "ssd_pool_sync voffset sz p =
     (if sz = 0 then UMM_E_INVALID_ARG else sync_loop voffset (min (u64 (voffset + sz)) (sp_total_capacity p)) p)"

subsection \<open>What the bitmap allocates\<close>

lemma bm_scan_ok:
  assumes "bm_scan bm total_pages npages p found consecutive = f" and "f < total_pages"
    and "consecutive < npages" and "lo \<le> p"
    and "0 < consecutive \<Longrightarrow> lo \<le> found \<and> found + consecutive = p \<and> (\<forall>i. found \<le> i \<and> i < p \<longrightarrow> \<not> bm ! i)"
  shows "lo \<le> f \<and> f + npages \<le> total_pages \<and> (\<forall>i. f \<le> i \<and> i < f + npages \<longrightarrow> \<not> bm ! i)"
  using assms
proof (induction bm total_pages npages p found consecutive rule: bm_scan.induct)
  case (1 bm total_pages npages p found consecutive)
  let ?f = "if consecutive = 0 then p else found"
  have p: "p < total_pages" using "1.prems"(1,2) by (subst (asm) bm_scan.simps) (auto split: if_splits)
  show ?case
  proof (cases "bm ! p")
    case True
    then show ?thesis using "1.IH"(2) [OF p] "1.prems" p by (simp add: bm_scan.simps [of _ _ _ p])
  next
    case False
    have run: "lo \<le> ?f \<and> ?f + Suc consecutive = Suc p \<and> (\<forall>i. ?f \<le> i \<and> i < Suc p \<longrightarrow> \<not> bm ! i)"
      using "1.prems"(4,5) False by (auto simp: less_Suc_eq)
    show ?thesis
    proof (cases "npages \<le> Suc consecutive")
      case True
      then have "f = ?f" "npages = Suc consecutive" using "1.prems"(1,3) False p by (simp_all add: bm_scan.simps [of _ _ _ p] Let_def)
      then show ?thesis using run p by auto
    next
      case npg: False
      then have "bm_scan bm total_pages npages (Suc p) ?f (Suc consecutive) = f"
        using "1.prems"(1) False p by (simp add: bm_scan.simps [of _ _ _ p] Let_def)
      then show ?thesis using "1.IH"(1) [OF p False refl npg] "1.prems"(2,4) npg run by simp
    qed
  qed
qed

lemma bm_find_free_ok:
  assumes "bm_find_free bm total_pages start npages < total_pages"
  shows "start \<le> bm_find_free bm total_pages start npages \<and> bm_find_free bm total_pages start npages + npages \<le> total_pages \<and> 0 < npages \<and>
    (\<forall>i. bm_find_free bm total_pages start npages \<le> i \<and> i < bm_find_free bm total_pages start npages + npages \<longrightarrow> \<not> bm ! i)"
proof -
  have n: "0 < npages" "bm_find_free bm total_pages start npages = bm_scan bm total_pages npages start start 0"
    using assms by (auto simp: bm_find_free_def split: if_splits)
  then show ?thesis using bm_scan_ok [of bm total_pages npages start start 0 _ start, OF refl] assms by simp
qed

lemma bm_fill_ok:
  shows "length (bm_fill b page n bm) = length bm"
    and "page + n \<le> length bm \<Longrightarrow> bm_fill b page n bm ! i = (if page \<le> i \<and> i < page + n then b else bm ! i)"
proof -
  show len: "length (bm_fill b page n bm) = length bm" for n by (induction n) (auto simp: bm_fill_def)
  show "page + n \<le> length bm \<Longrightarrow> bm_fill b page n bm ! i = (if page \<le> i \<and> i < page + n then b else bm ! i)"
  proof (induction n)
    case (Suc n)
    have "bm_fill b page (Suc n) bm = (bm_fill b page n bm)[page + n := b]" by (simp add: bm_fill_def)
    then show ?case using Suc len [of n] by (auto simp: nth_list_update)
  qed (auto simp: bm_fill_def)
qed

subsection \<open>Addresses\<close>

definition dv_shape :: "ssd_device \<Rightarrow> int \<times> int \<times> int" where
  "dv_shape d = (dv_virtual_base d, dv_capacity d, dv_window_base d)"

definition same_shape :: "ssd_pool \<Rightarrow> ssd_pool \<Rightarrow> bool" where
  "same_shape p q \<longleftrightarrow> map dv_shape (sp_devices q) = map dv_shape (sp_devices p) \<and> sp_total_capacity q = sp_total_capacity p \<and>
     length (sp_bitmap q) = length (sp_bitmap p)"

definition pool_ok :: "ssd_pool \<Rightarrow> bool" where
  "pool_ok p \<longleftrightarrow>
     (\<forall>i < length (sp_devices p). 0 < dv_capacity (sp_devices p ! i) \<and> 4096 dvd dv_capacity (sp_devices p ! i) \<and>
        dv_virtual_base (sp_devices p ! i) = sum_list (map dv_capacity (take i (sp_devices p)))) \<and>
     sp_total_capacity p = sum_list (map dv_capacity (sp_devices p)) \<and> sp_total_capacity p < 2 ^ 64 \<and>
     int (length (sp_bitmap p)) * 4096 = sp_total_capacity p"

lemma same_shape_refl [simp]: "same_shape p p"
  by (simp add: same_shape_def)

lemma same_shape_trans: "same_shape p q \<Longrightarrow> same_shape q r \<Longrightarrow> same_shape p r"
  by (simp add: same_shape_def)

lemma shape_fields:
  assumes "map dv_shape ds' = map dv_shape ds"
  shows "length ds' = length ds" and "map dv_capacity (take i ds') = map dv_capacity (take i ds)"
    and "i < length ds \<Longrightarrow> dv_virtual_base (ds' ! i) = dv_virtual_base (ds ! i) \<and> dv_capacity (ds' ! i) = dv_capacity (ds ! i) \<and>
      dv_window_base (ds' ! i) = dv_window_base (ds ! i)"
proof -
  show len: "length ds' = length ds" using assms by (metis length_map)
  show "i < length ds \<Longrightarrow> dv_virtual_base (ds' ! i) = dv_virtual_base (ds ! i) \<and> dv_capacity (ds' ! i) = dv_capacity (ds ! i) \<and>
      dv_window_base (ds' ! i) = dv_window_base (ds ! i)"
    using arg_cong [OF assms, of "\<lambda>xs. xs ! i"] len by (simp add: dv_shape_def)
  have "map (\<lambda>x. fst (snd x)) (take i (map dv_shape ds')) = map (\<lambda>x. fst (snd x)) (take i (map dv_shape ds))" by (simp only: assms)
  then show "map dv_capacity (take i ds') = map dv_capacity (take i ds)" by (simp add: dv_shape_def comp_def take_map)
qed

lemma same_shape_length: "same_shape p q \<Longrightarrow> length (sp_devices q) = length (sp_devices p)"
  unfolding same_shape_def by (blast dest: shape_fields(1))

lemma find_device_shape:
  assumes "map dv_shape ds' = map dv_shape ds"
  shows "find_device ds' i v = find_device ds i v"
  using assms
proof (induction ds arbitrary: ds' i)
  case (Cons d ds)
  then obtain d' ds'' where "ds' = d' # ds''" "dv_shape d' = dv_shape d" "map dv_shape ds'' = map dv_shape ds" by auto
  then show ?case using Cons.IH [of ds'' "Suc i"] by (simp add: dv_shape_def [of d] dv_shape_def [of d'])
qed simp

lemma same_shape_ok:
  assumes "same_shape p q"
  shows "pool_ok q = pool_ok p" and "ssd_pool_translate q = ssd_pool_translate p"
proof -
  have d: "map dv_shape (sp_devices q) = map dv_shape (sp_devices p)" and o: "sp_total_capacity q = sp_total_capacity p"
    "length (sp_bitmap q) = length (sp_bitmap p)" using assms by (auto simp: same_shape_def)
  note f = shape_fields [OF d]
  have "map dv_capacity (sp_devices q) = map dv_capacity (sp_devices p)" using f(2) [of "length (sp_devices p)"] f(1) by simp
  then show "pool_ok q = pool_ok p" using f o by (auto simp: pool_ok_def)
  show "ssd_pool_translate q = ssd_pool_translate p"
    using find_device_shape [OF d] o by (auto simp: ssd_pool_translate_def fun_eq_iff)
qed

lemma device_bounds:
  assumes "pool_ok p" and "i < length (sp_devices p)"
  shows "0 \<le> dv_virtual_base (sp_devices p ! i)" and "4096 dvd dv_virtual_base (sp_devices p ! i)"
    and "dv_virtual_base (sp_devices p ! i) + dv_capacity (sp_devices p ! i) \<le> sp_total_capacity p"
    and "j < i \<Longrightarrow> dv_virtual_base (sp_devices p ! j) + dv_capacity (sp_devices p ! j) \<le> dv_virtual_base (sp_devices p ! i)"
proof -
  let ?ds = "sp_devices p"
  let ?c = "map dv_capacity ?ds"
  have pos: "\<forall>c \<in> set ?c. 0 \<le> c \<and> 4096 dvd c" using assms(1) by (auto simp: pool_ok_def in_set_conv_nth less_imp_le)
  have part: "sum_list (take m ?c) \<le> sum_list (take n ?c)" if "m \<le> n" for m n
  proof -
    have "take n ?c = take m ?c @ drop m (take n ?c)" using that by (metis append_take_drop_id min.absorb1 take_take)
    moreover have "0 \<le> sum_list (drop m (take n ?c))" using pos in_set_dropD [of _ m "take n ?c"] in_set_takeD [of _ n ?c]
      by (intro sum_list_nonneg) blast
    ultimately show ?thesis by (metis le_add_same_cancel1 sum_list_append)
  qed
  have vb: "dv_virtual_base (?ds ! k) = sum_list (take k ?c)" "dv_virtual_base (?ds ! k) + dv_capacity (?ds ! k) = sum_list (take (Suc k) ?c)" if "k < length ?ds" for k
    using assms(1) that by (auto simp: pool_ok_def take_map take_Suc_conv_app_nth)
  show "0 \<le> dv_virtual_base (?ds ! i)" using part [of 0 i] vb(1) [OF assms(2)] by simp
  have "\<forall>c \<in> set (take i ?c). 4096 dvd c" using pos in_set_takeD [of _ i ?c] by blast
  moreover have "\<forall>c \<in> set xs. 4096 dvd c \<Longrightarrow> 4096 dvd sum_list xs" for xs :: "int list" by (induction xs) auto
  ultimately have "4096 dvd sum_list (take i ?c)" by blast
  then show "4096 dvd dv_virtual_base (?ds ! i)" using vb(1) [OF assms(2)] by simp
  show "dv_virtual_base (?ds ! i) + dv_capacity (?ds ! i) \<le> sp_total_capacity p"
    using part [of "Suc i" "length ?c"] vb(2) [OF assms(2)] assms by (simp add: pool_ok_def)
  show "j < i \<Longrightarrow> dv_virtual_base (?ds ! j) + dv_capacity (?ds ! j) \<le> dv_virtual_base (?ds ! i)"
    using part [of "Suc j" i] vb [of j] vb(1) [OF assms(2)] assms(2) by simp
qed

lemma find_device_some:
  assumes "i < length ds" and "dv_virtual_base (ds ! i) \<le> v" and "v < dv_virtual_base (ds ! i) + dv_capacity (ds ! i)"
  shows "\<exists>j \<le> i. find_device ds k v = Some (k + j, v - dv_virtual_base (ds ! j)) \<and> v < dv_virtual_base (ds ! j) + dv_capacity (ds ! j)"
  using assms
proof (induction ds arbitrary: i k)
  case (Cons d ds)
  show ?case
  proof (cases "dv_virtual_base d \<le> v \<and> v < dv_virtual_base d + dv_capacity d")
    case False
    then obtain i' where i': "i = Suc i'" using Cons.prems by (cases i) auto
    then obtain j where "j \<le> i'" "find_device ds (Suc k) v = Some (Suc k + j, v - dv_virtual_base (ds ! j))"
      "v < dv_virtual_base (ds ! j) + dv_capacity (ds ! j)" using Cons.IH [of i' "Suc k"] Cons.prems by auto
    then show ?thesis using False i' by (intro exI [of _ "Suc j"]) auto
  qed (intro exI [of _ 0]; simp)
qed simp

text \<open>A device that holds an address is the one \<open>ssd_pool_translate\<close> finds.\<close>

lemma translate_device:
  assumes "pool_ok p" and "i < length (sp_devices p)" and "dv_virtual_base (sp_devices p ! i) \<le> v"
    and "v < dv_virtual_base (sp_devices p ! i) + dv_capacity (sp_devices p ! i)"
  shows "ssd_pool_translate p v = Some (i, v - dv_virtual_base (sp_devices p ! i))"
proof -
  from find_device_some [OF assms(2-4), of 0] obtain j where
    j: "j \<le> i" "find_device (sp_devices p) 0 v = Some (j, v - dv_virtual_base (sp_devices p ! j))"
      "v < dv_virtual_base (sp_devices p ! j) + dv_capacity (sp_devices p ! j)" by auto
  have "\<not> j < i" using device_bounds(4) [OF assms(1,2), of j] j(3) assms(3) by auto
  then have "j = i" using j(1) by simp
  moreover have "v < sp_total_capacity p" using device_bounds(3) [OF assms(1,2)] assms(4) by simp
  ultimately show ?thesis using j(2) by (simp add: ssd_pool_translate_def)
qed

definition pool_byte :: "ssd_pool \<Rightarrow> int \<Rightarrow> byte" where
  "pool_byte p v = (case ssd_pool_translate p v of None \<Rightarrow> 0 | Some (i, off) \<Rightarrow> sp_disk p i off)"

definition pool_bytes :: "ssd_pool \<Rightarrow> int \<Rightarrow> nat \<Rightarrow> bytes" where
  "pool_bytes p v n = map (\<lambda>j. pool_byte p (v + int j)) [0..<n]"

lemma pool_bytes_frame:
  assumes "same_shape p q" and "sp_disk q = sp_disk p"
  shows "pool_bytes q = pool_bytes p"
  unfolding pool_bytes_def [abs_def] pool_byte_def [abs_def] same_shape_ok(2) [OF assms(1)] assms(2) ..

text \<open>A range of whole pages inside one device.\<close>

definition page_range :: "ssd_pool \<Rightarrow> nat \<Rightarrow> int \<Rightarrow> int \<Rightarrow> bool" where
  "page_range p i v len \<longleftrightarrow> i < length (sp_devices p) \<and> dv_virtual_base (sp_devices p ! i) \<le> v \<and> 0 \<le> len \<and>
     v + len \<le> dv_virtual_base (sp_devices p ! i) + dv_capacity (sp_devices p ! i) \<and> 4096 dvd v \<and> 4096 dvd len"

lemma page_range_facts:
  assumes "pool_ok p" and "page_range p i v len"
  shows "0 \<le> v" and "v + len \<le> sp_total_capacity p" and "u64 (v + len) = v + len" and "u64 v = v"
    and "direct_ok (sp_devices p ! i) (v - dv_virtual_base (sp_devices p ! i)) len"
    and "0 < len \<Longrightarrow> ssd_pool_translate p v = Some (i, v - dv_virtual_base (sp_devices p ! i))"
    and "0 < len \<Longrightarrow> device_room p i v (v + len) = len"
proof -
  note r = assms(2) [unfolded page_range_def]
  note b = device_bounds [OF assms(1) conjunct1 [OF r]]
  show 0: "0 \<le> v" and t: "v + len \<le> sp_total_capacity p" using b r by linarith+
  have "sp_total_capacity p < 2 ^ 64" using assms(1) by (simp add: pool_ok_def)
  then show "u64 (v + len) = v + len" "u64 v = v" using 0 t r by (auto simp: u64_def)
  have "4096 dvd v - dv_virtual_base (sp_devices p ! i)" using r b(2) by simp
  then show "direct_ok (sp_devices p ! i) (v - dv_virtual_base (sp_devices p ! i)) len"
    using r by (auto simp: direct_ok_def SSD_POOL_PAGE_SIZE_def mod_eq_0_iff_dvd)
  show "0 < len \<Longrightarrow> ssd_pool_translate p v = Some (i, v - dv_virtual_base (sp_devices p ! i))"
    using r by (intro translate_device [OF assms(1)]) auto
  show "0 < len \<Longrightarrow> device_room p i v (v + len) = len" using r by (simp add: device_room_def)
qed

definition bump_read :: "nat \<Rightarrow> int \<Rightarrow> ssd_pool \<Rightarrow> ssd_pool" where
  "bump_read i len p = p\<lparr>sp_devices := (sp_devices p)[i := (sp_devices p ! i)\<lparr>dv_read_bytes := dv_read_bytes (sp_devices p ! i) + len\<rparr>]\<rparr>"

lemma bump_read_shape: "same_shape p (bump_read i len p)"
proof -
  have "dv_shape (d\<lparr>dv_read_bytes := x\<rparr>) = dv_shape d" for d x by (simp add: dv_shape_def)
  then show ?thesis by (cases "i < length (sp_devices p)") (auto simp: same_shape_def bump_read_def map_update list_update_same_conv list_update_beyond)
qed

lemma pool_byte_device:
  assumes "pool_ok p" and "page_range p i v len" and "v \<le> a" and "a < v + len"
  shows "pool_byte p a = sp_disk p i (a - dv_virtual_base (sp_devices p ! i))"
  using translate_device [OF assms(1), of i a] assms(2-4) by (auto simp: pool_byte_def page_range_def)

lemma pread_ok:
  assumes "pool_ok p" and "page_range p i v len"
  shows "ssd_pool_pread v len p = (UMM_OK, pool_bytes p v (nat len), if len = 0 then p else bump_read i len p)"
proof -
  note f = page_range_facts [OF assms]
  show ?thesis
  proof (cases "len = 0")
    case True
    then show ?thesis using f(2,4) by (simp add: ssd_pool_pread_def pread_loop.simps pool_bytes_def)
  next
    case False
    then have len: "0 < len" using assms(2) by (simp add: page_range_def)
    have "map (\<lambda>j. sp_disk p i (v - dv_virtual_base (sp_devices p ! i) + int j)) [0..<nat len] = pool_bytes p v (nat len)"
      using pool_byte_device [OF assms] by (auto simp: pool_bytes_def algebra_simps)
    then have "ssd_direct_read i (v - dv_virtual_base (sp_devices p ! i)) len p = (UMM_OK, pool_bytes p v (nat len), bump_read i len p)"
      using f(5) by (simp add: ssd_direct_read_def bump_read_def Let_def)
    then have "pread_loop v (v + len) p = (UMM_OK, pool_bytes p v (nat len), bump_read i len p)"
      using f(6,7) len by (simp add: pread_loop.simps [of v] pread_loop.simps [of "v + len"] Let_def)
    then show ?thesis using f(2,3) False by (simp add: ssd_pool_pread_def)
  qed
qed

definition put_bytes :: "nat \<Rightarrow> int \<Rightarrow> bytes \<Rightarrow> ssd_pool \<Rightarrow> ssd_pool" where
  "put_bytes i v data p =
     (let d = sp_devices p ! i; off = v - dv_virtual_base d in
      p\<lparr>sp_disk := (sp_disk p)(i := \<lambda>a. if off \<le> a \<and> a < off + int (length data) then data ! nat (a - off) else sp_disk p i a),
        sp_devices := (sp_devices p)[i := d\<lparr>dv_write_bytes := dv_write_bytes d + int (length data)\<rparr>]\<rparr>)"

lemma put_bytes_shape: "same_shape p (put_bytes i v data p)"
proof -
  have "dv_shape (d\<lparr>dv_write_bytes := x\<rparr>) = dv_shape d" for d x by (simp add: dv_shape_def)
  then show ?thesis by (cases "i < length (sp_devices p)") (auto simp: same_shape_def put_bytes_def Let_def map_update list_update_same_conv list_update_beyond)
qed

lemma pwrite_ok:
  assumes "pool_ok p" and "page_range p i v (int (length data))"
  shows "ssd_pool_pwrite v data p = (UMM_OK, if data = [] then p else put_bytes i v data p)"
proof -
  note f = page_range_facts [OF assms]
  show ?thesis
  proof (cases "data = []")
    case True
    then show ?thesis using f(2,4) by (simp add: ssd_pool_pwrite_def)
  next
    case False
    then have len: "0 < int (length data)" by simp
    have "ssd_direct_write i (v - dv_virtual_base (sp_devices p ! i)) data p = (UMM_OK, put_bytes i v data p)"
      using f(5) by (simp add: ssd_direct_write_def put_bytes_def Let_def)
    then have "pwrite_loop v data p = (UMM_OK, put_bytes i v data p)"
      using f(6,7) len False by (simp add: pwrite_loop.simps [of v] pwrite_loop.simps [of _ "[]"] Let_def)
    then show ?thesis using f(1,2,3) False by (simp add: ssd_pool_pwrite_def)
  qed
qed

lemma put_bytes_byte:
  assumes "pool_ok p" and "page_range p i v (int (length data))"
  shows "pool_byte (put_bytes i v data p) a = (if v \<le> a \<and> a < v + int (length data) then data ! nat (a - v) else pool_byte p a)"
proof -
  let ?q = "put_bytes i v data p" and ?vb = "dv_virtual_base (sp_devices p ! i)"
  have tr: "ssd_pool_translate ?q = ssd_pool_translate p" using same_shape_ok(2) [OF put_bytes_shape] .
  show ?thesis
  proof (cases "v \<le> a \<and> a < v + int (length data)")
    case True
    have "ssd_pool_translate p a = Some (i, a - ?vb)"
      using translate_device [OF assms(1), of i a] assms(2) True by (auto simp: page_range_def)
    then have "pool_byte ?q a = sp_disk ?q i (a - ?vb)" by (simp add: pool_byte_def tr)
    then show ?thesis using True by (simp add: put_bytes_def Let_def)
  next
    case False
    have "sp_disk ?q j off = sp_disk p j off" if "ssd_pool_translate p a = Some (j, off)" for j off
    proof -
      have "j < length (sp_devices p)" "off = a - dv_virtual_base (sp_devices p ! j)"
        using that find_device_range [of "sp_devices p" 0 a j off] by (auto simp: ssd_pool_translate_def split: if_splits)
      then show ?thesis using False by (cases "j = i") (auto simp: put_bytes_def Let_def)
    qed
    then show ?thesis using False by (auto simp: pool_byte_def tr split: option.splits)
  qed
qed

subsection \<open>Extents\<close>

definition pages_of :: "int \<Rightarrow> int \<Rightarrow> nat set" where
  "pages_of off sz = {nat (off div 4096)..<nat (off div 4096) + page_count sz}"

definition extent_ok :: "ssd_pool \<Rightarrow> int \<Rightarrow> int \<Rightarrow> bool" where
  "extent_ok p off sz \<longleftrightarrow> 0 < sz \<and> sz < 2 ^ 64 \<and> 4096 dvd off \<and>
     (\<exists>i < length (sp_devices p). dv_virtual_base (sp_devices p ! i) \<le> off \<and>
        off + int (page_count sz) * 4096 \<le> dv_virtual_base (sp_devices p ! i) + dv_capacity (sp_devices p ! i)) \<and>
     (\<forall>k \<in> pages_of off sz. sp_bitmap p ! k)"

lemma page_count_bounds:
  assumes "0 \<le> sz"
  shows "sz \<le> int (page_count sz) * 4096"
proof -
  have "0 \<le> (sz + 4095) div 4096" using assms by simp
  moreover have "sz \<le> (sz + 4095) div 4096 * 4096"
    using div_mult_mod_eq [of "sz + 4095" 4096] pos_mod_bound [of 4096 "sz + 4095"] by linarith
  moreover have "page_count sz = nat ((sz + 4095) div 4096)" by (simp add: page_count_def SSD_POOL_PAGE_SIZE_def add.commute)
  ultimately show ?thesis by (simp only: int_nat_eq if_True)
qed

text \<open>Arithmetic on pages, stated without division.\<close>

lemma page_less: "c * 4096 \<le> a \<Longrightarrow> a < 4096 * n \<Longrightarrow> c < (n :: int)"
  by linarith

lemma page_le: "c * 4096 \<le> n * 4096 \<Longrightarrow> c \<le> (n :: int)"
  by linarith

lemma page_floor:
  obtains "a div 4096 * 4096 \<le> (a :: int)" "a < a div 4096 * 4096 + 4096"
  using div_mult_mod_eq [of a 4096] pos_mod_bound [of 4096 a] pos_mod_sign [of 4096 a] by linarith

lemma extent_page:
  assumes "pool_ok p" and "extent_ok p off sz" and "off \<le> a" and "a < off + sz"
  shows "nat (a div 4096) \<in> pages_of off sz"
proof -
  obtain i where i: "i < length (sp_devices p)" "dv_virtual_base (sp_devices p ! i) \<le> off" using assms(2) by (auto simp: extent_ok_def)
  have o: "0 \<le> off" "4096 dvd off" "0 < sz" using device_bounds(1) [OF assms(1) i(1)] i(2) assms(2) by (auto simp: extent_ok_def)
  then obtain k where k: "off = 4096 * k" "0 \<le> k" by (auto elim!: dvdE)
  have "a < 4096 * (k + int (page_count sz))" using page_count_bounds [of sz] assms(4) o(3) k by simp
  moreover obtain c where c: "c = a div 4096" "c * 4096 \<le> a" "a < c * 4096 + 4096" by (metis page_floor)
  ultimately have "c < k + int (page_count sz)" by (blast intro: page_less)
  moreover have "k * 4096 < (c + 1) * 4096" using assms(3) k(1) c(3) by (simp only: distrib_right mult.commute [of 4096] mult_1)
  then have "k \<le> c" by (simp only: mult_less_cancel_right) simp
  ultimately have "nat c \<in> {nat k..<nat k + page_count sz}" using k(2) by auto
  moreover have "off div 4096 = k" using k(1) by simp
  ultimately show ?thesis by (simp add: pages_of_def c(1))
qed

lemma extents_apart:
  assumes "pool_ok p" and "extent_ok p off sz" and "extent_ok p off' sz'" and "pages_of off sz \<inter> pages_of off' sz' = {}"
    and "off \<le> a" and "a < off + sz" and "off' \<le> b" and "b < off' + sz'"
  shows "a \<noteq> b"
  using extent_page [OF assms(1,2,5,6)] extent_page [OF assms(1,3,7,8)] assms(4) by auto

lemma extent_shape:
  assumes "same_shape p q" and "\<forall>k \<in> pages_of off sz. sp_bitmap p ! k \<longrightarrow> sp_bitmap q ! k" and "extent_ok p off sz"
  shows "extent_ok q off sz"
proof -
  have "map dv_shape (sp_devices q) = map dv_shape (sp_devices p)" using assms(1) by (simp add: same_shape_def)
  note f = shape_fields [OF this]
  show ?thesis using assms(2,3) f(1,3) unfolding extent_ok_def by fastforce
qed

lemma extent_range:
  assumes "extent_ok p off sz" and "0 \<le> o'" and "0 \<le> len" and "o' + len \<le> sz" and "4096 dvd o'" and "4096 dvd len"
  obtains i where "page_range p i (off + o') len"
proof -
  obtain i where i: "i < length (sp_devices p)" "dv_virtual_base (sp_devices p ! i) \<le> off"
    "off + int (page_count sz) * 4096 \<le> dv_virtual_base (sp_devices p ! i) + dv_capacity (sp_devices p ! i)" and o: "0 < sz" "4096 dvd off"
    using assms(1) by (auto simp: extent_ok_def)
  then have "page_range p i (off + o') len" using assms(2-6) page_count_bounds [of sz] by (auto simp: page_range_def)
  then show ?thesis by (rule that)
qed

lemma alloc_on_device_ok:
  assumes "pool_ok p" and "0 \<le> sz" and "sz < 2 ^ 64" and "ssd_pool_alloc_on_device dev sz p = ((UMM_OK, off), q)" and "0 \<le> dev"
  shows "same_shape p q \<and> sp_disk q = sp_disk p \<and> extent_ok q off sz \<and> 0 \<le> off \<and> off < 2 ^ 64 \<and>
    (\<forall>k \<in> pages_of off sz. \<not> sp_bitmap p ! k) \<and> (\<forall>k. k \<notin> pages_of off sz \<longrightarrow> sp_bitmap q ! k = sp_bitmap p ! k)"
proof -
  let ?d = "sp_devices p ! nat dev" and ?n = "page_count sz"
  let ?start = "nat (dv_virtual_base ?d div 4096)"
  let ?stop = "?start + nat (dv_capacity ?d div 4096)"
  define page where "page = bm_find_free (sp_bitmap p) ?stop ?start ?n"
  have codes: "UMM_E_INVALID_ARG \<noteq> UMM_OK" "UMM_E_NO_MEMORY \<noteq> UMM_OK" by (simp_all add: UMM_OK_def UMM_E_INVALID_ARG_def UMM_E_NO_MEMORY_def)
  have "sz \<noteq> 0 \<and> \<not> int (length (sp_devices p)) \<le> dev \<and> \<not> ?stop \<le> page \<and> off = int page * SSD_POOL_PAGE_SIZE \<and>
      q = p\<lparr>sp_bitmap := bm_fill True page ?n (sp_bitmap p), sp_free_pages := sp_free_pages p - int ?n\<rparr>"
    using assms(4) codes unfolding ssd_pool_alloc_on_device_def Let_def page_def SSD_POOL_PAGE_SIZE_def
    by (simp only: prod.inject simp_thms split: if_splits) metis
  then have a: "0 < sz" "dev < int (length (sp_devices p))" "page < ?stop" "off = int page * 4096"
    and q: "q = p\<lparr>sp_bitmap := bm_fill True page ?n (sp_bitmap p), sp_free_pages := sp_free_pages p - int ?n\<rparr>"
    using assms(2) by (simp_all add: SSD_POOL_PAGE_SIZE_def)
  have dev: "nat dev < length (sp_devices p)" using a(2) assms(5) by linarith
  note b = device_bounds [OF assms(1) dev]
  have cap: "4096 dvd dv_capacity ?d" "0 < dv_capacity ?d" "int (length (sp_bitmap p)) * 4096 = sp_total_capacity p" "sp_total_capacity p < 2 ^ 64"
    using assms(1) dev by (auto simp: pool_ok_def)
  have vb: "dv_virtual_base ?d div 4096 * 4096 = dv_virtual_base ?d" "dv_capacity ?d div 4096 * 4096 = dv_capacity ?d"
    using b(2) cap(1) by simp_all
  have pos: "0 \<le> dv_virtual_base ?d div 4096" "0 \<le> dv_capacity ?d div 4096" using b(1) cap(2) by simp_all
  have start: "int ?start * 4096 = dv_virtual_base ?d" using vb(1) pos(1) by simp
  have stop: "int ?stop * 4096 = dv_virtual_base ?d + dv_capacity ?d" using vb pos by (simp add: distrib_right)
  have f: "?start \<le> page" "page + ?n \<le> ?stop" "\<forall>i. page \<le> i \<and> i < page + ?n \<longrightarrow> \<not> sp_bitmap p ! i"
    using bm_find_free_ok [of "sp_bitmap p" ?stop ?start ?n, folded page_def, OF a(3)] by blast+
  have "int ?stop \<le> int (length (sp_bitmap p))" using b(3) unfolding stop [symmetric] cap(3) [symmetric] by (rule page_le)
  then have len: "page + ?n \<le> length (sp_bitmap p)" using f(2) by linarith
  have pg: "pages_of off sz = {page..<page + ?n}" using a(4) by (simp add: pages_of_def)
  have bit: "sp_bitmap q ! k = (k \<in> pages_of off sz \<or> sp_bitmap p ! k)" for k
    unfolding q pg using bm_fill_ok(2) [OF len, of True k] by auto
  have shape: "same_shape p q" unfolding q by (simp add: same_shape_def bm_fill_ok(1))
  have lo: "dv_virtual_base ?d \<le> off" using start f(1) a(4) by linarith
  have "int (page + ?n) \<le> int ?stop" using f(2) by (simp only: of_nat_le_iff)
  then have "int (page + ?n) * 4096 \<le> int ?stop * 4096" by (rule mult_right_mono) simp
  then have hi: "off + int ?n * 4096 \<le> dv_virtual_base ?d + dv_capacity ?d" unfolding stop a(4) by (simp only: of_nat_add distrib_right)
  have "extent_ok q off sz" unfolding extent_ok_def
    using a(1,4) assms(3) dev lo hi bit by (auto simp: q intro!: exI [of _ "nat dev"])
  moreover have "0 \<le> off" "off < 2 ^ 64" using lo hi b(1,3) cap(4) page_count_bounds [of sz] a(1) by linarith+
  moreover have "\<forall>k \<in> pages_of off sz. \<not> sp_bitmap p ! k" using f(3) pg by auto
  ultimately show ?thesis using shape bit by (auto simp: q)
qed

lemma alloc_on_device_error:
  assumes "ssd_pool_alloc_on_device dev sz p = ((rc, off), q)" and "rc \<noteq> UMM_OK"
  shows "q = p"
  using assms unfolding ssd_pool_alloc_on_device_def Let_def by (simp only: prod.inject simp_thms split: if_splits)

lemma extent_pages:
  assumes "pool_ok p" and "extent_ok p off sz"
  shows "pages_of off sz \<subseteq> {..<length (sp_bitmap p)}" and "0 \<le> off" and "off + int (page_count sz) * 4096 \<le> sp_total_capacity p"
    and "nat (u64 (sz + 4095) div 4096) = page_count sz"
proof -
  let ?n = "page_count sz" and ?s = "nat (off div 4096)"
  obtain i where i: "i < length (sp_devices p)" "dv_virtual_base (sp_devices p ! i) \<le> off"
    "off + int ?n * 4096 \<le> dv_virtual_base (sp_devices p ! i) + dv_capacity (sp_devices p ! i)" and o: "0 < sz" "4096 dvd off"
    using assms(2) by (auto simp: extent_ok_def)
  note b = device_bounds [OF assms(1) i(1)]
  show off: "0 \<le> off" "off + int ?n * 4096 \<le> sp_total_capacity p" using b i by linarith+
  have t: "int (length (sp_bitmap p)) * 4096 = sp_total_capacity p" "sp_total_capacity p < 2 ^ 64" using assms(1) by (simp_all add: pool_ok_def)
  moreover have "int ?s * 4096 = off" using off(1) o(2) by (simp add: pos_imp_zdiv_nonneg_iff)
  ultimately have "?s + ?n \<le> length (sp_bitmap p)" using off(2) by linarith
  then show "pages_of off sz \<subseteq> {..<length (sp_bitmap p)}" by (auto simp: pages_of_def)
  have "int ?n * 4096 < 2 ^ 52 * 4096" using off t(2) by simp
  then have "int ?n + 1 \<le> 2 ^ 52" by linarith
  then have "sz + 4095 < 2 ^ 64" using page_count_bounds [of sz] o(1) by simp
  then have "u64 (sz + 4095) = sz + 4095" using o(1) by (simp add: u64_def)
  then show "nat (u64 (sz + 4095) div 4096) = ?n" by (simp add: page_count_def SSD_POOL_PAGE_SIZE_def add.commute)
qed

lemma ssd_pool_free_ok:
  assumes "pool_ok p" and "extent_ok p off sz" and "ssd_pool_free off sz p = (rc, q)"
  shows "rc = UMM_OK \<and> same_shape p q \<and> sp_disk q = sp_disk p \<and> (\<forall>k. k \<notin> pages_of off sz \<longrightarrow> sp_bitmap q ! k = sp_bitmap p ! k)"
proof -
  let ?n = "page_count sz" and ?s = "nat (off div 4096)"
  have o: "0 < sz" "4096 dvd off" and bits: "\<forall>k \<in> pages_of off sz. sp_bitmap p ! k" using assms(2) by (auto simp: extent_ok_def)
  note off = extent_pages(2-4) [OF assms(1,2)]
  moreover have "0 < int ?n * 4096" using page_count_bounds [of sz] o(1) by linarith
  ultimately have lt: "off < sp_total_capacity p" by linarith
  have "int (length (sp_bitmap p)) * 4096 = sp_total_capacity p" using assms(1) by (simp add: pool_ok_def)
  moreover have "int ?s * 4096 = off" using off(1) o(2) by (simp add: pos_imp_zdiv_nonneg_iff)
  ultimately have len: "?s + ?n \<le> length (sp_bitmap p)" using off(2) by linarith
  have "\<not> list_ex (\<lambda>i. \<not> sp_bitmap p ! (?s + i)) [0..<?n]" using bits by (auto simp: pages_of_def list_ex_iff)
  then have q: "rc = UMM_OK" "q = p\<lparr>sp_bitmap := bm_fill False ?s ?n (sp_bitmap p), sp_free_pages := sp_free_pages p + int ?n\<rparr>"
    using assms(3) o(1) len lt off(3) by (auto simp: ssd_pool_free_def Let_def SSD_POOL_PAGE_SIZE_def add.commute)
  moreover have "sp_bitmap q ! k = sp_bitmap p ! k" if "k \<notin> pages_of off sz" for k
    using bm_fill_ok(2) [OF len, of False k] that by (auto simp: q(2) pages_of_def)
  ultimately show ?thesis by (auto simp: same_shape_def bm_fill_ok(1))
qed

end
