(* ===== verification/PoolClient.thy ===== *)
theory PoolClient
  imports SsdPool TraceBench
begin

section \<open>DirectPool and PoolClient\<close>

text \<open>
  Model of \<open>DirectPool\<close> (\<open>bmpclient/bench/single_ssd.py\<close>) and of \<open>PoolClient\<close>
  (\<open>bmpclient/bench/layout_replay.py\<close>), the bridge that gives the native SSD pool the interface of a
  library. The last part proves that the bridge is a \<open>chunk_store\<close>, so that what is proved of the
  storage layers holds of the benchmark that runs them on the native pool. Call times and the digests
  of watch events are not modelled.
\<close>

definition pool_check :: "int \<Rightarrow> 'a \<Rightarrow> 'a result" where
  "pool_check rc v = (if rc \<noteq> UMM_OK then Inl RuntimeError else Inr v)"

record direct_pool =
  dp_pool :: ssd_pool
  dp_reservations :: "(int \<times> int) list"
  dp_device_count :: nat

definition add_reserved :: "(string \<Rightarrow> int \<Rightarrow> int \<Rightarrow> bool) \<Rightarrow> nat \<times> string \<times> int \<times> int \<Rightarrow> direct_pool \<times> int \<Rightarrow> (unit, direct_pool \<times> int) outcome" where
  "add_reserved opens entry dt =
     (case entry of (i, path, base, sz) \<Rightarrow> case dt of (dp, total_bytes) \<Rightarrow>
      case ssd_pool_add_device opens path base (u64 sz) (dp_pool dp) of (rc, p1) \<Rightarrow>
      if rc \<noteq> UMM_OK then (Inl RuntimeError, (dp\<lparr>dp_pool := p1\<rparr>, total_bytes))
      else case ssd_pool_alloc_on_device (int i) (u64 sz) p1 of ((rc', off), p2) \<Rightarrow>
        let dp2 = dp\<lparr>dp_pool := p2\<rparr> in
        if rc' \<noteq> UMM_OK then (Inl RuntimeError, (dp2, total_bytes))
        else if off \<noteq> total_bytes then (Inl RuntimeError, (dp2, total_bytes))
        else (Inr (), (dp2\<lparr>dp_reservations := dp_reservations dp2 @ [(off, sz)], dp_device_count := Suc (dp_device_count dp2)\<rparr>, total_bytes + sz)))"

text \<open>The constructor closes the native pool when a device fails.\<close>

definition DirectPool :: "(string \<Rightarrow> int \<Rightarrow> int \<Rightarrow> bool) \<Rightarrow> (nat \<Rightarrow> int \<Rightarrow> byte) \<Rightarrow> (string \<times> int \<times> int) list \<Rightarrow> direct_pool result" where
  "DirectPool opens disk devices =
     (case for_each (add_reserved opens) (zip [0..<length devices] devices)
             (\<lparr>dp_pool = ssd_pool_create disk, dp_reservations = [], dp_device_count = 0\<rparr>, 0) of
        (Inl e, _) \<Rightarrow> Inl e
      | (Inr _, (dp, total_bytes)) \<Rightarrow> if sp_devices (dp_pool dp) = [] then Inl RuntimeError else Inr dp)"

definition dp_write :: "int \<Rightarrow> bytes \<Rightarrow> direct_pool \<Rightarrow> (unit, direct_pool) outcome" where
  "dp_write off data dp = (case ssd_pool_pwrite (u64 off) data (dp_pool dp) of (rc, p) \<Rightarrow> (pool_check rc (), dp\<lparr>dp_pool := p\<rparr>))"

text \<open>A read changes the caller's buffer: the first bytes are overwritten, all of them unless it fails.\<close>

definition dp_read :: "int \<Rightarrow> bytes \<Rightarrow> direct_pool \<Rightarrow> unit result \<times> bytes \<times> direct_pool" where
  "dp_read off buf dp =
     (case ssd_pool_pread (u64 off) (int (length buf)) (dp_pool dp) of
        (rc, data, p) \<Rightarrow> (pool_check rc (), data @ drop (length data) buf, dp\<lparr>dp_pool := p\<rparr>))"

definition dp_sync :: "direct_pool \<Rightarrow> unit result" where
  "dp_sync dp = (case map_result (\<lambda>(off, sz). pool_check (ssd_pool_sync off sz (dp_pool dp)) ()) (dp_reservations dp) of Inl e \<Rightarrow> Inl e | Inr _ \<Rightarrow> Inr ())"

subsection \<open>PoolClient\<close>

datatype watch_status = NotWritten | Matched | Mismatch

record pool_client =
  pc_pool :: direct_pool
  pc_watch :: "(int \<times> int) option"
  pc_watch_expected :: "bytes option"
  pc_watch_events :: "(string \<times> watch_status) list"
  pc_live :: "(int \<times> int \<times> int) list"
  pc_next_id :: int
  pc_window_bases :: "int list"

definition free_reservation :: "int \<times> int \<Rightarrow> direct_pool \<Rightarrow> (unit, direct_pool) outcome" where
  "free_reservation r dp = (case ssd_pool_free (u64 (fst r)) (u64 (snd r)) (dp_pool dp) of (rc, p) \<Rightarrow> (pool_check rc (), dp\<lparr>dp_pool := p\<rparr>))"

definition PoolClient_init :: "direct_pool \<Rightarrow> (int \<times> int) option \<Rightarrow> pool_client result" where
  "PoolClient_init dp watch =
     (case for_each free_reservation (dp_reservations dp) dp of
        (Inl e, _) \<Rightarrow> Inl e
      | (Inr _, dp1) \<Rightarrow>
          Inr \<lparr>pc_pool = dp1, pc_watch = watch, pc_watch_expected = None, pc_watch_events = [], pc_live = [], pc_next_id = 1,
               pc_window_bases = map (\<lambda>d. dv_window_base (sp_devices (dp_pool dp1) ! d)) [0..<dp_device_count dp1]\<rparr>)"

definition watch_virtual :: "pool_client \<Rightarrow> int \<times> int \<Rightarrow> int result" where
  "watch_virtual c w =
     (case py_nth (dp_reservations (pc_pool c)) (fst w) of Inl e \<Rightarrow> Inl e | Inr r \<Rightarrow>
      case py_nth (pc_window_bases c) (fst w) of Inl e \<Rightarrow> Inl e | Inr base \<Rightarrow> Inr (fst r + snd w - base))"

definition check_watch :: "string \<Rightarrow> pool_client \<Rightarrow> (unit, pool_client) outcome" where
  "check_watch stage c =
     (case pc_watch c of None \<Rightarrow> (Inr (), c)
      | Some w \<Rightarrow>
          (case pc_watch_expected c of
             None \<Rightarrow> (Inr (), c\<lparr>pc_watch_events := pc_watch_events c @ [(stage, NotWritten)]\<rparr>)
           | Some expected \<Rightarrow>
               (case watch_virtual c w of Inl e \<Rightarrow> (Inl e, c)
                | Inr virtual \<Rightarrow>
                    (case dp_read virtual (replicate (nat BENCH_PAGE) 0) (pc_pool c) of
                       (Inl e, data, dp) \<Rightarrow> (Inl e, c\<lparr>pc_pool := dp\<rparr>)
                     | (Inr _, data, dp) \<Rightarrow>
                         let status = (if data = expected then Matched else Mismatch);
                             c' = c\<lparr>pc_pool := dp, pc_watch_events := pc_watch_events c @ [(stage, status)]\<rparr>
                         in if status = Mismatch then (Inl DataMismatchError, c') else (Inr (), c')))))"

definition pc_get_topology :: "pool_client \<Rightarrow> (storage_topology, pool_client) outcome" where
  "pc_get_topology c =
     (let n = dp_device_count (pc_pool c) in
      (Inr \<lparr>t_node_id = 0, t_num_resources = int n, t_resources = replicate n (empty_resource\<lparr>r_tier := UMM_TIER_SSD, r_online := 1\<rparr>)\<rparr>, c))"

definition pc_alloc_on_device :: "int \<Rightarrow> int \<Rightarrow> int \<Rightarrow> pool_client \<Rightarrow> (chunk_desc, pool_client) outcome" where
  "pc_alloc_on_device sz tier dev c =
     (if tier \<noteq> UMM_TIER_SSD \<or> \<not> (0 \<le> dev \<and> dev < int (dp_device_count (pc_pool c))) then (Inl ValueError, c)
      else case ssd_pool_alloc_on_device (u32 dev) (u64 sz) (dp_pool (pc_pool c)) of ((rc, off), p) \<Rightarrow>
        let c1 = c\<lparr>pc_pool := (pc_pool c)\<lparr>dp_pool := p\<rparr>\<rparr> in
        if rc \<noteq> UMM_OK then (Inl RuntimeError, c1)
        else (Inr (ChunkDescriptor (pc_next_id c) off sz),
              c1\<lparr>pc_live := dict_set (pc_next_id c) (off, sz) (pc_live c), pc_next_id := pc_next_id c + 1\<rparr>))"

definition pc_free :: "chunk_desc \<Rightarrow> pool_client \<Rightarrow> (unit, pool_client) outcome" where
  "pc_free d c =
     (case map_of (pc_live c) (d_chunk_id d) of
        None \<Rightarrow> (Inl KeyError, c)
      | Some (off, sz) \<Rightarrow>
          (case ssd_pool_free (u64 off) (u64 sz) (dp_pool (pc_pool c)) of (rc, p) \<Rightarrow>
             let c1 = c\<lparr>pc_pool := (pc_pool c)\<lparr>dp_pool := p\<rparr>\<rparr> in
             if rc \<noteq> UMM_OK then (Inl RuntimeError, c1) else (Inr (), c1\<lparr>pc_live := dict_del (d_chunk_id d) (pc_live c)\<rparr>)))"

definition resolve_ssd_extent_base :: "chunk_desc \<Rightarrow> int \<Rightarrow> pool_client \<Rightarrow> int result" where
  "resolve_ssd_extent_base d dev c =
     (case map_of (pc_live c) (d_chunk_id d) of
        None \<Rightarrow> Inl KeyError
      | Some (off, sz) \<Rightarrow>
          (case py_nth (dp_reservations (pc_pool c)) dev of Inl e \<Rightarrow> Inl e
           | Inr (base, capacity) \<Rightarrow>
               if off < base \<or> base + capacity < off + sz then Inl ValueError
               else (case py_nth (pc_window_bases c) dev of Inl e \<Rightarrow> Inl e | Inr wb \<Rightarrow> Inr (wb + off - base))))"

text \<open>The extent of an I/O after the checks of \<open>_io\<close>.\<close>

definition io_extent :: "chunk_desc \<Rightarrow> int \<Rightarrow> pybuf \<Rightarrow> pool_client \<Rightarrow> int result" where
  "io_extent d offset b c =
     (if \<not> buf_contiguous b then Inl TypeError
      else case map_of (pc_live c) (d_chunk_id d) of
        None \<Rightarrow> Inl KeyError
      | Some (off, sz) \<Rightarrow>
          if offset < 0 \<or> sz < offset \<or> sz - offset < nbytes b then Inl ValueError
          else if buf_readonly b then Inl TypeError else Inr (off + offset))"

definition pc_read_into :: "chunk_desc \<Rightarrow> int \<Rightarrow> pybuf \<Rightarrow> pool_client \<Rightarrow> (int, pybuf \<times> pool_client) outcome" where
  "pc_read_into d offset b c =
     (case io_extent d offset b c of Inl e \<Rightarrow> (Inl e, (b, c))
      | Inr start \<Rightarrow>
          (case dp_read start (buf_data b) (pc_pool c) of
             (r, data, dp) \<Rightarrow>
               ((case r of Inl e \<Rightarrow> Inl e | Inr _ \<Rightarrow> Inr (nbytes b)), (b\<lparr>buf_data := data\<rparr>, c\<lparr>pc_pool := dp\<rparr>))))"

definition pc_write_from :: "chunk_desc \<Rightarrow> int \<Rightarrow> pybuf \<Rightarrow> pool_client \<Rightarrow> (int, pool_client) outcome" where
  "pc_write_from d offset b c =
     (case io_extent d offset b c of Inl e \<Rightarrow> (Inl e, c)
      | Inr start \<Rightarrow>
          (case dp_write start (buf_data b) (pc_pool c) of
             (Inl e, dp) \<Rightarrow> (Inl e, c\<lparr>pc_pool := dp\<rparr>)
           | (Inr _, dp) \<Rightarrow>
               let c1 = c\<lparr>pc_pool := dp\<rparr> in
               (case pc_watch c of None \<Rightarrow> (Inr (nbytes b), c1)
                | Some w \<Rightarrow>
                    (case watch_virtual c1 w of Inl e \<Rightarrow> (Inl e, c1)
                     | Inr virtual \<Rightarrow>
                         let local = virtual - start in
                         if 0 \<le> local \<and> local + BENCH_PAGE \<le> nbytes b
                         then (case check_watch ''immediately_after_write''
                                      (c1\<lparr>pc_watch_expected := Some (py_slice (buf_data b) local (local + BENCH_PAGE))\<rparr>) of
                                 (Inl e, c2) \<Rightarrow> (Inl e, c2) | (Inr _, c2) \<Rightarrow> (Inr (nbytes b), c2))
                         else (Inr (nbytes b), c1)))))"

definition PoolClient :: "pool_client umm_lib" where
  "PoolClient = \<lparr>lib_get_topology = pc_get_topology, lib_alloc_on_device = pc_alloc_on_device, lib_free = pc_free,
     lib_read_into = pc_read_into, lib_write_from = pc_write_from, lib_resolve_ssd_extent_base = Some resolve_ssd_extent_base\<rparr>"

subsection \<open>The bridge is a chunk store\<close>

abbreviation native :: "pool_client \<Rightarrow> ssd_pool" where
  "native c \<equiv> dp_pool (pc_pool c)"

definition pc_view :: "pool_client \<Rightarrow> int \<Rightarrow> bytes option" where
  "pc_view c i = map_option (\<lambda>(off, sz). pool_bytes (native c) off (nat sz)) (map_of (pc_live c) i)"

definition live_ok :: "ssd_pool \<Rightarrow> int \<Rightarrow> (int \<times> int \<times> int) list \<Rightarrow> bool" where
  "live_ok p next live \<longleftrightarrow> distinct (map fst live) \<and>
     (\<forall>i off sz. map_of live i = Some (off, sz) \<longrightarrow> i < next \<and> extent_ok p off sz) \<and>
     (\<forall>i off sz j off' sz'. map_of live i = Some (off, sz) \<and> map_of live j = Some (off', sz') \<and> i \<noteq> j \<longrightarrow>
        pages_of off sz \<inter> pages_of off' sz' = {})"

definition watch_ok :: "pool_client \<Rightarrow> bool" where
  "watch_ok c \<longleftrightarrow> (case pc_watch c of None \<Rightarrow> True | Some w \<Rightarrow> \<exists>virtual. watch_virtual c w = Inr virtual \<and> 4096 dvd virtual)"

definition pc_inv :: "pool_client \<Rightarrow> bool" where
  "pc_inv c \<longleftrightarrow> pool_ok (native c) \<and> dp_device_count (pc_pool c) = length (sp_devices (native c)) \<and> 1 \<le> pc_next_id c \<and>
     live_ok (native c) (pc_next_id c) (pc_live c) \<and> watch_ok c"

definition pc_room :: "pool_client \<Rightarrow> nat \<Rightarrow> bool" where
  "pc_room c n \<longleftrightarrow> pc_next_id c + int n \<le> 2 ^ 64"

lemma pool_bytes_length [simp]: "length (pool_bytes p v n) = n"
  by (simp add: pool_bytes_def)

lemma pc_viewE:
  assumes "pc_view c i = Some xs"
  obtains off sz where "map_of (pc_live c) i = Some (off, sz)" "xs = pool_bytes (native c) off (nat sz)"
  using assms by (auto simp: pc_view_def)

lemma live_ok_frame:
  assumes "live_ok p next live" and "same_shape p q" and "sp_bitmap q = sp_bitmap p"
  shows "live_ok q next live"
  using assms extent_shape [OF assms(2)] unfolding live_ok_def by metis

lemma watch_virtual_frame:
  assumes "dp_reservations (pc_pool c') = dp_reservations (pc_pool c)" and "pc_window_bases c' = pc_window_bases c"
  shows "watch_virtual c' = watch_virtual c"
  unfolding watch_virtual_def [abs_def] assms ..

text \<open>Changes of the client that leave its bookkeeping as it is.\<close>

lemma pc_inv_pool:
  assumes "pc_inv c" and "same_shape (native c) (native c')" and "sp_bitmap (native c') = sp_bitmap (native c)"
    and "dp_reservations (pc_pool c') = dp_reservations (pc_pool c)" and "dp_device_count (pc_pool c') = dp_device_count (pc_pool c)"
    and "pc_window_bases c' = pc_window_bases c" and "pc_watch c' = pc_watch c" and "pc_live c' = pc_live c" and "pc_next_id c' = pc_next_id c"
  shows "pc_inv c' \<and> pc_room c' = pc_room c"
proof -
  have "length (sp_devices (native c')) = length (sp_devices (native c))" by (rule same_shape_length [OF assms(2)])
  moreover have "live_ok (native c') (pc_next_id c) (pc_live c)" using assms(1-3) live_ok_frame by (auto simp: pc_inv_def)
  moreover have "pool_ok (native c')" using same_shape_ok(1) [OF assms(2)] assms(1) by (simp add: pc_inv_def)
  moreover have "watch_ok c'" using assms(1,7) watch_virtual_frame [OF assms(4,6)] by (cases "pc_watch c") (auto simp: pc_inv_def watch_ok_def)
  ultimately show ?thesis using assms by (simp add: pc_inv_def pc_room_def fun_eq_iff)
qed

lemma bump_read_bytes: "pool_bytes (bump_read i len p) = pool_bytes p"
  by (rule pool_bytes_frame [OF bump_read_shape]) (simp add: bump_read_def)

lemma pool_bytes_block:
  assumes "o' + n \<le> m"
  shows "block_at o' n (pool_bytes p v m) = pool_bytes p (v + int o') n"
  using assms by (auto simp: pool_bytes_def block_at_def take_map drop_map list_eq_iff_nth_eq ac_simps)

lemma io_extent_ok:
  assumes "pc_inv c" and "pc_view c (d_chunk_id d) = Some xs" and "0 \<le> off" and "off + nbytes b \<le> int (length xs)"
    and "4096 dvd off" and "4096 dvd nbytes b" and "\<not> buf_readonly b" and "buf_contiguous b"
  obtains base sz i where "map_of (pc_live c) (d_chunk_id d) = Some (base, sz)" "xs = pool_bytes (native c) base (nat sz)" "0 < sz"
    "io_extent d off b c = Inr (base + off)" "page_range (native c) i (base + off) (nbytes b)"
proof -
  obtain base sz where l: "map_of (pc_live c) (d_chunk_id d) = Some (base, sz)" "xs = pool_bytes (native c) base (nat sz)"
    using assms(2) by (rule pc_viewE)
  have e: "extent_ok (native c) base sz" using assms(1) l(1) by (auto simp: pc_inv_def live_ok_def)
  then have sz: "0 < sz" by (simp add: extent_ok_def)
  have "off + nbytes b \<le> sz" using assms(4) l(2) sz by simp
  moreover from extent_range [OF e assms(3) _ this assms(5,6)] obtain i where "page_range (native c) i (base + off) (nbytes b)" by auto
  ultimately show ?thesis using that [OF l sz] l(1) assms(3,7,8) by (simp add: io_extent_def)
qed

lemma pc_read_ok:
  assumes "pc_inv c" and "pc_view c (d_chunk_id d) = Some xs" and "0 \<le> off" and "off + nbytes b \<le> int (length xs)"
    and "4096 dvd off" and "4096 dvd nbytes b" and "\<not> buf_readonly b" and "buf_contiguous b"
  shows "\<exists>c'. pc_read_into d off b c = (Inr (nbytes b), (b\<lparr>buf_data := block_at (nat off) (length (buf_data b)) xs\<rparr>, c')) \<and>
    pc_inv c' \<and> pc_room c' = pc_room c \<and> pc_view c' = pc_view c"
proof -
  obtain base sz i where l: "map_of (pc_live c) (d_chunk_id d) = Some (base, sz)" "xs = pool_bytes (native c) base (nat sz)" "0 < sz"
    "io_extent d off b c = Inr (base + off)" and pr: "page_range (native c) i (base + off) (nbytes b)"
    using io_extent_ok [OF assms] by metis
  have ok: "pool_ok (native c)" using assms(1) by (simp add: pc_inv_def)
  let ?p = "if nbytes b = 0 then native c else bump_read i (nbytes b) (native c)"
  let ?c = "c\<lparr>pc_pool := (pc_pool c)\<lparr>dp_pool := ?p\<rparr>\<rparr>"
  have "pool_bytes (native c) (base + off) (length (buf_data b)) = block_at (nat off) (length (buf_data b)) xs"
    using pool_bytes_block [of "nat off" "length (buf_data b)" "nat sz" "native c" base] assms(3,4) l(2,3) by simp
  moreover have "u64 (base + off) = base + off" by (rule page_range_facts(4) [OF ok pr])
  ultimately have "pc_read_into d off b c = (Inr (nbytes b), (b\<lparr>buf_data := block_at (nat off) (length (buf_data b)) xs\<rparr>, ?c))"
    using pread_ok [OF ok pr] l(4) assms(3,4) by (simp add: pc_read_into_def dp_read_def pool_check_def)
  moreover have "pc_inv ?c \<and> pc_room ?c = pc_room c"
    using bump_read_shape by (intro pc_inv_pool [OF assms(1)]) (auto simp: bump_read_def)
  moreover have "pc_view ?c = pc_view c" using bump_read_bytes by (auto simp: pc_view_def fun_eq_iff)
  ultimately show ?thesis by blast
qed

lemma put_bytes_view:
  assumes "pool_ok p" and "page_range p i (v + int o') (int (length data))" and "o' + length data \<le> n"
  shows "pool_bytes (put_bytes i (v + int o') data p) v n = put_block o' data (pool_bytes p v n)"
proof (rule nth_equalityI)
  have len: "o' + length data \<le> length (pool_bytes p v n)" using assms(3) by simp
  then show "length (pool_bytes (put_bytes i (v + int o') data p) v n) = length (put_block o' data (pool_bytes p v n))" by simp
  fix j assume j: "j < length (pool_bytes (put_bytes i (v + int o') data p) v n)"
  have "nat (v + int j - (v + int o')) = j - o'" by simp
  then show "pool_bytes (put_bytes i (v + int o') data p) v n ! j = put_block o' data (pool_bytes p v n) ! j"
    using j put_bytes_byte [OF assms(1,2), of "v + int j"] nth_put_block [OF len, of j] by (auto simp: pool_bytes_def)
qed

lemma put_bytes_other:
  assumes "pool_ok p" and "page_range p i v (int (length data))" and "\<And>a. off \<le> a \<Longrightarrow> a < off + int n \<Longrightarrow> \<not> (v \<le> a \<and> a < v + int (length data))"
  shows "pool_bytes (put_bytes i v data p) off n = pool_bytes p off n"
  using put_bytes_byte [OF assms(1,2)] assms(3) by (auto simp: pool_bytes_def)

text \<open>The watched page, read back inside the range just written, is what was written there.\<close>

lemma check_watch_ok:
  assumes "pc_inv c" and "pc_watch c = Some w" and "watch_virtual c w = Inr virtual" and "pc_watch_expected c = Some expected"
    and "page_range (native c) i virtual 4096" and "pool_bytes (native c) virtual 4096 = expected"
  shows "\<exists>c'. check_watch stage c = (Inr (), c') \<and> pc_inv c' \<and> pc_room c' = pc_room c \<and> pc_view c' = pc_view c"
proof -
  have ok: "pool_ok (native c)" using assms(1) by (simp add: pc_inv_def)
  let ?c = "c\<lparr>pc_pool := (pc_pool c)\<lparr>dp_pool := bump_read i 4096 (native c)\<rparr>, pc_watch_events := pc_watch_events c @ [(stage, Matched)]\<rparr>"
  have "dp_read virtual (replicate 4096 0) (pc_pool c) = (Inr (), expected, (pc_pool c)\<lparr>dp_pool := bump_read i 4096 (native c)\<rparr>)"
    using pread_ok [OF ok assms(5)] page_range_facts(4) [OF ok assms(5)] assms(6) by (auto simp: dp_read_def pool_check_def)
  then have "check_watch stage c = (Inr (), ?c)" using assms(2-4) by (simp add: check_watch_def BENCH_PAGE_def)
  moreover have "pc_inv ?c \<and> pc_room ?c = pc_room c"
    using bump_read_shape by (intro pc_inv_pool [OF assms(1)]) (auto simp: bump_read_def)
  moreover have "pc_view ?c = pc_view c" using bump_read_bytes by (auto simp: pc_view_def fun_eq_iff)
  ultimately show ?thesis by blast
qed

lemma pc_write_view:
  assumes "pc_inv c" and "map_of (pc_live c) j = Some (base, sz)" and "0 \<le> off" and "off + int (length data) \<le> sz"
    and "page_range (native c) i (base + off) (int (length data))" and "native c' = put_bytes i (base + off) data (native c)"
    and "pc_live c' = pc_live c"
  shows "pc_view c' = (pc_view c)(j \<mapsto> put_block (nat off) data (pool_bytes (native c) base (nat sz)))"
proof
  fix k
  have ok: "pool_ok (native c)" using assms(1) by (simp add: pc_inv_def)
  have ext: "extent_ok (native c) o' s'" if "map_of (pc_live c) k = Some (o', s')" for k o' s'
    using assms(1) that by (auto simp: pc_inv_def live_ok_def)
  show "pc_view c' k = ((pc_view c)(j \<mapsto> put_block (nat off) data (pool_bytes (native c) base (nat sz)))) k"
  proof (cases "k = j")
    case True
    have "pool_bytes (put_bytes i (base + int (nat off)) data (native c)) base (nat sz) = put_block (nat off) data (pool_bytes (native c) base (nat sz))"
      using assms(3-5) by (intro put_bytes_view [OF ok]) auto
    then show ?thesis using True assms(2,3,6,7) by (simp add: pc_view_def)
  next
    case False
    have "pool_bytes (native c') o' (nat s') = pool_bytes (native c) o' (nat s')" if l: "map_of (pc_live c) k = Some (o', s')" for o' s'
    proof -
      have "pages_of base sz \<inter> pages_of o' s' = {}" using assms(1,2) l False unfolding pc_inv_def live_ok_def by blast
      note ap = extents_apart [OF ok ext [OF assms(2)] ext [OF l] this]
      have "\<not> (base + off \<le> a \<and> a < base + off + int (length data))" if "o' \<le> a" "a < o' + int (nat s')" for a
        using ap [of a a] that ext [OF l] assms(3,4) by (auto simp: extent_ok_def)
      then show ?thesis unfolding assms(6) by (rule put_bytes_other [OF ok assms(5)])
    qed
    then show ?thesis using False assms(7) by (cases "map_of (pc_live c) k") (auto simp: pc_view_def)
  qed
qed

lemma pc_write_ok:
  assumes "pc_inv c" and "pc_view c (d_chunk_id d) = Some xs" and "0 \<le> off" and "off + nbytes b \<le> int (length xs)"
    and "4096 dvd off" and "4096 dvd nbytes b" and "\<not> buf_readonly b" and "buf_contiguous b"
  shows "\<exists>c'. pc_write_from d off b c = (Inr (nbytes b), c') \<and> pc_inv c' \<and> pc_room c' = pc_room c \<and>
    pc_view c' = (pc_view c)(d_chunk_id d \<mapsto> put_block (nat off) (buf_data b) xs)"
proof -
  obtain base sz i where l: "map_of (pc_live c) (d_chunk_id d) = Some (base, sz)" "xs = pool_bytes (native c) base (nat sz)" "0 < sz"
    "io_extent d off b c = Inr (base + off)" and pr: "page_range (native c) i (base + off) (nbytes b)"
    using io_extent_ok [OF assms] by metis
  have ok: "pool_ok (native c)" using assms(1) by (simp add: pc_inv_def)
  let ?v = "base + off" and ?data = "buf_data b"
  define p1 where "p1 = (if ?data = [] then native c else put_bytes i ?v ?data (native c))"
  define c1 where "c1 = c\<lparr>pc_pool := (pc_pool c)\<lparr>dp_pool := p1\<rparr>\<rparr>"
  have w: "dp_write ?v ?data (pc_pool c) = (Inr (), pc_pool c1)"
    using pwrite_ok [OF ok pr] page_range_facts(4) [OF ok pr] by (simp add: dp_write_def pool_check_def c1_def p1_def)
  have shape: "same_shape (native c) p1" "sp_bitmap p1 = sp_bitmap (native c)"
    using put_bytes_shape by (auto simp: p1_def put_bytes_def Let_def)
  have i1: "pc_inv c1 \<and> pc_room c1 = pc_room c" using shape by (intro pc_inv_pool [OF assms(1)]) (auto simp: c1_def)
  have view: "pc_view c1 = (pc_view c)(d_chunk_id d \<mapsto> put_block (nat off) ?data xs)"
  proof (cases "?data = []")
    case True
    then show ?thesis using assms(2) by (auto simp: c1_def p1_def put_block_def pc_view_def fun_eq_iff)
  next
    case False
    have "off + int (length ?data) \<le> sz" using assms(4) l(2,3) by simp
    from pc_write_view [OF assms(1) l(1) assms(3) this pr, of c1] False show ?thesis by (simp add: c1_def p1_def l(2))
  qed
  show ?thesis
  proof (cases "pc_watch c")
    case None
    then have "pc_write_from d off b c = (Inr (nbytes b), c1)" using l(4) w by (simp add: pc_write_from_def c1_def)
    then show ?thesis using i1 view by blast
  next
    case (Some wa)
    obtain virtual where wv: "watch_virtual c1 wa = Inr virtual" "4096 dvd virtual"
      using i1 Some by (auto simp: pc_inv_def watch_ok_def c1_def)
    let ?local = "virtual - ?v"
    show ?thesis
    proof (cases "0 \<le> ?local \<and> ?local + 4096 \<le> nbytes b")
      case False
      then have "pc_write_from d off b c = (Inr (nbytes b), c1)"
        using l(4) w Some wv(1) by (auto simp: pc_write_from_def c1_def BENCH_PAGE_def Let_def)
      then show ?thesis using i1 view by blast
    next
      case True
      define c2 where "c2 = c1\<lparr>pc_watch_expected := Some (py_slice ?data ?local (?local + 4096))\<rparr>"
      have ne: "?data \<noteq> []" using True by auto
      have n2: "native c2 = put_bytes i ?v ?data (native c)" by (simp add: c2_def c1_def p1_def ne)
      have i2: "pc_inv c2 \<and> pc_room c2 = pc_room c1" using i1 by (intro pc_inv_pool) (auto simp: c2_def)
      have v2: "pc_view c2 = pc_view c1" by (simp add: c2_def pc_view_def fun_eq_iff)
      have ok2: "pool_ok (native c2)" using i2 by (simp add: pc_inv_def)
      have sh2: "map dv_shape (sp_devices (native c2)) = map dv_shape (sp_devices (native c))"
        using put_bytes_shape [of "native c"] n2 by (simp add: same_shape_def)
      have pr2: "page_range (native c2) i virtual 4096"
        using pr True wv(2) shape_fields(1,3) [OF sh2] by (auto simp: page_range_def)
      have "pool_bytes (native c2) virtual 4096 = py_slice ?data ?local (?local + 4096)"
      proof -
        have "nat (virtual + int j - ?v) = nat ?local + j" for j using True by linarith
        then have "pool_bytes (native c2) virtual 4096 = map (\<lambda>j. ?data ! (nat ?local + j)) [0..<4096]"
          unfolding n2 pool_bytes_def using put_bytes_byte [OF ok pr] True by auto
        also have "\<dots> = block_at (nat ?local) 4096 ?data" using True by (auto simp: block_at_def list_eq_iff_nth_eq)
        also have "\<dots> = py_slice ?data ?local (?local + 4096)" using True py_slice_block [of ?local 4096 ?data] by simp
        finally show ?thesis .
      qed
      moreover have "watch_virtual c2 = watch_virtual c1" by (intro watch_virtual_frame) (simp_all add: c2_def)
      moreover have "pc_watch c2 = Some wa" "pc_watch_expected c2 = Some (py_slice ?data ?local (?local + 4096))" using Some by (simp_all add: c2_def c1_def)
      ultimately obtain c3 where c3: "check_watch ''immediately_after_write'' c2 = (Inr (), c3)" "pc_inv c3" "pc_room c3 = pc_room c2" "pc_view c3 = pc_view c2"
        using check_watch_ok [OF conjunct1 [OF i2] _ _ _ pr2, of wa _ "''immediately_after_write''"] wv(1) by metis
      have "pc_write_from d off b c = (Inr (nbytes b), c3)"
        using l(4) w Some wv(1) True c3(1) by (auto simp: pc_write_from_def c1_def c2_def BENCH_PAGE_def Let_def)
      then show ?thesis using c3 i1 i2 v2 view by auto
    qed
  qed
qed

lemma pc_alloc_ok:
  assumes "pc_inv c" and "pc_room c (Suc n)" and "pc_alloc_on_device sz tier dev c = (Inr d, c')" and "0 \<le> sz" and "sz < 2 ^ 64"
  shows "pc_inv c' \<and> pc_room c' n \<and> pc_view c (d_chunk_id d) = None \<and> u64 (d_chunk_id d) = d_chunk_id d \<and> d_user_size d = sz \<and>
    (\<exists>xs. int (length xs) = sz \<and> pc_view c' = (pc_view c)(d_chunk_id d \<mapsto> xs))"
proof -
  let ?n = "pc_next_id c"
  have u: "u64 sz = sz" using assms(4,5) by (simp add: u64_def)
  obtain off q where al: "ssd_pool_alloc_on_device (u32 dev) sz (native c) = ((UMM_OK, off), q)"
    and d: "d = ChunkDescriptor ?n off sz"
    and c': "c' = c\<lparr>pc_pool := (pc_pool c)\<lparr>dp_pool := q\<rparr>, pc_live := dict_set ?n (off, sz) (pc_live c), pc_next_id := ?n + 1\<rparr>"
    using assms(3) u by (auto simp: pc_alloc_on_device_def Let_def split: if_splits prod.splits)
  have inv: "pool_ok (native c)" "dp_device_count (pc_pool c) = length (sp_devices (native c))" "1 \<le> ?n" "live_ok (native c) ?n (pc_live c)" "watch_ok c"
    using assms(1) by (auto simp: pc_inv_def)
  have dev: "0 \<le> u32 dev" by (simp add: u32_def)
  note a = alloc_on_device_ok [OF inv(1) assms(4,5) al dev]
  have n64: "?n < 2 ^ 64" using assms(2) by (simp add: pc_room_def)
  then have id: "d_chunk_id d = ?n" "d_user_size d = sz" using d inv(3) u by (simp_all add: ChunkDescriptor_def u64_def)
  have old: "map_of (pc_live c) ?n = None"
  proof (rule ccontr)
    assume "map_of (pc_live c) ?n \<noteq> None"
    then obtain o' s' where "map_of (pc_live c) ?n = Some (o', s')" by auto
    then have "?n < ?n" using inv(4) unfolding live_ok_def by blast
    then show False by simp
  qed
  have keep: "extent_ok q o' s' \<and> pages_of o' s' \<inter> pages_of off sz = {}" if l: "map_of (pc_live c) k = Some (o', s')" for k o' s'
  proof -
    have e: "extent_ok (native c) o' s'" using inv(4) l by (auto simp: live_ok_def)
    then have "\<forall>j \<in> pages_of o' s'. sp_bitmap (native c) ! j" by (simp add: extent_ok_def)
    then have "pages_of o' s' \<inter> pages_of off sz = {}" using a by auto
    moreover have "extent_ok q o' s'" by (rule extent_shape [OF conjunct1 [OF a] _ e]) (use a calculation in auto)
    ultimately show ?thesis by simp
  qed
  have "live_ok q (?n + 1) (dict_set ?n (off, sz) (pc_live c))"
    unfolding live_ok_def
  proof (intro conjI allI impI)
    show "distinct (map fst (dict_set ?n (off, sz) (pc_live c)))" using inv(4) by (simp add: live_ok_def)
    fix k o' s' assume "map_of (dict_set ?n (off, sz) (pc_live c)) k = Some (o', s')"
    then show "k < ?n + 1" "extent_ok q o' s'" using keep a inv(4) by (fastforce simp: live_ok_def split: if_splits)+
  next
    fix k o' s' j o'' s''
    assume kj: "map_of (dict_set ?n (off, sz) (pc_live c)) k = Some (o', s') \<and> map_of (dict_set ?n (off, sz) (pc_live c)) j = Some (o'', s'') \<and> k \<noteq> j"
    have upd: "map_of (pc_live c) i = Some e" if "map_of (dict_set ?n (off, sz) (pc_live c)) i = Some e" "i \<noteq> ?n" for i e
      using that by (simp only: map_of_dict_set fun_upd_apply if_False)
    have new: "e = (off, sz)" if "map_of (dict_set ?n (off, sz) (pc_live c)) ?n = Some e" for e
      using that by (auto simp: map_of_dict_set)
    show "pages_of o' s' \<inter> pages_of o'' s'' = {}"
    proof (cases "k = ?n")
      case True
      then show ?thesis using new [of "(o', s')"] keep [OF upd [of j "(o'', s'')"]] kj by auto
    next
      case False
      then have k: "map_of (pc_live c) k = Some (o', s')" using upd kj by blast
      show ?thesis
      proof (cases "j = ?n")
        case True
        then show ?thesis using new [of "(o'', s'')"] keep [OF k] kj by auto
      next
        case False
        then show ?thesis using upd [of j] k kj inv(4) unfolding live_ok_def by blast
      qed
    qed
  qed
  moreover have "watch_virtual c' = watch_virtual c" by (intro watch_virtual_frame) (simp_all add: c')
  then have "watch_ok c'" using inv(5) by (cases "pc_watch c") (auto simp: watch_ok_def c')
  moreover have "length (sp_devices q) = length (sp_devices (native c))" using a by (blast intro: same_shape_length)
  ultimately have "pc_inv c'" using same_shape_ok(1) [OF conjunct1 [OF a]] inv(1-3) by (simp add: pc_inv_def c')
  moreover have "pool_bytes q = pool_bytes (native c)" using a by (blast intro: pool_bytes_frame)
  then have "pc_view c' = (pc_view c)(?n \<mapsto> pool_bytes q off (nat sz))" by (auto simp: pc_view_def fun_eq_iff c')
  moreover have "pc_room c' n" using assms(2) by (simp add: pc_room_def c')
  ultimately show ?thesis using id old n64 inv(3) assms(4) by (auto simp: pc_view_def u64_def intro!: exI [of _ "pool_bytes q off (nat sz)"])
qed

lemma pc_alloc_error:
  assumes "pc_inv c" and "pc_alloc_on_device sz tier dev c = (Inl e, c')"
  shows "pc_inv c' \<and> pc_view c' = pc_view c"
proof -
  have "c' = c" using assms(2) alloc_on_device_error
    by (fastforce simp: pc_alloc_on_device_def Let_def split: if_splits prod.splits)
  then show ?thesis using assms(1) by simp
qed

lemma pc_free_ok:
  assumes "pc_inv c" and "pc_view c (d_chunk_id d) \<noteq> None" and "pc_free d c = (r, c')"
  shows "r = Inr () \<and> pc_inv c' \<and> pc_room c' = pc_room c \<and> pc_view c' = (pc_view c)(d_chunk_id d := None)"
proof -
  let ?i = "d_chunk_id d"
  obtain off sz where l: "map_of (pc_live c) ?i = Some (off, sz)" using assms(2) by (auto simp: pc_view_def)
  have inv: "pool_ok (native c)" "dp_device_count (pc_pool c) = length (sp_devices (native c))" "1 \<le> pc_next_id c" "live_ok (native c) (pc_next_id c) (pc_live c)" "watch_ok c"
    using assms(1) by (auto simp: pc_inv_def)
  have e: "extent_ok (native c) off sz" using inv(4) l by (auto simp: live_ok_def)
  then have "page_range (native c) j off 0 \<Longrightarrow> u64 off = off" for j using page_range_facts(4) [OF inv(1)] by blast
  moreover obtain j where "page_range (native c) j (off + 0) 0" using extent_range [OF e, of 0 0] e by (auto simp: extent_ok_def)
  ultimately have u: "u64 off = off" "u64 sz = sz" using e by (auto simp: u64_def extent_ok_def)
  obtain rc q where fr: "ssd_pool_free off sz (native c) = (rc, q)" by fastforce
  note f = ssd_pool_free_ok [OF inv(1) e fr]
  have res: "r = Inr ()" "c' = c\<lparr>pc_pool := (pc_pool c)\<lparr>dp_pool := q\<rparr>, pc_live := dict_del ?i (pc_live c)\<rparr>"
    using assms(3) l fr f u by (auto simp: pc_free_def Let_def)
  have "live_ok q (pc_next_id c) (dict_del ?i (pc_live c))"
    unfolding live_ok_def
  proof (intro conjI allI impI)
    show "distinct (map fst (dict_del ?i (pc_live c)))" using inv(4) by (simp add: live_ok_def)
    fix k o' s' assume k: "map_of (dict_del ?i (pc_live c)) k = Some (o', s')"
    then have k': "k \<noteq> ?i" "map_of (pc_live c) k = Some (o', s')" by (auto split: if_splits)
    then show "k < pc_next_id c" using inv(4) by (auto simp: live_ok_def)
    have "pages_of o' s' \<inter> pages_of off sz = {}" "extent_ok (native c) o' s'" using inv(4) k' l unfolding live_ok_def by blast+
    then show "extent_ok q o' s'" using f by (intro extent_shape [of "native c" q]) auto
  next
    fix k o' s' j o'' s''
    assume "map_of (dict_del ?i (pc_live c)) k = Some (o', s') \<and> map_of (dict_del ?i (pc_live c)) j = Some (o'', s'') \<and> k \<noteq> j"
    then show "pages_of o' s' \<inter> pages_of o'' s'' = {}" using inv(4) unfolding live_ok_def by (auto split: if_splits)
  qed
  moreover have "watch_virtual c' = watch_virtual c" by (intro watch_virtual_frame) (simp_all add: res)
  then have "watch_ok c'" using inv(5) by (cases "pc_watch c") (auto simp: watch_ok_def res)
  moreover have "length (sp_devices q) = length (sp_devices (native c))" using f by (blast intro: same_shape_length)
  moreover have "same_shape (native c) q" using f by blast
  ultimately have "pc_inv c'" using same_shape_ok(1) [of "native c" q] inv(1-3) by (simp add: pc_inv_def res)
  moreover have "pool_bytes q = pool_bytes (native c)" using f by (blast intro: pool_bytes_frame)
  then have "pc_view c' = (pc_view c)(?i := None)" by (auto simp: pc_view_def fun_eq_iff res)
  ultimately show ?thesis using res by (simp add: pc_room_def fun_eq_iff)
qed

interpretation pool_store: chunk_store PoolClient pc_view pc_inv pc_room
proof (unfold_locales, goal_cases)
  case (1 s d xs off b)
  then show ?case using pc_write_ok [of s d xs off b] by (auto simp: PoolClient_def)
next
  case (2 s d xs off b)
  then show ?case using pc_read_ok [of s d xs off b] by (auto simp: PoolClient_def)
next
  case (3 s n sz tier dev d s')
  then show ?case using pc_alloc_ok [of s n sz tier dev d s'] by (simp add: PoolClient_def)
next
  case (4 s sz tier dev e s')
  then show ?case using pc_alloc_error [of s sz tier dev e s'] by (simp add: PoolClient_def)
next
  case (5 s d r s')
  then show ?case using pc_free_ok [of s d r s'] by (simp add: PoolClient_def)
next
  case (6 s rt s')
  then show ?case by (simp add: PoolClient_def pc_get_topology_def Let_def)
next
  case (7 s n)
  then show ?case by (simp add: pc_room_def)
qed

subsection \<open>From the constructor to a chunk store\<close>

definition extents_ok :: "ssd_pool \<Rightarrow> (int \<times> int) list \<Rightarrow> bool" where
  "extents_ok p rs \<longleftrightarrow> (\<forall>r \<in> set rs. extent_ok p (fst r) (snd r)) \<and>
     sorted_wrt (\<lambda>r r'. pages_of (fst r) (snd r) \<inter> pages_of (fst r') (snd r') = {}) rs"

lemma add_device_ok:
  assumes "pool_ok p" and "0 \<le> sz" and "sp_total_capacity p + sz + 4096 \<le> 2 ^ 64" and "ssd_pool_add_device opens path base sz p = (UMM_OK, q)"
  shows "pool_ok q" and "length (sp_devices q) = Suc (length (sp_devices p))"
    and "extent_ok p off s \<Longrightarrow> extent_ok q off s"
    and "sp_total_capacity q = sp_total_capacity p + (sz + 4095) div 4096 * 4096"
proof -
  define cap where "cap = (sz + 4095) div 4096 * 4096"
  have total: "0 \<le> sp_total_capacity p" using assms(1) by (auto simp: pool_ok_def in_set_conv_nth intro!: sum_list_nonneg dest: less_imp_le)
  then have "u64 (sz + 4095) = sz + 4095" using assms(2,3) by (simp add: u64_def)
  then have u: "u64 (sz + SSD_POOL_PAGE_SIZE - 1) div SSD_POOL_PAGE_SIZE * SSD_POOL_PAGE_SIZE = cap" by (simp add: cap_def SSD_POOL_PAGE_SIZE_def add.commute)
  have "cap \<le> sz + 4095" unfolding cap_def by (rule page_floor) 
  then have fit: "sp_total_capacity p + cap < 2 ^ 64" "0 \<le> cap" using assms(2,3) by (simp_all add: cap_def)
  have dv: "4096 dvd cap" by (simp add: cap_def)
  let ?d = "\<lparr>dv_virtual_base = sp_total_capacity p, dv_capacity = cap, dv_window_base = base, dv_read_bytes = 0, dv_write_bytes = 0\<rparr>"
  have "cap \<noteq> 0" and q: "q = p\<lparr>sp_devices := sp_devices p @ [?d], sp_total_capacity := u64 (sp_total_capacity p + cap),
      sp_free_pages := sp_free_pages p + cap div 4096, sp_bitmap := sp_bitmap p @ replicate (nat (cap div 4096)) False\<rparr>"
    using assms(4) unfolding ssd_pool_add_device_def Let_def u
    by (auto simp: UMM_OK_def UMM_E_NO_MEMORY_def UMM_E_TRANSPORT_ERROR_def SSD_POOL_PAGE_SIZE_def split: if_splits)
  then have pos: "0 < cap" and t: "sp_total_capacity q = sp_total_capacity p + cap" using fit total by (auto simp: u64_def)
  show "sp_total_capacity q = sp_total_capacity p + (sz + 4095) div 4096 * 4096" using t by (simp add: cap_def)
  show "length (sp_devices q) = Suc (length (sp_devices p))" by (simp add: q)
  have "int (nat (cap div 4096)) * 4096 = cap" using dv fit(2) by (simp add: pos_imp_zdiv_nonneg_iff)
  then show "pool_ok q" using assms(1) pos t fit(1) dv unfolding pool_ok_def
    by (auto simp: q nth_append less_Suc_eq distrib_right)
  show "extent_ok q off s" if "extent_ok p off s"
  proof -
    have "sp_bitmap q ! k = sp_bitmap p ! k" if "k \<in> pages_of off s" for k
      using that extent_pages(1) [OF assms(1) \<open>extent_ok p off s\<close>] by (auto simp: q nth_append)
    moreover have "sp_devices q ! i = sp_devices p ! i" if "i < length (sp_devices p)" for i using that by (simp add: q nth_append)
    moreover have "length (sp_devices p) \<le> length (sp_devices q)" by (simp add: q)
    ultimately show ?thesis using that unfolding extent_ok_def by (metis order_less_le_trans)
  qed
qed

text \<open>The state of the constructor after a device, with the total of the reserved bytes.\<close>

definition reserved_ok :: "direct_pool \<times> int \<Rightarrow> bool" where
  "reserved_ok dt \<longleftrightarrow> pool_ok (dp_pool (fst dt)) \<and> dp_device_count (fst dt) = length (sp_devices (dp_pool (fst dt))) \<and>
     extents_ok (dp_pool (fst dt)) (dp_reservations (fst dt)) \<and> 0 \<le> snd dt \<and> sp_total_capacity (dp_pool (fst dt)) < snd dt + 4096"

lemma extents_ok_snoc:
  assumes "extents_ok p rs" and "same_shape p q" and "\<forall>k \<in> pages_of off sz. \<not> sp_bitmap p ! k"
    and "\<forall>k. k \<notin> pages_of off sz \<longrightarrow> sp_bitmap q ! k = sp_bitmap p ! k" and "extent_ok q off sz"
  shows "extents_ok q (rs @ [(off, sz)])"
proof -
  have apart: "pages_of (fst r) (snd r) \<inter> pages_of off sz = {}" if "r \<in> set rs" for r
    using assms(1,3) that by (auto simp: extents_ok_def extent_ok_def)
  have "extent_ok q (fst r) (snd r)" if "r \<in> set rs" for r
  proof (rule extent_shape [OF assms(2)])
    show "\<forall>k \<in> pages_of (fst r) (snd r). sp_bitmap p ! k \<longrightarrow> sp_bitmap q ! k" using apart [OF that] assms(4) by blast
    show "extent_ok p (fst r) (snd r)" using that assms(1) by (simp add: extents_ok_def)
  qed
  then show ?thesis using assms(1,5) apart by (auto simp: extents_ok_def sorted_wrt_append)
qed

lemma dvd_less_next:
  assumes "4096 dvd a" and "4096 dvd b" and "a < b + 4096"
  shows "a \<le> (b :: int)"
  using assms by (auto elim!: dvdE)

lemma add_reserved_ok:
  assumes "reserved_ok (dp, t)" and "0 \<le> sz" and "t + sz + 8192 \<le> 2 ^ 64" and "add_reserved opens (i, path, base, sz) (dp, t) = (Inr u, (dp', t'))"
  shows "reserved_ok (dp', t') \<and> t' = t + sz"
proof -
  have u: "u64 sz = sz" using assms(1-3) by (simp add: u64_def reserved_ok_def)
  obtain rc p1 where add: "ssd_pool_add_device opens path base sz (dp_pool dp) = (rc, p1)" by fastforce
  obtain rc' off p2 where al: "ssd_pool_alloc_on_device (int i) sz p1 = ((rc', off), p2)" by (metis prod.collapse)
  have rc: "rc = UMM_OK" "rc' = UMM_OK" "off = t" and dp': "dp' = dp\<lparr>dp_pool := p2, dp_reservations := dp_reservations dp @ [(off, sz)],
      dp_device_count := Suc (dp_device_count dp)\<rparr>" "t' = t + sz"
    using assms(4) add al u by (auto simp: add_reserved_def Let_def split: if_splits)
  have I: "pool_ok (dp_pool dp)" "extents_ok (dp_pool dp) (dp_reservations dp)" using assms(1) by (simp_all add: reserved_ok_def)
  have "sp_total_capacity (dp_pool dp) + sz + 4096 \<le> 2 ^ 64" using assms(1,3) by (simp add: reserved_ok_def)
  note a = add_device_ok [OF I(1) assms(2) this add [unfolded rc(1)]]
  have ext: "extents_ok p1 (dp_reservations dp)" using I(2) a(3) by (auto simp: extents_ok_def)
  have "sz < 2 ^ 64" using assms(1,3) by (simp add: reserved_ok_def)
  note b = alloc_on_device_ok [OF a(1) assms(2) this al [unfolded rc(2)]]
  have "extents_ok p2 (dp_reservations dp @ [(off, sz)])" using b by (intro extents_ok_snoc [OF ext]) auto
  moreover have "same_shape p1 p2" using b by simp
  note s = same_shape_ok(1) [OF this] same_shape_length [OF this]
  moreover have "sp_total_capacity p2 = sp_total_capacity p1" using b by (simp add: same_shape_def)
  moreover have "sp_total_capacity (dp_pool dp) \<le> t"
  proof (rule dvd_less_next)
    show "4096 dvd sp_total_capacity (dp_pool dp)" using I(1) by (auto simp: pool_ok_def intro: dvdI [of _ _ "int (length (sp_bitmap (dp_pool dp)))"])
    show "4096 dvd t" using b rc(3) by (simp add: extent_ok_def)
  qed (use assms(1) in \<open>simp add: reserved_ok_def\<close>)
  moreover have "(sz + 4095) div 4096 * 4096 \<le> sz + 4095" by (rule page_floor)
  ultimately show ?thesis using a(1,2,4) assms(1,2) by (auto simp: reserved_ok_def dp')
qed

lemma reserve_all_ok:
  assumes "for_each (add_reserved opens) xs (dp, t) = (Inr u, (dp', t'))" and "reserved_ok (dp, t)"
    and "\<forall>(i, path, base, sz) \<in> set xs. 0 \<le> sz" and "t + sum_list (map (\<lambda>(i, path, base, sz). sz) xs) + 8192 \<le> 2 ^ 64"
  shows "reserved_ok (dp', t')"
  using assms
proof (induction xs arbitrary: dp t)
  case (Cons x xs)
  obtain i path base sz where x: "x = (i, path, base, sz)" by (cases x) auto
  obtain r1 dp1 t1 where st: "add_reserved opens x (dp, t) = (r1, (dp1, t1))" by (metis prod.collapse)
  then have st: "add_reserved opens x (dp, t) = (Inr (), (dp1, t1))" and rest: "for_each (add_reserved opens) xs (dp1, t1) = (Inr u, (dp', t'))"
    using Cons.prems(1) by (cases r1; simp)+
  have "0 \<le> sum_list (map (\<lambda>(i, path, base, sz). sz) xs)" using Cons.prems(3) by (intro sum_list_nonneg) auto
  then have "t + sz + 8192 \<le> 2 ^ 64" "0 \<le> sz" using Cons.prems(3,4) x by auto
  then have "reserved_ok (dp1, t1) \<and> t1 = t + sz" using add_reserved_ok Cons.prems(2) st x by blast
  then show ?case using Cons.IH [OF rest] Cons.prems(3,4) x by (auto simp: algebra_simps)
qed simp

lemma free_all_ok:
  assumes "pool_ok (dp_pool dp)" and "extents_ok (dp_pool dp) rs"
  shows "\<exists>p. for_each free_reservation rs dp = (Inr (), dp\<lparr>dp_pool := p\<rparr>) \<and> same_shape (dp_pool dp) p \<and> sp_disk p = sp_disk (dp_pool dp)"
  using assms
proof (induction rs arbitrary: dp)
  case Nil
  show ?case by (intro exI [of _ "dp_pool dp"]) simp
next
  case (Cons r rs)
  let ?p = "dp_pool dp"
  obtain off sz where r: "r = (off, sz)" by fastforce
  have e: "extent_ok ?p off sz" using Cons.prems(2) r by (simp add: extents_ok_def)
  note b = extent_pages [OF Cons.prems(1) e]
  have "sp_total_capacity ?p < 2 ^ 64" using Cons.prems(1) by (simp add: pool_ok_def)
  then have u: "u64 off = off" "u64 sz = sz" using e b(2,3) page_count_bounds [of sz] by (auto simp: u64_def extent_ok_def)
  obtain rc q where q: "ssd_pool_free off sz ?p = (rc, q)" by fastforce
  note f = ssd_pool_free_ok [OF Cons.prems(1) e q]
  have "extent_ok q (fst s) (snd s)" if "s \<in> set rs" for s
  proof (rule extent_shape)
    have "pages_of off sz \<inter> pages_of (fst s) (snd s) = {}" using Cons.prems(2) r that by (simp add: extents_ok_def)
    then show "\<forall>k \<in> pages_of (fst s) (snd s). sp_bitmap ?p ! k \<longrightarrow> sp_bitmap q ! k" using f by blast
    show "same_shape ?p q" "extent_ok ?p (fst s) (snd s)" using f Cons.prems(2) that by (simp_all add: extents_ok_def)
  qed
  then have "extents_ok q rs" using Cons.prems(2) by (simp add: extents_ok_def)
  moreover have "pool_ok q" using f Cons.prems(1) same_shape_ok(1) [of ?p q] by blast
  ultimately obtain p where p: "for_each free_reservation rs (dp\<lparr>dp_pool := q\<rparr>) = (Inr (), dp\<lparr>dp_pool := p\<rparr>)" "same_shape q p" "sp_disk p = sp_disk q"
    using Cons.IH [of "dp\<lparr>dp_pool := q\<rparr>"] by auto
  moreover have "free_reservation r dp = (Inr (), dp\<lparr>dp_pool := q\<rparr>)" using f u q r by (simp add: free_reservation_def pool_check_def)
  ultimately show ?case using f same_shape_trans [of ?p q p] by (intro exI [of _ p]) simp
qed

text \<open>
  C14. The bridge between the storage layers and the native SSD pool fulfils the contract of a chunk
  store: whole-page reads and writes inside a chunk succeed and change that chunk only, allocation
  returns a new chunk, release removes it. Once the pool is opened with sizes that fit 64 bits, building
  the client succeeds, and it is in the state the contract starts from, with no chunk allocated.
\<close>

theorem pool_client_ready:
  assumes "DirectPool opens disk devices = Inr dp" and "\<forall>(path, base, sz) \<in> set devices. 0 \<le> sz"
    and "sum_list (map (\<lambda>(path, base, sz). sz) devices) + 8192 \<le> 2 ^ 64"
  shows "chunk_store PoolClient pc_view pc_inv pc_room \<and>
    (\<exists>c. PoolClient_init dp None = Inr c \<and> pc_inv c \<and> pc_view c = Map.empty \<and> pc_room c (2 ^ 64 - 1))"
proof -
  let ?dp0 = "\<lparr>dp_pool = ssd_pool_create disk, dp_reservations = [], dp_device_count = 0\<rparr>" and ?xs = "zip [0..<length devices] devices"
  obtain r dp1 t1 where loop: "for_each (add_reserved opens) ?xs (?dp0, 0) = (r, (dp1, t1))" by (metis prod.collapse)
  then obtain u where "r = Inr u" and dp: "dp1 = dp" using assms(1) by (cases r) (auto simp: DirectPool_def split: if_splits)
  note loop = loop [unfolded this]
  have "map (\<lambda>(i, path, base, sz). sz) ?xs = map (\<lambda>(path, base, sz). sz) devices" by (rule nth_equalityI) (simp_all add: case_prod_unfold)
  moreover have "reserved_ok (?dp0, 0)" by (simp add: reserved_ok_def extents_ok_def pool_ok_def ssd_pool_create_def)
  moreover have "\<forall>(i, path, base, sz) \<in> set ?xs. 0 \<le> sz" using assms(2) by (auto dest: set_zip_rightD)
  ultimately have "reserved_ok (dp, t1)" using reserve_all_ok [OF loop] assms(3) by simp
  then have ok: "pool_ok (dp_pool dp)" "dp_device_count dp = length (sp_devices (dp_pool dp))" "extents_ok (dp_pool dp) (dp_reservations dp)"
    by (simp_all add: reserved_ok_def)
  obtain p where p: "for_each free_reservation (dp_reservations dp) dp = (Inr (), dp\<lparr>dp_pool := p\<rparr>)" "same_shape (dp_pool dp) p"
    using free_all_ok [OF ok(1,3)] by blast
  then have "\<exists>c. PoolClient_init dp None = Inr c \<and> pc_inv c \<and> pc_view c = Map.empty \<and> pc_room c (2 ^ 64 - 1)"
    using ok same_shape_ok(1) [OF p(2)] same_shape_length [OF p(2)]
    by (auto simp: PoolClient_init_def pc_inv_def live_ok_def watch_ok_def pc_view_def pc_room_def)
  then show ?thesis using pool_store.chunk_store_axioms by blast
qed

theorem pool_client_ready_witness:
  "\<exists>dp c. DirectPool (\<lambda>path base cap. cap \<le> 12288) (\<lambda>_ _. 0) [(''/dev/a'', 4096, 8192), (''/dev/b'', 0, 4096)] = Inr dp \<and>
     length (dp_reservations dp) = 2 \<and> PoolClient_init dp None = Inr c \<and> pc_inv c"
proof -
  let ?D = "DirectPool (\<lambda>path base cap. cap \<le> 12288) (\<lambda>_ _. 0) [(''/dev/a'', 4096, 8192), (''/dev/b'', 0, 4096)]"
  have "\<exists>dp. ?D = Inr dp \<and> length (dp_reservations dp) = 2"
    by (simp add: DirectPool_def add_reserved_def ssd_pool_create_def ssd_pool_add_device_def ssd_pool_alloc_on_device_def
        u64_def page_count_def bm_find_free_def bm_scan.simps bm_fill_def UMM_OK_def SSD_POOL_PAGE_SIZE_def SSD_POOL_MAX_DEVICES_def numeral_eq_Suc)
  then obtain dp where dp: "?D = Inr dp" "length (dp_reservations dp) = 2" by blast
  show ?thesis using pool_client_ready [OF dp(1)] dp by auto
qed

end
