(* ===== verification/Spec2Isabelle.thy ===== *)
theory Spec2Isabelle
  imports CtypesLayout Allocator Segment ConcurrentIO SparseCorrect PpaSelection MultiDevice ConvertTrace DumpHook
    CheckDumps QualityRun WaitHandles PoolClient
begin

text \<open>
  \<^bold>\<open>The program.\<close> bmpclient is the Python side of a unified memory manager (UMM) and of a sparse
  key/value store for long-context attention. The client library binds the C library \<open>libumm\<close>, cuts
  its chunks into blocks, spreads fixed-size units over SSD extents and offloads the KV rows of a
  request. Around it stand trace-driven benchmarks and the tools that replay which rows an attention
  layer selects, replace rows that miss the cache by rows that are cheaper to read, and evaluate the
  choice on an SSD simulator or online in the inference server, where further tools prepare questions,
  collect answers with and without the replacement, and compare them.

  \<^bold>\<open>Theories and sources\<close> (paths under \<open>src/\<close>).

  \<^item> \<open>Prelude\<close>, \<open>PyValues\<close>: exceptions as the datatype \<open>py_error\<close>, results as sums, outcomes that keep the
    state an exception leaves behind, Python slices, dictionaries in insertion order, JSON values and the
    conversions \<open>int\<close> and \<open>str\<close>.
  \<^item> \<open>CtypesLayout\<close>, \<open>UmmLib\<close> (\<open>bmpclient/umm_client.py\<close>): the ctypes structures and their C layout, and every
    method of \<open>UMMLib\<close> over a record of C entry points. The locale \<open>chunk_store\<close> states what the layers above
    use of a library.
  \<^item> \<open>FakeClib\<close> (\<open>bmpclient/testing.py\<close>): the in-memory library, interpreted as a \<open>chunk_store\<close>.
  \<^item> \<open>Client\<close> (\<open>bmpclient/client.py\<close>): the session object; locale \<open>chunk_service\<close>.
  \<^item> \<open>ChunkBuffer\<close>, \<open>Allocator\<close> (\<open>bmpclient/allocator.py\<close>): the first-fit free list of a chunk, the contract
    \<open>region\<close> it fulfils, and the fine-grained allocator over it.
  \<^item> \<open>Strategy\<close>, \<open>DefaultPrime\<close> (\<open>bmpclient/virtual_media_strategy.py\<close>, \<open>virtual_media_config.py\<close>): primality test,
    position hash, registry, configuration; contract \<open>placement\<close>; the default modulus is prime.
  \<^item> \<open>Segment\<close> (\<open>bmpclient/_vm_segment.py\<close>): the write-side manager of one extent.
  \<^item> \<open>ConcurrentIO\<close> (\<open>bmpclient/concurrent_io.py\<close>): handles, sharding, execution, and the engine as a step
    relation of submitters, queues and workers. \<open>WaitHandles\<close>: \<open>wait\<close> and \<open>wait_all\<close> over completion times,
    \<open>wait_any\<close> as a transition system with its event and the callbacks of the handles.
  \<^item> \<open>VirtualMedia\<close>, \<open>MediaCorrect\<close> (\<open>bmpclient/virtual_media.py\<close>): construction with clean-up, writes, flushes,
    batched reads with merged runs, release and close.
  \<^item> \<open>SlotTable\<close>, \<open>SparseStore\<close>, \<open>SparseCorrect\<close> (\<open>bmpclient/sparse_kv/\<close>): packed slots, the store, and its
    refinement of a map from (layer, token) to bytes.
  \<^item> \<open>TraceBench\<close> (\<open>bmpclient/bench/single_ssd.py\<close>), \<open>MultiDevice\<close> (\<open>bench/multi_device.py\<close>, \<open>geometry\<close> of
    \<open>bench/layout_replay.py\<close>), \<open>ConvertTrace\<close> (\<open>bench/convert_trace.py\<close>): trace loading, read planning, replay,
    capacity planning and the conversion of CSV and JSON traces.
  \<^item> \<open>SsdPool\<close> (\<open>umm/src/transport/ssd_pool.c\<close>, \<open>ssd_backend_direct.c\<close>): the part of the native SSD pool the
    benchmarks call: page bitmap, devices, allocation, release, translation, page reads and writes.
    \<open>PoolClient\<close> (\<open>DirectPool\<close> of \<open>bench/single_ssd.py\<close>, \<open>PoolClient\<close> of \<open>bench/layout_replay.py\<close>): the bridge
    to it, interpreted as a \<open>chunk_store\<close>, so that the theorems of the storage layers hold on the pool.
  \<^item> \<open>PpaSelection\<close> (\<open>scripts/ppa_selection.py\<close>): batch LRU, page mapping and the greedy exchange.
  \<^item> \<open>HbmSim\<close> (\<open>scripts/simulate_hbm_candidates.py\<close>, \<open>scripts/export_hbm_miss_traces.py\<close>,
    \<open>validate_miss_trace\<close>): replay of dumps against caches and exported miss traces.
  \<^item> \<open>MqsimOracle\<close> (\<open>scripts/mqsim_ppa_oracle.py\<close>), \<open>ExportPpa\<close> (\<open>scripts/export_ppa_candidates.py\<close>): candidate
    exports, planning of every strategy against the shared baseline cache, attribution of NAND reads.
  \<^item> \<open>DumpHook\<close> (\<open>scripts/dsa_hook/dsa_dump_hook.py\<close>): the hook every tensor-parallel rank runs after the fused
    top-k. \<open>CheckDumps\<close> (\<open>scripts/dsa_hook/check_dumps.py\<close>): the checker of a dump directory.
  \<^item> \<open>QualityCommon\<close> (\<open>scripts/quality/common.py\<close>): identifiers, scoring, the data-set loader, percentiles.
    \<open>QualityData\<close> (\<open>sample_dataset.py\<close>, \<open>convert_datasets.py\<close>, \<open>make_passkey_dataset.py\<close>): sampling, conversion and
    generation of data sets. \<open>QualityRun\<close> (\<open>run_quality_collection.py\<close>, \<open>reconcile_swaps.py\<close>,
    \<open>analyze_quality.py\<close>): the serial run, the reconciliation of losses with swaps, the comparison of two runs.

  \<^bold>\<open>How state corresponds.\<close> An object is a record, a dictionary an association list in insertion order
  or a map, a set of tokens a HOL set; an operation takes and returns the state, and a method under a
  lock is one step. Where threads interleave the model is a step relation with reachable states. C
  integers keep their width. A loop without a bound of its own is a \<open>partial_function\<close> in the option
  monad and is proved to return.

  \<^bold>\<open>What is shown.\<close> Storage: chunks, blocks and units are disjoint and keep their bytes, extents and
  chunks are returned, the store refines a map, the plan describes what is stored, reads return what
  was written for every completion order; the contract all this rests on is met by the in-memory
  library and by the bridge to the native pool. Engine: counters, completeness of handles, order within a
  chunk. Benchmarks: accepted arguments make preparation and replay succeed, reserved capacities
  suffice, converted and exported traces are accepted by their consumers. Selection: an exchange
  touches misses only and lowers the objective, every strategy reads the same volume as the baseline,
  NAND reads are charged to the layer in whose interval they lie. Hook: dumps load again, the online
  cache trajectory is the one replayed offline, all ranks attend over the same tokens, a directory the
  checker accepts can be replayed. Waiting: no wake-up is lost, a common deadline is kept. Quality: samples
  never share a dump directory, a run appends one row per pending example and counts it, round robin
  balances the tasks, converted rows load, prompts are built in finitely many steps, the summary of two
  runs is consistent. Error theorems record where the code departs from its intent.

  \<^bold>\<open>Bounds and fuel.\<close> No fuel is used. Recursions end by structure or by a measure (\<open>is_prime_loop\<close>,
  \<open>show_nat\<close>, \<open>advance\<close>, the CSV reader, \<open>pick_loop\<close>, \<open>trim_loop\<close>, \<open>gold_from\<close>);
  \<open>fill_loop\<close>, whose end depends on the tokenizer, is a \<open>partial_function\<close>. Limits in the theorems are those
  of the code: 64-bit slots, 48-bit offsets, 2048 native and 2400 reference rows, 65535 sectors per command.

  \<^bold>\<open>Parameters.\<close> The C library, reading a dump file, SHAKE-256, the hashes of the tools, \<open>random.sample\<close>, the
  other random choices, tokenizers, the inference server, parsed JSON lines, the read and write
  functions of the single-device benchmark, opening a device, the simulator's tables and the device's reference ranking are arguments of the
  definitions; theorems that need something of them say so, and their witnesses give an instance.

  \<^bold>\<open>Not modelled.\<close> The C sources under \<open>umm/\<close> other than the pool operations above, and
  transfer errors of the operating system; timing, statistics,
  progress and report files of the benchmarks; the timed trials of \<open>layout_replay.py\<close>; running
  and configuring the simulator and resuming its cases; rounding of floating-point rates; the
  request payloads and the decoding of replies in \<open>completion\<close>; the driver \<open>bench_hbm_misses.py\<close>, the
  demonstration, simulation and diagram scripts, which drive servers or print and have no state of their
  own; tests.
\<close>

end
